(* ===== verification/Prelude.thy ===== *)
theory Prelude
  imports Main "HOL-Library.Word"
begin

unbundle bit_operations_syntax

text \<open>
  Shared vocabulary of the development: machine types, what a utility leaves behind
  (standard output, diagnostics, exit status), the kernel's side of a file descriptor as a
  script of \<open>read\<close> results, the C library routines the utilities call (\<open>strcmp\<close>,
  \<open>bsearch\<close>, \<open>getopt\<close>, decimal printing) and the lemmas on lists and words that the
  component theories share.
\<close>

section \<open>Types\<close>

type_synonym u8 = "8 word"
type_synonym u16 = "16 word"
type_synonym u32 = "32 word"
type_synonym u64 = "64 word"
type_synonym bytes = "u8 list"

named_theorems byte_simps \<open>rewriting of byte and register operations\<close>
named_theorems stream_simps \<open>rewriting of descriptor scripts\<close>

section \<open>Diagnostics and outcomes of a run\<close>

text \<open>
  A diagnostic line: \<open>Warn\<close> is \<open>warn(3)\<close> (the text, then the \<open>strerror\<close> text of
  \<open>errno\<close>), \<open>Warnx\<close> is \<open>warnx(3)\<close>, \<open>Errmsg\<close>/\<open>Errxmsg\<close> the last words of
  \<open>err(3)\<close>/\<open>errx(3)\<close>, \<open>Plain\<close> text written to \<open>stderr\<close> as it is.
\<close>

datatype diag = Warn string | Warnx string | Errmsg string | Errxmsg string | Plain string

record outcome =
  stdout :: string
  stderr :: "diag list"
  status :: nat

section \<open>Results that may stop\<close>

text \<open>A routine that can stop the program returns a sum: \<open>Inl\<close> the reason it stopped,
  \<open>Inr\<close> its result; \<open>bind_r\<close> runs the rest of the code on the result.\<close>

definition bind_r :: "'e + 'a \<Rightarrow> ('a \<Rightarrow> 'e + 'b) \<Rightarrow> 'e + 'b" where
  "bind_r r f = (case r of Inl e \<Rightarrow> Inl e | Inr a \<Rightarrow> f a)"

lemma bind_r_simps [simp]: "bind_r (Inl e) f = Inl e" "bind_r (Inr a) f = f a"
  by (simp_all add: bind_r_def)

lemma bind_r_Inr: "bind_r r f = Inr b \<longleftrightarrow> (\<exists>a. r = Inr a \<and> f a = Inr b)"
  by (cases r) auto

lemma bind_r_split: "P (bind_r r f) \<longleftrightarrow> (\<forall>e. r = Inl e \<longrightarrow> P (Inl e)) \<and> (\<forall>a. r = Inr a \<longrightarrow> P (f a))"
  by (cases r) auto

lemma bind_r_cong [fundef_cong]:
  "r = r' \<Longrightarrow> (\<And>a. r' = Inr a \<Longrightarrow> f a = g a) \<Longrightarrow> bind_r r f = bind_r r' g"
  by (cases r') auto

text \<open>The same for a computation that may not return (\<open>None\<close>).\<close>

definition bind_run :: "('e + 'a) option \<Rightarrow> ('a \<Rightarrow> ('e + 'b) option) \<Rightarrow> ('e + 'b) option" where
  "bind_run r f = (case r of None \<Rightarrow> None | Some (Inl e) \<Rightarrow> Some (Inl e) | Some (Inr a) \<Rightarrow> f a)"

lemma bind_run_cong [fundef_cong]:
  "r = r' \<Longrightarrow> (\<And>a. r' = Some (Inr a) \<Longrightarrow> f a = g a) \<Longrightarrow> bind_run r f = bind_run r' g"
  by (auto simp: bind_run_def split: option.splits sum.splits)

lemma bind_run_Inr: "bind_run r f = Some (Inr b) \<longleftrightarrow> (\<exists>a. r = Some (Inr a) \<and> f a = Some (Inr b))"
  by (auto simp: bind_run_def split: option.splits sum.splits)

lemma bind_run_simps [simp]:
  "bind_run None f = None" "bind_run (Some (Inl e)) f = Some (Inl e)" "bind_run (Some (Inr a)) f = f a"
  by (simp_all add: bind_run_def)

section \<open>Descriptors: a script of read results\<close>

text \<open>
  The kernel's answers to \<open>read(2)\<close> on one descriptor, in order: some bytes are
  available, or the call fails. A zero-length answer is an end of file (a tape mark or a
  terminal's end-of-file key, after which reading may go on); once the script is empty every
  read returns 0. A read never returns more than it asked for; what it left is returned by
  the next one.
\<close>

datatype rd = Data bytes | Rerr

type_synonym instream = "rd list"

fun c_read :: "instream \<Rightarrow> nat \<Rightarrow> bytes option \<times> instream" where
  "c_read [] n = (Some [], [])"
| "c_read (Rerr # r) n = (None, r)"
| "c_read (Data bs # r) n =
     (if length bs \<le> n then (Some bs, r) else (Some (take n bs), Data (drop n bs) # r))"

fun rd_size :: "rd \<Rightarrow> nat" where
  "rd_size (Data bs) = Suc (length bs)"
| "rd_size Rerr = 1"

definition script_size :: "instream \<Rightarrow> nat" where
  "script_size fd = sum_list (map rd_size fd)"

lemma script_size_simps [simp]:
  "script_size [] = 0"
  "script_size (d # r) = rd_size d + script_size r"
  by (simp_all add: script_size_def)

lemma c_read_length: "c_read fd n = (Some bs, fd') \<Longrightarrow> length bs \<le> n"
  by (induction fd n rule: c_read.induct) (auto split: if_splits)

lemma c_read_script_size:
  "c_read fd n = (Some bs, fd') \<Longrightarrow> bs \<noteq> [] \<Longrightarrow> script_size fd' < script_size fd"
  by (induction fd n rule: c_read.induct) (auto split: if_splits)

lemma c_read_script_size_err: "c_read fd n = (None, fd') \<Longrightarrow> script_size fd' < script_size fd"
  by (induction fd n rule: c_read.induct) (auto split: if_splits)

text \<open>
  The loop all buffered readers share:
  \<open>while ((nr = read(fd, buf, sizeof(buf))) > 0) for (p = buf; nr--; ++p) \<dots>\<close>.
  The flag says whether it stopped on an error (\<open>nr < 0\<close>).
\<close>

function read_loop :: "nat \<Rightarrow> (u8 \<Rightarrow> 's \<Rightarrow> 's) \<Rightarrow> 's \<Rightarrow> instream \<Rightarrow> bool \<times> 's \<times> instream" where
  "read_loop n step s fd =
     (case c_read fd n of
        (None, fd') \<Rightarrow> (True, s, fd')
      | (Some bs, fd') \<Rightarrow>
          if bs = [] then (False, s, fd') else read_loop n step (fold step bs s) fd')"
  by pat_completeness auto
termination
  by (relation "measure (\<lambda>(n, step, s, fd). script_size fd)")
    (auto dest: c_read_script_size [OF sym])

declare read_loop.simps [simp del]

text \<open>What a descriptor holds up to its first end of file, or \<open>None\<close> if an error comes first.\<close>

fun contents :: "instream \<Rightarrow> bytes option" where
  "contents [] = Some []"
| "contents (Rerr # r) = None"
| "contents (Data bs # r) = (if bs = [] then Some [] else map_option ((@) bs) (contents r))"

lemma c_read_contents:
  assumes "0 < n"
  shows "contents fd =
    (case c_read fd n of
       (None, fd') \<Rightarrow> None
     | (Some bs, fd') \<Rightarrow> if bs = [] then Some [] else map_option ((@) bs) (contents fd'))"
  using assms
  by (cases fd rule: contents.cases) (auto simp: option.map_comp comp_def simp flip: append_assoc)

text \<open>The loop's result is a fold over the contents: the block size and the kernel's short
  reads do not matter.\<close>

lemma read_loop_contents:
  assumes "0 < n"
  shows "case contents fd of
      None \<Rightarrow> fst (read_loop n step s fd)
    | Some bs \<Rightarrow> \<not> fst (read_loop n step s fd) \<and> fst (snd (read_loop n step s fd)) = fold step bs s"
  using assms
proof (induction n step s fd rule: read_loop.induct)
  case (1 n step s fd)
  note unf = c_read_contents [OF "1.prems", of fd] read_loop.simps [of n step s fd]
  show ?case
    using "1.IH" "1.prems" unfolding unf
    by (auto split: option.splits prod.splits if_splits)
qed

section \<open>C library: strings and sorted tables\<close>

text \<open>\<open>strcmp(3)\<close> on NUL-free strings: the sign of the first difference of the bytes.\<close>

fun strcmp :: "string \<Rightarrow> string \<Rightarrow> int" where
  "strcmp [] [] = 0"
| "strcmp [] (b # bs) = -1"
| "strcmp (a # as) [] = 1"
| "strcmp (a # as) (b # bs) =
     (if a = b then strcmp as bs else if (of_char a :: nat) < of_char b then -1 else 1)"

lemma strcmp_eq_0 [simp]: "strcmp a b = 0 \<longleftrightarrow> a = b"
  by (induction a b rule: strcmp.induct) auto

lemma strcmp_refl [simp]: "strcmp a a = 0"
  by simp

lemma strcmp_sym: "strcmp b a = - strcmp a b"
proof (induction a b rule: strcmp.induct)
  case (4 a as b bs)
  show ?case
  proof (cases "a = b")
    case True
    with 4 show ?thesis by simp
  next
    case False
    then have "(of_char a :: nat) \<noteq> of_char b" by simp
    with False show ?thesis by auto
  qed
qed simp_all

lemma strcmp_trans: "strcmp a b < 0 \<Longrightarrow> strcmp b c < 0 \<Longrightarrow> strcmp a c < 0"
proof (induction a b arbitrary: c rule: strcmp.induct)
  case (4 a as b bs)
  then show ?case by (cases c) (auto split: if_splits)
next
  case (2 b bs)
  then show ?case by (cases c) auto
qed auto

text \<open>
  \<open>bsearch(3)\<close> over a table of named entries: the C library's loop
  \<open>for (lim = nmemb; lim != 0; lim >>= 1)\<close> with \<open>base\<close> moving up on the right half.
\<close>

function bsearch_loop :: "('e \<Rightarrow> string) \<Rightarrow> string \<Rightarrow> 'e list \<Rightarrow> nat \<Rightarrow> nat \<Rightarrow> 'e option" where
  "bsearch_loop nm key tab base lim =
     (if lim = 0 then None
      else let p = base + lim div 2; c = strcmp key (nm (tab ! p)) in
        if c = 0 then Some (tab ! p)
        else if 0 < c then bsearch_loop nm key tab (p + 1) ((lim - 1) div 2)
        else bsearch_loop nm key tab base (lim div 2))"
  by pat_completeness auto
termination
  by (relation "measure (\<lambda>(nm, key, tab, base, lim). lim)") auto

declare bsearch_loop.simps [simp del]

definition bsearch :: "('e \<Rightarrow> string) \<Rightarrow> string \<Rightarrow> 'e list \<Rightarrow> 'e option" where
  "bsearch nm key tab = bsearch_loop nm key tab 0 (length tab)"

definition name_sorted :: "('e \<Rightarrow> string) \<Rightarrow> 'e list \<Rightarrow> bool" where
  "name_sorted nm tab = sorted_wrt (\<lambda>a b. strcmp (nm a) (nm b) < 0) tab"

lemma bsearch_loop_Some:
  "bsearch_loop nm key tab base lim = Some e \<Longrightarrow> base + lim \<le> length tab \<Longrightarrow>
     e \<in> set tab \<and> nm e = key"
proof (induction nm key tab base lim rule: bsearch_loop.induct)
  case (1 nm key tab base lim)
  from 1 show ?case
    by (subst (asm) (3) bsearch_loop.simps) (auto simp: Let_def split: if_splits)
qed

lemma bsearch_loop_None:
  "bsearch_loop nm key tab base lim = None \<Longrightarrow> name_sorted nm tab \<Longrightarrow>
     base + lim \<le> length tab \<Longrightarrow> base \<le> i \<Longrightarrow> i < base + lim \<Longrightarrow> nm (tab ! i) \<noteq> key"
proof (induction nm key tab base lim rule: bsearch_loop.induct)
  case (1 nm key tab base lim)
  define p where "p = base + lim div 2"
  define c where "c = strcmp key (nm (tab ! p))"
  have lim: "lim \<noteq> 0" using 1 by simp
  then have p: "p < length tab" using 1 by (simp add: p_def)
  have srt: "\<And>i j. i < j \<Longrightarrow> j < length tab \<Longrightarrow> strcmp (nm (tab ! i)) (nm (tab ! j)) < 0"
    using 1 by (auto simp: name_sorted_def sorted_wrt_iff_nth_less)
  have c0: "c \<noteq> 0"
    using "1.prems"(1) lim by (subst (asm) bsearch_loop.simps) (auto simp: p_def c_def Let_def)
  show ?case
  proof (cases "0 < c")
    case True
    then have r: "bsearch_loop nm key tab (p + 1) ((lim - 1) div 2) = None"
      using "1.prems"(1) lim c0 by (subst (asm) bsearch_loop.simps) (auto simp: p_def c_def Let_def)
    have bnd: "p + 1 + (lim - 1) div 2 = base + lim" using lim by (simp add: p_def)
    show ?thesis
    proof (cases "i \<le> p")
      case True
      then have "strcmp (nm (tab ! i)) (nm (tab ! p)) \<le> 0"
        using srt [of i p] p by (cases "i = p") auto
      moreover have "strcmp (nm (tab ! p)) key < 0"
        using \<open>0 < c\<close> by (simp add: c_def strcmp_sym [of key])
      ultimately show ?thesis using strcmp_sym [of "nm (tab ! p)" "nm (tab ! i)"] by auto
    next
      case False
      then show ?thesis
        using "1.IH"(1) [of p c] r True lim c0 1(5) bnd 1(4,7) by (auto simp: p_def c_def)
    qed
  next
    case False
    then have r: "bsearch_loop nm key tab base (lim div 2) = None"
      using "1.prems"(1) lim c0 by (subst (asm) bsearch_loop.simps) (auto simp: p_def c_def Let_def)
    show ?thesis
    proof (cases "i < p")
      case True
      then show ?thesis
        using "1.IH"(2) [of p c] r False lim c0 1(4-6) by (auto simp: p_def c_def)
    next
      case False
      then have "strcmp (nm (tab ! p)) (nm (tab ! i)) \<le> 0"
        using srt [of p i] 1(5,7) by (cases "i = p") auto
      then show ?thesis
        using \<open>\<not> 0 < c\<close> c0 strcmp_sym [of "nm (tab ! i)" "nm (tab ! p)"]
          strcmp_eq_0 [of "nm (tab ! p)" "nm (tab ! i)"]
        by (auto simp: c_def simp del: strcmp_eq_0)
    qed
  qed
qed

lemma bsearch_sorted:
  assumes "name_sorted nm tab"
  shows "(bsearch nm key tab = None \<longleftrightarrow> key \<notin> nm ` set tab) \<and>
    (\<forall>e. bsearch nm key tab = Some e \<longrightarrow> e \<in> set tab \<and> nm e = key)"
proof (cases "bsearch nm key tab")
  case None
  then show ?thesis
    using bsearch_loop_None [of nm key tab 0 "length tab"] assms
    by (force simp: bsearch_def in_set_conv_nth)
next
  case (Some e)
  then show ?thesis
    using bsearch_loop_Some [of nm key tab 0 "length tab" e] by (auto simp: bsearch_def)
qed

section \<open>C library: getopt\<close>

text \<open>
  \<open>getopt(3)\<close> as the C library scans an argument vector: options are taken until the
  first word that is not an option (a word not starting with \<open>-\<close>, or a lone \<open>-\<close>)
  or until \<open>--\<close>, which is skipped. Each call's return value is one event.
\<close>

datatype optev = Opt char "string option" | BadOpt char | MissingArg char

fun takes_arg :: "string \<Rightarrow> char \<Rightarrow> bool" where
  "takes_arg (o1 # o2 # os) c = (if o1 = c then o2 = CHR '':'' else takes_arg (o2 # os) c)"
| "takes_arg _ c = False"

fun opt_cluster :: "string \<Rightarrow> string \<Rightarrow> string list \<Rightarrow> optev list \<times> string list" where
  "opt_cluster ostr [] rest = ([], rest)"
| "opt_cluster ostr (c # place) rest =
     (if c = CHR '':'' \<or> c \<notin> set ostr then
        (case opt_cluster ostr place rest of (evs, r) \<Rightarrow> (BadOpt c # evs, r))
      else if takes_arg ostr c then
        (if place \<noteq> [] then ([Opt c (Some place)], rest)
         else case rest of [] \<Rightarrow> ([MissingArg c], []) | a # rest' \<Rightarrow> ([Opt c (Some a)], rest'))
      else (case opt_cluster ostr place rest of (evs, r) \<Rightarrow> (Opt c None # evs, r)))"

lemma opt_cluster_shrinks: "opt_cluster ostr place rest = (evs, r) \<Longrightarrow> length r \<le> length rest"
  by (induction ostr place rest arbitrary: evs r rule: opt_cluster.induct)
    (auto split: if_splits list.splits prod.splits)

function getopt :: "string \<Rightarrow> string list \<Rightarrow> optev list \<times> string list" where
  "getopt ostr args =
     (case args of
        [] \<Rightarrow> ([], [])
      | a # rest \<Rightarrow>
          if length a < 2 \<or> hd a \<noteq> CHR ''-'' then ([], args)
          else if a = ''--'' then ([], rest)
          else (case opt_cluster ostr (tl a) rest of (evs, r) \<Rightarrow>
                 (case getopt ostr r of (evs', r') \<Rightarrow> (evs @ evs', r'))))"
  by pat_completeness auto
termination
  by (relation "measure (\<lambda>(ostr, args). length args)")
    (auto dest!: opt_cluster_shrinks [OF sym])

declare getopt.simps [simp del]

section \<open>File modes\<close>

definition S_IFMT :: u16 where "S_IFMT = 0xF000"
definition S_IFIFO :: u16 where "S_IFIFO = 0x1000"
definition S_IFCHR :: u16 where "S_IFCHR = 0x2000"
definition S_IFDIR :: u16 where "S_IFDIR = 0x4000"
definition S_IFBLK :: u16 where "S_IFBLK = 0x6000"
definition S_IFREG :: u16 where "S_IFREG = 0x8000"
definition S_IFLNK :: u16 where "S_IFLNK = 0xA000"
definition S_IFSOCK :: u16 where "S_IFSOCK = 0xC000"
definition S_ISUID :: u16 where "S_ISUID = 0x0800"
definition S_ISGID :: u16 where "S_ISGID = 0x0400"
definition S_ISVTX :: u16 where "S_ISVTX = 0x0200"

section \<open>C library: number parsing\<close>

definition digit_val :: "char \<Rightarrow> nat" where
  "digit_val c = (let n = of_char c :: nat in
     if 48 \<le> n \<and> n \<le> 57 then n - 48
     else if 97 \<le> n \<and> n \<le> 122 then n - 87
     else if 65 \<le> n \<and> n \<le> 90 then n - 55 else 36)"

definition c_isspace :: "char \<Rightarrow> bool" where
  "c_isspace c = (let n = of_char c :: nat in n = 32 \<or> (9 \<le> n \<and> n \<le> 13))"

text \<open>The digits of base \<open>b\<close> at the start of a string: their value, their number, the rest.\<close>

fun digits :: "nat \<Rightarrow> int \<Rightarrow> string \<Rightarrow> int \<times> nat \<times> string" where
  "digits b v [] = (v, 0, [])"
| "digits b v (c # cs) =
     (if digit_val c < b
      then let r = digits b (v * int b + int (digit_val c)) cs in (fst r, Suc (fst (snd r)), snd (snd r))
      else (v, 0, c # cs))"

lemma digits_rest: "length (snd (snd (digits b v s))) + fst (snd (digits b v s)) = length s"
  by (induction b v s rule: digits.induct) (auto simp: Let_def)

text \<open>The \<open>strtol\<close> family with base 0 on a result type with range \<open>lo\<close> to \<open>hi\<close>:
  the value, the unread rest, and whether \<open>errno\<close> was set to \<open>ERANGE\<close>. Without digits the
  rest is the whole string.\<close>

definition strto :: "int \<Rightarrow> int \<Rightarrow> string \<Rightarrow> int \<times> string \<times> bool" where
  "strto lo hi s =
     (let s1 = dropWhile c_isspace s;
          neg = (s1 \<noteq> [] \<and> hd s1 = CHR ''-'');
          s2 = (if s1 \<noteq> [] \<and> (hd s1 = CHR ''-'' \<or> hd s1 = CHR ''+'') then tl s1 else s1);
          hex = (2 < length s2 \<and> s2 ! 0 = CHR ''0'' \<and> (s2 ! 1 = CHR ''x'' \<or> s2 ! 1 = CHR ''X'') \<and>
                 digit_val (s2 ! 2) < 16);
          b = (if hex then 16 else if s2 \<noteq> [] \<and> hd s2 = CHR ''0'' then 8 else 10);
          r = digits b 0 (if hex then drop 2 s2 else s2) in
      if fst (snd r) = 0 then (0, s, False)
      else let v = (if neg then - fst r else fst r) in
        if v > hi then (hi, snd (snd r), True)
        else if v < lo then (lo, snd (snd r), True)
        else (v, snd (snd r), False))"

text \<open>\<open>strtol(s, &p, 10)\<close>: the value, the unread rest, whether there were no digits, whether the
  value was out of range.\<close>

definition strtol_10 :: "int \<Rightarrow> int \<Rightarrow> string \<Rightarrow> int \<times> string \<times> bool \<times> bool" where
  "strtol_10 lo hi s =
     (let s1 = dropWhile c_isspace s;
          neg = (s1 \<noteq> [] \<and> hd s1 = CHR ''-'');
          s2 = (if s1 \<noteq> [] \<and> (hd s1 = CHR ''-'' \<or> hd s1 = CHR ''+'') then tl s1 else s1);
          r = digits 10 0 s2 in
      if fst (snd r) = 0 then (0, s, True, False)
      else let v = (if neg then - fst r else fst r) in
        if v > hi then (hi, snd (snd r), False, True)
        else if v < lo then (lo, snd (snd r), False, True)
        else (v, snd (snd r), False, False))"

lemma strto_rest: "fst (snd (strto lo hi s)) = s \<or> length (fst (snd (strto lo hi s))) < length s"
proof -
  define s1 where "s1 = dropWhile c_isspace s"
  define s2 where "s2 = (if s1 \<noteq> [] \<and> (hd s1 = CHR ''-'' \<or> hd s1 = CHR ''+'') then tl s1 else s1)"
  define hex where "hex = (2 < length s2 \<and> s2 ! 0 = CHR ''0'' \<and> (s2 ! 1 = CHR ''x'' \<or> s2 ! 1 = CHR ''X'') \<and>
                 digit_val (s2 ! 2) < 16)"
  define b :: nat where "b = (if hex then 16 else if s2 \<noteq> [] \<and> hd s2 = CHR ''0'' then 8 else 10)"
  define u where "u = (if hex then drop 2 s2 else s2)"
  define r where "r = digits b 0 u"
  have "length s2 \<le> length s" using length_dropWhile_le [of c_isspace s] by (auto simp: s2_def s1_def)
  then have "length u \<le> length s" by (auto simp: u_def)
  then have "fst (snd r) = 0 \<or> length (snd (snd r)) < length s"
    using digits_rest [of b 0 u] by (auto simp: r_def)
  then show ?thesis
    unfolding strto_def Let_def s1_def [symmetric] s2_def [symmetric] hex_def [symmetric]
      b_def [symmetric] u_def [symmetric] r_def [symmetric] by auto
qed


section \<open>C library: decimal output\<close>

definition digit_char :: "nat \<Rightarrow> char" where
  "digit_char d = char_of (48 + d)"

fun show_nat :: "nat \<Rightarrow> string" where
  "show_nat n = (if n < 10 then [digit_char n] else show_nat (n div 10) @ [digit_char (n mod 10)])"

declare show_nat.simps [simp del]

lemma of_char_digit: "d < 10 \<Longrightarrow> (of_char (digit_char d) :: nat) = 48 + d"
  by (simp add: digit_char_def)

lemma digit_val_digit: "d < 10 \<Longrightarrow> digit_val (digit_char d) = d"
  by (simp add: digit_val_def of_char_digit)

lemma digits_append:
  "\<forall>c \<in> set ds. digit_val c < b \<Longrightarrow>
     digits b v (ds @ r) =
       (let w = digits b (foldl (\<lambda>v c. v * int b + int (digit_val c)) v ds) r in
        (fst w, length ds + fst (snd w), snd (snd w)))"
  by (induction ds arbitrary: v) (simp_all add: Let_def)

lemma show_nat_digits:
  "(\<forall>c \<in> set (show_nat n). \<exists>d < 10. c = digit_char d) \<and> show_nat n \<noteq> [] \<and>
   (0 < n \<longrightarrow> (\<exists>d \<in> {1..9}. hd (show_nat n) = digit_char d)) \<and>
   foldl (\<lambda>v c. v * 10 + int (digit_val c)) 0 (show_nat n) = int n"
proof (induction n rule: show_nat.induct)
  case (1 n)
  show ?case
  proof (cases "n < 10")
    case True
    then show ?thesis by (auto simp: show_nat.simps [of n] digit_val_digit intro!: bexI [of _ n])
  next
    case False
    have m: "n mod 10 < 10" "0 < n div 10" using False by (simp_all add: div_greater_zero_iff)
    have "int (n div 10) * 10 + int (n mod 10) = int n" by (simp add: zdiv_int zmod_int)
    moreover have "\<exists>d<10. digit_char (n mod 10) = digit_char d" using m(1) by blast
    ultimately show ?thesis using 1 [OF False] False m
      by (auto simp: show_nat.simps [of n] digit_val_digit)
  qed
qed

lemma strto_number:
  assumes "0 < n" "r = [] \<or> 10 \<le> digit_val (hd r)" "int n \<le> hi" "lo \<le> 0"
  shows "strto lo hi (show_nat n @ r) = (int n, r, False)"
proof -
  obtain c cs where cs: "show_nat n = c # cs" using show_nat_digits [of n] by (cases "show_nat n") auto
  obtain d where d: "c = digit_char d" "1 \<le> d" "d \<le> 9" using show_nat_digits [of n] assms(1) cs by auto
  have oc: "of_char c = (48 + d :: nat)" using d of_char_digit by simp
  have ns: "\<not> c_isspace c" using oc d by (simp add: c_isspace_def Let_def)
  have ne: "c \<noteq> CHR ''-''" "c \<noteq> CHR ''+''" "c \<noteq> CHR ''0''" using oc d by auto
  have dr: "digits 10 v r = (v, 0, r)" for v using assms(2) by (cases r) auto
  have dg: "digits 10 0 (show_nat n @ r) = (int n, length (show_nat n), r)"
    using show_nat_digits [of n] digit_val_digit
    by (subst digits_append) (auto simp: dr Let_def)
  have "strto lo hi (show_nat n @ r) = (int n, r, False)"
    using ns ne dg assms(1,3,4) unfolding cs
    by (simp add: strto_def Let_def)
  then show ?thesis .
qed

section \<open>Words\<close>

lemma and_ff: "(v :: u32) AND 0xff = take_bit 8 v"
  by (simp add: take_bit_eq_mask mask_eq_exp_minus_1)

lemma and_ffff: "(v :: u32) AND 0xffff = take_bit 16 v"
  by (simp add: take_bit_eq_mask mask_eq_exp_minus_1)

lemma unat_byte: "unat (c :: u8) < 256"
  using unsigned_less [of c, where 'a = nat] by simp

lemma unat_less_256: "take_bit 8 v = (v :: u32) \<Longrightarrow> unat v < 256"
  using unsigned_take_bit_eq [of 8 v, where 'a = nat] take_bit_nat_less_exp [of 8 "unat v"] by simp

section \<open>Lists\<close>

lemma fold_concat: "fold f (concat xss) s = fold (fold f) xss s"
  by (induction xss arbitrary: s) auto

lemma sum_list_unat_append: "sum_list (map unat (xs @ ys)) = sum_list (map unat xs) + sum_list (map unat ys)"
  by simp

end
