(* ===== verification/Cksum.thy ===== *)
theory Cksum
  imports Prelude
begin

text \<open>
  The \<open>cksum\<close>/\<open>sum\<close> utility (\<^verbatim>\<open>file_cmds-251/cksum\<close>): the four checksum routines
  \<open>crc\<close>, \<open>crc32\<close>, \<open>csum1\<close> and \<open>csum2\<close>, the printing routines and
  \<open>main\<close>. The table-driven registers of \<open>crc.c\<close> and \<open>crc32.c\<close> are related to the
  bit-serial shift registers they implement by one locale, interpreted twice; the function
  pointer through which \<open>main\<close> calls a routine is a second locale, interpreted on
  the four routines.
\<close>

section \<open>Definitions\<close>

subsection \<open>crc.c\<close>

definition crctab :: "u32 list" where
  "crctab = [
     0x0, 0x04c11db7, 0x09823b6e, 0x0d4326d9, 0x130476dc, 0x17c56b6b,
     0x1a864db2, 0x1e475005, 0x2608edb8, 0x22c9f00f, 0x2f8ad6d6, 0x2b4bcb61,
     0x350c9b64, 0x31cd86d3, 0x3c8ea00a, 0x384fbdbd, 0x4c11db70, 0x48d0c6c7,
     0x4593e01e, 0x4152fda9, 0x5f15adac, 0x5bd4b01b, 0x569796c2, 0x52568b75,
     0x6a1936c8, 0x6ed82b7f, 0x639b0da6, 0x675a1011, 0x791d4014, 0x7ddc5da3,
     0x709f7b7a, 0x745e66cd, 0x9823b6e0, 0x9ce2ab57, 0x91a18d8e, 0x95609039,
     0x8b27c03c, 0x8fe6dd8b, 0x82a5fb52, 0x8664e6e5, 0xbe2b5b58, 0xbaea46ef,
     0xb7a96036, 0xb3687d81, 0xad2f2d84, 0xa9ee3033, 0xa4ad16ea, 0xa06c0b5d,
     0xd4326d90, 0xd0f37027, 0xddb056fe, 0xd9714b49, 0xc7361b4c, 0xc3f706fb,
     0xceb42022, 0xca753d95, 0xf23a8028, 0xf6fb9d9f, 0xfbb8bb46, 0xff79a6f1,
     0xe13ef6f4, 0xe5ffeb43, 0xe8bccd9a, 0xec7dd02d, 0x34867077, 0x30476dc0,
     0x3d044b19, 0x39c556ae, 0x278206ab, 0x23431b1c, 0x2e003dc5, 0x2ac12072,
     0x128e9dcf, 0x164f8078, 0x1b0ca6a1, 0x1fcdbb16, 0x018aeb13, 0x054bf6a4,
     0x0808d07d, 0x0cc9cdca, 0x7897ab07, 0x7c56b6b0, 0x71159069, 0x75d48dde,
     0x6b93dddb, 0x6f52c06c, 0x6211e6b5, 0x66d0fb02, 0x5e9f46bf, 0x5a5e5b08,
     0x571d7dd1, 0x53dc6066, 0x4d9b3063, 0x495a2dd4, 0x44190b0d, 0x40d816ba,
     0xaca5c697, 0xa864db20, 0xa527fdf9, 0xa1e6e04e, 0xbfa1b04b, 0xbb60adfc,
     0xb6238b25, 0xb2e29692, 0x8aad2b2f, 0x8e6c3698, 0x832f1041, 0x87ee0df6,
     0x99a95df3, 0x9d684044, 0x902b669d, 0x94ea7b2a, 0xe0b41de7, 0xe4750050,
     0xe9362689, 0xedf73b3e, 0xf3b06b3b, 0xf771768c, 0xfa325055, 0xfef34de2,
     0xc6bcf05f, 0xc27dede8, 0xcf3ecb31, 0xcbffd686, 0xd5b88683, 0xd1799b34,
     0xdc3abded, 0xd8fba05a, 0x690ce0ee, 0x6dcdfd59, 0x608edb80, 0x644fc637,
     0x7a089632, 0x7ec98b85, 0x738aad5c, 0x774bb0eb, 0x4f040d56, 0x4bc510e1,
     0x46863638, 0x42472b8f, 0x5c007b8a, 0x58c1663d, 0x558240e4, 0x51435d53,
     0x251d3b9e, 0x21dc2629, 0x2c9f00f0, 0x285e1d47, 0x36194d42, 0x32d850f5,
     0x3f9b762c, 0x3b5a6b9b, 0x0315d626, 0x07d4cb91, 0x0a97ed48, 0x0e56f0ff,
     0x1011a0fa, 0x14d0bd4d, 0x19939b94, 0x1d528623, 0xf12f560e, 0xf5ee4bb9,
     0xf8ad6d60, 0xfc6c70d7, 0xe22b20d2, 0xe6ea3d65, 0xeba91bbc, 0xef68060b,
     0xd727bbb6, 0xd3e6a601, 0xdea580d8, 0xda649d6f, 0xc423cd6a, 0xc0e2d0dd,
     0xcda1f604, 0xc960ebb3, 0xbd3e8d7e, 0xb9ff90c9, 0xb4bcb610, 0xb07daba7,
     0xae3afba2, 0xaafbe615, 0xa7b8c0cc, 0xa379dd7b, 0x9b3660c6, 0x9ff77d71,
     0x92b45ba8, 0x9675461f, 0x8832161a, 0x8cf30bad, 0x81b02d74, 0x857130c3,
     0x5d8a9099, 0x594b8d2e, 0x5408abf7, 0x50c9b640, 0x4e8ee645, 0x4a4ffbf2,
     0x470cdd2b, 0x43cdc09c, 0x7b827d21, 0x7f436096, 0x7200464f, 0x76c15bf8,
     0x68860bfd, 0x6c47164a, 0x61043093, 0x65c52d24, 0x119b4be9, 0x155a565e,
     0x18197087, 0x1cd86d30, 0x029f3d35, 0x065e2082, 0x0b1d065b, 0x0fdc1bec,
     0x3793a651, 0x3352bbe6, 0x3e119d3f, 0x3ad08088, 0x2497d08d, 0x2056cd3a,
     0x2d15ebe3, 0x29d4f654, 0xc5a92679, 0xc1683bce, 0xcc2b1d17, 0xc8ea00a0,
     0xd6ad50a5, 0xd26c4d12, 0xdf2f6bcb, 0xdbee767c, 0xe3a1cbc1, 0xe760d676,
     0xea23f0af, 0xeee2ed18, 0xf0a5bd1d, 0xf464a0aa, 0xf9278673, 0xfde69bc4,
     0x89b8fd09, 0x8d79e0be, 0x803ac667, 0x84fbdbd0, 0x9abc8bd5, 0x9e7d9662,
     0x933eb0bb, 0x97ffad0c, 0xafb010b1, 0xab710d06, 0xa6322bdf, 0xa2f33668,
     0xbcb4666d, 0xb8757bda, 0xb5365d03, 0xb1f740b4]"

definition COMPUTE :: "u32 \<Rightarrow> u8 \<Rightarrow> u32" where
  "COMPUTE var ch = push_bit 8 var XOR crctab ! unat (drop_bit 24 var XOR ucast ch)"

text \<open>
  A checksum routine's effect: the return value, \<open>*cval\<close> and \<open>*clen\<close> (untouched,
  hence \<open>None\<close>, on a read error) and the static running total.
\<close>

record cksum_result =
  rc :: nat
  cval :: "u32 option"
  clen :: "nat option"
  total :: u32

text \<open>\<open>for (; len != 0; len >>= 8)\<close>: the low byte first, as many bytes as the length has.\<close>

fun crc_length :: "nat \<Rightarrow> u32 \<times> u32 \<Rightarrow> u32 \<times> u32" where
  "crc_length len (lcrc, tot) =
     (if len = 0 then (lcrc, tot)
      else crc_length (len div 256)
        (COMPUTE lcrc (of_nat (len mod 256)), COMPUTE tot (of_nat (len mod 256))))"

declare crc_length.simps [simp del]

definition crc :: "instream \<Rightarrow> u32 \<Rightarrow> cksum_result \<times> instream" where
  "crc fd crc_total =
     (case read_loop (16 * 1024)
             (\<lambda>p (lcrc, tot, len). (COMPUTE lcrc p, COMPUTE tot p, Suc len))
             (0, NOT crc_total, 0) fd of
        (True, (lcrc, tot, len), fd') \<Rightarrow> (\<lparr>rc = 1, cval = None, clen = None, total = tot\<rparr>, fd')
      | (False, (lcrc, tot, len), fd') \<Rightarrow>
          (case crc_length len (lcrc, tot) of (lcrc', tot') \<Rightarrow>
             (\<lparr>rc = 0, cval = Some (NOT lcrc'), clen = Some len, total = NOT tot'\<rparr>, fd')))"

subsection \<open>crc32.c\<close>

definition crc32tab :: "u32 list" where
  "crc32tab = [
     0x00000000, 0x77073096, 0xee0e612c, 0x990951ba, 0x076dc419, 0x706af48f,
     0xe963a535, 0x9e6495a3, 0x0edb8832, 0x79dcb8a4, 0xe0d5e91e, 0x97d2d988,
     0x09b64c2b, 0x7eb17cbd, 0xe7b82d07, 0x90bf1d91, 0x1db71064, 0x6ab020f2,
     0xf3b97148, 0x84be41de, 0x1adad47d, 0x6ddde4eb, 0xf4d4b551, 0x83d385c7,
     0x136c9856, 0x646ba8c0, 0xfd62f97a, 0x8a65c9ec, 0x14015c4f, 0x63066cd9,
     0xfa0f3d63, 0x8d080df5, 0x3b6e20c8, 0x4c69105e, 0xd56041e4, 0xa2677172,
     0x3c03e4d1, 0x4b04d447, 0xd20d85fd, 0xa50ab56b, 0x35b5a8fa, 0x42b2986c,
     0xdbbbc9d6, 0xacbcf940, 0x32d86ce3, 0x45df5c75, 0xdcd60dcf, 0xabd13d59,
     0x26d930ac, 0x51de003a, 0xc8d75180, 0xbfd06116, 0x21b4f4b5, 0x56b3c423,
     0xcfba9599, 0xb8bda50f, 0x2802b89e, 0x5f058808, 0xc60cd9b2, 0xb10be924,
     0x2f6f7c87, 0x58684c11, 0xc1611dab, 0xb6662d3d, 0x76dc4190, 0x01db7106,
     0x98d220bc, 0xefd5102a, 0x71b18589, 0x06b6b51f, 0x9fbfe4a5, 0xe8b8d433,
     0x7807c9a2, 0x0f00f934, 0x9609a88e, 0xe10e9818, 0x7f6a0dbb, 0x086d3d2d,
     0x91646c97, 0xe6635c01, 0x6b6b51f4, 0x1c6c6162, 0x856530d8, 0xf262004e,
     0x6c0695ed, 0x1b01a57b, 0x8208f4c1, 0xf50fc457, 0x65b0d9c6, 0x12b7e950,
     0x8bbeb8ea, 0xfcb9887c, 0x62dd1ddf, 0x15da2d49, 0x8cd37cf3, 0xfbd44c65,
     0x4db26158, 0x3ab551ce, 0xa3bc0074, 0xd4bb30e2, 0x4adfa541, 0x3dd895d7,
     0xa4d1c46d, 0xd3d6f4fb, 0x4369e96a, 0x346ed9fc, 0xad678846, 0xda60b8d0,
     0x44042d73, 0x33031de5, 0xaa0a4c5f, 0xdd0d7cc9, 0x5005713c, 0x270241aa,
     0xbe0b1010, 0xc90c2086, 0x5768b525, 0x206f85b3, 0xb966d409, 0xce61e49f,
     0x5edef90e, 0x29d9c998, 0xb0d09822, 0xc7d7a8b4, 0x59b33d17, 0x2eb40d81,
     0xb7bd5c3b, 0xc0ba6cad, 0xedb88320, 0x9abfb3b6, 0x03b6e20c, 0x74b1d29a,
     0xead54739, 0x9dd277af, 0x04db2615, 0x73dc1683, 0xe3630b12, 0x94643b84,
     0x0d6d6a3e, 0x7a6a5aa8, 0xe40ecf0b, 0x9309ff9d, 0x0a00ae27, 0x7d079eb1,
     0xf00f9344, 0x8708a3d2, 0x1e01f268, 0x6906c2fe, 0xf762575d, 0x806567cb,
     0x196c3671, 0x6e6b06e7, 0xfed41b76, 0x89d32be0, 0x10da7a5a, 0x67dd4acc,
     0xf9b9df6f, 0x8ebeeff9, 0x17b7be43, 0x60b08ed5, 0xd6d6a3e8, 0xa1d1937e,
     0x38d8c2c4, 0x4fdff252, 0xd1bb67f1, 0xa6bc5767, 0x3fb506dd, 0x48b2364b,
     0xd80d2bda, 0xaf0a1b4c, 0x36034af6, 0x41047a60, 0xdf60efc3, 0xa867df55,
     0x316e8eef, 0x4669be79, 0xcb61b38c, 0xbc66831a, 0x256fd2a0, 0x5268e236,
     0xcc0c7795, 0xbb0b4703, 0x220216b9, 0x5505262f, 0xc5ba3bbe, 0xb2bd0b28,
     0x2bb45a92, 0x5cb36a04, 0xc2d7ffa7, 0xb5d0cf31, 0x2cd99e8b, 0x5bdeae1d,
     0x9b64c2b0, 0xec63f226, 0x756aa39c, 0x026d930a, 0x9c0906a9, 0xeb0e363f,
     0x72076785, 0x05005713, 0x95bf4a82, 0xe2b87a14, 0x7bb12bae, 0x0cb61b38,
     0x92d28e9b, 0xe5d5be0d, 0x7cdcefb7, 0x0bdbdf21, 0x86d3d2d4, 0xf1d4e242,
     0x68ddb3f8, 0x1fda836e, 0x81be16cd, 0xf6b9265b, 0x6fb077e1, 0x18b74777,
     0x88085ae6, 0xff0f6a70, 0x66063bca, 0x11010b5c, 0x8f659eff, 0xf862ae69,
     0x616bffd3, 0x166ccf45, 0xa00ae278, 0xd70dd2ee, 0x4e048354, 0x3903b3c2,
     0xa7672661, 0xd06016f7, 0x4969474d, 0x3e6e77db, 0xaed16a4a, 0xd9d65adc,
     0x40df0b66, 0x37d83bf0, 0xa9bcae53, 0xdebb9ec5, 0x47b2cf7f, 0x30b5ffe9,
     0xbdbdf21c, 0xcabac28a, 0x53b39330, 0x24b4a3a6, 0xbad03605, 0xcdd70693,
     0x54de5729, 0x23d967bf, 0xb3667a2e, 0xc4614ab8, 0x5d681b02, 0x2a6f2b94,
     0xb40bbe37, 0xc30c8ea1, 0x5a05df1b, 0x2d02ef8d]"

definition CRC :: "u32 \<Rightarrow> u8 \<Rightarrow> u32" where
  "CRC var ch = drop_bit 8 var XOR crc32tab ! unat ((var XOR scast ch) AND 0xff)"

text \<open>\<open>BUFSIZ\<close> of the C library's \<open>stdio.h\<close>.\<close>

definition BUFSIZ :: nat where
  "BUFSIZ = 1024"

definition crc32 :: "instream \<Rightarrow> u32 \<Rightarrow> cksum_result \<times> instream" where
  "crc32 fd crc32_total =
     (case read_loop BUFSIZ
             (\<lambda>p (lcrc, tot, len). (CRC lcrc p, CRC tot p, Suc len))
             (NOT 0, NOT crc32_total, 0) fd of
        (True, (lcrc, tot, len), fd') \<Rightarrow> (\<lparr>rc = 1, cval = None, clen = None, total = tot\<rparr>, fd')
      | (False, (lcrc, tot, len), fd') \<Rightarrow>
          (\<lparr>rc = 0, cval = Some (NOT lcrc), clen = Some len, total = NOT tot\<rparr>, fd'))"

subsection \<open>sum1.c and sum2.c\<close>

definition sum1_step :: "u8 \<Rightarrow> u32 \<times> nat \<Rightarrow> u32 \<times> nat" where
  "sum1_step p = (\<lambda>(lcrc, tot).
     (let lcrc' = (if lcrc AND 1 \<noteq> 0 then lcrc OR 0x10000 else lcrc)
      in (((drop_bit 1 lcrc' + ucast p) AND 0xffff), Suc tot)))"

definition csum1 :: "instream \<Rightarrow> u32 \<Rightarrow> cksum_result \<times> instream" where
  "csum1 fd tot0 =
     (case read_loop 8192 sum1_step (0, 0) fd of
        (True, (lcrc, tot), fd') \<Rightarrow> (\<lparr>rc = 1, cval = None, clen = None, total = tot0\<rparr>, fd')
      | (False, (lcrc, tot), fd') \<Rightarrow>
          (\<lparr>rc = 0, cval = Some lcrc, clen = Some tot, total = tot0\<rparr>, fd'))"

definition csum2 :: "instream \<Rightarrow> u32 \<Rightarrow> cksum_result \<times> instream" where
  "csum2 fd tot0 =
     (case read_loop 8192 (\<lambda>p (lcrc, tot). (lcrc + ucast p, Suc tot)) (0, 0) fd of
        (True, (lcrc, tot), fd') \<Rightarrow> (\<lparr>rc = 1, cval = None, clen = None, total = tot0\<rparr>, fd')
      | (False, (lcrc, tot), fd') \<Rightarrow>
          (let l1 = (lcrc AND 0xffff) + drop_bit 16 lcrc;
               l2 = (l1 AND 0xffff) + drop_bit 16 l1
           in (\<lparr>rc = 0, cval = Some l2, clen = Some tot, total = tot0\<rparr>, fd')))"

subsection \<open>print.c\<close>

definition print_line :: "string option \<Rightarrow> u32 \<Rightarrow> nat \<Rightarrow> string" where
  "print_line fn val n =
     show_nat (unat val) @ '' '' @ show_nat n @
     (case fn of None \<Rightarrow> '''' | Some f \<Rightarrow> '' '' @ f) @ [CHR 0x0A]"

definition pcrc :: "string option \<Rightarrow> u32 \<Rightarrow> nat \<Rightarrow> string" where
  "pcrc fn val len = print_line fn val len"

definition psum1 :: "string option \<Rightarrow> u32 \<Rightarrow> nat \<Rightarrow> string" where
  "psum1 fn val len = print_line fn val ((len + 1023) div 1024)"

definition psum2 :: "string option \<Rightarrow> u32 \<Rightarrow> nat \<Rightarrow> string" where
  "psum2 fn val len = print_line fn val ((len + 511) div 512)"

subsection \<open>cksum.c\<close>

text \<open>
  The values of the function pointers \<open>cfncn\<close> and \<open>pfncn\<close>: \<open>main\<close> always
  assigns them together, one pair per algorithm.
\<close>

datatype alg = Crc | Crc32 | Csum1 | Csum2

fun cfncn :: "alg \<Rightarrow> instream \<Rightarrow> u32 \<Rightarrow> cksum_result \<times> instream" where
  "cfncn Crc = crc"
| "cfncn Crc32 = crc32"
| "cfncn Csum1 = csum1"
| "cfncn Csum2 = csum2"

fun pfncn :: "alg \<Rightarrow> string option \<Rightarrow> u32 \<Rightarrow> nat \<Rightarrow> string" where
  "pfncn Crc = pcrc"
| "pfncn Crc32 = pcrc"
| "pfncn Csum1 = psum1"
| "pfncn Csum2 = psum2"

text \<open>The initial value of the algorithm's static total (\<open>csum1\<close> and \<open>csum2\<close> have none).\<close>

fun initial_total :: "alg \<Rightarrow> u32" where
  "initial_total Crc = NOT 0"
| "initial_total _ = 0"

text \<open>What the utility sees of the system: what \<open>open(2)\<close> gives for a name, and its
  standard input.\<close>

record env =
  open_rdonly :: "string \<Rightarrow> instream option"
  stdin :: instream

fun cksum_opts :: "optev list \<Rightarrow> alg \<Rightarrow> diag list + alg" where
  "cksum_opts [] a = Inr a"
| "cksum_opts (Opt c (Some arg) # evs) a =
     (if arg = ''1'' then cksum_opts evs Csum1
      else if arg = ''2'' then cksum_opts evs Csum2
      else if arg = ''3'' then cksum_opts evs Crc32
      else Inl [Warnx ''illegal argument to -o option''])"
| "cksum_opts (Opt c None # evs) a = Inl []"
| "cksum_opts (BadOpt c # evs) a = Inl [Warnx (''illegal option -- '' @ [c])]"
| "cksum_opts (MissingArg c # evs) a = Inl [Warnx (''option requires an argument -- '' @ [c])]"

definition cksum_usage :: "diag list" where
  "cksum_usage =
     [Plain ''usage: cksum [-o 1 | 2 | 3] [file ...]'', Plain ''       sum [file ...]'']"

text \<open>The file loop: a name that does not open, or a read error, warns and sets \<open>rval\<close>;
  the remaining files are still processed.\<close>

fun cksum_files :: "alg \<Rightarrow> (string \<Rightarrow> instream option) \<Rightarrow> string list \<Rightarrow> u32 \<Rightarrow> outcome \<Rightarrow> outcome" where
  "cksum_files a opn [] tot r = r"
| "cksum_files a opn (fn # fns) tot r =
     (case opn fn of
        None \<Rightarrow> cksum_files a opn fns tot (r\<lparr>stderr := stderr r @ [Warn fn], status := 1\<rparr>)
      | Some fd \<Rightarrow>
          (let (res, fd') = cfncn a fd tot in
           if rc res \<noteq> 0
           then cksum_files a opn fns (total res) (r\<lparr>stderr := stderr r @ [Warn fn], status := 1\<rparr>)
           else cksum_files a opn fns (total res)
                  (r\<lparr>stdout := stdout r @ pfncn a (Some fn) (the (cval res)) (the (clen res))\<rparr>)))"

definition cksum_stdin :: "alg \<Rightarrow> instream \<Rightarrow> outcome" where
  "cksum_stdin a fd =
     (let (res, fd') = cfncn a fd (initial_total a) in
      if rc res \<noteq> 0 then \<lparr>stdout = '''', stderr = [Warn ''stdin''], status = 1\<rparr>
      else \<lparr>stdout = pfncn a None (the (cval res)) (the (clen res)), stderr = [], status = 0\<rparr>)"

definition cksum_operands :: "alg \<Rightarrow> env \<Rightarrow> string list \<Rightarrow> outcome" where
  "cksum_operands a e files =
     (if files = [] then cksum_stdin a (stdin e)
      else cksum_files a (open_rdonly e) files (initial_total a) \<lparr>stdout = '''', stderr = [], status = 0\<rparr>)"

text \<open>The part of \<open>argv[0]\<close> after the last slash.\<close>

definition progname :: "string \<Rightarrow> string" where
  "progname p = rev (takeWhile (\<lambda>c. c \<noteq> CHR ''/'') (rev p))"

definition cksum_main :: "env \<Rightarrow> string \<Rightarrow> string list \<Rightarrow> outcome" where
  "cksum_main e argv0 args =
     (if progname argv0 = ''sum'' then cksum_operands Csum1 e args
      else case getopt ''o:'' args of (evs, files) \<Rightarrow>
        (case cksum_opts evs Crc of
           Inl ds \<Rightarrow> \<lparr>stdout = '''', stderr = ds @ cksum_usage, status = 1\<rparr>
         | Inr a \<Rightarrow> cksum_operands a e files))"


section \<open>Tables generated by doubling\<close>

text \<open>
  The entry at index \<open>2^k + i\<close> of a CRC table is the exclusive or of the entries at
  \<open>2^k\<close> and \<open>i\<close>, so eight entries determine all 256.
\<close>

fun xor_double :: "u32 list \<Rightarrow> u32 list \<Rightarrow> u32 list" where
  "xor_double [] acc = acc"
| "xor_double (b # bs) acc = xor_double bs (acc @ map (\<lambda>x. b XOR x) acc)"

lemma xor_double_length: "length (xor_double bs acc) = length acc * 2 ^ length bs"
  by (induction bs acc rule: xor_double.induct) (simp_all add: algebra_simps)

lemma xor_double_table:
  assumes "length acc = 2 ^ k"
    and "\<And>i. i < 2 ^ k \<Longrightarrow> acc ! i = f i"
    and "\<And>j. j < length bs \<Longrightarrow> bs ! j = f (2 ^ (k + j))"
    and "\<And>m i. k \<le> m \<Longrightarrow> m < k + length bs \<Longrightarrow> i < 2 ^ m \<Longrightarrow> f (2 ^ m + i) = f (2 ^ m) XOR f i"
    and "i < 2 ^ (k + length bs)"
  shows "xor_double bs acc ! i = f i"
  using assms
proof (induction bs acc arbitrary: k i rule: xor_double.induct)
  case (1 acc)
  then show ?case by simp
next
  case (2 b bs acc)
  have b: "b = f (2 ^ k)" using "2.prems"(3) [of 0] by simp
  have len: "length (acc @ map (\<lambda>x. b XOR x) acc) = 2 ^ Suc k" using "2.prems"(1) by simp
  have nth: "(acc @ map (\<lambda>x. b XOR x) acc) ! i = f i" if "i < 2 ^ Suc k" for i
  proof (cases "i < 2 ^ k")
    case True
    then show ?thesis using "2.prems"(1,2) by (simp add: nth_append)
  next
    case False
    then have "f (2 ^ k + (i - 2 ^ k)) = f (2 ^ k) XOR f (i - 2 ^ k)"
      using that by (intro "2.prems"(4)) auto
    with False that show ?thesis using "2.prems"(1,2) b by (simp add: nth_append)
  qed
  have bs: "bs ! j = f (2 ^ (Suc k + j))" if "j < length bs" for j
    using "2.prems"(3) [of "Suc j"] that by simp
  show ?case
    unfolding xor_double.simps
    by (rule "2.IH" [OF len nth bs]) (use "2.prems"(4,5) in auto)
qed

section \<open>Table-driven registers are bit-serial registers\<close>

text \<open>
  A CRC register: \<open>step\<close> shifts it by one message bit, \<open>place j\<close> is the register with
  only the position set at which bit \<open>j\<close> of a message byte is injected, and \<open>order\<close>
  lists the bits of a byte in the order in which they leave. \<open>tab\<close> is the program's table.
\<close>

locale crc_register =
  fixes step :: "u32 \<Rightarrow> u32"
    and place :: "nat \<Rightarrow> u32"
    and order :: "nat list"
    and tab :: "u32 list"
  assumes step_xor: "step (x XOR y) = step x XOR step y"
    and order_bits: "distinct order" "set order = {0..<8}"
    and step_place: "Suc k < 8 \<Longrightarrow> step (place (order ! Suc k)) = place (order ! k)"
    and tab_doubling: "tab = xor_double (map (\<lambda>j. (step ^^ 8) (place j)) [0..<8]) [0]"
begin

definition embed :: "nat \<Rightarrow> u32" where
  "embed c = foldr (\<lambda>j w. (if bit c j then place j else 0) XOR w) order 0"

definition serial :: "nat \<Rightarrow> u32 \<Rightarrow> u32" where
  "serial c v = fold (\<lambda>j v. step (v XOR (if bit c j then place (order ! 0) else 0))) order v"

lemma length_order: "length order = 8"
  using order_bits distinct_card [of order] by simp

lemma step_0: "step 0 = 0"
  using step_xor [of 0 0] by simp

lemma steps_xor: "(step ^^ n) (x XOR y) = (step ^^ n) x XOR (step ^^ n) y"
  by (induction n arbitrary: x y) (simp_all add: step_xor)

lemma steps_0: "(step ^^ n) 0 = 0"
  by (induction n) (simp_all add: step_0)

lemma steps_place: "k < 8 \<Longrightarrow> (step ^^ k) (place (order ! k)) = place (order ! 0)"
proof (induction k)
  case (Suc k)
  have "(step ^^ Suc k) (place (order ! Suc k)) = (step ^^ k) (step (place (order ! Suc k)))"
    by (simp only: funpow_Suc_right comp_apply)
  then show ?case using Suc step_place [of k] by simp
qed simp

lemma serial_prefix:
  "n \<le> 8 \<Longrightarrow>
     fold (\<lambda>j v. step (v XOR (if bit c j then place (order ! 0) else 0))) (take n order) v =
     (step ^^ n) (v XOR foldr (\<lambda>j w. (if bit c j then place j else 0) XOR w) (take n order) 0)"
proof (induction n)
  case 0
  then show ?case by simp
next
  case (Suc n)
  let ?g = "\<lambda>j w. (if bit c j then place j else 0) XOR w"
  have tk: "take (Suc n) order = take n order @ [order ! n]"
    using Suc.prems length_order by (simp add: take_Suc_conv_app_nth)
  have fr: "foldr ?g xs w = foldr ?g xs 0 XOR w" for xs w
    by (induction xs) (simp_all add: xor.assoc)
  have top: "(if bit c (order ! n) then place (order ! 0) else 0) =
      (step ^^ n) (if bit c (order ! n) then place (order ! n) else 0)"
    using Suc.prems steps_place [of n] by (simp add: steps_0)
  show ?case
    using Suc unfolding tk
    by (simp add: top fr [of _ "_ XOR _"] fr [of _ "place _"] flip: steps_xor)
       (simp add: xor.assoc)
qed

lemma serial_eq: "serial c v = (step ^^ 8) (v XOR embed c)"
  using serial_prefix [of 8 c v] length_order by (simp add: serial_def embed_def)

lemma embed_xor:
  assumes "\<And>j. j < 8 \<Longrightarrow> bit c j = (bit a j \<noteq> bit b j)"
  shows "embed c = embed a XOR embed b"
proof -
  have "foldr (\<lambda>j w. (if bit c j then place j else 0) XOR w) xs 0 =
      foldr (\<lambda>j w. (if bit a j then place j else 0) XOR w) xs 0 XOR
      foldr (\<lambda>j w. (if bit b j then place j else 0) XOR w) xs 0" if "set xs \<subseteq> {0..<8}" for xs
    using that by (induction xs) (auto simp: assms ac_simps xor.left_commute)
  then show ?thesis using order_bits by (simp add: embed_def)
qed

lemma embed_2: "j < 8 \<Longrightarrow> embed (2 ^ j) = place j"
proof -
  assume j: "j < 8"
  have "foldr (\<lambda>i w. (if bit (2 ^ j :: nat) i then place i else 0) XOR w) xs 0 =
      (if j \<in> set xs then place j else 0)" if "distinct xs" for xs
    using that by (induction xs) (auto simp: bit_exp_iff)
  then show ?thesis using order_bits j by (simp add: embed_def)
qed

lemma embed_0: "embed 0 = 0"
proof -
  have "foldr (\<lambda>j w. w) xs (0 :: u32) = 0" for xs :: "nat list"
    by (induction xs) simp_all
  then show ?thesis by (simp add: embed_def)
qed

lemma tab_eq: "i < 256 \<Longrightarrow> tab ! i = (step ^^ 8) (embed i)"
  unfolding tab_doubling
proof (rule xor_double_table [where k = 0])
  show "[0] ! i = (step ^^ 8) (embed i)" if "i < 2 ^ 0" for i
    using that by (simp add: embed_0 steps_0)
next
  fix m i :: nat
  assume m: "m < 0 + length (map (\<lambda>j. (step ^^ 8) (place j)) [0..<8])" and i: "i < 2 ^ m"
  have "bit (2 ^ m + i) j = (bit (2 ^ m :: nat) j \<noteq> bit i j)" for j
  proof -
    have "2 ^ m + i = 2 ^ m OR i"
      using i by (intro disjunctive_add)
        (metis bit_exp_iff bit_take_bit_iff take_bit_nat_eq_self less_irrefl)
    moreover have "\<not> (bit (2 ^ m :: nat) j \<and> bit i j)"
      using i by (metis bit_exp_iff bit_take_bit_iff take_bit_nat_eq_self less_irrefl)
    ultimately show ?thesis by (auto simp: bit_or_iff)
  qed
  then show "(step ^^ 8) (embed (2 ^ m + i)) = (step ^^ 8) (embed (2 ^ m)) XOR (step ^^ 8) (embed i)"
    using embed_xor [of "2 ^ m + i" "2 ^ m" i] by (simp add: steps_xor)
qed (auto simp: embed_2)

end

lemma eight_steps: "(f ^^ 8) x = f (f (f (f (f (f (f (f x)))))))"
  by (simp add: eval_nat_numeral)

subsection \<open>The register of crc.c: polynomial 0x04c11db7, most significant bit first\<close>

definition crc_step :: "u32 \<Rightarrow> u32" where
  "crc_step v = (if bit v 31 then push_bit 1 v XOR 0x04c11db7 else push_bit 1 v)"

definition crc_bit :: "bool \<Rightarrow> u32 \<Rightarrow> u32" where
  "crc_bit b v = (if bit v 31 \<noteq> b then push_bit 1 v XOR 0x04c11db7 else push_bit 1 v)"

definition byte_msb :: "u8 \<Rightarrow> bool list" where
  "byte_msb c = map (bit c) (rev [0..<8])"

lemma crc_step_xor: "crc_step (x XOR y) = crc_step x XOR crc_step y"
  by (auto simp: crc_step_def bit_xor_iff push_bit_xor ac_simps xor.left_commute)

lemma crc_step_place: "k < 31 \<Longrightarrow> crc_step (2 ^ k) = 2 ^ Suc k"
  by (simp add: crc_step_def bit_exp_iff push_bit_eq_mult)

lemma crctab_doubling:
  "crctab = xor_double (map (\<lambda>j. (crc_step ^^ 8) (2 ^ (24 + j))) [0..<8]) [0]"
proof -
  have "map (\<lambda>j. (crc_step ^^ 8) (2 ^ (24 + j))) [0..<8] =
      [0x04c11db7, 0x09823b6e, 0x130476dc, 0x2608edb8,
       0x4c11db70, 0x9823b6e0, 0x34867077, 0x690ce0ee]"
    by (simp add: upt_rec eight_steps crc_step_def)
  then show ?thesis by (simp add: crctab_def)
qed

interpretation msb: crc_register crc_step "\<lambda>j. 2 ^ (24 + j)" "rev [0..<8]" crctab
proof
  fix k :: nat
  assume k: "Suc k < 8"
  then have "rev [0..<8] ! Suc k = 6 - k" "rev [0..<8] ! k = 7 - k"
    by (simp_all add: rev_nth)
  then show "crc_step (2 ^ (24 + rev [0..<8] ! Suc k)) = 2 ^ (24 + rev [0..<8] ! k)"
    using k crc_step_place [of "30 - k"] Suc_diff_le [of k 30] by (simp del: power_Suc)
qed (auto simp: crc_step_xor crctab_doubling)


lemma crc_bit_serial: "crc_bit b v = crc_step (v XOR (if b then 2 ^ 31 else 0))"
proof -
  have "crc_step 0x80000000 = 0x04c11db7" "crc_step 0 = 0" by (simp_all add: crc_step_def)
  then have "crc_step (v XOR (if b then 2 ^ 31 else 0)) = crc_step v XOR (if b then 0x04c11db7 else 0)"
    by (simp add: crc_step_xor)
  moreover have "crc_step v XOR (if b then 0x04c11db7 else 0) = crc_bit b v"
    by (auto simp: crc_bit_def crc_step_def xor.assoc)
  ultimately show ?thesis by simp
qed

lemma msb_serial: "fold crc_bit (byte_msb c) v = msb.serial (unat c) v"
proof -
  have "rev [0..<8] ! 0 = (7 :: nat)" by (simp add: rev_nth)
  then show ?thesis
    unfolding msb.serial_def byte_msb_def fold_map
    by (intro fold_cong) (auto simp: crc_bit_serial bit_unsigned_iff fun_eq_iff)
qed

lemma bit_xor_places:
  assumes "distinct xs"
  shows "bit (foldr (\<lambda>j w. (if bit c j then (2 :: u32) ^ (a + j) else 0) XOR w) xs 0) n \<longleftrightarrow>
    n < 32 \<and> a \<le> n \<and> n - a \<in> set xs \<and> bit c (n - a)"
  using assms by (induction xs) (auto simp: bit_xor_iff bit_exp_iff)

lemma bit_nat_256: "i < 256 \<Longrightarrow> bit (i :: nat) k \<Longrightarrow> k < 8"
  using take_bit_nat_eq_self [of i 8] bit_take_bit_iff [of 8 i k] by simp

lemma embed_places:
  assumes "i < 256" "distinct xs" "set xs = {0..<8}"
  shows "foldr (\<lambda>j w. (if bit i j then (2 :: u32) ^ (a + j) else 0) XOR w) xs 0 = push_bit a (of_nat i)"
  by (rule bit_word_eqI)
    (use assms in \<open>auto simp: bit_xor_places bit_push_bit_iff bit_of_nat_iff dest: bit_nat_256\<close>)

lemma msb_embed: "i < 256 \<Longrightarrow> msb.embed i = push_bit 24 (of_nat i)"
  unfolding msb.embed_def by (rule embed_places) auto

lemma crc_steps_low:
  assumes "\<And>k. 32 - n \<le> k \<Longrightarrow> \<not> bit v k" and "n \<le> 32"
  shows "(crc_step ^^ n) v = push_bit n v"
  using assms
proof (induction n)
  case (Suc n)
  then have "(crc_step ^^ n) v = push_bit n v" by simp
  moreover have "\<not> bit (push_bit n v) 31" using Suc.prems by (simp add: bit_push_bit_iff)
  ultimately show ?case
    by (simp add: crc_step_def [of "push_bit n v"] push_bit_double)
qed simp

lemma high_low_split: "v = push_bit 24 (drop_bit 24 v) XOR take_bit 24 (v :: u32)"
  by (rule bit_word_eqI) (auto simp: bit_simps)

lemma COMPUTE_bit_serial: "COMPUTE v c = fold crc_bit (byte_msb c) v"
proof -
  define i where "i = drop_bit 24 v XOR (ucast c :: u32)"
  have "take_bit 8 i = i"
    by (rule bit_word_eqI) (auto simp: i_def bit_simps dest: bit_imp_le_length)
  then have i: "unat i < 256" by (rule unat_less_256)
  have c: "unat c < 256" by (rule unat_byte)
  have "v XOR push_bit 24 (ucast c) = take_bit 24 v XOR push_bit 24 i"
    by (subst (1) high_low_split) (simp add: i_def push_bit_xor ac_simps)
  then have "(crc_step ^^ 8) (v XOR push_bit 24 (ucast c)) =
      (crc_step ^^ 8) (take_bit 24 v) XOR (crc_step ^^ 8) (msb.embed (unat i))"
    using msb_embed [OF i] by (simp add: msb.steps_xor)
  moreover have "(crc_step ^^ 8) (take_bit 24 v) = push_bit 8 v"
    by (subst crc_steps_low) (auto simp: bit_simps intro!: bit_word_eqI)
  ultimately show ?thesis
    using msb_embed [OF c] msb.tab_eq [OF i]
    by (simp add: msb_serial msb.serial_eq COMPUTE_def i_def)
qed

subsection \<open>The register of crc32.c: the reflected polynomial, least significant bit first\<close>

definition crc32_step :: "u32 \<Rightarrow> u32" where
  "crc32_step v = (if bit v 0 then drop_bit 1 v XOR 0xedb88320 else drop_bit 1 v)"

definition crc32_bit :: "bool \<Rightarrow> u32 \<Rightarrow> u32" where
  "crc32_bit b v = (if bit v 0 \<noteq> b then drop_bit 1 v XOR 0xedb88320 else drop_bit 1 v)"

definition byte_lsb :: "u8 \<Rightarrow> bool list" where
  "byte_lsb c = map (bit c) [0..<8]"

lemma crc32_step_xor: "crc32_step (x XOR y) = crc32_step x XOR crc32_step y"
  by (auto simp: crc32_step_def bit_xor_iff drop_bit_xor ac_simps xor.left_commute simp flip: bit_0)

lemma crc32_step_place: "k < 31 \<Longrightarrow> crc32_step (2 ^ Suc k) = 2 ^ k"
  by (rule bit_word_eqI)
    (auto simp: crc32_step_def bit_exp_iff bit_drop_bit_eq simp del: power_Suc simp flip: bit_0)

lemma crc32tab_doubling:
  "crc32tab = xor_double (map (\<lambda>j. (crc32_step ^^ 8) (2 ^ j)) [0..<8]) [0]"
proof -
  have "map (\<lambda>j. (crc32_step ^^ 8) (2 ^ j)) [0..<8] =
      [0x77073096, 0xee0e612c, 0x076dc419, 0x0edb8832,
       0x1db71064, 0x3b6e20c8, 0x76dc4190, 0xedb88320]"
    by (simp add: upt_rec eight_steps crc32_step_def)
  then show ?thesis by (simp add: crc32tab_def)
qed

interpretation lsb: crc_register crc32_step "\<lambda>j. 2 ^ j" "[0..<8]" crc32tab
proof
  fix k :: nat
  assume "Suc k < 8"
  then show "crc32_step (2 ^ ([0..<8] ! Suc k)) = 2 ^ ([0..<8] ! k)"
    using crc32_step_place [of k] by (simp del: power_Suc)
qed (auto simp: crc32_step_xor crc32tab_doubling)

lemma crc32_bit_serial: "crc32_bit b v = crc32_step (v XOR (if b then 1 else 0))"
proof -
  have "crc32_step 1 = 0xedb88320" "crc32_step 0 = 0" by (simp_all add: crc32_step_def)
  then have "crc32_step (v XOR (if b then 1 else 0)) = crc32_step v XOR (if b then 0xedb88320 else 0)"
    by (simp add: crc32_step_xor)
  moreover have "crc32_step v XOR (if b then 0xedb88320 else 0) = crc32_bit b v"
    by (auto simp: crc32_bit_def crc32_step_def xor.assoc)
  ultimately show ?thesis by simp
qed

lemma lsb_serial: "fold crc32_bit (byte_lsb c) v = lsb.serial (unat c) v"
  unfolding lsb.serial_def byte_lsb_def fold_map
  by (intro fold_cong) (auto simp: crc32_bit_serial bit_unsigned_iff fun_eq_iff)

lemma lsb_embed: "i < 256 \<Longrightarrow> lsb.embed i = of_nat i"
  unfolding lsb.embed_def using embed_places [of i "[0..<8]" 0, unfolded add_0] by simp

lemma crc32_steps_high:
  assumes "\<And>k. k < n \<Longrightarrow> \<not> bit v k"
  shows "(crc32_step ^^ n) v = drop_bit n v"
  using assms
proof (induction n)
  case (Suc n)
  then have "(crc32_step ^^ n) v = drop_bit n v" by simp
  moreover have "\<not> bit (drop_bit n v) 0" using Suc.prems by (simp add: bit_drop_bit_eq)
  ultimately show ?case
    by (simp add: crc32_step_def [of "drop_bit n v"])
qed simp

lemma CRC_bit_serial: "CRC v c = fold crc32_bit (byte_lsb c) v"
proof -
  define i where "i = (v XOR (scast c :: u32)) AND 0xff"
  have i_bits: "bit i k \<longleftrightarrow> k < 8 \<and> (bit v k \<noteq> bit c k)" for k
    unfolding i_def and_ff by (cases "k = 7") (auto simp: bit_simps min_def dest: bit_imp_le_length)
  have "take_bit 8 i = i"
    by (rule bit_word_eqI) (auto simp: i_bits bit_take_bit_iff)
  then have i: "unat i < 256" by (rule unat_less_256)
  have c: "unat c < 256" by (rule unat_byte)
  have "v XOR ucast c = push_bit 8 (drop_bit 8 v) XOR i"
    by (rule bit_word_eqI) (auto simp: i_bits bit_simps dest: bit_imp_le_length)
  then have "(crc32_step ^^ 8) (v XOR ucast c) =
      (crc32_step ^^ 8) (push_bit 8 (drop_bit 8 v)) XOR (crc32_step ^^ 8) (lsb.embed (unat i))"
    using lsb_embed [OF i] by (simp add: lsb.steps_xor)
  moreover have "(crc32_step ^^ 8) (push_bit 8 (drop_bit 8 v)) = drop_bit 8 v"
  proof (subst crc32_steps_high)
    have "k < 32" if "bit v k" for k
      using bit_imp_le_length [OF that] by simp
    then show "drop_bit 8 (push_bit 8 (drop_bit 8 v)) = drop_bit 8 v"
      by (intro bit_word_eqI) (force simp: bit_simps)
  qed (simp add: bit_push_bit_iff)
  ultimately show ?thesis
    using lsb_embed [OF c] lsb.tab_eq [OF i]
    by (simp add: lsb_serial lsb.serial_eq CRC_def i_def)
qed

section \<open>The routines compute their specification\<close>

text \<open>The POSIX checksum: the message followed by its length, low byte first, without
  leading zero bytes, run bit by bit through the register, complemented.\<close>

fun length_bytes :: "nat \<Rightarrow> bytes" where
  "length_bytes n = (if n = 0 then [] else of_nat (n mod 256) # length_bytes (n div 256))"

declare length_bytes.simps [simp del]

definition msb_crc :: "bytes \<Rightarrow> u32 \<Rightarrow> u32" where
  "msb_crc bs v = fold crc_bit (concat (map byte_msb bs)) v"

definition posix_cksum :: "bytes \<Rightarrow> u32" where
  "posix_cksum bs = NOT (msb_crc (bs @ length_bytes (length bs)) 0)"

definition lsb_crc :: "bytes \<Rightarrow> u32 \<Rightarrow> u32" where
  "lsb_crc bs v = fold crc32_bit (concat (map byte_lsb bs)) v"

definition iso_crc32 :: "bytes \<Rightarrow> u32" where
  "iso_crc32 bs = NOT (lsb_crc bs (NOT 0))"

lemma fold_COMPUTE: "fold (\<lambda>p v. COMPUTE v p) bs v = msb_crc bs v"
  by (simp add: msb_crc_def fold_concat fold_map comp_def COMPUTE_bit_serial)

lemma fold_CRC: "fold (\<lambda>p v. CRC v p) bs v = lsb_crc bs v"
  by (simp add: lsb_crc_def fold_concat fold_map comp_def CRC_bit_serial)

lemma msb_crc_append: "msb_crc (as @ bs) v = msb_crc bs (msb_crc as v)"
  by (simp add: msb_crc_def)

lemma fold_two_sums:
  "fold (\<lambda>p (a, b, n). (f a p, f b p, Suc n)) bs (a, b, n) =
     (fold (\<lambda>p v. f v p) bs a, fold (\<lambda>p v. f v p) bs b, n + length bs)"
  by (induction bs arbitrary: a b n) simp_all

lemma fold_counting:
  "fold (\<lambda>p (a, n). (f a p, Suc n)) bs (a, n) = (fold (\<lambda>p v. f v p) bs a, n + length bs)"
  by (induction bs arbitrary: a n) simp_all

lemma crc_length_eq:
  "crc_length len (a, b) = (msb_crc (length_bytes len) a, msb_crc (length_bytes len) b)"
proof (induction len "(a, b)" arbitrary: a b rule: crc_length.induct)
  case (1 len a b)
  then show ?case
    by (subst crc_length.simps, subst (1 2) length_bytes.simps)
      (simp add: msb_crc_append [of "[_]", simplified] flip: fold_COMPUTE)
qed

text \<open>The results of all four routines share one shape: the read loop ends with an error, or
  it has folded over the contents.\<close>

lemma read_loop_cases:
  assumes "0 < n"
  obtains (err) s' fd' where "contents fd = None" "read_loop n step s fd = (True, s', fd')"
  | (ok) bs fd' where "contents fd = Some bs" "read_loop n step s fd = (False, fold step bs s, fd')"
  using read_loop_contents [OF assms, where fd = fd and step = step and s = s]
  by (cases "read_loop n step s fd") (auto split: option.splits)

lemma pos_16k: "(0 :: nat) < 16 * 1024" and pos_8k: "(0 :: nat) < 8192" and pos_BUFSIZ: "0 < BUFSIZ"
  by (simp_all add: BUFSIZ_def)

lemma crc_spec:
  "case contents fd of
     None \<Rightarrow> rc (fst (crc fd t)) = 1 \<and> cval (fst (crc fd t)) = None
   | Some bs \<Rightarrow> fst (crc fd t) =
       \<lparr>rc = 0, cval = Some (posix_cksum bs), clen = Some (length bs),
        total = NOT (msb_crc (bs @ length_bytes (length bs)) (NOT t))\<rparr>"
proof (cases rule: read_loop_cases [OF pos_16k, where fd = fd and s = "(0, NOT t, 0)" and
      step = "\<lambda>p (lcrc, tot, len). (COMPUTE lcrc p, COMPUTE tot p, Suc len)", case_names err ok])
  case (err s' fd')
  then show ?thesis by (cases s') (simp add: crc_def)
next
  case (ok bs fd')
  then show ?thesis
    by (simp add: crc_def fold_two_sums fold_COMPUTE crc_length_eq posix_cksum_def msb_crc_append)
qed

lemma crc32_spec:
  "case contents fd of
     None \<Rightarrow> rc (fst (crc32 fd t)) = 1 \<and> cval (fst (crc32 fd t)) = None
   | Some bs \<Rightarrow> fst (crc32 fd t) =
       \<lparr>rc = 0, cval = Some (iso_crc32 bs), clen = Some (length bs),
        total = NOT (lsb_crc bs (NOT t))\<rparr>"
proof (cases rule: read_loop_cases [OF pos_BUFSIZ, where fd = fd and s = "(NOT 0, NOT t, 0)" and
      step = "\<lambda>p (lcrc, tot, len). (CRC lcrc p, CRC tot p, Suc len)", case_names err ok])
  case (err s' fd')
  then show ?thesis by (cases s') (simp add: crc32_def)
next
  case (ok bs fd')
  then show ?thesis
    by (simp add: crc32_def fold_two_sums fold_CRC iso_crc32_def)
qed

subsection \<open>sum1.c and sum2.c\<close>

text \<open>The historic BSD sum: a 16-bit word rotated right by one before each byte is added.\<close>

definition bsd_sum :: "bytes \<Rightarrow> u16" where
  "bsd_sum bs = fold (\<lambda>p s. word_rotr 1 s + ucast p) bs 0"

lemma unat_ucast_add:
  "unat (ucast (a :: u16) + (ucast (p :: u8) :: u32)) = unat a + unat p"
  "unat (ucast (a + (ucast p :: u16)) :: u32) = (unat a + unat p) mod 2 ^ 16"
proof -
  have a: "unat a < 2 ^ 16" using unsigned_less [of a, where 'a = nat] by simp
  show "unat (ucast (a :: u16) + (ucast (p :: u8) :: u32)) = unat a + unat p"
    using a unat_byte [of p] by (simp add: unat_word_ariths unsigned_ucast_eq take_bit_nat_eq_self)
  have "unat (a + (ucast p :: u16)) = (unat a + unat p) mod 2 ^ 16"
    using a unat_byte [of p] by (simp add: unat_word_ariths unsigned_ucast_eq take_bit_nat_eq_self)
  then show "unat (ucast (a + (ucast p :: u16)) :: u32) = (unat a + unat p) mod 2 ^ 16"
    by (simp add: unsigned_ucast_eq take_bit_nat_eq_self)
qed

lemma sum1_step_eq: "sum1_step p (ucast (s :: u16), n) = (ucast (word_rotr 1 s + ucast p :: u16), Suc n)"
proof -
  define l where "l = (if (ucast s :: u32) AND 1 \<noteq> 0 then ucast s OR 0x10000 else (ucast s :: u32))"
  have l: "drop_bit 1 l = ucast (word_rotr 1 s)"
  proof (rule bit_word_eqI)
    fix n :: nat
    assume n: "n < LENGTH(32)"
    have "bit (0x10000 :: u32) k \<longleftrightarrow> k = 16" for k
      using bit_exp_iff [of 16 k, where 'a = u32] by auto
    moreover have "(ucast s :: u32) AND 1 \<noteq> 0 \<longleftrightarrow> bit s 0"
      using bit_unsigned_iff [of s 0, where 'a = u32] bit_0 [of "ucast s :: u32"] bit_0 [of s]
      by (simp add: and_one_eq mod2_eq_if)
    ultimately have "bit l k \<longleftrightarrow> bit (ucast s :: u32) k \<or> k = 16 \<and> bit s 0" for k
      unfolding l_def by (simp add: bit_or_iff)
    moreover have u: "bit (ucast t :: u32) k \<longleftrightarrow> k < 16 \<and> bit t k" for t :: u16 and k
      using bit_imp_le_length [of t k] by (auto simp: bit_unsigned_iff)
    ultimately have lb: "bit l k \<longleftrightarrow> k < 16 \<and> bit s k \<or> k = 16 \<and> bit s 0" for k
      by blast
    show "bit (drop_bit 1 l) n = bit (ucast (word_rotr 1 s) :: u32) n"
      unfolding u bit_drop_bit_eq comp_apply bit_word_rotr_iff lb
      by (cases "n = 15"; cases "n < 15") simp_all
  qed
  have "take_bit 16 (ucast (word_rotr 1 s) + (ucast p :: u32)) = ucast (word_rotr 1 s + ucast p :: u16)"
    unfolding word_unat_eq_iff unsigned_take_bit_eq unat_ucast_add
    by (simp add: take_bit_nat_def mod_mod_cancel)
  with l show ?thesis
    by (simp add: sum1_step_def and_ffff flip: l_def)
qed

lemma csum1_spec:
  "case contents fd of
     None \<Rightarrow> rc (fst (csum1 fd t)) = 1 \<and> cval (fst (csum1 fd t)) = None
   | Some bs \<Rightarrow> fst (csum1 fd t) =
       \<lparr>rc = 0, cval = Some (ucast (bsd_sum bs)), clen = Some (length bs), total = t\<rparr>"
proof (cases rule: read_loop_cases [OF pos_8k, where fd = fd and s = "(0, 0)" and step = sum1_step,
      case_names err ok])
  case (err s' fd')
  then show ?thesis by (cases s') (simp add: csum1_def)
next
  case (ok bs fd')
  have "fold sum1_step bs (ucast s, n) =
      (ucast (fold (\<lambda>p s. word_rotr 1 s + ucast p) bs s), n + length bs)" for s :: u16 and n
    by (induction bs arbitrary: s n) (simp_all add: sum1_step_eq)
  from this [of 0 0] ok show ?thesis
    by (simp add: csum1_def bsd_sum_def)
qed

text \<open>The System V sum, by the formula of the comment in \<open>sum2.c\<close>.\<close>

definition sysv_sum :: "bytes \<Rightarrow> nat" where
  "sysv_sum bs =
     (let s = sum_list (map unat bs); r = s mod 2 ^ 16 + (s mod 2 ^ 32) div 2 ^ 16
      in r mod 2 ^ 16 + r div 2 ^ 16)"

lemma fold_add_bytes:
  "unat (fold (\<lambda>p v. v + (ucast p :: u32)) (bs :: bytes) v) = (unat v + sum_list (map unat bs)) mod 2 ^ 32"
proof (induction bs arbitrary: v)
  case Nil
  show ?case using unsigned_less [of v, where 'a = nat] by simp
next
  case (Cons p bs)
  have "unat (v + (ucast p :: u32)) = (unat v + unat p) mod 2 ^ 32"
    using unat_byte [of p] by (simp add: unat_word_ariths unsigned_ucast_eq take_bit_nat_eq_self)
  then show ?case
    by (simp only: fold.simps comp_apply Cons.IH list.map sum_list.Cons mod_add_left_eq add.assoc)
qed

lemma unat_fold16:
  "unat ((v AND 0xffff) + drop_bit 16 (v :: u32)) = unat v mod 2 ^ 16 + unat v div 2 ^ 16"
proof -
  have v: "unat v < 2 ^ 32" using unsigned_less [of v, where 'a = nat] by simp
  have "unat v mod 2 ^ 16 + unat v div 2 ^ 16 < 2 ^ 32"
    using v by (simp add: less_mult_imp_div_less)
  then show ?thesis
    by (simp add: and_ffff unat_word_ariths unsigned_take_bit_eq take_bit_eq_mod unsigned_drop_bit_eq
        drop_bit_eq_div)
qed

lemma csum2_spec:
  "case contents fd of
     None \<Rightarrow> rc (fst (csum2 fd t)) = 1 \<and> cval (fst (csum2 fd t)) = None
   | Some bs \<Rightarrow> rc (fst (csum2 fd t)) = 0 \<and> clen (fst (csum2 fd t)) = Some (length bs) \<and>
       total (fst (csum2 fd t)) = t \<and>
       map_option unat (cval (fst (csum2 fd t))) = Some (sysv_sum bs)"
proof (cases rule: read_loop_cases [OF pos_8k, where fd = fd and s = "(0 :: u32, 0 :: nat)" and
      step = "\<lambda>p (lcrc, tot). (lcrc + ucast p, Suc tot)", case_names err ok])
  case (err s' fd')
  then show ?thesis by (cases s') (simp add: csum2_def)
next
  case (ok bs fd')
  have "(x :: nat) mod 2 ^ 32 mod 2 ^ 16 = x mod 2 ^ 16" for x
    by (rule mod_mod_cancel) simp
  with ok show ?thesis
    by (simp add: csum2_def fold_counting Let_def unat_fold16 fold_add_bytes sysv_sum_def
        del: power_numeral_even)
qed

subsection \<open>The interface between main and a checksum routine\<close>

text \<open>
  What \<open>main\<close> relies on when it calls through \<open>cfncn\<close>: on a readable descriptor the
  routine returns 0 and delivers a value and a length that depend on the contents only; on a
  read error it returns 1. \<open>call\<close> is the routine, \<open>spec\<close> the value it promises.
\<close>

locale checksum_routine =
  fixes a :: alg
    and spec :: "bytes \<Rightarrow> u32"
  assumes call_ok: "contents fd = Some bs \<Longrightarrow>
      rc (fst (cfncn a fd t)) = 0 \<and> cval (fst (cfncn a fd t)) = Some (spec bs) \<and>
      clen (fst (cfncn a fd t)) = Some (length bs)"
    and call_err: "contents fd = None \<Longrightarrow> rc (fst (cfncn a fd t)) = 1"
begin

definition readable :: "(string \<Rightarrow> instream option) \<Rightarrow> string \<Rightarrow> bytes option" where
  "readable opn fn = Option.bind (opn fn) contents"

lemma files_report:
  "cksum_files a opn fns t r =
     \<lparr>stdout = stdout r @ concat (map (\<lambda>fn. case readable opn fn of None \<Rightarrow> [] | Some bs \<Rightarrow>
        pfncn a (Some fn) (spec bs) (length bs)) fns),
      stderr = stderr r @ map Warn (filter (\<lambda>fn. readable opn fn = None) fns),
      status = (if \<exists>fn \<in> set fns. readable opn fn = None then 1 else status r)\<rparr>"
proof (induction fns arbitrary: t r)
  case Nil
  show ?case by simp
next
  case (Cons fn fns)
  show ?case
  proof (cases "readable opn fn")
    case None
    then have "opn fn = None \<or> (\<exists>fd. opn fn = Some fd \<and> contents fd = None)"
      by (cases "opn fn") (auto simp: readable_def)
    then show ?thesis
      using Cons None call_err by (auto simp: case_prod_beta)
  next
    case (Some bs)
    then obtain fd where "opn fn = Some fd" "contents fd = Some bs"
      by (auto simp: readable_def bind_eq_Some_conv)
    then show ?thesis
      using Cons Some call_ok by (auto simp: case_prod_beta)
  qed
qed

lemma stdin_report:
  "cksum_stdin a fd =
     (case contents fd of
        None \<Rightarrow> \<lparr>stdout = [], stderr = [Warn ''stdin''], status = 1\<rparr>
      | Some bs \<Rightarrow> \<lparr>stdout = pfncn a None (spec bs) (length bs), stderr = [], status = 0\<rparr>)"
  using call_ok [of fd] call_err [of fd]
  by (auto simp: cksum_stdin_def case_prod_beta split: option.splits)

end

text \<open>The value each routine promises.\<close>

fun alg_spec :: "alg \<Rightarrow> bytes \<Rightarrow> u32" where
  "alg_spec Crc bs = posix_cksum bs"
| "alg_spec Crc32 bs = iso_crc32 bs"
| "alg_spec Csum1 bs = ucast (bsd_sum bs)"
| "alg_spec Csum2 bs = of_nat (sysv_sum bs)"

interpretation crc_routine: checksum_routine Crc "alg_spec Crc"
proof (unfold_locales, goal_cases)
  case (1 fd bs t)
  then show ?case using crc_spec [of fd t] by simp
next
  case (2 fd t)
  then show ?case using crc_spec [of fd t] by simp
qed

interpretation crc32_routine: checksum_routine Crc32 "alg_spec Crc32"
proof (unfold_locales, goal_cases)
  case (1 fd bs t)
  then show ?case using crc32_spec [of fd t] by simp
next
  case (2 fd t)
  then show ?case using crc32_spec [of fd t] by simp
qed

interpretation csum1_routine: checksum_routine Csum1 "alg_spec Csum1"
proof (unfold_locales, goal_cases)
  case (1 fd bs t)
  then show ?case using csum1_spec [of fd t] by simp
next
  case (2 fd t)
  then show ?case using csum1_spec [of fd t] by simp
qed

lemma csum2_value: "contents fd = Some bs \<Longrightarrow> cval (fst (csum2 fd t)) = Some (of_nat (sysv_sum bs))"
  using csum2_spec [of fd t] by (auto dest!: arg_cong [where f = "of_nat :: nat \<Rightarrow> u32"])

interpretation csum2_routine: checksum_routine Csum2 "alg_spec Csum2"
proof (unfold_locales, goal_cases)
  case (1 fd bs t)
  then show ?case using csum2_spec [of fd t] csum2_value [of fd bs t] by simp
next
  case (2 fd t)
  then show ?case using csum2_spec [of fd t] by simp
qed

lemma any_routine: "checksum_routine a (alg_spec a)"
  by (cases a) (simp_all only: crc_routine.checksum_routine_axioms crc32_routine.checksum_routine_axioms
      csum1_routine.checksum_routine_axioms csum2_routine.checksum_routine_axioms)

text \<open>What a run over operands reports, from the contents alone.\<close>

definition file_contents :: "env \<Rightarrow> string \<Rightarrow> bytes option" where
  "file_contents e fn = Option.bind (open_rdonly e fn) contents"

definition report :: "alg \<Rightarrow> env \<Rightarrow> string list \<Rightarrow> outcome" where
  "report a e files =
     (if files = [] then
        (case contents (stdin e) of
           None \<Rightarrow> \<lparr>stdout = [], stderr = [Warn ''stdin''], status = 1\<rparr>
         | Some bs \<Rightarrow> \<lparr>stdout = pfncn a None (alg_spec a bs) (length bs), stderr = [], status = 0\<rparr>)
      else
        \<lparr>stdout = concat (map (\<lambda>fn. case file_contents e fn of None \<Rightarrow> [] | Some bs \<Rightarrow>
            pfncn a (Some fn) (alg_spec a bs) (length bs)) files),
         stderr = map Warn (filter (\<lambda>fn. file_contents e fn = None) files),
         status = (if \<exists>fn \<in> set files. file_contents e fn = None then 1 else 0)\<rparr>)"

lemma operands_report: "cksum_operands a e files = report a e files"
  using any_routine [of a]
  by (auto simp: cksum_operands_def report_def checksum_routine.stdin_report
      checksum_routine.files_report checksum_routine.readable_def file_contents_def)

section \<open>Properties\<close>

text \<open>C11: \<open>crc\<close> computes the POSIX checksum. Whatever the kernel's short reads, on a
  descriptor whose contents are \<open>bs\<close> it returns 0, the complement of the bit-serial
  remainder (polynomial 0x04c11db7, most significant bit first) of \<open>bs\<close> followed by its
  length, the length itself, and folds the same bytes into \<open>crc_total\<close>; on a read error
  it returns 1 and delivers nothing.\<close>

theorem crc_is_posix_cksum:
  "case contents fd of
     None \<Rightarrow> rc (fst (crc fd t)) = 1 \<and> cval (fst (crc fd t)) = None
   | Some bs \<Rightarrow> fst (crc fd t) =
       \<lparr>rc = 0, cval = Some (posix_cksum bs), clen = Some (length bs),
        total = NOT (msb_crc (bs @ length_bytes (length bs)) (NOT t))\<rparr>"
  by (rule crc_spec)

text \<open>C30: \<open>crc32\<close> computes the bit-serial CRC-32 (reflected polynomial 0xedb88320, least
  significant bit first, initial value and final complement all ones) of the contents,
  although it reads \<open>char\<close>s, which are sign-extended before they are masked.\<close>

theorem crc32_is_bit_serial:
  "case contents fd of
     None \<Rightarrow> rc (fst (crc32 fd t)) = 1 \<and> cval (fst (crc32 fd t)) = None
   | Some bs \<Rightarrow> fst (crc32 fd t) =
       \<lparr>rc = 0, cval = Some (iso_crc32 bs), clen = Some (length bs),
        total = NOT (lsb_crc bs (NOT t))\<rparr>"
  by (rule crc32_spec)

text \<open>C31: \<open>csum1\<close> is the 16-bit rotating sum: its 32-bit register with the carry bit
  \<open>0x10000\<close> behaves as a 16-bit word rotated right by one before each byte is added.\<close>

theorem csum1_is_rotating_sum:
  "case contents fd of
     None \<Rightarrow> rc (fst (csum1 fd t)) = 1 \<and> cval (fst (csum1 fd t)) = None
   | Some bs \<Rightarrow> fst (csum1 fd t) =
       \<lparr>rc = 0, cval = Some (ucast (bsd_sum bs)), clen = Some (length bs), total = t\<rparr>"
  by (rule csum1_spec)

lemma fold_carry_bound:
  assumes "r \<le> 2 * 65535"
  shows "(r :: nat) mod 2 ^ 16 + r div 2 ^ 16 \<le> 65535"
proof (cases "r < 2 ^ 16")
  case False
  then have "r mod 2 ^ 16 = r - 2 ^ 16" "r div 2 ^ 16 = 1"
    using assms by (simp_all add: le_mod_geq le_div_geq)
  with False assms show ?thesis by simp
qed simp

lemma fold_carry_mod: "((r :: nat) mod 2 ^ 16 + r div 2 ^ 16) mod 65535 = r mod 65535"
proof -
  have "r = r mod 2 ^ 16 + (r div 2 ^ 16) * (65535 + 1)"
    by (simp add: mult.commute)
  then have "r = (r mod 2 ^ 16 + r div 2 ^ 16) + (r div 2 ^ 16) * 65535"
    by (simp only: distrib_left mult_1_right add.assoc add.commute [of "r div 2 ^ 16"])
  then have "r mod 65535 = ((r mod 2 ^ 16 + r div 2 ^ 16) + (r div 2 ^ 16) * 65535) mod 65535"
    by (rule arg_cong)
  then show ?thesis by (simp only: mod_mult_self1)
qed

lemma sysv_sum_bound: "sysv_sum bs \<le> 65535"
proof -
  have "s mod 2 ^ 16 + (s mod 2 ^ 32) div 2 ^ 16 \<le> 2 * 65535" for s :: nat
  proof -
    have "s mod 2 ^ 16 < 2 ^ 16" "s mod 2 ^ 32 < 2 ^ 16 * 2 ^ 16" by simp_all
    then have "s mod 2 ^ 16 < 2 ^ 16" "(s mod 2 ^ 32) div 2 ^ 16 < 2 ^ 16"
      by (simp_all only: less_mult_imp_div_less)
    then show ?thesis by simp
  qed
  then show ?thesis
    unfolding sysv_sum_def Let_def by (rule fold_carry_bound)
qed

lemma sysv_sum_mod:
  assumes "sum_list (map unat bs) < 2 ^ 32"
  shows "sysv_sum bs mod 65535 = sum_list (map unat bs) mod 65535"
  using assms unfolding sysv_sum_def Let_def
  by (simp only: fold_carry_mod mod_less)

text \<open>\<open>csum2\<close> is the System V sum of the comment in \<open>sum2.c\<close>
  (\<open>s\<close> the sum of all bytes, \<open>r = s % 2^16 + (s % 2^32) / 2^16\<close>, the value
  \<open>r % 2^16 + r / 2^16\<close>); it fits in 16 bits, and below \<open>2^32\<close> it is congruent to
  the sum of the bytes modulo 65535.\<close>

theorem csum2_is_sysv_sum:
  "case contents fd of
     None \<Rightarrow> rc (fst (csum2 fd t)) = 1 \<and> cval (fst (csum2 fd t)) = None
   | Some bs \<Rightarrow> rc (fst (csum2 fd t)) = 0 \<and> clen (fst (csum2 fd t)) = Some (length bs) \<and>
       map_option unat (cval (fst (csum2 fd t))) = Some (sysv_sum bs) \<and> sysv_sum bs \<le> 65535 \<and>
       (2 ^ 32 \<le> sum_list (map unat bs) \<or>
        sysv_sum bs mod 65535 = sum_list (map unat bs) mod 65535)"
proof (cases "contents fd")
  case None
  then show ?thesis using csum2_spec [of fd t] by simp
next
  case (Some bs)
  then show ?thesis
    using csum2_spec [of fd t] sysv_sum_bound [of bs] sysv_sum_mod [of bs]
    by (cases "sum_list (map unat bs) < 2 ^ 32") auto
qed

text \<open>\<open>crc_total\<close> is the checksum "over a number of files": starting from its initial
  value, after any sequence of readable descriptors it is the complement of the remainder of
  all their messages (contents and length) run through one register.\<close>

theorem crc_total_over_files:
  assumes "map contents fds = map Some bss"
  shows "foldl (\<lambda>t fd. total (fst (crc fd t))) (initial_total Crc) fds =
    NOT (msb_crc (concat (map (\<lambda>bs. bs @ length_bytes (length bs)) bss)) 0)"
proof -
  have "foldl (\<lambda>t fd. total (fst (crc fd t))) t fds =
      NOT (msb_crc (concat (map (\<lambda>bs. bs @ length_bytes (length bs)) bss)) (NOT t))" for t
    using assms
  proof (induction bss arbitrary: fds t)
    case Nil
    then show ?case by (simp add: msb_crc_def)
  next
    case (Cons bs bss)
    then obtain fd fds' where "fds = fd # fds'" "contents fd = Some bs"
      "map contents fds' = map Some bss"
      by auto
    then show ?case
      using Cons.IH crc_spec [of fd t] by (simp add: msb_crc_append)
  qed
  then show ?thesis by simp
qed

theorem crc_total_over_files_witness:
  "map contents [[Data [1, 2]], [Data [3]]] = map Some [[1, 2], [3]] \<and>
   foldl (\<lambda>t fd. total (fst (crc fd t))) (initial_total Crc) [[Data [1, 2]], [Data [3]]] =
     NOT (msb_crc (concat (map (\<lambda>bs. bs @ length_bytes (length bs)) [[1, 2], [3]])) 0)"
proof -
  have h: "map contents [[Data [1, 2]], [Data [3]]] = map Some [[1, 2], [3]]" by simp
  show ?thesis using crc_total_over_files [OF h] h by blast
qed


end
