(* ===== verification/Dd_State.thy ===== *)
theory Dd_State
  imports Prelude
begin

text \<open>
  The state of \<open>dd\<close> (\<^verbatim>\<open>file_cmds-251/dd/dd.h\<close> and the globals of \<open>dd.c\<close>), the
  memory blocks its buffers live in and the kernel's side of its output descriptor, with the
  laws of the memory and file operations that the other \<open>dd\<close> theories use.
\<close>

section \<open>Memory blocks\<close>

text \<open>
  A block obtained from \<open>malloc\<close> is a list of bytes of fixed length; \<open>peek\<close> reads
  \<open>n\<close> bytes at an offset, \<open>poke\<close> overwrites bytes at an offset. Both give \<open>None\<close>
  outside the block.
\<close>

definition peek :: "bytes \<Rightarrow> nat \<Rightarrow> nat \<Rightarrow> bytes option" where
  "peek m p n = (if p + n \<le> length m then Some (take n (drop p m)) else None)"

definition poke :: "bytes \<Rightarrow> nat \<Rightarrow> bytes \<Rightarrow> bytes option" where
  "poke m p xs =
     (if p + length xs \<le> length m then Some (take p m @ xs @ drop (p + length xs) m) else None)"

lemma poke_length: "poke m p xs = Some m' \<Longrightarrow> length m' = length m"
  by (auto simp: poke_def split: if_splits)

lemma peek_length: "peek m p n = Some xs \<Longrightarrow> length xs = n"
  by (auto simp: peek_def split: if_splits)

lemma poke_take: "poke m p xs = Some m' \<Longrightarrow> take (p + length xs) m' = take p m @ xs"
  by (auto simp: poke_def split: if_splits)

section \<open>dd.h\<close>

datatype buf = InBuf | OutBuf

record IO =
  db :: buf
  dbp :: nat
  dbcnt :: nat
  dbrcnt :: nat
  dbsz :: nat
  flags :: u32
  name :: "string option"
  offset :: int

abbreviation (input) ISCHR :: u32 where "ISCHR \<equiv> 0x01"
abbreviation (input) ISPIPE :: u32 where "ISPIPE \<equiv> 0x02"
abbreviation (input) ISTAPE :: u32 where "ISTAPE \<equiv> 0x04"
abbreviation (input) ISSEEK :: u32 where "ISSEEK \<equiv> 0x08"
abbreviation (input) NOREAD :: u32 where "NOREAD \<equiv> 0x10"
abbreviation (input) ISTRUNC :: u32 where "ISTRUNC \<equiv> 0x20"

record STAT =
  in_full :: nat
  in_part :: nat
  out_full :: nat
  out_part :: nat
  trunc :: nat
  swab :: nat
  bytes_out :: nat

abbreviation (input) C_ASCII :: u32 where "C_ASCII \<equiv> 0x00001"
abbreviation (input) C_BLOCK :: u32 where "C_BLOCK \<equiv> 0x00002"
abbreviation (input) C_BS :: u32 where "C_BS \<equiv> 0x00004"
abbreviation (input) C_CBS :: u32 where "C_CBS \<equiv> 0x00008"
abbreviation (input) C_COUNT :: u32 where "C_COUNT \<equiv> 0x00010"
abbreviation (input) C_EBCDIC :: u32 where "C_EBCDIC \<equiv> 0x00020"
abbreviation (input) C_FILES :: u32 where "C_FILES \<equiv> 0x00040"
abbreviation (input) C_IBS :: u32 where "C_IBS \<equiv> 0x00080"
abbreviation (input) C_IF :: u32 where "C_IF \<equiv> 0x00100"
abbreviation (input) C_LCASE :: u32 where "C_LCASE \<equiv> 0x00200"
abbreviation (input) C_NOERROR :: u32 where "C_NOERROR \<equiv> 0x00400"
abbreviation (input) C_NOTRUNC :: u32 where "C_NOTRUNC \<equiv> 0x00800"
abbreviation (input) C_OBS :: u32 where "C_OBS \<equiv> 0x01000"
abbreviation (input) C_OF :: u32 where "C_OF \<equiv> 0x02000"
abbreviation (input) C_SEEK :: u32 where "C_SEEK \<equiv> 0x04000"
abbreviation (input) C_SKIP :: u32 where "C_SKIP \<equiv> 0x08000"
abbreviation (input) C_SWAB :: u32 where "C_SWAB \<equiv> 0x10000"
abbreviation (input) C_SYNC :: u32 where "C_SYNC \<equiv> 0x20000"
abbreviation (input) C_UCASE :: u32 where "C_UCASE \<equiv> 0x40000"
abbreviation (input) C_UNBLOCK :: u32 where "C_UNBLOCK \<equiv> 0x80000"
abbreviation (input) C_OSYNC :: u32 where "C_OSYNC \<equiv> 0x100000"
abbreviation (input) C_SPARSE :: u32 where "C_SPARSE \<equiv> 0x200000"

section \<open>The output descriptor\<close>

text \<open>
  The kernel's answers to \<open>write(2)\<close>, in order: accept at most so many bytes, be
  interrupted (\<open>EINTR\<close>), or fail; when the script is empty every write is accepted in full.
  The file behind the descriptor is a byte list with a position; a write past its end leaves
  zero bytes in between.
\<close>

datatype wr = Accept nat | Wintr | Werr

record ofile =
  content :: bytes
  pos :: nat
  can_seek :: bool
  wscript :: "wr list"

datatype wres = Wrote nat | WroteIntr | WroteErr

definition write_at :: "bytes \<Rightarrow> nat \<Rightarrow> bytes \<Rightarrow> bytes" where
  "write_at c p xs =
     (if xs = [] then c
      else take p c @ replicate (p - length c) 0 @ xs @ drop (p + length xs) c)"

fun c_write :: "bytes \<Rightarrow> ofile \<Rightarrow> wres \<times> ofile" where
  "c_write xs f =
     (case wscript f of
        [] \<Rightarrow> (Wrote (length xs), f\<lparr>content := write_at (content f) (pos f) xs, pos := pos f + length xs\<rparr>)
      | Accept k # r \<Rightarrow>
          (Wrote (min k (length xs)),
           f\<lparr>content := write_at (content f) (pos f) (take k xs), pos := pos f + min k (length xs),
             wscript := r\<rparr>)
      | Wintr # r \<Rightarrow> (WroteIntr, f\<lparr>wscript := r\<rparr>)
      | Werr # r \<Rightarrow> (WroteErr, f\<lparr>wscript := r\<rparr>))"

declare c_write.simps [simp del]

lemma c_write_frame [simp]:
  "wscript (snd (c_write xs f)) = tl (wscript f)" "can_seek (snd (c_write xs f)) = can_seek f"
  by (auto simp: c_write.simps split: list.splits wr.splits)

lemma c_write_full: "wscript f = [] \<Longrightarrow> fst (c_write xs f) = Wrote (length xs)"
  by (simp add: c_write.simps)

lemma write_at_end [simp]: "p = length c \<Longrightarrow> write_at c p xs = c @ xs"
  by (simp add: write_at_def)

section \<open>The globals\<close>

text \<open>
  The values of the conversion pointer \<open>cfunc\<close>; \<open>ctab\<close> is the conversion table it
  points to, if any. \<open>intrunc\<close> and \<open>warned\<close> are the static variables of
  \<open>block\<close> and \<open>dd_out\<close>; \<open>ibuf\<close> and \<open>obuf\<close> are the two memory blocks
  (\<open>obuf\<close> is unused when the output uses the input's buffer); \<open>in_fd\<close> and
  \<open>out_fd\<close> are the descriptors, \<open>msgs\<close> what went to the standard error, and
  \<open>times\<close> the renderings of elapsed time and rate at the successive calls of
  \<open>summary\<close>, which depend on the clock.
\<close>

datatype conv_fn = Def | Block | Unblock

record dd =
  io_in :: IO
  io_out :: IO
  st :: STAT
  cfunc :: conv_fn
  cpy_cnt :: int
  pending :: nat
  ddflags :: u32
  cbsz :: nat
  files_cnt :: int
  ctab :: "bytes option"
  ibuf :: bytes
  obuf :: bytes
  intrunc :: bool
  warned :: bool
  in_fd :: instream
  out_fd :: ofile
  msgs :: "diag list"
  times :: "string list"

text \<open>
  How a routine can stop: \<open>Exit\<close> is \<open>exit(3)\<close> with its status; \<open>Undef\<close> is
  an access outside a buffer or a count below zero, which C leaves undefined.
\<close>

datatype stop = Exit nat dd | Undef

definition of_opt :: "'a option \<Rightarrow> stop + 'a" where
  "of_opt x = (case x of None \<Rightarrow> Inl Undef | Some a \<Rightarrow> Inr a)"

lemma of_opt_simps [simp]: "of_opt None = Inl Undef" "of_opt (Some a) = Inr a"
  by (simp_all add: of_opt_def)

definition sub_size :: "nat \<Rightarrow> nat \<Rightarrow> stop + nat" where
  "sub_size a b = (if b \<le> a then Inr (a - b) else Inl Undef)"

lemma sub_size_Inr [simp]: "b \<le> a \<Longrightarrow> sub_size a b = Inr (a - b)"
  by (simp add: sub_size_def)

abbreviation flag :: "dd \<Rightarrow> u32 \<Rightarrow> bool" where
  "flag s f \<equiv> ddflags s AND f \<noteq> 0"

definition diag :: "diag \<Rightarrow> dd \<Rightarrow> dd" where
  "diag d s = s\<lparr>msgs := msgs s @ [d]\<rparr>"

definition err :: "nat \<Rightarrow> string \<Rightarrow> dd \<Rightarrow> stop + 'a" where
  "err n t s = Inl (Exit n (diag (Errmsg t) s))"

definition errx :: "nat \<Rightarrow> string \<Rightarrow> dd \<Rightarrow> stop + 'a" where
  "errx n t s = Inl (Exit n (diag (Errxmsg t) s))"

definition io_name :: "IO \<Rightarrow> string" where
  "io_name io = (case name io of None \<Rightarrow> '''' | Some n \<Rightarrow> n)"

definition upd_in :: "(IO \<Rightarrow> IO) \<Rightarrow> dd \<Rightarrow> dd" where
  "upd_in f s = s\<lparr>io_in := f (io_in s)\<rparr>"

definition upd_out :: "(IO \<Rightarrow> IO) \<Rightarrow> dd \<Rightarrow> dd" where
  "upd_out f s = s\<lparr>io_out := f (io_out s)\<rparr>"

definition upd_st :: "(STAT \<Rightarrow> STAT) \<Rightarrow> dd \<Rightarrow> dd" where
  "upd_st f s = s\<lparr>st := f (st s)\<rparr>"

text \<open>The block a pointer points into, and its update.\<close>

fun mem :: "buf \<Rightarrow> dd \<Rightarrow> bytes" where
  "mem InBuf s = ibuf s"
| "mem OutBuf s = obuf s"

fun set_mem :: "buf \<Rightarrow> bytes \<Rightarrow> dd \<Rightarrow> dd" where
  "set_mem InBuf m s = s\<lparr>ibuf := m\<rparr>"
| "set_mem OutBuf m s = s\<lparr>obuf := m\<rparr>"

definition load :: "buf \<Rightarrow> nat \<Rightarrow> nat \<Rightarrow> dd \<Rightarrow> stop + bytes" where
  "load b p n s = of_opt (peek (mem b s) p n)"

definition store :: "buf \<Rightarrow> nat \<Rightarrow> bytes \<Rightarrow> dd \<Rightarrow> stop + dd" where
  "store b p xs s = bind_r (of_opt (poke (mem b s) p xs)) (\<lambda>m. Inr (set_mem b m s))"

text \<open>\<open>memmove\<close> within or between blocks.\<close>

definition memmove :: "buf \<Rightarrow> nat \<Rightarrow> buf \<Rightarrow> nat \<Rightarrow> nat \<Rightarrow> dd \<Rightarrow> stop + dd" where
  "memmove d dp b bp n s = bind_r (load b bp n s) (\<lambda>xs. store d dp xs s)"

section \<open>misc.c\<close>

definition plural :: "nat \<Rightarrow> string \<Rightarrow> string \<Rightarrow> string" where
  "plural n one many = show_nat n @ (if n = 1 then one else many)"

text \<open>The lines \<open>summary\<close> writes; the last one ends with the elapsed time and the rate.\<close>

definition summary_lines :: "STAT \<Rightarrow> string \<Rightarrow> diag list" where
  "summary_lines t tm =
     [Plain (show_nat (in_full t) @ ''+'' @ show_nat (in_part t) @ '' records in''),
      Plain (show_nat (out_full t) @ ''+'' @ show_nat (out_part t) @ '' records out'')] @
     (if swab t \<noteq> 0
      then [Plain (plural (swab t) '' odd length swab block'' '' odd length swab blocks'')] else []) @
     (if trunc t \<noteq> 0
      then [Plain (plural (trunc t) '' truncated record'' '' truncated records'')] else []) @
     [Plain (show_nat (bytes_out t) @ '' bytes transferred in '' @ tm)]"

definition summary :: "dd \<Rightarrow> dd" where
  "summary s = s\<lparr>msgs := msgs s @ summary_lines (st s) (case times s of [] \<Rightarrow> [] | tm # _ \<Rightarrow> tm),
                 times := tl (times s)\<rparr>"

text \<open>The signal handlers: \<open>summaryx\<close> on \<open>SIGINFO\<close>, \<open>terminate\<close> on
  \<open>SIGINT\<close> (\<open>_exit\<close>, so no second summary).\<close>

definition summaryx :: "dd \<Rightarrow> dd" where
  "summaryx s = summary s"

definition terminate :: "nat \<Rightarrow> dd \<Rightarrow> stop" where
  "terminate sig s = Exit (if sig = 0 then 0 else 1) (summary s)"

end
