(* ===== verification/Dd_Out.thy ===== *)
theory Dd_Out
  imports Dd_State
begin

text \<open>
  \<open>dd_out\<close> of \<^verbatim>\<open>file_cmds-251/dd/dd.c\<close>: writing whole output blocks, in as many
  \<open>write(2)\<close> calls as the kernel wants, with the accounting and the sparse-file handling,
  and moving what is left to the start of the buffer.
\<close>

section \<open>Definitions\<close>

text \<open>
  The pending hole of a sparse copy is skipped by a seek before the next real write. On a
  forced write the seek stops one byte short and one byte of the buffer is written there.
\<close>

definition flush_pending :: "bool \<Rightarrow> nat \<Rightarrow> dd \<Rightarrow> stop + dd" where
  "flush_pending force outp s =
     (if pending s = 0 then Inr s
      else let p = (if force then pending s - 1 else pending s);
               s1 = s\<lparr>pending := p\<rparr> in
        if \<not> can_seek (out_fd s1)
        then err 2 (io_name (io_out s1) @ '': seek error creating sparse file'') s1
        else let s2 = s1\<lparr>out_fd := (out_fd s1)\<lparr>pos := pos (out_fd s1) + p\<rparr>\<rparr> in
          if force then
            bind_r (load (db (io_out s2)) outp 1 s2) (\<lambda>b.
              Inr (s2\<lparr>out_fd := snd (c_write b (out_fd s2)), pending := 0\<rparr>))
          else Inr (s2\<lparr>pending := 0\<rparr>))"

text \<open>The value \<open>nw\<close> after the checks: an interrupted call counts as 0 bytes.\<close>

fun written :: "wres \<Rightarrow> nat" where
  "written (Wrote k) = k"
| "written _ = 0"

text \<open>
  The accounting after \<open>nw\<close> of the \<open>cnt\<close> bytes still to go of an \<open>n\<close>-byte
  block were written; the flag says whether the block is done.
\<close>

definition account :: "nat \<Rightarrow> nat \<Rightarrow> nat \<Rightarrow> dd \<Rightarrow> stop + (dd \<times> bool)" where
  "account n cnt nw s =
     (let s1 = upd_st (\<lambda>t. t\<lparr>bytes_out := bytes_out t + nw\<rparr>) s in
      if nw = n then
        Inr (upd_st (\<lambda>t. if n \<noteq> dbsz (io_out s) then t\<lparr>out_part := Suc (out_part t)\<rparr>
                        else t\<lparr>out_full := Suc (out_full t)\<rparr>) s1, True)
      else let s2 = upd_st (\<lambda>t. t\<lparr>out_part := Suc (out_part t)\<rparr>) s1 in
        if nw = cnt then Inr (s2, True)
        else if flags (io_out s2) AND ISTAPE \<noteq> 0
        then errx 1 (io_name (io_out s2) @ '': short write on tape device'') s2
        else if flags (io_out s2) AND ISCHR \<noteq> 0 \<and> \<not> warned s2
        then Inr (diag (Warnx (io_name (io_out s2) @ '': short write on character device''))
                    (s2\<lparr>warned := True\<rparr>), False)
        else Inr (s2, False))"

text \<open>
  The inner loop: write \<open>cnt\<close> bytes at \<open>outp\<close>. The result carries \<open>outp\<close>
  and whether the routine returned from inside the loop.
\<close>

function write_block :: "bool \<Rightarrow> nat \<Rightarrow> nat \<Rightarrow> nat \<Rightarrow> dd \<Rightarrow> stop + (dd \<times> nat \<times> bool)" where
  "write_block force n cnt outp s =
     bind_r (load (db (io_out s)) outp cnt s) (\<lambda>blk.
       if flag s C_SPARSE \<and> (\<forall>b \<in> set blk. b = 0) \<and> \<not> force then
         (let s0 = s\<lparr>pending := pending s + cnt\<rparr> in
          if cnt = 0 then errx 1 (io_name (io_out s0) @ '': end of device'') s0
          else bind_r (account n cnt cnt s0) (\<lambda>(s1, d). Inr (s1, outp + cnt, False)))
       else bind_r (flush_pending force outp s) (\<lambda>s1.
         if cnt = 0 then Inr (s1, outp, True)
         else let w = c_write blk (out_fd s1); nw = written (fst w); s2 = s1\<lparr>out_fd := snd w\<rparr> in
           if fst w = Wrote 0 then errx 1 (io_name (io_out s2) @ '': end of device'') s2
           else if fst w = WroteErr then err 1 (io_name (io_out s2)) s2
           else bind_r (account n cnt nw s2) (\<lambda>(s3, d).
             if d then Inr (s3, outp + nw, False)
             else write_block force n (cnt - nw) (outp + nw) s3)))"
  by pat_completeness auto

lemma account_frame:
  "account n cnt nw s = Inr (s', d) \<Longrightarrow>
     io_in s' = io_in s \<and> io_out s' = io_out s \<and> cfunc s' = cfunc s \<and> cpy_cnt s' = cpy_cnt s \<and>
     pending s' = pending s \<and> ddflags s' = ddflags s \<and> cbsz s' = cbsz s \<and> files_cnt s' = files_cnt s \<and>
     ctab s' = ctab s \<and> ibuf s' = ibuf s \<and> obuf s' = obuf s \<and> intrunc s' = intrunc s \<and>
     in_fd s' = in_fd s \<and> out_fd s' = out_fd s \<and> times s' = times s"
  by (auto simp: account_def Let_def upd_st_def diag_def errx_def split: if_splits)

lemma account_not_done: "account n cnt nw s = Inr (s', False) \<Longrightarrow> nw \<noteq> cnt"
  by (auto simp: account_def Let_def errx_def split: if_splits)

lemma flush_pending_script:
  "flush_pending force outp s = Inr s' \<Longrightarrow> length (wscript (out_fd s')) \<le> length (wscript (out_fd s))"
  by (auto simp: flush_pending_def Let_def err_def bind_r_Inr split: if_splits)

lemma load_length: "load b p n s = Inr xs \<Longrightarrow> length xs = n"
  by (auto simp: load_def of_opt_def dest: peek_length split: option.splits)

lemma write_step_decreases:
  assumes "load b outp cnt s = Inr blk" "flush_pending force outp s = Inr s1"
    and "account n cnt (written (fst (c_write blk (out_fd s1))))
           (s1\<lparr>out_fd := snd (c_write blk (out_fd s1))\<rparr>) = Inr (s2, False)"
  shows "length (wscript (out_fd s2)) < length (wscript (out_fd s))"
proof -
  have "fst (c_write blk (out_fd s1)) \<noteq> Wrote (length blk)"
    using account_not_done [OF assms(3)] load_length [OF assms(1)] by auto
  then have "wscript (out_fd s1) \<noteq> []" using c_write_full by metis
  then have "length (wscript (out_fd s2)) < length (wscript (out_fd s1))"
    using account_frame [OF assms(3)] by simp
  then show ?thesis using flush_pending_script [OF assms(2)] by simp
qed

termination write_block
proof (relation "measure (\<lambda>(force, n, cnt, outp, s). length (wscript (out_fd s)))", goal_cases)
  case (2 force n cnt outp s blk s1 w nw s2 p s3 d)
  then show ?case
    using write_step_decreases [of _ outp cnt s blk force s1 n s3] by simp
qed simp

declare write_block.simps [simp del]

text \<open>What the output side of \<open>dd\<close> leaves alone.\<close>

definition in_stats :: "dd \<Rightarrow> nat list" where
  "in_stats s = [in_full (st s), in_part (st s), trunc (st s), swab (st s)]"

definition core :: "dd \<Rightarrow> _" where
  "core s = (io_in s, io_out s, in_stats s, cfunc s, cpy_cnt s, ddflags s, cbsz s, files_cnt s,
     ctab s, ibuf s, obuf s, intrunc s, in_fd s, times s)"

lemma account_core: "account n cnt nw s = Inr (s', d) \<Longrightarrow> core s' = core s"
  using account_frame [of n cnt nw s s' d]
  by (auto simp: core_def in_stats_def account_def Let_def upd_st_def diag_def errx_def split: if_splits)

lemma flush_pending_core: "flush_pending force outp s = Inr s' \<Longrightarrow> core s' = core s"
  by (auto simp: core_def in_stats_def flush_pending_def Let_def err_def bind_r_Inr split: if_splits)

lemma core_frame:
  assumes "core s' = core s"
  shows "io_in s' = io_in s" "io_out s' = io_out s" "cfunc s' = cfunc s" "cpy_cnt s' = cpy_cnt s"
    "ddflags s' = ddflags s" "cbsz s' = cbsz s" "files_cnt s' = files_cnt s" "ctab s' = ctab s"
    "ibuf s' = ibuf s" "obuf s' = obuf s" "intrunc s' = intrunc s" "in_fd s' = in_fd s"
    "mem b s' = mem b s" "in_stats s' = in_stats s"
  using assms by (cases b; simp add: core_def)+

lemma core_upd [simp]: "core (s\<lparr>out_fd := f\<rparr>) = core s" "core (s\<lparr>pending := k\<rparr>) = core s"
  by (simp_all add: core_def in_stats_def)

text \<open>How a call of the inner loop that returns can have gone.\<close>

lemma write_block_cases:
  assumes "write_block force n cnt outp s = Inr (s', p, r)"
  obtains (sparse) d where "flag s C_SPARSE" "\<not> force"
      "account n cnt cnt (s\<lparr>pending := pending s + cnt\<rparr>) = Inr (s', d)" "p = outp + cnt" "\<not> r"
      "cnt \<noteq> 0"
  | (ret) "flush_pending force outp s = Inr s'" "cnt = 0" "p = outp" "r"
  | (last) blk s1 where "load (db (io_out s)) outp cnt s = Inr blk" "cnt \<noteq> 0"
      "flush_pending force outp s = Inr s1"
      "account n cnt (written (fst (c_write blk (out_fd s1))))
         (s1\<lparr>out_fd := snd (c_write blk (out_fd s1))\<rparr>) = Inr (s', True)" "\<not> r"
  | (more) blk s1 s2 nw where "load (db (io_out s)) outp cnt s = Inr blk" "cnt \<noteq> 0"
      "flush_pending force outp s = Inr s1" "nw = written (fst (c_write blk (out_fd s1)))"
      "account n cnt nw (s1\<lparr>out_fd := snd (c_write blk (out_fd s1))\<rparr>) = Inr (s2, False)"
      "write_block force n (cnt - nw) (outp + nw) s2 = Inr (s', p, r)"
proof -
  note eq = assms [unfolded write_block.simps [of force n cnt outp s]]
  then obtain blk where l: "load (db (io_out s)) outp cnt s = Inr blk" by (auto simp: bind_r_Inr)
  show thesis
  proof (cases "flag s C_SPARSE \<and> (\<forall>b \<in> set blk. b = 0) \<and> \<not> force")
    case True
    from eq [unfolded l bind_r_simps if_P [OF True]]
    have "cnt \<noteq> 0" "p = outp + cnt" "\<not> r"
      and "\<exists>d. account n cnt cnt (s\<lparr>pending := pending s + cnt\<rparr>) = Inr (s', d)"
      by (auto simp: bind_r_Inr errx_def Let_def split: if_splits)
    with True show thesis using sparse by blast
  next
    case False
    with eq l have eq2: "bind_r (flush_pending force outp s) (\<lambda>s1.
         if cnt = 0 then Inr (s1, outp, True)
         else let w = c_write blk (out_fd s1); nw = written (fst w); s2 = s1\<lparr>out_fd := snd w\<rparr> in
           if fst w = Wrote 0 then errx 1 (io_name (io_out s2) @ '': end of device'') s2
           else if fst w = WroteErr then err 1 (io_name (io_out s2)) s2
           else bind_r (account n cnt nw s2) (\<lambda>(s3, d).
             if d then Inr (s3, outp + nw, False)
             else write_block force n (cnt - nw) (outp + nw) s3)) = Inr (s', p, r)" (is "bind_r _ ?k = _")
      by (simp only: bind_r_simps if_False)
    then obtain s1 where f: "flush_pending force outp s = Inr s1" and k: "?k s1 = Inr (s', p, r)"
      by (auto simp only: bind_r_Inr)
    show thesis
    proof (cases "cnt = 0")
      case True
      from k True have "s1 = s'" "p = outp" "r" by simp_all
      then show thesis using ret f True by blast
    next
      case False
      note False0 = False
      define nw where "nw = written (fst (c_write blk (out_fd s1)))"
      define s2 where "s2 = s1\<lparr>out_fd := snd (c_write blk (out_fd s1))\<rparr>"
      from k False have "bind_r (account n cnt nw s2) (\<lambda>(s3, d).
             if d then Inr (s3, outp + nw, False)
             else write_block force n (cnt - nw) (outp + nw) s3) = Inr (s', p, r)"
        unfolding nw_def s2_def by (auto simp: Let_def err_def errx_def split: if_splits)
      then obtain s3 d where a: "account n cnt nw s2 = Inr (s3, d)"
        and c: "(if d then Inr (s3, outp + nw, False)
             else write_block force n (cnt - nw) (outp + nw) s3) = Inr (s', p, r)"
        by (auto simp only: bind_r_Inr split_paired_Ex prod.case)
      show thesis
      proof (cases d)
        case True
        with a c show thesis using last [OF l False0 f] by (simp add: nw_def s2_def)
      next
        case False
        with a c show thesis using more [OF l False0 f nw_def] by (simp add: s2_def)
      qed
    qed
  qed
qed

lemma write_block_core: "write_block force n cnt outp s = Inr (s', p, r) \<Longrightarrow> core s' = core s"
proof (induction "length (wscript (out_fd s))" arbitrary: cnt outp s rule: less_induct)
  case less
  from less.prems show ?case
  proof (cases rule: write_block_cases)
    case (more blk s1 s2 nw)
    then have "core s' = core s2"
      using less.hyps [of s2] write_step_decreases [of _ outp cnt s blk force s1 n s2] by simp
    then show ?thesis
      using account_core [OF more(5)] flush_pending_core [OF more(3)] by simp
  qed (auto dest!: account_core flush_pending_core)
qed


lemma write_block_positive: "write_block force n n outp s = Inr (s', p, False) \<Longrightarrow> n \<noteq> 0"
  by (erule write_block_cases) auto

text \<open>The outer loop, and \<open>dd_out\<close> itself.\<close>

function out_loop :: "bool \<Rightarrow> nat \<Rightarrow> nat \<Rightarrow> dd \<Rightarrow> stop + (dd \<times> bool)" where
  "out_loop force n outp s =
     bind_r (write_block force n n outp s) (\<lambda>(s1, p, r).
       if r then Inr (s1, True)
       else bind_r (sub_size (dbcnt (io_out s1)) n) (\<lambda>c.
         let s2 = upd_out (\<lambda>io. io\<lparr>dbcnt := c\<rparr>) s1 in
         if c < dbsz (io_out s2) then Inr (s2, False)
         else out_loop force (dbsz (io_out s2)) p s2))"
  by pat_completeness auto

termination out_loop
proof (relation "measure (\<lambda>(force, n, outp, s). dbcnt (io_out s))", goal_cases)
  case (2 force n outp s a s1 q p r c s2)
  then have *: "write_block force n n outp s = Inr (s1, p, False)" by simp
  from write_block_positive [OF this] 2 core_frame(2) [OF write_block_core [OF *]] show ?case
    by (auto simp: sub_size_def upd_out_def split: if_splits)
qed simp

declare out_loop.simps [simp del]

definition dd_out :: "bool \<Rightarrow> dd \<Rightarrow> stop + dd" where
  "dd_out force s =
     bind_r (out_loop force (if force then dbcnt (io_out s) else dbsz (io_out s)) 0 s) (\<lambda>(s1, r).
       if r then Inr s1
       else let c = dbcnt (io_out s1) in
         bind_r (if c = 0 then Inr s1
                 else bind_r (sub_size (dbp (io_out s1)) c) (\<lambda>q.
                   memmove (db (io_out s1)) 0 (db (io_out s1)) q c s1)) (\<lambda>s2.
           Inr (upd_out (\<lambda>io. io\<lparr>dbp := c\<rparr>) s2)))"

section \<open>What is written\<close>

lemma write_at_append:
  "write_at (write_at c p xs) (p + length xs) ys = write_at c p (xs @ ys)"
  by (cases "xs = []"; cases "ys = []"; cases "p \<le> length c") (auto simp: write_at_def ac_simps)

lemma write_at_Nil [simp]: "write_at c p [] = c"
  by (simp add: write_at_def)

text \<open>The bytes \<open>xs\<close> have gone out at the file position, and nothing else has.\<close>

definition emitted :: "bytes \<Rightarrow> dd \<Rightarrow> dd \<Rightarrow> bool" where
  "emitted xs s s' \<longleftrightarrow>
     content (out_fd s') = write_at (content (out_fd s)) (pos (out_fd s)) xs \<and>
     pos (out_fd s') = pos (out_fd s) + length xs \<and>
     set (wscript (out_fd s')) \<subseteq> set (wscript (out_fd s)) \<and>
     bytes_out (st s') = bytes_out (st s) + length xs"

lemma emitted_append [trans]:
  "emitted xs s s' \<Longrightarrow> emitted ys s' s'' \<Longrightarrow> emitted (xs @ ys) s s''"
  using write_at_append [of "content (out_fd s)" "pos (out_fd s)" xs ys] by (auto simp: emitted_def)

lemma emitted_Nil [simp]:
  "out_fd s' = out_fd s \<Longrightarrow> bytes_out (st s') = bytes_out (st s) \<Longrightarrow> emitted [] s s'"
  by (simp add: emitted_def)

text \<open>A copy without holes to a descriptor that never fails: it may be slow and interrupted.\<close>

definition ok_out :: "dd \<Rightarrow> bool" where
  "ok_out s \<longleftrightarrow> Werr \<notin> set (wscript (out_fd s)) \<and> Accept 0 \<notin> set (wscript (out_fd s)) \<and>
     flags (io_out s) AND ISTAPE = 0 \<and> \<not> flag s C_SPARSE \<and> pending s = 0"

lemma ok_out_step: "ok_out s \<Longrightarrow> emitted xs s s' \<Longrightarrow> core s' = core s \<Longrightarrow> pending s' = 0 \<Longrightarrow> ok_out s'"
  using core_frame(2,5) [of s' s] by (auto simp: ok_out_def emitted_def)

lemma account_bytes:
  "account n cnt nw s = Inr (s', d) \<Longrightarrow> bytes_out (st s') = bytes_out (st s) + nw"
  by (auto simp: account_def Let_def upd_st_def diag_def errx_def split: if_splits)

lemma account_ok:
  "flags (io_out s) AND ISTAPE = 0 \<Longrightarrow> \<exists>s' d. account n cnt nw s = Inr (s', d) \<and> (nw = cnt \<longrightarrow> d)"
  by (auto simp: account_def Let_def upd_st_def diag_def)

lemma account_done: "account n cnt nw s = Inr (s', True) \<Longrightarrow> nw = n \<or> nw = cnt"
  by (auto simp: account_def Let_def errx_def split: if_splits)

lemma c_write_ok:
  assumes "Werr \<notin> set (wscript f)" "Accept 0 \<notin> set (wscript f)" "xs \<noteq> []"
  obtains k f' where "written (fst (c_write xs f)) = k" "k \<le> length xs"
    "fst (c_write xs f) \<noteq> Wrote 0" "fst (c_write xs f) \<noteq> WroteErr"
    "snd (c_write xs f) = f'" "content f' = write_at (content f) (pos f) (take k xs)"
    "pos f' = pos f + k" "set (wscript f') \<subseteq> set (wscript f)"
  using assms
  by (cases "wscript f"; cases "hd (wscript f)")
    (auto simp: c_write.simps min_def intro: that split: if_splits)


lemma load_split:
  assumes "load b p n s = Inr xs" "k \<le> n"
  shows "load b p k s = Inr (take k xs)" "load b (p + k) (n - k) s = Inr (drop k xs)"
  using assms by (auto simp: load_def peek_def of_opt_def drop_take min_def add.commute split: if_splits option.splits)

lemma load_core: "core s' = core s \<Longrightarrow> load b p n s' = load b p n s"
  using core_frame(13) [of s' s b] by (simp add: load_def)

lemma write_block_writes:
  assumes "ok_out s" "load (db (io_out s)) outp cnt s = Inr blk" "0 < cnt" "cnt \<le> n"
  shows "\<exists>s'. write_block force n cnt outp s = Inr (s', outp + cnt, False) \<and>
    core s' = core s \<and> pending s' = 0 \<and> emitted blk s s'"
  using assms
proof (induction "length (wscript (out_fd s))" arbitrary: cnt outp s blk rule: less_induct)
  case less
  note ok = less.prems(1) [unfolded ok_out_def]
  have len: "length blk = cnt" using load_length less.prems(2) by blast
  then have ne: "blk \<noteq> []" using less.prems(3) by auto
  obtain k f where w: "written (fst (c_write blk (out_fd s))) = k" "k \<le> length blk"
    "fst (c_write blk (out_fd s)) \<noteq> Wrote 0" "fst (c_write blk (out_fd s)) \<noteq> WroteErr"
    "snd (c_write blk (out_fd s)) = f"
    and f: "content f = write_at (content (out_fd s)) (pos (out_fd s)) (take k blk)"
    "pos f = pos (out_fd s) + k" "set (wscript f) \<subseteq> set (wscript (out_fd s))"
    using c_write_ok [of "out_fd s" blk] ok ne by metis
  obtain s1 d where a: "account n cnt k (s\<lparr>out_fd := f\<rparr>) = Inr (s1, d)" "k = cnt \<longrightarrow> d"
    using account_ok [of "s\<lparr>out_fd := f\<rparr>" n cnt k] ok by auto
  have fl: "flush_pending force outp s = Inr s" using ok by (simp add: flush_pending_def)
  have eq: "write_block force n cnt outp s =
      (if d then Inr (s1, outp + k, False) else write_block force n (cnt - k) (outp + k) s1)"
    using ok less.prems(2,3) w a(1) by (subst write_block.simps) (simp add: fl)
  have c1: "core s1 = core s" "pending s1 = 0"
    using account_core [OF a(1)] account_frame [OF a(1)] ok by auto
  have e1: "emitted (take k blk) s s1"
    using f w(2) account_frame [OF a(1)] account_bytes [OF a(1)] by (auto simp: emitted_def)
  show ?case
  proof (cases "k = cnt")
    case True
    then show ?thesis using eq a(2) c1 e1 len by auto
  next
    case False
    then have "\<not> d" using account_done [of n cnt k] a(1) less.prems(4) w(2) len by (cases d) auto
    have "length (wscript (out_fd s1)) < length (wscript (out_fd s))"
      using write_step_decreases [OF less.prems(2) fl, of n s1] w a(1) \<open>\<not> d\<close> by simp
    moreover have "load (db (io_out s1)) (outp + k) (cnt - k) s1 = Inr (drop k blk)"
      using load_split(2) [OF less.prems(2)] load_core [OF c1(1)] core_frame(2) [OF c1(1)] w(2) len
      by simp
    moreover have "cnt - k \<le> n" using less.prems(4) by simp
    ultimately obtain s' where "write_block force n (cnt - k) (outp + k) s1 = Inr (s', outp + cnt, False)"
      "core s' = core s1" "pending s' = 0" "emitted (drop k blk) s1 s'"
      using less.hyps [of s1 "outp + k" "cnt - k" "drop k blk"] ok_out_step [OF less.prems(1) e1 c1]
        False w(2) len by auto
    then show ?thesis using eq \<open>\<not> d\<close> c1 emitted_append [OF e1] by fastforce
  qed
qed


abbreviation set_cnt :: "nat \<Rightarrow> dd \<Rightarrow> dd" where
  "set_cnt c \<equiv> upd_out (\<lambda>io. io\<lparr>dbcnt := c\<rparr>)"

lemma core_upd_out: "core s' = core s \<Longrightarrow> core (upd_out f s') = core (upd_out f s)"
  by (simp add: core_def in_stats_def upd_out_def)

lemma upd_out_simps [simp]:
  "io_out (upd_out f s) = f (io_out s)" "io_in (upd_out f s) = io_in s" "st (upd_out f s) = st s"
  "out_fd (upd_out f s) = out_fd s" "pending (upd_out f s) = pending s" "ibuf (upd_out f s) = ibuf s"
  "obuf (upd_out f s) = obuf s" "ddflags (upd_out f s) = ddflags s" "mem b (upd_out f s) = mem b s"
  "load b p n (upd_out f s) = load b p n s" "cbsz (upd_out f s) = cbsz s" "ctab (upd_out f s) = ctab s"
  "in_fd (upd_out f s) = in_fd s" "cfunc (upd_out f s) = cfunc s" "intrunc (upd_out f s) = intrunc s"
  "cpy_cnt (upd_out f s) = cpy_cnt s" "files_cnt (upd_out f s) = files_cnt s"
  by (cases b; simp add: upd_out_def load_def)+

lemma emitted_upd_out [simp]:
  "emitted xs (upd_out f s) s' = emitted xs s s'" "emitted xs s (upd_out f s') = emitted xs s s'"
  by (simp_all add: emitted_def)

lemma ok_out_upd: "flags (f (io_out s)) = flags (io_out s) \<Longrightarrow> ok_out (upd_out f s) = ok_out s"
  by (simp add: ok_out_def)

lemma upd_out_upd_out [simp]: "upd_out f (upd_out g s) = upd_out (\<lambda>io. f (g io)) s"
  by (simp add: upd_out_def)

lemma out_loop_writes:
  assumes "ok_out s" "load (db (io_out s)) outp (dbcnt (io_out s)) s = Inr D"
    and "0 < dbsz (io_out s)" "dbsz (io_out s) \<le> dbcnt (io_out s)"
  shows "\<exists>s'. out_loop False (dbsz (io_out s)) outp s = Inr (s', False) \<and>
    core s' = core (set_cnt (dbcnt (io_out s) mod dbsz (io_out s)) s) \<and> pending s' = 0 \<and>
    emitted (take (dbcnt (io_out s) div dbsz (io_out s) * dbsz (io_out s)) D) s s'"
  using assms
proof (induction "dbcnt (io_out s)" arbitrary: s outp D rule: less_induct)
  case less
  let ?n = "dbsz (io_out s)" and ?c = "dbcnt (io_out s)"
  obtain s1 where w: "write_block False ?n ?n outp s = Inr (s1, outp + ?n, False)"
    and c1: "core s1 = core s" "pending s1 = 0" and e1: "emitted (take ?n D) s s1"
    using write_block_writes [OF less.prems(1) load_split(1) [OF less.prems(2,4)] less.prems(3), of ?n]
    by auto
  note io1 = core_frame(2) [OF c1(1)]
  let ?s2 = "set_cnt (?c - ?n) s1"
  have eq: "out_loop False ?n outp s =
      (if ?c - ?n < ?n then Inr (?s2, False) else out_loop False ?n (outp + ?n) ?s2)"
    using less.prems(4) by (subst out_loop.simps) (simp add: w io1)
  have c2: "core ?s2 = core (set_cnt (?c - ?n) s)" by (rule core_upd_out) (rule c1)
  have ok2: "ok_out ?s2" using ok_out_step [OF less.prems(1) e1 c1] by (simp add: ok_out_upd)
  have dm: "?c div ?n = Suc ((?c - ?n) div ?n)" "?c mod ?n = (?c - ?n) mod ?n"
    using less.prems(3,4) by (simp_all add: le_div_geq le_mod_geq)
  have lD: "length D = ?c" using load_length less.prems(2) by blast
  show ?case
  proof (cases "?c - ?n < ?n")
    case True
    then show ?thesis using eq c2 c1 e1 dm by simp
  next
    case False
    have "load (db (io_out ?s2)) (outp + ?n) (dbcnt (io_out ?s2)) ?s2 = Inr (drop ?n D)"
      using load_split(2) [OF less.prems(2,4)] load_core [OF c1(1)] by (simp add: io1)
    then obtain s' where s': "out_loop False ?n (outp + ?n) ?s2 = Inr (s', False)"
      "core s' = core (set_cnt ((?c - ?n) mod ?n) ?s2)" "pending s' = 0"
      "emitted (take ((?c - ?n) div ?n * ?n) (drop ?n D)) ?s2 s'"
      using less.hyps [of ?s2 "outp + ?n" "drop ?n D"] ok2 less.prems(3,4) False by (auto simp: io1)
    have "core s' = core (set_cnt (?c mod ?n) s)"
      using s'(2) core_upd_out [OF c1(1)] by (simp add: dm)
    moreover have "emitted (take (?c div ?n * ?n) D) s s'"
      using emitted_append [OF e1, of _ s'] s'(4) by (simp add: dm take_add)
    ultimately show ?thesis using eq False s'(1,3) by auto
  qed
qed

text \<open>
  A call that is not forced writes the whole output blocks there are and moves the rest, less
  than a block, to the start of the buffer.
\<close>

definition buffered :: "nat \<Rightarrow> bytes \<Rightarrow> dd \<Rightarrow> dd" where
  "buffered c m s = set_mem (db (io_out s)) m (upd_out (\<lambda>io. io\<lparr>dbcnt := c, dbp := c\<rparr>) s)"

lemma set_mem_simps [simp]:
  "io_out (set_mem b m s) = io_out s" "io_in (set_mem b m s) = io_in s" "st (set_mem b m s) = st s"
  "out_fd (set_mem b m s) = out_fd s" "pending (set_mem b m s) = pending s"
  "ddflags (set_mem b m s) = ddflags s" "mem b (set_mem b m s) = m"
  "cbsz (set_mem b m s) = cbsz s" "ctab (set_mem b m s) = ctab s" "in_fd (set_mem b m s) = in_fd s"
  "cfunc (set_mem b m s) = cfunc s" "intrunc (set_mem b m s) = intrunc s"
  "cpy_cnt (set_mem b m s) = cpy_cnt s" "files_cnt (set_mem b m s) = files_cnt s"
  "set_mem b m (set_mem b m' s) = set_mem b m s"
  by (cases b; simp)+

lemma core_set_mem: "core s' = core s \<Longrightarrow> core (set_mem b m s') = core (set_mem b m s)"
  by (cases b) (simp_all add: core_def in_stats_def)

lemma set_mem_same [simp]: "set_mem b (mem b s) s = s"
  by (cases b) simp_all

lemma set_mem_upd_out: "set_mem b m (upd_out f s) = upd_out f (set_mem b m s)"
  by (cases b) (simp_all add: upd_out_def)

lemma store_within:
  "p + length xs \<le> length (mem b s) \<Longrightarrow>
     store b p xs s = Inr (set_mem b (take p (mem b s) @ xs @ drop (p + length xs) (mem b s)) s)"
  by (simp add: store_def poke_def)

lemma load_within: "p + n \<le> length (mem b s) \<Longrightarrow> load b p n s = Inr (take n (drop p (mem b s)))"
  by (simp add: load_def peek_def)

lemma load_Inr: "load b p n s = Inr xs \<longleftrightarrow> p + n \<le> length (mem b s) \<and> xs = take n (drop p (mem b s))"
  by (auto simp: load_def peek_def)


lemma dd_out_blocks:
  assumes "ok_out s" "load (db (io_out s)) 0 (dbcnt (io_out s)) s = Inr D"
    and "0 < dbsz (io_out s)" "dbsz (io_out s) \<le> dbcnt (io_out s)" "dbp (io_out s) = dbcnt (io_out s)"
  shows "\<exists>s' m. dd_out False s = Inr s' \<and>
    core s' = core (buffered (dbcnt (io_out s) mod dbsz (io_out s)) m s) \<and> pending s' = 0 \<and>
    length m = length (mem (db (io_out s)) s) \<and>
    take (dbcnt (io_out s) mod dbsz (io_out s)) m = drop (dbcnt (io_out s) div dbsz (io_out s) * dbsz (io_out s)) D \<and>
    emitted (take (dbcnt (io_out s) div dbsz (io_out s) * dbsz (io_out s)) D) s s'"
proof -
  let ?b = "db (io_out s)" and ?n = "dbsz (io_out s)" and ?c = "dbcnt (io_out s)"
  let ?r = "?c mod ?n" and ?k = "?c div ?n * ?n"
  obtain s1 where l: "out_loop False ?n 0 s = Inr (s1, False)" and c1: "core s1 = core (set_cnt ?r s)"
    and p1: "pending s1 = 0" and e1: "emitted (take ?k D) s s1"
    using out_loop_writes [OF assms(1-4)] by auto
  have io1: "io_out s1 = (io_out s)\<lparr>dbcnt := ?r\<rparr>" using core_frame(2) [OF c1] by simp
  have m1: "mem ?b s1 = mem ?b s" using core_frame(13) [OF c1] by simp
  define M where "M = mem ?b s"
  have D: "D = take ?c M" and len: "?c \<le> length M" using assms(2) by (auto simp: load_Inr M_def)
  have kr: "?k + ?r = ?c" "?r \<le> ?c" "?c - ?r = ?k" by (simp_all add: minus_mod_eq_div_mult [symmetric])
  have tail: "take ?r (drop ?k M) = drop ?k D"
    using kr(1) by (simp add: D drop_take add.commute minus_div_mult_eq_mod)
  have rM: "?r \<le> length M" using kr(2) len by linarith
  define m where "m = (if ?r = 0 then M else drop ?k D @ drop ?r M)"
  have ltail: "length (drop ?k D) = ?r" using len by (simp add: D kr minus_div_mult_eq_mod)
  have mm: "(if ?r = 0 then Inr s1 else bind_r (sub_size (dbp (io_out s1)) ?r) (\<lambda>q. memmove ?b 0 ?b q ?r s1))
      = Inr (set_mem ?b m s1)"
  proof (cases "?r = 0")
    case True
    then show ?thesis using m1 set_mem_same [of ?b s1] by (simp add: m_def M_def)
  next
    case False
    have "load ?b ?k ?r s1 = Inr (drop ?k D)"
      using tail kr len m1 by (simp add: load_within M_def)
    moreover have "store ?b 0 (drop ?k D) s1 = Inr (set_mem ?b m s1)"
      using store_within [of 0 "drop ?k D" ?b s1] ltail m1 False rM by (simp add: m_def M_def)
    ultimately show ?thesis using False kr by (simp add: io1 assms(5) memmove_def)
  qed
  let ?s2 = "upd_out (\<lambda>io. io\<lparr>dbp := ?r\<rparr>) (set_mem ?b m s1)"
  have "dd_out False s = Inr ?s2"
    using mm by (simp add: dd_out_def l Let_def) (simp add: io1 split: if_splits)
  moreover have "core ?s2 = core (buffered ?r m s)"
  proof -
    have "core ?s2 = core (upd_out (\<lambda>io. io\<lparr>dbp := ?r\<rparr>) (set_mem ?b m (set_cnt ?r s)))"
      by (intro core_upd_out core_set_mem c1)
    then show ?thesis by (simp add: buffered_def set_mem_upd_out)
  qed
  moreover have "length m = length M" "take ?r m = drop ?k D"
    using ltail rM by (auto simp: m_def)
  moreover have "emitted (take ?k D) s ?s2" "pending ?s2 = 0" using e1 p1 by (simp_all add: emitted_def)
  ultimately show ?thesis unfolding M_def by blast
qed

lemma dd_out_forced:
  assumes "ok_out s" "load (db (io_out s)) 0 (dbcnt (io_out s)) s = Inr D"
    and "0 < dbsz (io_out s)" "0 < dbcnt (io_out s)"
  shows "\<exists>s'. dd_out True s = Inr s' \<and> core s' = core (upd_out (\<lambda>io. io\<lparr>dbcnt := 0, dbp := 0\<rparr>) s) \<and>
    pending s' = 0 \<and> emitted D s s'"
proof -
  let ?c = "dbcnt (io_out s)"
  obtain s1 where w: "write_block True ?c ?c 0 s = Inr (s1, ?c, False)"
    and c1: "core s1 = core s" "pending s1 = 0" and e1: "emitted D s s1"
    using write_block_writes [OF assms(1,2,4), of ?c True] by auto
  note io1 = core_frame(2) [OF c1(1)]
  have "dd_out True s = Inr (upd_out (\<lambda>io. io\<lparr>dbcnt := 0, dbp := 0\<rparr>) s1)"
    using assms(3) by (simp add: dd_out_def out_loop.simps [of True ?c 0 s] w io1 Let_def)
  then show ?thesis using c1 e1 core_upd_out [OF c1(1)] by simp
qed

end
