(* ===== verification/Dd_Conv.thy ===== *)
theory Dd_Conv
  imports Dd_Out
begin

text \<open>
  The conversion routines of \<^verbatim>\<open>file_cmds-251/dd/conv.c\<close>. Each is called when
  \<open>in.dbrcnt\<close> fresh bytes end at \<open>in.dbp\<close>, and each has a routine that \<open>dd_close\<close>
  calls at the end. The loops over buffer bytes are list functions on the bytes loaded from the
  buffer; loads and stores outside a buffer stop with \<open>Undef\<close>.
\<close>

section \<open>Definitions\<close>

text \<open>Indexing a conversion table by a byte; without a table the byte stays.\<close>

definition xlate :: "bytes option \<Rightarrow> u8 \<Rightarrow> u8" where
  "xlate tab b = (case tab of None \<Rightarrow> b | Some t \<Rightarrow> t ! unat b)"

abbreviation nl :: u8 where "nl \<equiv> 10"
abbreviation sp :: u8 where "sp \<equiv> 32"

definition def :: "dd \<Rightarrow> stop + dd" where
  "def s =
     bind_r (if ctab s = None then Inr s
             else bind_r (sub_size (dbp (io_in s)) (dbrcnt (io_in s))) (\<lambda>inp.
               bind_r (load (db (io_in s)) inp (dbrcnt (io_in s)) s) (\<lambda>xs.
                 store (db (io_in s)) inp (map (xlate (ctab s)) xs) s))) (\<lambda>s1.
       let s2 = upd_out (\<lambda>io. io\<lparr>dbp := dbp (io_in s1), dbcnt := dbcnt (io_in s1)\<rparr>) s1 in
       if dbcnt (io_in s2) \<ge> dbsz (io_out s2)
       then bind_r (dd_out False s2) (\<lambda>s3.
         Inr (upd_in (\<lambda>io. io\<lparr>dbp := dbp (io_out s3), dbcnt := dbcnt (io_out s3)\<rparr>) s3))
       else Inr s2)"

definition def_close :: "dd \<Rightarrow> stop + dd" where
  "def_close s =
     Inr (if dbcnt (io_in s) \<noteq> 0 then upd_out (\<lambda>io. io\<lparr>dbcnt := dbcnt (io_in s)\<rparr>) s else s)"

text \<open>
  The value of the counter after \<open>for (\<dots>; cnt && *inp++ != '\n'; --cnt)\<close> over the bytes
  \<open>xs\<close>: 0, or the number of bytes from the newline on.
\<close>

fun toss :: "bytes \<Rightarrow> nat" where
  "toss [] = 0"
| "toss (x # xs) = (if x = nl then Suc (length xs) else toss xs)"

text \<open>A record of full length: is it a truncation, and the rest of the line is tossed.\<close>

definition toss_rest :: "nat \<Rightarrow> dd \<Rightarrow> stop + (nat \<times> dd)" where
  "toss_rest inp s =
     bind_r (load (db (io_in s)) inp (dbcnt (io_in s)) s) (\<lambda>xs.
       let s1 = (if xs = [] \<or> hd xs \<noteq> nl then upd_st (\<lambda>t. t\<lparr>trunc := Suc (trunc t)\<rparr>) s else s);
           left = toss xs in
       if left = 0
       then Inr (inp + length xs, (upd_in (\<lambda>io. io\<lparr>dbcnt := 0\<rparr>) s1)\<lparr>intrunc := True\<rparr>)
       else Inr (inp + (length xs - left) + 1, upd_in (\<lambda>io. io\<lparr>dbcnt := left - 1\<rparr>) s1))"

text \<open>
  The record loop of \<open>block\<close>. The copying loop reads at most \<open>maxlen\<close> bytes up to a
  newline, so it has seen a newline exactly when it copied fewer.
\<close>

function block_loop :: "nat \<Rightarrow> dd \<Rightarrow> stop + dd" where
  "block_loop inp s =
     (if dbcnt (io_in s) = 0 then Inr s
      else let maxlen = min (cbsz s) (dbcnt (io_in s)) in
        bind_r (load (db (io_in s)) inp maxlen s) (\<lambda>xs.
          let r = takeWhile (\<lambda>c. c \<noteq> nl) xs; cnt = length r; eol = (cnt < maxlen);
              inp1 = inp + cnt + (if eol then 1 else 0) in
          bind_r (store (db (io_out s)) (dbp (io_out s)) (map (xlate (ctab s)) r) s) (\<lambda>s1.
            if \<not> eol \<and> dbcnt (io_in s) < cbsz s then
              bind_r (sub_size (dbp (io_in s1)) (dbcnt (io_in s1))) (\<lambda>q.
                memmove (db (io_in s1)) 0 (db (io_in s1)) q (dbcnt (io_in s1)) s1)
            else
              let s2 = upd_in (\<lambda>io. io\<lparr>dbcnt := dbcnt io - cnt - (if eol then 1 else 0)\<rparr>) s1 in
              bind_r (if cnt < cbsz s2
                      then bind_r (store (db (io_out s2)) (dbp (io_out s2) + cnt)
                                     (replicate (cbsz s2 - cnt) (xlate (ctab s2) sp)) s2)
                                  (\<lambda>s3. Inr (inp1, s3))
                      else toss_rest inp1 s2) (\<lambda>(inp2, s3).
                let s4 = upd_out (\<lambda>io. io\<lparr>dbp := dbp io + cbsz s3, dbcnt := dbcnt io + cbsz s3\<rparr>) s3 in
                bind_r (if dbcnt (io_out s4) \<ge> dbsz (io_out s4) then dd_out False s4 else Inr s4)
                  (block_loop inp2)))))"
  by pat_completeness auto

lemma toss_le: "toss xs \<le> length xs"
  by (induction xs) auto

lemma store_frame: "store b p xs s = Inr s' \<Longrightarrow> \<exists>m. s' = set_mem b m s"
  by (auto simp: store_def bind_r_Inr)

lemma toss_rest_cnt:
  "toss_rest inp s = Inr (i, s') \<Longrightarrow> dbcnt (io_in s') \<le> dbcnt (io_in s) - 1"
proof -
  assume eq: "toss_rest inp s = Inr (i, s')"
  then obtain xs where xs: "load (db (io_in s)) inp (dbcnt (io_in s)) s = Inr xs"
    by (auto simp only: toss_rest_def bind_r_Inr)
  have s': "dbcnt (io_in s') = toss xs - 1"
    using eq unfolding toss_rest_def xs Let_def bind_r_simps
    by (simp add: upd_in_def split: if_splits) (erule conjE, drule sym, simp)+
  show ?thesis using toss_le [of xs] load_length [OF xs] s' by simp
qed

lemma out_loop_frame:
  "out_loop force n p s = Inr (s', r) \<Longrightarrow> \<exists>c. core s' = core (set_cnt c s)"
proof (induction force n p s rule: out_loop.induct)
  case (1 force n outp s)
  from "1.prems" obtain s1 p q where w: "write_block force n n outp s = Inr (s1, p, q)"
    and k: "(if q then Inr (s1, True)
       else bind_r (sub_size (dbcnt (io_out s1)) n) (\<lambda>c.
         let s2 = upd_out (\<lambda>io. io\<lparr>dbcnt := c\<rparr>) s1 in
         if c < dbsz (io_out s2) then Inr (s2, False)
         else out_loop force (dbsz (io_out s2)) p s2)) = Inr (s', r)"
    by (subst (asm) out_loop.simps) (auto simp only: bind_r_Inr split_paired_Ex prod.case)
  note c1 = write_block_core [OF w]
  show ?case
  proof (cases q)
    case True
    have "core s = core (set_cnt (dbcnt (io_out s)) s)" by (simp add: core_def in_stats_def upd_out_def)
    with True k c1 show ?thesis by auto
  next
    case False
    with k obtain c where c: "sub_size (dbcnt (io_out s1)) n = Inr c"
      and k2: "(if c < dbsz (io_out s1) then Inr (set_cnt c s1, False)
         else out_loop force (dbsz (io_out s1)) p (set_cnt c s1)) = Inr (s', r)"
      by (auto simp: bind_r_Inr Let_def cong: if_cong)
    show ?thesis
    proof (cases "c < dbsz (io_out s1)")
      case True
      then show ?thesis using k2 core_upd_out [OF c1] by auto
    next
      case F: False
      with "1.IH" [OF w refl refl False c refl] k2
      obtain c' where "core s' = core (set_cnt c' (set_cnt c s1))" by auto
      then show ?thesis using core_upd_out [OF c1] by auto
    qed
  qed
qed

lemma dd_out_frame:
  assumes "dd_out force s = Inr s'"
  obtains c p m where "core s' = core (set_mem (db (io_out s)) m (upd_out (\<lambda>io. io\<lparr>dbcnt := c, dbp := p\<rparr>) s))"
proof -
  from assms obtain s1 r where l: "out_loop force (if force then dbcnt (io_out s) else dbsz (io_out s)) 0 s = Inr (s1, r)"
    and k: "(if r then Inr s1
       else bind_r (if dbcnt (io_out s1) = 0 then Inr s1
                 else bind_r (sub_size (dbp (io_out s1)) (dbcnt (io_out s1))) (\<lambda>q.
                   memmove (db (io_out s1)) 0 (db (io_out s1)) q (dbcnt (io_out s1)) s1)) (\<lambda>s2.
           Inr (upd_out (\<lambda>io. io\<lparr>dbp := dbcnt (io_out s1)\<rparr>) s2))) = Inr s'"
    unfolding dd_out_def by (auto simp only: bind_r_Inr split_paired_Ex prod.case Let_def)
  obtain c where c1: "core s1 = core (set_cnt c s)" using out_loop_frame [OF l] by blast
  have dbo: "db (io_out s1) = db (io_out s)" using core_frame(2) [OF c1] by simp
  show thesis
  proof (cases r)
    case True
    have "core (set_cnt c s) = core (set_mem (db (io_out s)) (mem (db (io_out s)) s)
        (upd_out (\<lambda>io. io\<lparr>dbcnt := c, dbp := dbp (io_out s)\<rparr>) s))"
      by (cases "db (io_out s)") (simp_all add: core_def in_stats_def upd_out_def)
    with True k c1 that show thesis by auto
  next
    case False
    with k obtain s2 where
      mv: "(if dbcnt (io_out s1) = 0 then Inr s1
                 else bind_r (sub_size (dbp (io_out s1)) (dbcnt (io_out s1))) (\<lambda>q.
                   memmove (db (io_out s1)) 0 (db (io_out s1)) q (dbcnt (io_out s1)) s1)) = Inr s2"
      and s': "s' = upd_out (\<lambda>io. io\<lparr>dbp := dbcnt (io_out s1)\<rparr>) s2"
      by (auto simp only: bind_r_Inr if_False)
    from mv have "\<exists>m. s2 = set_mem (db (io_out s1)) m s1"
      by (cases "dbcnt (io_out s1) = 0")
        (auto simp: bind_r_Inr memmove_def simp del: set_mem_same dest!: store_frame
           intro: exI [of _ "mem (db (io_out s1)) s1"] set_mem_same [symmetric])
    then obtain m where s2: "s2 = set_mem (db (io_out s1)) m s1" ..
    show thesis
      using that core_upd_out [OF core_set_mem [OF c1]]
      by (fastforce simp: s' s2 dbo set_mem_upd_out)
  qed
qed

lemma dd_out_io_in: "dd_out force s = Inr s' \<Longrightarrow> io_in s' = io_in s"
  by (erule dd_out_frame) (auto dest: core_frame(1))


lemma upd_in_simps [simp]:
  "io_in (upd_in f s) = f (io_in s)" "io_out (upd_in f s) = io_out s" "st (upd_in f s) = st s"
  "out_fd (upd_in f s) = out_fd s" "pending (upd_in f s) = pending s" "ibuf (upd_in f s) = ibuf s"
  "obuf (upd_in f s) = obuf s" "ddflags (upd_in f s) = ddflags s" "mem b (upd_in f s) = mem b s"
  "load b p n (upd_in f s) = load b p n s" "cbsz (upd_in f s) = cbsz s" "ctab (upd_in f s) = ctab s"
  "in_fd (upd_in f s) = in_fd s" "cfunc (upd_in f s) = cfunc s" "intrunc (upd_in f s) = intrunc s"
  "cpy_cnt (upd_in f s) = cpy_cnt s" "files_cnt (upd_in f s) = files_cnt s"
  by (cases b; simp add: upd_in_def load_def)+

text \<open>One round of the record loop shortens the input.\<close>

lemma block_round_decreases:
  assumes "load b inp (min (cbsz s) (dbcnt (io_in s))) s = Inr xs" "dbcnt (io_in s) \<noteq> 0"
    and "r = takeWhile (\<lambda>c. c \<noteq> nl) xs"
      "eol = (length r < min (cbsz s) (dbcnt (io_in s)))"
    and "store ob q ys s = Inr s1"
    and "s2 = upd_in (\<lambda>io. io\<lparr>dbcnt := dbcnt io - length r - (if eol then 1 else 0)\<rparr>) s1"
    and "(if length r < cbsz s2 then bind_r (store ob2 q2 zs s2) (\<lambda>s3. Inr (inp1, s3))
          else toss_rest inp1 s2) = Inr (inp2, s3)"
    and "(if c then dd_out False (upd_out f s3) else Inr (upd_out f s3)) = Inr s5"
  shows "dbcnt (io_in s5) < dbcnt (io_in s)"
proof -
  have s1: "io_in s1 = io_in s" "cbsz s1 = cbsz s" using store_frame [OF assms(5)] by auto
  have len: "length r \<le> dbcnt (io_in s)"
    using load_length [OF assms(1)] length_takeWhile_le [of "\<lambda>c. c \<noteq> nl" xs] by (simp add: assms(3))
  have s5: "io_in s5 = io_in s3" using assms(8) dd_out_io_in by (auto split: if_splits)
  show ?thesis
  proof (cases "length r < cbsz s")
    case True
    then have "io_in s3 = io_in s2"
      using assms(7) s1 store_frame [of ob2 q2 zs s2] by (auto simp: assms(6) bind_r_Inr)
    moreover have "eol \<or> length r = dbcnt (io_in s)" using True len assms(4) by auto
    ultimately show ?thesis using assms(2) len s1 s5 by (auto simp: assms(6))
  next
    case False
    then have "toss_rest inp1 s2 = Inr (inp2, s3)" using assms(7) s1 by (simp add: assms(6))
    then have "dbcnt (io_in s3) \<le> dbcnt (io_in s2) - 1" by (rule toss_rest_cnt)
    then show ?thesis using assms(2) s1 s5 by (auto simp: assms(6))
  qed
qed

termination block_loop
proof (relation "measure (\<lambda>(inp, s). dbcnt (io_in s))", goal_cases)
  case (2 inp s maxlen xs r cnt eol inp1 s1 s2 p inp2 s3 s4 s5)
  show ?case
    using block_round_decreases [OF 2(3) [unfolded 2(2)] 2(1) 2(4) 2(6) [unfolded 2(5) 2(2)] 2(8)
        2(10) [unfolded 2(5)] 2(11) [folded 2(12), unfolded 2(5)] 2(14) [unfolded 2(13)]] by simp
qed simp

declare block_loop.simps [simp del]

definition block_main :: "dd \<Rightarrow> stop + dd" where
  "block_main s =
     bind_r (sub_size (dbp (io_in s)) (dbcnt (io_in s))) (\<lambda>inp.
       bind_r (block_loop inp s) (\<lambda>s1. Inr (upd_in (\<lambda>io. io\<lparr>dbp := dbcnt io\<rparr>) s1)))"

definition block :: "dd \<Rightarrow> stop + dd" where
  "block s =
     (if intrunc s then
        bind_r (load (db (io_in s)) 0 (dbrcnt (io_in s)) s) (\<lambda>xs.
          let cnt = toss xs; inp = dbrcnt (io_in s) - cnt + 1 in
          if cnt = 0 then Inr (upd_in (\<lambda>io. io\<lparr>dbcnt := 0, dbp := 0\<rparr>) s)
          else block_main (upd_in (\<lambda>io. io\<lparr>dbcnt := cnt - 1, dbp := inp + cnt - 1\<rparr>)
                             (s\<lparr>intrunc := False\<rparr>)))
      else block_main s)"

definition block_close :: "dd \<Rightarrow> stop + dd" where
  "block_close s =
     (if dbcnt (io_in s) \<noteq> 0 then
        let s1 = upd_st (\<lambda>t. t\<lparr>trunc := Suc (trunc t)\<rparr>) s; n = dbcnt (io_in s) in
        bind_r (sub_size (dbp (io_in s1)) n) (\<lambda>q.
        bind_r (memmove (db (io_out s1)) (dbp (io_out s1)) (db (io_in s1)) q n s1) (\<lambda>s2.
        bind_r (sub_size (cbsz s2) n) (\<lambda>k.
        bind_r (store (db (io_out s2)) (dbp (io_out s2) + n) (replicate k (xlate (ctab s2) sp)) s2) (\<lambda>s3.
          Inr (upd_out (\<lambda>io. io\<lparr>dbcnt := dbcnt io + cbsz s3\<rparr>) s3)))))
      else Inr s)"

text \<open>
  The translation loop of \<open>unblock\<close> starts at the byte \<open>in.dbp\<close> points to and goes
  down for \<open>in.dbrcnt\<close> bytes.
\<close>

definition xlate_back :: "dd \<Rightarrow> stop + dd" where
  "xlate_back s =
     (if ctab s = None \<or> dbrcnt (io_in s) = 0 then Inr s
      else bind_r (sub_size (dbp (io_in s) + 1) (dbrcnt (io_in s))) (\<lambda>q.
        bind_r (load (db (io_in s)) q (dbrcnt (io_in s)) s) (\<lambda>xs.
          store (db (io_in s)) q (map (xlate (ctab s)) xs) s)))"

text \<open>The loops \<open>for (t = \<dots>; t >= inp && *t == ' '; --t)\<close> drop the trailing blanks.\<close>

definition strip :: "bytes \<Rightarrow> bytes" where
  "strip xs = rev (dropWhile (\<lambda>c. c = sp) (rev xs))"

text \<open>Copying a stripped record and its newline to the output buffer.\<close>

definition put_line :: "bytes \<Rightarrow> dd \<Rightarrow> stop + dd" where
  "put_line xs s =
     bind_r (if xs = [] then Inr s
             else bind_r (store (db (io_out s)) (dbp (io_out s)) xs s) (\<lambda>s1.
               Inr (upd_out (\<lambda>io. io\<lparr>dbp := dbp io + length xs, dbcnt := dbcnt io + length xs\<rparr>) s1)))
       (\<lambda>s1. bind_r (store (db (io_out s1)) (dbp (io_out s1)) [nl] s1) (\<lambda>s2.
          Inr (upd_out (\<lambda>io. io\<lparr>dbp := dbp io + 1, dbcnt := dbcnt io + 1\<rparr>) s2)))"

text \<open>The record loop; with \<open>cbsz\<close> 0, which \<open>jcl\<close> refuses, it would not end.\<close>

function unblock_loop :: "nat \<Rightarrow> dd \<Rightarrow> stop + dd" where
  "unblock_loop inp s =
     (if cbsz s = 0 then Inl Undef
      else if dbcnt (io_in s) < cbsz s then Inr s
      else bind_r (load (db (io_in s)) inp (cbsz s) s) (\<lambda>xs.
        bind_r (put_line (strip xs) s) (\<lambda>s1.
        bind_r (if dbcnt (io_out s1) \<ge> dbsz (io_out s1) then dd_out False s1 else Inr s1) (\<lambda>s2.
          unblock_loop (inp + cbsz s) (upd_in (\<lambda>io. io\<lparr>dbcnt := dbcnt io - cbsz s\<rparr>) s2)))))"
  by pat_completeness auto

lemma put_line_io_in: "put_line xs s = Inr s' \<Longrightarrow> io_in s' = io_in s"
  by (auto simp: put_line_def bind_r_Inr dest!: store_frame split: if_splits)

termination unblock_loop
proof (relation "measure (\<lambda>(inp, s). dbcnt (io_in s))", goal_cases)
  case (2 inp s xs s1 s2)
  then have "io_in s2 = io_in s"
    using put_line_io_in dd_out_io_in by (fastforce split: if_splits)
  with 2 show ?case by simp
qed simp

declare unblock_loop.simps [simp del]

definition unblock :: "dd \<Rightarrow> stop + dd" where
  "unblock s =
     bind_r (xlate_back s) (\<lambda>s0.
     bind_r (unblock_loop 0 s0) (\<lambda>s1.
     bind_r (if dbcnt (io_in s1) = 0 then Inr s1
             else bind_r (sub_size (dbp (io_in s1)) (dbcnt (io_in s1))) (\<lambda>q.
               memmove (db (io_in s1)) 0 (db (io_in s1)) q (dbcnt (io_in s1)) s1)) (\<lambda>s2.
       Inr (upd_in (\<lambda>io. io\<lparr>dbp := dbcnt io\<rparr>) s2))))"

definition unblock_close :: "dd \<Rightarrow> stop + dd" where
  "unblock_close s =
     (if dbcnt (io_in s) \<noteq> 0 then
        let s1 = diag (Warnx (io_name (io_in s) @ '': short input record'')) s in
        bind_r (load (db (io_in s1)) 0 (dbcnt (io_in s1)) s1) (\<lambda>xs. put_line (strip xs) s1)
      else Inr s)"

end
