(* ===== verification/Dd_Spec.thy ===== *)
theory Dd_Spec
  imports Dd_Conv
begin

text \<open>
  What the conversions of \<open>dd\<close> compute, as an interface: a conversion is a machine that
  turns every chunk of input into output bytes, whatever the chunks are and whatever the output
  block size is. The three conversions of \<open>conv.c\<close> are shown to implement their machines.
\<close>

section \<open>Delivering output\<close>

text \<open>
  Of the bytes \<open>h\<close> held before and \<open>xs\<close> produced since, a prefix has been written and
  \<open>h'\<close> is held now.
\<close>

definition delivered :: "bytes \<Rightarrow> bytes \<Rightarrow> bytes \<Rightarrow> dd \<Rightarrow> dd \<Rightarrow> bool" where
  "delivered h xs h' s s' \<longleftrightarrow> (\<exists>W. emitted W s s' \<and> h @ xs = W @ h')"

lemma delivered_trans:
  assumes "delivered h xs h' s s'" "delivered h' ys h'' s' s''"
  shows "delivered h (xs @ ys) h'' s s''"
proof -
  from assms obtain V W where "emitted V s s'" "h @ xs = V @ h'" "emitted W s' s''" "h' @ ys = W @ h''"
    by (auto simp: delivered_def)
  then have "emitted (V @ W) s s''" "h @ xs @ ys = (V @ W) @ h''"
    using emitted_append by (blast, metis append_assoc)
  then show ?thesis unfolding delivered_def by blast
qed

lemma emitted_cong:
  "out_fd s = out_fd t \<Longrightarrow> bytes_out (st s) = bytes_out (st t) \<Longrightarrow> emitted xs s s' = emitted xs t s'"
  "out_fd s' = out_fd t' \<Longrightarrow> bytes_out (st s') = bytes_out (st t') \<Longrightarrow> emitted xs s s' = emitted xs s t'"
  by (simp_all add: emitted_def)

lemma delivered_cong:
  "out_fd s = out_fd t \<Longrightarrow> bytes_out (st s) = bytes_out (st t) \<Longrightarrow> delivered h xs h' s s' = delivered h xs h' t s'"
  "out_fd s' = out_fd t' \<Longrightarrow> bytes_out (st s') = bytes_out (st t') \<Longrightarrow> delivered h xs h' s s' = delivered h xs h' s t'"
  unfolding delivered_def using emitted_cong by metis+

text \<open>The common end of the conversions: flush when at least one block is full.\<close>

definition flush :: "dd \<Rightarrow> stop + dd" where
  "flush s = (if dbcnt (io_out s) \<ge> dbsz (io_out s) then dd_out False s else Inr s)"

lemma flush_delivers:
  assumes "ok_out s" "load (db (io_out s)) 0 (dbcnt (io_out s)) s = Inr D"
    and "0 < dbsz (io_out s)" "dbp (io_out s) = dbcnt (io_out s)"
  obtains s' h m where "flush s = Inr s'" "core s' = core (buffered (length h) m s)"
    "length m = length (mem (db (io_out s)) s)" "take (length h) m = h" "length h < dbsz (io_out s)"
    "delivered D [] h s s'" "ok_out s'"
proof (cases "dbcnt (io_out s) \<ge> dbsz (io_out s)")
  case True
  let ?n = "dbsz (io_out s)" and ?c = "dbcnt (io_out s)"
  let ?h = "drop (?c div ?n * ?n) D"
  have D: "length D = ?c" using load_length [OF assms(2)] .
  have lh: "length ?h = ?c mod ?n" by (simp add: D minus_div_mult_eq_mod)
  obtain s' m where s': "dd_out False s = Inr s'" "core s' = core (buffered (?c mod ?n) m s)" "pending s' = 0"
    and m: "length m = length (mem (db (io_out s)) s)" "take (?c mod ?n) m = ?h"
    and e: "emitted (take (?c div ?n * ?n) D) s s'"
    using dd_out_blocks [OF assms(1,2,3) True assms(4)] by blast
  have "ok_out s'"
    using assms(1) e s'(3) core_frame(2,5) [OF s'(2)] by (auto simp: ok_out_def emitted_def buffered_def)
  moreover have "delivered D [] ?h s s'"
    using e by (auto simp: delivered_def intro!: exI [of _ "take (?c div ?n * ?n) D"])
  ultimately show thesis
    using that [of s' ?h m] s' m lh True assms(3) by (simp add: flush_def)
next
  case False
  have D: "length D = dbcnt (io_out s)" using load_length [OF assms(2)] .
  have "core s = core (buffered (length D) (mem (db (io_out s)) s) s)"
    using assms(4) by (cases "db (io_out s)") (simp_all add: buffered_def D core_def in_stats_def upd_out_def)
  then show thesis
    using that [of s D "mem (db (io_out s)) s"] False assms(1,2) D
    by (auto simp: flush_def load_Inr delivered_def)
qed

section \<open>The interface\<close>

text \<open>What the conversions depend on, and what they leave alone.\<close>

definition view :: "dd \<Rightarrow> _" where
  "view s = (db (io_in s), dbp (io_in s), dbcnt (io_in s), dbsz (io_in s), io_out s, cbsz s, ctab s, ibuf s, obuf s, intrunc s)"

definition kept :: "dd \<Rightarrow> _" where
  "kept s = (dbsz (io_in s), flags (io_in s), name (io_in s), dbsz (io_out s), flags (io_out s),
     name (io_out s), in_full (st s), in_part (st s), swab (st s), cfunc s, cpy_cnt s, ddflags s,
     files_cnt s, in_fd s)"

text \<open>\<open>n\<close> bytes have been read to where \<open>in.dbp\<close> points.\<close>

definition arrived :: "nat \<Rightarrow> dd \<Rightarrow> dd" where
  "arrived n s = upd_in (\<lambda>io. io\<lparr>dbrcnt := n, dbcnt := dbcnt io + n, dbp := dbp io + n\<rparr>) s"

text \<open>
  \<open>ready s m h\<close>: between two reads, the machine is in state \<open>m\<close> and the output bytes
  \<open>h\<close> are waiting to be written.
\<close>

locale conversion =
  fixes conv :: "dd \<Rightarrow> stop + dd"
    and close :: "dd \<Rightarrow> stop + dd"
    and ready :: "dd \<Rightarrow> 'm \<Rightarrow> bytes \<Rightarrow> bool"
    and run :: "'m \<Rightarrow> bytes \<Rightarrow> bytes \<times> 'm"
    and final :: "'m \<Rightarrow> bytes"
  assumes room: "ready s m h \<Longrightarrow> dbp (io_in s) + dbsz (io_in s) \<le> length (mem (db (io_in s)) s)"
    and positive: "ready s m h \<Longrightarrow> 0 < dbsz (io_in s) \<and> 0 < dbsz (io_out s)"
    and view_only: "ready s m h \<Longrightarrow> view s' = view s \<Longrightarrow> ready s' m h"
    and free: "ready s m h \<Longrightarrow> store (db (io_in s)) (dbp (io_in s)) xs s = Inr s' \<Longrightarrow> ready s' m h"
    and step: "ready s m h \<Longrightarrow> ok_out s \<Longrightarrow> load (db (io_in s)) (dbp (io_in s)) n s = Inr xs \<Longrightarrow>
      0 < n \<Longrightarrow> n \<le> dbsz (io_in s) \<Longrightarrow>
      \<exists>s' h'. conv (arrived n s) = Inr s' \<and> ready s' (snd (run m xs)) h' \<and> ok_out s' \<and>
        delivered h (fst (run m xs)) h' s s' \<and> kept s' = kept s"
    and finish: "ready s m h \<Longrightarrow> ok_out s \<Longrightarrow>
      \<exists>s'. close s = Inr s' \<and> ok_out s' \<and> dbcnt (io_out s') = length (h @ final m) \<and>
        load (db (io_out s')) 0 (dbcnt (io_out s')) s' = Inr (h @ final m) \<and>
        delivered [] [] [] s s' \<and> kept s' = kept s"

text \<open>
  With \<open>conv=osync\<close> the last block is padded at \<open>out.dbp\<close>, so that must be the end of
  the output and the buffer must have room for a block.
\<close>

locale osync_conversion = conversion +
  assumes at_end: "ready s m h \<Longrightarrow> close s = Inr s' \<Longrightarrow>
    dbp (io_out s') = dbcnt (io_out s') \<and> dbsz (io_out s') \<le> length (mem (db (io_out s')) s')"

section \<open>Plain copies\<close>

text \<open>The machine of \<open>def\<close> has no state: it translates byte by byte.\<close>

definition ready_def :: "bytes option \<Rightarrow> dd \<Rightarrow> unit \<Rightarrow> bytes \<Rightarrow> bool" where
  "ready_def t s m h \<longleftrightarrow>
     db (io_in s) = InBuf \<and> db (io_out s) = InBuf \<and> 0 < dbsz (io_in s) \<and> 0 < dbsz (io_out s) \<and>
     length (ibuf s) = dbsz (io_out s) + dbsz (io_in s) - 1 \<and>
     dbp (io_in s) = length h \<and> dbcnt (io_in s) = length h \<and> length h < dbsz (io_out s) \<and>
     dbp (io_out s) = length h \<and> dbcnt (io_out s) = length h \<and>
     take (length h) (ibuf s) = h \<and> ctab s = t"

definition run_def :: "bytes option \<Rightarrow> unit \<Rightarrow> bytes \<Rightarrow> bytes \<times> unit" where
  "run_def t m xs = (map (xlate t) xs, ())"

lemma xlate_None [simp]: "xlate None = id"
  by (simp add: fun_eq_iff xlate_def)

lemma kept_core:
  assumes "core s' = core (buffered c m s)"
  shows "kept s' = kept s"
  using assms core_frame [OF assms]
  by (auto simp: kept_def buffered_def core_def in_stats_def)

lemma def_step:
  assumes r: "ready_def t s m h" and ok: "ok_out s"
    and xs: "load (db (io_in s)) (dbp (io_in s)) n s = Inr xs" and n: "0 < n" "n \<le> dbsz (io_in s)"
  shows "\<exists>s' h'. def (arrived n s) = Inr s' \<and> ready_def t s' (snd (run_def t m xs)) h' \<and> ok_out s' \<and>
    delivered h (fst (run_def t m xs)) h' s s' \<and> kept s' = kept s"
proof -
  define D where "D = h @ map (xlate t) xs"
  define M where "M = D @ drop (length h + n) (ibuf s)"
  have xsd: "xs = take n (drop (length h) (ibuf s))" and fit: "length h + n \<le> length (ibuf s)"
    using xs r by (auto simp: load_Inr ready_def_def)
  have lxs: "length xs = n" using load_length [OF xs] .
  have lM: "length M = length (ibuf s)" using fit lxs by (simp add: M_def D_def)
  have tk: "take (length h) (ibuf s) = h" using r by (simp add: ready_def_def)
  let ?s0 = "arrived n s"
  let ?s1 = "set_mem InBuf M ?s0"
  have tr: "(if ctab ?s0 = None then Inr ?s0
      else bind_r (sub_size (dbp (io_in ?s0)) (dbrcnt (io_in ?s0))) (\<lambda>inp.
        bind_r (load (db (io_in ?s0)) inp (dbrcnt (io_in ?s0)) ?s0) (\<lambda>xs.
          store (db (io_in ?s0)) inp (map (xlate (ctab ?s0)) xs) ?s0))) = Inr ?s1"
  proof (cases t)
    case None
    have "ibuf s = take (length h) (ibuf s) @ take n (drop (length h) (ibuf s)) @ drop (length h + n) (ibuf s)"
      by (metis append_take_drop_id drop_drop add.commute)
    then have "M = ibuf s" using tk None by (simp add: M_def D_def flip: xsd)
    then show ?thesis using r None by (simp add: arrived_def ready_def_def upd_in_def)
  next
    case (Some tb)
    have l0: "load InBuf (length h) n ?s0 = Inr xs" using fit by (simp add: load_Inr arrived_def xsd)
    have "store InBuf (length h) (map (xlate t) xs) ?s0 = Inr ?s1"
      using fit lxs tk by (subst store_within) (simp_all add: arrived_def M_def D_def)
    with l0 show ?thesis using r Some by (simp add: ready_def_def arrived_def)
  qed
  let ?s2 = "upd_out (\<lambda>io. io\<lparr>dbp := length h + n, dbcnt := length h + n\<rparr>) ?s1"
  have eq: "def ?s0 = (if length h + n \<ge> dbsz (io_out s)
      then bind_r (dd_out False ?s2) (\<lambda>s3.
         Inr (upd_in (\<lambda>io. io\<lparr>dbp := dbp (io_out s3), dbcnt := dbcnt (io_out s3)\<rparr>) s3))
      else Inr ?s2)"
    unfolding def_def tr using r by (simp add: arrived_def ready_def_def Let_def)
  obtain s3 h' M' where f: "flush ?s2 = Inr s3" and c3: "core s3 = core (buffered (length h') M' ?s2)"
    and h': "length M' = length M" "take (length h') M' = h'" "length h' < dbsz (io_out s)"
    and d3: "delivered D [] h' ?s2 s3" and ok3: "ok_out s3"
  proof (rule flush_delivers [of ?s2 D])
    show "ok_out ?s2" using ok by (simp add: ok_out_def arrived_def)
    show "load (db (io_out ?s2)) 0 (dbcnt (io_out ?s2)) ?s2 = Inr D"
      using r lM fit lxs by (simp add: load_Inr arrived_def ready_def_def M_def D_def)
  qed (use r in \<open>simp_all add: arrived_def ready_def_def\<close>)
  have io3: "io_out s3 = (io_out s)\<lparr>dbcnt := length h', dbp := length h'\<rparr>"
    "io_in s3 = io_in ?s0" "ibuf s3 = M'" "ctab s3 = t"
    using core_frame(1,2,8,9) [OF c3] r by (simp_all add: buffered_def arrived_def ready_def_def)
  let ?s' = "upd_in (\<lambda>io. io\<lparr>dbp := length h', dbcnt := length h'\<rparr>) s3"
  have "def ?s0 = Inr ?s'"
  proof (cases "length h + n \<ge> dbsz (io_out s)")
    case True
    then have "dd_out False ?s2 = Inr s3" using f by (simp add: flush_def arrived_def)
    then show ?thesis using eq True io3 by simp
  next
    case False
    then have "s3 = ?s2" using f by (simp add: flush_def arrived_def)
    moreover from this have "length h' = length h + n" using io3(1) by (auto dest: arg_cong [of _ _ dbcnt])
    ultimately show ?thesis using eq False r by (simp add: arrived_def ready_def_def upd_in_def upd_out_def)
  qed
  moreover have "ready_def t ?s' (snd (run_def t m xs)) h'"
    using r io3 h' lM by (simp add: ready_def_def arrived_def)
  moreover have "delivered h (fst (run_def t m xs)) h' s ?s'"
    using d3 by (simp add: run_def_def delivered_def emitted_def D_def arrived_def)
  moreover have "ok_out ?s'" using ok3 by (simp add: ok_out_def)
  moreover have "kept ?s' = kept s" using kept_core [OF c3] by (simp add: kept_def arrived_def)
  ultimately show ?thesis by blast
qed

lemma ready_def_free:
  "ready_def t s m h \<Longrightarrow> store (db (io_in s)) (dbp (io_in s)) xs s = Inr s' \<Longrightarrow> ready_def t s' m h"
  by (auto simp: ready_def_def store_def bind_r_Inr poke_def of_opt_def split: if_splits option.splits)

interpretation plain: osync_conversion def def_close "ready_def t" "run_def t" "\<lambda>_. []" for t
proof unfold_locales
  fix s :: dd and m h xs s' n
  show "ready_def t s m h \<Longrightarrow> dbp (io_in s) + dbsz (io_in s) \<le> length (mem (db (io_in s)) s)"
    by (auto simp: ready_def_def)
  show "ready_def t s m h \<Longrightarrow> 0 < dbsz (io_in s) \<and> 0 < dbsz (io_out s)"
    by (simp add: ready_def_def)
  show "ready_def t s m h \<Longrightarrow> view s' = view s \<Longrightarrow> ready_def t s' m h"
    by (simp add: ready_def_def view_def)
  show "ready_def t s m h \<Longrightarrow> ok_out s \<Longrightarrow>
      \<exists>s'. def_close s = Inr s' \<and> ok_out s' \<and> dbcnt (io_out s') = length (h @ []) \<and>
        load (db (io_out s')) 0 (dbcnt (io_out s')) s' = Inr (h @ []) \<and>
        delivered [] [] [] s s' \<and> kept s' = kept s"
    by (auto simp: def_close_def ready_def_def load_Inr ok_out_def delivered_def kept_def intro!: exI [of _ "[]"])
  show "ready_def t s m h \<Longrightarrow> def_close s = Inr s' \<Longrightarrow>
    dbp (io_out s') = dbcnt (io_out s') \<and> dbsz (io_out s') \<le> length (mem (db (io_out s')) s')"
    by (auto simp: ready_def_def def_close_def)
qed (fact ready_def_free def_step)+


section \<open>Records of fixed length\<close>

text \<open>What \<open>block\<close> and \<open>unblock\<close> share: the two buffers, the record size and the
  output held in the output buffer.\<close>

definition rec_inv :: "nat \<Rightarrow> bytes option \<Rightarrow> dd \<Rightarrow> bytes \<Rightarrow> bool" where
  "rec_inv n t s h \<longleftrightarrow>
     db (io_in s) = InBuf \<and> db (io_out s) = OutBuf \<and> 0 < dbsz (io_in s) \<and> 0 < dbsz (io_out s) \<and>
     0 < n \<and> cbsz s = n \<and> ctab s = t \<and> length (ibuf s) = max (dbsz (io_in s)) n + n \<and>
     length (obuf s) = dbsz (io_out s) + n \<and>
     dbp (io_out s) = length h \<and> dbcnt (io_out s) = length h \<and> length h < dbsz (io_out s) \<and>
     take (length h) (obuf s) = h"

definition put_out :: "nat \<Rightarrow> bytes \<Rightarrow> dd \<Rightarrow> dd" where
  "put_out p xs s = s\<lparr>obuf := take p (obuf s) @ xs @ drop (p + length xs) (obuf s)\<rparr>"

lemma put_out_simps [simp]:
  "io_in (put_out p xs s) = io_in s" "io_out (put_out p xs s) = io_out s" "st (put_out p xs s) = st s"
  "out_fd (put_out p xs s) = out_fd s" "pending (put_out p xs s) = pending s"
  "ibuf (put_out p xs s) = ibuf s" "ddflags (put_out p xs s) = ddflags s"
  "cbsz (put_out p xs s) = cbsz s" "ctab (put_out p xs s) = ctab s"
  "intrunc (put_out p xs s) = intrunc s" "in_fd (put_out p xs s) = in_fd s"
  "cfunc (put_out p xs s) = cfunc s" "cpy_cnt (put_out p xs s) = cpy_cnt s"
  "files_cnt (put_out p xs s) = files_cnt s" "kept (put_out p xs s) = kept s"
  by (simp_all add: put_out_def kept_def)

lemma rec_inv_store:
  assumes "rec_inv n t s h" "length h \<le> p" "p + length xs \<le> dbsz (io_out s) + n"
  shows "store (db (io_out s)) p xs s = Inr (put_out p xs s)" "rec_inv n t (put_out p xs s) h"
    "take (p + length xs) (obuf (put_out p xs s)) = take p (obuf s) @ xs"
proof -
  have fit: "p + length xs \<le> length (obuf s)" using assms by (simp add: rec_inv_def)
  show "store (db (io_out s)) p xs s = Inr (put_out p xs s)"
    using assms(1) fit by (simp add: rec_inv_def store_within put_out_def)
  show "rec_inv n t (put_out p xs s) h"
    using assms(1,2) fit by (auto simp: rec_inv_def put_out_def min_def)
  show "take (p + length xs) (obuf (put_out p xs s)) = take p (obuf s) @ xs"
    using fit by (simp add: put_out_def)
qed

lemma rec_flush:
  assumes "rec_inv n t s h" "ok_out s" "take k (drop (length h) (obuf s)) = r" "length h + k \<le> dbsz (io_out s) + n"
  shows "\<exists>s' h'. flush (upd_out (\<lambda>io. io\<lparr>dbp := dbp io + k, dbcnt := dbcnt io + k\<rparr>) s) = Inr s' \<and>
    rec_inv n t s' h' \<and> delivered h r h' s s' \<and> ok_out s' \<and> io_in s' = io_in s \<and>
    ibuf s' = ibuf s \<and> intrunc s' = intrunc s \<and> kept s' = kept s"
proof -
  let ?s1 = "upd_out (\<lambda>io. io\<lparr>dbp := dbp io + k, dbcnt := dbcnt io + k\<rparr>) s"
  have fit: "length h + k \<le> length (obuf s)" using assms(1,4) by (simp add: rec_inv_def)
  obtain s' h' m where f: "flush ?s1 = Inr s'" and c: "core s' = core (buffered (length h') m ?s1)"
    and m: "length m = length (obuf s)" "take (length h') m = h'" "length h' < dbsz (io_out s)"
    and d: "delivered (h @ r) [] h' ?s1 s'" and ok: "ok_out s'"
  proof (rule flush_delivers [of ?s1 "h @ r"])
    show "ok_out ?s1" using assms(2) by (simp add: ok_out_upd)
    show "load (db (io_out ?s1)) 0 (dbcnt (io_out ?s1)) ?s1 = Inr (h @ r)"
      using assms(1,3) fit by (simp add: load_Inr rec_inv_def take_add)
  qed (use assms(1) in \<open>simp_all add: rec_inv_def\<close>)
  have "rec_inv n t s' h'"
    using assms(1) m core_frame(1,2,6,8,9,10) [OF c] by (simp add: rec_inv_def buffered_def)
  moreover have "delivered h r h' s s'" using d by (simp add: delivered_def)
  moreover have "kept s' = kept s" using kept_core [OF c] by (simp add: kept_def)
  moreover have "io_in s' = io_in s" "ibuf s' = ibuf s" "intrunc s' = intrunc s"
    using core_frame(1,9,11) [OF c] assms(1) by (simp_all add: buffered_def rec_inv_def)
  ultimately show ?thesis using f ok by blast
qed

section \<open>Lines to records\<close>

text \<open>
  The machine of \<open>block\<close> reads characters: it is collecting a record of at most \<open>n\<close>
  characters, or tossing what is beyond.
\<close>

datatype mode = Acc bytes | Skip

definition pad :: "nat \<Rightarrow> bytes option \<Rightarrow> bytes \<Rightarrow> bytes" where
  "pad n t r = map (xlate t) r @ replicate (n - length r) (xlate t sp)"

fun block_char :: "nat \<Rightarrow> bytes option \<Rightarrow> mode \<Rightarrow> u8 \<Rightarrow> bytes \<times> mode" where
  "block_char n t (Acc p) c =
     (if c = nl then (pad n t p, Acc [])
      else if Suc (length p) < n then ([], Acc (p @ [c]))
      else (pad n t (p @ [c]), Skip))"
| "block_char n t Skip c = ([], if c = nl then Acc [] else Skip)"

fun run_block :: "nat \<Rightarrow> bytes option \<Rightarrow> mode \<Rightarrow> bytes \<Rightarrow> bytes \<times> mode" where
  "run_block n t m [] = ([], m)"
| "run_block n t m (c # cs) =
     (fst (block_char n t m c) @ fst (run_block n t (snd (block_char n t m c)) cs),
      snd (run_block n t (snd (block_char n t m c)) cs))"

lemma run_block_append:
  "run_block n t m (xs @ ys) =
     (fst (run_block n t m xs) @ fst (run_block n t (snd (run_block n t m xs)) ys),
      snd (run_block n t (snd (run_block n t m xs)) ys))"
  by (induction xs arbitrary: m) simp_all

lemma run_block_short:
  "nl \<notin> set r \<Longrightarrow> length p + length r < n \<Longrightarrow> run_block n t (Acc p) r = ([], Acc (p @ r))"
  by (induction r arbitrary: p) auto

lemma run_block_full:
  "nl \<notin> set r \<Longrightarrow> r \<noteq> [] \<Longrightarrow> length p + length r = n \<Longrightarrow>
     run_block n t (Acc p) r = (pad n t (p @ r), Skip)"
proof (induction r arbitrary: p)
  case (Cons c r)
  then show ?case by (cases "r = []") auto
qed simp

lemma run_block_line:
  assumes "nl \<notin> set r" "length r < n"
  shows "run_block n t (Acc []) (r @ nl # d) =
    (pad n t r @ fst (run_block n t (Acc []) d), snd (run_block n t (Acc []) d))"
  using run_block_short [OF assms(1), of "[]" n t] assms(2) by (simp add: run_block_append)

lemma run_block_long:
  assumes "nl \<notin> set r" "length r = n" "0 < n"
  shows "run_block n t (Acc []) (r @ d) =
    (pad n t r @ fst (run_block n t Skip d), snd (run_block n t Skip d))"
  using run_block_full [OF assms(1), of "[]" n t] assms(2,3) by (auto simp: run_block_append)

lemma run_block_skip:
  "run_block n t Skip xs =
     (if toss xs = 0 then ([], Skip) else run_block n t (Acc []) (drop (length xs - toss xs + 1) xs))"
proof (induction xs)
  case (Cons x xs)
  then show ?case using toss_le [of xs] by (auto simp: Suc_diff_le)
qed simp

end
