(* ===== verification/Dd_Records.thy ===== *)
theory Dd_Records
  imports Dd_Spec
begin

text \<open>
  The record conversions of \<open>dd\<close>: \<open>block\<close> and \<open>unblock\<close> implement their
  character machines.
\<close>

section \<open>block\<close>

definition in_state :: "nat \<Rightarrow> dd \<Rightarrow> mode \<Rightarrow> bool" where
  "in_state n s m =
     (case m of
        Acc p \<Rightarrow> \<not> intrunc s \<and> length p < n \<and> nl \<notin> set p \<and> dbcnt (io_in s) = length p \<and>
          take (length p) (ibuf s) = p
      | Skip \<Rightarrow> intrunc s \<and> dbcnt (io_in s) = 0)"

lemma take_drop_after: "take (a + n) m = h @ r \<Longrightarrow> length h = a \<Longrightarrow> take n (drop a m) = r"
  using drop_take [of a "a + n" m] by simp

text \<open>A record that ends with a newline within the record size.\<close>

lemma block_loop_line:
  assumes inv: "rec_inv n t s h" and d: "load InBuf inp (dbcnt (io_in s)) s = Inr (r @ nl # d)"
    and r: "nl \<notin> set r" "length r < n"
  shows "\<exists>s3. block_loop inp s = bind_r (flush (upd_out (\<lambda>io. io\<lparr>dbp := dbp io + n, dbcnt := dbcnt io + n\<rparr>) s3))
      (block_loop (inp + length r + 1)) \<and>
    rec_inv n t s3 h \<and> take n (drop (length h) (obuf s3)) = pad n t r \<and> kept s3 = kept s \<and>
    io_in s3 = (io_in s)\<lparr>dbcnt := length d\<rparr> \<and> ibuf s3 = ibuf s \<and> intrunc s3 = intrunc s \<and>
    out_fd s3 = out_fd s \<and> pending s3 = pending s \<and> st s3 = st s"
proof -
  let ?c = "dbcnt (io_in s)" and ?k = "length r"
  have c: "?c = ?k + 1 + length d" using load_length [OF d] by simp
  then have cr: "0 < ?c" "?k < ?c" by simp_all
  obtain xs where l: "load InBuf inp (min n ?c) s = Inr xs" and tw: "takeWhile (\<lambda>c. c \<noteq> nl) xs = r"
  proof
    show "load InBuf inp (min n ?c) s = Inr (take (min n ?c) (r @ nl # d))"
      using load_split(1) [OF d] by simp
    show "takeWhile (\<lambda>c. c \<noteq> nl) (take (min n ?c) (r @ nl # d)) = r"
      using r c by (auto simp: take_Cons' takeWhile_append)
  qed
  let ?s1 = "put_out (length h) (map (xlate t) r) s"
  let ?s2 = "upd_in (\<lambda>io. io\<lparr>dbcnt := length d\<rparr>) ?s1"
  let ?s3 = "put_out (length h + ?k) (replicate (n - ?k) (xlate t sp)) ?s2"
  have st1: "store OutBuf (length h) (map (xlate t) r) s = Inr ?s1" and inv1: "rec_inv n t ?s1 h"
    and tk1: "take (length h + ?k) (obuf ?s1) = h @ map (xlate t) r"
    using rec_inv_store [OF inv, of "length h" "map (xlate t) r"] r inv by (simp_all add: rec_inv_def)
  have inv2: "rec_inv n t ?s2 h" using inv1 by (simp add: rec_inv_def)
  have st3: "store OutBuf (length h + ?k) (replicate (n - ?k) (xlate t sp)) ?s2 = Inr ?s3"
    and inv3: "rec_inv n t ?s3 h"
    and tk3: "take (length h + n) (obuf ?s3) = h @ pad n t r"
    using rec_inv_store [OF inv2, of "length h + ?k" "replicate (n - ?k) (xlate t sp)"] r inv2 tk1
    by (simp_all add: rec_inv_def pad_def)
  have upd: "upd_in (\<lambda>io. io\<lparr>dbcnt := dbcnt io - ?k - 1\<rparr>) ?s1 = ?s2"
    using c by (simp add: upd_in_def)
  have "block_loop inp s = bind_r (flush (upd_out (\<lambda>io. io\<lparr>dbp := dbp io + n, dbcnt := dbcnt io + n\<rparr>) ?s3))
      (block_loop (inp + ?k + 1))"
    using inv r cr by (subst block_loop.simps)
      (simp add: rec_inv_def Let_def l tw st1 st3 upd [simplified] flush_def)
  moreover have "take n (drop (length h) (obuf ?s3)) = pad n t r"
    using take_drop_after [OF tk3 refl] .
  ultimately show ?thesis using inv3 by (intro exI [of _ ?s3]) (simp add: kept_def)
qed


text \<open>A record that fills the record size: the rest of the line is tossed.\<close>

lemma upd_st_simps [simp]:
  "io_in (upd_st f s) = io_in s" "io_out (upd_st f s) = io_out s" "st (upd_st f s) = f (st s)"
  "out_fd (upd_st f s) = out_fd s" "pending (upd_st f s) = pending s" "ibuf (upd_st f s) = ibuf s"
  "obuf (upd_st f s) = obuf s" "ddflags (upd_st f s) = ddflags s" "mem b (upd_st f s) = mem b s"
  "load b p n (upd_st f s) = load b p n s" "cbsz (upd_st f s) = cbsz s" "ctab (upd_st f s) = ctab s"
  "in_fd (upd_st f s) = in_fd s" "cfunc (upd_st f s) = cfunc s" "intrunc (upd_st f s) = intrunc s"
  "cpy_cnt (upd_st f s) = cpy_cnt s" "files_cnt (upd_st f s) = files_cnt s"
  by (cases b; simp add: upd_st_def load_def)+

lemma toss_rest_runs:
  assumes "load (db (io_in s)) inp (dbcnt (io_in s)) s = Inr d" "\<not> intrunc s"
  shows "\<exists>s'. toss_rest inp s = Inr (inp + (dbcnt (io_in s) - (toss d - 1)), s') \<and>
    io_in s' = (io_in s)\<lparr>dbcnt := toss d - 1\<rparr> \<and> io_out s' = io_out s \<and> ibuf s' = ibuf s \<and>
    obuf s' = obuf s \<and> cbsz s' = cbsz s \<and> ctab s' = ctab s \<and> kept s' = kept s \<and>
    intrunc s' = (toss d = 0) \<and> out_fd s' = out_fd s \<and> pending s' = pending s \<and>
    bytes_out (st s') = bytes_out (st s)"
proof -
  have "length d = dbcnt (io_in s)" using load_length [OF assms(1)] .
  then show ?thesis
    using assms(2) toss_le [of d] unfolding toss_rest_def assms(1) bind_r_simps Let_def
    by (cases "toss d = 0"; cases "d = [] \<or> hd d \<noteq> nl") (auto simp: kept_def)
qed

lemma block_loop_long:
  assumes inv: "rec_inv n t s h" and d: "load InBuf inp (dbcnt (io_in s)) s = Inr (r @ d)"
    and r: "nl \<notin> set r" "length r = n" and "\<not> intrunc s"
  shows "\<exists>s3. block_loop inp s = bind_r (flush (upd_out (\<lambda>io. io\<lparr>dbp := dbp io + n, dbcnt := dbcnt io + n\<rparr>) s3))
      (block_loop (inp + n + (length d - (toss d - 1)))) \<and>
    rec_inv n t s3 h \<and> take n (drop (length h) (obuf s3)) = pad n t r \<and> kept s3 = kept s \<and>
    io_in s3 = (io_in s)\<lparr>dbcnt := toss d - 1\<rparr> \<and> ibuf s3 = ibuf s \<and> intrunc s3 = (toss d = 0) \<and>
    out_fd s3 = out_fd s \<and> pending s3 = pending s \<and> bytes_out (st s3) = bytes_out (st s)"
proof -
  let ?c = "dbcnt (io_in s)"
  have c: "?c = n + length d" using load_length [OF d] r by simp
  have n0: "0 < n" using inv by (simp add: rec_inv_def)
  then have cr: "0 < ?c" "\<not> ?c < n" "min n ?c = n" using c by simp_all
  have l: "load InBuf inp n s = Inr r" using load_split(1) [OF d, of n] c r by simp
  have tw: "takeWhile (\<lambda>c. c \<noteq> nl) r = r" using r by (auto simp: takeWhile_eq_all_conv)
  let ?s1 = "put_out (length h) (map (xlate t) r) s"
  let ?s2 = "upd_in (\<lambda>io. io\<lparr>dbcnt := length d\<rparr>) ?s1"
  have st1: "store OutBuf (length h) (map (xlate t) r) s = Inr ?s1" and inv1: "rec_inv n t ?s1 h"
    and tk1: "take (length h + n) (obuf ?s1) = h @ map (xlate t) r"
    using rec_inv_store [OF inv, of "length h" "map (xlate t) r"] r inv by (simp_all add: rec_inv_def)
  have upd: "upd_in (\<lambda>io. io\<lparr>dbcnt := dbcnt io - n\<rparr>) ?s1 = ?s2"
    using c by (simp add: upd_in_def)
  have "load InBuf (inp + n) (length d) s = Inr d" using load_split(2) [OF d, of n] c r by simp
  then have d2: "load (db (io_in ?s2)) (inp + n) (dbcnt (io_in ?s2)) ?s2 = Inr d"
    using inv by (simp add: load_Inr rec_inv_def)
  obtain s3 where t3: "toss_rest (inp + n) ?s2 = Inr (inp + n + (length d - (toss d - 1)), s3)"
    and s3: "io_in s3 = (io_in s)\<lparr>dbcnt := toss d - 1\<rparr>" "io_out s3 = io_out s" "ibuf s3 = ibuf s"
      "obuf s3 = obuf ?s1" "cbsz s3 = cbsz s" "ctab s3 = ctab s" "kept s3 = kept s"
      "intrunc s3 = (toss d = 0)" "out_fd s3 = out_fd s" "pending s3 = pending s"
      "bytes_out (st s3) = bytes_out (st s)"
    using toss_rest_runs [OF d2] assms(5) by (auto simp: kept_def)
  have inv3: "rec_inv n t s3 h" using inv1 s3 by (simp add: rec_inv_def)
  have "block_loop inp s = bind_r (flush (upd_out (\<lambda>io. io\<lparr>dbp := dbp io + n, dbcnt := dbcnt io + n\<rparr>) s3))
      (block_loop (inp + n + (length d - (toss d - 1))))"
    using inv r cr s3 by (subst block_loop.simps)
      (simp add: rec_inv_def Let_def l tw st1 upd t3 flush_def)
  moreover have "take n (drop (length h) (obuf s3)) = pad n t r"
    using take_drop_after [OF tk1 refl] s3(4) r by (simp add: pad_def)
  ultimately show ?thesis using inv3 s3 by (intro exI [of _ s3]) simp
qed

text \<open>What is left when the input ends within a record.\<close>

lemma block_loop_rest:
  assumes inv: "rec_inv n t s h" and d: "load InBuf inp (dbcnt (io_in s)) s = Inr d"
    and r: "nl \<notin> set d" "length d < n" "inp + dbcnt (io_in s) = dbp (io_in s)"
  shows "\<exists>s'. block_loop inp s = Inr s' \<and> rec_inv n t s' h \<and> take (length d) (ibuf s') = d \<and>
    kept s' = kept s \<and> io_in s' = io_in s \<and> intrunc s' = intrunc s \<and>
    out_fd s' = out_fd s \<and> pending s' = pending s \<and> bytes_out (st s') = bytes_out (st s)"
proof (cases "d = []")
  case True
  then have "dbcnt (io_in s) = 0" using load_length [OF d] by simp
  then show ?thesis using inv True by (subst block_loop.simps) simp
next
  case False
  let ?c = "dbcnt (io_in s)"
  have c: "length d = ?c" using load_length [OF d] .
  moreover have "0 < length d" using False by simp
  ultimately have cr: "0 < ?c" "?c < n" "min n ?c = ?c" using r by simp_all
  have tw: "takeWhile (\<lambda>c. c \<noteq> nl) d = d" using r by (auto simp: takeWhile_eq_all_conv)
  let ?s1 = "put_out (length h) (map (xlate t) d) s"
  have st1: "store OutBuf (length h) (map (xlate t) d) s = Inr ?s1" and inv1: "rec_inv n t ?s1 h"
    using rec_inv_store [OF inv, of "length h" "map (xlate t) d"] r inv by (simp_all add: rec_inv_def)
  have fit: "inp + ?c \<le> length (ibuf s)" and dd: "d = take ?c (drop inp (ibuf s))"
    using d by (auto simp: load_Inr)
  let ?s2 = "?s1\<lparr>ibuf := d @ drop ?c (ibuf s)\<rparr>"
  have "load InBuf inp ?c ?s1 = Inr d" using d by (simp add: load_Inr)
  moreover have "store InBuf 0 d ?s1 = Inr ?s2"
    using fit c by (subst store_within) simp_all
  moreover have "dbp (io_in s) - ?c = inp" "?c \<le> dbp (io_in s)" using r(3) by auto
  ultimately have mv: "bind_r (sub_size (dbp (io_in s)) ?c) (\<lambda>q. memmove InBuf 0 InBuf q ?c ?s1) = Inr ?s2"
    by (simp add: memmove_def)
  have "block_loop inp s = Inr ?s2"
    using inv cr c by (subst block_loop.simps) (simp add: rec_inv_def Let_def d tw st1 mv)
  moreover have "rec_inv n t ?s2 h" using inv1 c fit by (simp add: rec_inv_def)
  moreover have "take (length d) (ibuf ?s2) = d" by simp
  ultimately show ?thesis by (intro exI [of _ ?s2]) (simp add: kept_def)
qed

text \<open>The record loop from the start of a record.\<close>

lemma takeWhile_cases:
  obtains (line) r d' where "d = r @ nl # d'" "nl \<notin> set r" "length r < n"
  | (long) r d' where "d = r @ d'" "nl \<notin> set r" "length r = n"
  | (rest) "nl \<notin> set d" "length d < n"
proof -
  let ?r = "takeWhile (\<lambda>c. c \<noteq> nl) d"
  have nr: "nl \<notin> set ?r" by (auto dest: set_takeWhileD)
  show thesis
  proof (cases "length ?r < n")
    case True
    show thesis
    proof (cases "dropWhile (\<lambda>c. c \<noteq> nl) d")
      case Nil
      then have "?r = d" using takeWhile_dropWhile_id [of "\<lambda>c. c \<noteq> nl" d] by simp
      then show thesis using rest nr True by metis
    next
      case (Cons x xs)
      then have "x = nl" using hd_dropWhile [of "\<lambda>c. c \<noteq> nl" d] by simp
      then have "d = ?r @ nl # xs" using takeWhile_dropWhile_id [of "\<lambda>c. c \<noteq> nl" d] Cons by simp
      then show thesis using line nr True by blast
    qed
  next
    case False
    then have "n \<le> length d" using length_takeWhile_le [of "\<lambda>c. c \<noteq> nl" d] by linarith
    moreover have "take n d = take n ?r"
      using False takeWhile_dropWhile_id [of "\<lambda>c. c \<noteq> nl" d]
      by (metis diff_is_0_eq' linorder_not_less self_append_conv take0 take_append)
    then have "nl \<notin> set (take n d)" using nr in_set_takeD by metis
    ultimately show thesis using long [of "take n d" "drop n d"] by simp
  qed
qed


lemma load_drop_tail:
  "load b p n s = Inr (xs @ ys) \<Longrightarrow> load b (p + length xs) (length ys) s = Inr ys"
  using load_split(2) [of b p n s "xs @ ys" "length xs"] load_length [of b p n s "xs @ ys"] by auto

text \<open>Flushing a record and going on from a state as in the lemmas above.\<close>

lemma block_loop_continue:
  assumes eq: "block_loop inp s = bind_r (flush (upd_out (\<lambda>io. io\<lparr>dbp := dbp io + n, dbcnt := dbcnt io + n\<rparr>) s3))
      (block_loop inp2)"
    and inv3: "rec_inv n t s3 h" and r: "take n (drop (length h) (obuf s3)) = r"
    and ok3: "ok_out s3" and kept3: "kept s3 = kept s" and fd3: "out_fd s3 = out_fd s"
    and by3: "bytes_out (st s3) = bytes_out (st s)"
    and rec: "\<And>s4 h4. rec_inv n t s4 h4 \<Longrightarrow> ok_out s4 \<Longrightarrow> io_in s4 = io_in s3 \<Longrightarrow> ibuf s4 = ibuf s3 \<Longrightarrow>
      intrunc s4 = intrunc s3 \<Longrightarrow>
      \<exists>s' h'. block_loop inp2 s4 = Inr s' \<and> rec_inv n t s' h' \<and> ok_out s' \<and>
        delivered h4 ys h' s4 s' \<and> kept s' = kept s4 \<and> in_state n s' m"
  shows "\<exists>s' h'. block_loop inp s = Inr s' \<and> rec_inv n t s' h' \<and> ok_out s' \<and>
    delivered h (r @ ys) h' s s' \<and> kept s' = kept s \<and> in_state n s' m"
proof -
  obtain s4 h4 where 4: "flush (upd_out (\<lambda>io. io\<lparr>dbp := dbp io + n, dbcnt := dbcnt io + n\<rparr>) s3) = Inr s4"
    "rec_inv n t s4 h4" "delivered h r h4 s3 s4" "ok_out s4" "io_in s4 = io_in s3"
    "ibuf s4 = ibuf s3" "intrunc s4 = intrunc s3" "kept s4 = kept s3"
    using rec_flush [OF inv3 ok3 r] inv3 by (auto simp: rec_inv_def)
  obtain s' h' where s': "block_loop inp2 s4 = Inr s'" "rec_inv n t s' h'" "ok_out s'"
      "delivered h4 ys h' s4 s'" "kept s' = kept s4" "in_state n s' m"
    using rec [OF 4(2,4,5,6,7)] by blast
  have "delivered h (r @ ys) h' s3 s'" using delivered_trans [OF 4(3) s'(4)] .
  then have "delivered h (r @ ys) h' s s'" using delivered_cong(1) [OF fd3 by3] by metis
  then show ?thesis using eq 4 s' kept3 by auto
qed

lemma ok_out_kept:
  assumes "ok_out s" "kept s' = kept s" "out_fd s' = out_fd s" "pending s' = pending s"
  shows "ok_out s'"
  using assms by (auto simp: ok_out_def kept_def)

lemma block_loop_runs:
  assumes "rec_inv n t s h" "ok_out s" "\<not> intrunc s" "inp + dbcnt (io_in s) = dbp (io_in s)"
    and "load InBuf inp (dbcnt (io_in s)) s = Inr d"
  shows "\<exists>s' h'. block_loop inp s = Inr s' \<and> rec_inv n t s' h' \<and> ok_out s' \<and>
    delivered h (fst (run_block n t (Acc []) d)) h' s s' \<and> kept s' = kept s \<and>
    in_state n s' (snd (run_block n t (Acc []) d))"
  using assms
proof (induction "length d" arbitrary: s h inp d rule: less_induct)
  case less
  note inv = less.prems(1) and ok = less.prems(2) and nt = less.prems(3) and at = less.prems(4)
    and d = less.prems(5)
  have n0: "0 < n" using inv by (simp add: rec_inv_def)
  have ld: "length d = dbcnt (io_in s)" using load_length [OF d] .
  have ml: "load InBuf p k s4 = load InBuf p k s" if "ibuf s4 = ibuf s" for s4 p k
    using that by (simp add: load_def)
  show ?case
  proof (cases d n rule: takeWhile_cases)
    case (line r d')
    obtain s3 where eq: "block_loop inp s = bind_r (flush (upd_out (\<lambda>io. io\<lparr>dbp := dbp io + n, dbcnt := dbcnt io + n\<rparr>) s3))
        (block_loop (inp + length r + 1))"
      and s3: "rec_inv n t s3 h" "take n (drop (length h) (obuf s3)) = pad n t r" "kept s3 = kept s"
        "io_in s3 = (io_in s)\<lparr>dbcnt := length d'\<rparr>" "ibuf s3 = ibuf s" "intrunc s3 = intrunc s"
        "out_fd s3 = out_fd s" "pending s3 = pending s" "st s3 = st s"
      using block_loop_line [OF inv d [unfolded line(1)] line(2,3)] by blast
    have l': "load InBuf (inp + length r + 1) (length d') s = Inr d'"
      using load_drop_tail [of InBuf inp _ s "r @ [nl]" d'] d line(1) by simp
    show ?thesis unfolding line(1) run_block_line [OF line(2,3)] fst_conv snd_conv
    proof (rule block_loop_continue [OF eq s3(1,2) ok_out_kept [OF ok s3(3,7,8)] s3(3,7)])
      show "bytes_out (st s3) = bytes_out (st s)" using s3(9) by simp
      fix s4 h4
      assume 4: "rec_inv n t s4 h4" "ok_out s4" "io_in s4 = io_in s3" "ibuf s4 = ibuf s3" "intrunc s4 = intrunc s3"
      show "\<exists>s' h'. block_loop (inp + length r + 1) s4 = Inr s' \<and> rec_inv n t s' h' \<and> ok_out s' \<and>
        delivered h4 (fst (run_block n t (Acc []) d')) h' s4 s' \<and> kept s' = kept s4 \<and>
        in_state n s' (snd (run_block n t (Acc []) d'))"
      proof (rule less.hyps)
        show "length d' < length d" using line(1) by simp
        show "load InBuf (inp + length r + 1) (dbcnt (io_in s4)) s4 = Inr d'"
          using l' ml [of s4] 4(3,4) s3(4,5) by simp
        show "inp + length r + 1 + dbcnt (io_in s4) = dbp (io_in s4)"
          using at ld line(1) 4 s3 by simp
      qed (use 4 s3 nt in simp_all)
    qed
  next
    case (long r d')
    define e where "e = drop (length d' - (toss d' - 1)) d'"
    obtain s3 where eq: "block_loop inp s = bind_r (flush (upd_out (\<lambda>io. io\<lparr>dbp := dbp io + n, dbcnt := dbcnt io + n\<rparr>) s3))
        (block_loop (inp + n + (length d' - (toss d' - 1))))"
      and s3: "rec_inv n t s3 h" "take n (drop (length h) (obuf s3)) = pad n t r" "kept s3 = kept s"
        "io_in s3 = (io_in s)\<lparr>dbcnt := toss d' - 1\<rparr>" "ibuf s3 = ibuf s" "intrunc s3 = (toss d' = 0)"
        "out_fd s3 = out_fd s" "pending s3 = pending s" "bytes_out (st s3) = bytes_out (st s)"
      using block_loop_long [OF inv d [unfolded long(1)] long(2,3) nt] by (elim exE conjE) (rule that)
    have le: "length e = toss d' - 1" using toss_le [of d'] by (simp add: e_def)
    have l': "load InBuf (inp + n + (length d' - (toss d' - 1))) (length e) s = Inr e"
      using load_drop_tail [of InBuf inp _ s "r @ take (length d' - (toss d' - 1)) d'" e]
        d long(1,3) toss_le [of d'] by (simp add: e_def add.assoc)
    show ?thesis unfolding long(1) run_block_long [OF long(2,3) n0] fst_conv snd_conv
    proof (rule block_loop_continue [OF eq s3(1,2) ok_out_kept [OF ok s3(3,7,8)] s3(3,7,9)])
      fix s4 h4
      assume 4: "rec_inv n t s4 h4" "ok_out s4" "io_in s4 = io_in s3" "ibuf s4 = ibuf s3" "intrunc s4 = intrunc s3"
      show "\<exists>s' h'. block_loop (inp + n + (length d' - (toss d' - 1))) s4 = Inr s' \<and> rec_inv n t s' h' \<and> ok_out s' \<and>
        delivered h4 (fst (run_block n t Skip d')) h' s4 s' \<and> kept s' = kept s4 \<and>
        in_state n s' (snd (run_block n t Skip d'))"
      proof (cases "toss d' = 0")
        case True
        then have "block_loop (inp + n + (length d' - (toss d' - 1))) s4 = Inr s4"
          using 4 s3 by (subst block_loop.simps) simp
        then show ?thesis using True 4 s3
          by (auto simp: run_block_skip in_state_def delivered_def)
      next
        case False
        then have e: "run_block n t Skip d' = run_block n t (Acc []) e"
          using toss_le [of d'] by (simp add: run_block_skip e_def Suc_diff_le)
        show ?thesis unfolding e
        proof (rule less.hyps)
          show "length e < length d" using le long toss_le [of d'] n0 by simp
          show "load InBuf (inp + n + (length d' - (toss d' - 1))) (dbcnt (io_in s4)) s4 = Inr e"
            using l' ml [of s4] 4(3,4) s3(4,5) le by simp
          show "inp + n + (length d' - (toss d' - 1)) + dbcnt (io_in s4) = dbp (io_in s4)"
            using at ld long 4 s3 toss_le [of d'] by simp
        qed (use 4 s3 False in simp_all)
      qed
    qed
  next
    case rest
    have run: "run_block n t (Acc []) d = ([], Acc d)" using run_block_short [of d "[]" n t] rest by simp
    obtain s' where "block_loop inp s = Inr s'" "rec_inv n t s' h" "take (length d) (ibuf s') = d"
      "kept s' = kept s" "io_in s' = io_in s" "intrunc s' = intrunc s" "out_fd s' = out_fd s"
      "pending s' = pending s" "bytes_out (st s') = bytes_out (st s)"
      using block_loop_rest [OF inv d rest at] by blast
    then show ?thesis using run rest ld nt ok_out_kept [OF ok]
      by (intro exI [of _ s'] exI [of _ h]) (auto simp: in_state_def delivered_def)
  qed
qed


text \<open>The state between two calls, and the interface.\<close>

definition ready_block :: "nat \<Rightarrow> bytes option \<Rightarrow> dd \<Rightarrow> mode \<Rightarrow> bytes \<Rightarrow> bool" where
  "ready_block n t s m h \<longleftrightarrow> rec_inv n t s h \<and> in_state n s m \<and> dbp (io_in s) = dbcnt (io_in s)"

definition final_block :: "nat \<Rightarrow> bytes option \<Rightarrow> mode \<Rightarrow> bytes" where
  "final_block n t m =
     (case m of
        Acc p \<Rightarrow> if p = [] then [] else p @ replicate (n - length p) (xlate t sp)
      | Skip \<Rightarrow> [])"

lemma block_main_runs:
  assumes "rec_inv n t s h" "ok_out s" "\<not> intrunc s" "dbcnt (io_in s) \<le> dbp (io_in s)"
    and "load InBuf (dbp (io_in s) - dbcnt (io_in s)) (dbcnt (io_in s)) s = Inr d"
  shows "\<exists>s' h'. block_main s = Inr s' \<and> ready_block n t s' (snd (run_block n t (Acc []) d)) h' \<and>
    ok_out s' \<and> delivered h (fst (run_block n t (Acc []) d)) h' s s' \<and> kept s' = kept s"
proof -
  obtain s1 h' where s1: "block_loop (dbp (io_in s) - dbcnt (io_in s)) s = Inr s1" "rec_inv n t s1 h'"
      "ok_out s1" "delivered h (fst (run_block n t (Acc []) d)) h' s s1" "kept s1 = kept s"
      "in_state n s1 (snd (run_block n t (Acc []) d))"
    using block_loop_runs [OF assms(1-3) _ assms(5)] assms(4) by auto
  let ?s' = "upd_in (\<lambda>io. io\<lparr>dbp := dbcnt io\<rparr>) s1"
  have "block_main s = Inr ?s'" using s1(1) assms(4) by (simp add: block_main_def)
  moreover have "ready_block n t ?s' (snd (run_block n t (Acc []) d)) h'"
    using s1(2,6) by (simp add: ready_block_def rec_inv_def in_state_def split: mode.splits)
  moreover have "ok_out ?s'" "kept ?s' = kept s" using s1(3,5) by (simp_all add: ok_out_def kept_def)
  moreover have "delivered h (fst (run_block n t (Acc []) d)) h' s ?s'"
    using s1(4) delivered_cong(2) [of s1 ?s'] by simp
  ultimately show ?thesis by blast
qed

lemma block_step:
  assumes r: "ready_block n t s m h" and ok: "ok_out s"
    and xs: "load (db (io_in s)) (dbp (io_in s)) k s = Inr xs" and k: "0 < k" "k \<le> dbsz (io_in s)"
  shows "\<exists>s' h'. block (arrived k s) = Inr s' \<and> ready_block n t s' (snd (run_block n t m xs)) h' \<and>
    ok_out s' \<and> delivered h (fst (run_block n t m xs)) h' s s' \<and> kept s' = kept s"
proof (cases m)
  case (Acc p)
  have inv: "rec_inv n t (arrived k s) h" using r by (simp add: ready_block_def rec_inv_def arrived_def)
  have p: "\<not> intrunc s" "length p < n" "nl \<notin> set p" "dbcnt (io_in s) = length p" "dbp (io_in s) = length p"
    "take (length p) (ibuf s) = p" "db (io_in s) = InBuf"
    using r Acc by (auto simp: ready_block_def in_state_def rec_inv_def)
  have run: "run_block n t (Acc []) (p @ xs) = run_block n t (Acc p) xs"
    using run_block_short [of p "[]" n t] p by (simp add: run_block_append)
  have l: "load InBuf 0 (length p + k) (arrived k s) = Inr (p @ xs)"
    using xs p by (simp add: load_Inr arrived_def take_add)
  obtain s' h' where s': "block_main (arrived k s) = Inr s'"
    "ready_block n t s' (snd (run_block n t m xs)) h'" "ok_out s'"
    "delivered h (fst (run_block n t m xs)) h' (arrived k s) s'" "kept s' = kept (arrived k s)"
    using block_main_runs [OF inv, of "p @ xs"] l p(1,4,5) ok run Acc
    by (auto simp: arrived_def ok_out_def)
  have "block (arrived k s) = Inr s'" using s'(1) p(1) by (simp add: block_def arrived_def)
  moreover have "delivered h (fst (run_block n t m xs)) h' s s'"
    using s'(4) delivered_cong(1) [of "arrived k s" s] by (simp add: arrived_def)
  ultimately show ?thesis using s' by (auto simp: kept_def arrived_def)
next
  case Skip
  then have q: "intrunc s" "dbcnt (io_in s) = 0" "dbp (io_in s) = 0" "db (io_in s) = InBuf"
    using r by (simp_all add: ready_block_def in_state_def rec_inv_def)
  have l: "load InBuf 0 k (arrived k s) = Inr xs" using xs q by (simp add: arrived_def)
  have lx: "length xs = k" using load_length [OF xs] .
  show ?thesis
  proof (cases "toss xs = 0")
    case True
    let ?s' = "upd_in (\<lambda>io. io\<lparr>dbcnt := 0, dbp := 0\<rparr>) (arrived k s)"
    have "block (arrived k s) = Inr ?s'"
      using True q l by (simp add: block_def arrived_def)
    moreover have "ready_block n t ?s' Skip h"
      using r q by (simp add: ready_block_def arrived_def rec_inv_def in_state_def)
    ultimately show ?thesis using True Skip ok
      by (intro exI [of _ ?s'] exI [of _ h])
        (simp add: run_block_skip arrived_def ok_out_def kept_def delivered_def)
  next
    case False
    let ?c = "toss xs - 1"
    let ?s1 = "upd_in (\<lambda>io. io\<lparr>dbcnt := ?c, dbp := k\<rparr>) ((arrived k s)\<lparr>intrunc := False\<rparr>)"
    let ?d = "drop (k - toss xs + 1) xs"
    have le: "toss xs \<le> k" using toss_le [of xs] lx by simp
    have "dbrcnt (io_in (arrived k s)) - toss xs + 1 + toss xs - 1 = k" using le by (simp add: arrived_def)
    then have b: "block (arrived k s) = block_main ?s1"
      using False q l by (simp add: block_def arrived_def upd_in_def)
    have inv: "rec_inv n t ?s1 h" using r by (simp add: ready_block_def arrived_def rec_inv_def)
    have "load InBuf (0 + (k - ?c)) (k - (k - ?c)) (arrived k s) = Inr (drop (k - ?c) xs)"
      using load_split(2) [OF l, of "k - ?c"] by simp
    then have l1: "load InBuf (dbp (io_in ?s1) - dbcnt (io_in ?s1)) (dbcnt (io_in ?s1)) ?s1 = Inr ?d"
      using le False by (simp add: load_Inr arrived_def Suc_diff_le)
    have ok1: "ok_out ?s1" using ok by (simp add: ok_out_def arrived_def)
    have ni1: "\<not> intrunc ?s1" by simp
    have le1: "dbcnt (io_in ?s1) \<le> dbp (io_in ?s1)" using le by simp
    have run: "run_block n t Skip xs = run_block n t (Acc []) ?d"
      using False lx by (simp add: run_block_skip)
    obtain s' h' where s': "block_main ?s1 = Inr s'"
      "ready_block n t s' (snd (run_block n t m xs)) h'" "ok_out s'"
      "delivered h (fst (run_block n t m xs)) h' ?s1 s'" "kept s' = kept ?s1"
      using block_main_runs [OF inv ok1 ni1 le1 l1] unfolding Skip run by blast
    have "delivered h (fst (run_block n t m xs)) h' s s'"
      using s'(4) delivered_cong(1) [of ?s1 s] by (simp add: arrived_def)
    then show ?thesis using b s' by (auto simp: kept_def arrived_def)
  qed
qed


lemma store_view:
  assumes "store (db (io_in s)) (dbp (io_in s)) xs s = Inr s'" "db (io_in s) = InBuf"
  shows "io_in s' = io_in s" "io_out s' = io_out s" "obuf s' = obuf s" "intrunc s' = intrunc s"
    "cbsz s' = cbsz s" "ctab s' = ctab s" "length (ibuf s') = length (ibuf s)"
    "take (dbp (io_in s)) (ibuf s') = take (dbp (io_in s)) (ibuf s)"
  using assms by (auto simp: store_def bind_r_Inr poke_def of_opt_def split: if_splits)

lemma ready_block_free:
  assumes "ready_block n t s m h" "store (db (io_in s)) (dbp (io_in s)) xs s = Inr s'"
  shows "ready_block n t s' m h"
proof -
  have "db (io_in s) = InBuf" using assms(1) by (simp add: ready_block_def rec_inv_def)
  from store_view [OF assms(2) this] show ?thesis
    using assms(1) by (auto simp: ready_block_def rec_inv_def in_state_def split: mode.splits)
qed

lemma block_close_runs:
  assumes r: "ready_block n t s m h" and ok: "ok_out s"
  shows "\<exists>s'. block_close s = Inr s' \<and> ok_out s' \<and> dbcnt (io_out s') = length (h @ final_block n t m) \<and>
    load (db (io_out s')) 0 (dbcnt (io_out s')) s' = Inr (h @ final_block n t m) \<and>
    delivered [] [] [] s s' \<and> kept s' = kept s"
proof (cases "dbcnt (io_in s) = 0")
  case True
  then have "final_block n t m = []"
    using r by (auto simp: ready_block_def in_state_def final_block_def split: mode.splits)
  moreover have "block_close s = Inr s" using True by (simp add: block_close_def)
  ultimately show ?thesis using r ok by (auto simp: ready_block_def rec_inv_def load_Inr delivered_def)
next
  case False
  then obtain p where m: "m = Acc p" and p: "length p < n" "dbcnt (io_in s) = length p"
      "dbp (io_in s) = length p" "take (length p) (ibuf s) = p" "p \<noteq> []"
    using r by (cases m) (auto simp: ready_block_def in_state_def)
  let ?s1 = "upd_st (\<lambda>t. t\<lparr>trunc := Suc (trunc t)\<rparr>) s"
  let ?s2 = "put_out (length h) p ?s1"
  let ?e = "replicate (n - length p) (xlate t sp)"
  let ?s3 = "put_out (length h + length p) ?e ?s2"
  have inv1: "rec_inv n t ?s1 h" using r by (simp add: ready_block_def rec_inv_def)
  have buf: "db (io_in s) = InBuf" "db (io_out s) = OutBuf" "dbp (io_out s) = length h" "cbsz s = n" "ctab s = t"
    and fit: "length h < dbsz (io_out s)" "length p \<le> length (ibuf s)"
    using r p by (auto simp: ready_block_def rec_inv_def)
  have l: "load InBuf 0 (length p) ?s1 = Inr p" using p fit by (simp add: load_Inr)
  have s2: "store OutBuf (length h) p ?s1 = Inr ?s2" "rec_inv n t ?s2 h"
      "take (length h + length p) (obuf ?s2) = h @ p"
    using rec_inv_store [OF inv1, of "length h" p] p inv1 fit buf by (simp_all add: rec_inv_def)
  have s3: "store OutBuf (length h + length p) ?e ?s2 = Inr ?s3" "rec_inv n t ?s3 h"
      "take (length h + n) (obuf ?s3) = h @ p @ ?e"
    using rec_inv_store [OF s2(2), of "length h + length p" ?e] p s2(3) fit buf by simp_all
  let ?s' = "upd_out (\<lambda>io. io\<lparr>dbcnt := dbcnt io + n\<rparr>) ?s3"
  have "block_close s = Inr ?s'"
    using False p buf l s2(1) s3(1) by (simp add: block_close_def Let_def memmove_def)
  moreover have "load OutBuf 0 (length h + n) ?s' = Inr (h @ p @ ?e)"
    using s3(2,3) fit by (simp add: load_Inr rec_inv_def)
  moreover have "ok_out ?s'" using ok by (simp add: ok_out_def)
  moreover have "delivered [] [] [] s ?s'" by (simp add: delivered_def)
  moreover have "dbcnt (io_out s) = length h" using r by (simp add: ready_block_def rec_inv_def)
  ultimately show ?thesis using buf p
    by (intro exI [of _ ?s']) (simp add: final_block_def m kept_def)
qed

interpretation blocking: conversion block block_close "ready_block n t" "run_block n t" "final_block n t"
  for n t
proof unfold_locales
  fix s :: dd and m h xs s' k
  show "ready_block n t s m h \<Longrightarrow> dbp (io_in s) + dbsz (io_in s) \<le> length (mem (db (io_in s)) s)"
    by (auto simp: ready_block_def rec_inv_def in_state_def split: mode.splits)
  show "ready_block n t s m h \<Longrightarrow> 0 < dbsz (io_in s) \<and> 0 < dbsz (io_out s)"
    by (simp add: ready_block_def rec_inv_def)
  show "ready_block n t s m h \<Longrightarrow> view s' = view s \<Longrightarrow> ready_block n t s' m h"
    by (auto simp: ready_block_def rec_inv_def in_state_def view_def split: mode.splits)
qed (fact ready_block_free block_step block_close_runs)+

section \<open>unblock\<close>

text \<open>
  The machine of \<open>unblock\<close> keeps an incomplete record. It splits what it has into records of
  \<open>n\<close> bytes and drops their trailing blanks. The first byte of every chunk reaches the output
  untranslated (\<open>late\<close>): the translation loop is one byte too high.
\<close>

function cut_records :: "nat \<Rightarrow> bytes \<Rightarrow> bytes \<times> bytes" where
  "cut_records n d =
     (if n = 0 \<or> length d < n then ([], d)
      else (strip (take n d) @ nl # fst (cut_records n (drop n d)), snd (cut_records n (drop n d))))"
  by pat_completeness auto
termination
  by (relation "measure (\<lambda>(n, d). length d)") auto

declare cut_records.simps [simp del]

fun late :: "bytes option \<Rightarrow> bytes \<Rightarrow> bytes" where
  "late t [] = []"
| "late t (x # xs) = x # map (xlate t) xs"

definition run_unblock :: "nat \<Rightarrow> bytes option \<Rightarrow> bytes \<Rightarrow> bytes \<Rightarrow> bytes \<times> bytes" where
  "run_unblock n t p xs = cut_records n (p @ late t xs)"

definition final_unblock :: "bytes \<Rightarrow> bytes" where
  "final_unblock p = (if p = [] then [] else strip p @ [nl])"

definition ready_unblock :: "nat \<Rightarrow> bytes option \<Rightarrow> dd \<Rightarrow> bytes \<Rightarrow> bytes \<Rightarrow> bool" where
  "ready_unblock n t s p h \<longleftrightarrow>
     rec_inv n t s h \<and> length p < n \<and> dbcnt (io_in s) = length p \<and> dbp (io_in s) = length p \<and>
     take (length p) (ibuf s) = p"


lemma delivered_same: "delivered h [] h s s"
  by (simp add: delivered_def)

lemma strip_length: "length (strip xs) \<le> length xs"
  using length_dropWhile_le [of "\<lambda>c. c = sp" "rev xs"] by (simp add: strip_def)

lemma put_line_runs:
  assumes inv: "rec_inv n t s h" and "length xs \<le> n"
  shows "put_line xs s = Inr (upd_out (\<lambda>io. io\<lparr>dbp := dbp io + Suc (length xs), dbcnt := dbcnt io + Suc (length xs)\<rparr>)
      (put_out (length h) (xs @ [nl]) s))"
    "rec_inv n t (put_out (length h) (xs @ [nl]) s) h"
    "take (Suc (length xs)) (drop (length h) (obuf (put_out (length h) (xs @ [nl]) s))) = xs @ [nl]"
proof -
  have buf: "db (io_out s) = OutBuf" "dbp (io_out s) = length h" "length (obuf s) = dbsz (io_out s) + n"
    and fit: "length h < dbsz (io_out s)"
    using inv by (simp_all add: rec_inv_def)
  note all = rec_inv_store [OF inv, of "length h" "xs @ [nl]"]
  show "rec_inv n t (put_out (length h) (xs @ [nl]) s) h" using all assms(2) fit by simp
  have "take (length h) (obuf s) = h" using inv by (simp add: rec_inv_def)
  then show "take (Suc (length xs)) (drop (length h) (obuf (put_out (length h) (xs @ [nl]) s))) = xs @ [nl]"
    using all(3) assms(2) fit by (intro take_drop_after [of _ _ _ h]) simp_all
  let ?s1 = "put_out (length h) xs s"
  let ?s2 = "upd_out (\<lambda>io. io\<lparr>dbp := dbp io + length xs, dbcnt := dbcnt io + length xs\<rparr>) ?s1"
  have st1: "store OutBuf (length h) xs s = Inr ?s1"
    using rec_inv_store(1) [OF inv, of "length h" xs] assms(2) fit buf by simp
  have l1: "length (obuf ?s1) = length (obuf s)" using assms(2) fit buf by (simp add: put_out_def)
  have "store OutBuf (length h + length xs) [nl] ?s2 = Inr (put_out (length h + length xs) [nl] ?s2)"
    using assms(2) fit buf l1 by (subst store_within) (simp_all add: put_out_def)
  moreover have "put_out (length h + length xs) [nl] ?s2 =
      upd_out (\<lambda>io. io\<lparr>dbp := dbp io + length xs, dbcnt := dbcnt io + length xs\<rparr>) (put_out (length h) (xs @ [nl]) s)"
    using assms(2) fit buf by (simp add: put_out_def upd_out_def min_def)
  ultimately show "put_line xs s = Inr (upd_out (\<lambda>io. io\<lparr>dbp := dbp io + Suc (length xs), dbcnt := dbcnt io + Suc (length xs)\<rparr>)
      (put_out (length h) (xs @ [nl]) s))"
    using st1 buf by (cases "xs = []") (simp_all add: put_line_def put_out_def upd_out_def)
qed

lemma unblock_loop_runs:
  assumes "rec_inv n t s h" "ok_out s" "load InBuf inp (dbcnt (io_in s)) s = Inr d"
  shows "\<exists>s' h'. unblock_loop inp s = Inr s' \<and> rec_inv n t s' h' \<and> ok_out s' \<and>
    delivered h (fst (cut_records n d)) h' s s' \<and> kept s' = kept s \<and> ibuf s' = ibuf s \<and>
    io_in s' = (io_in s)\<lparr>dbcnt := length (snd (cut_records n d))\<rparr>"
  using assms
proof (induction "length d" arbitrary: s h inp d rule: less_induct)
  case less
  note inv = less.prems(1) and ok = less.prems(2) and d = less.prems(3)
  have n: "0 < n" "cbsz s = n" "db (io_in s) = InBuf" and fit: "length h < dbsz (io_out s)"
    using inv by (simp_all add: rec_inv_def)
  have ld: "length d = dbcnt (io_in s)" using load_length [OF d] .
  show ?case
  proof (cases "length d < n")
    case True
    then have "unblock_loop inp s = Inr s" using n ld by (subst unblock_loop.simps) simp
    then show ?thesis using True inv ok ld
      by (intro exI [of _ s] exI [of _ h]) (simp add: cut_records.simps [of n d] delivered_same)
  next
    case False
    let ?x = "strip (take n d)"
    let ?k = "Suc (length ?x)"
    have lx: "length ?x \<le> n" using strip_length [of "take n d"] False by simp
    have l: "load InBuf inp n s = Inr (take n d)" "load InBuf (inp + n) (length d - n) s = Inr (drop n d)"
      using load_split [OF d, of n] False ld by simp_all
    note pl = put_line_runs [OF inv lx]
    let ?s1 = "put_out (length h) (?x @ [nl]) s"
    have "ok_out ?s1" using ok by (simp add: ok_out_def)
    then obtain s2 h2 where 2: "flush (upd_out (\<lambda>io. io\<lparr>dbp := dbp io + ?k, dbcnt := dbcnt io + ?k\<rparr>) ?s1) = Inr s2"
      "rec_inv n t s2 h2" "delivered h (?x @ [nl]) h2 ?s1 s2" "ok_out s2" "io_in s2 = io_in s"
      "ibuf s2 = ibuf s" "kept s2 = kept s"
      using rec_flush [OF pl(2) _ pl(3)] lx fit by auto
    let ?s3 = "upd_in (\<lambda>io. io\<lparr>dbcnt := dbcnt io - n\<rparr>) s2"
    have eq: "unblock_loop inp s = unblock_loop (inp + n) ?s3"
      using n False ld l(1) pl(1) 2(1) by (subst unblock_loop.simps) (simp add: flush_def)
    have inv3: "rec_inv n t ?s3 h2" using 2(2) by (simp add: rec_inv_def)
    have ok3: "ok_out ?s3" using 2(4) by (simp add: ok_out_def)
    have l3: "load InBuf (inp + n) (dbcnt (io_in ?s3)) ?s3 = Inr (drop n d)"
      using l(2) 2(5,6) ld by (simp add: load_Inr)
    have "length (drop n d) < length d" using False n by simp
    then obtain s' h' where s': "unblock_loop (inp + n) ?s3 = Inr s'" "rec_inv n t s' h'" "ok_out s'"
      "delivered h2 (fst (cut_records n (drop n d))) h' ?s3 s'" "kept s' = kept ?s3" "ibuf s' = ibuf ?s3"
      "io_in s' = (io_in ?s3)\<lparr>dbcnt := length (snd (cut_records n (drop n d)))\<rparr>"
      using less.hyps [OF _ inv3 ok3 l3] by blast
    have "delivered h ((?x @ [nl]) @ fst (cut_records n (drop n d))) h' s s'"
    proof (rule delivered_trans)
      show "delivered h (?x @ [nl]) h2 s s2" using 2(3) delivered_cong(1) [of s ?s1] by simp
      show "delivered h2 (fst (cut_records n (drop n d))) h' s2 s'"
        using s'(4) delivered_cong(1) [of s2 ?s3] by simp
    qed
    moreover have "cut_records n d = ((?x @ [nl]) @ fst (cut_records n (drop n d)), snd (cut_records n (drop n d)))"
      using False n by (subst cut_records.simps) simp
    moreover have "kept s' = kept s" using s'(5) 2(7) by (simp add: kept_def)
    ultimately show ?thesis using eq s' 2(5,6) by auto
  qed
qed


lemma cut_records_rest: "0 < n \<Longrightarrow> length (snd (cut_records n d)) < n \<and>
    (\<exists>k. k \<le> length d \<and> snd (cut_records n d) = drop k d)"
proof (induction n d rule: cut_records.induct)
  case (1 n d)
  show ?case
  proof (cases "length d < n")
    case True
    then show ?thesis by (auto simp: cut_records.simps [of n d] intro: exI [of _ 0])
  next
    case False
    with 1 obtain k where k: "k \<le> length d - n" "snd (cut_records n (drop n d)) = drop (k + n) d"
      "length (snd (cut_records n (drop n d))) < n" by (auto simp: add.commute)
    then show ?thesis using False "1.prems"
      by (auto simp: cut_records.simps [of n d] intro!: exI [of _ "k + n"])
  qed
qed

lemma xlate_back_runs:
  assumes r: "ready_unblock n t s p h" and xs: "load InBuf (dbp (io_in s)) k s = Inr xs"
    and k: "0 < k" "k \<le> dbsz (io_in s)"
  shows "\<exists>m. xlate_back (arrived k s) = Inr ((arrived k s)\<lparr>ibuf := m\<rparr>) \<and> length m = length (ibuf s) \<and>
    take (length p + k) m = p @ late t xs"
proof -
  have q: "dbp (io_in s) = length p" "take (length p) (ibuf s) = p" "db (io_in s) = InBuf" "ctab s = t"
    and fit: "length p + k < length (ibuf s)"
    using r k by (auto simp: ready_unblock_def rec_inv_def)
  have lx: "length xs = k" using load_length [OF xs] .
  have xd: "take k (drop (length p) (ibuf s)) = xs" using xs q by (auto simp: load_Inr)
  show ?thesis
  proof (cases t)
    case None
    then have "late t xs = xs" by (cases xs) simp_all
    then show ?thesis using None q fit xd
      by (intro exI [of _ "ibuf s"]) (simp add: xlate_back_def arrived_def take_add upd_in_def)
  next
    case (Some tb)
    obtain x ys where x: "xs = x # ys" using lx k by (cases xs) auto
    define z where "z = ibuf s ! (length p + k)"
    let ?w = "map (xlate t) (ys @ [z])"
    let ?m = "take (length p + 1) (ibuf s) @ ?w @ drop (length p + 1 + k) (ibuf s)"
    have dp: "drop (length p) (ibuf s) = xs @ z # drop (length p + k + 1) (ibuf s)"
      using xd fit append_take_drop_id [of k "drop (length p) (ibuf s)"]
      by (simp add: z_def Cons_nth_drop_Suc add.commute)
    have "drop (length p + 1) (ibuf s) = drop 1 (drop (length p) (ibuf s))" by (simp add: add.commute)
    then have d1: "drop (length p + 1) (ibuf s) = (ys @ [z]) @ drop (length p + k + 1) (ibuf s)"
      using dp x by simp
    have l1: "load InBuf (length p + 1) k (arrived k s) = Inr (ys @ [z])"
      using d1 lx x fit by (auto simp: load_Inr arrived_def)
    have s1: "store InBuf (length p + 1) ?w (arrived k s) = Inr ((arrived k s)\<lparr>ibuf := ?m\<rparr>)"
      using lx x fit by (subst store_within) (auto simp: arrived_def)
    have "xlate_back (arrived k s) = Inr ((arrived k s)\<lparr>ibuf := ?m\<rparr>)"
      using l1 s1 q Some k by (simp add: xlate_back_def arrived_def)
    moreover have "take (length p + 1) (ibuf s) = p @ [x]"
      using dp x q(2) take_add [of "length p" 1 "ibuf s"] by simp
    then have "take (length p + k) ?m = p @ late t xs" unfolding lx [symmetric] x by simp
    moreover have "length ?m = length (ibuf s)" using lx x fit by simp
    ultimately show ?thesis by blast
  qed
qed

lemma unblock_step:
  assumes r: "ready_unblock n t s p h" and ok: "ok_out s"
    and xs: "load (db (io_in s)) (dbp (io_in s)) k s = Inr xs" and k: "0 < k" "k \<le> dbsz (io_in s)"
  shows "\<exists>s' h'. unblock (arrived k s) = Inr s' \<and> ready_unblock n t s' (snd (run_unblock n t p xs)) h' \<and>
    ok_out s' \<and> delivered h (fst (run_unblock n t p xs)) h' s s' \<and> kept s' = kept s"
proof -
  have q: "dbp (io_in s) = length p" "dbcnt (io_in s) = length p" "db (io_in s) = InBuf" "0 < n"
    and fit: "length p + k < length (ibuf s)"
    using r k by (auto simp: ready_unblock_def rec_inv_def)
  let ?D = "p @ late t xs"
  let ?R = "snd (cut_records n ?D)"
  obtain M where M: "xlate_back (arrived k s) = Inr ((arrived k s)\<lparr>ibuf := M\<rparr>)" "length M = length (ibuf s)"
      "take (length p + k) M = ?D"
    using xlate_back_runs [OF r _ k, of xs] xs q by auto
  let ?s1 = "(arrived k s)\<lparr>ibuf := M\<rparr>"
  have inv1: "rec_inv n t ?s1 h" using r M(2) by (simp add: ready_unblock_def rec_inv_def arrived_def)
  have ok1: "ok_out ?s1" using ok by (simp add: ok_out_def arrived_def)
  have l1: "load InBuf 0 (dbcnt (io_in ?s1)) ?s1 = Inr ?D"
    using M(2,3) q fit by (simp add: load_Inr arrived_def)
  obtain s2 h' where 2: "unblock_loop 0 ?s1 = Inr s2" "rec_inv n t s2 h'" "ok_out s2"
      "delivered h (fst (cut_records n ?D)) h' ?s1 s2" "kept s2 = kept ?s1" "ibuf s2 = M"
      "io_in s2 = (io_in ?s1)\<lparr>dbcnt := length ?R\<rparr>"
    using unblock_loop_runs [OF inv1 ok1 l1] by auto
  obtain j where j: "length ?R < n" "j \<le> length ?D" "?R = drop j ?D" using cut_records_rest [OF q(4)] by blast
  have lD: "length ?D = length p + k" using M(3) fit M(2) by (metis length_take less_imp_le min_absorb2)
  have lR: "length ?R \<le> length p + k" "length p + k - length ?R = j" using j lD by simp_all
  have tail: "take (length ?R) (drop j M) = ?R"
    using M(3) j lD by (metis drop_take length_drop)
  let ?m = "?R @ drop (length ?R) M"
  have lm: "length ?m = length M" using lR(1) fit M(2) by simp
  have mv: "(if dbcnt (io_in s2) = 0 then Inr s2
      else bind_r (sub_size (dbp (io_in s2)) (dbcnt (io_in s2))) (\<lambda>q.
        memmove (db (io_in s2)) 0 (db (io_in s2)) q (dbcnt (io_in s2)) s2)) = Inr (s2\<lparr>ibuf := ?m\<rparr>)"
  proof (cases "?R = []")
    case True
    then show ?thesis using 2(6,7) by (simp flip: 2(6))
  next
    case False
    have "load InBuf j (length ?R) s2 = Inr ?R"
      using tail 2(6) lR fit M(2) by (simp add: load_Inr)
    moreover have "store InBuf 0 ?R s2 = Inr (s2\<lparr>ibuf := ?m\<rparr>)"
      using 2(6) lR fit M(2) by (subst store_within) simp_all
    ultimately show ?thesis using False 2(7) q lR by (simp add: memmove_def arrived_def)
  qed
  let ?s' = "upd_in (\<lambda>io. io\<lparr>dbp := dbcnt io\<rparr>) (s2\<lparr>ibuf := ?m\<rparr>)"
  have "unblock (arrived k s) = Inr ?s'" using M(1) 2(1) mv by (simp add: unblock_def)
  moreover have "ready_unblock n t ?s' ?R h'"
    using 2(2,6,7) j(1) lm by (simp add: ready_unblock_def rec_inv_def)
  moreover have "delivered h (fst (cut_records n ?D)) h' s ?s'"
    using 2(4) delivered_cong(1) [of s ?s1] delivered_cong(2) [of s2 ?s'] by (simp add: arrived_def)
  moreover have "ok_out ?s'" using 2(3) by (simp add: ok_out_def)
  moreover have "kept ?s' = kept s" using 2(5) by (simp add: kept_def arrived_def)
  ultimately show ?thesis unfolding run_unblock_def by blast
qed


lemma unblock_close_runs:
  assumes r: "ready_unblock n t s p h"
  shows "ok_out s \<Longrightarrow> \<exists>s'. unblock_close s = Inr s' \<and> ok_out s' \<and> dbcnt (io_out s') = length (h @ final_unblock p) \<and>
    load (db (io_out s')) 0 (dbcnt (io_out s')) s' = Inr (h @ final_unblock p) \<and>
    delivered [] [] [] s s' \<and> kept s' = kept s"
    and "unblock_close s = Inr s' \<Longrightarrow>
      dbp (io_out s') = dbcnt (io_out s') \<and> dbsz (io_out s') \<le> length (mem (db (io_out s')) s')"
proof -
  have inv: "rec_inv n t s h" using r by (simp add: ready_unblock_def)
  have p: "dbcnt (io_in s) = length p" "take (length p) (ibuf s) = p" "length p \<le> length (ibuf s)" "length p < n"
    using r by (auto simp: ready_unblock_def rec_inv_def)
  let ?s1 = "diag (Warnx (io_name (io_in s) @ '': short input record'')) s"
  have inv1: "rec_inv n t ?s1 h" using inv by (simp add: rec_inv_def diag_def)
  have lx: "length (strip p) \<le> n" using strip_length [of p] p(4) by simp
  note pl = put_line_runs [OF inv1 lx]
  let ?k = "Suc (length (strip p))"
  let ?s2 = "put_out (length h) (strip p @ [nl]) ?s1"
  let ?s' = "upd_out (\<lambda>io. io\<lparr>dbp := dbp io + ?k, dbcnt := dbcnt io + ?k\<rparr>) ?s2"
  have eq: "unblock_close s = Inr (if p = [] then s else ?s')"
  proof (cases "p = []")
    case False
    have "load (db (io_in ?s1)) 0 (length p) ?s1 = Inr p"
      using p inv1 by (simp add: load_Inr rec_inv_def diag_def)
    then show ?thesis using False p(1) pl(1) by (simp add: unblock_close_def diag_def)
  qed (use p in \<open>simp add: unblock_close_def\<close>)
  have tk: "take (length h + ?k) (obuf ?s2) = h @ strip p @ [nl]"
    using take_add [of "length h" ?k "obuf ?s2"] pl(2,3) by (simp add: rec_inv_def)
  have len: "length h + ?k \<le> length (obuf ?s2)" using pl(2) lx by (simp add: rec_inv_def)
  have s: "dbcnt (io_out s) = length h" "dbp (io_out s) = length h" "db (io_out s) = OutBuf"
    using inv by (simp_all add: rec_inv_def)
  show "\<exists>s'. unblock_close s = Inr s' \<and> ok_out s' \<and> dbcnt (io_out s') = length (h @ final_unblock p) \<and>
    load (db (io_out s')) 0 (dbcnt (io_out s')) s' = Inr (h @ final_unblock p) \<and>
    delivered [] [] [] s s' \<and> kept s' = kept s" if ok: "ok_out s"
  proof (cases "p = []")
    case True
    then show ?thesis using eq ok inv by (simp add: final_unblock_def load_Inr rec_inv_def delivered_def)
  next
    case False
    have "load OutBuf 0 (length h + ?k) ?s' = Inr (h @ strip p @ [nl])" using tk len by (simp add: load_Inr)
    then show ?thesis using eq ok False s
      by (intro exI [of _ ?s']) (simp add: final_unblock_def delivered_def ok_out_def kept_def diag_def)
  qed
  show "unblock_close s = Inr s' \<Longrightarrow>
      dbp (io_out s') = dbcnt (io_out s') \<and> dbsz (io_out s') \<le> length (mem (db (io_out s')) s')"
    using eq s inv pl(2) by (auto simp: rec_inv_def diag_def split: if_splits)
qed

lemma ready_unblock_free:
  assumes "ready_unblock n t s m h" "store (db (io_in s)) (dbp (io_in s)) xs s = Inr s'"
  shows "ready_unblock n t s' m h"
proof -
  have "db (io_in s) = InBuf" using assms(1) by (simp add: ready_unblock_def rec_inv_def)
  from store_view [OF assms(2) this] show ?thesis
    using assms(1) by (auto simp: ready_unblock_def rec_inv_def)
qed

interpretation unblocking: osync_conversion unblock unblock_close "ready_unblock n t" "run_unblock n t" final_unblock
  for n t
proof unfold_locales
  fix s :: dd and m h xs s' k
  show "ready_unblock n t s m h \<Longrightarrow> dbp (io_in s) + dbsz (io_in s) \<le> length (mem (db (io_in s)) s)"
    by (auto simp: ready_unblock_def rec_inv_def)
  show "ready_unblock n t s m h \<Longrightarrow> 0 < dbsz (io_in s) \<and> 0 < dbsz (io_out s)"
    by (simp add: ready_unblock_def rec_inv_def)
  show "ready_unblock n t s m h \<Longrightarrow> view s' = view s \<Longrightarrow> ready_unblock n t s' m h"
    by (simp add: ready_unblock_def rec_inv_def view_def)
qed (fact ready_unblock_free unblock_step unblock_close_runs)+

end
