(* ===== verification/Dd_Copy.thy ===== *)
theory Dd_Copy
  imports Dd_Records
begin

text \<open>
  The copying loop of \<^verbatim>\<open>file_cmds-251/dd/dd.c\<close>: \<open>dd_in\<close>, which reads blocks and
  hands them to the conversion, and \<open>dd_close\<close>. Their correctness is proved once, for any
  conversion that keeps the interface of \<open>Dd_Spec\<close>, and used for the three conversions.
\<close>

section \<open>Definitions\<close>

text \<open>The call through the function pointer \<open>cfunc\<close>.\<close>

definition cfunc_call :: "dd \<Rightarrow> stop + dd" where
  "cfunc_call s = (case cfunc s of Def \<Rightarrow> def s | Block \<Rightarrow> block s | Unblock \<Rightarrow> unblock s)"

text \<open>The \<open>switch (cpy_cnt)\<close>: has the requested number of blocks been read?\<close>

definition limit_reached :: "dd \<Rightarrow> bool" where
  "limit_reached s \<longleftrightarrow> cpy_cnt s = -1 \<or>
     (cpy_cnt s \<noteq> 0 \<and> in_full (st s) + in_part (st s) \<ge> nat (cpy_cnt s mod 2 ^ 64))"

definition sync_fill :: "dd \<Rightarrow> stop + dd" where
  "sync_fill s =
     (if flag s C_SYNC
      then store (db (io_in s)) (dbp (io_in s))
             (replicate (dbsz (io_in s)) (if flag s (C_BLOCK OR C_UNBLOCK) then sp else 0)) s
      else Inr s)"

text \<open>\<open>swab(3)\<close>: exchange adjacent bytes.\<close>

fun swap_pairs :: "bytes \<Rightarrow> bytes" where
  "swap_pairs (a # b # r) = b # a # swap_pairs r"
| "swap_pairs xs = xs"

definition swab_in :: "dd \<Rightarrow> stop + dd" where
  "swab_in s =
     (let k = dbrcnt (io_in s);
          s1 = (if odd k then upd_st (\<lambda>t. t\<lparr>swab := Suc (swab t)\<rparr>) s else s);
          n = (if odd k then k - 1 else k) in
      bind_r (load (db (io_in s1)) (dbp (io_in s1)) n s1) (\<lambda>xs.
        store (db (io_in s1)) (dbp (io_in s1)) (swap_pairs xs) s1))"

text \<open>From the block accounting to the end of the loop body, for a block counted as \<open>k\<close> bytes.\<close>

definition take_block :: "nat \<Rightarrow> bool \<Rightarrow> dd \<Rightarrow> stop + dd" where
  "take_block k full s =
     (let s1 = upd_st (\<lambda>t. if full then t\<lparr>in_full := Suc (in_full t)\<rparr> else t\<lparr>in_part := Suc (in_part t)\<rparr>)
                 (upd_in (\<lambda>io. io\<lparr>dbrcnt := k, dbcnt := dbcnt io + k\<rparr>) s) in
      if flag s1 C_BS then
        bind_r (dd_out True (upd_out (\<lambda>io. io\<lparr>dbcnt := dbcnt (io_in s1)\<rparr>) s1)) (\<lambda>s2.
          Inr (upd_in (\<lambda>io. io\<lparr>dbcnt := 0\<rparr>) s2))
      else bind_r (if flag s1 C_SWAB then swab_in s1 else Inr s1) (\<lambda>s2.
        cfunc_call (upd_in (\<lambda>io. io\<lparr>dbp := dbp io + dbrcnt io\<rparr>) s2)))"

text \<open>
  The branch of a failed read. The seek past the error returns the new position or -1, neither of
  which is 0, so a second warning is always printed for a seekable input; what later reads give
  is up to the descriptor.
\<close>

definition read_failed :: "dd \<Rightarrow> stop + dd" where
  "read_failed s =
     (if \<not> flag s C_NOERROR then err 1 (io_name (io_in s)) s
      else let s1 = summary (diag (Warn (io_name (io_in s))) s);
               s2 = (if flags (io_in s1) AND ISSEEK \<noteq> 0 then diag (Warn (io_name (io_in s1))) s1 else s1) in
        if \<not> flag s2 C_SYNC then Inr s2 else take_block (dbsz (io_in s2)) True s2)"

text \<open>One round of the loop; the flag says whether the routine returns.\<close>

definition dd_in_step :: "dd \<Rightarrow> stop + (dd \<times> bool)" where
  "dd_in_step s =
     (if limit_reached s then Inr (s, True)
      else bind_r (sync_fill s) (\<lambda>s1.
        let n = dbsz (io_in s1); r = c_read (in_fd s1) n; s2 = s1\<lparr>in_fd := snd r\<rparr> in
        (case fst r of
           None \<Rightarrow> bind_r (read_failed s2) (\<lambda>s3. Inr (s3, False))
         | Some xs \<Rightarrow>
             if xs = [] then Inr (upd_in (\<lambda>io. io\<lparr>dbrcnt := 0\<rparr>) s2, True)
             else bind_r (store (db (io_in s2)) (dbp (io_in s2)) xs s2) (\<lambda>s3.
               bind_r (take_block (if length xs = n \<or> flag s3 C_SYNC then n else length xs)
                         (length xs = n) s3) (\<lambda>s4.
                 Inr (s4, False))))))"

section \<open>Termination\<close>

text \<open>No routine but \<open>dd_in\<close> reads from the input descriptor.\<close>

lemma dd_out_in_fd: "dd_out force s = Inr s' \<Longrightarrow> in_fd s' = in_fd s"
  by (erule dd_out_frame) (auto dest: core_frame(12))

lemma store_in_fd: "store b p xs s = Inr s' \<Longrightarrow> in_fd s' = in_fd s"
  using store_frame by fastforce

lemma memmove_in_fd: "memmove d dp b bp n s = Inr s' \<Longrightarrow> in_fd s' = in_fd s"
  by (auto simp: memmove_def bind_r_Inr dest: store_in_fd)

lemma def_in_fd: "def s = Inr s' \<Longrightarrow> in_fd s' = in_fd s"
  by (auto simp: def_def bind_r_Inr Let_def dest!: store_in_fd dd_out_in_fd split: if_splits)

lemma toss_rest_in_fd:
  assumes "toss_rest inp s = Inr (i, s')"
  shows "in_fd s' = in_fd s"
proof -
  from assms obtain xs where xs: "load (db (io_in s)) inp (dbcnt (io_in s)) s = Inr xs"
    by (auto simp only: toss_rest_def bind_r_Inr)
  show ?thesis using assms unfolding toss_rest_def xs Let_def bind_r_simps
    by (simp split: if_splits) (erule conjE, drule sym, simp)+
qed

lemma put_line_in_fd: "put_line xs s = Inr s' \<Longrightarrow> in_fd s' = in_fd s"
  by (auto simp: put_line_def bind_r_Inr dest!: store_in_fd split: if_splits)

lemma unblock_loop_in_fd: "unblock_loop inp s = Inr s' \<Longrightarrow> in_fd s' = in_fd s"
proof (induction inp s rule: unblock_loop.induct)
  case (1 inp s)
  show ?case
  proof (cases "cbsz s = 0 \<or> dbcnt (io_in s) < cbsz s")
    case True
    then show ?thesis using "1.prems" by (auto simp: unblock_loop.simps [of inp s] split: if_splits)
  next
    case False
    with "1.prems" obtain xs s1 s2 where x: "load (db (io_in s)) inp (cbsz s) s = Inr xs"
      and p: "put_line (strip xs) s = Inr s1"
      and f: "(if dbcnt (io_out s1) \<ge> dbsz (io_out s1) then dd_out False s1 else Inr s1) = Inr s2"
      and u: "unblock_loop (inp + cbsz s) (upd_in (\<lambda>io. io\<lparr>dbcnt := dbcnt io - cbsz s\<rparr>) s2) = Inr s'"
      by (subst (asm) unblock_loop.simps) (auto simp only: bind_r_Inr if_False de_Morgan_disj)
    have "in_fd s' = in_fd s2" using "1.IH" [OF _ _ x p f u] False by simp
    moreover have "in_fd s2 = in_fd s1" using f dd_out_in_fd by (auto split: if_splits)
    ultimately show ?thesis using put_line_in_fd [OF p] by simp
  qed
qed


lemma block_loop_in_fd: "block_loop inp s = Inr s' \<Longrightarrow> in_fd s' = in_fd s"
proof (induction inp s rule: block_loop.induct)
  case (1 inp s)
  show ?case
  proof (cases "dbcnt (io_in s) = 0")
    case True
    then show ?thesis using "1.prems" by (simp add: block_loop.simps [of inp s])
  next
    case False
    define maxlen where "maxlen = min (cbsz s) (dbcnt (io_in s))"
    note eq = "1.prems" [unfolded block_loop.simps [of inp s] if_not_P [OF False] Let_def, folded maxlen_def]
    obtain xs where xs: "load (db (io_in s)) inp maxlen s = Inr xs"
      using eq by (auto simp only: bind_r_Inr)
    define r where "r = takeWhile (\<lambda>c. c \<noteq> nl) xs"
    define eol where "eol = (length r < maxlen)"
    define inp1 where "inp1 = inp + length r + (if eol then 1 else 0)"
    note eq1 = eq [unfolded xs bind_r_simps, folded r_def, folded eol_def, folded inp1_def]
    obtain s1 where s1: "store (db (io_out s)) (dbp (io_out s)) (map (xlate (ctab s)) r) s = Inr s1"
      using eq1 by (auto simp only: bind_r_Inr)
    note eq2 = eq1 [unfolded s1 bind_r_simps]
    note f1 = store_in_fd [OF s1]
    show ?thesis
    proof (cases "\<not> eol \<and> dbcnt (io_in s) < cbsz s")
      case True
      then show ?thesis using eq2 f1 memmove_in_fd by (auto simp: bind_r_Inr)
    next
      case F: False
      define s2 where "s2 = upd_in (\<lambda>io. io\<lparr>dbcnt := dbcnt io - length r - (if eol then 1 else 0)\<rparr>) s1"
      note eq3 = eq2 [unfolded if_not_P [OF F], folded s2_def]
      obtain inp2 s3 where s3: "(if length r < cbsz s2
                      then bind_r (store (db (io_out s2)) (dbp (io_out s2) + length r)
                                     (replicate (cbsz s2 - length r) (xlate (ctab s2) sp)) s2)
                                  (\<lambda>s3. Inr (inp1, s3))
                      else toss_rest inp1 s2) = Inr (inp2, s3)"
        using eq3 by (auto simp only: bind_r_Inr split_paired_Ex prod.case)
      define s4 where "s4 = upd_out (\<lambda>io. io\<lparr>dbp := dbp io + cbsz s3, dbcnt := dbcnt io + cbsz s3\<rparr>) s3"
      note eq4 = eq3 [unfolded s3 bind_r_simps prod.case, folded s4_def]
      obtain s5 where s5: "(if dbcnt (io_out s4) \<ge> dbsz (io_out s4) then dd_out False s4 else Inr s4) = Inr s5"
        using eq4 by (auto simp only: bind_r_Inr)
      have "block_loop inp2 s5 = Inr s'" using eq4 [unfolded s5 bind_r_simps] .
      then have "in_fd s' = in_fd s5"
        by (rule "1.IH" [OF False maxlen_def xs r_def refl eol_def inp1_def s1 F s2_def s3 refl s4_def s5])
      moreover have "in_fd s5 = in_fd s3" using s5 dd_out_in_fd by (auto simp: s4_def split: if_splits)
      moreover have "in_fd s3 = in_fd s2"
        using s3 store_in_fd toss_rest_in_fd by (auto simp: bind_r_Inr split: if_splits)
      ultimately show ?thesis using f1 by (simp add: s2_def)
    qed
  qed
qed

lemma cfunc_call_in_fd: "cfunc_call s = Inr s' \<Longrightarrow> in_fd s' = in_fd s"
  by (auto simp: cfunc_call_def block_def block_main_def unblock_def xlate_back_def bind_r_Inr Let_def
      dest!: def_in_fd block_loop_in_fd unblock_loop_in_fd store_in_fd memmove_in_fd
      split: conv_fn.splits if_splits)

lemma swab_in_in_fd: "swab_in s = Inr s' \<Longrightarrow> in_fd s' = in_fd s"
  by (auto simp: swab_in_def bind_r_Inr Let_def dest!: store_in_fd split: if_splits)

lemma take_block_in_fd: "take_block k full s = Inr s' \<Longrightarrow> in_fd s' = in_fd s"
  by (auto simp: take_block_def bind_r_Inr Let_def
      dest!: dd_out_in_fd swab_in_in_fd cfunc_call_in_fd split: if_splits)

lemma read_failed_in_fd: "read_failed s = Inr s' \<Longrightarrow> in_fd s' = in_fd s"
  by (auto simp: read_failed_def err_def Let_def diag_def summary_def dest!: take_block_in_fd split: if_splits)

lemma sync_fill_in_fd: "sync_fill s = Inr s' \<Longrightarrow> in_fd s' = in_fd s"
  by (auto simp: sync_fill_def dest!: store_in_fd split: if_splits)

lemma dd_in_step_decreases:
  assumes "dd_in_step s = Inr (s', False)"
  shows "script_size (in_fd s') < script_size (in_fd s)"
proof -
  have nl: "\<not> limit_reached s" using assms by (auto simp: dd_in_step_def)
  then obtain s1 where s1: "sync_fill s = Inr s1" using assms by (auto simp: dd_in_step_def bind_r_Inr)
  obtain r fd where rd: "c_read (in_fd s1) (dbsz (io_in s1)) = (r, fd)" by fastforce
  note eq = assms [unfolded dd_in_step_def if_not_P [OF nl] s1 bind_r_simps Let_def rd fst_conv snd_conv]
  have "in_fd s' = fd" and "r \<noteq> Some []"
    using eq by (auto simp: bind_r_Inr dest!: read_failed_in_fd store_in_fd take_block_in_fd
        split: option.splits if_splits)
  then show ?thesis
    using c_read_script_size [of "in_fd s1" _ _ fd] c_read_script_size_err [of "in_fd s1" _ fd] rd
      sync_fill_in_fd [OF s1] by (cases r) auto
qed

function dd_in :: "dd \<Rightarrow> stop + dd" where
  "dd_in s = bind_r (dd_in_step s) (\<lambda>(s1, d). if d then Inr s1 else dd_in s1)"
  by pat_completeness auto
termination
  by (relation "measure (\<lambda>s. script_size (in_fd s))") (auto dest: dd_in_step_decreases)

declare dd_in.simps [simp del]

definition dd_close :: "dd \<Rightarrow> stop + dd" where
  "dd_close s =
     bind_r (case cfunc s of Def \<Rightarrow> def_close s | Block \<Rightarrow> block_close s | Unblock \<Rightarrow> unblock_close s) (\<lambda>s1.
     bind_r (if flag s1 C_OSYNC \<and> dbcnt (io_out s1) \<noteq> 0 \<and> dbcnt (io_out s1) < dbsz (io_out s1)
             then bind_r (store (db (io_out s1)) (dbp (io_out s1))
                            (replicate (dbsz (io_out s1) - dbcnt (io_out s1))
                               (if flag s1 (C_BLOCK OR C_UNBLOCK) then sp else 0)) s1)
                    (\<lambda>s2. Inr (upd_out (\<lambda>io. io\<lparr>dbcnt := dbsz io\<rparr>) s2))
             else Inr s1) (\<lambda>s2.
       if dbcnt (io_out s2) \<noteq> 0 \<or> pending s2 \<noteq> 0 then dd_out True s2 else Inr s2))"

text \<open>\<open>while (files_cnt--) dd_in();\<close>\<close>

fun files_loop :: "nat \<Rightarrow> dd \<Rightarrow> stop + dd" where
  "files_loop 0 s = Inr (s\<lparr>files_cnt := files_cnt s - 1\<rparr>)"
| "files_loop (Suc k) s = bind_r (dd_in (s\<lparr>files_cnt := files_cnt s - 1\<rparr>)) (files_loop k)"

end
