(* ===== verification/Dd_Loop.thy ===== *)
theory Dd_Loop
  imports Dd_Copy
begin

text \<open>
  Correctness of the copying loop of \<open>dd\<close> for every conversion that keeps the interface
  \<open>conversion\<close>: the blocks read from the input, filled up and swapped as the options say, are
  run through the machine of the conversion, and what it produces is written.
\<close>

section \<open>The input blocks\<close>

definition fill_char :: "dd \<Rightarrow> u8" where
  "fill_char s = (if flag s (C_BLOCK OR C_UNBLOCK) then sp else 0)"

text \<open>The blocks a descriptor gives to reads of \<open>n\<close> bytes. With a filler, short blocks and
  failed reads give full blocks; without, failed reads give none.\<close>

function blocks :: "nat \<Rightarrow> u8 option \<Rightarrow> instream \<Rightarrow> bytes list" where
  "blocks n f fd =
     (case c_read fd n of
        (None, fd') \<Rightarrow> (case f of None \<Rightarrow> [] | Some c \<Rightarrow> [replicate n c]) @ blocks n f fd'
      | (Some xs, fd') \<Rightarrow>
          if xs = [] then []
          else (case f of None \<Rightarrow> xs | Some c \<Rightarrow> xs @ replicate (n - length xs) c) # blocks n f fd')"
  by pat_completeness auto
termination
  by (relation "measure (\<lambda>(n, f, fd). script_size fd)")
    (auto dest: c_read_script_size [OF sym] c_read_script_size_err [OF sym])

declare blocks.simps [simp del]

definition filler :: "dd \<Rightarrow> u8 option" where
  "filler s = (if flag s C_SYNC then Some (fill_char s) else None)"

definition swapped :: "dd \<Rightarrow> bytes \<Rightarrow> bytes" where
  "swapped s xs = (if flag s C_SWAB then swap_pairs xs else xs)"

definition in_count :: "dd \<Rightarrow> nat" where
  "in_count s = in_full (st s) + in_part (st s)"

text \<open>The blocks \<open>dd_in\<close> takes, up to \<open>count=\<close>.\<close>

definition limited :: "dd \<Rightarrow> bytes list \<Rightarrow> bytes list" where
  "limited s bs =
     (if cpy_cnt s = -1 then [] else if cpy_cnt s = 0 then bs
      else take (nat (cpy_cnt s mod 2 ^ 64) - in_count s) bs)"

definition input_blocks :: "dd \<Rightarrow> bytes list" where
  "input_blocks s = map (swapped s) (limited s (blocks (dbsz (io_in s)) (filler s) (in_fd s)))"

fun run_all :: "('m \<Rightarrow> bytes \<Rightarrow> bytes \<times> 'm) \<Rightarrow> 'm \<Rightarrow> bytes list \<Rightarrow> bytes \<times> 'm" where
  "run_all run m [] = ([], m)"
| "run_all run m (b # bs) =
     (fst (run m b) @ fst (run_all run (snd (run m b)) bs), snd (run_all run (snd (run m b)) bs))"

text \<open>What the whole loop keeps.\<close>

definition config :: "dd \<Rightarrow> _" where
  "config s = (dbsz (io_in s), dbsz (io_out s), flags (io_in s), flags (io_out s), cfunc s, cpy_cnt s,
     ddflags s, files_cnt s)"

lemma config_kept: "kept s' = kept s \<Longrightarrow> config s' = config s"
  by (simp add: kept_def config_def)

section \<open>Swapping bytes\<close>

lemma swap_pairs_length [simp]: "length (swap_pairs xs) = length xs"
  by (induction xs rule: swap_pairs.induct) simp_all

lemma swap_pairs_odd:
  "odd (length xs) \<Longrightarrow> swap_pairs (take (length xs - 1) xs) @ drop (length xs - 1) xs = swap_pairs xs"
proof (induction xs rule: swap_pairs.induct)
  case (1 a b r)
  then show ?case by (cases r) auto
qed simp_all

lemma set_mem_upd_in: "set_mem b m (upd_in f s) = upd_in f (set_mem b m s)"
  by (cases b) (simp_all add: upd_in_def)

lemma set_mem_upd_st: "set_mem b m (upd_st f s) = upd_st f (set_mem b m s)"
  by (cases b) (simp_all add: upd_st_def)

lemma upd_st_upd_in: "upd_st f (upd_in g s) = upd_in g (upd_st f s)"
  by (simp add: upd_st_def upd_in_def)

lemma upd_in_upd_in [simp]: "upd_in f (upd_in g s) = upd_in (\<lambda>io. f (g io)) s"
  by (simp add: upd_in_def)

lemma upd_st_upd_st [simp]: "upd_st f (upd_st g s) = upd_st (\<lambda>t. f (g t)) s"
  by (simp add: upd_st_def)

lemma view_upd_st [simp]: "view (upd_st f s) = view s"
  by (simp add: view_def)

lemma upd_st_id: "upd_st (\<lambda>t. t) s = s"
  by (simp add: upd_st_def)

lemma store_elsewhere:
  assumes "store b p xs s = Inr (set_mem b m s)" "mem b s' = mem b s"
  shows "store b p xs s' = Inr (set_mem b m s')"
proof -
  from assms(1) obtain m' where "poke (mem b s) p xs = Some m'" "set_mem b m' s = set_mem b m s"
    by (auto simp: store_def bind_r_Inr of_opt_def split: option.splits)
  then have "poke (mem b s) p xs = Some m" by (metis set_mem_simps(7))
  then show ?thesis using assms(2) by (simp add: store_def)
qed

text \<open>Swapping the bytes that have just been read.\<close>

lemma swab_in_runs:
  assumes "load (db (io_in s)) (dbp (io_in s)) k s = Inr xs"
  shows "\<exists>m f. swab_in (upd_in (\<lambda>io. io\<lparr>dbrcnt := k, dbcnt := dbcnt io + k\<rparr>) s) =
      Inr (upd_in (\<lambda>io. io\<lparr>dbrcnt := k, dbcnt := dbcnt io + k\<rparr>) (upd_st f (set_mem (db (io_in s)) m s))) \<and>
    store (db (io_in s)) (dbp (io_in s)) (swap_pairs xs) s = Inr (set_mem (db (io_in s)) m s) \<and>
    (\<forall>t. in_full (f t) = in_full t \<and> in_part (f t) = in_part t \<and> bytes_out (f t) = bytes_out t)"
proof -
  let ?b = "db (io_in s)" and ?p = "dbp (io_in s)" and ?n = "if odd k then k - 1 else k"
  let ?f = "\<lambda>t. if odd k then t\<lparr>swab := Suc (swab t)\<rparr> else t"
  let ?s0 = "upd_in (\<lambda>io. io\<lparr>dbrcnt := k, dbcnt := dbcnt io + k\<rparr>) s"
  have lx: "length xs = k" and fit: "?p + k \<le> length (mem ?b s)" and xd: "xs = take k (drop ?p (mem ?b s))"
    using load_length [OF assms] assms by (auto simp: load_Inr)
  let ?m = "take ?p (mem ?b s) @ swap_pairs xs @ drop (?p + k) (mem ?b s)"
  have st: "store ?b ?p (swap_pairs xs) s = Inr (set_mem ?b ?m s)"
    using fit lx by (subst store_within) simp_all
  have ln: "load ?b ?p ?n s = Inr (take ?n xs)" using load_split(1) [OF assms, of ?n] by auto
  have sw: "store ?b ?p (swap_pairs (take ?n xs)) s = Inr (set_mem ?b ?m s)"
  proof (cases "odd k")
    case True
    obtain j where j: "k = Suc j" using True by (cases k) auto
    have "drop ?p (mem ?b s) = xs @ drop (?p + k) (mem ?b s)"
      using append_take_drop_id [of k "drop ?p (mem ?b s)"] by (simp add: xd add.commute)
    then have "drop j (drop ?p (mem ?b s)) = drop j xs @ drop (?p + k) (mem ?b s)"
      using lx j by simp
    then have d: "drop (?p + j) (mem ?b s) = drop j xs @ drop (?p + k) (mem ?b s)"
      by (simp add: add.commute)
    have "swap_pairs (take j xs) @ drop j xs = swap_pairs xs" using swap_pairs_odd [of xs] lx j True by simp
    then have "swap_pairs (take j xs) @ drop (?p + j) (mem ?b s) = swap_pairs xs @ drop (?p + k) (mem ?b s)"
      using d by (metis append_assoc)
    moreover have "length (swap_pairs (take j xs)) = j" using lx j by simp
    ultimately show ?thesis using True fit j by (subst store_within) simp_all
  qed (use st lx in simp)
  have "store ?b ?p (swap_pairs (take ?n xs)) (upd_st ?f ?s0) = Inr (set_mem ?b ?m (upd_st ?f ?s0))"
    by (rule store_elsewhere [OF sw]) simp
  then have "swab_in ?s0 = Inr (set_mem ?b ?m (upd_st ?f ?s0))"
    using ln by (cases "odd k") (simp_all add: swab_in_def Let_def upd_st_id)
  also have "set_mem ?b ?m (upd_st ?f ?s0) =
      upd_in (\<lambda>io. io\<lparr>dbrcnt := k, dbcnt := dbcnt io + k\<rparr>) (upd_st ?f (set_mem ?b ?m s))"
    by (simp only: upd_st_upd_in set_mem_upd_in set_mem_upd_st)
  finally have "swab_in ?s0 = Inr (upd_in (\<lambda>io. io\<lparr>dbrcnt := k, dbcnt := dbcnt io + k\<rparr>)
      (upd_st ?f (set_mem ?b ?m s)))" .
  then show ?thesis using st by (intro exI [of _ ?m] exI [of _ ?f]) simp
qed


section \<open>The loop\<close>

lemma ok_out_upd_st [simp]: "ok_out (upd_st f s) = ok_out s" "ok_out (set_mem b m s) = ok_out s"
  "ok_out (s\<lparr>in_fd := fd\<rparr>) = ok_out s" "ok_out (upd_in g s) = ok_out s"
  by (simp_all add: ok_out_def)

lemma config_simps [simp]:
  "config (upd_st f s) = config s" "config (set_mem b m s) = config s" "config (s\<lparr>in_fd := fd\<rparr>) = config s"
  "config (diag x s) = config s" "config (summary s) = config s"
  by (simp_all add: config_def diag_def summary_def)

lemma files_cnt_irrelevant [simp]:
  "ok_out (s\<lparr>files_cnt := k\<rparr>) = ok_out s" "view (s\<lparr>files_cnt := k\<rparr>) = view s"
  "emitted xs (s\<lparr>files_cnt := k\<rparr>) s' = emitted xs s s'"
  "emitted xs s (s'\<lparr>files_cnt := k\<rparr>) = emitted xs s s'"
  "delivered h xs h' (s\<lparr>files_cnt := k\<rparr>) s' = delivered h xs h' s s'"
  "input_blocks (s\<lparr>files_cnt := k\<rparr>) = input_blocks s"
  by (simp_all add: ok_out_def view_def emitted_def delivered_def input_blocks_def swapped_def limited_def
      in_count_def filler_def fill_char_def)

lemma load_stored:
  assumes "store b p xs s = Inr s'"
  shows "load b p (length xs) s' = Inr xs"
  using assms by (auto simp: store_def bind_r_Inr poke_def of_opt_def load_Inr split: if_splits)

text \<open>One round takes at most one block.\<close>

definition round_blocks :: "dd \<Rightarrow> bytes option \<Rightarrow> bytes list" where
  "round_blocks s x =
     (case x of
        None \<Rightarrow> (case filler s of None \<Rightarrow> [] | Some c \<Rightarrow> [replicate (dbsz (io_in s)) c])
      | Some xs \<Rightarrow> if xs = [] then []
          else [case filler s of None \<Rightarrow> xs | Some c \<Rightarrow> xs @ replicate (dbsz (io_in s) - length xs) c])"

lemma delivered_idle [simp]:
  "out_fd s' = out_fd s \<Longrightarrow> bytes_out (st s') = bytes_out (st s) \<Longrightarrow> delivered h [] h s s'"
  by (simp add: delivered_def)

text \<open>A chunk stored over the filler.\<close>

lemma store_over:
  assumes "load b p n s = Inr ys" "length xs \<le> n" "store b p xs s = Inr s'"
  shows "load b p n s' = Inr (xs @ drop (length xs) ys)"
proof -
  have fit: "p + n \<le> length (mem b s)" and ys: "ys = take n (drop p (mem b s))"
    using assms(1) by (auto simp: load_Inr)
  have "mem b s' = take p (mem b s) @ xs @ drop (p + length xs) (mem b s)"
    using assms(3) fit assms(2) by (auto simp: store_within)
  moreover have "take (n - length xs) (drop (p + length xs) (mem b s)) = drop (length xs) ys"
    by (simp add: ys drop_take add.commute)
  ultimately show ?thesis using fit assms(2) by (auto simp: load_Inr min_def)
qed

lemma run_all_append:
  "run_all run m (xs @ ys) =
     (fst (run_all run m xs) @ fst (run_all run (snd (run_all run m xs)) ys),
      snd (run_all run (snd (run_all run m xs)) ys))"
  by (induction xs arbitrary: m) simp_all

lemma c_read_rerr:
  "c_read fd n = (x, fd') \<Longrightarrow> Rerr \<notin> set fd \<Longrightarrow> x \<noteq> None \<and> Rerr \<notin> set fd'"
  by (induction fd n rule: c_read.induct) (auto split: if_splits)

lemma input_blocks_round:
  assumes "\<not> limit_reached s" "c_read (in_fd s) (dbsz (io_in s)) = (x, fd)"
    and "config s1 = config s" "in_fd s1 = fd" "in_count s1 = in_count s + length (round_blocks s x)"
  shows "input_blocks s = map (swapped s) (round_blocks s x) @ (if x = Some [] then [] else input_blocks s1)"
proof -
  have c: "dbsz (io_in s1) = dbsz (io_in s)" "cpy_cnt s1 = cpy_cnt s" "ddflags s1 = ddflags s"
    using assms(3) by (simp_all add: config_def)
  have e: "filler s1 = filler s" "swapped s1 = swapped s"
    using c by (simp_all add: filler_def fill_char_def swapped_def fun_eq_iff)
  have "blocks (dbsz (io_in s)) (filler s) (in_fd s) =
      round_blocks s x @ (if x = Some [] then [] else blocks (dbsz (io_in s)) (filler s) fd)"
    using assms(2) by (cases x) (simp_all add: blocks.simps [of _ _ "in_fd s"] round_blocks_def)
  moreover have "limited s (round_blocks s x @ r) = round_blocks s x @ limited s1 r" for r
  proof -
    have "length (round_blocks s x) \<le> 1" by (simp add: round_blocks_def split: option.splits)
    then show ?thesis using assms(1,5) c
      by (auto simp: limited_def limit_reached_def in_count_def)
  qed
  moreover have "limited s1 [] = []" by (simp add: limited_def)
  ultimately show ?thesis using assms(4) c e by (simp add: input_blocks_def)
qed

text \<open>The call \<open>dd_close\<close> makes first.\<close>

definition close_call :: "dd \<Rightarrow> stop + dd" where
  "close_call s = (case cfunc s of Def \<Rightarrow> def_close s | Block \<Rightarrow> block_close s | Unblock \<Rightarrow> unblock_close s)"

text \<open>
  What the loop needs of its body from the accounting on: \<open>guard\<close> picks the options it is for.
\<close>

locale taker =
  fixes guard :: "dd \<Rightarrow> bool"
    and ready :: "dd \<Rightarrow> 'm \<Rightarrow> bytes \<Rightarrow> bool"
    and run :: "'m \<Rightarrow> bytes \<Rightarrow> bytes \<times> 'm"
  assumes guard_config: "config s' = config s \<Longrightarrow> guard s' = guard s"
    and room: "ready s m h \<Longrightarrow> dbp (io_in s) + dbsz (io_in s) \<le> length (mem (db (io_in s)) s)"
    and positive: "ready s m h \<Longrightarrow> 0 < dbsz (io_in s) \<and> 0 < dbsz (io_out s)"
    and view_only: "ready s m h \<Longrightarrow> view s' = view s \<Longrightarrow> ready s' m h"
    and free: "ready s m h \<Longrightarrow> store (db (io_in s)) (dbp (io_in s)) xs s = Inr s' \<Longrightarrow> ready s' m h"
    and takes: "guard s \<Longrightarrow> ready s m h \<Longrightarrow> ok_out s \<Longrightarrow>
      load (db (io_in s)) (dbp (io_in s)) k s = Inr xs \<Longrightarrow> 0 < k \<Longrightarrow> k \<le> dbsz (io_in s) \<Longrightarrow>
      \<exists>s' h'. take_block k full s = Inr s' \<and> ready s' (snd (run m (swapped s xs))) h' \<and> ok_out s' \<and>
        delivered h (fst (run m (swapped s xs))) h' s s' \<and> config s' = config s \<and> in_fd s' = in_fd s \<and>
        in_count s' = Suc (in_count s)"
begin

lemma sync_fill_runs:
  assumes r: "ready s m h"
  obtains M where "sync_fill s = Inr (set_mem (db (io_in s)) M s)" "ready (set_mem (db (io_in s)) M s) m h"
    "flag s C_SYNC \<Longrightarrow> load (db (io_in s)) (dbp (io_in s)) (dbsz (io_in s)) (set_mem (db (io_in s)) M s) =
       Inr (replicate (dbsz (io_in s)) (fill_char s))"
proof (cases "flag s C_SYNC")
  case True
  let ?xs = "replicate (dbsz (io_in s)) (fill_char s)"
  obtain M where st: "store (db (io_in s)) (dbp (io_in s)) ?xs s = Inr (set_mem (db (io_in s)) M s)"
    using room [OF r] store_within [of "dbp (io_in s)" ?xs "db (io_in s)" s] by fastforce
  then show thesis
    using that [of M] free [OF r st] load_stored [OF st] True by (simp add: sync_fill_def fill_char_def)
next
  case False
  then show thesis using that [of "mem (db (io_in s)) s"] r by (simp add: sync_fill_def)
qed

lemma read_failed_runs:
  assumes g: "guard s"
    and r: "ready s m h" and ok: "ok_out s" and nobs: "flag s C_NOERROR"
    and fill: "flag s C_SYNC \<Longrightarrow> load (db (io_in s)) (dbp (io_in s)) (dbsz (io_in s)) s =
       Inr (replicate (dbsz (io_in s)) (fill_char s))"
  shows "\<exists>s' h'. read_failed s = Inr s' \<and>
    ready s' (snd (run_all run m (map (swapped s) (round_blocks s None)))) h' \<and> ok_out s' \<and>
    delivered h (fst (run_all run m (map (swapped s) (round_blocks s None)))) h' s s' \<and>
    config s' = config s \<and> in_fd s' = in_fd s \<and> in_count s' = in_count s + length (round_blocks s None)"
proof -
  let ?s1 = "summary (diag (Warn (io_name (io_in s))) s)"
  define s2 where "s2 = (if flags (io_in ?s1) AND ISSEEK \<noteq> 0 then diag (Warn (io_name (io_in ?s1))) ?s1 else ?s1)"
  have s2: "view s2 = view s" "out_fd s2 = out_fd s" "st s2 = st s" "config s2 = config s"
      "in_fd s2 = in_fd s" "pending s2 = pending s" "ddflags s2 = ddflags s" "io_in s2 = io_in s"
      "io_out s2 = io_out s" "ibuf s2 = ibuf s" "obuf s2 = obuf s" "cfunc s2 = cfunc s"
    by (simp_all add: s2_def view_def config_def summary_def diag_def)
  have eq: "read_failed s = (if \<not> flag s C_SYNC then Inr s2 else take_block (dbsz (io_in s)) True s2)"
    using nobs s2 by (simp add: read_failed_def Let_def s2_def diag_def summary_def)
  have r2: "ready s2 m h" using view_only [OF r s2(1)] .
  have ok2: "ok_out s2" using ok s2 by (simp add: ok_out_def)
  have g2: "guard s2" using g guard_config [OF s2(4)] by simp
  have ml: "mem b s2 = mem b s" for b using s2 by (cases b) simp_all
  show ?thesis
  proof (cases "flag s C_SYNC")
    case False
    then show ?thesis using eq r2 ok2 s2
      by (intro exI [of _ s2] exI [of _ h]) (simp add: round_blocks_def filler_def in_count_def)
  next
    case True
    let ?xs = "replicate (dbsz (io_in s)) (fill_char s)"
    have l2: "load (db (io_in s2)) (dbp (io_in s2)) (dbsz (io_in s)) s2 = Inr ?xs"
      using fill [OF True] s2 ml by (simp add: load_def)
    obtain s' h' where "take_block (dbsz (io_in s)) True s2 = Inr s'" "ready s' (snd (run m (swapped s2 ?xs))) h'"
      "ok_out s'" "delivered h (fst (run m (swapped s2 ?xs))) h' s2 s'" "config s' = config s2"
      "in_fd s' = in_fd s2" "in_count s' = Suc (in_count s2)"
      using takes [OF g2 r2 ok2 l2, of True] positive [OF r] s2 by auto
    moreover have "swapped s2 ?xs = swapped s ?xs" using s2 by (simp add: swapped_def)
    ultimately show ?thesis using eq True s2 delivered_cong(1) [of s2 s]
      by (intro exI [of _ s'] exI [of _ h']) (simp add: round_blocks_def filler_def in_count_def)
  qed
qed


lemma dd_in_round:
  assumes g: "guard s"
    and r: "ready s m h" and ok: "ok_out s" and nobs: "\<not> limit_reached s"
    and rd: "c_read (in_fd s) (dbsz (io_in s)) = (x, fd)" and noerr: "x = None \<Longrightarrow> flag s C_NOERROR"
  shows "\<exists>s' h'. dd_in_step s = Inr (s', x = Some []) \<and>
    ready s' (snd (run_all run m (map (swapped s) (round_blocks s x)))) h' \<and> ok_out s' \<and>
    delivered h (fst (run_all run m (map (swapped s) (round_blocks s x)))) h' s s' \<and>
    config s' = config s \<and> in_fd s' = fd \<and> in_count s' = in_count s + length (round_blocks s x)"
proof -
  let ?n = "dbsz (io_in s)" and ?b = "db (io_in s)" and ?p = "dbp (io_in s)"
  obtain M where M: "sync_fill s = Inr (set_mem ?b M s)" "ready (set_mem ?b M s) m h"
    "flag s C_SYNC \<Longrightarrow> load ?b ?p ?n (set_mem ?b M s) = Inr (replicate ?n (fill_char s))"
    using sync_fill_runs [OF r] by blast
  let ?s2 = "(set_mem ?b M s)\<lparr>in_fd := fd\<rparr>"
  have s2: "io_in ?s2 = io_in s" "ddflags ?s2 = ddflags s" "out_fd ?s2 = out_fd s" "st ?s2 = st s"
    "cfunc ?s2 = cfunc s" "ok_out ?s2" "config ?s2 = config s" "in_count ?s2 = in_count s"
    "swapped ?s2 = swapped s" "filler ?s2 = filler s" "fill_char ?s2 = fill_char s"
    using ok by (simp_all add: in_count_def swapped_def fun_eq_iff filler_def fill_char_def)
  have r2: "ready ?s2 m h" using view_only [OF M(2)] by (simp add: view_def)
  have ld: "load b p k ?s2 = load b p k (set_mem ?b M s)" for b p k by (cases b) (simp_all add: load_def)
  have g2: "guard ?s2" using g guard_config [OF s2(7)] by simp
  have rb: "round_blocks ?s2 = round_blocks s" by (simp only: fun_eq_iff round_blocks_def s2(1,10)) simp
  show ?thesis
  proof (cases x)
    case None
    have "dd_in_step s = bind_r (read_failed ?s2) (\<lambda>s3. Inr (s3, False))"
      using nobs M(1) rd None by (simp add: dd_in_step_def Let_def)
    moreover obtain s' h' where "read_failed ?s2 = Inr s'"
      "ready s' (snd (run_all run m (map (swapped s) (round_blocks s None)))) h'" "ok_out s'"
      "delivered h (fst (run_all run m (map (swapped s) (round_blocks s None)))) h' ?s2 s'"
      "config s' = config ?s2" "in_fd s' = in_fd ?s2" "in_count s' = in_count ?s2 + length (round_blocks s None)"
      using read_failed_runs [OF g2 r2 s2(6)] noerr [OF None] M(3) ld s2 unfolding rb s2(9) by auto
    ultimately show ?thesis using None s2 delivered_cong(1) [of ?s2 s] by auto
  next
    case (Some xs)
    show ?thesis
    proof (cases "xs = []")
      case True
      let ?s' = "upd_in (\<lambda>io. io\<lparr>dbrcnt := 0\<rparr>) ?s2"
      have "dd_in_step s = Inr (?s', True)"
        using nobs M(1) rd Some True by (simp add: dd_in_step_def Let_def)
      moreover have "ready ?s' m h" using view_only [OF r2, of ?s'] by (simp add: view_def)
      moreover have "config ?s' = config s" by (simp add: config_def)
      ultimately show ?thesis using Some True ok
        by (intro exI [of _ ?s'] exI [of _ h]) (simp add: round_blocks_def in_count_def)
    next
      case False
      have le: "length xs \<le> ?n" using c_read_length rd Some by blast
      have "?p + length xs \<le> length (mem ?b ?s2)" using room [OF r2] le s2(1) by simp
      then obtain s3 where st: "store ?b ?p xs ?s2 = Inr s3" and s3: "\<exists>M'. s3 = set_mem ?b M' ?s2"
        using store_within by blast
      let ?k = "if length xs = ?n \<or> flag s C_SYNC then ?n else length xs"
      let ?y = "case filler s of None \<Rightarrow> xs | Some c \<Rightarrow> xs @ replicate (?n - length xs) c"
      have eq: "dd_in_step s = bind_r (take_block ?k (length xs = ?n) s3) (\<lambda>s4. Inr (s4, False))"
        using nobs M(1) rd Some False st s3 by (auto simp: dd_in_step_def Let_def)
      have r3: "ready s3 m h" using free [OF r2] st s2(1) by simp
      have ly: "load ?b ?p ?k s3 = Inr ?y"
      proof (cases "flag s C_SYNC")
        case True
        then have "load ?b ?p ?n ?s2 = Inr (replicate ?n (fill_char s))" using M(3) ld by simp
        from store_over [OF this le st] show ?thesis using True by (simp add: filler_def)
      next
        case False
        then show ?thesis using load_stored [OF st] by (auto simp: filler_def)
      qed
      have f3: "io_in s3 = io_in s" "ddflags s3 = ddflags s" "out_fd s3 = out_fd s" "st s3 = st s"
        "cfunc s3 = cfunc s" "ok_out s3" "config s3 = config s" "in_count s3 = in_count s"
        "swapped s3 = swapped s" "in_fd s3 = fd"
        using s3 s2 by (auto simp: in_count_def swapped_def fun_eq_iff)
      have k: "0 < ?k" "?k \<le> ?n" using False le positive [OF r] by auto
      obtain s' h' where "take_block ?k (length xs = ?n) s3 = Inr s'" "ready s' (snd (run m (swapped s ?y))) h'"
        "ok_out s'" "delivered h (fst (run m (swapped s ?y))) h' s3 s'" "config s' = config s"
        "in_fd s' = fd" "in_count s' = Suc (in_count s)"
        using takes [of s3 m h ?k ?y "length xs = ?n"] g guard_config [OF f3(7)] r3 f3 ly k by auto
      then show ?thesis using eq Some False delivered_cong(1) [of s3 s] f3(3,4)
        by (intro exI [of _ s'] exI [of _ h']) (simp add: round_blocks_def)
    qed
  qed
qed


lemma dd_in_runs:
  assumes "guard s" "ready s m h" "ok_out s"
    and "Rerr \<notin> set (in_fd s) \<or> flag s C_NOERROR"
  shows "\<exists>s' h'. dd_in s = Inr s' \<and> ready s' (snd (run_all run m (input_blocks s))) h' \<and> ok_out s' \<and>
    delivered h (fst (run_all run m (input_blocks s))) h' s s' \<and> config s' = config s"
  using assms
proof (induction "script_size (in_fd s)" arbitrary: s m h rule: less_induct)
  case less
  show ?case
  proof (cases "limit_reached s")
    case True
    then have "input_blocks s = []"
      by (auto simp: limit_reached_def input_blocks_def limited_def in_count_def)
    moreover have "dd_in s = Inr s" using True by (simp add: dd_in.simps [of s] dd_in_step_def)
    ultimately show ?thesis using less.prems(2,3) by auto
  next
    case False
    obtain x fd where rd: "c_read (in_fd s) (dbsz (io_in s)) = (x, fd)" by fastforce
    have ne: "x = None \<Longrightarrow> flag s C_NOERROR" "Rerr \<notin> set fd \<or> flag s C_NOERROR"
      using c_read_rerr [OF rd] less.prems(4) by auto
    let ?b = "map (swapped s) (round_blocks s x)"
    obtain s1 h1 where s1: "dd_in_step s = Inr (s1, x = Some [])" "ready s1 (snd (run_all run m ?b)) h1"
      "ok_out s1" "delivered h (fst (run_all run m ?b)) h1 s s1" "config s1 = config s" "in_fd s1 = fd"
      "in_count s1 = in_count s + length (round_blocks s x)"
      using dd_in_round [OF less.prems(1-3) False rd ne(1)] by blast
    have ib: "input_blocks s = ?b @ (if x = Some [] then [] else input_blocks s1)"
      using input_blocks_round [OF False rd s1(5,6,7)] .
    show ?thesis
    proof (cases "x = Some []")
      case True
      then have "dd_in s = Inr s1" using s1(1) by (simp add: dd_in.simps [of s])
      then show ?thesis using s1 ib True by auto
    next
      case F: False
      have "dd_in s = dd_in s1" using s1(1) F by (simp add: dd_in.simps [of s])
      moreover have "script_size (in_fd s1) < script_size (in_fd s)"
        using dd_in_step_decreases [of s s1] s1(1) F by simp
      moreover have c: "cfunc s1 = cfunc s" "ddflags s1 = ddflags s" using s1(5) by (simp_all add: config_def)
      ultimately obtain s' h' where s': "dd_in s = Inr s'"
        "ready s' (snd (run_all run (snd (run_all run m ?b)) (input_blocks s1))) h'" "ok_out s'"
        "delivered h1 (fst (run_all run (snd (run_all run m ?b)) (input_blocks s1))) h' s1 s'"
        "config s' = config s1"
        using less.hyps [of s1 "snd (run_all run m ?b)" h1] s1(2,3,6) guard_config [OF s1(5)] less.prems(1) ne(2) by auto
      then show ?thesis
        using delivered_trans [OF s1(4) s'(4)] s1(5) F ib by (auto simp: run_all_append)
    qed
  qed
qed

end

context conversion
begin

lemma take_block_runs:
  assumes cf: "\<And>t. cfunc t = cfunc s \<Longrightarrow> cfunc_call t = conv t"
    and r: "ready s m h" and ok: "ok_out s" and nobs: "\<not> flag s C_BS"
    and xs: "load (db (io_in s)) (dbp (io_in s)) k s = Inr xs" and k: "0 < k" "k \<le> dbsz (io_in s)"
  shows "\<exists>s' h'. take_block k full s = Inr s' \<and> ready s' (snd (run m (swapped s xs))) h' \<and> ok_out s' \<and>
    delivered h (fst (run m (swapped s xs))) h' s s' \<and> config s' = config s \<and> in_fd s' = in_fd s \<and>
    in_count s' = Suc (in_count s)"
proof -
  let ?F = "\<lambda>io. io\<lparr>dbrcnt := k, dbcnt := dbcnt io + k\<rparr>"
  let ?g = "\<lambda>t. if full then t\<lparr>in_full := Suc (in_full t)\<rparr> else t\<lparr>in_part := Suc (in_part t)\<rparr>"
  let ?b = "db (io_in s)"
  define s0 where "s0 = upd_st ?g s"
  have r0: "ready s0 m h" using view_only [OF r, of s0] by (simp add: s0_def)
  obtain s2 where s2: "(if flag s0 C_SWAB then swab_in (upd_in ?F s0) else Inr (upd_in ?F s0)) = Inr (upd_in ?F s2)"
    and r2: "ready s2 m h" and l2: "load ?b (dbp (io_in s)) k s2 = Inr (swapped s xs)"
    and f2: "io_in s2 = io_in s" "ok_out s2" "out_fd s2 = out_fd s" "bytes_out (st s2) = bytes_out (st s)"
      "config s2 = config s" "in_fd s2 = in_fd s" "in_count s2 = Suc (in_count s)"
  proof (cases "flag s C_SWAB")
    case False
    show thesis
    proof (rule that [of s0])
      show "load ?b (dbp (io_in s)) k s0 = Inr (swapped s xs)" using xs False by (simp add: s0_def swapped_def)
    qed (use False r0 ok in \<open>simp_all add: s0_def in_count_def\<close>)
  next
    case True
    have l0: "load (db (io_in s0)) (dbp (io_in s0)) k s0 = Inr xs" using xs by (simp add: s0_def)
    obtain M f where w: "swab_in (upd_in ?F s0) = Inr (upd_in ?F (upd_st f (set_mem (db (io_in s0)) M s0)))"
      and st: "store (db (io_in s0)) (dbp (io_in s0)) (swap_pairs xs) s0 = Inr (set_mem (db (io_in s0)) M s0)"
      and f: "\<forall>t. in_full (f t) = in_full t \<and> in_part (f t) = in_part t \<and> bytes_out (f t) = bytes_out t"
      using swab_in_runs [OF l0] by blast
    let ?t = "upd_st f (set_mem (db (io_in s0)) M s0)"
    have "ready (set_mem (db (io_in s0)) M s0) m h" using free [OF r0 st] .
    then have "ready ?t m h" using view_only by fastforce
    moreover have "load ?b (dbp (io_in s)) k ?t = Inr (swapped s xs)"
      using load_stored [OF st] load_length [OF xs] True by (simp add: s0_def swapped_def)
    ultimately show thesis
      using that [of ?t] w True f ok by (simp add: s0_def in_count_def)
  qed
  have "take_block k full s = cfunc_call (arrived k s2)"
    using nobs s2 by (simp add: take_block_def Let_def upd_st_upd_in s0_def arrived_def cong: if_cong)
  also have "\<dots> = conv (arrived k s2)" using f2(5) by (intro cf) (simp add: arrived_def config_def)
  finally have eq: "take_block k full s = conv (arrived k s2)" .
  have l2': "load (db (io_in s2)) (dbp (io_in s2)) k s2 = Inr (swapped s xs)" using l2 f2(1) by simp
  obtain s' h' where s': "conv (arrived k s2) = Inr s'" "ready s' (snd (run m (swapped s xs))) h'" "ok_out s'"
    "delivered h (fst (run m (swapped s xs))) h' s2 s'" "kept s' = kept s2"
    using step [OF r2 f2(2) l2' k(1)] k(2) f2(1) by auto
  have "delivered h (fst (run m (swapped s xs))) h' s s'" using s'(4) delivered_cong(1) [OF f2(3,4)] by simp
  moreover have "in_fd s' = in_fd s" "in_count s' = Suc (in_count s)"
    using s'(5) f2 by (simp_all add: kept_def in_count_def)
  ultimately show ?thesis using eq s' config_kept [OF s'(5)] f2(5) by auto
qed

lemma dd_close_runs:
  assumes cl: "close_call s = close s"
    and r: "ready s m h" and ok: "ok_out s" and no: "\<not> flag s C_OSYNC"
  shows "\<exists>s'. dd_close s = Inr s' \<and> emitted (h @ final m) s s'"
proof -
  obtain s1 where s1: "close s = Inr s1" "ok_out s1" "dbcnt (io_out s1) = length (h @ final m)"
    "load (db (io_out s1)) 0 (dbcnt (io_out s1)) s1 = Inr (h @ final m)" "delivered [] [] [] s s1"
    "kept s1 = kept s"
    using finish [OF r ok] by blast
  have e1: "emitted [] s s1" using s1(5) by (auto simp: delivered_def)
  have fl: "ddflags s1 = ddflags s" "0 < dbsz (io_out s1)"
    using s1(6) positive [OF r] by (simp_all add: kept_def)
  have p: "pending s1 = 0" using s1(2) by (simp add: ok_out_def)
  have eq: "dd_close s = (if dbcnt (io_out s1) \<noteq> 0 then dd_out True s1 else Inr s1)"
    using no fl p cl s1(1) by (simp add: dd_close_def close_call_def)
  show ?thesis
  proof (cases "dbcnt (io_out s1) = 0")
    case True
    then show ?thesis using eq s1(3) e1 by simp
  next
    case False
    then show ?thesis
      using dd_out_forced [OF s1(2,4) fl(2)] emitted_append [OF e1] eq by fastforce
  qed
qed

end

context osync_conversion
begin

lemma dd_close_pads:
  assumes cl: "close_call s = close s"
    and r: "ready s m h" and ok: "ok_out s" and os: "flag s C_OSYNC"
  shows "\<exists>s'. dd_close s = Inr s' \<and>
    emitted (h @ final m @ (if h @ final m = [] then []
       else replicate (dbsz (io_out s) - length (h @ final m)) (fill_char s))) s s'"
proof -
  obtain s1 where s1: "close s = Inr s1" "ok_out s1" "dbcnt (io_out s1) = length (h @ final m)"
    "load (db (io_out s1)) 0 (dbcnt (io_out s1)) s1 = Inr (h @ final m)" "delivered [] [] [] s s1"
    "kept s1 = kept s"
    using finish [OF r ok] by blast
  let ?D = "h @ final m" and ?n = "dbsz (io_out s)"
  have e1: "emitted [] s s1" using s1(5) by (auto simp: delivered_def)
  have fl: "ddflags s1 = ddflags s" "0 < dbsz (io_out s1)" "dbsz (io_out s1) = ?n"
    using s1(6) positive [OF r] by (simp_all add: kept_def)
  have p: "pending s1 = 0" using s1(2) by (simp add: ok_out_def)
  have at: "dbp (io_out s1) = length ?D" "?n \<le> length (mem (db (io_out s1)) s1)"
    using at_end [OF r s1(1)] s1(3) fl(3) by simp_all
  show ?thesis
  proof (cases "?D \<noteq> [] \<and> length ?D < ?n")
    case False
    then have eq: "dd_close s = (if dbcnt (io_out s1) \<noteq> 0 then dd_out True s1 else Inr s1)"
      using fl p cl s1(1,3) by (auto simp: dd_close_def close_call_def)
    show ?thesis
    proof (cases "?D = []")
      case True
      then show ?thesis using eq s1(3) e1 by simp
    next
      case F: False
      then have "replicate (?n - length ?D) (fill_char s) = []" using False by simp
      moreover have "0 < dbcnt (io_out s1)" using s1(3) F by simp
      ultimately show ?thesis
        using dd_out_forced [OF s1(2,4) fl(2)] emitted_append [OF e1] eq F by fastforce
    qed
  next
    case True
    let ?z = "replicate (?n - length ?D) (fill_char s)"
    obtain M where st: "store (db (io_out s1)) (length ?D) ?z s1 = Inr (set_mem (db (io_out s1)) M s1)"
      and M: "M = take (length ?D) (mem (db (io_out s1)) s1) @ ?z @ drop (length ?D + length ?z) (mem (db (io_out s1)) s1)"
      using store_within [of "length ?D" ?z "db (io_out s1)" s1] at(2) True by auto
    let ?s2 = "upd_out (\<lambda>io. io\<lparr>dbcnt := dbsz io\<rparr>) (set_mem (db (io_out s1)) M s1)"
    have eq: "dd_close s = dd_out True ?s2"
      using True os fl p cl s1(1,3) st at(1) fl(2) by (auto simp: dd_close_def close_call_def fill_char_def)
    have tD: "take (length ?D) (mem (db (io_out s1)) s1) = ?D" using s1(3,4) by (auto simp: load_Inr)
    have "length (?D @ ?z) = ?n" using True by simp
    then have "take ?n ((?D @ ?z) @ r) = ?D @ ?z" for r by (metis append_eq_conv_conj)
    then have "take ?n M = ?D @ ?z" unfolding M tD by (simp only: append_assoc)
    moreover have "?n \<le> length M" using True at(2) by (simp add: M tD)
    ultimately have "load (db (io_out ?s2)) 0 (dbcnt (io_out ?s2)) ?s2 = Inr (?D @ ?z)"
      using fl(3) by (simp add: load_Inr)
    moreover have "ok_out ?s2" using s1(2) by (simp add: ok_out_upd)
    ultimately obtain s' where "dd_close s = Inr s'" "emitted (?D @ ?z) ?s2 s'"
      using dd_out_forced [of ?s2 "?D @ ?z"] fl eq by auto
    moreover have "emitted (?D @ ?z) s1 s' = emitted (?D @ ?z) ?s2 s'" by (rule emitted_cong) simp_all
    ultimately show ?thesis using emitted_append [OF e1, of "?D @ ?z" s'] True by auto
  qed
qed

end

text \<open>A conversion that \<open>cfunc\<close> selects gives the loop what it needs.\<close>

locale dispatched = conversion conv close ready run final
  for conv close and ready :: "dd \<Rightarrow> 'm \<Rightarrow> bytes \<Rightarrow> bool" and run final +
  fixes fn :: conv_fn
  assumes call: "cfunc s = fn \<Longrightarrow> cfunc_call s = conv s \<and> close_call s = close s"

sublocale dispatched \<subseteq> taker "\<lambda>s. cfunc s = fn \<and> \<not> flag s C_BS" ready run
proof unfold_locales
  fix s s' :: dd
  show "config s' = config s \<Longrightarrow> (cfunc s' = fn \<and> \<not> flag s' C_BS) = (cfunc s = fn \<and> \<not> flag s C_BS)"
    by (simp add: config_def)
next
  fix s m h k xs full
  assume "cfunc s = fn \<and> \<not> flag s C_BS" "ready s m h" "ok_out s"
    "load (db (io_in s)) (dbp (io_in s)) k s = Inr xs" "0 < k" "k \<le> dbsz (io_in s)"
  then show "\<exists>s' h'. take_block k full s = Inr s' \<and> ready s' (snd (run m (swapped s xs))) h' \<and> ok_out s' \<and>
        delivered h (fst (run m (swapped s xs))) h' s s' \<and> config s' = config s \<and> in_fd s' = in_fd s \<and>
        in_count s' = Suc (in_count s)"
    using call by (intro take_block_runs) simp_all
qed (fact room positive view_only free)+

context dispatched
begin

text \<open>Reading one file and closing: everything the machine produces is written, and nothing else.\<close>

lemma copy_runs:
  assumes "cfunc s = fn" "ready s m []" "ok_out s" "\<not> flag s C_BS" "\<not> flag s C_OSYNC"
    and "Rerr \<notin> set (in_fd s) \<or> flag s C_NOERROR"
  shows "\<exists>s'. bind_r (files_loop (Suc 0) s) dd_close = Inr s' \<and>
    emitted (fst (run_all run m (input_blocks s)) @ final (snd (run_all run m (input_blocks s)))) s s'"
proof -
  let ?s0 = "s\<lparr>files_cnt := files_cnt s - 1\<rparr>"
  have r0: "ready ?s0 m []" using view_only [OF assms(2), of ?s0] by simp
  obtain s1 h where s1: "dd_in ?s0 = Inr s1" "ready s1 (snd (run_all run m (input_blocks s))) h" "ok_out s1"
    "delivered [] (fst (run_all run m (input_blocks s))) h s s1" "config s1 = config ?s0"
    using dd_in_runs [of ?s0 m "[]"] assms r0 by auto
  let ?s2 = "s1\<lparr>files_cnt := files_cnt s1 - 1\<rparr>"
  have r2: "ready ?s2 (snd (run_all run m (input_blocks s))) h" using view_only [OF s1(2), of ?s2] by simp
  have "close_call ?s2 = close ?s2" "\<not> flag ?s2 C_OSYNC"
    using call [of ?s2] s1(5) assms(1,5) by (simp_all add: config_def)
  then obtain s' where s': "dd_close ?s2 = Inr s'" "emitted (h @ final (snd (run_all run m (input_blocks s)))) s1 s'"
    using dd_close_runs [OF _ r2] s1(3) by auto
  obtain W where "emitted W s s1" "fst (run_all run m (input_blocks s)) = W @ h"
    using s1(4) by (auto simp: delivered_def)
  then show ?thesis using s1(1) s' emitted_append by fastforce
qed

end

interpretation plain_copy: dispatched def def_close "ready_def t" "run_def t" "\<lambda>_. []" Def for t
  by unfold_locales (simp add: cfunc_call_def close_call_def)

interpretation block_copy: dispatched block block_close "ready_block n t" "run_block n t" "final_block n t" Block
  for n t
  by unfold_locales (simp add: cfunc_call_def close_call_def)

interpretation unblock_copy: dispatched unblock unblock_close "ready_unblock n t" "run_unblock n t" final_unblock Unblock
  for n t
  by unfold_locales (simp add: cfunc_call_def close_call_def)


section \<open>Unbuffered copies\<close>

text \<open>With \<open>bs=\<close> and no conversion every block is written as it is read.\<close>

definition ready_bs :: "dd \<Rightarrow> unit \<Rightarrow> bytes \<Rightarrow> bool" where
  "ready_bs s m h \<longleftrightarrow>
     db (io_in s) = InBuf \<and> db (io_out s) = InBuf \<and> 0 < dbsz (io_in s) \<and> 0 < dbsz (io_out s) \<and>
     dbsz (io_in s) \<le> length (ibuf s) \<and> dbp (io_in s) = 0 \<and> dbcnt (io_in s) = 0 \<and>
     dbp (io_out s) = 0 \<and> dbcnt (io_out s) = 0 \<and> h = []"

definition run_bs :: "unit \<Rightarrow> bytes \<Rightarrow> bytes \<times> unit" where
  "run_bs m xs = (xs, ())"

lemma take_block_bs:
  assumes g: "flag s C_BS \<and> \<not> flag s C_SWAB" and r: "ready_bs s m h" and ok: "ok_out s"
    and xs: "load (db (io_in s)) (dbp (io_in s)) k s = Inr xs" and k: "0 < k" "k \<le> dbsz (io_in s)"
  shows "\<exists>s' h'. take_block k full s = Inr s' \<and> ready_bs s' (snd (run_bs m (swapped s xs))) h' \<and> ok_out s' \<and>
    delivered h (fst (run_bs m (swapped s xs))) h' s s' \<and> config s' = config s \<and> in_fd s' = in_fd s \<and>
    in_count s' = Suc (in_count s)"
proof -
  let ?g = "\<lambda>t. if full then t\<lparr>in_full := Suc (in_full t)\<rparr> else t\<lparr>in_part := Suc (in_part t)\<rparr>"
  define s1 where "s1 = upd_out (\<lambda>io. io\<lparr>dbcnt := k\<rparr>)
    (upd_st ?g (upd_in (\<lambda>io. io\<lparr>dbrcnt := k, dbcnt := k\<rparr>) s))"
  have s1: "io_out s1 = (io_out s)\<lparr>dbcnt := k\<rparr>" "ok_out s1" "out_fd s1 = out_fd s"
    "bytes_out (st s1) = bytes_out (st s)" "in_count s1 = Suc (in_count s)" "in_fd s1 = in_fd s"
    "ddflags s1 = ddflags s" "config s1 = config s"
    using ok by (simp_all add: s1_def ok_out_upd in_count_def config_def)
  have l1: "load (db (io_out s1)) 0 (dbcnt (io_out s1)) s1 = Inr xs"
    using xs r by (simp add: s1_def ready_bs_def)
  obtain s2 where s2: "dd_out True s1 = Inr s2" "pending s2 = 0" "emitted xs s1 s2"
    and c: "core s2 = core (upd_out (\<lambda>io. io\<lparr>dbcnt := 0, dbp := 0\<rparr>) s1)"
    using dd_out_forced [OF s1(2) l1] r k s1(1) by (auto simp: ready_bs_def)
  let ?s' = "upd_in (\<lambda>io. io\<lparr>dbcnt := 0\<rparr>) s2"
  have f2: "io_in s2 = (io_in s)\<lparr>dbrcnt := k, dbcnt := k\<rparr>" "ibuf s2 = ibuf s" "ddflags s2 = ddflags s"
    "io_out s2 = (io_out s)\<lparr>dbcnt := 0, dbp := 0\<rparr>" "in_fd s2 = in_fd s" "cfunc s2 = cfunc s"
    "cpy_cnt s2 = cpy_cnt s" "files_cnt s2 = files_cnt s"
    using core_frame [OF c] by (simp_all add: s1_def)
  have ic: "in_count s2 = in_count s1" using core_frame(14) [OF c] by (simp add: in_stats_def in_count_def)
  have "upd_in (\<lambda>io. io\<lparr>dbrcnt := k, dbcnt := dbcnt io + k\<rparr>) s = upd_in (\<lambda>io. io\<lparr>dbrcnt := k, dbcnt := k\<rparr>) s"
    using r by (simp add: upd_in_def ready_bs_def)
  then have "take_block k full s = Inr ?s'"
    using g s2(1) by (simp add: take_block_def Let_def s1_def)
  moreover have "ready_bs ?s' () []" using r f2 by (simp add: ready_bs_def)
  moreover have "delivered h (fst (run_bs m (swapped s xs))) [] s ?s'"
    using s2(3) emitted_cong(1) [OF s1(3,4)] r g
    by (simp add: run_bs_def swapped_def delivered_def ready_bs_def emitted_def)
  moreover have "ok_out ?s'"
    using s1(2) s2(2,3) f2 s1(1,7) by (auto simp: ok_out_def emitted_def)
  moreover have "config ?s' = config s" using f2 by (simp add: config_def)
  moreover have "in_count ?s' = Suc (in_count s)" using ic s1(5) by (simp add: in_count_def)
  ultimately show ?thesis using f2(5) by (intro exI [of _ ?s'] exI [of _ "[]"]) simp
qed

interpretation unbuffered: taker "\<lambda>s. flag s C_BS \<and> \<not> flag s C_SWAB" ready_bs run_bs
proof unfold_locales
  fix s s' :: dd and m h xs
  show "config s' = config s \<Longrightarrow> (flag s' C_BS \<and> \<not> flag s' C_SWAB) = (flag s C_BS \<and> \<not> flag s C_SWAB)"
    by (simp add: config_def)
  show "ready_bs s m h \<Longrightarrow> dbp (io_in s) + dbsz (io_in s) \<le> length (mem (db (io_in s)) s)"
    "ready_bs s m h \<Longrightarrow> 0 < dbsz (io_in s) \<and> 0 < dbsz (io_out s)"
    by (simp_all add: ready_bs_def)
  show "ready_bs s m h \<Longrightarrow> view s' = view s \<Longrightarrow> ready_bs s' m h"
    by (simp add: ready_bs_def view_def)
  show "ready_bs s m h \<Longrightarrow> store (db (io_in s)) (dbp (io_in s)) xs s = Inr s' \<Longrightarrow> ready_bs s' m h"
    using store_view [of s xs s'] by (simp add: ready_bs_def)
qed (rule take_block_bs)

lemma unbuffered_copy:
  assumes "flag s C_BS" "\<not> flag s C_SWAB" "ready_bs s () []" "ok_out s" "cfunc s = Def"
    and "Rerr \<notin> set (in_fd s) \<or> flag s C_NOERROR"
  shows "\<exists>s'. bind_r (files_loop (Suc 0) s) dd_close = Inr s' \<and> emitted (concat (input_blocks s)) s s'"
proof -
  let ?s0 = "s\<lparr>files_cnt := files_cnt s - 1\<rparr>"
  have r0: "ready_bs ?s0 () []" using assms(3) by (simp add: ready_bs_def)
  have run: "fst (run_all run_bs m bs) = concat bs" for m bs
    by (induction bs arbitrary: m) (simp_all add: run_bs_def)
  obtain s1 m h where s1: "dd_in ?s0 = Inr s1" "ready_bs s1 m h" "ok_out s1"
    "delivered [] (concat (input_blocks s)) h s s1" "config s1 = config ?s0"
    using unbuffered.dd_in_runs [of ?s0 "()" "[]"] assms r0 unfolding run by auto
  have h: "h = []" using s1(2) by (simp add: ready_bs_def)
  let ?s2 = "s1\<lparr>files_cnt := files_cnt s1 - 1\<rparr>"
  have "dd_close ?s2 = Inr ?s2"
    using s1(2,3,5) assms(5) by (simp add: dd_close_def def_close_def ready_bs_def ok_out_def config_def)
  then show ?thesis using s1(1,4) h by (simp add: delivered_def)
qed

section \<open>The blocks and the contents\<close>

lemma concat_blocks:
  assumes "0 < n" "contents fd = Some d"
  shows "concat (blocks n None fd) = d"
  using assms
proof (induction n "None :: u8 option" fd arbitrary: d rule: blocks.induct)
  case (1 n fd)
  obtain x fd' where rd: "c_read fd n = (x, fd')" by fastforce
  note c = c_read_contents [OF "1.prems"(1), of fd] "1.prems"(2)
  show ?case
  proof (cases x)
    case None
    then show ?thesis using c rd by simp
  next
    case (Some xs)
    show ?thesis
    proof (cases "xs = []")
      case True
      then show ?thesis using c rd Some by (simp add: blocks.simps [of _ _ fd])
    next
      case False
      then obtain d' where "contents fd' = Some d'" "d = xs @ d'" using c rd Some by (cases "contents fd'") auto
      then show ?thesis using "1.hyps"(2) [of x fd' xs] rd Some False "1.prems"(1)
        by (simp add: blocks.simps [of _ _ fd])
    qed
  qed
qed

end
