(* ===== verification/Dd_Args.thy ===== *)
theory Dd_Args
  imports Dd_State Dd_Tables
begin

text \<open>
  The operands of \<open>dd\<close> (\<^verbatim>\<open>file_cmds-251/dd/args.c\<close>): \<open>jcl\<close>, the handlers of its
  operand table, \<open>f_conv\<close> with its conversion table, and \<open>get_num\<close>. Sizes are those of
  the 32-bit targets the application was built for: \<open>SSIZE_MAX\<close> is $2^{31}-1$, a
  \<open>quad_t\<close> has 64 bits.
\<close>

section \<open>Numbers\<close>

abbreviation SSIZE_MAX :: int where "SSIZE_MAX \<equiv> 2 ^ 31 - 1"
abbreviation QUAD_MAX :: int where "QUAD_MAX \<equiv> 2 ^ 63 - 1"
abbreviation QUAD_MIN :: int where "QUAD_MIN \<equiv> - (2 ^ 63)"

text \<open>A result of 64-bit arithmetic, wrapped around as the machine does.\<close>

definition wrap64 :: "int \<Rightarrow> int" where
  "wrap64 x = (x + 2 ^ 63) mod 2 ^ 64 - 2 ^ 63"

text \<open>\<open>strtoq(s, &expr, 0)\<close>: the value, the unread rest, and whether it set \<open>errno\<close>
  to \<open>ERANGE\<close>.\<close>

definition strtoq :: "string \<Rightarrow> int \<times> string \<times> bool" where
  "strtoq = strto QUAD_MIN QUAD_MAX"

text \<open>The first \<open>switch\<close> of \<open>get_num\<close>: the multiplier a suffix stands for.\<close>

definition multiplier :: "string \<Rightarrow> int option" where
  "multiplier expr =
     (case expr of
        [] \<Rightarrow> None
      | c # _ \<Rightarrow>
          if c = CHR ''b'' then Some 512
          else if c = CHR ''k'' then Some (2 ^ 10)
          else if c = CHR ''m'' then Some (2 ^ 20)
          else if c = CHR ''g'' then Some (2 ^ 30)
          else if c = CHR ''w'' then Some 4
          else None)"

lemma strtoq_rest: "fst (snd (strtoq s)) = s \<or> length (fst (snd (strtoq s))) < length s"
  unfolding strtoq_def by (rule strto_rest)

function get_num :: "string \<Rightarrow> string \<Rightarrow> dd \<Rightarrow> stop + int" where
  "get_num oper val s =
     (let r = strtoq val; num = fst r; expr = fst (snd r) in
      if snd (snd r) then err 1 oper s
      else if expr = val then errx 1 (oper @ '': illegal numeric value'') s
      else let num1 = (case multiplier expr of None \<Rightarrow> num | Some k \<Rightarrow> wrap64 (num * k));
               expr1 = (case multiplier expr of None \<Rightarrow> expr | Some k \<Rightarrow> tl expr) in
        if multiplier expr \<noteq> None \<and> num > num1 then errx 1 (oper @ '': Result too large'') s
        else (case expr1 of
            [] \<Rightarrow> Inr num1
          | c # rest \<Rightarrow>
              if c = CHR ''*'' \<or> c = CHR ''x'' then
                bind_r (get_num oper rest s) (\<lambda>k.
                  let num2 = wrap64 (num1 * k) in
                  if num1 \<le> num2 then Inr num2 else errx 1 (oper @ '': Result too large'') s)
              else errx 1 (oper @ '': illegal numeric value'') s))"
  by pat_completeness auto
termination
proof (relation "measure (\<lambda>(oper, val, s). length val)", goal_cases)
  case (2 oper val s r num expr num1 expr1 c rest)
  have "length expr < length val" using strtoq_rest [of val] 2 by auto
  moreover have "length expr1 \<le> length expr" using 2(7) by (cases "multiplier expr") auto
  moreover have "length expr1 = Suc (length rest)" using 2 by (metis length_Cons)
  ultimately show ?case by simp
qed simp

declare get_num.simps [simp del]

definition get_offset :: "string \<Rightarrow> string \<Rightarrow> dd \<Rightarrow> stop + int" where
  "get_offset oper val s =
     bind_r (get_num oper val s) (\<lambda>num.
       if num > QUAD_MAX then errx 1 (oper @ '': illegal offset'') s else Inr num)"

section \<open>The operand handlers\<close>

definition f_bs :: "string \<Rightarrow> string \<Rightarrow> dd \<Rightarrow> stop + dd" where
  "f_bs oper arg s =
     bind_r (get_num oper arg s) (\<lambda>res.
       if res < 1 \<or> res > SSIZE_MAX then errx 1 ''bs must be between 1 and 2147483647'' s
       else Inr (upd_in (\<lambda>io. io\<lparr>dbsz := nat res\<rparr>) (upd_out (\<lambda>io. io\<lparr>dbsz := nat res\<rparr>) s)))"

definition f_cbs :: "string \<Rightarrow> string \<Rightarrow> dd \<Rightarrow> stop + dd" where
  "f_cbs oper arg s =
     bind_r (get_num oper arg s) (\<lambda>res.
       if res < 1 \<or> res > SSIZE_MAX then errx 1 ''cbs must be between 1 and 2147483647'' s
       else Inr (s\<lparr>cbsz := nat res\<rparr>))"

definition f_count :: "string \<Rightarrow> string \<Rightarrow> dd \<Rightarrow> stop + dd" where
  "f_count oper arg s =
     bind_r (get_num oper arg s) (\<lambda>res.
       if res < 0 then errx 1 ''count cannot be negative'' s
       else if res = 0 then Inr (s\<lparr>cpy_cnt := -1\<rparr>) else Inr (s\<lparr>cpy_cnt := res\<rparr>))"

definition f_files :: "string \<Rightarrow> string \<Rightarrow> dd \<Rightarrow> stop + dd" where
  "f_files oper arg s =
     bind_r (get_num oper arg s) (\<lambda>res.
       if res < 1 then errx 1 ''files must be between 1 and 9223372036854775807'' s
       else Inr (s\<lparr>files_cnt := res\<rparr>))"

definition f_ibs :: "string \<Rightarrow> string \<Rightarrow> dd \<Rightarrow> stop + dd" where
  "f_ibs oper arg s =
     (if flag s C_BS then Inr s
      else bind_r (get_num oper arg s) (\<lambda>res.
        if res < 1 \<or> res > SSIZE_MAX then errx 1 ''ibs must be between 1 and 2147483647'' s
        else Inr (upd_in (\<lambda>io. io\<lparr>dbsz := nat res\<rparr>) s)))"

definition f_if :: "string \<Rightarrow> string \<Rightarrow> dd \<Rightarrow> stop + dd" where
  "f_if oper arg s = Inr (upd_in (\<lambda>io. io\<lparr>name := Some arg\<rparr>) s)"

definition f_obs :: "string \<Rightarrow> string \<Rightarrow> dd \<Rightarrow> stop + dd" where
  "f_obs oper arg s =
     (if flag s C_BS then Inr s
      else bind_r (get_num oper arg s) (\<lambda>res.
        if res < 1 \<or> res > SSIZE_MAX then errx 1 ''obs must be between 1 and 2147483647'' s
        else Inr (upd_out (\<lambda>io. io\<lparr>dbsz := nat res\<rparr>) s)))"

definition f_of :: "string \<Rightarrow> string \<Rightarrow> dd \<Rightarrow> stop + dd" where
  "f_of oper arg s = Inr (upd_out (\<lambda>io. io\<lparr>name := Some arg\<rparr>) s)"

definition f_seek :: "string \<Rightarrow> string \<Rightarrow> dd \<Rightarrow> stop + dd" where
  "f_seek oper arg s =
     bind_r (get_offset oper arg s) (\<lambda>n. Inr (upd_out (\<lambda>io. io\<lparr>offset := n\<rparr>) s))"

definition f_skip :: "string \<Rightarrow> string \<Rightarrow> dd \<Rightarrow> stop + dd" where
  "f_skip oper arg s =
     bind_r (get_offset oper arg s) (\<lambda>n. Inr (upd_in (\<lambda>io. io\<lparr>offset := n\<rparr>) s))"

section \<open>Conversions\<close>

record conv =
  conv_name :: string
  conv_set :: u32
  conv_noset :: u32
  conv_tab :: "bytes option"

definition clist :: "conv list" where
  "clist = [
     \<lparr>conv_name = ''ascii'', conv_set = C_ASCII, conv_noset = C_EBCDIC, conv_tab = Some e2a_POSIX\<rparr>,
     \<lparr>conv_name = ''block'', conv_set = C_BLOCK, conv_noset = C_UNBLOCK, conv_tab = None\<rparr>,
     \<lparr>conv_name = ''ebcdic'', conv_set = C_EBCDIC, conv_noset = C_ASCII, conv_tab = Some a2e_POSIX\<rparr>,
     \<lparr>conv_name = ''ibm'', conv_set = C_EBCDIC, conv_noset = C_ASCII, conv_tab = Some a2ibm_POSIX\<rparr>,
     \<lparr>conv_name = ''lcase'', conv_set = C_LCASE, conv_noset = C_UCASE, conv_tab = None\<rparr>,
     \<lparr>conv_name = ''noerror'', conv_set = C_NOERROR, conv_noset = 0, conv_tab = None\<rparr>,
     \<lparr>conv_name = ''notrunc'', conv_set = C_NOTRUNC, conv_noset = 0, conv_tab = None\<rparr>,
     \<lparr>conv_name = ''oldascii'', conv_set = C_ASCII, conv_noset = C_EBCDIC, conv_tab = Some e2a_32V\<rparr>,
     \<lparr>conv_name = ''oldebcdic'', conv_set = C_EBCDIC, conv_noset = C_ASCII, conv_tab = Some a2e_32V\<rparr>,
     \<lparr>conv_name = ''oldibm'', conv_set = C_EBCDIC, conv_noset = C_ASCII, conv_tab = Some a2ibm_32V\<rparr>,
     \<lparr>conv_name = ''osync'', conv_set = C_OSYNC, conv_noset = C_BS, conv_tab = None\<rparr>,
     \<lparr>conv_name = ''sparse'', conv_set = C_SPARSE, conv_noset = 0, conv_tab = None\<rparr>,
     \<lparr>conv_name = ''swab'', conv_set = C_SWAB, conv_noset = 0, conv_tab = None\<rparr>,
     \<lparr>conv_name = ''sync'', conv_set = C_SYNC, conv_noset = 0, conv_tab = None\<rparr>,
     \<lparr>conv_name = ''ucase'', conv_set = C_UCASE, conv_noset = C_LCASE, conv_tab = None\<rparr>,
     \<lparr>conv_name = ''unblock'', conv_set = C_UNBLOCK, conv_noset = C_BLOCK, conv_tab = None\<rparr>]"

text \<open>\<open>strsep(&arg, ",")\<close>, until the string is used up.\<close>

fun split_commas :: "string \<Rightarrow> string list" where
  "split_commas [] = [[]]"
| "split_commas (c # cs) =
     (if c = CHR '','' then [] # split_commas cs
      else (c # hd (split_commas cs)) # tl (split_commas cs))"

definition conv_step :: "string \<Rightarrow> dd \<Rightarrow> stop + dd" where
  "conv_step nm s =
     (case bsearch conv_name nm clist of
        None \<Rightarrow> errx 1 (''unknown conversion '' @ nm) s
      | Some cp \<Rightarrow>
          if ddflags s AND conv_noset cp \<noteq> 0 then errx 1 (nm @ '': illegal conversion combination'') s
          else Inr (s\<lparr>ddflags := ddflags s OR conv_set cp,
                     ctab := (case conv_tab cp of None \<Rightarrow> ctab s | Some t \<Rightarrow> Some t)\<rparr>))"

fun f_conv_loop :: "string list \<Rightarrow> dd \<Rightarrow> stop + dd" where
  "f_conv_loop [] s = Inr s"
| "f_conv_loop (nm # r) s = bind_r (conv_step nm s) (f_conv_loop r)"

definition f_conv :: "string \<Rightarrow> string \<Rightarrow> dd \<Rightarrow> stop + dd" where
  "f_conv oper arg s = f_conv_loop (split_commas arg) s"

section \<open>The operand table and jcl\<close>

record arg =
  arg_name :: string
  arg_f :: "string \<Rightarrow> string \<Rightarrow> dd \<Rightarrow> stop + dd"
  arg_set :: u32
  arg_noset :: u32

definition args :: "arg list" where
  "args = [
     \<lparr>arg_name = ''bs'', arg_f = f_bs, arg_set = C_BS, arg_noset = C_BS OR C_OSYNC\<rparr>,
     \<lparr>arg_name = ''cbs'', arg_f = f_cbs, arg_set = C_CBS, arg_noset = C_CBS\<rparr>,
     \<lparr>arg_name = ''conv'', arg_f = f_conv, arg_set = 0, arg_noset = 0\<rparr>,
     \<lparr>arg_name = ''count'', arg_f = f_count, arg_set = C_COUNT, arg_noset = C_COUNT\<rparr>,
     \<lparr>arg_name = ''files'', arg_f = f_files, arg_set = C_FILES, arg_noset = C_FILES\<rparr>,
     \<lparr>arg_name = ''ibs'', arg_f = f_ibs, arg_set = C_IBS, arg_noset = C_IBS\<rparr>,
     \<lparr>arg_name = ''if'', arg_f = f_if, arg_set = C_IF, arg_noset = C_IF\<rparr>,
     \<lparr>arg_name = ''iseek'', arg_f = f_skip, arg_set = C_SKIP, arg_noset = C_SKIP\<rparr>,
     \<lparr>arg_name = ''obs'', arg_f = f_obs, arg_set = C_OBS, arg_noset = C_OBS\<rparr>,
     \<lparr>arg_name = ''of'', arg_f = f_of, arg_set = C_OF, arg_noset = C_OF\<rparr>,
     \<lparr>arg_name = ''oseek'', arg_f = f_seek, arg_set = C_SEEK, arg_noset = C_SEEK\<rparr>,
     \<lparr>arg_name = ''seek'', arg_f = f_seek, arg_set = C_SEEK, arg_noset = C_SEEK\<rparr>,
     \<lparr>arg_name = ''skip'', arg_f = f_skip, arg_set = C_SKIP, arg_noset = C_SKIP\<rparr>]"

text \<open>One operand; \<open>dup_ok\<close> says whether \<open>strdup\<close> gets memory for it.\<close>

definition operand :: "(string \<Rightarrow> bool) \<Rightarrow> string \<Rightarrow> dd \<Rightarrow> stop + dd" where
  "operand dup_ok a s =
     (let oper = takeWhile (\<lambda>c. c \<noteq> CHR ''='') a; rest = dropWhile (\<lambda>c. c \<noteq> CHR ''='') a in
      if \<not> dup_ok a then errx 1 (''unable to allocate space for the argument \"'' @ a @ ''\"'') s
      else if rest = [] then errx 1 (''unknown operand '' @ oper) s
      else if tl rest = [] then errx 1 (''no value specified for '' @ oper) s
      else (case bsearch arg_name oper args of
          None \<Rightarrow> errx 1 (''unknown operand '' @ oper) s
        | Some ap \<Rightarrow>
            if ddflags s AND arg_noset ap \<noteq> 0
            then errx 1 (oper @ '': illegal argument combination or already set'') s
            else arg_f ap oper (tl rest) (s\<lparr>ddflags := ddflags s OR arg_set ap\<rparr>)))"

fun operands :: "(string \<Rightarrow> bool) \<Rightarrow> string list \<Rightarrow> dd \<Rightarrow> stop + dd" where
  "operands dup_ok [] s = Inr s"
| "operands dup_ok (a # r) s = bind_r (operand dup_ok a s) (operands dup_ok r)"

text \<open>The final sanity checks.\<close>

definition bs_checks :: "dd \<Rightarrow> dd" where
  "bs_checks s =
     (if flag s C_BS then
        let s1 = (if flag s (C_BLOCK OR C_LCASE OR C_SWAB OR C_UCASE OR C_UNBLOCK)
                  then s\<lparr>ddflags := ddflags s AND NOT C_BS\<rparr> else s) in
        if flag s1 C_BS \<and> flag s1 (C_IBS OR C_OBS) then diag (Warnx ''bs supersedes ibs and obs'') s1
        else s1
      else s)"

definition cfunc_checks :: "dd \<Rightarrow> stop + dd" where
  "cfunc_checks s =
     (if flag s (C_BLOCK OR C_UNBLOCK) then
        if \<not> flag s C_CBS then errx 1 ''record operations require cbs'' s
        else if cbsz s = 0 then errx 1 ''cbs cannot be zero'' s
        else Inr (s\<lparr>cfunc := if flag s C_BLOCK then Block else Unblock\<rparr>)
      else if flag s C_CBS then
        if flag s (C_ASCII OR C_EBCDIC) then
          if flag s C_ASCII then Inr (s\<lparr>ddflags := ddflags s OR C_UNBLOCK, cfunc := Unblock\<rparr>)
          else Inr (s\<lparr>ddflags := ddflags s OR C_BLOCK, cfunc := Block\<rparr>)
        else errx 1 ''cbs meaningless if not doing record operations'' s
      else Inr (s\<lparr>cfunc := Def\<rparr>))"

definition offset_checks :: "dd \<Rightarrow> stop + dd" where
  "offset_checks s =
     (if offset (io_in s) > QUAD_MAX div int (dbsz (io_in s)) \<or>
         offset (io_out s) > QUAD_MAX div int (dbsz (io_out s))
      then errx 1 ''seek offsets cannot be larger than 9223372036854775807'' s else Inr s)"

definition jcl :: "(string \<Rightarrow> bool) \<Rightarrow> string list \<Rightarrow> dd \<Rightarrow> stop + dd" where
  "jcl dup_ok argv s =
     (let s1 = upd_in (\<lambda>io. io\<lparr>dbsz := 512\<rparr>) (upd_out (\<lambda>io. io\<lparr>dbsz := 512\<rparr>) s);
          ops = (if argv \<noteq> [] \<and> hd argv = ''--'' then tl argv else argv) in
      bind_r (operands dup_ok ops s1) (\<lambda>s2.
        bind_r (cfunc_checks (bs_checks s2)) offset_checks))"


section \<open>The tables are in order\<close>

lemma args_sorted: "name_sorted arg_name args"
  by (simp add: name_sorted_def args_def)

lemma clist_sorted: "name_sorted conv_name clist"
  by (simp add: name_sorted_def clist_def)

lemmas bsearch_args = bsearch_sorted [OF args_sorted]
lemmas bsearch_clist = bsearch_sorted [OF clist_sorted]

section \<open>What jcl establishes\<close>

lemma flag_or: "((d :: u32) OR x) AND m = 0 \<longleftrightarrow> d AND m = 0 \<and> x AND m = 0"
  by (simp add: bit.conj_disj_distrib2 or_eq_0_iff)

lemma flag_sub: "(d :: u32) AND m = 0 \<Longrightarrow> m AND k = k \<Longrightarrow> d AND k = 0"
  by (metis and.assoc bit.conj_zero_left)

definition size_ok :: "nat \<Rightarrow> bool" where
  "size_ok n \<longleftrightarrow> 1 \<le> n \<and> int n \<le> SSIZE_MAX"

definition ops_inv :: "dd \<Rightarrow> bool" where
  "ops_inv s \<longleftrightarrow>
     size_ok (dbsz (io_in s)) \<and> size_ok (dbsz (io_out s)) \<and> (flag s C_CBS \<longrightarrow> size_ok (cbsz s)) \<and>
     \<not> (flag s C_BS \<and> flag s C_OSYNC) \<and> \<not> (flag s C_ASCII \<and> flag s C_EBCDIC) \<and>
     \<not> (flag s C_LCASE \<and> flag s C_UCASE) \<and> \<not> (flag s C_BLOCK \<and> flag s C_UNBLOCK) \<and>
     (flag s C_ASCII \<or> flag s C_EBCDIC \<longleftrightarrow> ctab s \<noteq> None) \<and>
     (\<forall>t. ctab s = Some t \<longrightarrow> length t = 256) \<and> 1 \<le> files_cnt s \<and> -1 \<le> cpy_cnt s"

lemma conv_step_inv: "conv_step nm s = Inr s' \<Longrightarrow> ops_inv s \<Longrightarrow> ops_inv s'"
proof -
  assume c: "conv_step nm s = Inr s'" and i: "ops_inv s"
  then obtain cp where cp: "cp \<in> set clist" "ddflags s AND conv_noset cp = 0"
    "s' = s\<lparr>ddflags := ddflags s OR conv_set cp,
       ctab := (case conv_tab cp of None \<Rightarrow> ctab s | Some t \<Rightarrow> Some t)\<rparr>"
    using bsearch_clist [of nm] by (auto simp: conv_step_def errx_def split: option.splits if_splits)
  show ?thesis
    using cp(1) unfolding clist_def list.set insert_iff empty_iff
    by (elim disjE FalseE) (use cp(2,3) i in \<open>simp add: ops_inv_def flag_or\<close>)+
qed


lemma f_conv_inv: "f_conv_loop l s = Inr s' \<Longrightarrow> ops_inv s \<Longrightarrow> ops_inv s'"
  by (induction l arbitrary: s) (auto simp: bind_r_Inr dest: conv_step_inv)

lemma size_ok_nat: "\<not> (res < 1 \<or> res > SSIZE_MAX) \<Longrightarrow> size_ok (nat res)"
  by (simp add: size_ok_def nat_le_iff) linarith

text \<open>What every handler but \<open>f_conv\<close> keeps.\<close>

definition keeps :: "dd \<Rightarrow> dd \<Rightarrow> bool" where
  "keeps s s' \<longleftrightarrow> ddflags s' = ddflags s \<and> ctab s' = ctab s \<and>
     (dbsz (io_in s') = dbsz (io_in s) \<or> size_ok (dbsz (io_in s'))) \<and>
     (dbsz (io_out s') = dbsz (io_out s) \<or> size_ok (dbsz (io_out s'))) \<and>
     (cbsz s' = cbsz s \<or> size_ok (cbsz s')) \<and>
     (files_cnt s' = files_cnt s \<or> 1 \<le> files_cnt s') \<and> (cpy_cnt s' = cpy_cnt s \<or> -1 \<le> cpy_cnt s')"

lemma handler_keeps:
  "f_bs oper v s = Inr s' \<Longrightarrow> keeps s s'"
  "f_cbs oper v s = Inr s' \<Longrightarrow> keeps s s' \<and> size_ok (cbsz s')"
  "f_count oper v s = Inr s' \<Longrightarrow> keeps s s'"
  "f_files oper v s = Inr s' \<Longrightarrow> keeps s s'"
  "f_ibs oper v s = Inr s' \<Longrightarrow> keeps s s'"
  "f_if oper v s = Inr s' \<Longrightarrow> keeps s s'"
  "f_obs oper v s = Inr s' \<Longrightarrow> keeps s s'"
  "f_of oper v s = Inr s' \<Longrightarrow> keeps s s'"
  "f_seek oper v s = Inr s' \<Longrightarrow> keeps s s'"
  "f_skip oper v s = Inr s' \<Longrightarrow> keeps s s'"
           apply (auto simp: f_bs_def keeps_def bind_r_Inr errx_def upd_in_def upd_out_def
      intro!: size_ok_nat split: if_splits) [1]
          apply (auto simp: f_cbs_def keeps_def bind_r_Inr errx_def intro!: size_ok_nat split: if_splits) [1]
         apply (auto simp: f_count_def keeps_def bind_r_Inr errx_def split: if_splits) [1]
        apply (auto simp: f_files_def keeps_def bind_r_Inr errx_def split: if_splits) [1]
       apply (auto simp: f_ibs_def keeps_def bind_r_Inr errx_def upd_in_def intro!: size_ok_nat split: if_splits) [1]
      apply (auto simp: f_if_def keeps_def upd_in_def) [1]
     apply (auto simp: f_obs_def keeps_def bind_r_Inr errx_def upd_out_def intro!: size_ok_nat split: if_splits) [1]
    apply (auto simp: f_of_def keeps_def upd_out_def) [1]
   apply (auto simp: f_seek_def keeps_def bind_r_Inr upd_out_def) [1]
  apply (auto simp: f_skip_def keeps_def bind_r_Inr upd_in_def) [1]
  done

lemma keeps_inv:
  assumes "ops_inv s" "keeps (s\<lparr>ddflags := ddflags s OR f\<rparr>) s'"
    and "f \<in> {C_COUNT, C_FILES, C_IBS, C_IF, C_SKIP, C_OBS, C_OF, C_SEEK} \<or>
      (f = C_BS \<and> \<not> flag s C_OSYNC) \<or> (f = C_CBS \<and> size_ok (cbsz s'))"
  shows "ops_inv s'"
proof -
  have k: "ddflags s' = ddflags s OR f" "ctab s' = ctab s"
    "size_ok (dbsz (io_in s))  \<Longrightarrow> size_ok (dbsz (io_in s'))" "size_ok (dbsz (io_out s)) \<Longrightarrow> size_ok (dbsz (io_out s'))"
    "size_ok (cbsz s) \<Longrightarrow> size_ok (cbsz s')" "1 \<le> files_cnt s \<Longrightarrow> 1 \<le> files_cnt s'"
    "-1 \<le> cpy_cnt s \<Longrightarrow> -1 \<le> cpy_cnt s'"
    using assms(2) by (auto simp: keeps_def)
  show ?thesis
    using assms(3) unfolding insert_iff empty_iff
    by (elim disjE conjE FalseE) (use assms(1) k in \<open>simp add: ops_inv_def flag_or\<close>)+
qed

lemma operand_inv:
  assumes "operand dup_ok a s = Inr s'" "ops_inv s"
  shows "ops_inv s'"
proof -
  obtain oper v ap where ap: "ap \<in> set args" "ddflags s AND arg_noset ap = 0"
    and f: "arg_f ap oper v (s\<lparr>ddflags := ddflags s OR arg_set ap\<rparr>) = Inr s'"
    using assms(1) bsearch_args [of "takeWhile (\<lambda>c. c \<noteq> CHR ''='') a"]
    by (auto simp: operand_def Let_def errx_def split: if_splits option.splits)
  have bs: "ddflags s AND (C_BS OR C_OSYNC) = 0 \<Longrightarrow> \<not> flag s C_OSYNC"
    using flag_sub [of "ddflags s" "C_BS OR C_OSYNC" C_OSYNC] by simp
  show ?thesis
  proof (cases "arg_f ap = f_conv \<and> arg_set ap = 0")
    case True
    then have "f_conv_loop (split_commas v) s = Inr s'" using f by (simp add: f_conv_def)
    then show ?thesis using f_conv_inv assms(2) by blast
  next
    case False
    have "keeps (s\<lparr>ddflags := ddflags s OR arg_set ap\<rparr>) s' \<and>
      (arg_set ap \<in> {C_COUNT, C_FILES, C_IBS, C_IF, C_SKIP, C_OBS, C_OF, C_SEEK} \<or>
       (arg_set ap = C_BS \<and> \<not> flag s C_OSYNC) \<or> (arg_set ap = C_CBS \<and> size_ok (cbsz s')))"
      using ap(1) unfolding args_def list.set insert_iff empty_iff
      by (elim disjE FalseE) (use False f ap(2) bs in \<open>auto dest: handler_keeps\<close>)+
    then show ?thesis using keeps_inv assms(2) by blast
  qed
qed

lemma operands_inv: "operands dup_ok l s = Inr s' \<Longrightarrow> ops_inv s \<Longrightarrow> ops_inv s'"
  by (induction l arbitrary: s) (auto simp: bind_r_Inr dest: operand_inv)


text \<open>The globals when \<open>main\<close> starts.\<close>

definition io0 :: "buf \<Rightarrow> IO" where
  "io0 b = \<lparr>db = b, dbp = 0, dbcnt = 0, dbrcnt = 0, dbsz = 0, flags = 0, name = None, offset = 0\<rparr>"

definition dd_init :: dd where
  "dd_init = \<lparr>io_in = io0 InBuf, io_out = io0 OutBuf,
     st = \<lparr>in_full = 0, in_part = 0, out_full = 0, out_part = 0, trunc = 0, swab = 0, bytes_out = 0\<rparr>,
     cfunc = Def, cpy_cnt = 0, pending = 0, ddflags = 0, cbsz = 0, files_cnt = 1, ctab = None,
     ibuf = [], obuf = [], intrunc = False, warned = False, in_fd = [],
     out_fd = \<lparr>content = [], pos = 0, can_seek = False, wscript = []\<rparr>, msgs = [], times = []\<rparr>"

definition jcl_wf :: "dd \<Rightarrow> bool" where
  "jcl_wf s \<longleftrightarrow>
     size_ok (dbsz (io_in s)) \<and> size_ok (dbsz (io_out s)) \<and>
     (cfunc s = Block \<longleftrightarrow> flag s C_BLOCK) \<and> (cfunc s = Unblock \<longleftrightarrow> flag s C_UNBLOCK) \<and>
     (cfunc s \<noteq> Def \<longrightarrow> size_ok (cbsz s)) \<and>
     \<not> (flag s C_BS \<and> flag s C_OSYNC) \<and> \<not> (flag s C_ASCII \<and> flag s C_EBCDIC) \<and>
     \<not> (flag s C_LCASE \<and> flag s C_UCASE) \<and>
     (flag s C_ASCII \<or> flag s C_EBCDIC \<longleftrightarrow> ctab s \<noteq> None) \<and>
     (\<forall>t. ctab s = Some t \<longrightarrow> length t = 256) \<and> 1 \<le> files_cnt s \<and> -1 \<le> cpy_cnt s \<and>
     (flag s C_BS \<longrightarrow> \<not> flag s C_SWAB \<and> \<not> flag s C_LCASE \<and> \<not> flag s C_UCASE) \<and>
     offset (io_in s) * int (dbsz (io_in s)) \<le> QUAD_MAX \<and>
     offset (io_out s) * int (dbsz (io_out s)) \<le> QUAD_MAX"

lemma flag_clear: "((d :: u32) AND x) AND m = d AND (x AND m)"
  by (rule and.assoc)

lemma bs_checks_inv:
  assumes "ops_inv s"
  shows "ops_inv (bs_checks s) \<and>
    (flag (bs_checks s) C_BS \<longrightarrow> \<not> flag (bs_checks s) C_SWAB \<and> \<not> flag (bs_checks s) C_LCASE \<and>
       \<not> flag (bs_checks s) C_UCASE \<and> \<not> flag (bs_checks s) C_BLOCK \<and> \<not> flag (bs_checks s) C_UNBLOCK)"
proof (cases "flag s (C_BLOCK OR C_LCASE OR C_SWAB OR C_UCASE OR C_UNBLOCK)")
  case True
  then have "bs_checks s = (if flag s C_BS then s\<lparr>ddflags := ddflags s AND NOT C_BS\<rparr> else s)"
    by (simp add: bs_checks_def Let_def flag_clear)
  then show ?thesis using assms by (cases "flag s C_BS") (simp_all add: ops_inv_def flag_clear)
next
  case False
  then have z: "ddflags s AND (C_BLOCK OR C_LCASE OR C_SWAB OR C_UCASE OR C_UNBLOCK) = 0" by simp
  have "\<not> flag s C_SWAB" "\<not> flag s C_LCASE" "\<not> flag s C_UCASE" "\<not> flag s C_BLOCK" "\<not> flag s C_UNBLOCK"
    using flag_sub [OF z] by simp_all
  moreover have "ddflags (bs_checks s) = ddflags s" "ops_inv (bs_checks s) = ops_inv s"
    using False by (auto simp: bs_checks_def Let_def ops_inv_def diag_def)
  ultimately show ?thesis using assms by simp
qed

lemma cfunc_checks_wf:
  assumes "cfunc_checks s = Inr s'" "ops_inv s"
    and "flag s C_BS \<longrightarrow> \<not> flag s C_SWAB \<and> \<not> flag s C_LCASE \<and> \<not> flag s C_UCASE"
  shows "ops_inv s' \<and> (cfunc s' = Block \<longleftrightarrow> flag s' C_BLOCK) \<and> (cfunc s' = Unblock \<longleftrightarrow> flag s' C_UNBLOCK) \<and>
    (cfunc s' \<noteq> Def \<longrightarrow> size_ok (cbsz s')) \<and>
    (flag s' C_BS \<longrightarrow> \<not> flag s' C_SWAB \<and> \<not> flag s' C_LCASE \<and> \<not> flag s' C_UCASE)"
proof -
  have m: "ddflags s AND (C_BLOCK OR C_UNBLOCK) = 0 \<longleftrightarrow> \<not> flag s C_BLOCK \<and> \<not> flag s C_UNBLOCK"
    "ddflags s AND (C_ASCII OR C_EBCDIC) = 0 \<longleftrightarrow> \<not> flag s C_ASCII \<and> \<not> flag s C_EBCDIC"
    using bit.conj_disj_distrib [of "ddflags s" C_BLOCK C_UNBLOCK]
      bit.conj_disj_distrib [of "ddflags s" C_ASCII C_EBCDIC] by (simp_all add: or_eq_0_iff)
  show ?thesis
    using assms unfolding cfunc_checks_def m
    by (cases "flag s C_BLOCK"; cases "flag s C_UNBLOCK"; cases "flag s C_CBS"; cases "flag s C_ASCII";
        cases "flag s C_EBCDIC"; cases "cbsz s = 0")
      (simp_all add: ops_inv_def errx_def flag_or, (elim conjE, drule sym, simp add: flag_or)+)
qed


lemma offset_checks_ok:
  assumes "offset_checks s = Inr s'" "size_ok (dbsz (io_in s))" "size_ok (dbsz (io_out s))"
  shows "s' = s" "offset (io_in s) * int (dbsz (io_in s)) \<le> QUAD_MAX"
    "offset (io_out s) * int (dbsz (io_out s)) \<le> QUAD_MAX"
proof -
  have le: "\<not> x > QUAD_MAX div int n \<Longrightarrow> size_ok n \<Longrightarrow> x * int n \<le> QUAD_MAX" for x n
  proof -
    assume "\<not> x > QUAD_MAX div int n" "size_ok n"
    then have "x * int n \<le> QUAD_MAX div int n * int n" by (intro mult_right_mono) simp_all
    also have "\<dots> \<le> QUAD_MAX"
      using div_mult_mod_eq [of QUAD_MAX "int n"] pos_mod_sign [of "int n" QUAD_MAX] \<open>size_ok n\<close>
      unfolding size_ok_def by linarith
    finally show ?thesis .
  qed
  show "s' = s" "offset (io_in s) * int (dbsz (io_in s)) \<le> QUAD_MAX"
    "offset (io_out s) * int (dbsz (io_out s)) \<le> QUAD_MAX"
    using assms le [of "dbsz (io_in s)" "offset (io_in s)"] le [of "dbsz (io_out s)" "offset (io_out s)"]
    by (simp_all add: offset_checks_def errx_def split: if_splits)
qed

lemma jcl_wf_jcl:
  assumes "jcl dup_ok argv (dd_init\<lparr>times := tm\<rparr>) = Inr s"
  shows "jcl_wf s"
proof -
  let ?s0 = "upd_in (\<lambda>io. io\<lparr>dbsz := 512\<rparr>) (upd_out (\<lambda>io. io\<lparr>dbsz := 512\<rparr>) (dd_init\<lparr>times := tm\<rparr>))"
  obtain l s1 s2 where l: "operands dup_ok l ?s0 = Inr s1" and c: "cfunc_checks (bs_checks s1) = Inr s2"
    and o: "offset_checks s2 = Inr s"
    using assms by (auto simp: jcl_def Let_def bind_r_Inr)
  have "ops_inv ?s0" by (simp add: ops_inv_def dd_init_def io0_def upd_in_def upd_out_def size_ok_def)
  then have "ops_inv s1" using operands_inv l by blast
  note 1 = bs_checks_inv [OF this]
  have 2: "ops_inv s2 \<and> (cfunc s2 = Block \<longleftrightarrow> flag s2 C_BLOCK) \<and> (cfunc s2 = Unblock \<longleftrightarrow> flag s2 C_UNBLOCK) \<and>
    (cfunc s2 \<noteq> Def \<longrightarrow> size_ok (cbsz s2)) \<and>
    (flag s2 C_BS \<longrightarrow> \<not> flag s2 C_SWAB \<and> \<not> flag s2 C_LCASE \<and> \<not> flag s2 C_UCASE)"
    using cfunc_checks_wf [OF c] 1 by blast
  then have "size_ok (dbsz (io_in s2))" "size_ok (dbsz (io_out s2))" by (simp_all add: ops_inv_def)
  note 3 = offset_checks_ok [OF o this]
  show ?thesis using 2 3 unfolding jcl_wf_def ops_inv_def by simp
qed

text \<open>What the operands do not touch.\<close>

definition fresh :: "dd \<Rightarrow> bool" where
  "fresh s \<longleftrightarrow> dbcnt (io_in s) = 0 \<and> dbcnt (io_out s) = 0 \<and> flags (io_in s) = 0 \<and> flags (io_out s) = 0 \<and>
     st s = st dd_init \<and> pending s = 0 \<and> \<not> intrunc s \<and> \<not> warned s \<and> db (io_in s) = InBuf"

lemma conv_loop_fresh: "f_conv_loop l s = Inr s' \<Longrightarrow> fresh s' = fresh s"
  by (induction l arbitrary: s)
    (auto simp: bind_r_Inr conv_step_def errx_def fresh_def split: option.splits if_splits)

lemma handlers_fresh:
  "f_bs oper v s = Inr s' \<Longrightarrow> fresh s' = fresh s"
  "f_cbs oper v s = Inr s' \<Longrightarrow> fresh s' = fresh s"
  "f_conv oper v s = Inr s' \<Longrightarrow> fresh s' = fresh s"
  "f_count oper v s = Inr s' \<Longrightarrow> fresh s' = fresh s"
  "f_files oper v s = Inr s' \<Longrightarrow> fresh s' = fresh s"
  "f_ibs oper v s = Inr s' \<Longrightarrow> fresh s' = fresh s"
  "f_if oper v s = Inr s' \<Longrightarrow> fresh s' = fresh s"
  "f_obs oper v s = Inr s' \<Longrightarrow> fresh s' = fresh s"
  "f_of oper v s = Inr s' \<Longrightarrow> fresh s' = fresh s"
  "f_seek oper v s = Inr s' \<Longrightarrow> fresh s' = fresh s"
  "f_skip oper v s = Inr s' \<Longrightarrow> fresh s' = fresh s"
            apply (auto simp: f_bs_def bind_r_Inr errx_def fresh_def upd_in_def upd_out_def split: if_splits) [1]
           apply (auto simp: f_cbs_def bind_r_Inr errx_def fresh_def split: if_splits) [1]
          apply (simp add: f_conv_def conv_loop_fresh)
         apply (auto simp: f_count_def bind_r_Inr errx_def fresh_def split: if_splits) [1]
        apply (auto simp: f_files_def bind_r_Inr errx_def fresh_def split: if_splits) [1]
       apply (auto simp: f_ibs_def bind_r_Inr errx_def fresh_def upd_in_def split: if_splits) [1]
      apply (auto simp: f_if_def fresh_def upd_in_def) [1]
     apply (auto simp: f_obs_def bind_r_Inr errx_def fresh_def upd_out_def split: if_splits) [1]
    apply (auto simp: f_of_def fresh_def upd_out_def) [1]
   apply (auto simp: f_seek_def bind_r_Inr fresh_def upd_out_def) [1]
  apply (auto simp: f_skip_def bind_r_Inr fresh_def upd_in_def) [1]
  done

lemma handler_fresh:
  assumes "ap \<in> set args" "arg_f ap oper v s = Inr s'"
  shows "fresh s' = fresh s"
proof -
  have "arg_f ap \<in> {f_bs, f_cbs, f_conv, f_count, f_files, f_ibs, f_if, f_obs, f_of, f_seek, f_skip}"
    using assms(1) by (auto simp: args_def)
  then show ?thesis
    unfolding insert_iff empty_iff
    by (elim disjE FalseE) (use assms(2) in \<open>simp add: handlers_fresh\<close>)+
qed

lemma operand_fresh:
  assumes "operand dup_ok a s = Inr s'"
  shows "fresh s' = fresh s"
proof -
  obtain oper v ap where "ap \<in> set args" "arg_f ap oper v (s\<lparr>ddflags := ddflags s OR arg_set ap\<rparr>) = Inr s'"
    using assms bsearch_args [of "takeWhile (\<lambda>c. c \<noteq> CHR ''='') a"]
    by (auto simp: operand_def Let_def errx_def split: if_splits option.splits)
  from handler_fresh [OF this] show ?thesis by (simp add: fresh_def)
qed

lemma operands_fresh: "operands dup_ok l s = Inr s' \<Longrightarrow> fresh s' = fresh s"
  by (induction l arbitrary: s) (auto simp: bind_r_Inr dest: operand_fresh)

lemma jcl_fresh:
  assumes "jcl dup_ok argv (dd_init\<lparr>times := tm\<rparr>) = Inr s"
  shows "fresh s"
proof -
  let ?s0 = "upd_in (\<lambda>io. io\<lparr>dbsz := 512\<rparr>) (upd_out (\<lambda>io. io\<lparr>dbsz := 512\<rparr>) (dd_init\<lparr>times := tm\<rparr>))"
  obtain l s1 s2 where l: "operands dup_ok l ?s0 = Inr s1" and c: "cfunc_checks (bs_checks s1) = Inr s2"
    and o: "offset_checks s2 = Inr s"
    using assms by (auto simp: jcl_def Let_def bind_r_Inr)
  have "fresh ?s0" by (simp add: fresh_def dd_init_def io0_def upd_in_def upd_out_def)
  then have "fresh s1" using operands_fresh [OF l] by simp
  then have "fresh (bs_checks s1)" by (auto simp: bs_checks_def Let_def fresh_def diag_def)
  then have "fresh s2" using c by (auto simp: cfunc_checks_def errx_def fresh_def split: if_splits)
  then show ?thesis using o by (auto simp: offset_checks_def errx_def split: if_splits)
qed

section \<open>Numbers written with factors\<close>

text \<open>A product of numbers with the suffixes of \<open>get_num\<close>.\<close>

definition suffix_ok :: "string \<Rightarrow> bool" where
  "suffix_ok suf \<longleftrightarrow> suf \<in> {'''', ''b'', ''k'', ''m'', ''g'', ''w''}"

definition factor :: "nat \<times> string \<Rightarrow> int" where
  "factor t = int (fst t) * (case multiplier (snd t) of None \<Rightarrow> 1 | Some k \<Rightarrow> k)"

fun render :: "(nat \<times> string) list \<Rightarrow> string" where
  "render [] = []"
| "render [t] = show_nat (fst t) @ snd t"
| "render (t # u # ts) = show_nat (fst t) @ snd t @ CHR ''x'' # render (u # ts)"

lemma strtoq_number:
  "0 < n \<Longrightarrow> r = [] \<or> 10 \<le> digit_val (hd r) \<Longrightarrow> int n \<le> QUAD_MAX \<Longrightarrow>
     strtoq (show_nat n @ r) = (int n, r, False)"
  unfolding strtoq_def by (rule strto_number) auto

lemma wrap64_in: "QUAD_MIN \<le> x \<Longrightarrow> x \<le> QUAD_MAX \<Longrightarrow> wrap64 x = x"
  by (simp add: wrap64_def)

lemma get_num_render:
  assumes "ts \<noteq> []" "\<forall>t \<in> set ts. 0 < fst t \<and> suffix_ok (snd t)" "prod_list (map factor ts) \<le> QUAD_MAX"
  shows "get_num oper (render ts) s = Inr (prod_list (map factor ts))"
  using assms
proof (induction ts)
  case (Cons t ts)
  define n where "n = fst t"
  define suf where "suf = snd t"
  define k where "k = (case multiplier suf of None \<Rightarrow> 1 | Some k \<Rightarrow> k)"
  define P where "P = prod_list (map factor ts)"
  define tail where "tail = (if ts = [] then [] else CHR ''x'' # render ts)"
  have n: "0 < n" "suffix_ok suf" using Cons.prems by (simp_all add: n_def suf_def)
  have k1: "1 \<le> k" using n(2) by (auto simp: k_def suffix_ok_def multiplier_def)
  have F: "factor t = int n * k" by (simp add: factor_def n_def k_def suf_def)
  have pos: "1 \<le> factor u" if "u \<in> set ts" for u
  proof -
    have "0 < fst u" "suffix_ok (snd u)" using that Cons.prems by auto
    then have "1 \<le> int (fst u)" "1 \<le> (case multiplier (snd u) of None \<Rightarrow> 1 | Some k \<Rightarrow> k)"
      by (auto simp: suffix_ok_def multiplier_def)
    then show ?thesis unfolding factor_def using mult_mono' [of 1 _ 1] by fastforce
  qed
  have P1: "1 \<le> P" unfolding P_def using pos
  proof (induction ts)
    case (Cons u us)
    then have "1 \<le> factor u" "1 \<le> prod_list (map factor us)" by auto
    then show ?case using mult_mono' [of 1 "factor u" 1 "prod_list (map factor us)"] by simp
  qed simp
  have nk: "1 \<le> int n * k" using n k1 mult_mono' [of 1 "int n" 1 k] by simp
  have tot: "int n * k * P \<le> QUAD_MAX" using Cons.prems(3) F by (simp add: P_def)
  have le1: "int n * k \<le> int n * k * P" using nk P1 mult_left_mono [of 1 P "int n * k"] by simp
  have le2: "int n \<le> int n * k" using k1 mult_left_mono [of 1 k "int n"] by simp
  have r: "render (t # ts) = show_nat n @ suf @ tail"
    by (cases ts) (simp_all add: n_def suf_def tail_def)
  have "suf @ tail = [] \<or> 10 \<le> digit_val (hd (suf @ tail))"
    using n(2) by (auto simp: suffix_ok_def tail_def digit_val_def)
  moreover have "int n \<le> QUAD_MAX" using tot le1 le2 by linarith
  ultimately have st: "strtoq (show_nat n @ suf @ tail) = (int n, suf @ tail, False)"
    using strtoq_number n(1) by blast
  have ne: "suf @ tail \<noteq> show_nat n @ suf @ tail" using show_nat_digits [of n] by auto
  have mu: "multiplier (suf @ tail) = multiplier suf" "multiplier suf \<noteq> None \<Longrightarrow> tl (suf @ tail) = tail"
      "multiplier suf = None \<Longrightarrow> suf @ tail = tail"
    using n(2) by (auto simp: suffix_ok_def multiplier_def tail_def)
  have w1: "wrap64 (int n * k) = int n * k" using tot le1 nk by (intro wrap64_in) linarith+
  have w2: "wrap64 (int n * k * P) = int n * k * P" using tot le1 nk by (intro wrap64_in) linarith+
  have num: "(case multiplier suf of None \<Rightarrow> int n | Some k \<Rightarrow> wrap64 (int n * k)) = int n * k"
    using w1 by (cases "multiplier suf") (simp_all add: k_def)
  have expr: "(case multiplier suf of None \<Rightarrow> suf @ tail | Some k \<Rightarrow> tl (suf @ tail)) = tail"
    using mu(2,3) by (cases "multiplier suf") simp_all
  have step: "get_num oper (show_nat n @ suf @ tail) s =
      (case tail of [] \<Rightarrow> Inr (int n * k)
       | c # rest \<Rightarrow> if c = CHR ''*'' \<or> c = CHR ''x'' then
            bind_r (get_num oper rest s) (\<lambda>j. let num2 = wrap64 (int n * k * j) in
              if int n * k \<le> num2 then Inr num2 else errx 1 (oper @ '': Result too large'') s)
          else errx 1 (oper @ '': illegal numeric value'') s)"
    unfolding get_num.simps [of oper "show_nat n @ suf @ tail"] st Let_def fst_conv snd_conv mu(1) num expr
    using ne le2 by simp
  show ?case
  proof (cases "ts = []")
    case True
    then show ?thesis using r step F by (simp add: tail_def)
  next
    case False
    have "P \<le> QUAD_MAX"
      using tot nk P1 mult_right_mono [of 1 "int n * k" P] by linarith
    then have "get_num oper (render ts) s = Inr P"
      using Cons.IH [OF False] Cons.prems(2) by (simp add: P_def)
    then show ?thesis using False r step w2 le1 F by (simp add: tail_def P_def)
  qed
qed simp

section \<open>Properties\<close>



text \<open>\<open>get_num\<close> computes the product it is given: positive decimal numbers with the
  suffixes b, k, m, g, w, joined by x, whose product fits into 63 bits.\<close>

theorem get_num_factors:
  assumes "ts \<noteq> []" "\<forall>t \<in> set ts. 0 < fst t \<and> suffix_ok (snd t)" "prod_list (map factor ts) \<le> QUAD_MAX"
  shows "get_num oper (render ts) s = Inr (prod_list (map factor ts))"
  by (rule get_num_render [OF assms])

theorem get_num_factors_witness:
  "get_num ''count'' (render [(2, ''k''), (30, '''')]) dd_init = Inr 61440"
  using get_num_factors [of "[(2, ''k''), (30, '''')]" "''count''" dd_init]
  by (simp add: factor_def suffix_ok_def multiplier_def)

text \<open>The overflow check of \<open>get_num\<close>, that the product is not smaller than the first
  factor, misses overflows that wrap around far enough: a count of $2^{55}+2^{47}$ blocks of 512
  is accepted as $2^{56}$.\<close>

theorem get_num_overflow_missed:
  "get_num oper ''36169534507319296b'' s = Inr (2 ^ 56) \<and> (36169534507319296 * 512 :: int) > QUAD_MAX"
  by (simp add: get_num.simps strtoq_def strto_def c_isspace_def digit_val_def multiplier_def wrap64_def)

end
