(* ===== verification/Dd_Main.thy ===== *)
theory Dd_Main
  imports Dd_Loop Dd_Args
begin

text \<open>
  \<open>setup\<close>, \<open>getfdtype\<close> and \<open>main\<close> of \<^verbatim>\<open>file_cmds-251/dd/dd.c\<close> and the
  positioning routines of \<^verbatim>\<open>position.c\<close>, and what whole runs of \<open>dd\<close> do. What the
  kernel answers (opens, file types, seeks, memory, the bytes behind the descriptors) is the
  record \<open>env\<close>, an argument of the definitions.
\<close>

section \<open>The environment\<close>

datatype fmode = S_REG | S_CHR | S_BLK | S_OTHER
datatype devtype = D_TAPE | D_DISK | D_TTY | D_OTHER

text \<open>What \<open>fstat\<close>, \<open>ioctl(FIODTYPE)\<close> (\<open>None\<close> if it fails) and a null seek
  (does it fail with \<open>ESPIPE\<close>) say of a descriptor.\<close>

record finfo =
  fmode :: fmode
  fiodtype :: "devtype option"
  espipe :: bool

text \<open>
  \<open>open_in\<close> and \<open>open_out\<close> give the file behind a name (\<open>None\<close> if the open
  fails), the latter for read-write and for write-only access; \<open>out_reads\<close> is what reading
  the output descriptor gives; \<open>seek_in\<close> is the input after a relative seek;
  \<open>junk\<close> is what \<open>malloc\<close>ed memory holds.
\<close>

record env =
  std_in :: instream
  std_out :: ofile
  open_in :: "string \<Rightarrow> instream option"
  open_rdwr :: "string \<Rightarrow> ofile option"
  open_wronly :: "string \<Rightarrow> ofile option"
  stat_in :: "finfo option"
  stat_out :: "finfo option"
  out_reads :: instream
  seek_in :: "int \<Rightarrow> instream option"
  malloc_in :: "nat \<Rightarrow> bool"
  malloc_out :: "nat \<Rightarrow> bool"
  junk :: "nat \<Rightarrow> u8"
  ftruncate_ok :: bool
  c_tolower :: "u8 \<Rightarrow> u8"
  c_toupper :: "u8 \<Rightarrow> u8"
  dup_ok :: "string \<Rightarrow> bool"
  clock :: "string list"

section \<open>getfdtype\<close>

text \<open>The new flags of a stream, or \<open>None\<close> where the routine exits with an error.\<close>

definition getfdtype :: "finfo option \<Rightarrow> u32 \<Rightarrow> u32 option" where
  "getfdtype sb fl =
     (case sb of
        None \<Rightarrow> None
      | Some i \<Rightarrow>
          let fl1 = (if fmode i = S_REG then fl OR ISTRUNC else fl) in
          if fmode i = S_CHR \<or> fmode i = S_BLK then
            (case fiodtype i of
               None \<Rightarrow> None
             | Some t \<Rightarrow>
                 let fl2 = (if t = D_TAPE then fl1 OR ISTAPE
                            else if t = D_DISK \<or> t = D_TTY then fl1 OR ISSEEK else fl1) in
                 Some (if fmode i = S_CHR \<and> t \<noteq> D_TAPE then fl2 OR ISCHR else fl2))
          else Some (if espipe i then fl1 OR ISPIPE else fl1 OR ISSEEK))"

section \<open>position.c\<close>

text \<open>The reading loop of \<open>pos_in\<close>: \<open>bcnt\<close> bytes to go in the block, \<open>cnt\<close> blocks.\<close>

function pos_in_loop :: "nat \<Rightarrow> nat \<Rightarrow> bool \<Rightarrow> dd \<Rightarrow> stop + dd" where
  "pos_in_loop bcnt cnt wrn s =
     (if cnt = 0 then Inr s
      else let r = c_read (in_fd s) bcnt; s1 = s\<lparr>in_fd := snd r\<rparr> in
        (case fst r of
           Some xs \<Rightarrow>
             if xs \<noteq> [] then
               bind_r (store (db (io_in s1)) 0 xs s1) (\<lambda>s2.
                 if flags (io_in s2) AND ISPIPE \<noteq> 0 then
                   if bcnt - length xs = 0 then pos_in_loop (dbsz (io_in s2)) (cnt - 1) wrn s2
                   else pos_in_loop (bcnt - length xs) cnt wrn s2
                 else pos_in_loop bcnt (cnt - 1) wrn s2)
             else if files_cnt s1 > 1 then pos_in_loop bcnt cnt wrn (s1\<lparr>files_cnt := files_cnt s1 - 1\<rparr>)
             else errx 1 ''skip reached end of input'' s1
         | None \<Rightarrow>
             if flag s1 C_NOERROR then
               pos_in_loop bcnt cnt True (if wrn then s1 else summary (diag (Warn (io_name (io_in s1))) s1))
             else err 1 (io_name (io_in s1)) s1))"
  by pat_completeness auto

lemma c_read_script_size_le: "script_size (snd (c_read fd n)) \<le> script_size fd"
  by (induction fd n rule: c_read.induct) auto

lemma c_read_decreases:
  "fst (c_read fd n) = Some xs \<Longrightarrow> xs \<noteq> [] \<Longrightarrow> script_size (snd (c_read fd n)) < script_size fd"
  "fst (c_read fd n) = None \<Longrightarrow> script_size (snd (c_read fd n)) < script_size fd"
  by (cases "c_read fd n"; simp add: c_read_script_size c_read_script_size_err)+

lemma store_files: "store b p xs s = Inr s' \<Longrightarrow> files_cnt s' = files_cnt s \<and> in_fd s' = in_fd s"
  using store_frame by fastforce

termination pos_in_loop
  by (relation "measure (\<lambda>(bcnt, cnt, wrn, s). script_size (in_fd s) + nat (files_cnt s))")
    (auto simp: summary_def diag_def c_read_decreases c_read_script_size_le add_le_less_mono
      dest!: store_files)

declare pos_in_loop.simps [simp del]

definition pos_in :: "env \<Rightarrow> dd \<Rightarrow> stop + dd" where
  "pos_in e s =
     (if flags (io_in s) AND ISSEEK \<noteq> 0 then
        (case seek_in e (offset (io_in s) * int (dbsz (io_in s))) of
           None \<Rightarrow> err 1 (io_name (io_in s)) s
         | Some fd \<Rightarrow> Inr (s\<lparr>in_fd := fd\<rparr>))
      else if offset (io_in s) < 0 then errx 1 ''iseek/skip: illegal offset'' s
      else pos_in_loop (dbsz (io_in s)) (nat (offset (io_in s))) False s)"

text \<open>The blocks \<open>pos_out\<close> writes when the output ends before the offset.\<close>

fun pos_out_fill :: "nat \<Rightarrow> dd \<Rightarrow> stop + dd" where
  "pos_out_fill 0 s = Inr s"
| "pos_out_fill (Suc k) s =
     bind_r (load (db (io_out s)) 0 (dbsz (io_out s)) s) (\<lambda>blk.
       let w = c_write blk (out_fd s); s1 = s\<lparr>out_fd := snd w\<rparr> in
       (case fst w of
          Wrote n \<Rightarrow> if n \<noteq> dbsz (io_out s1) then errx 1 (io_name (io_out s1) @ '': write failure'') s1
                     else pos_out_fill k s1
        | _ \<Rightarrow> err 1 (io_name (io_out s1)) s1))"

fun pos_out_loop :: "nat \<Rightarrow> instream \<Rightarrow> dd \<Rightarrow> stop + dd" where
  "pos_out_loop 0 rd s = Inr s"
| "pos_out_loop (Suc k) rd s =
     (let r = c_read rd (dbsz (io_out s)) in
      (case fst r of
         None \<Rightarrow> err 1 (io_name (io_out s)) s
       | Some xs \<Rightarrow>
           if xs \<noteq> [] then
             bind_r (store (db (io_out s)) 0 xs s) (\<lambda>s1.
               pos_out_loop k (snd r) (s1\<lparr>out_fd := (out_fd s1)\<lparr>pos := pos (out_fd s1) + length xs\<rparr>\<rparr>))
           else pos_out_fill (Suc k) s))"

definition pos_out :: "env \<Rightarrow> dd \<Rightarrow> stop + dd" where
  "pos_out e s =
     (if flags (io_out s) AND (ISSEEK OR ISPIPE) \<noteq> 0 then
        let p = int (pos (out_fd s)) + offset (io_out s) * int (dbsz (io_out s)) in
        if \<not> can_seek (out_fd s) \<or> p < 0 then err 1 (io_name (io_out s)) s
        else Inr (s\<lparr>out_fd := (out_fd s)\<lparr>pos := nat p\<rparr>\<rparr>)
      else if offset (io_out s) < 0 then errx 1 ''oseek/seek: illegal offset'' s
      else pos_out_loop (nat (offset (io_out s))) (out_reads e) s)"

section \<open>setup\<close>

definition open_input :: "env \<Rightarrow> dd \<Rightarrow> stop + dd" where
  "open_input e s =
     bind_r (case name (io_in s) of
         None \<Rightarrow> Inr (upd_in (\<lambda>io. io\<lparr>name := Some ''stdin''\<rparr>) (s\<lparr>in_fd := std_in e\<rparr>))
       | Some n \<Rightarrow>
           (case open_in e n of
              None \<Rightarrow> err 1 (io_name (io_in s)) s
            | Some fd \<Rightarrow> Inr (s\<lparr>in_fd := fd\<rparr>))) (\<lambda>s1.
       (case getfdtype (stat_in e) (flags (io_in s1)) of
          None \<Rightarrow> err 1 (io_name (io_in s1)) s1
        | Some fl \<Rightarrow> Inr (upd_in (\<lambda>io. io\<lparr>flags := fl\<rparr>) s1)))"

text \<open>\<open>O_TRUNC\<close> empties the file, unless \<open>seek=\<close> or \<open>conv=notrunc\<close> is given.\<close>

definition opened :: "dd \<Rightarrow> ofile \<Rightarrow> ofile" where
  "opened s f = (if flag s (C_SEEK OR C_NOTRUNC) then f else f\<lparr>content := []\<rparr>)"

definition open_output :: "env \<Rightarrow> dd \<Rightarrow> stop + dd" where
  "open_output e s =
     bind_r (case name (io_out s) of
         None \<Rightarrow> Inr (upd_out (\<lambda>io. io\<lparr>name := Some ''stdout''\<rparr>) (s\<lparr>out_fd := std_out e\<rparr>))
       | Some n \<Rightarrow>
           (case open_rdwr e n of
              Some f \<Rightarrow> Inr (s\<lparr>out_fd := opened s f\<rparr>)
            | None \<Rightarrow>
                (let s1 = upd_out (\<lambda>io. io\<lparr>flags := flags io OR NOREAD\<rparr>) s in
                 case open_wronly e n of
                   None \<Rightarrow> err 1 (io_name (io_out s1)) s1
                 | Some f \<Rightarrow> Inr (s1\<lparr>out_fd := opened s1 f\<rparr>)))) (\<lambda>s1.
       (case getfdtype (stat_out e) (flags (io_out s1)) of
          None \<Rightarrow> err 1 (io_name (io_out s1)) s1
        | Some fl \<Rightarrow> Inr (upd_out (\<lambda>io. io\<lparr>flags := fl\<rparr>) s1)))"

definition junk_block :: "env \<Rightarrow> nat \<Rightarrow> bytes" where
  "junk_block e n = map (junk e) [0..<n]"

text \<open>One buffer, or two for record-oriented copies.\<close>

definition alloc :: "env \<Rightarrow> dd \<Rightarrow> stop + dd" where
  "alloc e s =
     bind_r (if \<not> flag s (C_BLOCK OR C_UNBLOCK) then
         let n = dbsz (io_out s) + dbsz (io_in s) - 1 in
         if \<not> malloc_in e n then err 1 ''input buffer'' s
         else Inr (upd_out (\<lambda>io. io\<lparr>db := InBuf\<rparr>)
                (upd_in (\<lambda>io. io\<lparr>db := InBuf\<rparr>) (s\<lparr>ibuf := junk_block e n\<rparr>)))
       else let n = max (dbsz (io_in s)) (cbsz s) + cbsz s; m = dbsz (io_out s) + cbsz s in
         if \<not> malloc_in e n \<or> \<not> malloc_out e m then err 1 ''output buffer'' s
         else Inr (upd_out (\<lambda>io. io\<lparr>db := OutBuf\<rparr>)
                (upd_in (\<lambda>io. io\<lparr>db := InBuf\<rparr>) (s\<lparr>ibuf := junk_block e n, obuf := junk_block e m\<rparr>))))
     (\<lambda>s1. Inr (upd_out (\<lambda>io. io\<lparr>dbp := 0\<rparr>) (upd_in (\<lambda>io. io\<lparr>dbp := 0\<rparr>) s1)))"

text \<open>\<open>ftruncate\<close> cuts the file or extends it with zero bytes.\<close>

definition truncated :: "nat \<Rightarrow> ofile \<Rightarrow> ofile" where
  "truncated n f = f\<lparr>content := take n (content f) @ replicate (n - length (content f)) 0\<rparr>"

definition truncate_out :: "env \<Rightarrow> dd \<Rightarrow> stop + dd" where
  "truncate_out e s =
     (if ddflags s AND (C_OF OR C_SEEK OR C_NOTRUNC) = C_OF OR C_SEEK \<and>
         flags (io_out s) AND ISTRUNC \<noteq> 0
      then let n = offset (io_out s) * int (dbsz (io_out s)) in
        if \<not> ftruncate_ok e \<or> n < 0 then err 1 (''truncating '' @ io_name (io_out s)) s
        else Inr (s\<lparr>out_fd := truncated (nat n) (out_fd s)\<rparr>)
      else Inr s)"

text \<open>The case tables: case conversion on top of the character-set table, if there is one.\<close>

definition casetab :: "env \<Rightarrow> dd \<Rightarrow> bytes" where
  "casetab e s =
     (let f = (if flag s C_LCASE then c_tolower e else c_toupper e) in
      if flag s (C_ASCII OR C_EBCDIC)
      then map (\<lambda>i. f (xlate (ctab s) (of_nat i))) [0..<256]
      else map (\<lambda>i. f (of_nat i)) [0..<256])"

definition case_tables :: "env \<Rightarrow> dd \<Rightarrow> dd" where
  "case_tables e s = (if flag s (C_LCASE OR C_UCASE) then s\<lparr>ctab := Some (casetab e s)\<rparr> else s)"

definition dd_setup :: "env \<Rightarrow> dd \<Rightarrow> stop + dd" where
  "dd_setup e s =
     bind_r (open_input e s) (\<lambda>s1.
       if files_cnt s1 > 1 \<and> flags (io_in s1) AND ISTAPE = 0
       then errx 1 ''files is not supported for non-tape devices'' s1
       else bind_r (open_output e s1) (\<lambda>s2.
         bind_r (alloc e s2) (\<lambda>s3.
         bind_r (if offset (io_in s3) \<noteq> 0 then pos_in e s3 else Inr s3) (\<lambda>s4.
         bind_r (if offset (io_out s4) \<noteq> 0 then pos_out e s4 else Inr s4) (\<lambda>s5.
         bind_r (truncate_out e s5) (\<lambda>s6. Inr (case_tables e s6)))))))"

section \<open>main\<close>

text \<open>\<open>summary\<close> is registered with \<open>atexit\<close> after \<open>setup\<close>.\<close>

definition at_exit :: "stop + dd \<Rightarrow> stop" where
  "at_exit r =
     (case r of
        Inr s \<Rightarrow> Exit 0 (summary s)
      | Inl (Exit n s) \<Rightarrow> Exit n (summary s)
      | Inl Undef \<Rightarrow> Undef)"

definition prepare :: "env \<Rightarrow> string list \<Rightarrow> stop + dd" where
  "prepare e argv = bind_r (jcl (dup_ok e) argv (dd_init\<lparr>times := clock e\<rparr>)) (dd_setup e)"

definition main :: "env \<Rightarrow> string list \<Rightarrow> stop" where
  "main e argv =
     (case prepare e argv of
        Inl x \<Rightarrow> x
      | Inr s \<Rightarrow> at_exit (bind_r (files_loop (nat (files_cnt s)) s) dd_close))"

section \<open>What setup leaves\<close>

text \<open>The part of the state that positioning and truncating do not touch.\<close>

definition geom :: "dd \<Rightarrow> _" where
  "geom s = ((db (io_in s), dbp (io_in s), dbcnt (io_in s), dbsz (io_in s)),
     (db (io_out s), dbp (io_out s), dbcnt (io_out s), dbsz (io_out s)),
     (length (ibuf s), length (obuf s)), cbsz s, cfunc s, ddflags s, intrunc s, pending s, st s, cpy_cnt s)"

lemma geom_simps [simp]:
  "geom (s\<lparr>in_fd := fd\<rparr>) = geom s" "geom (s\<lparr>out_fd := f\<rparr>) = geom s" "geom (s\<lparr>files_cnt := k\<rparr>) = geom s"
  "geom (summary s) = geom s" "geom (diag d s) = geom s" "geom (s\<lparr>ctab := t\<rparr>) = geom s"
  by (simp_all add: geom_def summary_def diag_def)

lemma store_geom:
  assumes "store b p xs s = Inr s'"
  shows "geom s' = geom s \<and> io_in s' = io_in s \<and> io_out s' = io_out s \<and> files_cnt s' = files_cnt s"
proof -
  obtain m where m: "poke (mem b s) p xs = Some m" "s' = set_mem b m s"
    using assms by (auto simp: store_def bind_r_Inr of_opt_def split: option.splits)
  then have "length m = length (mem b s)" using poke_length by blast
  then show ?thesis using m(2) by (cases b) (simp_all add: geom_def)
qed

lemma pos_in_loop_geom: "pos_in_loop bcnt cnt wrn s = Inr s' \<Longrightarrow> geom s' = geom s"
proof (induction bcnt cnt wrn s rule: pos_in_loop.induct)
  case (1 bcnt cnt wrn s)
  note unf = pos_in_loop.simps [of bcnt cnt wrn s]
  show ?case
  proof (cases "cnt = 0")
    case True
    then show ?thesis using "1.prems" by (subst (asm) unf) simp
  next
    case False
    obtain x fd where rd: "c_read (in_fd s) bcnt = (x, fd)" by fastforce
    let ?s1 = "s\<lparr>in_fd := fd\<rparr>"
    show ?thesis
    proof (cases x)
      case None
      let ?t = "if wrn then ?s1 else summary (diag (Warn (io_name (io_in ?s1))) ?s1)"
      from None have fl: "flag ?s1 C_NOERROR" and k: "pos_in_loop bcnt cnt True ?t = Inr s'"
        using "1.prems" False rd by (auto simp: unf Let_def err_def split: if_splits)
      have "geom s' = geom ?t"
        using "1.IH"(1) [OF False refl refl, unfolded rd fst_conv snd_conv, OF None fl k] .
      then show ?thesis by simp
    next
      case (Some xs)
      show ?thesis
      proof (cases "xs = []")
        case True
        let ?t = "?s1\<lparr>files_cnt := files_cnt ?s1 - 1\<rparr>"
        from True have fl: "files_cnt ?s1 > 1" and k: "pos_in_loop bcnt cnt wrn ?t = Inr s'"
          using "1.prems" False rd Some by (auto simp: unf Let_def errx_def split: if_splits)
        have "geom s' = geom ?t"
          using "1.IH"(5) [OF False refl refl, unfolded rd fst_conv snd_conv, OF Some _ fl k] True by simp
        then show ?thesis by simp
      next
        case F: False
        with "1.prems" False rd Some obtain s2 where s2: "store (db (io_in ?s1)) 0 xs ?s1 = Inr s2"
          by (auto simp: unf Let_def bind_r_Inr)
        have "geom s2 = geom s" using store_geom [OF s2] by simp
        moreover have "geom s' = geom s2"
          using "1.IH"(2,3,4) [OF False refl refl, unfolded rd fst_conv snd_conv, OF Some F s2]
            "1.prems" False rd Some F s2
          by (cases "flags (io_in s2) AND ISPIPE \<noteq> 0"; cases "bcnt - length xs = 0") (simp_all add: unf Let_def)
        ultimately show ?thesis by simp
      qed
    qed
  qed
qed

lemma pos_in_geom: "pos_in e s = Inr s' \<Longrightarrow> geom s' = geom s"
  by (auto simp: pos_in_def err_def errx_def dest!: pos_in_loop_geom split: if_splits option.splits)

lemma pos_out_fill_geom: "pos_out_fill k s = Inr s' \<Longrightarrow> geom s' = geom s"
proof (induction k arbitrary: s)
  case (Suc k)
  then obtain blk where b: "load (db (io_out s)) 0 (dbsz (io_out s)) s = Inr blk" by (auto simp: bind_r_Inr)
  show ?case using Suc b
    by (cases "fst (c_write blk (out_fd s))") (auto simp: Let_def err_def errx_def split: if_splits)
qed simp

lemma pos_out_loop_geom: "pos_out_loop k rd s = Inr s' \<Longrightarrow> geom s' = geom s"
  by (induction k arbitrary: rd s)
    (auto simp: bind_r_Inr Let_def err_def split: option.splits if_splits
      dest!: pos_out_fill_geom store_geom simp del: pos_out_fill.simps)

lemma pos_out_geom: "pos_out e s = Inr s' \<Longrightarrow> geom s' = geom s"
  by (auto simp: pos_out_def Let_def err_def errx_def dest!: pos_out_loop_geom split: if_splits)

lemma truncate_out_geom: "truncate_out e s = Inr s' \<Longrightarrow> geom s' = geom s"
  by (auto simp: truncate_out_def Let_def err_def split: if_splits)

lemma case_tables_geom: "geom (case_tables e s) = geom s"
  by (simp add: case_tables_def)


text \<open>Opening the files only sets names, flags and descriptors.\<close>

definition unopened :: "dd \<Rightarrow> _" where
  "unopened s = (dbcnt (io_in s), dbsz (io_in s), dbcnt (io_out s), dbsz (io_out s), cbsz s, cfunc s,
     ddflags s, intrunc s, pending s, st s, cpy_cnt s)"

lemma open_input_unopened: "open_input e s = Inr s' \<Longrightarrow> unopened s' = unopened s"
  by (auto simp: open_input_def bind_r_Inr err_def unopened_def split: option.splits)

lemma open_output_unopened: "open_output e s = Inr s' \<Longrightarrow> unopened s' = unopened s"
  by (auto simp: open_output_def bind_r_Inr err_def unopened_def Let_def split: option.splits)

lemma alloc_geom:
  "alloc e s = Inr s' \<Longrightarrow> unopened s' = unopened s \<and> dbp (io_in s') = 0 \<and> dbp (io_out s') = 0 \<and>
     db (io_in s') = InBuf \<and>
     (if flag s (C_BLOCK OR C_UNBLOCK)
      then db (io_out s') = OutBuf \<and> length (ibuf s') = max (dbsz (io_in s)) (cbsz s) + cbsz s \<and>
           length (obuf s') = dbsz (io_out s) + cbsz s
      else db (io_out s') = InBuf \<and> length (ibuf s') = dbsz (io_out s) + dbsz (io_in s) - 1)"
  by (cases "flag s (C_BLOCK OR C_UNBLOCK)")
    (auto simp: alloc_def bind_r_Inr err_def unopened_def Let_def junk_block_def split: if_splits)

lemma setup_leaves:
  assumes "dd_setup e s = Inr s'"
  shows "unopened s' = unopened s \<and> dbp (io_in s') = 0 \<and> dbp (io_out s') = 0 \<and> db (io_in s') = InBuf \<and>
     (if flag s (C_BLOCK OR C_UNBLOCK)
      then db (io_out s') = OutBuf \<and> length (ibuf s') = max (dbsz (io_in s)) (cbsz s) + cbsz s \<and>
           length (obuf s') = dbsz (io_out s) + cbsz s
      else db (io_out s') = InBuf \<and> length (ibuf s') = dbsz (io_out s) + dbsz (io_in s) - 1)"
proof -
  from assms obtain s1 where 1: "open_input e s = Inr s1" by (auto simp only: dd_setup_def bind_r_Inr)
  have nf: "\<not> (files_cnt s1 > 1 \<and> flags (io_in s1) AND ISTAPE = 0)"
    using assms 1 by (auto simp: dd_setup_def errx_def)
  from assms obtain s2 s3 s4 s5 s6 where 2: "open_output e s1 = Inr s2"
    and 3: "alloc e s2 = Inr s3"
    and 4: "(if offset (io_in s3) \<noteq> 0 then pos_in e s3 else Inr s3) = Inr s4"
    and 5: "(if offset (io_out s4) \<noteq> 0 then pos_out e s4 else Inr s4) = Inr s5"
    and 6: "truncate_out e s5 = Inr s6" and 7: "s' = case_tables e s6"
    unfolding dd_setup_def 1 bind_r_simps if_not_P [OF nf] by (auto simp only: bind_r_Inr sum.inject)
  have "geom s4 = geom s3" using 4 pos_in_geom by (auto split: if_splits)
  moreover have "geom s5 = geom s4" using 5 pos_out_geom by (auto split: if_splits)
  ultimately have g: "geom s' = geom s3"
    using truncate_out_geom [OF 6] 7 case_tables_geom [of e s6] by simp
  have u: "unopened s2 = unopened s" using open_input_unopened [OF 1] open_output_unopened [OF 2] by simp
  note a = alloc_geom [OF 3]
  have "unopened s' = unopened s3" using g by (simp add: geom_def unopened_def)
  then show ?thesis using a u g by (auto simp: geom_def unopened_def)
qed

lemma prepare_ready:
  assumes "prepare e argv = Inr s"
  shows "dbcnt (io_in s) = 0" "dbcnt (io_out s) = 0" "pending s = 0" "\<not> intrunc s"
    "size_ok (dbsz (io_in s))" "size_ok (dbsz (io_out s))" "st s = st dd_init" "-1 \<le> cpy_cnt s"
    "cfunc s = Def \<Longrightarrow> ready_def (ctab s) s () []"
    "cfunc s = Def \<Longrightarrow> ready_bs s () []"
    "cfunc s = Block \<Longrightarrow> ready_block (cbsz s) (ctab s) s (Acc []) []"
    "cfunc s = Unblock \<Longrightarrow> ready_unblock (cbsz s) (ctab s) s [] []"
proof -
  obtain s0 where s0: "jcl (dup_ok e) argv (dd_init\<lparr>times := clock e\<rparr>) = Inr s0" "dd_setup e s0 = Inr s"
    using assms by (auto simp: prepare_def bind_r_Inr)
  note wf = jcl_wf_jcl [OF s0(1)] and fr = jcl_fresh [OF s0(1)] and l = setup_leaves [OF s0(2)]
  have m: "ddflags s0 AND (C_BLOCK OR C_UNBLOCK) = 0 \<longleftrightarrow> \<not> flag s0 C_BLOCK \<and> \<not> flag s0 C_UNBLOCK"
    using bit.conj_disj_distrib [of "ddflags s0" C_BLOCK C_UNBLOCK] by (simp add: or_eq_0_iff)
  have u: "dbcnt (io_in s) = 0" "dbcnt (io_out s) = 0" "dbsz (io_in s) = dbsz (io_in s0)"
    "dbsz (io_out s) = dbsz (io_out s0)" "cbsz s = cbsz s0" "cfunc s = cfunc s0" "\<not> intrunc s"
    "pending s = 0" "st s = st dd_init" "cpy_cnt s = cpy_cnt s0"
    using l fr by (simp_all add: unopened_def fresh_def)
  have sz: "size_ok (dbsz (io_in s0))" "size_ok (dbsz (io_out s0))" "-1 \<le> cpy_cnt s0"
    "cfunc s0 \<noteq> Def \<Longrightarrow> size_ok (cbsz s0)"
    "cfunc s0 = Block \<longleftrightarrow> flag s0 C_BLOCK" "cfunc s0 = Unblock \<longleftrightarrow> flag s0 C_UNBLOCK"
    using wf unfolding jcl_wf_def by blast+
  then have pos: "0 < dbsz (io_in s0)" "0 < dbsz (io_out s0)" "cfunc s0 \<noteq> Def \<Longrightarrow> 0 < cbsz s0"
    by (simp_all add: size_ok_def)
  show "dbcnt (io_in s) = 0" "dbcnt (io_out s) = 0" "pending s = 0" "\<not> intrunc s"
    "size_ok (dbsz (io_in s))" "size_ok (dbsz (io_out s))" "st s = st dd_init" "-1 \<le> cpy_cnt s"
    using u sz by simp_all
  show "ready_def (ctab s) s () []" "ready_bs s () []" if "cfunc s = Def"
  proof -
    have "\<not> flag s0 C_BLOCK" "\<not> flag s0 C_UNBLOCK" using that u sz(5,6) by simp_all
    then have "ddflags s0 AND (C_BLOCK OR C_UNBLOCK) = 0" using m by simp
    then have "db (io_out s) = InBuf" "length (ibuf s) = dbsz (io_out s0) + dbsz (io_in s0) - 1"
      "dbp (io_in s) = 0" "dbp (io_out s) = 0" "db (io_in s) = InBuf" using l by simp_all
    then show "ready_def (ctab s) s () []" "ready_bs s () []"
      using u pos by (simp_all add: ready_def_def ready_bs_def)
  qed
  have two: "rec_inv (cbsz s) (ctab s) s []" if "cfunc s \<noteq> Def"
  proof -
    have "flag s0 C_BLOCK \<or> flag s0 C_UNBLOCK" using that u sz(5,6) by (cases "cfunc s0") simp_all
    then have "flag s0 (C_BLOCK OR C_UNBLOCK)" using m by blast
    then have "db (io_out s) = OutBuf" "length (ibuf s) = max (dbsz (io_in s0)) (cbsz s0) + cbsz s0"
      "length (obuf s) = dbsz (io_out s0) + cbsz s0" "dbp (io_in s) = 0" "dbp (io_out s) = 0" "db (io_in s) = InBuf"
      using l by simp_all
    then show ?thesis using u pos that by (simp add: rec_inv_def)
  qed
  have z: "dbp (io_in s) = 0" using l by simp
  show "ready_block (cbsz s) (ctab s) s (Acc []) []" if "cfunc s = Block"
    using two that u pos(3) z by (simp add: ready_block_def in_state_def)
  show "ready_unblock (cbsz s) (ctab s) s [] []" if "cfunc s = Unblock"
    using two that u pos(3) z by (simp add: ready_unblock_def)
qed


section \<open>What the machines compute\<close>

lemma run_all_def: "run_all (run_def t) m bs = (map (xlate t) (concat bs), ())"
  by (induction bs arbitrary: m) (simp_all add: run_def_def)

lemma run_all_block: "run_all (run_block n t) m bs = run_block n t m (concat bs)"
  by (induction bs arbitrary: m) (simp_all add: run_block_append)

lemma cut_records_append:
  "cut_records n (d @ ys) =
     (fst (cut_records n d) @ fst (cut_records n (snd (cut_records n d) @ ys)),
      snd (cut_records n (snd (cut_records n d) @ ys)))"
proof (induction n d rule: cut_records.induct)
  case (1 n d)
  show ?case
  proof (cases "n = 0 \<or> length d < n")
    case True
    then show ?thesis by (simp add: cut_records.simps [of n d])
  next
    case False
    then show ?thesis using 1 [OF False]
      by (simp add: cut_records.simps [of n "d @ ys"] cut_records.simps [of n d])
  qed
qed

lemma run_all_unblock: "run_all (run_unblock n None) p bs =
    (if bs = [] then ([], p) else cut_records n (p @ concat bs))"
proof (induction bs arbitrary: p)
  case (Cons b bs)
  have "late None b = b" by (cases b) simp_all
  then show ?case using Cons cut_records_append [of n "p @ b" "concat bs"]
    by (cases "bs = []") (simp_all add: run_unblock_def)
qed simp

text \<open>Text as lines, and its fixed-length records.\<close>

definition lines_text :: "bytes list \<Rightarrow> bytes" where
  "lines_text ls = concat (map (\<lambda>l. l @ [nl]) ls)"

definition line_records :: "nat \<Rightarrow> bytes option \<Rightarrow> bytes list \<Rightarrow> bytes" where
  "line_records n t ls = concat (map (\<lambda>l. pad n t (take n l)) ls)"

text \<open>
  The record made of an unterminated last line. A line that fills a record is a record like the
  others; a shorter one is padded by \<open>block_close\<close>, and its characters are not translated.
\<close>

definition last_record :: "nat \<Rightarrow> bytes option \<Rightarrow> bytes \<Rightarrow> bytes" where
  "last_record n t r =
     (if r = [] then [] else if length r < n then r @ replicate (n - length r) (xlate t sp)
      else pad n t (take n r))"

lemma run_block_skip_line: "nl \<notin> set r \<Longrightarrow> run_block n t Skip (r @ nl # d) = run_block n t (Acc []) d"
  by (induction r) auto

lemma run_block_skip_rest: "nl \<notin> set r \<Longrightarrow> run_block n t Skip r = ([], Skip)"
  by (induction r) auto

lemma run_block_any_line:
  assumes "nl \<notin> set l" "0 < n"
  shows "run_block n t (Acc []) (l @ nl # d) =
    (pad n t (take n l) @ fst (run_block n t (Acc []) d), snd (run_block n t (Acc []) d))"
proof (cases "length l < n")
  case True
  then show ?thesis using run_block_line assms(1) by simp
next
  case False
  have "nl \<notin> set (take n l)" "nl \<notin> set (drop n l)"
    using assms(1) by (meson in_set_takeD, meson in_set_dropD)
  then have "run_block n t (Acc []) (take n l @ drop n l @ nl # d) =
      (pad n t (take n l) @ fst (run_block n t (Acc []) d), snd (run_block n t (Acc []) d))"
    using False assms(2) run_block_long [of "take n l" n t "drop n l @ nl # d"]
    by (simp add: run_block_skip_line)
  then show ?thesis by (metis append.assoc append_take_drop_id)
qed

lemma run_block_lines:
  assumes "\<forall>l \<in> set ls. nl \<notin> set l" "0 < n"
  shows "run_block n t (Acc []) (lines_text ls @ r) =
    (line_records n t ls @ fst (run_block n t (Acc []) r), snd (run_block n t (Acc []) r))"
  using assms(1)
proof (induction ls)
  case (Cons l ls)
  have "lines_text (l # ls) @ r = l @ nl # (lines_text ls @ r)" by (simp add: lines_text_def)
  then show ?case using Cons assms(2) by (simp add: run_block_any_line line_records_def)
qed (simp add: lines_text_def line_records_def)

lemma run_block_last:
  assumes "nl \<notin> set r" "0 < n"
  shows "fst (run_block n t (Acc []) r) @ final_block n t (snd (run_block n t (Acc []) r)) = last_record n t r"
proof (cases "length r < n")
  case True
  then show ?thesis using run_block_short [OF assms(1), of "[]" n t]
    by (simp add: final_block_def last_record_def)
next
  case False
  have "nl \<notin> set (take n r)" "nl \<notin> set (drop n r)"
    using assms(1) by (meson in_set_takeD, meson in_set_dropD)
  then have "run_block n t (Acc []) (take n r @ drop n r) = (pad n t (take n r), Skip)"
    using False assms(2) run_block_long [of "take n r" n t "drop n r"] by (simp add: run_block_skip_rest)
  then show ?thesis using False assms(2) by (auto simp: final_block_def last_record_def)
qed

text \<open>Records that come apart again.\<close>

lemma cut_records_recs:
  assumes "\<forall>r \<in> set rs. length r = n" "0 < n"
  shows "cut_records n (concat rs) = (concat (map (\<lambda>r. strip r @ [nl]) rs), [])"
  using assms(1)
proof (induction rs)
  case (Cons r rs)
  then show ?case using assms(2) by (simp add: cut_records.simps [of n "r @ concat rs"])
qed (simp add: cut_records.simps assms(2))

lemma strip_pad: "strip (pad n None l) = strip l"
proof -
  have "dropWhile (\<lambda>c. c = sp) (replicate k sp @ xs) = dropWhile (\<lambda>c. c = sp) xs" for k xs
    by (induction k) simp_all
  then show ?thesis by (simp add: strip_def pad_def xlate_def)
qed


section \<open>Whole runs\<close>

lemma main_copies:
  assumes "prepare e argv = Inr s" "files_cnt s = 1"
    and "bind_r (files_loop (Suc 0) s) dd_close = Inr s'"
  shows "main e argv = Exit 0 (summary s')"
  using assms by (simp add: main_def at_exit_def)

lemma summary_out [simp]: "out_fd (summary s) = out_fd s" "st (summary s) = st s"
  by (simp_all add: summary_def)

text \<open>
  A run that reads its input to the end without errors, with none of the options that change the
  input blocks, onto a descriptor that takes everything.
\<close>

definition simple_run :: "env \<Rightarrow> string list \<Rightarrow> dd \<Rightarrow> bytes \<Rightarrow> bool" where
  "simple_run e argv s d \<longleftrightarrow>
     prepare e argv = Inr s \<and> files_cnt s = 1 \<and> ok_out s \<and> cpy_cnt s = 0 \<and>
     \<not> flag s C_OSYNC \<and> \<not> flag s C_SWAB \<and> \<not> flag s C_SYNC \<and>
     Rerr \<notin> set (in_fd s) \<and> contents (in_fd s) = Some d"

definition wrote_all :: "dd \<Rightarrow> dd \<Rightarrow> bytes \<Rightarrow> bool" where
  "wrote_all s s' xs \<longleftrightarrow>
     content (out_fd s') = write_at (content (out_fd s)) (pos (out_fd s)) xs \<and>
     pos (out_fd s') = pos (out_fd s) + length xs \<and> bytes_out (st s') = length xs"

lemma emitted_wrote_all:
  "emitted xs s s' \<Longrightarrow> prepare e argv = Inr s \<Longrightarrow> wrote_all s (summary s') xs"
  using prepare_ready(7) [of e argv s] by (simp add: emitted_def wrote_all_def dd_init_def)

lemma simple_blocks:
  assumes "simple_run e argv s d"
  shows "concat (input_blocks s) = d"
proof -
  have "0 < dbsz (io_in s)" using prepare_ready(5) [of e argv s] assms by (auto simp: simple_run_def size_ok_def)
  then have "concat (blocks (dbsz (io_in s)) None (in_fd s)) = d"
    using concat_blocks assms by (auto simp: simple_run_def)
  moreover have "swapped s = id" using assms by (simp add: simple_run_def swapped_def fun_eq_iff)
  ultimately show ?thesis
    using assms by (simp add: input_blocks_def limited_def filler_def simple_run_def)
qed

lemma dd_copies_lemma:
  assumes "prepare e argv = Inr s" "files_cnt s = 1" "ok_out s" "cfunc s = Def" "\<not> flag s C_BS"
    and "\<not> flag s C_OSYNC" "Rerr \<notin> set (in_fd s) \<or> flag s C_NOERROR"
  shows "\<exists>s'. main e argv = Exit 0 s' \<and> wrote_all s s' (map (xlate (ctab s)) (concat (input_blocks s)))"
proof -
  obtain s' where "bind_r (files_loop (Suc 0) s) dd_close = Inr s'"
    "emitted (map (xlate (ctab s)) (concat (input_blocks s))) s s'"
    using plain_copy.copy_runs [OF assms(4) prepare_ready(9) [OF assms(1,4)] assms(3,5,6,7)]
    by (auto simp: run_all_def)
  then show ?thesis using main_copies [OF assms(1,2)] emitted_wrote_all assms(1) by blast
qed

lemma dd_blocks_lemma:
  assumes "simple_run e argv s (lines_text ls @ r)" "cfunc s = Block" "\<not> flag s C_BS"
    and "\<forall>l \<in> set ls. nl \<notin> set l" "nl \<notin> set r"
  shows "\<exists>s'. main e argv = Exit 0 s' \<and>
    wrote_all s s' (line_records (cbsz s) (ctab s) ls @ last_record (cbsz s) (ctab s) r)"
proof -
  note sr = assms(1) [unfolded simple_run_def]
  have r: "ready_block (cbsz s) (ctab s) s (Acc []) []" using prepare_ready(11) sr assms(2) by blast
  then have n: "0 < cbsz s" by (simp add: ready_block_def rec_inv_def)
  obtain s' where s': "bind_r (files_loop (Suc 0) s) dd_close = Inr s'"
    "emitted (fst (run_block (cbsz s) (ctab s) (Acc []) (lines_text ls @ r)) @
       final_block (cbsz s) (ctab s) (snd (run_block (cbsz s) (ctab s) (Acc []) (lines_text ls @ r)))) s s'"
    using block_copy.copy_runs [OF assms(2) r] sr assms(3) simple_blocks [OF assms(1)]
    by (auto simp: run_all_block)
  have "fst (run_block (cbsz s) (ctab s) (Acc []) (lines_text ls @ r)) @
       final_block (cbsz s) (ctab s) (snd (run_block (cbsz s) (ctab s) (Acc []) (lines_text ls @ r))) =
       line_records (cbsz s) (ctab s) ls @ last_record (cbsz s) (ctab s) r"
    using run_block_lines [OF assms(4) n] run_block_last [OF assms(5) n] by simp
  then show ?thesis using main_copies s' emitted_wrote_all sr by metis
qed

lemma dd_unblocks_lemma:
  assumes "simple_run e argv s d" "cfunc s = Unblock" "\<not> flag s C_BS" "ctab s = None"
  shows "\<exists>s'. main e argv = Exit 0 s' \<and>
    wrote_all s s' (fst (cut_records (cbsz s) d) @ final_unblock (snd (cut_records (cbsz s) d)))"
proof -
  note sr = assms(1) [unfolded simple_run_def]
  have r: "ready_unblock (cbsz s) None s [] []" using prepare_ready(12) sr assms(2,4) by metis
  then have n: "0 < cbsz s" by (simp add: ready_unblock_def rec_inv_def)
  have "run_all (run_unblock (cbsz s) None) [] (input_blocks s) = cut_records (cbsz s) d"
    using simple_blocks [OF assms(1)] n
    by (cases "input_blocks s = []") (auto simp: run_all_unblock cut_records.simps [of _ "[]"])
  then obtain s' where "bind_r (files_loop (Suc 0) s) dd_close = Inr s'"
    "emitted (fst (cut_records (cbsz s) d) @ final_unblock (snd (cut_records (cbsz s) d))) s s'"
    using unblock_copy.copy_runs [OF assms(2) r] sr assms(3) by auto
  then show ?thesis using main_copies emitted_wrote_all sr by blast
qed

section \<open>A concrete environment\<close>

text \<open>Standard input with given answers to reads, an empty regular file as standard output with
  given answers to writes, memory that holds the byte 0x55.\<close>

definition demo_env :: "wr list \<Rightarrow> instream \<Rightarrow> env" where
  "demo_env ws fd = \<lparr>std_in = fd, std_out = \<lparr>content = [], pos = 0, can_seek = True, wscript = ws\<rparr>,
     open_in = (\<lambda>_. None), open_rdwr = (\<lambda>_. None), open_wronly = (\<lambda>_. None),
     stat_in = Some \<lparr>fmode = S_REG, fiodtype = None, espipe = False\<rparr>,
     stat_out = Some \<lparr>fmode = S_REG, fiodtype = None, espipe = False\<rparr>,
     out_reads = [], seek_in = (\<lambda>_. None), malloc_in = (\<lambda>_. True), malloc_out = (\<lambda>_. True),
     junk = (\<lambda>_. 0x55), ftruncate_ok = True, c_tolower = id, c_toupper = id,
     dup_ok = (\<lambda>_. True), clock = []\<rparr>"

lemmas jcl_eval = jcl_def operand_def f_bs_def f_cbs_def f_ibs_def f_obs_def f_conv_def conv_step_def
  bs_checks_def cfunc_checks_def offset_checks_def dd_init_def io0_def upd_in_def upd_out_def diag_def errx_def
  get_num.simps strtoq_def strto_def c_isspace_def digit_val_def multiplier_def wrap64_def
  bsearch_def bsearch_loop.simps args_def clist_def

lemmas setup_eval = prepare_def dd_setup_def open_input_def open_output_def getfdtype_def alloc_def
  truncate_out_def case_tables_def demo_env_def

lemmas copy_eval = main_def at_exit_def dd_in.simps dd_in_step_def limit_reached_def sync_fill_def take_block_def
  cfunc_call_def block_def block_main_def block_loop.simps dd_close_def block_close_def dd_out_def out_loop.simps
  write_block.simps account_def flush_pending_def c_write.simps write_at_def load_def store_def peek_def poke_def
  memmove_def sub_size_def of_opt_def upd_st_def toss_rest_def xlate_def summary_def def_def def_close_def
  swab_in_def err_def junk_block_def

section \<open>Properties\<close>

text \<open>C2: A buffered copy with any \<open>ibs\<close>, \<open>obs\<close>, \<open>count\<close>, \<open>conv=sync\<close>,
  \<open>swab\<close>, \<open>noerror\<close>, \<open>notrunc\<close>, case or character-set conversion, from a
  kernel that may return short reads and accept short and interrupted writes, exits with status 0
  after writing exactly the translated input blocks, in order, at the output position; the byte
  count reported is their number.\<close>

theorem dd_copies:
  assumes "prepare e argv = Inr s" "files_cnt s = 1" "ok_out s" "cfunc s = Def" "\<not> flag s C_BS"
    and "\<not> flag s C_OSYNC" "Rerr \<notin> set (in_fd s) \<or> flag s C_NOERROR"
  shows "\<exists>s'. main e argv = Exit 0 s' \<and> wrote_all s s' (map (xlate (ctab s)) (concat (input_blocks s)))"
  by (rule dd_copies_lemma [OF assms])

theorem dd_copies_witness:
  "\<exists>s s'. prepare (demo_env [Accept 1, Wintr] [Data [1, 2, 3], Rerr, Data [4]])
      [''ibs=2'', ''obs=3'', ''conv=noerror,sync,swab''] = Inr s \<and>
    main (demo_env [Accept 1, Wintr] [Data [1, 2, 3], Rerr, Data [4]])
      [''ibs=2'', ''obs=3'', ''conv=noerror,sync,swab''] = Exit 0 s' \<and>
    wrote_all s s' [2, 1, 0, 3, 0, 0, 0, 4]"
proof -
  obtain s where s: "prepare (demo_env [Accept 1, Wintr] [Data [1, 2, 3], Rerr, Data [4]])
      [''ibs=2'', ''obs=3'', ''conv=noerror,sync,swab''] = Inr s"
    and p: "files_cnt s = 1" "ok_out s" "cfunc s = Def" "\<not> flag s C_BS" "\<not> flag s C_OSYNC"
      "Rerr \<notin> set (in_fd s) \<or> flag s C_NOERROR" "ctab s = None"
    and i: "in_fd s = [Data [1, 2, 3], Rerr, Data [4]]" "dbsz (io_in s) = 2" "cpy_cnt s = 0"
      "ddflags s = 0x31480"
    by (simp add: setup_eval jcl_eval ok_out_def)
  have "blocks 2 (Some 0) [Data [1, 2, 3], Rerr, Data [4]] = [[1, 2], [3, 0], [0, 0], [4, 0]]"
    by (simp add: blocks.simps eval_nat_numeral)
  then have "concat (input_blocks s) = [2, 1, 0, 3, 0, 0, 0, 4]"
    using i by (simp add: input_blocks_def limited_def filler_def fill_char_def swapped_def)
  then show ?thesis using s dd_copies [OF s p(1-6)] p(7) by auto
qed

text \<open>With \<open>bs=\<close> and no conversion that turns it off, every input block is written as
  it is read. A character-set table does not turn it off and is not applied: the output is the
  input blocks as they are, whatever \<open>ctab\<close> is.\<close>

theorem dd_unbuffered:
  assumes "prepare e argv = Inr s" "files_cnt s = 1" "ok_out s" "cfunc s = Def" "flag s C_BS"
    and "\<not> flag s C_SWAB" "Rerr \<notin> set (in_fd s) \<or> flag s C_NOERROR"
  shows "\<exists>s'. main e argv = Exit 0 s' \<and> wrote_all s s' (concat (input_blocks s))"
proof -
  obtain s' where "bind_r (files_loop (Suc 0) s) dd_close = Inr s'" "emitted (concat (input_blocks s)) s s'"
    using unbuffered_copy [OF assms(5,6) prepare_ready(10) [OF assms(1,4)] assms(3,4,7)] by blast
  then show ?thesis using main_copies [OF assms(1,2)] emitted_wrote_all assms(1) by blast
qed

theorem dd_unbuffered_witness:
  "\<exists>s s'. prepare (demo_env [] [Data [0xC1]]) [''bs=4'', ''conv=ascii''] = Inr s \<and>
    ctab s = Some e2a_POSIX \<and> main (demo_env [] [Data [0xC1]]) [''bs=4'', ''conv=ascii''] = Exit 0 s' \<and>
    wrote_all s s' [0xC1]"
proof -
  obtain s where s: "prepare (demo_env [] [Data [0xC1]]) [''bs=4'', ''conv=ascii''] = Inr s"
    and p: "files_cnt s = 1" "ok_out s" "cfunc s = Def" "flag s C_BS" "\<not> flag s C_SWAB"
      "Rerr \<notin> set (in_fd s) \<or> flag s C_NOERROR" "ctab s = Some e2a_POSIX"
    and i: "in_fd s = [Data [0xC1]]" "dbsz (io_in s) = 4" "cpy_cnt s = 0" "ddflags s = 0x5"
    by (simp add: setup_eval jcl_eval ok_out_def)
  have "concat (input_blocks s) = [0xC1]"
    using i by (simp add: input_blocks_def limited_def filler_def swapped_def blocks.simps)
  then show ?thesis using s dd_unbuffered [OF s p(1-6)] p(7) by auto
qed

text \<open>C16: \<open>conv=block\<close> turns every line of the input, however the reads cut it up, into one
  record of exactly \<open>cbs\<close> bytes: the translated first \<open>cbs\<close> characters of the line,
  padded with (translated) blanks; an unterminated last line gives a last record.\<close>

theorem dd_blocks:
  assumes "simple_run e argv s (lines_text ls @ r)" "cfunc s = Block" "\<not> flag s C_BS"
    and "\<forall>l \<in> set ls. nl \<notin> set l" "nl \<notin> set r"
  shows "\<exists>s'. main e argv = Exit 0 s' \<and>
    wrote_all s s' (line_records (cbsz s) (ctab s) ls @ last_record (cbsz s) (ctab s) r)"
  by (rule dd_blocks_lemma [OF assms])

theorem dd_blocks_witness:
  "\<exists>s s'. simple_run (demo_env [] [Data [97, 98], Data [99, 10, 100]]) [''cbs=2'', ''obs=3'', ''conv=block''] s
      (lines_text [[97, 98, 99]] @ [100]) \<and>
    main (demo_env [] [Data [97, 98], Data [99, 10, 100]]) [''cbs=2'', ''obs=3'', ''conv=block''] = Exit 0 s' \<and>
    wrote_all s s' [97, 98, 100, 32]"
proof -
  obtain s where s: "simple_run (demo_env [] [Data [97, 98], Data [99, 10, 100]])
      [''cbs=2'', ''obs=3'', ''conv=block''] s (lines_text [[97, 98, 99]] @ [100])"
    and p: "cfunc s = Block" "\<not> flag s C_BS" "cbsz s = 2" "ctab s = None"
    by (simp add: simple_run_def setup_eval jcl_eval ok_out_def lines_text_def)
  have "line_records 2 None [[97, 98, 99]] @ last_record 2 None [100] = [97, 98, 100, 32]"
    by (simp add: line_records_def last_record_def pad_def xlate_def eval_nat_numeral)
  then show ?thesis using s dd_blocks [OF s p(1,2)] p(3,4) by auto
qed

text \<open>C17: \<open>conv=unblock\<close> without a table turns every \<open>cbs\<close> bytes of the input into a
  line without its trailing blanks; a short last record is a last line.\<close>

theorem dd_unblocks:
  assumes "simple_run e argv s (concat rs @ r)" "cfunc s = Unblock" "\<not> flag s C_BS" "ctab s = None"
    and "\<forall>x \<in> set rs. length x = cbsz s" "length r < cbsz s"
  shows "\<exists>s'. main e argv = Exit 0 s' \<and>
    wrote_all s s' (lines_text (map strip (rs @ (if r = [] then [] else [r]))))"
proof -
  have n: "0 < cbsz s" using assms(6) by simp
  have "cut_records (cbsz s) (concat rs @ r) = (concat (map (\<lambda>r. strip r @ [nl]) rs), r)"
    using cut_records_append [of "cbsz s" "concat rs" r] cut_records_recs [OF assms(5) n] assms(6)
    by (simp add: cut_records.simps [of "cbsz s" r])
  then show ?thesis using dd_unblocks_lemma [OF assms(1-4)]
    by (auto simp: final_unblock_def lines_text_def comp_def)
qed

theorem dd_unblocks_witness:
  "\<exists>s s'. simple_run (demo_env [] [Data [97, 32, 98, 99, 100]]) [''cbs=2'', ''ibs=3'', ''conv=unblock''] s
      (concat [[97, 32], [98, 99]] @ [100]) \<and>
    main (demo_env [] [Data [97, 32, 98, 99, 100]]) [''cbs=2'', ''ibs=3'', ''conv=unblock''] = Exit 0 s' \<and>
    wrote_all s s' [97, 10, 98, 99, 10, 100, 10]"
proof -
  obtain s where s: "simple_run (demo_env [] [Data [97, 32, 98, 99, 100]])
      [''cbs=2'', ''ibs=3'', ''conv=unblock''] s (concat [[97, 32], [98, 99]] @ [100])"
    and p: "cfunc s = Unblock" "\<not> flag s C_BS" "ctab s = None" "cbsz s = 2"
    by (simp add: simple_run_def setup_eval jcl_eval ok_out_def)
  have "lines_text (map strip ([[97, 32], [98, 99]] @ [[100]])) = [97, 10, 98, 99, 10, 100, 10]"
    by (simp add: lines_text_def strip_def)
  then show ?thesis using s dd_unblocks [OF s p(1-3)] p(4) by auto
qed

text \<open>C18: Blocking and unblocking with the same \<open>cbs\<close> is a round trip: lines of at most
  \<open>cbs\<close> characters without trailing blanks come back unchanged when the file written by a
  run with \<open>conv=block\<close> is read by a run with \<open>conv=unblock\<close>, whatever the block sizes
  of the two runs.\<close>

theorem dd_block_unblock:
  assumes "simple_run e argv s (lines_text ls)" "cfunc s = Block" "\<not> flag s C_BS" "ctab s = None"
    and "content (out_fd s) = []" "pos (out_fd s) = 0"
    and "\<forall>l \<in> set ls. nl \<notin> set l \<and> length l \<le> cbsz s \<and> strip l = l"
    and "main e argv = Exit 0 s'" "simple_run e2 argv2 s2 (content (out_fd s'))"
    and "cfunc s2 = Unblock" "\<not> flag s2 C_BS" "ctab s2 = None" "cbsz s2 = cbsz s"
  shows "\<exists>s3. main e2 argv2 = Exit 0 s3 \<and> wrote_all s2 s3 (lines_text ls)"
proof -
  let ?n = "cbsz s" and ?rs = "map (\<lambda>l. pad (cbsz s) None (take (cbsz s) l)) ls"
  have "content (out_fd s') = concat ?rs"
    using dd_blocks_lemma [of e argv s ls "[]"] assms
    by (auto simp: last_record_def line_records_def wrote_all_def)
  moreover have rs: "\<forall>r \<in> set ?rs. length r = ?n" using assms(7) by (auto simp: pad_def)
  moreover have n: "0 < ?n"
    using prepare_ready(11) [of e argv s] assms(1,2)
    by (simp add: simple_run_def ready_block_def rec_inv_def)
  moreover have "concat (map (\<lambda>r. strip r @ [nl]) ?rs) = lines_text ls"
  proof -
    have "strip (pad ?n None (take ?n l)) @ [nl] = l @ [nl]" if "l \<in> set ls" for l
      using that assms(7) by (simp add: strip_pad)
    then have "map (\<lambda>r. strip r @ [nl]) ?rs = map (\<lambda>l. l @ [nl]) ls" by simp
    then show ?thesis unfolding lines_text_def by (rule arg_cong)
  qed
  ultimately have "cut_records ?n (content (out_fd s')) = (lines_text ls, [])"
    using cut_records_recs [OF rs n] by (simp only:)
  then show ?thesis using dd_unblocks_lemma [OF assms(9-12)] assms(13) by (simp add: final_unblock_def)
qed

theorem dd_block_unblock_witness:
  "\<exists>s' s3. main (demo_env [] [Data [97, 10, 98, 99, 10]]) [''cbs=2'', ''conv=block''] = Exit 0 s' \<and>
    main (demo_env [] [Data (content (out_fd s'))]) [''cbs=2'', ''ibs=3'', ''conv=unblock''] = Exit 0 s3 \<and>
    content (out_fd s3) = [97, 10, 98, 99, 10]"
proof -
  let ?e = "demo_env [] [Data [97, 10, 98, 99, 10]]" and ?a = "[''cbs=2'', ''conv=block'']"
  obtain s where s: "simple_run ?e ?a s (lines_text [[97], [98, 99]])"
    and p: "cfunc s = Block" "\<not> flag s C_BS" "ctab s = None" "content (out_fd s) = []" "pos (out_fd s) = 0" "cbsz s = 2"
    by (simp add: simple_run_def setup_eval jcl_eval ok_out_def lines_text_def)
  obtain s' where s': "main ?e ?a = Exit 0 s'" "content (out_fd s') = [97, 32, 98, 99]"
  proof -
    have "line_records 2 None [[97], [98, 99]] = [97, 32, 98, 99]"
      by (simp add: line_records_def pad_def xlate_def)
    then show thesis using that dd_blocks_lemma [of ?e ?a s "[[97], [98, 99]]" "[]"] s p
      by (auto simp: wrote_all_def last_record_def)
  qed
  let ?e2 = "demo_env [] [Data (content (out_fd s'))]" and ?a2 = "[''cbs=2'', ''ibs=3'', ''conv=unblock'']"
  obtain s2 where s2: "simple_run ?e2 ?a2 s2 (content (out_fd s'))"
    and p2: "cfunc s2 = Unblock" "\<not> flag s2 C_BS" "ctab s2 = None" "cbsz s2 = cbsz s"
      "content (out_fd s2) = []" "pos (out_fd s2) = 0"
    using p(6) s'(2) by (simp add: simple_run_def setup_eval jcl_eval ok_out_def)
  have "\<forall>l \<in> set [[97], [98, 99]]. nl \<notin> set l \<and> length l \<le> cbsz s \<and> strip l = l"
    using p(6) by (simp add: strip_def)
  from dd_block_unblock [OF s p(1-5) this s'(1) s2 p2(1-4)] show ?thesis
    using s'(1) p2(5,6) by (auto simp: wrote_all_def lines_text_def)
qed

text \<open>With \<open>conv=osync\<close> closing a plain copy fills the last output block: the bytes
  still held are written and padded with zero bytes (blanks for record conversions) to the
  output block size.\<close>

theorem dd_close_osync:
  assumes "ready_def t s () h" "ok_out s" "cfunc s = Def" "flag s C_OSYNC" "h \<noteq> []"
  shows "\<exists>s'. dd_close s = Inr s' \<and> length (h @ replicate (dbsz (io_out s) - length h) (fill_char s)) = dbsz (io_out s) \<and>
    emitted (h @ replicate (dbsz (io_out s) - length h) (fill_char s)) s s'"
  using plain.dd_close_pads [of s t "()" h] assms by (auto simp: close_call_def ready_def_def)

theorem dd_close_osync_witness:
  "\<exists>s s'. ready_def None s () [7] \<and> dbsz (io_out s) = 3 \<and> dd_close s = Inr s' \<and> emitted [7, 0, 0] s s'"
proof -
  let ?s = "dd_init\<lparr>io_in := (io0 InBuf)\<lparr>dbsz := 2, dbp := 1, dbcnt := 1\<rparr>,
    io_out := (io0 InBuf)\<lparr>dbsz := 3, dbp := 1, dbcnt := 1\<rparr>, ibuf := [7, 9, 9, 9], ddflags := C_OSYNC\<rparr>"
  have r: "ready_def None ?s () [7]" by (simp add: ready_def_def dd_init_def io0_def)
  have f: "ok_out ?s" "cfunc ?s = Def" "flag ?s C_OSYNC" "([7] :: bytes) \<noteq> []"
    by (simp_all add: ok_out_def dd_init_def io0_def)
  have "[7] @ replicate (dbsz (io_out ?s) - length [7 :: u8]) (fill_char ?s) = [7, 0, 0]"
    by (simp add: fill_char_def io0_def numeral_2_eq_2)
  then obtain s' where "dd_close ?s = Inr s'" "emitted [7, 0, 0] ?s s'"
    using dd_close_osync [OF r f] by metis
  moreover have "dbsz (io_out ?s) = 3" by (simp add: io0_def)
  ultimately show ?thesis using r by blast
qed

text \<open>A short last line with \<open>conv=block,osync\<close> is lost: \<open>block_close\<close> does not
  advance \<open>out.dbp\<close>, so the padding overwrites the last record, and the rest of the block is
  whatever the buffer held.\<close>

theorem osync_overwrites_last_record:
  "\<exists>s. main (demo_env [] [Data [97, 98]]) [''cbs=4'', ''obs=8'', ''conv=block,osync''] = Exit 0 s \<and>
    content (out_fd s) = [32, 32, 32, 32, 0x55, 0x55, 0x55, 0x55]"
  by (simp add: copy_eval setup_eval jcl_eval) (simp add: eval_nat_numeral)

text \<open>With \<open>bs=\<close>, \<open>cbs=\<close> and \<open>conv=ascii\<close>, \<open>bs\<close> stays in effect
  although the record conversion gets its own output buffer, and the blocks written are
  uninitialised memory instead of the input.\<close>

theorem bs_cbs_ascii_writes_junk:
  "\<exists>s. main (demo_env [] [Data [0xC1, 0xC2]]) [''bs=2'', ''cbs=2'', ''conv=ascii''] = Exit 0 s \<and>
    content (out_fd s) = [0x55, 0x55]"
  by (simp add: copy_eval setup_eval jcl_eval unblock_close_def) (simp add: eval_nat_numeral)

text \<open>When a sparse copy ends in a hole, the byte written to extend the file is the first
  byte of the buffer, not a zero byte: the copy of 1 1 1 1 0 0 0 0 ends in 1.\<close>

theorem sparse_copy_ends_wrong:
  "\<exists>s. main (demo_env [] [Data [1, 1, 1, 1, 0, 0, 0, 0]]) [''ibs=8'', ''obs=4'', ''conv=sparse''] = Exit 0 s \<and>
    content (out_fd s) = [1, 1, 1, 1, 0, 0, 0, 1]"
  by (simp add: copy_eval setup_eval jcl_eval) (simp add: eval_nat_numeral)

end
