(* ===== verification/Splay.thy ===== *)
theory Splay
  imports Prelude
begin

text \<open>
  Sleator's top-down splay, the routine that \<^verbatim>\<open>text_cmds-88/tr/cset.c\<close> and
  \<^verbatim>\<open>text_cmds-88/tr/cmap.c\<close> both contain (\<open>cset_splay\<close>, \<open>cmap_splay\<close>: the same code up to
  the names and the comparison). The comparison of the sought key with an element is a
  parameter: negative when the key comes before the element, positive when it comes after.
\<close>

section \<open>Trees\<close>

datatype 'e node = Null | Node (node_left: "'e node") (node_elem: 'e) (node_right: "'e node")

fun elems :: "'e node \<Rightarrow> 'e list" where
  "elems Null = []"
| "elems (Node l e r) = elems l @ e # elems r"

lemma elems_Nil [simp]: "elems t = [] \<longleftrightarrow> t = Null"
  by (cases t) auto

section \<open>The loop\<close>

text \<open>
  The rotation the loop does first when the next two steps go the same way
  (\<open>y = t->left; t->left = y->right; y->right = t; t = y\<close>, and its mirror image).
\<close>

fun rotate_right :: "('e \<Rightarrow> int) \<Rightarrow> 'e node \<Rightarrow> 'e \<Rightarrow> 'e node \<Rightarrow> 'e node \<times> 'e \<times> 'e node" where
  "rotate_right cmp Null e r = (Null, e, r)"
| "rotate_right cmp (Node a y b) e r =
     (if cmp y < 0 then (a, y, Node b e r) else (Node a y b, e, r))"

fun rotate_left :: "('e \<Rightarrow> int) \<Rightarrow> 'e node \<Rightarrow> 'e \<Rightarrow> 'e node \<Rightarrow> 'e node \<times> 'e \<times> 'e node" where
  "rotate_left cmp l e Null = (l, e, Null)"
| "rotate_left cmp l e (Node a y b) =
     (if 0 < cmp y then (Node l e a, y, b) else (l, e, Node a y b))"

lemma rotate_right_size: "rotate_right cmp a e b = (a', e', b') \<Longrightarrow> size a' \<le> size a"
  by (cases a) (auto split: if_splits)

lemma rotate_left_size: "rotate_left cmp a e b = (a', e', b') \<Longrightarrow> size b' \<le> size b"
  by (cases b) (auto split: if_splits)

text \<open>
  The trees hanging from \<open>N\<close>: \<open>l\<close> is the chain of nodes linked through their right
  pointers, each with its left subtree, the last one linked first; \<open>r\<close> the mirror image.
\<close>

function splay_loop ::
  "('e \<Rightarrow> int) \<Rightarrow> 'e node \<Rightarrow> ('e node \<times> 'e) list \<Rightarrow> ('e \<times> 'e node) list \<Rightarrow>
   'e node \<times> ('e node \<times> 'e) list \<times> ('e \<times> 'e node) list" where
  "splay_loop cmp Null l r = (Null, l, r)"
| "splay_loop cmp (Node a e b) l r =
     (if cmp e < 0 then
        (case rotate_right cmp a e b of (a', e', b') \<Rightarrow>
           if a' = Null then (Node a' e' b', l, r)
           else splay_loop cmp a' l ((e', b') # r))
      else if 0 < cmp e then
        (case rotate_left cmp a e b of (a', e', b') \<Rightarrow>
           if b' = Null then (Node a' e' b', l, r)
           else splay_loop cmp b' ((a', e') # l) r)
      else (Node a e b, l, r))"
  by pat_completeness auto

termination
  by (relation "measure (\<lambda>(cmp, t, l, r). size t)")
    (auto dest!: rotate_right_size [OF sym] rotate_left_size [OF sym])

text \<open>The last four assignments: the chains are closed with the subtrees of the node reached,
  which becomes the root.\<close>

definition close_left :: "('e node \<times> 'e) list \<Rightarrow> 'e node \<Rightarrow> 'e node" where
  "close_left l t = fold (\<lambda>(a, e) t. Node a e t) l t"

definition close_right :: "('e \<times> 'e node) list \<Rightarrow> 'e node \<Rightarrow> 'e node" where
  "close_right r t = fold (\<lambda>(e, b) t. Node t e b) r t"

definition splay :: "('e \<Rightarrow> int) \<Rightarrow> 'e node \<Rightarrow> 'e node" where
  "splay cmp t =
     (case splay_loop cmp t [] [] of
        (Null, l, r) \<Rightarrow> Null
      | (Node a e b, l, r) \<Rightarrow> Node (close_left l a) e (close_right r b))"

section \<open>The elements are kept in order\<close>

definition left_elems :: "('e node \<times> 'e) list \<Rightarrow> 'e list" where
  "left_elems l = concat (map (\<lambda>(a, e). elems a @ [e]) (rev l))"

definition right_elems :: "('e \<times> 'e node) list \<Rightarrow> 'e list" where
  "right_elems r = concat (map (\<lambda>(e, b). e # elems b) r)"

lemma chain_elems [simp]:
  "left_elems [] = []" "left_elems ((a, e) # l) = left_elems l @ elems a @ [e]"
  "right_elems [] = []" "right_elems ((e, b) # r) = e # elems b @ right_elems r"
  by (simp_all add: left_elems_def right_elems_def)

lemma elems_close_left [simp]: "elems (close_left l t) = left_elems l @ elems t"
proof (induction l arbitrary: t)
  case (Cons p l)
  then show ?case by (cases p) (simp add: close_left_def)
qed (simp add: close_left_def)

lemma elems_close_right [simp]: "elems (close_right r t) = elems t @ right_elems r"
proof (induction r arbitrary: t)
  case (Cons p r)
  then show ?case by (cases p) (simp add: close_right_def)
qed (simp add: close_right_def)

lemma rotate_elems:
  "rotate_right cmp a e b = (a', e', b') \<Longrightarrow> elems a' @ e' # elems b' = elems a @ e # elems b"
  "rotate_left cmp a e b = (a', e', b') \<Longrightarrow> elems a' @ e' # elems b' = elems a @ e # elems b"
  by (cases a; force split: if_splits) (cases b; force split: if_splits)

lemma rotate_cmp:
  "rotate_right cmp a e b = (a', e', b') \<Longrightarrow> cmp e < 0 \<Longrightarrow> cmp e' < 0"
  "rotate_left cmp a e b = (a', e', b') \<Longrightarrow> 0 < cmp e \<Longrightarrow> 0 < cmp e'"
  by (cases a; force split: if_splits) (cases b; force split: if_splits)

lemma splay_loop_elems:
  "splay_loop cmp t l r = (t', l', r') \<Longrightarrow>
     left_elems l' @ elems t' @ right_elems r' = left_elems l @ elems t @ right_elems r"
proof (induction cmp t l r rule: splay_loop.induct)
  case (2 cmp a e b l r)
  show ?case
    using "2.prems" "2.IH" rotate_elems [of cmp a e b]
    by (auto split: if_splits prod.splits simp: append_assoc [symmetric] simp del: append_assoc)
      (force)+
qed simp

lemma splay_loop_Null: "splay_loop cmp t l r = (Null, l', r') \<Longrightarrow> t = Null"
  by (induction cmp t l r rule: splay_loop.induct) (auto split: if_splits prod.splits)

lemma elems_splay [simp]: "elems (splay cmp t) = elems t"
  using splay_loop_elems [of cmp t "[]" "[]"] splay_loop_Null [of cmp t "[]" "[]"]
  by (fastforce simp: splay_def split: prod.splits node.splits)

lemma splay_Null [simp]: "splay cmp t = Null \<longleftrightarrow> t = Null"
  by (metis elems_Nil elems_splay)

section \<open>The root separates\<close>

text \<open>
  The contract of the comparison: along a sequence that is sorted by \<open>before\<close>, a key that
  does not come after an element comes before all later ones, and the mirror image.
\<close>

locale search_order =
  fixes before :: "'e \<Rightarrow> 'e \<Rightarrow> bool" and cmp :: "'k \<Rightarrow> 'e \<Rightarrow> int"
  assumes cmp_up: "before a b \<Longrightarrow> cmp k a \<le> 0 \<Longrightarrow> cmp k b < 0"
    and cmp_down: "before a b \<Longrightarrow> 0 \<le> cmp k b \<Longrightarrow> 0 < cmp k a"
begin

lemma splay_loop_separates:
  assumes "splay_loop (cmp k) t l r = (Node a e b, l', r')" "sorted_wrt before (elems t)"
    and "\<forall>x \<in> set (left_elems l). 0 < cmp k x" "\<forall>x \<in> set (right_elems r). cmp k x < 0"
  shows "(\<forall>x \<in> set (left_elems l' @ elems a). 0 < cmp k x) \<and>
    (\<forall>x \<in> set (elems b @ right_elems r'). cmp k x < 0)"
  using assms
proof (induction "cmp k" t l r rule: splay_loop.induct)
  case (2 c f d l r)
  let ?t = "Node c f d"
  obtain c1 f1 d1 where R: "rotate_right (cmp k) c f d = (c1, f1, d1)" by (metis prod_cases3)
  obtain c2 f2 d2 where L: "rotate_left (cmp k) c f d = (c2, f2, d2)" by (metis prod_cases3)
  have sr: "sorted_wrt before (elems c1 @ f1 # elems d1)"
    and sl: "sorted_wrt before (elems c2 @ f2 # elems d2)"
    using rotate_elems(1) [OF R] rotate_elems(2) [OF L] "2.prems"(2) by simp_all
  consider "cmp k f < 0" "c1 = Null" | "cmp k f < 0" "c1 \<noteq> Null" | "0 < cmp k f" "d2 = Null"
    | "0 < cmp k f" "d2 \<noteq> Null" | "cmp k f = 0" by linarith
  then show ?case
  proof cases
    case 1
    then have "cmp k f1 < 0" using rotate_cmp(1) [OF R] by simp
    then have "\<forall>x \<in> set (elems d1). cmp k x < 0"
      using sr cmp_up by (fastforce simp: sorted_wrt_append)
    then show ?thesis using "2.prems"(1,3,4) 1 R by auto
  next
    case 2
    then have f1: "cmp k f1 < 0" using rotate_cmp(1) [OF R] by simp
    then have d1: "\<forall>x \<in> set (elems d1). cmp k x < 0"
      using sr cmp_up by (fastforce simp: sorted_wrt_append)
    have "splay_loop (cmp k) c1 l ((f1, d1) # r) = (Node a e b, l', r')"
      using "2.prems"(1) 2 R by simp
    then show ?thesis
      by (rule "2.hyps"(1) [OF 2(1) R [symmetric] refl 2(2)])
        (use sr f1 d1 "2.prems"(3,4) in \<open>auto simp: sorted_wrt_append\<close>)
  next
    case 3
    then have "0 < cmp k f2" using rotate_cmp(2) [OF L] by simp
    then have "\<forall>x \<in> set (elems c2). 0 < cmp k x"
      using sl cmp_down by (fastforce simp: sorted_wrt_append)
    then show ?thesis using "2.prems"(1,3,4) 3 L by auto
  next
    case 4
    then have f2: "0 < cmp k f2" using rotate_cmp(2) [OF L] by simp
    then have c2: "\<forall>x \<in> set (elems c2). 0 < cmp k x"
      using sl cmp_down by (fastforce simp: sorted_wrt_append)
    have "splay_loop (cmp k) d2 ((c2, f2) # l) r = (Node a e b, l', r')"
      using "2.prems"(1) 4 L by simp
    then show ?thesis
      by (rule "2.hyps"(2) [OF less_not_sym [OF 4(1)] 4(1) L [symmetric] refl 4(2)])
        (use sl f2 c2 "2.prems"(3,4) in \<open>auto simp: sorted_wrt_append\<close>)
  next
    case 5
    then have "\<forall>x \<in> set (elems c). 0 < cmp k x" "\<forall>x \<in> set (elems d). cmp k x < 0"
      using "2.prems"(2) cmp_up cmp_down by (auto simp: sorted_wrt_append intro: order_eq_refl)
    then show ?thesis using "2.prems"(1,3,4) 5 by auto
  qed
qed simp

theorem splay_separates:
  assumes "sorted_wrt before (elems t)" "splay (cmp k) t = Node a e b"
  shows "\<forall>x \<in> set (elems a). 0 < cmp k x" "\<forall>x \<in> set (elems b). cmp k x < 0"
proof -
  obtain t' l' r' where S: "splay_loop (cmp k) t [] [] = (t', l', r')" by (metis prod_cases3)
  with assms(2) obtain a' b' where "t' = Node a' e b'" "a = close_left l' a'" "b = close_right r' b'"
    by (auto simp: splay_def split: node.splits)
  then show "\<forall>x \<in> set (elems a). 0 < cmp k x" "\<forall>x \<in> set (elems b). cmp k x < 0"
    using splay_loop_separates [of k t "[]" "[]" a' e b' l' r'] S assms(1) by auto
qed

text \<open>So a key is in some element exactly when it is in the root after the splay.\<close>

corollary splay_finds:
  assumes "sorted_wrt before (elems t)" "splay (cmp k) t = Node a e b"
  shows "(\<exists>x \<in> set (elems t). cmp k x = 0) \<longleftrightarrow> cmp k e = 0"
proof -
  have "set (elems t) = set (elems a) \<union> {e} \<union> set (elems b)"
    unfolding elems_splay [of "cmp k" t, symmetric] assms(2) by simp
  then show ?thesis using splay_separates [OF assms] by auto
qed

end

end
