(* ===== verification/Tr_Lib.thy ===== *)
theory Tr_Lib
  imports Prelude
begin

text \<open>
  What the four files of \<^verbatim>\<open>text_cmds-88/tr\<close> share: how the program can stop, and the
  locale-dependent routines of the C library it calls, as a record of functions with the
  \<open>C\<close> locale as an instance. \<open>wchar_t\<close> and \<open>wint_t\<close> are 32-bit signed integers on
  the target, held as \<open>int\<close>; arithmetic on them that would leave the range stops the
  model with \<open>Fault\<close>.
\<close>

section \<open>Stops\<close>

text \<open>
  \<open>Abort\<close> is a failed \<open>assert\<close>; \<open>Fault\<close> an access outside an array or a string, or
  a signed overflow, which C leaves undefined; \<open>Stop d\<close> an exit with status 1 after the
  diagnostic \<open>d\<close> (\<open>err\<close>, \<open>errx\<close>, \<open>errc\<close>, \<open>usage\<close>).
\<close>

datatype tr_stop = Abort | Fault | Stop diag

abbreviation WCHAR_MIN :: int where "WCHAR_MIN \<equiv> - (2 ^ 31)"
abbreviation WCHAR_MAX :: int where "WCHAR_MAX \<equiv> 2 ^ 31 - 1"
abbreviation OOBCH :: int where "OOBCH \<equiv> - 1"
abbreviation NCHARS_SB :: nat where "NCHARS_SB \<equiv> 256"

definition wint :: "int \<Rightarrow> tr_stop + int" where
  "wint x = (if WCHAR_MIN \<le> x \<and> x \<le> WCHAR_MAX then Inr x else Inl Fault)"

lemma wint_Inr [simp]: "WCHAR_MIN \<le> x \<Longrightarrow> x \<le> WCHAR_MAX \<Longrightarrow> wint x = Inr x"
  by (simp add: wint_def)

definition array_get :: "'a list \<Rightarrow> int \<Rightarrow> tr_stop + 'a" where
  "array_get xs i = (if 0 \<le> i \<and> i < int (length xs) then Inr (xs ! nat i) else Inl Fault)"

lemma array_get_Inr [simp]: "0 \<le> i \<Longrightarrow> i < int (length xs) \<Longrightarrow> array_get xs i = Inr (xs ! nat i)"
  by (simp add: array_get_def)

section \<open>The C library's locale\<close>

text \<open>
  \<open>mbrtowc(&wc, s, MB_LEN_MAX, NULL)\<close>: no valid character at \<open>s\<close> (a result of
  \<open>-1\<close> or \<open>-2\<close>), or the character and the number of bytes it takes (0 at the
  terminator). \<open>wctype\<close> gives 0 for an unknown class, \<open>nextwctype\<close> the next member of a
  class after a character or \<open>-1\<close>, \<open>strxfrm\<close> the transformed string. \<open>mem\<close> says whether
  \<open>malloc\<close> and \<open>strdup\<close> succeed in the run.
\<close>

datatype mb = MbBad | MbChar int nat

record libc =
  mem :: bool
  MB_CUR_MAX :: nat
  mbrtowc :: "string \<Rightarrow> mb"
  wctype :: "string \<Rightarrow> nat"
  iswctype :: "int \<Rightarrow> nat \<Rightarrow> bool"
  nextwctype :: "int \<Rightarrow> nat \<Rightarrow> int"
  towupper :: "int \<Rightarrow> int"
  towlower :: "int \<Rightarrow> int"
  strcoll :: "string \<Rightarrow> string \<Rightarrow> int"
  strxfrm :: "string \<Rightarrow> string"

definition iswrune :: "libc \<Rightarrow> int \<Rightarrow> bool" where
  "iswrune lc ch = iswctype lc ch (wctype lc ''rune'')"

definition iswupper :: "libc \<Rightarrow> int \<Rightarrow> bool" where
  "iswupper lc ch = iswctype lc ch (wctype lc ''upper'')"

definition iswlower :: "libc \<Rightarrow> int \<Rightarrow> bool" where
  "iswlower lc ch = iswctype lc ch (wctype lc ''lower'')"

section \<open>The C locale\<close>

text \<open>The classes of the manual page; the last three have no member here.\<close>

definition class_names :: "string list" where
  "class_names = [''upper'', ''lower'', ''digit'', ''alpha'', ''alnum'', ''blank'', ''cntrl'', ''graph'',
     ''print'', ''punct'', ''space'', ''xdigit'', ''rune'', ''ideogram'', ''phonogram'', ''special'']"

fun index_of :: "'a \<Rightarrow> 'a list \<Rightarrow> nat" where
  "index_of x [] = 0"
| "index_of x (y # ys) = (if x = y then 1 else let n = index_of x ys in if n = 0 then 0 else Suc n)"

definition c_iswctype :: "int \<Rightarrow> nat \<Rightarrow> bool" where
  "c_iswctype c k =
     (let upper = 65 \<le> c \<and> c \<le> 90; lower = 97 \<le> c \<and> c \<le> 122; digit = 48 \<le> c \<and> c \<le> 57;
          graph = 33 \<le> c \<and> c \<le> 126 in
      if k = 1 then upper
      else if k = 2 then lower
      else if k = 3 then digit
      else if k = 4 then upper \<or> lower
      else if k = 5 then upper \<or> lower \<or> digit
      else if k = 6 then c = 32 \<or> c = 9
      else if k = 7 then (0 \<le> c \<and> c < 32) \<or> c = 127
      else if k = 8 then graph
      else if k = 9 then graph \<or> c = 32
      else if k = 10 then graph \<and> \<not> upper \<and> \<not> lower \<and> \<not> digit
      else if k = 11 then c = 32 \<or> (9 \<le> c \<and> c \<le> 13)
      else if k = 12 then digit \<or> (65 \<le> c \<and> c \<le> 70) \<or> (97 \<le> c \<and> c \<le> 102)
      else if k = 13 then 0 \<le> c \<and> c < 128
      else False)"

definition c_nextwctype :: "int \<Rightarrow> nat \<Rightarrow> int" where
  "c_nextwctype c k = (case filter (\<lambda>x. c_iswctype x k) [c + 1..255] of [] \<Rightarrow> -1 | x # _ \<Rightarrow> x)"

definition c_locale :: libc where
  "c_locale =
     \<lparr>mem = True, MB_CUR_MAX = 1,
      mbrtowc = (\<lambda>s. case s of [] \<Rightarrow> MbChar 0 0 | c # _ \<Rightarrow> MbChar (of_char c) 1),
      wctype = (\<lambda>nm. index_of nm class_names),
      iswctype = c_iswctype,
      nextwctype = c_nextwctype,
      towupper = (\<lambda>c. if 97 \<le> c \<and> c \<le> 122 then c - 32 else c),
      towlower = (\<lambda>c. if 65 \<le> c \<and> c \<le> 90 then c + 32 else c),
      strcoll = strcmp,
      strxfrm = (\<lambda>s. s)\<rparr>"

end
