(* ===== verification/Tr_Set.thy ===== *)
theory Tr_Set
  imports Splay Tr_Lib
begin

text \<open>
  The set of characters of \<open>tr\<close> (\<^verbatim>\<open>text_cmds-88/tr/cset.h\<close>, \<^verbatim>\<open>cset.c\<close>): a splay tree of
  disjoint extents, a list of character classes, an inversion flag and a cache for the
  characters below 256. The operations keep the extents apart (they are coalesced when they
  touch) and the cache true, and together they implement a set.
\<close>

section \<open>The structure\<close>

type_synonym extent = "int \<times> int"
type_synonym csnode = "extent node"

abbreviation csn_min :: "csnode \<Rightarrow> int" where "csn_min t \<equiv> fst (node_elem t)"
abbreviation csn_max :: "csnode \<Rightarrow> int" where "csn_max t \<equiv> snd (node_elem t)"

record csclass =
  csc_type :: nat
  csc_invert :: bool

abbreviation CS_CACHE_SIZE :: nat where "CS_CACHE_SIZE \<equiv> 256"

record cset =
  cs_cache :: "bool list"
  cs_havecache :: bool
  cs_classes :: "csclass list"
  cs_root :: csnode
  cs_invert :: bool

text \<open>The storage \<open>malloc\<close> returns is not initialised: no cache entry has been written.\<close>

definition cset_alloc :: cset where
  "cset_alloc =
     \<lparr>cs_cache = [], cs_havecache = False, cs_classes = [], cs_root = Null, cs_invert = False\<rparr>"

section \<open>Operations\<close>

definition cset_rangecmp :: "int \<Rightarrow> extent \<Rightarrow> int" where
  "cset_rangecmp ch t = (if ch < fst t then -1 else if ch > snd t then 1 else 0)"

definition cset_splay :: "csnode \<Rightarrow> int \<Rightarrow> tr_stop + csnode" where
  "cset_splay t ch = (if t = Null then Inl Abort else Inr (splay (cset_rangecmp ch) t))"

definition cset_delete :: "csnode \<Rightarrow> int \<Rightarrow> tr_stop + csnode" where
  "cset_delete t0 ch =
     bind_r (cset_splay t0 ch) (\<lambda>t.
       if cset_rangecmp ch (node_elem t) \<noteq> 0 then Inl Abort
       else if node_left t = Null then Inr (node_right t)
       else bind_r (cset_splay (node_left t) ch) (\<lambda>x.
         Inr (Node (node_left x) (node_elem x) (node_right t))))"

text \<open>Coalescing the new node with its neighbour on the left: its left subtree and its new
  \<open>csn_min\<close>; and on the right.\<close>

definition coalesce_left :: "csnode \<Rightarrow> int \<Rightarrow> tr_stop + csnode \<times> int" where
  "coalesce_left l mn =
     (if l = Null then Inr (l, mn)
      else bind_r (wint (mn - 1)) (\<lambda>pre.
        bind_r (cset_splay l pre) (\<lambda>l1.
          if csn_max l1 = pre then
            bind_r (cset_delete l1 (csn_min l1)) (\<lambda>l2. Inr (l2, csn_min l1))
          else Inr (l1, mn))))"

definition coalesce_right :: "csnode \<Rightarrow> int \<Rightarrow> tr_stop + csnode \<times> int" where
  "coalesce_right r mx =
     (if r = Null then Inr (r, mx)
      else bind_r (wint (mx + 1)) (\<lambda>post.
        bind_r (cset_splay r post) (\<lambda>r1.
          if csn_min r1 = post then
            bind_r (cset_delete r1 (csn_min r1)) (\<lambda>r2. Inr (r2, csn_max r1))
          else Inr (r1, mx))))"

text \<open>\<open>ok\<close> says whether \<open>malloc\<close> succeeds; the result is what \<open>cset_add\<close> returns.\<close>

definition cset_add :: "bool \<Rightarrow> cset \<Rightarrow> int \<Rightarrow> tr_stop + bool \<times> cset" where
  "cset_add ok cs0 ch =
     (let cs = cs0\<lparr>cs_havecache := False\<rparr> in
      if cs_root cs = Null then
        (if ok then Inr (True, cs\<lparr>cs_root := Node Null (ch, ch) Null\<rparr>) else Inr (False, cs))
      else bind_r (cset_splay (cs_root cs) ch) (\<lambda>csn.
        if cset_rangecmp ch (node_elem csn) = 0 then Inr (True, cs\<lparr>cs_root := csn\<rparr>)
        else if \<not> ok then Inr (False, cs\<lparr>cs_root := csn\<rparr>)
        else
          let (l, r) = (if cset_rangecmp ch (node_elem csn) < 0
                        then (node_left csn, Node Null (node_elem csn) (node_right csn))
                        else (Node (node_left csn) (node_elem csn) Null, node_right csn)) in
          bind_r (coalesce_left l ch) (\<lambda>(l', mn).
            bind_r (coalesce_right r ch) (\<lambda>(r', mx).
              Inr (True, cs\<lparr>cs_root := Node l' (mn, mx) r'\<rparr>)))))"

definition in_class :: "libc \<Rightarrow> int \<Rightarrow> csclass \<Rightarrow> bool" where
  "in_class lc ch csc = (csc_invert csc \<noteq> iswctype lc ch (csc_type csc))"

definition cset_in_hard :: "libc \<Rightarrow> cset \<Rightarrow> int \<Rightarrow> tr_stop + bool \<times> cset" where
  "cset_in_hard lc cs ch =
     (if list_ex (in_class lc ch) (cs_classes cs) then Inr (cs_invert cs \<noteq> True, cs)
      else if cs_root cs \<noteq> Null then
        bind_r (cset_splay (cs_root cs) ch) (\<lambda>t.
          Inr (cs_invert cs \<noteq> (cset_rangecmp ch (node_elem t) = 0), cs\<lparr>cs_root := t\<rparr>))
      else Inr (cs_invert cs \<noteq> False, cs))"

fun cset_cache_loop :: "libc \<Rightarrow> cset \<Rightarrow> int list \<Rightarrow> tr_stop + bool list \<times> cset" where
  "cset_cache_loop lc cs [] = Inr ([], cs)"
| "cset_cache_loop lc cs (i # is) =
     bind_r (cset_in_hard lc cs i) (\<lambda>(b, cs1).
       bind_r (cset_cache_loop lc cs1 is) (\<lambda>(bs, cs2). Inr (b # bs, cs2)))"

definition cset_cache :: "libc \<Rightarrow> cset \<Rightarrow> tr_stop + cset" where
  "cset_cache lc cs =
     bind_r (cset_cache_loop lc cs [0..int CS_CACHE_SIZE - 1]) (\<lambda>(bs, cs').
       Inr (cs'\<lparr>cs_cache := bs, cs_havecache := True\<rparr>))"

definition cset_invert :: "cset \<Rightarrow> cset" where
  "cset_invert cs = cs\<lparr>cs_invert := (cs_invert cs \<noteq> True), cs_havecache := False\<rparr>"

definition cset_addclass :: "bool \<Rightarrow> cset \<Rightarrow> nat \<Rightarrow> bool \<Rightarrow> bool \<times> cset" where
  "cset_addclass ok cs type invert =
     (if ok then
        (True, cs\<lparr>cs_classes := \<lparr>csc_type = type, csc_invert = invert\<rparr> # cs_classes cs,
                  cs_havecache := False\<rparr>)
      else (False, cs))"

definition cset_in :: "libc \<Rightarrow> cset \<Rightarrow> int \<Rightarrow> tr_stop + bool \<times> cset" where
  "cset_in lc cs ch =
     (if ch < int CS_CACHE_SIZE \<and> cs_havecache cs
      then bind_r (array_get (cs_cache cs) ch) (\<lambda>b. Inr (b, cs))
      else cset_in_hard lc cs ch)"

section \<open>Extents\<close>

definition gap :: "extent \<Rightarrow> extent \<Rightarrow> bool" where
  "gap a b = (snd a + 1 < fst b)"

definition ext_ok :: "extent \<Rightarrow> bool" where
  "ext_ok e = (WCHAR_MIN \<le> fst e \<and> fst e \<le> snd e \<and> snd e \<le> WCHAR_MAX)"

definition exts_wf :: "extent list \<Rightarrow> bool" where
  "exts_wf es = (sorted_wrt gap es \<and> list_all ext_ok es)"

definition exts_set :: "extent list \<Rightarrow> int set" where
  "exts_set es = (\<Union>e \<in> set es. {fst e..snd e})"

interpretation ext: search_order "\<lambda>a b. gap a b \<and> ext_ok a \<and> ext_ok b" cset_rangecmp
  by unfold_locales (auto simp: gap_def ext_ok_def cset_rangecmp_def split: if_splits)

lemma exts_wf_sorted: "exts_wf es \<Longrightarrow> sorted_wrt (\<lambda>a b. gap a b \<and> ext_ok a \<and> ext_ok b) es"
  by (auto simp: exts_wf_def list_all_iff intro: sorted_wrt_mono_rel [rotated])

lemma exts_wf_append:
  "exts_wf (as @ bs) \<longleftrightarrow> exts_wf as \<and> exts_wf bs \<and> (\<forall>a \<in> set as. \<forall>b \<in> set bs. gap a b)"
  by (auto simp: exts_wf_def sorted_wrt_append)

lemma exts_wf_Cons: "exts_wf (e # es) \<longleftrightarrow> ext_ok e \<and> exts_wf es \<and> (\<forall>b \<in> set es. gap e b)"
  by (auto simp: exts_wf_def)

lemma exts_wf_Nil [simp]: "exts_wf []"
  by (simp add: exts_wf_def)

lemma exts_set_simps [simp]:
  "exts_set [] = {}" "exts_set (e # es) = {fst e..snd e} \<union> exts_set es"
  "exts_set (as @ bs) = exts_set as \<union> exts_set bs"
  by (simp_all add: exts_set_def)

lemma rangecmp_simps:
  "cset_rangecmp ch e < 0 \<longleftrightarrow> ch < fst e"
  "ext_ok e \<Longrightarrow> 0 < cset_rangecmp ch e \<longleftrightarrow> snd e < ch"
  "cset_rangecmp ch e = 0 \<longleftrightarrow> fst e \<le> ch \<and> ch \<le> snd e"
  by (auto simp: cset_rangecmp_def ext_ok_def)

lemma exts_wf_ok: "exts_wf es \<Longrightarrow> e \<in> set es \<Longrightarrow> ext_ok e"
  by (auto simp: exts_wf_def list_all_iff)

text \<open>What a splay gives on a well-formed tree.\<close>

lemma cset_splay_parts:
  assumes "t \<noteq> Null" "exts_wf (elems t)"
  obtains a e b where "cset_splay t ch = Inr (Node a e b)" "elems a @ e # elems b = elems t"
    "\<forall>x \<in> set (elems a). snd x < ch" "\<forall>x \<in> set (elems b). ch < fst x"
proof -
  obtain a e b where S: "splay (cset_rangecmp ch) t = Node a e b"
    using assms(1) splay_Null [of "cset_rangecmp ch" t] by (cases "splay (cset_rangecmp ch) t") auto
  have el: "elems a @ e # elems b = elems t" using elems_splay [of "cset_rangecmp ch" t] by (simp add: S)
  have ok: "\<forall>x \<in> set (elems t). ext_ok x" using assms(2) by (auto intro: exts_wf_ok)
  have "\<forall>x \<in> set (elems a). snd x < ch" "\<forall>x \<in> set (elems b). ch < fst x"
    using ext.splay_separates [OF exts_wf_sorted [OF assms(2)] S] ok
    by (auto simp: rangecmp_simps simp flip: el)
  then show thesis using that [of a e b] S el assms(1) by (simp add: cset_splay_def)
qed

lemma cset_delete_parts:
  assumes "exts_wf (elems t)" "elems t = as @ e # bs" "fst e \<le> ch" "ch \<le> snd e"
  obtains t' where "cset_delete t ch = Inr t'" "elems t' = as @ bs"
proof -
  have "t \<noteq> Null" using assms(2) by auto
  then obtain a f b where S: "cset_splay t ch = Inr (Node a f b)" "elems a @ f # elems b = elems t"
    and sep: "\<forall>x \<in> set (elems a). snd x < ch" "\<forall>x \<in> set (elems b). ch < fst x"
    by (rule cset_splay_parts [OF _ assms(1)])
  have "e \<in> set (elems a) \<union> {f} \<union> set (elems b)" using S(2) assms(2) by (metis Un_iff in_set_conv_decomp list.set_intros(1) set_append set_ConsD singletonI)
  then have f: "f = e" using sep assms(3,4) by force
  have out: "\<forall>x \<in> set (as @ bs). \<not> (fst x \<le> ch \<and> ch \<le> snd x)"
    using assms by (fastforce simp: exts_wf_append exts_wf_Cons gap_def)
  then have "e \<notin> set as" "e \<notin> set (elems a)" "e \<notin> set bs" using assms(3,4) sep by force+
  then have ab: "elems a = as" "elems b = bs"
    using S(2) assms(2) f append_Cons_eq_iff [of e "elems a" "elems b" as bs] sep assms(3,4) by force+
  show thesis
  proof (cases "a = Null")
    case True
    then show thesis using that [of b] S ab f assms(3,4) by (simp add: cset_delete_def rangecmp_simps)
  next
    case False
    have "exts_wf (elems a)" using assms(1,2) ab by (simp add: exts_wf_append)
    with False obtain c g d where C: "cset_splay a ch = Inr (Node c g d)" "elems c @ g # elems d = elems a"
      "\<forall>x \<in> set (elems d). ch < fst x"
      by (rule cset_splay_parts)
    have "d = Null"
    proof (rule ccontr)
      assume "d \<noteq> Null"
      then obtain x where "x \<in> set (elems d)" using elems_Nil [of d] by (metis list.set_sel(1))
      moreover from this have "x \<in> set (elems a)" by (simp flip: C(2))
      ultimately show False using C(3) sep(1) \<open>exts_wf (elems a)\<close> exts_wf_ok [of "elems a" x]
        by (fastforce simp: ext_ok_def)
    qed
    then show thesis
      using that [of "Node c g b"] S C ab f assms(3,4) False by (simp add: cset_delete_def rangecmp_simps)
  qed
qed

text \<open>Coalescing: the neighbour is taken in exactly when it touches.\<close>

lemma coalesce_left_parts:
  assumes "exts_wf (elems l)" "\<forall>x \<in> set (elems l). snd x < ch" "ch \<le> WCHAR_MAX" "WCHAR_MIN \<le> ch"
  obtains l' mn where "coalesce_left l ch = Inr (l', mn)" "exts_wf (elems l' @ [(mn, ch)])"
    "exts_set (elems l') \<union> {mn..ch} = exts_set (elems l) \<union> {ch}" "mn \<le> ch"
    "\<forall>e. (\<forall>x \<in> set (elems l). gap x e) \<longrightarrow> (\<forall>x \<in> set (elems l'). gap x e)"
proof (cases "l = Null")
  case True
  then show thesis
    using that [of l ch] assms(3,4) by (simp add: coalesce_left_def exts_wf_Cons ext_ok_def)
next
  case False
  then obtain a e b where S: "cset_splay l (ch - 1) = Inr (Node a e b)" "elems a @ e # elems b = elems l"
    and sep: "\<forall>x \<in> set (elems a). snd x < ch - 1" "\<forall>x \<in> set (elems b). ch - 1 < fst x"
    by (rule cset_splay_parts [OF _ assms(1)])
  have ok: "\<forall>x \<in> set (elems l). ext_ok x" using assms(1) by (auto intro: exts_wf_ok)
  then have "elems b = []"
    using sep(2) assms(2) S(2) by (cases "elems b") (fastforce simp: ext_ok_def simp flip: S(2))+
  then have el: "elems l = elems a @ [e]" using S(2) by simp
  have e: "ext_ok e" "snd e < ch" using ok assms(2) el by auto
  then have w: "wint (ch - 1) = Inr (ch - 1)" using assms(3) by (simp add: ext_ok_def)
  have wa: "exts_wf (elems a)" "\<forall>x \<in> set (elems a). gap x e" using assms(1) el by (auto simp: exts_wf_append)
  show thesis
  proof (cases "snd e = ch - 1")
    case True
    have D: "elems (Node a e b) = elems a @ e # []" using \<open>elems b = []\<close> by simp
    obtain l2 where L: "cset_delete (Node a e b) (fst e) = Inr l2" "elems l2 = elems a @ []"
      by (rule cset_delete_parts [OF _ D, of "fst e"]) (use assms(1) S(2) e(1) in \<open>auto simp: ext_ok_def\<close>)
    show thesis
    proof (rule that [of l2 "fst e"])
      show "coalesce_left l ch = Inr (l2, fst e)"
        using False w S(1) True L(1) by (simp add: coalesce_left_def)
      show "exts_wf (elems l2 @ [(fst e, ch)])"
        using wa L(2) e assms(3) by (auto simp: exts_wf_append exts_wf_Cons gap_def ext_ok_def)
      show "exts_set (elems l2) \<union> {fst e..ch} = exts_set (elems l) \<union> {ch}"
        using L(2) el True e by (auto simp: ext_ok_def)
    qed (use e L(2) el in \<open>auto simp: ext_ok_def\<close>)
  next
    case F: False
    show thesis
    proof (rule that [of "Node a e b" ch])
      show "coalesce_left l ch = Inr (Node a e b, ch)"
        using False w S(1) F by (simp add: coalesce_left_def)
      show "exts_wf (elems (Node a e b) @ [(ch, ch)])"
        using wa \<open>elems b = []\<close> e assms(3) F sep(1)
        by (auto simp: exts_wf_append exts_wf_Cons gap_def ext_ok_def)
    qed (use S(2) in auto)
  qed
qed

lemma coalesce_right_parts:
  assumes "exts_wf (elems r)" "\<forall>x \<in> set (elems r). ch < fst x" "WCHAR_MIN \<le> ch" "ch \<le> WCHAR_MAX"
  obtains r' mx where "coalesce_right r ch = Inr (r', mx)" "exts_wf ((ch, mx) # elems r')"
    "exts_set (elems r') \<union> {ch..mx} = exts_set (elems r) \<union> {ch}" "ch \<le> mx"
    "\<forall>e. (\<forall>x \<in> set (elems r). gap e x) \<longrightarrow> (\<forall>x \<in> set (elems r'). gap e x)"
proof (cases "r = Null")
  case True
  then show thesis
    using that [of r ch] assms(3,4) by (simp add: coalesce_right_def exts_wf_Cons ext_ok_def)
next
  case False
  then obtain a e b where S: "cset_splay r (ch + 1) = Inr (Node a e b)" "elems a @ e # elems b = elems r"
    and sep: "\<forall>x \<in> set (elems a). snd x < ch + 1" "\<forall>x \<in> set (elems b). ch + 1 < fst x"
    by (rule cset_splay_parts [OF _ assms(1)])
  have ok: "\<forall>x \<in> set (elems r). ext_ok x" using assms(1) by (auto intro: exts_wf_ok)
  then have "elems a = []"
    using sep(1) assms(2) S(2) by (cases "elems a") (fastforce simp: ext_ok_def simp flip: S(2))+
  then have el: "elems r = e # elems b" using S(2) by simp
  have e: "ext_ok e" "ch < fst e" using ok assms(2) el by auto
  then have w: "wint (ch + 1) = Inr (ch + 1)" using assms(3) by (simp add: ext_ok_def)
  have wb: "exts_wf (elems b)" "\<forall>x \<in> set (elems b). gap e x" using assms(1) el by (auto simp: exts_wf_Cons)
  show thesis
  proof (cases "fst e = ch + 1")
    case True
    have D: "elems (Node a e b) = [] @ e # elems b" using \<open>elems a = []\<close> by simp
    obtain r2 where R: "cset_delete (Node a e b) (fst e) = Inr r2" "elems r2 = [] @ elems b"
      by (rule cset_delete_parts [OF _ D, of "fst e"]) (use assms(1) S(2) e(1) in \<open>auto simp: ext_ok_def\<close>)
    show thesis
    proof (rule that [of r2 "snd e"])
      show "coalesce_right r ch = Inr (r2, snd e)"
        using False w S(1) True R(1) by (simp add: coalesce_right_def)
      show "exts_wf ((ch, snd e) # elems r2)"
        using wb R(2) e assms(3) by (auto simp: exts_wf_append exts_wf_Cons gap_def ext_ok_def)
      show "exts_set (elems r2) \<union> {ch..snd e} = exts_set (elems r) \<union> {ch}"
        using R(2) el True e by (auto simp: ext_ok_def)
    qed (use e R(2) el in \<open>auto simp: ext_ok_def\<close>)
  next
    case F: False
    show thesis
    proof (rule that [of "Node a e b" ch])
      show "coalesce_right r ch = Inr (Node a e b, ch)"
        using False w S(1) F by (simp add: coalesce_right_def)
      show "exts_wf ((ch, ch) # elems (Node a e b))"
        using wb \<open>elems a = []\<close> e assms(3) F sep(2)
        by (auto simp: exts_wf_append exts_wf_Cons gap_def ext_ok_def)
    qed (use S(2) in auto)
  qed
qed

section \<open>The set a structure stands for\<close>

definition exts :: "cset \<Rightarrow> int set" where
  "exts cs = exts_set (elems (cs_root cs))"

definition base :: "libc \<Rightarrow> cset \<Rightarrow> int set" where
  "base lc cs = {ch. list_ex (in_class lc ch) (cs_classes cs) \<or> ch \<in> exts cs}"

definition members :: "libc \<Rightarrow> cset \<Rightarrow> int set" where
  "members lc cs = (if cs_invert cs then - base lc cs else base lc cs)"

definition cset_inv :: "libc \<Rightarrow> cset \<Rightarrow> bool" where
  "cset_inv lc cs \<longleftrightarrow> exts_wf (elems (cs_root cs)) \<and>
     (cs_havecache cs \<longrightarrow> cs_cache cs = map (\<lambda>i. i \<in> members lc cs) [0..int CS_CACHE_SIZE - 1])"

lemmas cset_abs = exts_def base_def members_def cset_inv_def

lemma cset_add_ok:
  assumes "cset_inv lc cs" "WCHAR_MIN \<le> ch" "ch \<le> WCHAR_MAX"
  obtains cs' where "cset_add True cs ch = Inr (True, cs')" "cset_inv lc cs'"
    "exts cs' = insert ch (exts cs)" "cs_classes cs' = cs_classes cs" "cs_invert cs' = cs_invert cs"
proof (cases "cs_root cs = Null")
  case True
  then show thesis
    using that assms by (simp add: cset_add_def cset_abs exts_wf_Cons ext_ok_def)
next
  case False
  have wf: "exts_wf (elems (cs_root cs))" using assms(1) by (simp add: cset_inv_def)
  from False obtain a e b where S: "cset_splay (cs_root cs) ch = Inr (Node a e b)"
    "elems a @ e # elems b = elems (cs_root cs)"
    and sep: "\<forall>x \<in> set (elems a). snd x < ch" "\<forall>x \<in> set (elems b). ch < fst x"
    by (rule cset_splay_parts [OF _ wf])
  have e: "ext_ok e" using wf S(2) by (metis exts_wf_ok in_set_conv_decomp)
  show thesis
  proof (cases "fst e \<le> ch \<and> ch \<le> snd e")
    case True
    then have "insert ch (exts cs) = exts cs" by (auto simp: exts_def simp flip: S(2))
    then show thesis
      using that [of "cs\<lparr>cs_havecache := False, cs_root := Node a e b\<rparr>"] S(1) wf False True
      by (simp add: cset_add_def cset_inv_def exts_def rangecmp_simps S(2))
  next
    case out: False
    define lr where "lr = (if cset_rangecmp ch e < 0 then (a, Node Null e b) else (Node a e Null, b))"
    obtain l r where lr: "lr = (l, r)" by fastforce
    then have el: "elems l @ elems r = elems (cs_root cs)"
      by (auto simp: lr_def split: if_splits simp flip: S(2))
    have l: "\<forall>x \<in> set (elems l). snd x < ch" and r: "\<forall>x \<in> set (elems r). ch < fst x"
      using lr sep out e by (auto simp: lr_def rangecmp_simps split: if_splits)
    have wl: "exts_wf (elems l)" and wr: "exts_wf (elems r)"
      and lr_gap: "\<forall>x \<in> set (elems l). \<forall>y \<in> set (elems r). gap x y"
      using wf by (auto simp: exts_wf_append simp flip: el)
    obtain l' mn where L: "coalesce_left l ch = Inr (l', mn)" "exts_wf (elems l' @ [(mn, ch)])"
      "exts_set (elems l') \<union> {mn..ch} = exts_set (elems l) \<union> {ch}" "mn \<le> ch"
      "\<forall>e. (\<forall>x \<in> set (elems l). gap x e) \<longrightarrow> (\<forall>x \<in> set (elems l'). gap x e)"
      using coalesce_left_parts [OF wl l assms(3,2)] by blast
    obtain r' mx where R: "coalesce_right r ch = Inr (r', mx)" "exts_wf ((ch, mx) # elems r')"
      "exts_set (elems r') \<union> {ch..mx} = exts_set (elems r) \<union> {ch}" "ch \<le> mx"
      "\<forall>e. (\<forall>x \<in> set (elems r). gap e x) \<longrightarrow> (\<forall>x \<in> set (elems r'). gap e x)"
      using coalesce_right_parts [OF wr r assms(2,3)] by blast
    show thesis
    proof (rule that [of "cs\<lparr>cs_havecache := False, cs_root := Node l' (mn, mx) r'\<rparr>"])
      show "cset_add True cs ch =
          Inr (True, cs\<lparr>cs_havecache := False, cs_root := Node l' (mn, mx) r'\<rparr>)"
        using False S(1) out L(1) R(1) lr
        by (simp add: cset_add_def rangecmp_simps lr_def Let_def split: if_splits)
      have "gap x y" if "x \<in> set (elems l')" "y \<in> set (elems r')" for x y
        using that L(2,4) R(2) by (fastforce simp: exts_wf_append exts_wf_Cons gap_def ext_ok_def)
      then show "cset_inv lc (cs\<lparr>cs_havecache := False, cs_root := Node l' (mn, mx) r'\<rparr>)"
        using L(2,4) R(2,4)
        by (auto simp: cset_inv_def exts_wf_append exts_wf_Cons gap_def ext_ok_def)
      have "{mn..mx} = {mn..ch} \<union> {ch..mx}" using L(4) R(4) by auto
      then have "exts_set (elems l') \<union> {mn..mx} \<union> exts_set (elems r')
          = (exts_set (elems l') \<union> {mn..ch}) \<union> (exts_set (elems r') \<union> {ch..mx})" by auto
      also have "\<dots> = insert ch (exts cs)" unfolding L(3) R(3) exts_def by (auto simp flip: el)
      finally show "exts (cs\<lparr>cs_havecache := False, cs_root := Node l' (mn, mx) r'\<rparr>)
          = insert ch (exts cs)"
        by (simp add: exts_def Un_assoc Un_left_commute)
    qed simp_all
  qed
qed

lemma cset_add_nomem:
  assumes "cset_inv lc cs"
  obtains cs' where "cset_add False cs ch = Inr (ch \<in> exts cs, cs')" "cset_inv lc cs'"
    "exts cs' = exts cs" "cs_classes cs' = cs_classes cs" "cs_invert cs' = cs_invert cs"
proof (cases "cs_root cs = Null")
  case True
  then show thesis using that by (simp add: cset_add_def cset_abs)
next
  case False
  have wf: "exts_wf (elems (cs_root cs))" using assms by (simp add: cset_inv_def)
  from False obtain a e b where S: "cset_splay (cs_root cs) ch = Inr (Node a e b)"
    "elems a @ e # elems b = elems (cs_root cs)"
    and sep: "\<forall>x \<in> set (elems a). snd x < ch" "\<forall>x \<in> set (elems b). ch < fst x"
    by (rule cset_splay_parts [OF _ wf])
  have "ch \<in> exts cs \<longleftrightarrow> fst e \<le> ch \<and> ch \<le> snd e"
    using sep by (force simp: exts_def exts_set_def simp flip: S(2))
  then show thesis
    using that [of "cs\<lparr>cs_havecache := False, cs_root := Node a e b\<rparr>"] S(1) wf False
    by (auto simp: cset_add_def cset_abs rangecmp_simps simp flip: S(2))
qed

lemma cset_in_hard_ok:
  assumes "cset_inv lc cs"
  obtains cs' where "cset_in_hard lc cs ch = Inr (ch \<in> members lc cs, cs')" "cset_inv lc cs'"
    "exts cs' = exts cs" "cs_classes cs' = cs_classes cs" "cs_invert cs' = cs_invert cs"
proof (cases "cs_root cs = Null \<or> list_ex (in_class lc ch) (cs_classes cs)")
  case True
  then show thesis
    using that [of cs] assms by (auto simp: cset_in_hard_def members_def base_def exts_def)
next
  case False
  have wf: "exts_wf (elems (cs_root cs))" using assms by (simp add: cset_inv_def)
  from False obtain a e b where S: "cset_splay (cs_root cs) ch = Inr (Node a e b)"
    "elems a @ e # elems b = elems (cs_root cs)"
    and sep: "\<forall>x \<in> set (elems a). snd x < ch" "\<forall>x \<in> set (elems b). ch < fst x"
    using cset_splay_parts [OF _ wf] by blast
  have x: "exts (cs\<lparr>cs_root := Node a e b\<rparr>) = exts cs"
    by (simp add: exts_def flip: S(2))
  then have m: "members lc (cs\<lparr>cs_root := Node a e b\<rparr>) = members lc cs"
    by (simp add: members_def base_def)
  have "ch \<in> exts cs \<longleftrightarrow> fst e \<le> ch \<and> ch \<le> snd e"
    using sep by (force simp: exts_def exts_set_def simp flip: S(2))
  then have "cset_in_hard lc cs ch = Inr (ch \<in> members lc cs, cs\<lparr>cs_root := Node a e b\<rparr>)"
    using False S(1) by (auto simp: cset_in_hard_def members_def base_def rangecmp_simps)
  then show thesis
    using that x assms m S(2) by (simp add: cset_inv_def)
qed

lemma cset_cache_loop_ok:
  assumes "cset_inv lc cs"
  obtains cs' where "cset_cache_loop lc cs is = Inr (map (\<lambda>i. i \<in> members lc cs) is, cs')"
    "cset_inv lc cs'" "exts cs' = exts cs" "cs_classes cs' = cs_classes cs" "cs_invert cs' = cs_invert cs"
  using assms
proof (induction "is" arbitrary: cs thesis)
  case (Cons i "is")
  obtain c1 where 1: "cset_in_hard lc cs i = Inr (i \<in> members lc cs, c1)" "cset_inv lc c1"
    "exts c1 = exts cs" "cs_classes c1 = cs_classes cs" "cs_invert c1 = cs_invert cs"
    by (rule cset_in_hard_ok [OF Cons.prems(2)])
  obtain c2 where 2: "cset_cache_loop lc c1 is = Inr (map (\<lambda>i. i \<in> members lc c1) is, c2)"
    "cset_inv lc c2" "exts c2 = exts c1" "cs_classes c2 = cs_classes c1" "cs_invert c2 = cs_invert c1"
    by (rule Cons.IH [OF _ 1(2)])
  have "members lc c1 = members lc cs" using 1 by (simp add: members_def base_def)
  then show ?case using Cons.prems(1) [of c2] 1 2 by simp
qed simp

lemma cset_cache_ok:
  assumes "cset_inv lc cs"
  obtains cs' where "cset_cache lc cs = Inr cs'" "cset_inv lc cs'" "cs_havecache cs'" "exts cs' = exts cs"
    "cs_classes cs' = cs_classes cs" "cs_invert cs' = cs_invert cs"
proof -
  obtain c1 where 1: "cset_cache_loop lc cs [0..int CS_CACHE_SIZE - 1]
      = Inr (map (\<lambda>i. i \<in> members lc cs) [0..int CS_CACHE_SIZE - 1], c1)"
    "cset_inv lc c1" "exts c1 = exts cs" "cs_classes c1 = cs_classes cs" "cs_invert c1 = cs_invert cs"
    by (rule cset_cache_loop_ok [OF assms])
  have "members lc c1 = members lc cs" using 1 by (simp add: members_def base_def)
  then show thesis
    using that [of "c1\<lparr>cs_cache := map (\<lambda>i. i \<in> members lc cs) [0..int CS_CACHE_SIZE - 1],
        cs_havecache := True\<rparr>"] 1
    by (simp add: cset_cache_def cset_abs del: upto_rec_numeral)
qed

lemma cset_in_ok:
  assumes "cset_inv lc cs" "0 \<le> ch \<or> \<not> cs_havecache cs"
  obtains cs' where "cset_in lc cs ch = Inr (ch \<in> members lc cs, cs')" "cset_inv lc cs'"
    "exts cs' = exts cs" "cs_classes cs' = cs_classes cs" "cs_invert cs' = cs_invert cs"
proof (cases "ch < int CS_CACHE_SIZE \<and> cs_havecache cs")
  case True
  then have "map (\<lambda>i. i \<in> members lc cs) [0..int CS_CACHE_SIZE - 1] ! nat ch = (ch \<in> members lc cs)"
    using assms(2) by (subst nth_map) (auto simp del: upto_rec_numeral)
  then show thesis
    using that [of cs] True assms
    by (simp add: cset_in_def cset_inv_def array_get_def del: upto_rec_numeral nth_map)
next
  case False
  then have "cset_in lc cs ch = cset_in_hard lc cs ch" unfolding cset_in_def by auto
  with cset_in_hard_ok [OF assms(1), of ch] that show thesis by metis
qed

section \<open>The operations together implement a set\<close>

text \<open>Successive calls of \<open>cset_add\<close>.\<close>

fun add_all :: "cset \<Rightarrow> int list \<Rightarrow> tr_stop + cset" where
  "add_all cs [] = Inr cs"
| "add_all cs (c # xs) = bind_r (cset_add True cs c) (\<lambda>(_, cs1). add_all cs1 xs)"

lemma add_all_ok:
  assumes "cset_inv lc cs" "\<forall>c \<in> set xs. WCHAR_MIN \<le> c \<and> c \<le> WCHAR_MAX"
  obtains cs' where "add_all cs xs = Inr cs'" "cset_inv lc cs'" "exts cs' = exts cs \<union> set xs"
    "cs_classes cs' = cs_classes cs" "cs_invert cs' = cs_invert cs"
  using assms
proof (induction xs arbitrary: cs thesis)
  case (Cons c xs)
  obtain c1 where 1: "cset_add True cs c = Inr (True, c1)" "cset_inv lc c1"
    "exts c1 = insert c (exts cs)" "cs_classes c1 = cs_classes cs" "cs_invert c1 = cs_invert cs"
    by (rule cset_add_ok [OF Cons.prems(2), of c]) (use Cons.prems(3) in auto)
  obtain c2 where 2: "add_all c1 xs = Inr c2" "cset_inv lc c2" "exts c2 = exts c1 \<union> set xs"
    "cs_classes c2 = cs_classes c1" "cs_invert c2 = cs_invert c1"
    by (rule Cons.IH [OF _ 1(2)]) (use Cons.prems(3) in auto)
  show ?case by (rule Cons.prems(1) [of c2]) (use 1 2 in auto)
qed simp

lemma cset_alloc_ok: "cset_inv lc cset_alloc" "exts cset_alloc = {}" "cs_classes cset_alloc = []"
    "\<not> cs_invert cset_alloc"
  by (simp_all add: cset_abs cset_alloc_def)

lemma cset_invert_ok:
  "cset_inv lc cs \<Longrightarrow> cset_inv lc (cset_invert cs)" "members lc (cset_invert cs) = - members lc cs"
  by (auto simp: cset_abs cset_invert_def)

text \<open>C15: a character set built by any sequence of \<open>cset_add\<close> calls, then inverted or not
  and cached, answers \<open>cset_in\<close> with membership in the set of the characters added (or its
  complement) for every character, cached or not; no assertion fails, nothing overflows, and the
  tree holds the set as sorted extents that are at least two apart.\<close>

theorem cset_is_set:
  assumes "\<forall>c \<in> set xs. WCHAR_MIN \<le> c \<and> c \<le> WCHAR_MAX" "0 \<le> ch"
  shows "\<exists>cs cs1 cs2. add_all cset_alloc xs = Inr cs \<and> exts_wf (elems (cs_root cs)) \<and>
    exts_set (elems (cs_root cs)) = set xs \<and>
    cset_cache lc (if iv then cset_invert cs else cs) = Inr cs1 \<and>
    cset_in lc cs1 ch = Inr (iv \<noteq> (ch \<in> set xs), cs2)"
proof -
  obtain cs where C: "add_all cset_alloc xs = Inr cs" "cset_inv lc cs" "exts cs = set xs" "cs_classes cs = []"
    "\<not> cs_invert cs"
    by (rule add_all_ok [OF cset_alloc_ok(1) assms(1)]) (simp add: cset_alloc_ok)
  let ?c = "if iv then cset_invert cs else cs"
  have m: "members lc cs = set xs" using C by (simp add: members_def base_def)
  have i: "cset_inv lc ?c" "members lc ?c = (if iv then - set xs else set xs)"
    using C(2) m by (simp_all add: cset_invert_ok)
  obtain c1 where 1: "cset_cache lc ?c = Inr c1" "cset_inv lc c1" "exts c1 = exts ?c"
    "cs_classes c1 = cs_classes ?c" "cs_invert c1 = cs_invert ?c"
    by (rule cset_cache_ok [OF i(1)])
  then have m1: "members lc c1 = members lc ?c" by (simp add: members_def base_def)
  obtain c2 where 2: "cset_in lc c1 ch = Inr (ch \<in> members lc c1, c2)"
    by (rule cset_in_ok [OF 1(2), of ch]) (use assms(2) in auto)
  have "exts_wf (elems (cs_root cs))" "exts_set (elems (cs_root cs)) = set xs"
    using C(2,3) by (simp_all add: cset_inv_def exts_def)
  then show ?thesis using C(1) 1(1) 2 m1 i(2) by auto
qed

theorem cset_is_set_witness:
  "\<exists>cs cs1 cs2. add_all cset_alloc [97, 99, 98] = Inr cs \<and> exts_wf (elems (cs_root cs)) \<and>
    exts_set (elems (cs_root cs)) = {97, 98, 99} \<and> cset_cache c_locale cs = Inr cs1 \<and>
    cset_in c_locale cs1 98 = Inr (True, cs2)"
proof -
  have "\<exists>cs cs1 cs2. add_all cset_alloc [97, 99, 98] = Inr cs \<and> exts_wf (elems (cs_root cs)) \<and>
    exts_set (elems (cs_root cs)) = set [97, 99, 98] \<and>
    cset_cache c_locale (if False then cset_invert cs else cs) = Inr cs1 \<and>
    cset_in c_locale cs1 98 = Inr (False \<noteq> (98 \<in> set [97, 99, 98 :: int]), cs2)"
    by (rule cset_is_set) simp_all
  moreover have "set [97, 99, 98 :: int] = {97, 98, 99}" by auto
  ultimately show ?thesis by simp
qed

text \<open>When \<open>malloc\<close> fails, \<open>cset_add\<close> returns false unless the character was there
  already, and the structure still stands for the same set.\<close>

theorem cset_add_out_of_memory:
  assumes "cset_inv lc cs"
  shows "\<exists>cs'. cset_add False cs ch = Inr (ch \<in> exts cs, cs') \<and> cset_inv lc cs' \<and> members lc cs' = members lc cs"
proof -
  obtain cs' where "cset_add False cs ch = Inr (ch \<in> exts cs, cs')" "cset_inv lc cs'"
    "exts cs' = exts cs" "cs_classes cs' = cs_classes cs" "cs_invert cs' = cs_invert cs"
    by (rule cset_add_nomem [OF assms])
  then show ?thesis by (simp add: members_def base_def)
qed

theorem cset_add_out_of_memory_witness:
  "\<exists>cs'. cset_add False cset_alloc 97 = Inr (False, cs') \<and> cset_inv c_locale cs' \<and> members c_locale cs' = {}"
  using cset_add_out_of_memory [OF cset_alloc_ok(1) [of c_locale], of 97]
  by (simp add: cset_alloc_ok members_def base_def)

end
