(* ===== verification/Tr_Map.thy ===== *)
theory Tr_Map
  imports Splay Tr_Lib
begin

text \<open>
  The character map of \<open>tr\<close> (\<^verbatim>\<open>text_cmds-88/tr/cmap.h\<close>, \<^verbatim>\<open>cmap.c\<close>): a splay tree of pairs,
  a default for the characters without a mapping, the least and the greatest mapped
  character, and a cache for the characters below 128. The operations implement a total
  function on characters.
\<close>

section \<open>The structure\<close>

type_synonym cmapping = "int \<times> int"
type_synonym cmapnode = "cmapping node"

abbreviation cmn_from :: "cmapnode \<Rightarrow> int" where "cmn_from t \<equiv> fst (node_elem t)"
abbreviation cmn_to :: "cmapnode \<Rightarrow> int" where "cmn_to t \<equiv> snd (node_elem t)"

abbreviation CM_CACHE_SIZE :: nat where "CM_CACHE_SIZE \<equiv> 128"
abbreviation CM_DEF_SELF :: int where "CM_DEF_SELF \<equiv> - 2"

record cmap =
  cm_cache :: "int list"
  cm_havecache :: bool
  cm_root :: cmapnode
  cm_def :: int
  cm_min :: int
  cm_max :: int

definition cmap_alloc :: cmap where
  "cmap_alloc =
     \<lparr>cm_cache = [], cm_havecache = False, cm_root = Null, cm_def = CM_DEF_SELF, cm_min = 0, cm_max = 0\<rparr>"

section \<open>Operations\<close>

definition cmap_cmp :: "int \<Rightarrow> cmapping \<Rightarrow> int" where
  "cmap_cmp ch t = (if ch < fst t then -1 else if ch > fst t then 1 else 0)"

definition cmap_splay :: "cmapnode \<Rightarrow> int \<Rightarrow> tr_stop + cmapnode" where
  "cmap_splay t ch = (if t = Null then Inl Abort else Inr (splay (cmap_cmp ch) t))"

text \<open>\<open>ok\<close> says whether \<open>malloc\<close> succeeds; the result is what \<open>cmap_add\<close> returns.\<close>

definition cmap_add :: "bool \<Rightarrow> cmap \<Rightarrow> int \<Rightarrow> int \<Rightarrow> tr_stop + bool \<times> cmap" where
  "cmap_add ok cm0 from to =
     (let cm = cm0\<lparr>cm_havecache := False\<rparr> in
      if cm_root cm = Null then
        (if ok then
           Inr (True, cm\<lparr>cm_root := Node Null (from, to) Null, cm_min := from, cm_max := from\<rparr>)
         else Inr (False, cm))
      else bind_r (cmap_splay (cm_root cm) from) (\<lambda>cmn.
        if cmn_from cmn = from then
          Inr (True, cm\<lparr>cm_root := Node (node_left cmn) (from, to) (node_right cmn)\<rparr>)
        else if \<not> ok then Inr (False, cm\<lparr>cm_root := cmn\<rparr>)
        else
          let (l, r) = (if from < cmn_from cmn
                        then (node_left cmn, Node Null (node_elem cmn) (node_right cmn))
                        else (Node (node_left cmn) (node_elem cmn) Null, node_right cmn)) in
          Inr (True, cm\<lparr>cm_root := Node l (from, to) r,
            cm_min := (if from < cm_min cm then from else cm_min cm),
            cm_max := (if from > cm_max cm then from else cm_max cm)\<rparr>)))"

definition cmap_unmapped :: "cmap \<Rightarrow> int \<Rightarrow> int" where
  "cmap_unmapped cm ch = (if cm_def cm = CM_DEF_SELF then ch else cm_def cm)"

definition cmap_lookup_hard :: "cmap \<Rightarrow> int \<Rightarrow> tr_stop + int \<times> cmap" where
  "cmap_lookup_hard cm ch =
     (if cm_root cm \<noteq> Null then
        bind_r (cmap_splay (cm_root cm) ch) (\<lambda>t.
          if cmn_from t = ch then Inr (cmn_to t, cm\<lparr>cm_root := t\<rparr>)
          else Inr (cmap_unmapped cm ch, cm\<lparr>cm_root := t\<rparr>))
      else Inr (cmap_unmapped cm ch, cm))"

fun cmap_cache_loop :: "cmap \<Rightarrow> int list \<Rightarrow> tr_stop + int list \<times> cmap" where
  "cmap_cache_loop cm [] = Inr ([], cm)"
| "cmap_cache_loop cm (ch # chs) =
     bind_r (cmap_lookup_hard cm ch) (\<lambda>(v, cm1).
       bind_r (cmap_cache_loop cm1 chs) (\<lambda>(vs, cm2). Inr (v # vs, cm2)))"

definition cmap_cache :: "cmap \<Rightarrow> tr_stop + cmap" where
  "cmap_cache cm =
     bind_r (cmap_cache_loop cm [0..int CM_CACHE_SIZE - 1]) (\<lambda>(vs, cm').
       Inr (cm'\<lparr>cm_cache := vs, cm_havecache := True\<rparr>))"

definition cmap_default :: "cmap \<Rightarrow> int \<Rightarrow> int \<times> cmap" where
  "cmap_default cm def = (cm_def cm, cm\<lparr>cm_def := def, cm_havecache := False\<rparr>)"

definition cmap_lookup :: "cmap \<Rightarrow> int \<Rightarrow> tr_stop + int \<times> cmap" where
  "cmap_lookup cm from =
     (if from < int CM_CACHE_SIZE \<and> cm_havecache cm
      then bind_r (array_get (cm_cache cm) from) (\<lambda>v. Inr (v, cm))
      else cmap_lookup_hard cm from)"

section \<open>The function a structure stands for\<close>

definition maps :: "cmap \<Rightarrow> int \<rightharpoonup> int" where
  "maps cm = map_of (elems (cm_root cm))"

definition image_of :: "cmap \<Rightarrow> int \<Rightarrow> int" where
  "image_of cm ch = (case maps cm ch of Some v \<Rightarrow> v | None \<Rightarrow> cmap_unmapped cm ch)"

definition key_less :: "cmapping \<Rightarrow> cmapping \<Rightarrow> bool" where
  "key_less a b = (fst a < fst b)"

definition extrema :: "cmap \<Rightarrow> bool" where
  "extrema cm \<longleftrightarrow>
     (if maps cm = Map.empty then cm_min cm = 0 \<and> cm_max cm = 0
      else cm_min cm \<in> dom (maps cm) \<and> cm_max cm \<in> dom (maps cm) \<and>
           (\<forall>k \<in> dom (maps cm). cm_min cm \<le> k \<and> k \<le> cm_max cm))"

definition cmap_inv :: "cmap \<Rightarrow> bool" where
  "cmap_inv cm \<longleftrightarrow> sorted_wrt key_less (elems (cm_root cm)) \<and> extrema cm \<and>
     (cm_havecache cm \<longrightarrow> cm_cache cm = map (image_of cm) [0..int CM_CACHE_SIZE - 1])"

lemma image_of_cong: "maps cm' = maps cm \<Longrightarrow> cm_def cm' = cm_def cm \<Longrightarrow> image_of cm' = image_of cm"
  by (rule ext) (simp add: image_of_def cmap_unmapped_def split: option.split)

interpretation key: search_order key_less cmap_cmp
  by unfold_locales (auto simp: key_less_def cmap_cmp_def split: if_splits)

lemma cmap_cmp_simps:
  "cmap_cmp ch e < 0 \<longleftrightarrow> ch < fst e" "0 < cmap_cmp ch e \<longleftrightarrow> fst e < ch"
  "cmap_cmp ch e = 0 \<longleftrightarrow> fst e = ch"
  by (auto simp: cmap_cmp_def)

lemma map_of_notin: "\<forall>x \<in> set xs. fst x \<noteq> k \<Longrightarrow> map_of xs k = None"
  by (induction xs) auto

lemma cmap_splay_parts:
  assumes "t \<noteq> Null" "sorted_wrt key_less (elems t)"
  obtains a e b where "cmap_splay t ch = Inr (Node a e b)" "elems a @ e # elems b = elems t"
    "\<forall>x \<in> set (elems a). fst x < ch" "\<forall>x \<in> set (elems b). ch < fst x"
    "map_of (elems t) ch = (if fst e = ch then Some (snd e) else None)"
proof -
  obtain a e b where S: "splay (cmap_cmp ch) t = Node a e b"
    using assms(1) splay_Null [of "cmap_cmp ch" t] by (cases "splay (cmap_cmp ch) t") auto
  have el: "elems a @ e # elems b = elems t" using elems_splay [of "cmap_cmp ch" t] by (simp add: S)
  have sep: "\<forall>x \<in> set (elems a). fst x < ch" "\<forall>x \<in> set (elems b). ch < fst x"
    using key.splay_separates [OF assms(2) S] by (auto simp: cmap_cmp_simps)
  then have "map_of (elems a) ch = None" "map_of (elems b) ch = None"
    by (auto intro!: map_of_notin)
  then have "map_of (elems t) ch = (if fst e = ch then Some (snd e) else None)"
    by (cases e) (simp add: map_add_def flip: el)
  then show thesis using that [of a e b] S el sep assms(1) by (simp add: cmap_splay_def)
qed

text \<open>Replacing or adding one entry in a sorted sequence.\<close>

lemma map_of_insert:
  assumes "\<forall>x \<in> set as. fst x < (k :: int)"
  shows "map_of (as @ (k, v) # bs) = (map_of (as @ bs))(k \<mapsto> v)"
proof -
  have "map_of as k = None" using assms by (intro map_of_notin) auto
  then show ?thesis by (auto simp: map_add_def fun_eq_iff split: option.splits)
qed

lemma map_of_replace:
  assumes "\<forall>x \<in> set as. fst x < (k :: int)"
  shows "map_of (as @ (k, v) # bs) = (map_of (as @ (k, w) # bs))(k \<mapsto> v)"
  using map_of_insert [OF assms, of v bs] map_of_insert [OF assms, of w bs] by simp

lemma cmap_add_ok:
  assumes "cmap_inv cm"
  obtains cm' where "cmap_add True cm from to = Inr (True, cm')" "cmap_inv cm'"
    "maps cm' = (maps cm)(from \<mapsto> to)" "cm_def cm' = cm_def cm" "\<not> cm_havecache cm'"
proof (cases "cm_root cm = Null")
  case True
  then show thesis
    using that by (auto simp: cmap_add_def maps_def cmap_inv_def extrema_def)
next
  case False
  have srt: "sorted_wrt key_less (elems (cm_root cm))" and ex: "extrema cm"
    using assms by (simp_all add: cmap_inv_def)
  from False obtain a e b where S: "cmap_splay (cm_root cm) from = Inr (Node a e b)"
    "elems a @ e # elems b = elems (cm_root cm)"
    and sep: "\<forall>x \<in> set (elems a). fst x < from" "\<forall>x \<in> set (elems b). from < fst x"
    by (rule cmap_splay_parts [OF _ srt])
  have m: "maps cm = map_of (elems a @ e # elems b)" by (simp add: maps_def S(2))
  have "maps cm (fst e) \<noteq> None" by (simp add: m map_of_eq_None_iff del: map_of_append map_of.simps)
  then have ne: "maps cm \<noteq> Map.empty" by auto
  show thesis
  proof (cases "fst e = from")
    case True
    let ?cm = "cm\<lparr>cm_havecache := False, cm_root := Node a (from, to) b\<rparr>"
    have m': "maps ?cm = (maps cm)(from \<mapsto> to)"
      using map_of_replace [OF sep(1), of to "elems b" "snd e"] True by (cases e) (simp add: maps_def flip: S(2))
    have d: "dom (maps ?cm) = dom (maps cm)" using True by (cases e) (auto simp: m m')
    have "extrema ?cm" using ex ne m' unfolding extrema_def d by (auto simp: fun_eq_iff)
    moreover have "sorted_wrt key_less (elems a @ (from, to) # elems b)"
      using srt sep by (auto simp: sorted_wrt_append key_less_def simp flip: S(2))
    ultimately show thesis
      using that [OF _ _ m'] S False True by (simp add: cmap_add_def cmap_inv_def)
  next
    case F: False
    obtain l r where lr: "(if from < fst e then (a, Node Null e b) else (Node a e Null, b)) = (l, r)"
      by fastforce
    then have el: "elems l @ elems r = elems (cm_root cm)"
      by (auto split: if_splits simp flip: S(2))
    have l: "\<forall>x \<in> set (elems l). fst x < from" and r: "\<forall>x \<in> set (elems r). from < fst x"
      using lr sep F by (auto split: if_splits)
    let ?cm = "cm\<lparr>cm_havecache := False, cm_root := Node l (from, to) r,
      cm_min := (if from < cm_min cm then from else cm_min cm),
      cm_max := (if from > cm_max cm then from else cm_max cm)\<rparr>"
    have m': "maps ?cm = (maps cm)(from \<mapsto> to)"
      using map_of_insert [OF l, of to "elems r"] by (simp add: maps_def flip: el)
    have b: "\<forall>k \<in> dom (maps cm). cm_min cm \<le> k \<and> k \<le> cm_max cm" using ex ne by (simp add: extrema_def)
    have "extrema ?cm"
      using ex ne m' unfolding extrema_def
      by (simp, intro conjI impI ballI; use b in \<open>force dest: bspec\<close>)
    moreover have "sorted_wrt key_less (elems l @ (from, to) # elems r)"
      using srt l r by (auto simp: sorted_wrt_append key_less_def simp flip: el)
    moreover have "cmap_add True cm from to = Inr (True, ?cm)"
      using lr S(1) False F by (simp add: cmap_add_def Let_def split: if_splits)
    ultimately show thesis using that [OF _ _ m'] by (simp add: cmap_inv_def)
  qed
qed

lemma cmap_add_nomem:
  assumes "cmap_inv cm"
  obtains cm' where "cmap_add False cm from to = Inr (from \<in> dom (maps cm), cm')" "cmap_inv cm'"
    "maps cm' = (if from \<in> dom (maps cm) then (maps cm)(from \<mapsto> to) else maps cm)" "cm_def cm' = cm_def cm"
proof (cases "cm_root cm = Null")
  case True
  then show thesis
    using that assms by (auto simp: cmap_add_def maps_def cmap_inv_def extrema_def)
next
  case False
  have srt: "sorted_wrt key_less (elems (cm_root cm))" using assms by (simp add: cmap_inv_def)
  from False obtain a e b where S: "cmap_splay (cm_root cm) from = Inr (Node a e b)"
    "elems a @ e # elems b = elems (cm_root cm)"
    and f: "map_of (elems (cm_root cm)) from = (if fst e = from then Some (snd e) else None)"
    by (rule cmap_splay_parts [OF _ srt])
  show thesis
  proof (cases "fst e = from")
    case True
    then have "cmap_add False cm from to = cmap_add True cm from to"
      using S(1) False by (simp add: cmap_add_def)
    moreover have "from \<in> dom (maps cm)" using f True by (simp add: maps_def dom_def)
    ultimately show thesis using cmap_add_ok [OF assms, of "from" to] that by metis
  next
    case F: False
    then have n: "from \<notin> dom (maps cm)" using f by (simp add: maps_def dom_def)
    show thesis
      using that [of "cm\<lparr>cm_havecache := False, cm_root := Node a e b\<rparr>"] S False F n assms
      by (simp add: cmap_add_def cmap_inv_def extrema_def maps_def)
  qed
qed

lemma cmap_lookup_hard_ok:
  assumes "cmap_inv cm"
  obtains cm' where "cmap_lookup_hard cm ch = Inr (image_of cm ch, cm')" "cmap_inv cm'"
    "maps cm' = maps cm" "cm_def cm' = cm_def cm" "cm_max cm' = cm_max cm"
    "cm_havecache cm' = cm_havecache cm"
proof (cases "cm_root cm = Null")
  case True
  then show thesis
    using that [of cm] assms by (simp add: cmap_lookup_hard_def image_of_def maps_def)
next
  case False
  have srt: "sorted_wrt key_less (elems (cm_root cm))" using assms by (simp add: cmap_inv_def)
  from False obtain a e b where S: "cmap_splay (cm_root cm) ch = Inr (Node a e b)"
    "elems a @ e # elems b = elems (cm_root cm)"
    and f: "map_of (elems (cm_root cm)) ch = (if fst e = ch then Some (snd e) else None)"
    by (rule cmap_splay_parts [OF _ srt])
  let ?cm = "cm\<lparr>cm_root := Node a e b\<rparr>"
  have m: "maps ?cm = maps cm" by (simp add: maps_def S(2))
  have i: "image_of ?cm = image_of cm" by (rule image_of_cong) (simp_all add: m)
  have "cmap_inv ?cm" using assms m i by (simp add: cmap_inv_def extrema_def S(2))
  then show thesis
    using that [of ?cm] S(1) f False m by (simp add: cmap_lookup_hard_def image_of_def maps_def)
qed

lemma cmap_cache_loop_ok:
  assumes "cmap_inv cm"
  obtains cm' where "cmap_cache_loop cm chs = Inr (map (image_of cm) chs, cm')"
    "cmap_inv cm'" "maps cm' = maps cm" "cm_def cm' = cm_def cm" "cm_max cm' = cm_max cm"
  using assms
proof (induction chs arbitrary: cm thesis)
  case (Cons c chs)
  obtain c1 where 1: "cmap_lookup_hard cm c = Inr (image_of cm c, c1)" "cmap_inv c1"
    "maps c1 = maps cm" "cm_def c1 = cm_def cm" "cm_max c1 = cm_max cm"
    by (rule cmap_lookup_hard_ok [OF Cons.prems(2)])
  obtain c2 where 2: "cmap_cache_loop c1 chs = Inr (map (image_of c1) chs, c2)"
    "cmap_inv c2" "maps c2 = maps c1" "cm_def c2 = cm_def c1" "cm_max c2 = cm_max c1"
    by (rule Cons.IH [OF _ 1(2)])
  then show ?case using Cons.prems(1) [of c2] 1 image_of_cong [OF 1(3,4)] by simp
qed simp

lemma cmap_cache_ok:
  assumes "cmap_inv cm"
  obtains cm' where "cmap_cache cm = Inr cm'" "cmap_inv cm'" "cm_havecache cm'" "maps cm' = maps cm"
    "cm_def cm' = cm_def cm"
proof -
  obtain c1 where 1: "cmap_cache_loop cm [0..int CM_CACHE_SIZE - 1]
      = Inr (map (image_of cm) [0..int CM_CACHE_SIZE - 1], c1)"
    "cmap_inv c1" "maps c1 = maps cm" "cm_def c1 = cm_def cm"
    by (rule cmap_cache_loop_ok [OF assms])
  let ?cm = "c1\<lparr>cm_cache := map (image_of cm) [0..int CM_CACHE_SIZE - 1], cm_havecache := True\<rparr>"
  have m: "maps ?cm = maps cm" "cm_def ?cm = cm_def cm" using 1 by (simp_all add: maps_def)
  have "cmap_inv ?cm"
    using 1(2) image_of_cong [OF m] unfolding cmap_inv_def extrema_def m(1) 1(3) [symmetric] by simp
  then show thesis
    using that [of ?cm] 1 m by (simp add: cmap_cache_def del: upto_rec_numeral)
qed

lemma cmap_lookup_ok:
  assumes "cmap_inv cm" "0 \<le> ch \<or> \<not> cm_havecache cm"
  obtains cm' where "cmap_lookup cm ch = Inr (image_of cm ch, cm')" "cmap_inv cm'"
    "maps cm' = maps cm" "cm_def cm' = cm_def cm" "cm_max cm' = cm_max cm"
    "cm_havecache cm' = cm_havecache cm"
proof (cases "ch < int CM_CACHE_SIZE \<and> cm_havecache cm")
  case True
  then have "map (image_of cm) [0..int CM_CACHE_SIZE - 1] ! nat ch = image_of cm ch"
    using assms(2) by (subst nth_map) (auto simp del: upto_rec_numeral)
  then show thesis
    using that [of cm] True assms
    by (simp add: cmap_lookup_def cmap_inv_def array_get_def del: upto_rec_numeral nth_map)
next
  case False
  then have "cmap_lookup cm ch = cmap_lookup_hard cm ch" unfolding cmap_lookup_def by auto
  with cmap_lookup_hard_ok [OF assms(1), of ch] that show thesis by metis
qed

section \<open>The operations together implement a map\<close>

text \<open>Successive calls of \<open>cmap_add\<close>.\<close>

fun map_all :: "cmap \<Rightarrow> (int \<times> int) list \<Rightarrow> tr_stop + cmap" where
  "map_all cm [] = Inr cm"
| "map_all cm (p # ps) = bind_r (cmap_add True cm (fst p) (snd p)) (\<lambda>(_, cm1). map_all cm1 ps)"

lemma map_all_ok:
  assumes "cmap_inv cm"
  obtains cm' where "map_all cm ps = Inr cm'" "cmap_inv cm'" "maps cm' = maps cm ++ map_of (rev ps)"
    "cm_def cm' = cm_def cm"
  using assms
proof (induction ps arbitrary: cm thesis)
  case (Cons p ps)
  obtain c1 where 1: "cmap_add True cm (fst p) (snd p) = Inr (True, c1)" "cmap_inv c1"
    "maps c1 = (maps cm)(fst p \<mapsto> snd p)" "cm_def c1 = cm_def cm"
    by (rule cmap_add_ok [OF Cons.prems(2)])
  obtain c2 where 2: "map_all c1 ps = Inr c2" "cmap_inv c2" "maps c2 = maps c1 ++ map_of (rev ps)"
    "cm_def c2 = cm_def c1"
    by (rule Cons.IH [OF _ 1(2)])
  show ?case by (rule Cons.prems(1) [of c2]) (use 1 2 in \<open>auto simp: map_add_def fun_eq_iff split: option.split\<close>)
qed simp

lemma cmap_alloc_ok: "cmap_inv cmap_alloc" "maps cmap_alloc = Map.empty" "cm_def cmap_alloc = CM_DEF_SELF"
  by (simp_all add: cmap_inv_def extrema_def maps_def cmap_alloc_def)

lemma cmap_default_ok: "cmap_inv cm \<Longrightarrow> cmap_inv (snd (cmap_default cm d))"
    "maps (snd (cmap_default cm d)) = maps cm" "cm_def (snd (cmap_default cm d)) = d"
    "fst (cmap_default cm d) = cm_def cm"
  by (auto simp: cmap_default_def cmap_inv_def extrema_def maps_def)

text \<open>C20: a character map built by any sequence of \<open>cmap_add\<close> calls, with any default and
  the cache filled, answers \<open>cmap_lookup\<close> with the last mapping added for the character, and
  with the default (or the character itself) when there is none; \<open>cmap_min\<close> and
  \<open>cmap_max\<close> are the least and the greatest mapped character.\<close>

theorem cmap_is_map:
  assumes "0 \<le> ch" "ps \<noteq> []"
  shows "\<exists>cm cm1 cm2. map_all cmap_alloc ps = Inr cm \<and>
    cmap_cache (snd (cmap_default cm d)) = Inr cm1 \<and>
    cmap_lookup cm1 ch = Inr (case map_of (rev ps) ch of Some v \<Rightarrow> v | None \<Rightarrow> if d = CM_DEF_SELF then ch else d, cm2) \<and>
    cm_min cm = Min (fst ` set ps) \<and> cm_max cm = Max (fst ` set ps)"
proof -
  obtain cm where C: "map_all cmap_alloc ps = Inr cm" "cmap_inv cm" "maps cm = map_of (rev ps)"
    by (rule map_all_ok [OF cmap_alloc_ok(1), of ps]) (simp add: cmap_alloc_ok)
  let ?cm = "snd (cmap_default cm d)"
  obtain c1 where 1: "cmap_cache ?cm = Inr c1" "cmap_inv c1" "maps c1 = maps ?cm" "cm_def c1 = cm_def ?cm"
    by (rule cmap_cache_ok [OF cmap_default_ok(1) [OF C(2)]])
  obtain c2 where 2: "cmap_lookup c1 ch = Inr (image_of c1 ch, c2)"
    by (rule cmap_lookup_ok [OF 1(2), of ch]) (use assms(1) in auto)
  have im: "image_of c1 ch = (case map_of (rev ps) ch of Some v \<Rightarrow> v | None \<Rightarrow> if d = CM_DEF_SELF then ch else d)"
    by (simp add: image_of_def 1(3,4) cmap_default_ok C(3) cmap_unmapped_def split: option.split)
  have dom: "dom (maps cm) = fst ` set ps" by (simp add: C(3) dom_map_of_conv_image_fst)
  then have "maps cm \<noteq> Map.empty" using assms(2) by auto
  then have "cm_min cm \<in> fst ` set ps" "cm_max cm \<in> fst ` set ps" "\<forall>k \<in> fst ` set ps. cm_min cm \<le> k \<and> k \<le> cm_max cm"
    using C(2) by (simp_all add: cmap_inv_def extrema_def dom)
  then have "cm_min cm = Min (fst ` set ps)" "cm_max cm = Max (fst ` set ps)"
    by (auto intro!: Min_eqI [symmetric] Max_eqI [symmetric])
  then show ?thesis using C(1) 1(1) 2 im by auto
qed

theorem cmap_is_map_witness:
  "\<exists>cm cm1 cm2. map_all cmap_alloc [(97, 120), (98, 121), (97, 122)] = Inr cm \<and>
    cmap_cache (snd (cmap_default cm (- 2))) = Inr cm1 \<and> cmap_lookup cm1 97 = Inr (122, cm2) \<and>
    cm_min cm = 97 \<and> cm_max cm = 98"
  using cmap_is_map [of 97 "[(97, 120), (98, 121), (97, 122)]" "- 2"] by simp

end
