(* ===== verification/Tr_Str.thy ===== *)
theory Tr_Str
  imports Tr_Lib
begin

text \<open>
  The operand strings of \<open>tr\<close> (\<^verbatim>\<open>text_cmds-88/tr/str.c\<close>, \<^verbatim>\<open>extern.h\<close>): a \<open>STR\<close> hands
  out the characters its string stands for, one per call of \<open>next\<close>. The pointer \<open>str\<close> is
  the rest of the string it points to, without the terminator. The \<open>NUL\<close> that \<open>bracket\<close>
  writes over the colon of a class is read by \<open>genclass\<close> only, which gets the name as its
  argument.
\<close>

section \<open>extern.h\<close>

datatype which = STRING1 | STRING2

datatype str_state =
  EOS | INFINITE | NORMAL | RANGE | SEQUENCE | CCLASS | CCLASS_UPPER | CCLASS_LOWER | SET

record tr_str =
  which :: which
  state :: str_state
  cnt :: int
  lastch :: int
  cclass :: nat
  equiv :: "int list"
  chars :: "int list"
  str :: string

section \<open>Escapes and plain characters\<close>

text \<open>The loop of \<open>backslash\<close>: up to three octal digits, their number, value and the rest.\<close>

definition is_octal_digit :: "char \<Rightarrow> bool" where
  "is_octal_digit c = (digit_val c < 8)"

fun octal :: "string \<Rightarrow> nat \<Rightarrow> int \<Rightarrow> nat \<times> int \<times> string" where
  "octal [] n val = (n, val, [])"
| "octal (c # cs) n val =
     (if \<not> is_octal_digit c then (n, val, c # cs)
      else if Suc n = 3 then (3, val * 8 + int (digit_val c), cs)
      else octal cs (Suc n) (val * 8 + int (digit_val c)))"

definition escape :: "char \<Rightarrow> int" where
  "escape ch =
     (if ch = CHR ''a'' then 7
      else if ch = CHR ''b'' then 8
      else if ch = CHR ''f'' then 12
      else if ch = CHR ''n'' then 10
      else if ch = CHR ''r'' then 13
      else if ch = CHR ''t'' then 9
      else if ch = CHR ''v'' then 11
      else of_char ch)"

text \<open>At a backslash: the value, whether it was octal, and the advanced string.\<close>

definition backslash :: "tr_str \<Rightarrow> int \<times> bool \<times> tr_str" where
  "backslash s =
     (case octal (tl (str s)) 0 0 of (n, val, rest) \<Rightarrow>
        if n \<noteq> 0 then (val, True, s\<lparr>str := rest\<rparr>)
        else case rest of
            [] \<Rightarrow> (92, False, s\<lparr>str := [], state := EOS\<rparr>)
          | ch # rest' \<Rightarrow> (escape ch, False, s\<lparr>str := rest'\<rparr>))"

definition EILSEQ :: tr_stop where
  "EILSEQ = Stop (Errxmsg ''Illegal byte sequence'')"

text \<open>\<open>mbrtowc\<close> at the pointer and the test of its result; \<open>zero\<close> says whether the
  terminator is accepted (it is in \<open>genrange\<close> and \<open>genseq\<close>).\<close>

definition get_wc :: "libc \<Rightarrow> bool \<Rightarrow> tr_str \<Rightarrow> tr_stop + int \<times> nat" where
  "get_wc lc zero s =
     (case mbrtowc lc (str s) of
        MbBad \<Rightarrow> Inl EILSEQ
      | MbChar wc clen \<Rightarrow>
          if clen = 0 \<and> \<not> zero then Inl EILSEQ
          else if clen \<le> length (str s) then Inr (wc, clen) else Inl Fault)"

text \<open>The character at the pointer, by \<open>backslash\<close> or by \<open>mbrtowc\<close>.\<close>

definition get_char :: "libc \<Rightarrow> tr_str \<Rightarrow> tr_stop + int \<times> bool \<times> tr_str" where
  "get_char lc s =
     (if str s \<noteq> [] \<and> hd (str s) = CHR 0x5C then Inr (backslash s)
      else bind_r (get_wc lc True s) (\<lambda>(wc, clen). Inr (wc, False, s\<lparr>str := drop clen (str s)\<rparr>)))"

section \<open>Ranges, classes, sequences\<close>

definition c_str1 :: "int \<Rightarrow> string" where
  "c_str1 x = (if x mod 256 = 0 then [] else [char_of (nat (x mod 256))])"

definition charcoll :: "libc \<Rightarrow> int \<Rightarrow> int \<Rightarrow> int" where
  "charcoll lc a b = strcoll lc (c_str1 a) (c_str1 b)"

text \<open>\<open>mergesort(3)\<close> with \<open>charcoll\<close>: the stable sort.\<close>

fun coll_insert :: "libc \<Rightarrow> int \<Rightarrow> int list \<Rightarrow> int list" where
  "coll_insert lc x [] = [x]"
| "coll_insert lc x (y # ys) =
     (if charcoll lc x y \<le> 0 then x # y # ys else y # coll_insert lc x ys)"

definition mergesort :: "libc \<Rightarrow> int list \<Rightarrow> int list" where
  "mergesort lc xs = foldr (coll_insert lc) xs []"

definition genrange :: "libc \<Rightarrow> tr_str \<Rightarrow> bool \<Rightarrow> tr_stop + bool \<times> tr_str" where
  "genrange lc s was_octal =
     bind_r (get_char lc (s\<lparr>str := tl (str s)\<rparr>)) (\<lambda>(stopval, octal, s1).
       if octal \<or> was_octal \<or> MB_CUR_MAX lc > 1 then
         (if stopval < lastch s then Inr (False, s1\<lparr>str := str s\<rparr>)
          else bind_r (wint (stopval - lastch s + 1)) (\<lambda>n.
            bind_r (wint (lastch s - 1)) (\<lambda>l.
              Inr (True, s1\<lparr>cnt := n, state := RANGE, lastch := l\<rparr>))))
       else if charcoll lc stopval (lastch s) < 0 then Inr (False, s1\<lparr>str := str s\<rparr>)
       else if \<not> mem lc then Inl (Stop (Errmsg ''genrange() malloc''))
       else
         let set = filter (\<lambda>c. charcoll lc c (lastch s) \<ge> 0 \<and> charcoll lc c stopval \<le> 0) [0..255] in
         Inr (True, s1\<lparr>chars := (if 1 < length set then mergesort lc set else set) @ [OOBCH],
                       cnt := 0, state := SET\<rparr>))"

definition genclass :: "libc \<Rightarrow> tr_str \<Rightarrow> string \<Rightarrow> tr_stop + tr_str" where
  "genclass lc s name =
     (if wctype lc name = 0 then Inl (Stop (Errxmsg (''unknown class '' @ name)))
      else Inr (s\<lparr>cclass := wctype lc name, cnt := 0, lastch := -1,
        state := (if name = ''upper'' then CCLASS_UPPER
                  else if name = ''lower'' then CCLASS_LOWER else CCLASS)\<rparr>))"

text \<open>The loop of \<open>genequiv\<close> that collects the characters of one primary weight.\<close>

fun fill_equiv :: "libc \<Rightarrow> int \<Rightarrow> int list \<Rightarrow> nat \<Rightarrow> int list \<Rightarrow> tr_stop + nat \<times> int list" where
  "fill_equiv lc pri [] p eq = Inr (p, eq)"
| "fill_equiv lc pri (i # is) p eq =
     (let dst = strxfrm lc (c_str1 i) in
      if length dst = 1 \<and> pri \<noteq> 0 \<and> pri = of_char (hd dst) then
        (if p < length eq then fill_equiv lc pri is (Suc p) (eq[p := i]) else Inl Fault)
      else fill_equiv lc pri is p eq)"

definition misplaced_equals :: tr_stop where
  "misplaced_equals = Stop (Errxmsg ''misplaced equivalence equals sign'')"

definition genequiv :: "libc \<Rightarrow> tr_str \<Rightarrow> tr_stop + tr_str" where
  "genequiv lc s =
     bind_r
       (if str s \<noteq> [] \<and> hd (str s) = CHR 0x5C then
          (case backslash s of (v, _, s1) \<Rightarrow>
             if str s1 = [] \<or> hd (str s1) \<noteq> CHR ''='' then Inl misplaced_equals
             else Inr (s1\<lparr>equiv := (equiv s1)[0 := v], str := drop 2 (str s1)\<rparr>))
        else bind_r (get_wc lc False s) (\<lambda>(wc, clen).
          if length (str s) \<le> clen \<or> str s ! clen \<noteq> CHR ''='' then Inl misplaced_equals
          else Inr (s\<lparr>equiv := (equiv s)[0 := wc], str := drop (clen + 2) (str s)\<rparr>)))
       (\<lambda>s2.
          let dst = strxfrm lc (c_str1 (equiv s2 ! 0)) in
          if MB_CUR_MAX lc = 1 \<and> length dst = 1 then
            bind_r (fill_equiv lc (of_char (hd dst)) [1..255] 1 (equiv s2)) (\<lambda>(p, eq).
              if p < length eq then
                Inr (s2\<lparr>equiv := eq[p := OOBCH], cnt := 0, state := SET, chars := eq[p := OOBCH]\<rparr>)
              else Inl Fault)
          else Inr (s2\<lparr>cnt := 0, state := SET, chars := equiv s2\<rparr>))"

definition misplaced_asterisk :: tr_stop where
  "misplaced_asterisk = Stop (Errxmsg ''misplaced sequence asterisk'')"

definition illegal_count :: tr_stop where
  "illegal_count = Stop (Errxmsg ''illegal sequence count'')"

text \<open>The count after the asterisk; \<open>strtol\<close> on the 32-bit target.\<close>

definition seq_count :: "tr_str \<Rightarrow> tr_stop + tr_str" where
  "seq_count s =
     (case str s of
        [] \<Rightarrow> Inl illegal_count
      | c # rest \<Rightarrow>
          if c = CHR 0x5C then (case backslash s of (v, _, s1) \<Rightarrow> Inr (s1\<lparr>cnt := v\<rparr>))
          else if c = CHR '']'' then Inr (s\<lparr>cnt := 0, str := rest\<rparr>)
          else if digit_val c < 10 then
            (case strto (- (2 ^ 31)) (2 ^ 31 - 1) (str s) of (v, ep, _) \<Rightarrow>
               if ep \<noteq> [] \<and> hd ep = CHR '']'' then Inr (s\<lparr>cnt := v, str := tl ep\<rparr>)
               else Inl illegal_count)
          else Inl illegal_count)"

definition genseq :: "libc \<Rightarrow> tr_str \<Rightarrow> tr_stop + tr_str" where
  "genseq lc s =
     bind_r (get_char lc s) (\<lambda>(ch, _, s1).
       if str s1 = [] \<or> hd (str s1) \<noteq> CHR ''*'' then Inl misplaced_asterisk
       else bind_r (seq_count (s1\<lparr>lastch := ch, str := tl (str s1)\<rparr>)) (\<lambda>s2.
         Inr (s2\<lparr>state := (if cnt s2 \<noteq> 0 then SEQUENCE else INFINITE)\<rparr>)))"

section \<open>Brackets\<close>

text \<open>The \<open>repeat\<close> label: at a bracket alone at the end of the string, the search starts
  behind the terminator.\<close>

definition bracket_repeat :: "libc \<Rightarrow> tr_str \<Rightarrow> tr_stop + bool \<times> tr_str" where
  "bracket_repeat lc s =
     (if length (str s) < 2 then Inl Fault
      else let p = dropWhile (\<lambda>c. c \<noteq> CHR ''*'' \<and> c \<noteq> CHR '']'') (drop 2 (str s)) in
        if p = [] \<or> hd p \<noteq> CHR ''*'' \<or> CHR '']'' \<notin> set p then Inr (False, s)
        else bind_r (genseq lc (s\<lparr>str := tl (str s)\<rparr>)) (\<lambda>s1. Inr (True, s1)))"

text \<open>\<open>n\<close> is \<open>p - s->str\<close>, the offset of the closing bracket.\<close>

definition bracket :: "libc \<Rightarrow> tr_str \<Rightarrow> tr_stop + bool \<times> tr_str" where
  "bracket lc s =
     (if 2 \<le> length (str s) \<and> str s ! 1 \<in> {CHR '':'', CHR ''=''} then
        (if CHR '']'' \<notin> set (drop 2 (str s)) then Inr (False, s)
         else let n = 2 + length (takeWhile (\<lambda>c. c \<noteq> CHR '']'') (drop 2 (str s))) in
           if str s ! (n - 1) \<noteq> str s ! 1 \<or> n < 4 then bracket_repeat lc s
           else if str s ! 1 = CHR '':'' then
             bind_r (genclass lc s (take (n - 3) (drop 2 (str s)))) (\<lambda>s1.
               Inr (True, s1\<lparr>str := drop (n + 1) (str s)\<rparr>))
           else bind_r (genequiv lc (s\<lparr>str := drop 2 (str s)\<rparr>)) (\<lambda>s1. Inr (True, s1)))
      else bracket_repeat lc s)"

section \<open>next\<close>

text \<open>We can start a range at any time.\<close>

definition maybe_range :: "libc \<Rightarrow> tr_str \<Rightarrow> bool \<Rightarrow> tr_stop + bool \<times> tr_str" where
  "maybe_range lc s is_octal =
     (if str s \<noteq> [] \<and> hd (str s) = CHR ''-'' then genrange lc s is_octal else Inr (False, s))"

definition next_plain :: "libc \<Rightarrow> tr_str \<Rightarrow> tr_stop + bool \<times> tr_str" where
  "next_plain lc s =
     bind_r (get_wc lc False s) (\<lambda>(wc, clen).
       maybe_range lc (s\<lparr>lastch := wc, str := drop clen (str s)\<rparr>) False)"

text \<open>The \<open>NORMAL\<close> case away from the terminator; the flag says that the code goes on with
  \<open>return (next(s))\<close>, otherwise it returns 1.\<close>

definition next_normal :: "libc \<Rightarrow> tr_str \<Rightarrow> tr_stop + bool \<times> tr_str" where
  "next_normal lc s =
     (if hd (str s) = CHR 0x5C then
        (case backslash s of (ch, oct, s1) \<Rightarrow> maybe_range lc (s1\<lparr>lastch := ch\<rparr>) oct)
      else if hd (str s) = CHR ''['' then
        bind_r (bracket lc s) (\<lambda>(b, s1). if b then Inr (True, s1) else next_plain lc s1)
      else next_plain lc s)"

subsection \<open>The recursion ends: the string gets shorter\<close>

lemma octal_rest: "octal cs n val = (n', v, rest) \<Longrightarrow> length rest \<le> length cs"
  by (induction cs n val rule: octal.induct) (auto split: if_splits)

lemma backslash_shorter:
  "backslash s = (v, oct, s1) \<Longrightarrow> str s \<noteq> [] \<Longrightarrow> length (str s1) < length (str s)"
  by (cases "str s") (auto simp: backslash_def split: prod.splits if_splits list.splits dest!: octal_rest)

lemma get_char_shorter: "get_char lc s = Inr (v, oct, s1) \<Longrightarrow> length (str s1) \<le> length (str s)"
  by (auto simp: get_char_def bind_r_Inr split: if_splits dest!: backslash_shorter)

lemma get_wc_pos: "get_wc lc False s = Inr (wc, clen) \<Longrightarrow> 0 < clen \<and> clen \<le> length (str s)"
  by (auto simp: get_wc_def split: mb.splits if_splits)

lemma genrange_shorter:
  "genrange lc s oct = Inr (b, s1) \<Longrightarrow> str s \<noteq> [] \<Longrightarrow>
     length (str s1) \<le> length (str s) \<and> (b \<longrightarrow> length (str s1) < length (str s))"
  by (cases "str s")
    (auto simp: genrange_def bind_r_Inr Let_def split: if_splits dest!: get_char_shorter)

lemma genequiv_shorter:
  "genequiv lc s = Inr s1 \<Longrightarrow> str s \<noteq> [] \<Longrightarrow> length (str s1) < length (str s)"
  by (auto simp: genequiv_def bind_r_Inr Let_def split: if_splits prod.splits dest!: get_wc_pos backslash_shorter)

lemma seq_count_shorter: "seq_count s = Inr s1 \<Longrightarrow> length (str s1) < length (str s)"
  using strto_rest [of "- (2 ^ 31)" "2 ^ 31 - 1" "str s"]
  by (auto simp: seq_count_def split: list.splits if_splits prod.splits dest!: backslash_shorter)

lemma genseq_shorter: "genseq lc s = Inr s1 \<Longrightarrow> length (str s1) < length (str s)"
  by (auto simp: genseq_def bind_r_Inr split: if_splits dest!: seq_count_shorter get_char_shorter)

lemma bracket_repeat_shorter:
  "bracket_repeat lc s = Inr (b, s1) \<Longrightarrow> (if b then length (str s1) < length (str s) else s1 = s)"
  by (auto simp: bracket_repeat_def bind_r_Inr Let_def split: if_splits dest!: genseq_shorter)

lemma bracket_shorter:
  "bracket lc s = Inr (b, s1) \<Longrightarrow> (if b then length (str s1) < length (str s) else s1 = s)"
  by (auto simp: bracket_def bind_r_Inr Let_def split: if_splits
      dest!: genequiv_shorter bracket_repeat_shorter)

lemma next_plain_shorter: "next_plain lc s = Inr (b, s1) \<Longrightarrow> length (str s1) < length (str s)"
  by (auto simp: next_plain_def bind_r_Inr maybe_range_def split: if_splits
      dest!: get_wc_pos genrange_shorter)

lemma next_normal_shorter:
  "next_normal lc s = Inr (b, s1) \<Longrightarrow> str s \<noteq> [] \<Longrightarrow> length (str s1) < length (str s)"
  by (auto simp: next_normal_def bind_r_Inr maybe_range_def split: if_splits prod.splits
      dest!: backslash_shorter bracket_shorter next_plain_shorter genrange_shorter)

function next_ch :: "libc \<Rightarrow> tr_str \<Rightarrow> tr_stop + bool \<times> tr_str" where
  "next_ch lc s =
     (case state s of
        EOS \<Rightarrow> Inr (False, s)
      | INFINITE \<Rightarrow> Inr (True, if str s = [] then s\<lparr>state := NORMAL\<rparr> else s)
      | NORMAL \<Rightarrow>
          if str s = [] then Inr (False, s\<lparr>state := EOS\<rparr>)
          else bind_r (next_normal lc s) (\<lambda>(again, s1). if again then next_ch lc s1 else Inr (True, s1))
      | RANGE \<Rightarrow>
          bind_r (wint (cnt s - 1)) (\<lambda>n.
            if cnt s = 0 then next_ch lc (s\<lparr>cnt := n, state := NORMAL\<rparr>)
            else bind_r (wint (lastch s + 1)) (\<lambda>l. Inr (True, s\<lparr>cnt := n, lastch := l\<rparr>)))
      | SEQUENCE \<Rightarrow>
          bind_r (wint (cnt s - 1)) (\<lambda>n.
            if cnt s = 0 then next_ch lc (s\<lparr>cnt := n, state := NORMAL\<rparr>)
            else Inr (True, s\<lparr>cnt := n\<rparr>))
      | SET \<Rightarrow>
          bind_r (array_get (chars s) (cnt s)) (\<lambda>ch.
            if ch = OOBCH then next_ch lc (s\<lparr>cnt := cnt s + 1, state := NORMAL\<rparr>)
            else Inr (True, s\<lparr>cnt := cnt s + 1, lastch := ch\<rparr>))
      | _ \<Rightarrow>
          bind_r (wint (cnt s + 1)) (\<lambda>n.
            let ch = nextwctype lc (lastch s) (cclass s) in
            if ch = -1 then next_ch lc (s\<lparr>cnt := n, state := NORMAL\<rparr>)
            else Inr (True, s\<lparr>cnt := n, lastch := ch\<rparr>)))"
  by pat_completeness auto
termination
proof (relation "measure (\<lambda>(lc, s). 2 * length (str s) + (if state s = NORMAL then 0 else 1))", goal_cases)
  case (2 lc s p again s1)
  then show ?case using next_normal_shorter [of lc s again s1] by auto
qed simp_all

declare next_ch.simps [simp del]

end
