(* ===== verification/Tr_Main.thy ===== *)
theory Tr_Main
  imports Tr_Set Tr_Map Tr_Str
begin

text \<open>
  The program \<open>tr\<close> (\<^verbatim>\<open>text_cmds-88/tr/tr.c\<close>): option handling, the sets and the map built
  from the operands, and the copying loops. A loop over \<open>next\<close> may run forever (a sequence
  without a count that is followed by more characters repeats its character for ever), so the
  loops that call it take a number of rounds, and \<open>None\<close> is a run that has not ended
  within it. The standard input is the list of wide characters \<open>getwchar\<close> returns before
  \<open>WEOF\<close> and whether \<open>ferror\<close> holds then; the result is the list of characters given to
  \<open>putwchar\<close> and whether the program ends with \<open>err(1, NULL)\<close>.
\<close>

section \<open>Runs\<close>

type_synonym 'a run = "(tr_stop + 'a) option"

section \<open>setup\<close>

definition add_char :: "libc \<Rightarrow> cset \<Rightarrow> int \<Rightarrow> tr_stop + cset" where
  "add_char lc cs ch = bind_r (cset_add (mem lc) cs ch) (\<lambda>(_, cs'). Inr cs')"

definition add_mapping :: "libc \<Rightarrow> cmap \<Rightarrow> int \<Rightarrow> int \<Rightarrow> tr_stop + cmap" where
  "add_mapping lc cm from to = bind_r (cmap_add (mem lc) cm from to) (\<lambda>(_, cm'). Inr cm')"

fun setup_loop :: "nat \<Rightarrow> libc \<Rightarrow> tr_str \<Rightarrow> cset \<Rightarrow> (tr_str \<times> cset) run" where
  "setup_loop 0 lc s cs = None"
| "setup_loop (Suc n) lc s cs =
     bind_run (Some (next_ch lc s)) (\<lambda>(b, s1).
       if \<not> b then Some (Inr (s1, cs))
       else bind_run (Some (add_char lc cs (lastch s1))) (\<lambda>cs1. setup_loop n lc s1 cs1))"

definition no_memory :: tr_stop where
  "no_memory = Stop (Errmsg '''')"

definition setup_set :: "nat \<Rightarrow> libc \<Rightarrow> string \<Rightarrow> tr_str \<Rightarrow> bool \<Rightarrow> bool \<Rightarrow> cset run" where
  "setup_set n lc arg s cflag Cflag =
     (if \<not> mem lc then Some (Inl no_memory)
      else bind_run (setup_loop n lc (s\<lparr>str := arg\<rparr>) cset_alloc) (\<lambda>(_, cs).
        let cs1 = (if Cflag then snd (cset_addclass (mem lc) cs (wctype lc ''rune'') True) else cs);
            cs2 = (if cflag \<or> Cflag then cset_invert cs1 else cs1) in
        Some (cset_cache lc cs2)))"

section \<open>The map of two strings\<close>

record pst =
  s1 :: tr_str
  s2 :: tr_str
  cmap_of :: cmap
  squeeze :: cset

definition put_pair :: "libc \<Rightarrow> bool \<Rightarrow> int \<Rightarrow> int \<Rightarrow> pst \<Rightarrow> tr_stop + pst" where
  "put_pair lc sq from to st =
     bind_r (add_mapping lc (cmap_of st) from to) (\<lambda>cm.
       if sq then bind_r (add_char lc (squeeze st) to) (\<lambda>cs. Inr (st\<lparr>cmap_of := cm, squeeze := cs\<rparr>))
       else Inr (st\<lparr>cmap_of := cm\<rparr>))"

text \<open>The loop over a class paired with its opposite case; the flag is false when \<open>string1\<close>
  ended (\<open>goto endloop\<close>).\<close>

fun case_loop ::
  "nat \<Rightarrow> libc \<Rightarrow> bool \<Rightarrow> (int \<Rightarrow> int) \<Rightarrow> (int \<Rightarrow> bool) \<Rightarrow> str_state \<Rightarrow> pst \<Rightarrow> (bool \<times> pst) run" where
  "case_loop 0 lc sflag tow isw cc st = None"
| "case_loop (Suc n) lc sflag tow isw cc st =
     (let ch = tow (lastch (s1 st)) in
      bind_run (Some (put_pair lc (sflag \<and> isw ch) (lastch (s1 st)) ch st)) (\<lambda>st1.
        bind_run (Some (next_ch lc (s1 st1))) (\<lambda>(b, t).
          let st2 = st1\<lparr>s1 := t\<rparr> in
          if \<not> b then Some (Inr (False, st2))
          else if state t = cc \<and> cnt t > 1 then case_loop n lc sflag tow isw cc st2
          else Some (Inr (True, st2)))))"

fun skip_loop :: "nat \<Rightarrow> libc \<Rightarrow> str_state \<Rightarrow> tr_str \<Rightarrow> tr_str run" where
  "skip_loop 0 lc cc s = None"
| "skip_loop (Suc n) lc cc s =
     bind_run (Some (next_ch lc s)) (\<lambda>(b, t).
       if \<not> b then Some (Inr t)
       else if state t = cc \<and> cnt t > 1 then skip_loop n lc cc t
       else Some (Inr t))"

definition case_pair :: "str_state \<Rightarrow> str_state \<Rightarrow> pst \<Rightarrow> bool" where
  "case_pair c1 c2 st \<longleftrightarrow> state (s1 st) = c1 \<and> state (s2 st) = c2 \<and> cnt (s1 st) = 1 \<and> cnt (s2 st) = 1"

text \<open>\<open>while (next(&s1))\<close> with its label \<open>again\<close>, where the flag says that control is.\<close>

fun pair_loop :: "nat \<Rightarrow> libc \<Rightarrow> bool \<Rightarrow> bool \<Rightarrow> pst \<Rightarrow> pst run" where
  "pair_loop 0 lc sflag at_again st = None"
| "pair_loop (Suc n) lc sflag at_again st =
     (if \<not> at_again then
        bind_run (Some (next_ch lc (s1 st))) (\<lambda>(b, t).
          if \<not> b then Some (Inr (st\<lparr>s1 := t\<rparr>)) else pair_loop n lc sflag True (st\<lparr>s1 := t\<rparr>))
      else if case_pair CCLASS_LOWER CCLASS_UPPER st then
        bind_run (case_loop n lc sflag (towupper lc) (iswupper lc) CCLASS_LOWER st) (\<lambda>(go_on, st1).
          if \<not> go_on then Some (Inr st1)
          else bind_run (skip_loop n lc CCLASS_UPPER (s2 st1)) (\<lambda>t.
            pair_loop n lc sflag True (st1\<lparr>s2 := t\<rparr>)))
      else if case_pair CCLASS_UPPER CCLASS_LOWER st then
        bind_run (case_loop n lc sflag (towlower lc) (iswlower lc) CCLASS_UPPER st) (\<lambda>(go_on, st1).
          if \<not> go_on then Some (Inr st1)
          else bind_run (skip_loop n lc CCLASS_LOWER (s2 st1)) (\<lambda>t.
            pair_loop n lc sflag True (st1\<lparr>s2 := t\<rparr>)))
      else
        bind_run (Some (put_pair lc sflag (lastch (s1 st)) (lastch (s2 st)) st)) (\<lambda>st1.
          bind_run (Some (next_ch lc (s2 st1))) (\<lambda>(_, t).
            pair_loop n lc sflag False (st1\<lparr>s2 := t\<rparr>))))"

section \<open>Complemented strings\<close>

text \<open>One round of the loop of \<open>-c\<close>: the new state, and whether the loop is left.\<close>

definition comp_step :: "libc \<Rightarrow> bool \<Rightarrow> bool \<Rightarrow> int \<Rightarrow> pst \<Rightarrow> tr_stop + bool \<times> pst" where
  "comp_step lc Cflag sflag c st =
     (if Cflag \<and> \<not> iswrune lc c then Inr (False, st)
      else bind_r (cmap_lookup (cmap_of st) c) (\<lambda>(v, cm).
        bind_r
          (if v = OOBCH then
             bind_r (next_ch lc (s2 st)) (\<lambda>(b, t).
               bind_r (if b then add_mapping lc cm c (lastch t) else Inr cm) (\<lambda>cm1.
                 bind_r (if sflag then add_char lc (squeeze st) (lastch t) else Inr (squeeze st)) (\<lambda>cs.
                   Inr (st\<lparr>s2 := t, cmap_of := cm1, squeeze := cs\<rparr>))))
           else bind_r (add_mapping lc cm c c) (\<lambda>cm1. Inr (st\<lparr>cmap_of := cm1\<rparr>)))
          (\<lambda>st1. Inr ((state (s2 st1) = EOS \<or> state (s2 st1) = INFINITE) \<and>
                      c \<ge> cm_max (cmap_of st1), st1))))"

function comp_loop :: "libc \<Rightarrow> bool \<Rightarrow> bool \<Rightarrow> int \<Rightarrow> pst \<Rightarrow> tr_stop + pst" where
  "comp_loop lc Cflag sflag c st =
     (if c < WCHAR_MAX then
        bind_r (comp_step lc Cflag sflag c st) (\<lambda>(stop, st1).
          if stop then Inr st1 else comp_loop lc Cflag sflag (c + 1) st1)
      else Inr st)"
  by pat_completeness auto
termination
  by (relation "measure (\<lambda>(lc, Cflag, sflag, c, st). nat (WCHAR_MAX - c))") auto

declare comp_loop.simps [simp del]

definition complement_values :: "libc \<Rightarrow> bool \<Rightarrow> bool \<Rightarrow> string \<Rightarrow> pst \<Rightarrow> tr_stop + pst" where
  "complement_values lc Cflag sflag arg st =
     bind_r (comp_loop lc Cflag sflag 0 (st\<lparr>s2 := (s2 st)\<lparr>str := arg, state := NORMAL\<rparr>\<rparr>)) (\<lambda>st1.
       Inr (st1\<lparr>cmap_of := snd (cmap_default (cmap_of st1) (lastch (s2 st1)))\<rparr>))"

text \<open>\<open>-C\<close> in a single-byte locale: the characters outside \<open>string1\<close> in \<open>carray\<close>, the
  others mapped to themselves.\<close>

fun collect_loop :: "libc \<Rightarrow> cmap \<Rightarrow> int list \<Rightarrow> tr_stop + int list \<times> cmap" where
  "collect_loop lc cm [] = Inr ([], cm)"
| "collect_loop lc cm (c # cs) =
     bind_r (cmap_lookup cm c) (\<lambda>(v, cm1).
       if v = OOBCH \<and> iswrune lc c then
         bind_r (collect_loop lc cm1 cs) (\<lambda>(p, cm2). Inr (c # p, cm2))
       else bind_r (add_mapping lc cm1 c c) (\<lambda>cm2. collect_loop lc cm2 cs))"

fun assign_loop :: "libc \<Rightarrow> bool \<Rightarrow> pst \<Rightarrow> int list \<Rightarrow> tr_stop + pst" where
  "assign_loop lc sflag st [] = Inr st"
| "assign_loop lc sflag st (c # cs) =
     bind_r (next_ch lc (s2 st)) (\<lambda>(_, t).
       bind_r (put_pair lc sflag c (lastch t) (st\<lparr>s2 := t\<rparr>)) (\<lambda>st1. assign_loop lc sflag st1 cs))"

definition complement_chars :: "libc \<Rightarrow> bool \<Rightarrow> string \<Rightarrow> pst \<Rightarrow> tr_stop + pst" where
  "complement_chars lc sflag arg st =
     bind_r (collect_loop lc (cmap_of st) [0..int NCHARS_SB - 1]) (\<lambda>(carray, cm).
       assign_loop lc sflag
         (st\<lparr>cmap_of := cm, s2 := (s2 st)\<lparr>str := arg, state := NORMAL\<rparr>\<rparr>)
         (if 1 < length carray then mergesort lc carray else carray))"

section \<open>The copying loops\<close>

text \<open>The loops call \<open>cset_in\<close> and \<open>cmap_lookup\<close>, which may rearrange the trees: the
  operations are the parameters \<open>isin\<close> and \<open>look\<close>, the structures are threaded.\<close>

fun delete_loop :: "('s \<Rightarrow> int \<Rightarrow> tr_stop + bool \<times> 's) \<Rightarrow> 's \<Rightarrow> int list \<Rightarrow> tr_stop + int list" where
  "delete_loop isin del [] = Inr []"
| "delete_loop isin del (ch # inp) =
     bind_r (isin del ch) (\<lambda>(b, del1).
       bind_r (delete_loop isin del1 inp) (\<lambda>out. Inr (if b then out else ch # out)))"

text \<open>\<open>lastch != ch || !cset_in(squeeze, ch)\<close>\<close>

definition passes ::
  "('s \<Rightarrow> int \<Rightarrow> tr_stop + bool \<times> 's) \<Rightarrow> 's \<Rightarrow> int \<Rightarrow> int \<Rightarrow> tr_stop + bool \<times> 's" where
  "passes isin sq prev ch =
     (if prev \<noteq> ch then Inr (True, sq) else bind_r (isin sq ch) (\<lambda>(b, sq1). Inr (\<not> b, sq1)))"

fun squeeze_loop :: "('s \<Rightarrow> int \<Rightarrow> tr_stop + bool \<times> 's) \<Rightarrow> 's \<Rightarrow> int \<Rightarrow> int list \<Rightarrow> tr_stop + int list" where
  "squeeze_loop isin sq prev [] = Inr []"
| "squeeze_loop isin sq prev (ch # inp) =
     bind_r (passes isin sq prev ch) (\<lambda>(p, sq1).
       if p then bind_r (squeeze_loop isin sq1 ch inp) (\<lambda>out. Inr (ch # out))
       else squeeze_loop isin sq1 prev inp)"

fun delete_squeeze_loop ::
  "('s \<Rightarrow> int \<Rightarrow> tr_stop + bool \<times> 's) \<Rightarrow> 's \<Rightarrow> 's \<Rightarrow> int \<Rightarrow> int list \<Rightarrow> tr_stop + int list" where
  "delete_squeeze_loop isin del sq prev [] = Inr []"
| "delete_squeeze_loop isin del sq prev (ch # inp) =
     bind_r (isin del ch) (\<lambda>(b, del1).
       if b then delete_squeeze_loop isin del1 sq prev inp
       else bind_r (passes isin sq prev ch) (\<lambda>(p, sq1).
         if p then bind_r (delete_squeeze_loop isin del1 sq1 ch inp) (\<lambda>out. Inr (ch # out))
         else delete_squeeze_loop isin del1 sq1 prev inp))"

fun translate_loop ::
  "('m \<Rightarrow> int \<Rightarrow> tr_stop + int \<times> 'm) \<Rightarrow> (int \<Rightarrow> bool) \<Rightarrow> 'm \<Rightarrow> int list \<Rightarrow> tr_stop + int list" where
  "translate_loop look through cm [] = Inr []"
| "translate_loop look through cm (ch # inp) =
     bind_r (if through ch then look cm ch else Inr (ch, cm)) (\<lambda>(c, cm1).
       bind_r (translate_loop look through cm1 inp) (\<lambda>out. Inr (c # out)))"

fun translate_squeeze_loop ::
  "('m \<Rightarrow> int \<Rightarrow> tr_stop + int \<times> 'm) \<Rightarrow> ('s \<Rightarrow> int \<Rightarrow> tr_stop + bool \<times> 's) \<Rightarrow> (int \<Rightarrow> bool) \<Rightarrow>
   'm \<Rightarrow> 's \<Rightarrow> int \<Rightarrow> int list \<Rightarrow> tr_stop + int list" where
  "translate_squeeze_loop look isin through cm sq prev [] = Inr []"
| "translate_squeeze_loop look isin through cm sq prev (ch # inp) =
     bind_r (if through ch then look cm ch else Inr (ch, cm)) (\<lambda>(c, cm1).
       bind_r (passes isin sq prev c) (\<lambda>(p, sq1).
         if p then bind_r (translate_squeeze_loop look isin through cm1 sq1 c inp) (\<lambda>out. Inr (c # out))
         else translate_squeeze_loop look isin through cm1 sq1 prev inp))"

section \<open>main\<close>

record tr_opts =
  Cflag :: bool
  cflag :: bool
  dflag :: bool
  sflag :: bool

definition usage :: tr_stop where
  "usage = Stop (Plain (''usage: tr [-Ccsu] string1 string2'' @ [CHR 0x0A] @
     ''       tr [-Ccu] -d string1'' @ [CHR 0x0A] @
     ''       tr [-Ccu] -s string1'' @ [CHR 0x0A] @
     ''       tr [-Ccu] -ds string1 string2'' @ [CHR 0x0A]))"

fun tr_option :: "optev \<Rightarrow> tr_opts \<Rightarrow> tr_stop + tr_opts" where
  "tr_option (Opt c a) o1 =
     (if c = CHR ''C'' then Inr (o1\<lparr>Cflag := True, cflag := False\<rparr>)
      else if c = CHR ''c'' then Inr (o1\<lparr>cflag := True, Cflag := False\<rparr>)
      else if c = CHR ''d'' then Inr (o1\<lparr>dflag := True\<rparr>)
      else if c = CHR ''s'' then Inr (o1\<lparr>sflag := True\<rparr>)
      else if c = CHR ''u'' then Inr o1
      else Inl usage)"
| "tr_option _ o1 = Inl usage"

fun tr_options :: "optev list \<Rightarrow> tr_opts \<Rightarrow> tr_stop + tr_opts" where
  "tr_options [] o1 = Inr o1"
| "tr_options (e # es) o1 = bind_r (tr_option e o1) (tr_options es)"

definition STR_init :: "which \<Rightarrow> tr_str" where
  "STR_init w = \<lparr>which = w, state = NORMAL, cnt = 0, lastch = OOBCH, cclass = 0,
     equiv = [0, OOBCH] @ replicate 254 0, chars = [], str = []\<rparr>"

definition build_map :: "nat \<Rightarrow> libc \<Rightarrow> tr_opts \<Rightarrow> string \<Rightarrow> string \<Rightarrow> pst run" where
  "build_map n lc o1 arg1 arg2 =
     (if \<not> mem lc then Some (Inl no_memory)
      else
        let cm = (if Cflag o1 \<or> cflag o1 then snd (cmap_default cmap_alloc OOBCH) else cmap_alloc) in
        bind_run (Some (next_ch lc ((STR_init STRING2)\<lparr>str := arg2\<rparr>))) (\<lambda>(b, t).
          if \<not> b then Some (Inl (Stop (Errxmsg ''empty string2'')))
          else bind_run (pair_loop n lc (sflag o1) False
              \<lparr>s1 = (STR_init STRING1)\<lparr>str := arg1\<rparr>, s2 = t, cmap_of = cm, squeeze = cset_alloc\<rparr>) (\<lambda>st.
            if cflag o1 \<or> (Cflag o1 \<and> MB_CUR_MAX lc > 1) then
              Some (complement_values lc (Cflag o1) (sflag o1) arg2 st)
            else if Cflag o1 then Some (complement_chars lc (sflag o1) arg2 st)
            else Some (Inr st))))"

definition translate :: "nat \<Rightarrow> libc \<Rightarrow> tr_opts \<Rightarrow> string \<Rightarrow> string \<Rightarrow> int list \<Rightarrow> int list run" where
  "translate n lc o1 arg1 arg2 inp =
     bind_run (build_map n lc o1 arg1 arg2) (\<lambda>st. Some (
       bind_r (cset_cache lc (squeeze st)) (\<lambda>sq.
         bind_r (cmap_cache (cmap_of st)) (\<lambda>cm.
           let through = (\<lambda>ch. \<not> Cflag o1 \<or> iswrune lc ch) in
           if sflag o1 then translate_squeeze_loop cmap_lookup (cset_in lc) through cm sq OOBCH inp
           else translate_loop cmap_lookup through cm inp))))"

text \<open>The four synopsis forms.\<close>

definition tr_copy :: "nat \<Rightarrow> libc \<Rightarrow> tr_opts \<Rightarrow> string list \<Rightarrow> int list \<Rightarrow> int list run" where
  "tr_copy n lc o1 argv inp =
     (if length argv \<noteq> 1 \<and> length argv \<noteq> 2 then Some (Inl usage)
      else
        let isstring2 = (length argv = 2);
            s1 = STR_init STRING1; s2 = STR_init STRING2 in
        if dflag o1 \<and> sflag o1 then
          (if \<not> isstring2 then Some (Inl usage)
           else bind_run (setup_set n lc (argv ! 0) s1 (cflag o1) (Cflag o1)) (\<lambda>del.
             bind_run (setup_set n lc (argv ! 1) s2 False False) (\<lambda>sq.
               Some (delete_squeeze_loop (cset_in lc) del sq OOBCH inp))))
        else if dflag o1 then
          (if isstring2 then Some (Inl usage)
           else bind_run (setup_set n lc (argv ! 0) s1 (cflag o1) (Cflag o1)) (\<lambda>del.
             Some (delete_loop (cset_in lc) del inp)))
        else if sflag o1 \<and> \<not> isstring2 then
          bind_run (setup_set n lc (argv ! 0) s1 (cflag o1) (Cflag o1)) (\<lambda>sq.
            Some (squeeze_loop (cset_in lc) sq OOBCH inp))
        else if \<not> isstring2 then Some (Inl usage)
        else translate n lc o1 (argv ! 0) (argv ! 1) inp)"

definition tr_main :: "nat \<Rightarrow> libc \<Rightarrow> string list \<Rightarrow> int list \<Rightarrow> bool \<Rightarrow> (int list \<times> bool) run" where
  "tr_main n lc args inp ferror =
     (case getopt ''Ccdsu'' args of (evs, argv) \<Rightarrow>
        bind_run (Some (tr_options evs \<lparr>Cflag = False, cflag = False, dflag = False, sflag = False\<rparr>)) (\<lambda>o1.
          bind_run (tr_copy n lc o1 argv inp) (\<lambda>out. Some (Inr (out, ferror)))))"

end
