(* ===== verification/Tr_Spec.thy ===== *)
theory Tr_Spec
  imports Tr_Main
begin

text \<open>
  What \<open>tr\<close> is meant to do, and the loops of \<open>tr.c\<close> measured against it. The copying
  loops are clients of two interfaces, a set of characters and a map of characters that may
  rearrange themselves when asked; \<open>cset.c\<close> and \<open>cmap.c\<close> provide them. The loops over
  \<open>next\<close> are measured against the run of an operand string: the states after each call
  that returned 1.
\<close>

section \<open>Copying\<close>

text \<open>Squeezing: a position is kept unless it repeats the one before it and is in the set.\<close>

definition squeezed :: "int set \<Rightarrow> int \<Rightarrow> int list \<Rightarrow> int list" where
  "squeezed S c0 xs = map snd (filter (\<lambda>(p, c). p \<noteq> c \<or> c \<notin> S) (zip (c0 # xs) xs))"

lemma squeezed_simps [simp]:
  "squeezed S c0 [] = []"
  "squeezed S c0 (c # cs) = (if c0 = c \<and> c \<in> S then squeezed S c0 cs else c # squeezed S c cs)"
  by (auto simp: squeezed_def)

text \<open>What a character becomes: the map is asked only when \<open>through\<close> lets it.\<close>

definition sent :: "(int \<Rightarrow> bool) \<Rightarrow> (int \<Rightarrow> int) \<Rightarrow> int \<Rightarrow> int" where
  "sent through f c = (if through c then f c else c)"

locale charset =
  fixes wf :: "'s \<Rightarrow> bool" and holds :: "'s \<Rightarrow> int set"
    and isin :: "'s \<Rightarrow> int \<Rightarrow> tr_stop + bool \<times> 's"
  assumes isin_law:
    "wf s \<Longrightarrow> 0 \<le> c \<Longrightarrow> \<exists>s'. isin s c = Inr (c \<in> holds s, s') \<and> wf s' \<and> holds s' = holds s"
begin

lemma delete_loop_filter:
  assumes "wf s" "\<forall>c \<in> set inp. 0 \<le> c"
  shows "delete_loop isin s inp = Inr (filter (\<lambda>c. c \<notin> holds s) inp)"
  using assms
proof (induction inp arbitrary: s)
  case (Cons c inp)
  then obtain s' where "isin s c = Inr (c \<in> holds s, s')" "wf s'" "holds s' = holds s"
    using isin_law [of s c] by auto
  with Cons show ?case by simp
qed simp

lemma passes_law:
  assumes "wf s" "0 \<le> c"
  obtains s' where "passes isin s p c = Inr (p \<noteq> c \<or> c \<notin> holds s, s')" "wf s'" "holds s' = holds s"
  using isin_law [OF assms] assms(1) by (cases "p = c") (auto simp: passes_def)

lemma squeeze_loop_runs:
  assumes "wf s" "\<forall>c \<in> set inp. 0 \<le> c"
  shows "squeeze_loop isin s p inp = Inr (squeezed (holds s) p inp)"
  using assms
proof (induction inp arbitrary: s p)
  case (Cons c inp)
  obtain s' where "passes isin s p c = Inr (p \<noteq> c \<or> c \<notin> holds s, s')" "wf s'" "holds s' = holds s"
    by (rule passes_law [of s c p]) (use Cons.prems in auto)
  with Cons show ?case by auto
qed simp

lemma delete_squeeze_loop_runs:
  assumes "wf d" "wf s" "\<forall>c \<in> set inp. 0 \<le> c"
  shows "delete_squeeze_loop isin d s p inp
    = Inr (squeezed (holds s) p (filter (\<lambda>c. c \<notin> holds d) inp))"
  using assms
proof (induction inp arbitrary: d s p)
  case (Cons c inp)
  then obtain d' where d: "isin d c = Inr (c \<in> holds d, d')" "wf d'" "holds d' = holds d"
    using isin_law [of d c] by auto
  obtain s' where "passes isin s p c = Inr (p \<noteq> c \<or> c \<notin> holds s, s')" "wf s'" "holds s' = holds s"
    by (rule passes_law [of s c p]) (use Cons.prems in auto)
  with Cons d show ?case by auto
qed simp

end

locale charmap =
  fixes mwf :: "'m \<Rightarrow> bool" and image :: "'m \<Rightarrow> int \<Rightarrow> int"
    and look :: "'m \<Rightarrow> int \<Rightarrow> tr_stop + int \<times> 'm"
  assumes look_law:
    "mwf m \<Longrightarrow> 0 \<le> c \<Longrightarrow> \<exists>m'. look m c = Inr (image m c, m') \<and> mwf m' \<and> image m' = image m"
begin

lemma look_through:
  assumes "mwf m" "0 \<le> c"
  obtains m' where "(if through c then look m c else Inr (c, m)) = Inr (sent through (image m) c, m')"
    "mwf m'" "sent through (image m') = sent through (image m)"
  using look_law [OF assms] assms(1) by (cases "through c") (auto simp: sent_def fun_eq_iff)

lemma translate_loop_map:
  assumes "mwf m" "\<forall>c \<in> set inp. 0 \<le> c"
  shows "translate_loop look through m inp = Inr (map (sent through (image m)) inp)"
  using assms
proof (induction inp arbitrary: m)
  case (Cons c inp)
  obtain m' where "(if through c then look m c else Inr (c, m)) = Inr (sent through (image m) c, m')"
    "mwf m'" "sent through (image m') = sent through (image m)" 
    by (rule look_through [of m c through]) (use Cons.prems in auto)
  with Cons show ?case by simp
qed simp

end

locale translator = charset wf holds isin + charmap mwf image look
  for wf :: "'s \<Rightarrow> bool" and holds and isin and mwf :: "'m \<Rightarrow> bool" and image and look
begin

lemma translate_squeeze_loop_runs:
  assumes "mwf m" "wf s" "\<forall>c \<in> set inp. 0 \<le> c \<and> 0 \<le> sent through (image m) c"
  shows "translate_squeeze_loop look isin through m s p inp
    = Inr (squeezed (holds s) p (map (sent through (image m)) inp))"
  using assms
proof (induction inp arbitrary: m s p)
  case (Cons c inp)
  obtain m' where m: "(if through c then look m c else Inr (c, m)) = Inr (sent through (image m) c, m')"
    "mwf m'" "sent through (image m') = sent through (image m)" 
    by (rule look_through [of m c through]) (use Cons.prems in auto)
  obtain s' where "passes isin s p (sent through (image m) c)
      = Inr (p \<noteq> sent through (image m) c \<or> sent through (image m) c \<notin> holds s, s')" "wf s'" "holds s' = holds s"
    by (rule passes_law [of s "sent through (image m) c" p]) (use Cons.prems in auto)
  with Cons m show ?case by auto
qed simp

end

interpretation tr_set: charset "cset_inv lc" "members lc" "cset_in lc" for lc
proof
  fix s :: cset and c :: int
  assume "cset_inv lc s" "0 \<le> c"
  then show "\<exists>s'. cset_in lc s c = Inr (c \<in> members lc s, s') \<and> cset_inv lc s' \<and> members lc s' = members lc s"
    using cset_in_ok [of lc s c] by (metis members_def base_def)
qed

interpretation tr_map: charmap cmap_inv image_of cmap_lookup
proof
  fix m :: cmap and c :: int
  assume "cmap_inv m" "0 \<le> c"
  then show "\<exists>m'. cmap_lookup m c = Inr (image_of m c, m') \<and> cmap_inv m' \<and> image_of m' = image_of m"
    using cmap_lookup_ok [of m c] by (metis image_of_cong)
qed

interpretation tr_sets: translator "cset_inv lc" "members lc" "cset_in lc" cmap_inv image_of cmap_lookup for lc ..

section \<open>Runs of an operand string\<close>

inductive runs :: "libc \<Rightarrow> tr_str \<Rightarrow> tr_str list \<Rightarrow> tr_str \<Rightarrow> bool" for lc where
  ended: "next_ch lc s = Inr (False, s') \<Longrightarrow> runs lc s [] s'"
| more: "next_ch lc s = Inr (True, t) \<Longrightarrow> runs lc t ts s' \<Longrightarrow> runs lc s (t # ts) s'"

inductive_simps runs_Nil [simp]: "runs lc s [] s'"
inductive_simps runs_Cons [simp]: "runs lc s (t # ts) s'"

definition wide :: "int \<Rightarrow> bool" where
  "wide c \<longleftrightarrow> WCHAR_MIN \<le> c \<and> c \<le> WCHAR_MAX"

lemma add_char_ok:
  assumes "mem lc" "cset_inv lc cs" "wide c"
  obtains cs' where "add_char lc cs c = Inr cs'" "cset_inv lc cs'" "exts cs' = insert c (exts cs)"
    "cs_classes cs' = cs_classes cs" "cs_invert cs' = cs_invert cs"
proof -
  obtain cs' where "cset_add True cs c = Inr (True, cs')" "cset_inv lc cs'" "exts cs' = insert c (exts cs)"
    "cs_classes cs' = cs_classes cs" "cs_invert cs' = cs_invert cs"
    by (rule cset_add_ok [OF assms(2)]) (use assms(3) in \<open>auto simp: wide_def\<close>)
  then show thesis using that assms(1) by (simp add: add_char_def)
qed

lemma add_mapping_ok:
  assumes "mem lc" "cmap_inv cm"
  obtains cm' where "add_mapping lc cm c v = Inr cm'" "cmap_inv cm'" "maps cm' = (maps cm)(c \<mapsto> v)"
    "cm_def cm' = cm_def cm" "\<not> cm_havecache cm'"
proof -
  obtain cm' where "cmap_add True cm c v = Inr (True, cm')" "cmap_inv cm'" "maps cm' = (maps cm)(c \<mapsto> v)"
    "cm_def cm' = cm_def cm" "\<not> cm_havecache cm'"
    by (rule cmap_add_ok [OF assms(2)])
  then show thesis using that assms(1) by (simp add: add_mapping_def)
qed

declare cset_alloc_ok [simp] cmap_alloc_ok [simp]

lemma cmap_alloc_fresh [simp]: "\<not> cm_havecache cmap_alloc"
  by (simp add: cmap_alloc_def)

section \<open>setup\<close>

lemma setup_loop_run:
  assumes "runs lc s ts s'" "length ts < n" "mem lc" "cset_inv lc cs" "\<forall>t \<in> set ts. wide (lastch t)"
  obtains cs' where "setup_loop n lc s cs = Some (Inr (s', cs'))" "cset_inv lc cs'"
    "exts cs' = exts cs \<union> lastch ` set ts" "cs_classes cs' = cs_classes cs" "cs_invert cs' = cs_invert cs"
  using assms
proof (induction ts arbitrary: s cs n thesis)
  case Nil
  then show ?case by (cases n) auto
next
  case (Cons t ts)
  have "n = Suc (n - 1)" "length ts < n - 1" using Cons.prems(3) by auto
  then obtain m where n: "n = Suc m" "length ts < m" by blast
  from Cons.prems have t: "next_ch lc s = Inr (True, t)" "runs lc t ts s'" by auto
  obtain c1 where c1: "add_char lc cs (lastch t) = Inr c1" "cset_inv lc c1"
    "exts c1 = insert (lastch t) (exts cs)" "cs_classes c1 = cs_classes cs" "cs_invert c1 = cs_invert cs"
    by (rule add_char_ok [OF Cons.prems(4,5)]) (use Cons.prems(6) in auto)
  obtain c2 where "setup_loop m lc t c1 = Some (Inr (s', c2))" "cset_inv lc c2"
    "exts c2 = exts c1 \<union> lastch ` set ts" "cs_classes c2 = cs_classes c1" "cs_invert c2 = cs_invert c1"
    by (rule Cons.IH [OF _ t(2) n(2) Cons.prems(4) c1(2)]) (use Cons.prems(6) in auto)
  with c1 show ?case using Cons.prems(1) [of c2] n t by simp
qed

text \<open>The characters an operand selects.\<close>

definition selected :: "libc \<Rightarrow> bool \<Rightarrow> bool \<Rightarrow> int set \<Rightarrow> int set" where
  "selected lc c C X = (if C then {ch. iswrune lc ch \<and> ch \<notin> X} else if c then - X else X)"

lemma setup_set_run:
  assumes "runs lc (s\<lparr>str := arg\<rparr>) ts s'" "length ts < n" "mem lc" "\<forall>t \<in> set ts. wide (lastch t)"
  obtains cs where "setup_set n lc arg s c C = Some (Inr cs)" "cset_inv lc cs"
    "members lc cs = selected lc c C (lastch ` set ts)"
proof -
  obtain c1 where c1: "setup_loop n lc (s\<lparr>str := arg\<rparr>) cset_alloc = Some (Inr (s', c1))" "cset_inv lc c1"
    "exts c1 = lastch ` set ts" "cs_classes c1 = []" "\<not> cs_invert c1"
    by (rule setup_loop_run [OF assms(1-3) cset_alloc_ok(1) assms(4)]) auto
  define c2 where "c2 = (if C then snd (cset_addclass (mem lc) c1 (wctype lc ''rune'') True) else c1)"
  define c3 where "c3 = (if c \<or> C then cset_invert c2 else c2)"
  have c3: "cset_inv lc c3" "members lc c3 = selected lc c C (lastch ` set ts)"
    using c1 assms(3)
    by (auto simp: c3_def c2_def cset_addclass_def cset_invert_def cset_abs selected_def in_class_def iswrune_def)
  obtain c4 where "cset_cache lc c3 = Inr c4" "cset_inv lc c4" "exts c4 = exts c3"
    "cs_classes c4 = cs_classes c3" "cs_invert c4 = cs_invert c3"
    by (rule cset_cache_ok [OF c3(1)])
  moreover from this have "members lc c4 = members lc c3" by (simp add: members_def base_def)
  moreover have "setup_set n lc arg s c C = Some (cset_cache lc c3)"
    using c1(1) assms(3) by (simp add: setup_set_def Let_def c3_def c2_def)
  ultimately show thesis using that [of c4] c3(2) by simp
qed

end
