(* ===== verification/Tr_Pairs.thy ===== *)
theory Tr_Pairs
  imports Tr_Spec
begin

text \<open>
  The map \<open>tr.c\<close> builds from two operand strings: character by character, the last one of
  \<open>string2\<close> repeated, with and without complement.
\<close>

section \<open>The end of a string\<close>

lemma next_EOS: "state s = EOS \<Longrightarrow> next_ch lc s = Inr (False, s)"
  by (simp add: next_ch.simps [of lc s])

lemma next_False_EOS: "next_ch lc s = Inr (False, s') \<Longrightarrow> state s' = EOS"
proof (induction lc s rule: next_ch.induct)
  case (1 lc s)
  note step = "1.prems" [unfolded next_ch.simps [of lc s]]
  show ?case
    by (cases "state s")
      (use step in
        \<open>auto simp: bind_r_Inr Let_def split: if_splits dest: "1.IH"\<close>)
qed

lemma runs_EOS: "runs lc s ts s' \<Longrightarrow> state s' = EOS"
  by (induction ts arbitrary: s) (auto dest: next_False_EOS)

lemma runs_end: "runs lc s ts s' \<Longrightarrow> runs lc s' [] s'"
  using runs_EOS next_EOS by simp

section \<open>Pairs\<close>

text \<open>The characters \<open>string2\<close> offers from its current one on, as many as are asked for.\<close>

definition offered :: "tr_str \<Rightarrow> tr_str list \<Rightarrow> tr_str \<Rightarrow> nat \<Rightarrow> int list" where
  "offered u us u' k = take k (lastch u # map lastch us @ replicate k (lastch u'))"

lemma length_offered [simp]: "length (offered u us u' k) = k"
  by (simp add: offered_def)

lemma offered_simps [simp]:
  "offered u us u' 0 = []"
  "offered u (t # us) u' (Suc k) = lastch u # offered t us u' k"
  "offered u [] u' (Suc k) = lastch u # offered u' [] u' k"
  by (simp_all add: offered_def take_Cons' replicate_append_same [symmetric] split: nat.split)

text \<open>A state of the pair loop in order; the parts of it that a step leaves alone.\<close>

definition pst_inv :: "libc \<Rightarrow> pst \<Rightarrow> bool" where
  "pst_inv lc st \<longleftrightarrow> cmap_inv (cmap_of st) \<and> \<not> cm_havecache (cmap_of st) \<and> cset_inv lc (squeeze st) \<and>
     cs_classes (squeeze st) = [] \<and> \<not> cs_invert (squeeze st)"

lemma put_pair_ok:
  assumes "mem lc" "pst_inv lc st" "sq \<longrightarrow> wide v"
  obtains st' where "put_pair lc sq c v st = Inr st'" "pst_inv lc st'" "s1 st' = s1 st" "s2 st' = s2 st"
    "maps (cmap_of st') = (maps (cmap_of st))(c \<mapsto> v)" "cm_def (cmap_of st') = cm_def (cmap_of st)"
    "exts (squeeze st') = exts (squeeze st) \<union> (if sq then {v} else {})"
proof -
  obtain cm where cm: "add_mapping lc (cmap_of st) c v = Inr cm" "cmap_inv cm"
    "maps cm = (maps (cmap_of st))(c \<mapsto> v)" "cm_def cm = cm_def (cmap_of st)" "\<not> cm_havecache cm"
    by (rule add_mapping_ok [OF assms(1)]) (use assms(2) in \<open>auto simp: pst_inv_def\<close>)
  show thesis
  proof (cases sq)
    case True
    obtain cs where "add_char lc (squeeze st) v = Inr cs" "cset_inv lc cs" "exts cs = insert v (exts (squeeze st))"
      "cs_classes cs = cs_classes (squeeze st)" "cs_invert cs = cs_invert (squeeze st)"
      by (rule add_char_ok [OF assms(1)]) (use assms(2,3) True in \<open>auto simp: pst_inv_def\<close>)
    then show thesis
      using that [of "st\<lparr>cmap_of := cm, squeeze := cs\<rparr>"] cm True assms(2)
      by (simp add: put_pair_def pst_inv_def)
  next
    case False
    then show thesis
      using that [of "st\<lparr>cmap_of := cm\<rparr>"] cm assms(2) by (simp add: put_pair_def pst_inv_def)
  qed
qed

text \<open>One character of \<open>string1\<close> outside the case conversions takes two rounds.\<close>

definition no_case :: "tr_str \<Rightarrow> bool" where
  "no_case t \<longleftrightarrow> state t \<noteq> CCLASS_LOWER \<and> state t \<noteq> CCLASS_UPPER"

lemma pair_loop_run:
  assumes "runs lc (s1 st) ts s1'" "runs lc (s2 st) us u'" "2 * length ts < n" "mem lc" "pst_inv lc st"
    and "\<forall>t \<in> set ts. no_case t" "sf \<longrightarrow> (\<forall>v \<in> set (offered (s2 st) us u' (length ts)). wide v)"
  obtains st' where "pair_loop n lc sf False st = Some (Inr st')" "pst_inv lc st'"
    "maps (cmap_of st') = (maps (cmap_of st))(map lastch ts [\<mapsto>] offered (s2 st) us u' (length ts))"
    "cm_def (cmap_of st') = cm_def (cmap_of st)"
    "exts (squeeze st') = exts (squeeze st) \<union> (if sf then set (offered (s2 st) us u' (length ts)) else {})"
    "lastch (s2 st') \<in> lastch ` set (s2 st # us @ [u'])"
  using assms
proof (induction ts arbitrary: st us n thesis)
  case Nil
  then obtain m where "n = Suc m" by (cases n) auto
  then show ?case using Nil by (auto simp: pst_inv_def)
next
  case (Cons t ts)
  have "n = Suc (Suc (n - 2))" "2 * length ts < n - 2" using Cons.prems(4) by auto
  then obtain m where n: "n = Suc (Suc m)" "2 * length ts < m" by blast
  from Cons.prems(2) have t: "next_ch lc (s1 st) = Inr (True, t)" "runs lc t ts s1'" by auto
  have nc: "\<not> case_pair CCLASS_LOWER CCLASS_UPPER (st\<lparr>s1 := t\<rparr>)"
    "\<not> case_pair CCLASS_UPPER CCLASS_LOWER (st\<lparr>s1 := t\<rparr>)"
    using Cons.prems(7) by (auto simp: case_pair_def no_case_def)
  let ?v = "lastch (s2 st)"
  have wv: "sf \<longrightarrow> wide ?v" using Cons.prems(8) by (cases us) auto
  obtain st1 where P: "put_pair lc sf (lastch t) ?v (st\<lparr>s1 := t\<rparr>) = Inr st1" "pst_inv lc st1"
    "s1 st1 = t" "s2 st1 = s2 st" "maps (cmap_of st1) = (maps (cmap_of st))(lastch t \<mapsto> ?v)"
    "cm_def (cmap_of st1) = cm_def (cmap_of st)"
    "exts (squeeze st1) = exts (squeeze st) \<union> (if sf then {?v} else {})"
    by (rule put_pair_ok [of lc "st\<lparr>s1 := t\<rparr>" sf ?v "lastch t"])
      (use Cons.prems(5,6) wv in \<open>auto simp: pst_inv_def\<close>)
  obtain b w us1 where w: "next_ch lc (s2 st) = Inr (b, w)" "runs lc w us1 u'"
    "set (w # us1 @ [u']) \<subseteq> set (us @ [u'])" "offered (s2 st) us u' (Suc (length ts)) = ?v # offered w us1 u' (length ts)"
  proof (cases us)
    case Nil
    then show thesis using that [of False u' "[]"] Cons.prems(3) runs_end [OF Cons.prems(3)] by auto
  qed (use that Cons.prems(3) in auto)
  have step: "pair_loop n lc sf False st = pair_loop m lc sf False (st1\<lparr>s2 := w\<rparr>)"
    using t(1) nc P(1,4) w(1) by (simp add: n)
  have inv: "pst_inv lc (st1\<lparr>s2 := w\<rparr>)" using P(2) by (simp add: pst_inv_def)
  obtain st2 where R: "pair_loop m lc sf False (st1\<lparr>s2 := w\<rparr>) = Some (Inr st2)" "pst_inv lc st2"
    "maps (cmap_of st2) = (maps (cmap_of st1))(map lastch ts [\<mapsto>] offered w us1 u' (length ts))"
    "cm_def (cmap_of st2) = cm_def (cmap_of st1)"
    "exts (squeeze st2) = exts (squeeze st1) \<union> (if sf then set (offered w us1 u' (length ts)) else {})"
    "lastch (s2 st2) \<in> lastch ` set (w # us1 @ [u'])"
    by (rule Cons.IH [where st = "st1\<lparr>s2 := w\<rparr>" and us = us1 and n = m])
      (use t(2) w(2,4) n(2) Cons.prems(5,7,8) inv P(3) in auto)
  show ?case
    using Cons.prems(1) [of st2] step R P(5-7) w(3,4) by auto
qed

section \<open>Complemented values\<close>

text \<open>A sequence without a count that is followed by more characters never ends.\<close>

lemma backslash_state: "backslash s = (v, oct, t) \<Longrightarrow> state t = EOS \<or> state t = state s"
  by (auto simp: backslash_def split: prod.splits if_splits list.splits)

lemma get_char_state: "get_char lc s = Inr (v, oct, t) \<Longrightarrow> state t = EOS \<or> state t = state s"
  by (auto simp: get_char_def bind_r_Inr split: if_splits dest: backslash_state)

lemma maybe_range_state: "maybe_range lc s oct = Inr (False, t) \<Longrightarrow> state t = EOS \<or> state t = state s"
  by (auto simp: maybe_range_def genrange_def bind_r_Inr Let_def split: if_splits dest!: get_char_state)

lemma next_plain_state: "next_plain lc s = Inr (False, t) \<Longrightarrow> state t = EOS \<or> state t = state s"
  by (auto simp: next_plain_def bind_r_Inr dest!: maybe_range_state)

lemma next_normal_state: "next_normal lc s = Inr (False, t) \<Longrightarrow> state t = EOS \<or> state t = state s"
  by (auto simp: next_normal_def bind_r_Inr split: if_splits prod.splits
      dest!: maybe_range_state next_plain_state backslash_state bracket_shorter)

lemma next_INFINITE: "next_ch lc s = Inr (b, t) \<Longrightarrow> state t \<noteq> INFINITE \<or> str t \<noteq> []"
proof (induction lc s rule: next_ch.induct)
  case (1 lc s)
  note step = "1.prems" [unfolded next_ch.simps [of lc s]]
  show ?case
  proof (cases "state s")
    case NORMAL
    show ?thesis
    proof (cases "str s = []")
      case False
      then obtain again t1 where n: "next_normal lc s = Inr (again, t1)"
        "(if again then next_ch lc t1 else Inr (True, t1)) = Inr (b, t)"
        using step NORMAL by (auto simp: bind_r_Inr)
      show ?thesis
      proof (cases again)
        case True
        then show ?thesis using "1.IH"(1) [OF NORMAL False n(1) refl] n(2) by simp
      qed (use n NORMAL in \<open>auto dest!: next_normal_state\<close>)
    qed (use step NORMAL in auto)
  qed (use step in \<open>auto simp: bind_r_Inr Let_def split: if_splits dest: "1.IH"\<close>)
qed

lemma runs_not_INFINITE: "runs lc s ts s' \<Longrightarrow> state s = INFINITE \<Longrightarrow> str s = []"
proof (induction ts arbitrary: s)
  case (Cons t ts)
  then have "next_ch lc s = Inr (True, t)" "runs lc t ts s'" by auto
  with Cons show ?case by (cases "str s = []") (auto simp: next_ch.simps [of lc s])
qed (auto simp: next_ch.simps)

text \<open>The characters below \<open>c\<close> outside \<open>string1\<close>, and what they become: the next
  character of \<open>string2\<close>, the last one again when there are no more.\<close>

definition others :: "(int \<Rightarrow> bool) \<Rightarrow> int set \<Rightarrow> int \<Rightarrow> int set" where
  "others rune X c = {k. 0 \<le> k \<and> k < c \<and> rune k \<and> k \<notin> X}"

definition nth_or :: "int list \<Rightarrow> int \<Rightarrow> nat \<Rightarrow> int" where
  "nth_or ys d i = (if i < length ys then ys ! i else d)"

definition comp_image :: "(int \<Rightarrow> bool) \<Rightarrow> int set \<Rightarrow> int list \<Rightarrow> int \<Rightarrow> int \<Rightarrow> int" where
  "comp_image rune X ys d k = nth_or ys d (card (others rune X k))"

lemma finite_others [simp]: "finite (others rune X c)"
  by (rule finite_subset [of _ "{0..<c}"]) (auto simp: others_def)

lemma others_0 [simp]: "others rune X 0 = {}"
  by (auto simp: others_def)

lemma others_Suc:
  "0 \<le> c \<Longrightarrow> others rune X (c + 1) = (if rune c \<and> c \<notin> X then insert c (others rune X c) else others rune X c)"
  by (auto simp: others_def order_le_less)

lemma card_others_mono: "a \<le> b \<Longrightarrow> card (others rune X a) \<le> card (others rune X b)"
  by (rule card_mono [OF finite_others]) (auto simp: others_def)

definition comp_inv ::
  "libc \<Rightarrow> (int \<Rightarrow> bool) \<Rightarrow> (int \<rightharpoonup> int) \<Rightarrow> int set \<Rightarrow> bool \<Rightarrow> tr_str list \<Rightarrow> tr_str \<Rightarrow> int \<Rightarrow> pst \<Rightarrow> bool" where
  "comp_inv lc rune f E sf us u' c st \<longleftrightarrow>
     pst_inv lc st \<and> cm_def (cmap_of st) = OOBCH \<and>
     (\<forall>k \<ge> c. maps (cmap_of st) k = f k) \<and>
     (\<forall>k. 0 \<le> k \<and> k < c \<and> rune k \<longrightarrow> maps (cmap_of st) k =
        (if k \<in> dom f then Some k
         else if card (others rune (dom f) k) < length us
         then Some (lastch (us ! card (others rune (dom f) k))) else None)) \<and>
     runs lc (s2 st) (drop (card (others rune (dom f) c)) us) u' \<and>
     (length us < card (others rune (dom f) c) \<longrightarrow> s2 st = u') \<and>
     (state (s2 st) = INFINITE \<longrightarrow> str (s2 st) \<noteq> []) \<and>
     (state (s2 st) = NORMAL \<and> lastch (s2 st) \<noteq> CM_DEF_SELF \<or> lastch (s2 st) \<in>
        comp_image rune (dom f) (map lastch us) (lastch u') ` others rune (dom f) c) \<and>
     exts (squeeze st) = E \<union>
       (if sf then comp_image rune (dom f) (map lastch us) (lastch u') ` others rune (dom f) c else {})"

text \<open>A character outside \<open>string1\<close>: the next one of \<open>string2\<close> is fetched.\<close>

lemma comp_fetch:
  assumes "runs lc u (drop r us) u'" "length us < r \<longrightarrow> u = u'"
  obtains b t where "next_ch lc u = Inr (b, t)" "b = (r < length us)" "runs lc t (drop (Suc r) us) u'"
    "lastch t = nth_or (map lastch us) (lastch u') r" "length us < Suc r \<longrightarrow> t = u'"
proof (cases "r < length us")
  case True
  then have "drop r us = us ! r # drop (Suc r) us" by (simp add: Cons_nth_drop_Suc)
  then show thesis using that [of True "us ! r"] assms(1) True by (simp add: nth_or_def)
next
  case False
  then show thesis
    using that [of False u'] assms(1) runs_end [OF assms(1)] by (simp add: nth_or_def)
qed

lemma comp_step_other:
  assumes inv: "comp_inv lc rune f E sf us u' c st" and m: "mem lc" and c: "0 \<le> c" "rune c" "c \<notin> dom f"
    and rune: "rune = (\<lambda>c. \<not> Cf \<or> iswrune lc c)"
    and w: "sf \<longrightarrow> (\<forall>t \<in> set us. wide (lastch t)) \<and> wide (lastch u')"
  obtains b st' where "comp_step lc Cf sf c st = Inr (b, st')" "comp_inv lc rune f E sf us u' (c + 1) st'"
    "b = ((state (s2 st') = EOS \<or> state (s2 st') = INFINITE) \<and> c \<ge> cm_max (cmap_of st'))"
proof -
  let ?r = "card (others rune (dom f) c)"
  let ?im = "comp_image rune (dom f) (map lastch us) (lastch u')"
  have o1: "others rune (dom f) (c + 1) = insert c (others rune (dom f) c)" using c by (simp add: others_Suc)
  have "c \<notin> others rune (dom f) c" by (simp add: others_def)
  then have r1: "card (others rune (dom f) (c + 1)) = Suc ?r" by (simp add: o1)
  have st: "pst_inv lc st" "cm_def (cmap_of st) = OOBCH" "maps (cmap_of st) c = None"
    using inv c(3) by (auto simp: comp_inv_def domIff)
  obtain cm where cm: "cmap_lookup (cmap_of st) c = Inr (OOBCH, cm)" "cmap_inv cm" "maps cm = maps (cmap_of st)"
    "cm_def cm = OOBCH" "\<not> cm_havecache cm"
  proof (rule cmap_lookup_ok [of "cmap_of st" c])
    fix cm' assume "cmap_lookup (cmap_of st) c = Inr (image_of (cmap_of st) c, cm')" "cmap_inv cm'"
      "maps cm' = maps (cmap_of st)" "cm_def cm' = cm_def (cmap_of st)"
      "cm_havecache cm' = cm_havecache (cmap_of st)"
    then show thesis using that [of cm'] st by (simp add: image_of_def cmap_unmapped_def pst_inv_def)
  qed (use st(1) in \<open>simp_all add: pst_inv_def\<close>)
  obtain b t where F: "next_ch lc (s2 st) = Inr (b, t)" "b = (?r < length us)"
    "runs lc t (drop (Suc ?r) us) u'" "lastch t = nth_or (map lastch us) (lastch u') ?r"
    "length us < Suc ?r \<longrightarrow> t = u'"
    using comp_fetch [of lc "s2 st" ?r us u'] inv by (auto simp: comp_inv_def)
  have im: "?im c = lastch t" by (simp add: comp_image_def F(4))
  obtain cm1 where M: "(if b then add_mapping lc cm c (lastch t) else Inr cm) = Inr cm1" "cmap_inv cm1"
    "maps cm1 = (if b then (maps cm)(c \<mapsto> lastch t) else maps cm)" "cm_def cm1 = OOBCH" "\<not> cm_havecache cm1"
  proof (cases b)
    case True
    show thesis by (rule add_mapping_ok [OF m cm(2), of c "lastch t"]) (use that True cm in auto)
  qed (use that cm in auto)
  have wt: "sf \<longrightarrow> wide (lastch t)" using w F(4) by (auto simp: nth_or_def)
  obtain cs where S: "(if sf then add_char lc (squeeze st) (lastch t) else Inr (squeeze st)) = Inr cs"
    "cset_inv lc cs" "exts cs = exts (squeeze st) \<union> (if sf then {lastch t} else {})"
    "cs_classes cs = []" "\<not> cs_invert cs"
  proof (cases sf)
    case True
    show thesis
      by (rule add_char_ok [OF m, of "squeeze st" "lastch t"]) (use that True wt st(1) in \<open>auto simp: pst_inv_def\<close>)
  qed (use that st(1) in \<open>auto simp: pst_inv_def\<close>)
  let ?st = "st\<lparr>s2 := t, cmap_of := cm1, squeeze := cs\<rparr>"
  have "comp_step lc Cf sf c st =
      Inr ((state t = EOS \<or> state t = INFINITE) \<and> c \<ge> cm_max cm1, ?st)"
    using c(2) cm(1) F(1) M(1) S(1) by (auto simp: comp_step_def rune)
  moreover have "comp_inv lc rune f E sf us u' (c + 1) ?st"
    unfolding comp_inv_def r1
  proof (intro conjI)
    show "pst_inv lc ?st" using M S by (simp add: pst_inv_def)
    show "\<forall>k\<ge>c + 1. maps (cmap_of ?st) k = f k" using inv M(3) cm(3) by (auto simp: comp_inv_def)
    show "\<forall>k. 0 \<le> k \<and> k < c + 1 \<and> rune k \<longrightarrow> maps (cmap_of ?st) k =
        (if k \<in> dom f then Some k
         else if card (others rune (dom f) k) < length us
         then Some (lastch (us ! card (others rune (dom f) k))) else None)"
    proof (intro allI impI)
      fix k assume k: "0 \<le> k \<and> k < c + 1 \<and> rune k"
      show "maps (cmap_of ?st) k = (if k \<in> dom f then Some k
         else if card (others rune (dom f) k) < length us
         then Some (lastch (us ! card (others rune (dom f) k))) else None)"
      proof (cases "k = c")
        case True
        then show ?thesis using M(3) F(2,4) cm(3) st(3) c(3) by (simp add: nth_or_def)
      next
        case False
        then have "maps (cmap_of ?st) k = maps (cmap_of st) k" using M(3) cm(3) by simp
        then show ?thesis using inv k False by (simp add: comp_inv_def)
      qed
    qed
    show "runs lc (s2 ?st) (drop (Suc ?r) us) u'" using F by simp
    show "length us < Suc ?r \<longrightarrow> s2 ?st = u'" using F by simp
    show "state (s2 ?st) = INFINITE \<longrightarrow> str (s2 ?st) \<noteq> []" using next_INFINITE [OF F(1)] by auto
    show "state (s2 ?st) = NORMAL \<and> lastch (s2 ?st) \<noteq> CM_DEF_SELF \<or> lastch (s2 ?st) \<in> ?im ` others rune (dom f) (c + 1)"
      by (simp add: o1 im)
    show "exts (squeeze ?st) = E \<union> (if sf then ?im ` others rune (dom f) (c + 1) else {})"
      using inv S(3) by (auto simp: comp_inv_def o1 im)
  qed (use M in simp)
  ultimately show thesis using that by simp
qed

lemma comp_step_kept:
  assumes inv: "comp_inv lc rune f E sf us u' c st" and m: "mem lc" and c: "0 \<le> c" "\<not> rune c \<or> c \<in> dom f"
    and rune: "rune = (\<lambda>c. \<not> Cf \<or> iswrune lc c)" and f: "OOBCH \<notin> ran f"
  obtains b st' where "comp_step lc Cf sf c st = Inr (b, st')" "comp_inv lc rune f E sf us u' (c + 1) st'"
    "b \<longrightarrow> (state (s2 st') = EOS \<or> state (s2 st') = INFINITE) \<and> c \<ge> cm_max (cmap_of st')"
proof -
  have o1: "others rune (dom f) (c + 1) = others rune (dom f) c" using c by (auto simp: others_Suc)
  show thesis
  proof (cases "rune c")
    case False
    then have "comp_step lc Cf sf c st = Inr (False, st)" by (simp add: comp_step_def rune)
    moreover have "comp_inv lc rune f E sf us u' (c + 1) st"
      using inv False unfolding comp_inv_def o1 by (auto simp: order_le_less)
    ultimately show thesis using that [of False st] by simp
  next
    case True
    then obtain v where v: "f c = Some v" "v \<noteq> OOBCH" using c(2) f by (auto simp: ran_def)
    have st: "pst_inv lc st" "cm_def (cmap_of st) = OOBCH" "maps (cmap_of st) c = Some v"
      using inv v by (auto simp: comp_inv_def)
    obtain cm where cm: "cmap_lookup (cmap_of st) c = Inr (v, cm)" "cmap_inv cm" "maps cm = maps (cmap_of st)"
      "cm_def cm = OOBCH"
    proof (rule cmap_lookup_ok [of "cmap_of st" c])
      fix cm' assume "cmap_lookup (cmap_of st) c = Inr (image_of (cmap_of st) c, cm')" "cmap_inv cm'"
        "maps cm' = maps (cmap_of st)" "cm_def cm' = cm_def (cmap_of st)"
      then show thesis using that [of cm'] st by (simp add: image_of_def)
    qed (use st(1) in \<open>simp_all add: pst_inv_def\<close>)
    obtain cm1 where M: "add_mapping lc cm c c = Inr cm1" "cmap_inv cm1" "maps cm1 = (maps cm)(c \<mapsto> c)"
      "cm_def cm1 = cm_def cm" "\<not> cm_havecache cm1"
      by (rule add_mapping_ok [OF m cm(2)])
    let ?st = "st\<lparr>cmap_of := cm1\<rparr>"
    have "comp_step lc Cf sf c st = Inr ((state (s2 st) = EOS \<or> state (s2 st) = INFINITE) \<and> c \<ge> cm_max cm1, ?st)"
      using True cm(1) v(2) M(1) by (auto simp: comp_step_def rune)
    moreover have "comp_inv lc rune f E sf us u' (c + 1) ?st"
      using inv M cm v unfolding comp_inv_def o1 by (auto simp: pst_inv_def order_le_less)
    ultimately show thesis using that by simp
  qed
qed

text \<open>After the last round, with the default set, every character has its image.\<close>

definition comp_done ::
  "libc \<Rightarrow> (int \<Rightarrow> bool) \<Rightarrow> (int \<rightharpoonup> int) \<Rightarrow> int set \<Rightarrow> bool \<Rightarrow> int list \<Rightarrow> int \<Rightarrow> pst \<Rightarrow> bool" where
  "comp_done lc rune f E sf ys d st \<longleftrightarrow>
     pst_inv lc st \<and>
     (\<forall>k. 0 \<le> k \<and> k < WCHAR_MAX \<and> rune k \<longrightarrow>
        image_of (snd (cmap_default (cmap_of st) (lastch (s2 st)))) k =
          (if k \<in> dom f then k else comp_image rune (dom f) ys d k)) \<and>
     exts (squeeze st) = E \<union>
       (if sf then comp_image rune (dom f) ys d ` others rune (dom f) WCHAR_MAX else {})"

lemma image_of_default:
  assumes "d \<noteq> CM_DEF_SELF"
  shows "image_of (snd (cmap_default cm d)) k = (case maps cm k of None \<Rightarrow> d | Some v \<Rightarrow> v)"
  using assms by (simp add: image_of_def cmap_default_def cmap_unmapped_def maps_def split: option.split)

lemma comp_done_full:
  assumes "comp_inv lc rune f E sf us u' c st" "WCHAR_MAX \<le> c" "lastch (s2 st) \<noteq> CM_DEF_SELF"
    and "c \<le> WCHAR_MAX"
  shows "comp_done lc rune f E sf (map lastch us) (lastch u') st"
proof -
  let ?r = "\<lambda>k. card (others rune (dom f) k)"
  have "image_of (snd (cmap_default (cmap_of st) (lastch (s2 st)))) k =
      (if k \<in> dom f then k else comp_image rune (dom f) (map lastch us) (lastch u') k)"
    if k: "0 \<le> k \<and> k < WCHAR_MAX \<and> rune k" for k
  proof -
    have m: "maps (cmap_of st) k = (if k \<in> dom f then Some k
        else if ?r k < length us then Some (lastch (us ! ?r k)) else None)"
      using assms(1,2) k by (auto simp: comp_inv_def)
    have "s2 st = u'" if "k \<notin> dom f" "length us \<le> ?r k"
    proof -
      have "k \<notin> others rune (dom f) k" by (simp add: others_def)
      then have "?r (k + 1) = Suc (?r k)" using that k by (simp add: others_Suc)
      moreover have "?r (k + 1) \<le> ?r c" using k assms(2) by (intro card_others_mono) simp
      ultimately show ?thesis using assms(1) that by (simp add: comp_inv_def)
    qed
    then show ?thesis
      unfolding image_of_default [OF assms(3)] m by (auto simp: comp_image_def nth_or_def)
  qed
  moreover have "c = WCHAR_MAX" using assms by simp
  ultimately show ?thesis using assms(1) unfolding comp_done_def comp_inv_def by simp
qed

lemma comp_done_break:
  assumes inv: "comp_inv lc rune f E sf us u' (c + 1) st" and c: "0 \<le> c" "c < WCHAR_MAX" "c \<ge> cm_max (cmap_of st)"
    and eos: "state (s2 st) = EOS \<or> state (s2 st) = INFINITE" and d: "lastch (s2 st) \<noteq> CM_DEF_SELF"
  shows "comp_done lc rune f E sf (map lastch us) (lastch u') st"
proof -
  let ?r = "\<lambda>k. card (others rune (dom f) k)"
  let ?im = "comp_image rune (dom f) (map lastch us) (lastch u')"
  have run: "runs lc (s2 st) (drop (?r (c + 1)) us) u'" using inv by (simp add: comp_inv_def)
  have E: "state (s2 st) = EOS"
    using eos runs_not_INFINITE [OF run] inv by (auto simp: comp_inv_def)
  then have u: "s2 st = u'" and full: "length us \<le> ?r (c + 1)"
    using run next_EOS [OF E, of lc] by (cases "drop (?r (c + 1)) us"; force)+
  have above: "maps (cmap_of st) k = None \<and> k \<notin> dom f \<and> ?im k = lastch u'" if "c < k" for k
  proof -
    have "cmap_inv (cmap_of st)" using inv by (simp add: comp_inv_def pst_inv_def)
    then have "k \<notin> dom (maps (cmap_of st))" using that c(3) by (force simp: cmap_inv_def extrema_def split: if_splits)
    moreover have "maps (cmap_of st) k = f k" using inv that by (simp add: comp_inv_def)
    moreover have "?r (c + 1) \<le> ?r k" using that by (intro card_others_mono) simp
    ultimately show ?thesis using full by (auto simp: comp_image_def nth_or_def domIff)
  qed
  have "image_of (snd (cmap_default (cmap_of st) (lastch (s2 st)))) k = (if k \<in> dom f then k else ?im k)"
    if k: "0 \<le> k \<and> k < WCHAR_MAX \<and> rune k" for k
  proof (cases "c < k")
    case True
    then show ?thesis using above [OF True] unfolding image_of_default [OF d] by (simp add: u)
  next
    case False
    then have "maps (cmap_of st) k = (if k \<in> dom f then Some k
        else if ?r k < length us then Some (lastch (us ! ?r k)) else None)"
      using inv k by (auto simp: comp_inv_def)
    then show ?thesis unfolding image_of_default [OF d] by (auto simp: comp_image_def nth_or_def u)
  qed
  moreover have "?im ` others rune (dom f) WCHAR_MAX = ?im ` others rune (dom f) (c + 1)"
  proof
    have "lastch u' \<in> ?im ` others rune (dom f) (c + 1)" using inv E u by (auto simp: comp_inv_def)
    moreover have "?im k = lastch u' \<or> k \<in> others rune (dom f) (c + 1)"
      if "k \<in> others rune (dom f) WCHAR_MAX" for k
      using that above [of k] by (cases "c < k") (auto simp: others_def)
    ultimately show "?im ` others rune (dom f) WCHAR_MAX \<subseteq> ?im ` others rune (dom f) (c + 1)" by force
    show "?im ` others rune (dom f) (c + 1) \<subseteq> ?im ` others rune (dom f) WCHAR_MAX"
      using c(2) by (intro image_mono) (auto simp: others_def)
  qed
  ultimately show ?thesis using inv unfolding comp_done_def comp_inv_def by simp
qed

lemma comp_loop_done:
  assumes "comp_inv lc rune f E sf us u' c st" "mem lc" "0 \<le> c" "c \<le> WCHAR_MAX"
    and "rune = (\<lambda>c. \<not> Cf \<or> iswrune lc c)" "OOBCH \<notin> ran f"
    and "sf \<longrightarrow> (\<forall>t \<in> set us. wide (lastch t)) \<and> wide (lastch u')"
    and "\<forall>t \<in> set us. lastch t \<noteq> CM_DEF_SELF" "lastch u' \<noteq> CM_DEF_SELF"
  shows "\<exists>st'. comp_loop lc Cf sf c st = Inr st' \<and> comp_done lc rune f E sf (map lastch us) (lastch u') st'"
proof -
  have no_self: "lastch (s2 st) \<noteq> CM_DEF_SELF" if "comp_inv lc rune f E sf us u' c st" for c st
    using that assms(8,9) by (auto simp: comp_inv_def comp_image_def nth_or_def)
  from assms(1,3,4) show ?thesis
  proof (induction "nat (WCHAR_MAX - c)" arbitrary: c st)
    case 0
    have "lastch (s2 st) \<noteq> CM_DEF_SELF" by (rule no_self [OF "0.prems"(1)])
    moreover have "comp_loop lc Cf sf c st = Inr st" using "0.hyps" by (simp add: comp_loop.simps)
    ultimately show ?case using comp_done_full [OF "0.prems"(1)] "0.hyps" "0.prems"(3) by auto
  next
    case (Suc n)
    then have c: "c < WCHAR_MAX" by simp
    obtain b st' where S: "comp_step lc Cf sf c st = Inr (b, st')" "comp_inv lc rune f E sf us u' (c + 1) st'"
      "b \<longrightarrow> (state (s2 st') = EOS \<or> state (s2 st') = INFINITE) \<and> c \<ge> cm_max (cmap_of st')"
    proof (cases "rune c \<and> c \<notin> dom f")
      case True
      then show thesis
        using comp_step_other [OF Suc.prems(1) assms(2) Suc.prems(2) _ _ assms(5,7)] that by blast
    next
      case False
      then show thesis
        using comp_step_kept [OF Suc.prems(1) assms(2) Suc.prems(2) _ assms(5,6)] that by blast
    qed
    have d: "lastch (s2 st') \<noteq> CM_DEF_SELF" by (rule no_self [OF S(2)])
    have "comp_loop lc Cf sf c st = (if b then Inr st' else comp_loop lc Cf sf (c + 1) st')"
      using c S(1) by (simp add: comp_loop.simps [of lc Cf sf c st])
    moreover have "\<exists>st''. comp_loop lc Cf sf (c + 1) st' = Inr st'' \<and>
        comp_done lc rune f E sf (map lastch us) (lastch u') st''"
      by (rule Suc.hyps(1)) (use Suc.hyps(2) S(2) Suc.prems(2) c d in auto)
    ultimately show ?case
      using comp_done_break [OF S(2) Suc.prems(2) c] S(3) d by auto
  qed
qed

section \<open>The map as a whole\<close>

lemma STR_init_simps [simp]:
  "state (STR_init w) = NORMAL" "lastch (STR_init w) = OOBCH" "length (equiv (STR_init w)) = 256"
  by (simp_all add: STR_init_def)

text \<open>What \<open>string1\<close> and \<open>string2\<close> make of a character: the counterpart of its last
  occurrence.\<close>

definition paired :: "int list \<Rightarrow> int list \<Rightarrow> int \<rightharpoonup> int" where
  "paired xs ys = Map.empty(xs [\<mapsto>] ys)"

lemma dom_paired: "length ys = length xs \<Longrightarrow> dom (paired xs ys) = set xs"
  by (simp add: paired_def)

lemma ran_paired: "ran (paired xs ys) \<subseteq> set ys"
  by (auto simp: ran_def paired_def map_upds_def dest!: map_of_SomeD dest: set_zip_rightD)

lemma build_pairs:
  assumes "runs lc ((STR_init STRING1)\<lparr>str := arg1\<rparr>) ts s1'"
    and "runs lc ((STR_init STRING2)\<lparr>str := arg2\<rparr>) (u # us) u'"
    and "2 * length ts < n" "mem lc" "\<forall>t \<in> set ts. no_case t"
    and "ys = offered u us u' (length ts)" "sflag o1 \<longrightarrow> (\<forall>v \<in> set ys. wide v)"
  obtains st where "pst_inv lc st" "maps (cmap_of st) = paired (map lastch ts) ys"
    "cm_def (cmap_of st) = (if Cflag o1 \<or> cflag o1 then OOBCH else CM_DEF_SELF)"
    "exts (squeeze st) = (if sflag o1 then set ys else {})" "lastch (s2 st) \<in> lastch ` set (u # us @ [u'])"
    "build_map n lc o1 arg1 arg2 =
       (if cflag o1 \<or> (Cflag o1 \<and> MB_CUR_MAX lc > 1) then
          Some (complement_values lc (Cflag o1) (sflag o1) arg2 st)
        else if Cflag o1 then Some (complement_chars lc (sflag o1) arg2 st)
        else Some (Inr st))"
proof -
  let ?cm = "if Cflag o1 \<or> cflag o1 then snd (cmap_default cmap_alloc OOBCH) else cmap_alloc"
  let ?st = "\<lparr>s1 = (STR_init STRING1)\<lparr>str := arg1\<rparr>, s2 = u, cmap_of = ?cm, squeeze = cset_alloc\<rparr>"
  have inv: "pst_inv lc ?st" "maps ?cm = Map.empty" "cm_def ?cm = (if Cflag o1 \<or> cflag o1 then OOBCH else CM_DEF_SELF)"
    by (auto simp: pst_inv_def cmap_default_def cmap_inv_def extrema_def maps_def cmap_alloc_def)
  obtain st where "pair_loop n lc (sflag o1) False ?st = Some (Inr st)" "pst_inv lc st"
    "maps (cmap_of st) = (maps ?cm)(map lastch ts [\<mapsto>] ys)" "cm_def (cmap_of st) = cm_def ?cm"
    "exts (squeeze st) = exts cset_alloc \<union> (if sflag o1 then set ys else {})"
    "lastch (s2 st) \<in> lastch ` set (s2 ?st # us @ [u'])"
    by (rule pair_loop_run [of lc ?st ts s1' us u' n "sflag o1"]) (use assms inv in auto)
  then show thesis
    using that [of st] inv assms(2,4) by (auto simp: build_map_def paired_def Let_def)
qed

section \<open>Translation\<close>

definition or_self :: "(int \<rightharpoonup> int) \<Rightarrow> int \<Rightarrow> int" where
  "or_self f c = (case f c of None \<Rightarrow> c | Some v \<Rightarrow> v)"

text \<open>The copying phase, from the state the map was built in.\<close>

lemma translate_copies:
  assumes "build_map n lc o1 arg1 arg2 = Some (Inr st)" "pst_inv lc st" "\<forall>c \<in> set inp. 0 \<le> c"
    and "sflag o1 \<longrightarrow> (\<forall>c \<in> set inp. 0 \<le> sent through (image_of (cmap_of st)) c)"
    and "through = (\<lambda>ch. \<not> Cflag o1 \<or> iswrune lc ch)"
  shows "translate n lc o1 arg1 arg2 inp =
    (let out = map (sent through (image_of (cmap_of st))) inp in
     Some (Inr (if sflag o1 then squeezed (exts (squeeze st)) OOBCH out else out)))"
proof -
  have st: "cset_inv lc (squeeze st)" "cs_classes (squeeze st) = []" "\<not> cs_invert (squeeze st)" "cmap_inv (cmap_of st)"
    using assms(2) by (simp_all add: pst_inv_def)
  obtain sq where sq: "cset_cache lc (squeeze st) = Inr sq" "cset_inv lc sq" "exts sq = exts (squeeze st)"
    "cs_classes sq = cs_classes (squeeze st)" "cs_invert sq = cs_invert (squeeze st)"
    by (rule cset_cache_ok [OF st(1)])
  obtain cm where cm: "cmap_cache (cmap_of st) = Inr cm" "cmap_inv cm" "maps cm = maps (cmap_of st)"
    "cm_def cm = cm_def (cmap_of st)"
    by (rule cmap_cache_ok [OF st(4)])
  have mem: "members lc sq = exts (squeeze st)"
    using sq st(2,3) by (simp add: members_def base_def)
  have im: "image_of cm = image_of (cmap_of st)" by (rule image_of_cong [OF cm(3,4)])
  have "translate_loop cmap_lookup through cm inp = Inr (map (sent through (image_of (cmap_of st))) inp)"
    using tr_map.translate_loop_map [OF cm(2) assms(3)] by (simp add: im)
  moreover have "translate_squeeze_loop cmap_lookup (cset_in lc) through cm sq OOBCH inp =
      Inr (squeezed (exts (squeeze st)) OOBCH (map (sent through (image_of (cmap_of st))) inp))" if "sflag o1"
    using tr_sets.translate_squeeze_loop_runs [OF cm(2) sq(2), of inp through OOBCH] assms(3,4) that
    by (simp add: im mem)
  ultimately show ?thesis
    using assms(1) sq(1) cm(1) unfolding translate_def Let_def assms(5) [symmetric] by simp
qed

lemma translate_run:
  assumes "runs lc ((STR_init STRING1)\<lparr>str := arg1\<rparr>) ts s1'"
    and "runs lc ((STR_init STRING2)\<lparr>str := arg2\<rparr>) (u # us) u'"
    and "2 * length ts < n" "mem lc" "\<forall>t \<in> set ts. no_case t" "\<not> Cflag o1" "\<not> cflag o1"
    and "ys = offered u us u' (length ts)" "\<forall>v \<in> set ys. 0 \<le> v \<and> v \<le> WCHAR_MAX" "\<forall>c \<in> set inp. 0 \<le> c"
  shows "translate n lc o1 arg1 arg2 inp =
    (let out = map (or_self (paired (map lastch ts) ys)) inp in
     Some (Inr (if sflag o1 then squeezed (set ys) OOBCH out else out)))"
proof -
  have w: "sflag o1 \<longrightarrow> (\<forall>v \<in> set ys. wide v)" using assms(9) by (auto simp: wide_def)
  obtain st where st: "pst_inv lc st" "maps (cmap_of st) = paired (map lastch ts) ys"
    "cm_def (cmap_of st) = CM_DEF_SELF" "exts (squeeze st) = (if sflag o1 then set ys else {})"
    "build_map n lc o1 arg1 arg2 = Some (Inr st)"
    by (rule build_pairs [OF assms(1-5,8) w]) (use assms(6,7) in auto)
  have im: "image_of (cmap_of st) = or_self (paired (map lastch ts) ys)"
    by (rule HOL.ext) (simp add: image_of_def or_self_def st(2,3) cmap_unmapped_def split: option.split)
  have se: "sent (\<lambda>ch. \<not> Cflag o1 \<or> iswrune lc ch) (image_of (cmap_of st)) = or_self (paired (map lastch ts) ys)"
    by (rule HOL.ext) (simp add: sent_def assms(6) im)
  have "0 \<le> or_self (paired (map lastch ts) ys) c" if "0 \<le> c" for c
    using that assms(9) ran_paired [of "map lastch ts" ys]
    by (auto simp: or_self_def ran_def split: option.split)
  then show ?thesis
    using translate_copies [OF st(5,1) assms(10) _ refl] assms(10) st(4) unfolding se by (simp add: Let_def)
qed

text \<open>With \<open>-c\<close>, or \<open>-C\<close> in a multibyte locale.\<close>

lemma translate_complement_run:
  assumes "runs lc ((STR_init STRING1)\<lparr>str := arg1\<rparr>) ts s1'"
    and "runs lc ((STR_init STRING2)\<lparr>str := arg2\<rparr>) (u # us) u'"
    and again: "\<And>s. state s = NORMAL \<Longrightarrow> str s = arg2 \<Longrightarrow> \<exists>ws w. runs lc s ws w \<and>
      map lastch ws = map lastch (u # us) \<and> lastch w = lastch u'"
    and "2 * length ts < n" "mem lc" "\<forall>t \<in> set ts. no_case t" "cflag o1 \<or> (Cflag o1 \<and> MB_CUR_MAX lc > 1)"
    and "\<forall>v \<in> set (map lastch (u # us @ [u'])). 0 \<le> v \<and> v \<le> WCHAR_MAX"
    and "\<forall>c \<in> set inp. 0 \<le> c \<and> c < WCHAR_MAX"
    and "ys = map lastch (u # us)" "d = lastch u'" "X = set (map lastch ts)"
    and "through = (\<lambda>ch. \<not> Cflag o1 \<or> iswrune lc ch)"
  shows "translate n lc o1 arg1 arg2 inp =
    (let out = map (sent through (\<lambda>k. if k \<in> X then k else comp_image through X ys d k)) inp in
     Some (Inr (if sflag o1 then
         squeezed (set (offered u us u' (length ts)) \<union> comp_image through X ys d ` others through X WCHAR_MAX) OOBCH out
       else out)))"
proof -
  let ?zs = "offered u us u' (length ts)"
  have zs: "\<forall>v \<in> set ?zs. 0 \<le> v \<and> v \<le> WCHAR_MAX"
    using assms(8) by (auto simp: offered_def dest!: in_set_takeD)
  then have w: "sflag o1 \<longrightarrow> (\<forall>v \<in> set ?zs. wide v)" by (auto simp: wide_def)
  have def: "(if Cflag o1 \<or> cflag o1 then OOBCH else CM_DEF_SELF) = OOBCH" using assms(7) by auto
  obtain st where st: "pst_inv lc st" "maps (cmap_of st) = paired (map lastch ts) ?zs"
    "cm_def (cmap_of st) = OOBCH" "exts (squeeze st) = (if sflag o1 then set ?zs else {})"
    "build_map n lc o1 arg1 arg2 = Some (complement_values lc (Cflag o1) (sflag o1) arg2 st)"
    "lastch (s2 st) \<in> lastch ` set (u # us @ [u'])"
    by (rule build_pairs [OF assms(1,2,4,5,6) refl w]) (use assms(7) def in auto)
  let ?st = "st\<lparr>s2 := (s2 st)\<lparr>str := arg2, state := NORMAL\<rparr>\<rparr>"
  let ?f = "paired (map lastch ts) ?zs"
  have dom: "dom ?f = X" by (simp add: dom_paired assms(12))
  obtain ws w where ws: "runs lc (s2 ?st) ws w" "map lastch ws = ys" "lastch w = d"
    using again [of "s2 ?st"] unfolding assms(10,11) by (auto simp del: runs_Cons map_eq_Cons_conv list.map)
  have lw: "\<forall>t \<in> set ws. lastch t \<in> set ys" using ws(2) by (metis imageI list.set_map)
  have wd: "0 \<le> d" "d \<le> WCHAR_MAX" "\<forall>t \<in> set ws. 0 \<le> lastch t \<and> lastch t \<le> WCHAR_MAX"
    using assms(8,10,11) lw by auto
  have s2l: "lastch (s2 st) \<noteq> CM_DEF_SELF" using st(6) assms(8) by auto
  have "comp_inv lc through ?f (exts (squeeze st)) (sflag o1) ws w 0 ?st"
    unfolding comp_inv_def using st(1-3) ws(1) s2l by (auto simp: pst_inv_def)
  then obtain st' where C: "comp_loop lc (Cflag o1) (sflag o1) 0 ?st = Inr st'"
    "comp_done lc through ?f (exts (squeeze st)) (sflag o1) ys d st'"
    using comp_loop_done [of lc through ?f "exts (squeeze st)" "sflag o1" ws w 0 ?st "Cflag o1"] wd ws(2,3)
      ran_paired [of "map lastch ts" ?zs] zs assms(5,13) by (force simp: wide_def)
  let ?st2 = "st'\<lparr>cmap_of := snd (cmap_default (cmap_of st') (lastch (s2 st')))\<rparr>"
  have B: "build_map n lc o1 arg1 arg2 = Some (Inr ?st2)" using st(5) C(1) by (simp add: complement_values_def)
  have P: "pst_inv lc ?st2"
    using C(2) by (auto simp: comp_done_def pst_inv_def cmap_default_def cmap_inv_def extrema_def maps_def)
  have im: "sent through (image_of (cmap_of ?st2)) k = sent through (\<lambda>k. if k \<in> X then k else comp_image through X ys d k) k"
    if "0 \<le> k" "k < WCHAR_MAX" for k
    using C(2) that by (auto simp: sent_def comp_done_def dom)
  have nn: "0 \<le> sent through (\<lambda>k. if k \<in> X then k else comp_image through X ys d k) k" if "0 \<le> k" for k
  proof -
    have "\<forall>v \<in> set ys. 0 \<le> v" "0 \<le> d" using assms(8,10,11) by auto
    then show ?thesis using that by (auto simp: sent_def comp_image_def nth_or_def)
  qed
  have ex: "exts (squeeze ?st2) = (if sflag o1 then set ?zs \<union> comp_image through X ys d ` others through X WCHAR_MAX else {})"
    using C(2) st(4) by (simp add: comp_done_def dom)
  have me: "map (sent through (image_of (cmap_of ?st2))) inp =
      map (sent through (\<lambda>k. if k \<in> X then k else comp_image through X ys d k)) inp"
    using assms(9) im by auto
  have "\<forall>c \<in> set inp. 0 \<le> sent through (image_of (cmap_of ?st2)) c" using assms(9) im nn by auto
  then have T: "translate n lc o1 arg1 arg2 inp =
    (let out = map (sent through (image_of (cmap_of ?st2))) inp in
     Some (Inr (if sflag o1 then squeezed (exts (squeeze ?st2)) OOBCH out else out)))"
    using translate_copies [OF B P _ _ assms(13)] assms(9) by simp
  show ?thesis unfolding T me ex Let_def by simp
qed

end
