(* ===== verification/Tr_Items.thy ===== *)
theory Tr_Items
  imports Tr_Pairs
begin

text \<open>
  The language of the operand strings in the \<open>C\<close> locale: characters, octal escapes,
  ranges between either, classes and counted sequences. Writing a list of such items out and
  running \<open>next\<close> over the text gives back the characters the items stand for.
\<close>

section \<open>Items\<close>

datatype item =
    Code int
  | Lit char
  | Code_Range int int
  | Lit_Range char char
  | Class string
  | Repeat int nat

definition octal3 :: "int \<Rightarrow> string" where
  "octal3 c = [CHR 0x5C, digit_char (nat c div 64), digit_char (nat c div 8 mod 8), digit_char (nat c mod 8)]"

fun render_item :: "item \<Rightarrow> string" where
  "render_item (Code c) = octal3 c"
| "render_item (Lit a) = [a]"
| "render_item (Code_Range c d) = octal3 c @ CHR ''-'' # octal3 d"
| "render_item (Lit_Range a b) = [a, CHR ''-'', b]"
| "render_item (Class nm) = ''[:'' @ nm @ '':]''"
| "render_item (Repeat c n) = CHR ''['' # octal3 c @ CHR ''*'' # show_nat n @ '']''"

fun expand_item :: "item \<Rightarrow> int list" where
  "expand_item (Code c) = [c]"
| "expand_item (Lit a) = [of_char a]"
| "expand_item (Code_Range c d) = [c..d]"
| "expand_item (Lit_Range a b) = [of_char a..of_char b]"
| "expand_item (Class nm) = filter (\<lambda>c. c_iswctype c (index_of nm class_names)) [0..255]"
| "expand_item (Repeat c n) = replicate n c"

definition plain_char :: "char \<Rightarrow> bool" where
  "plain_char a \<longleftrightarrow> a \<notin> {CHR 0x00, CHR 0x5C, CHR ''['', CHR ''-''}"

definition byte :: "int \<Rightarrow> bool" where
  "byte c \<longleftrightarrow> 0 \<le> c \<and> c < 256"

fun item_ok :: "item \<Rightarrow> bool" where
  "item_ok (Code c) = byte c"
| "item_ok (Lit a) = plain_char a"
| "item_ok (Code_Range c d) = (byte c \<and> byte d \<and> c \<le> d)"
| "item_ok (Lit_Range a b) =
     (plain_char a \<and> b \<noteq> CHR 0x5C \<and> b \<noteq> CHR 0x00 \<and> (of_char a :: int) \<le> of_char b)"
| "item_ok (Class nm) = (nm \<in> set (take 13 class_names))"
| "item_ok (Repeat c n) = (byte c \<and> 0 < n \<and> int n < 2 ^ 31)"

definition render_items :: "item list \<Rightarrow> string" where
  "render_items its = concat (map render_item its)"

definition expand_items :: "item list \<Rightarrow> int list" where
  "expand_items its = concat (map expand_item its)"

definition letter_case :: "item \<Rightarrow> bool" where
  "letter_case it \<longleftrightarrow> it = Class ''upper'' \<or> it = Class ''lower''"

section \<open>Runs from a state\<close>

text \<open>From \<open>s\<close> the calls of \<open>next\<close> give \<open>ys\<close> and leave the last of them (or what was
  there) in \<open>lastch\<close>; \<open>q\<close> holds of the states.\<close>

definition gives :: "(tr_str \<Rightarrow> bool) \<Rightarrow> tr_str \<Rightarrow> int list \<Rightarrow> bool" where
  "gives q s ys \<longleftrightarrow> (\<exists>ts s'. runs c_locale s ts s' \<and> map lastch ts = ys \<and>
     lastch s' = last (lastch s # ys) \<and> list_all q ts)"

definition rest_gives :: "(tr_str \<Rightarrow> bool) \<Rightarrow> string \<Rightarrow> int list \<Rightarrow> bool" where
  "rest_gives q r ys \<longleftrightarrow> (\<forall>s. state s = NORMAL \<longrightarrow> str s = r \<longrightarrow> gives q s ys)"

lemma gives_step:
  assumes "next_ch c_locale s = Inr (True, t)" "q t" "gives q t ys"
  shows "gives q s (lastch t # ys)"
proof -
  obtain ts s' where "runs c_locale t ts s'" "map lastch ts = ys" "lastch s' = last (lastch t # ys)" "list_all q ts"
    using assms(3) by (auto simp: gives_def)
  then show ?thesis
    unfolding gives_def using assms(1,2) by (intro exI [of _ "t # ts"] exI [of _ s']) auto
qed

lemma gives_same:
  assumes "next_ch c_locale s = next_ch c_locale t" "lastch s = lastch t" "gives q t ys"
  shows "gives q s ys"
proof -
  obtain ts s' where "runs c_locale t ts s'" "map lastch ts = ys" "lastch s' = last (lastch t # ys)" "list_all q ts"
    using assms(3) by (auto simp: gives_def)
  moreover from this have "runs c_locale s ts s'" using assms(1) by (cases ts) auto
  ultimately show ?thesis unfolding gives_def assms(2) by blast
qed

lemma gives_later:
  assumes "next_ch c_locale s = next_ch c_locale t" "gives q t ys" "ys \<noteq> []"
  shows "gives q s ys"
proof -
  obtain ts s' where "runs c_locale t ts s'" "map lastch ts = ys" "lastch s' = last (lastch t # ys)" "list_all q ts"
    using assms(2) by (auto simp: gives_def)
  moreover from this have "runs c_locale s ts s'" using assms(1) by (cases ts) auto
  ultimately show ?thesis unfolding gives_def using assms(3) by auto
qed

lemma range_gives:
  assumes "rest_gives q r ys" "\<And>t. state t = RANGE \<Longrightarrow> q t"
  shows "state s = RANGE \<Longrightarrow> str s = r \<Longrightarrow> cnt s = int k \<Longrightarrow> int k \<le> 1000 \<Longrightarrow> -1 \<le> lastch s \<Longrightarrow>
    lastch s \<le> 1000 - int k \<Longrightarrow> gives q s ([lastch s + 1..lastch s + int k] @ ys)"
proof (induction k arbitrary: s)
  case 0
  then have "next_ch c_locale s = next_ch c_locale (s\<lparr>cnt := -1, state := NORMAL\<rparr>)"
    by (simp add: next_ch.simps [of _ s])
  moreover have "gives q (s\<lparr>cnt := -1, state := NORMAL\<rparr>) ys" using assms(1) 0 by (simp add: rest_gives_def)
  ultimately show ?case using gives_same [of s "s\<lparr>cnt := -1, state := NORMAL\<rparr>" q ys] by simp
next
  case (Suc k)
  let ?t = "s\<lparr>cnt := int k, lastch := lastch s + 1\<rparr>"
  have n: "next_ch c_locale s = Inr (True, ?t)" using Suc.prems by (simp add: next_ch.simps [of _ s])
  have "gives q ?t ([lastch ?t + 1..lastch ?t + int k] @ ys)" by (rule Suc.IH) (use Suc.prems in auto)
  then have "gives q s (lastch ?t # [lastch ?t + 1..lastch ?t + int k] @ ys)"
    using gives_step [OF n] assms(2) [of ?t] Suc.prems by simp
  then show ?case using upto_rec1 [of "lastch s + 1" "lastch s + int (Suc k)"] by (simp add: add.assoc)
qed

lemma sequence_gives:
  assumes "rest_gives q r ys" "\<And>t. state t = SEQUENCE \<Longrightarrow> q t"
  shows "state s = SEQUENCE \<Longrightarrow> str s = r \<Longrightarrow> cnt s = int k \<Longrightarrow> int k < 2 ^ 31 \<Longrightarrow>
    gives q s (replicate k (lastch s) @ ys)"
proof (induction k arbitrary: s)
  case 0
  then have "next_ch c_locale s = next_ch c_locale (s\<lparr>cnt := -1, state := NORMAL\<rparr>)"
    by (simp add: next_ch.simps [of _ s])
  moreover have "gives q (s\<lparr>cnt := -1, state := NORMAL\<rparr>) ys" using assms(1) 0 by (simp add: rest_gives_def)
  ultimately show ?case using gives_same [of s "s\<lparr>cnt := -1, state := NORMAL\<rparr>" q ys] by simp
next
  case (Suc k)
  let ?t = "s\<lparr>cnt := int k\<rparr>"
  have n: "next_ch c_locale s = Inr (True, ?t)" using Suc.prems by (simp add: next_ch.simps [of _ s])
  have "gives q ?t (replicate k (lastch ?t) @ ys)" by (rule Suc.IH) (use Suc.prems in auto)
  then have "gives q s (lastch ?t # replicate k (lastch ?t) @ ys)"
    using gives_step [OF n] assms(2) [of ?t] Suc.prems by simp
  then show ?case by simp
qed

lemma set_gives:
  assumes "rest_gives q r ys" "\<And>t. state t = SET \<Longrightarrow> q t"
  shows "state s = SET \<Longrightarrow> str s = r \<Longrightarrow> chars s = pre @ zs @ [OOBCH] \<Longrightarrow> cnt s = int (length pre) \<Longrightarrow>
    OOBCH \<notin> set zs \<Longrightarrow> gives q s (zs @ ys)"
proof (induction zs arbitrary: s pre)
  case Nil
  let ?t = "s\<lparr>cnt := cnt s + 1, state := NORMAL\<rparr>"
  have "next_ch c_locale s = next_ch c_locale ?t"
    using Nil by (simp add: next_ch.simps [of _ s])
  moreover have "gives q ?t ys" using assms(1) Nil by (simp add: rest_gives_def)
  ultimately show ?case using gives_same [of s ?t q ys] by simp
next
  case (Cons z zs)
  let ?t = "s\<lparr>cnt := cnt s + 1, lastch := z\<rparr>"
  have n: "next_ch c_locale s = Inr (True, ?t)" using Cons.prems by (simp add: next_ch.simps [of _ s])
  have "gives q ?t (zs @ ys)" by (rule Cons.IH [of _ "pre @ [z]"]) (use Cons.prems in auto)
  then show ?case using gives_step [OF n] assms(2) [of ?t] Cons.prems by simp
qed

lemma filter_upto_Cons:
  "filter P [a..b] = x # xs \<Longrightarrow> filter P [x + 1..b] = xs \<and> a \<le> x \<and> x \<le> b \<and> P (x :: int)"
proof (induction "nat (b - a + 1)" arbitrary: a)
  case (Suc n)
  then have ab: "a \<le> b" by simp
  then have up: "[a..b] = a # [a + 1..b]" by (rule upto_rec1)
  show ?case
  proof (cases "P a")
    case False
    then have "filter P [a + 1..b] = x # xs" using Suc.prems up by simp
    moreover have "n = nat (b - (a + 1) + 1)" using Suc.hyps(2) ab by simp
    ultimately show ?thesis using Suc.hyps(1) [of "a + 1"] by auto
  qed (use Suc.prems up ab in auto)
qed simp

abbreviation is_class :: "str_state \<Rightarrow> bool" where
  "is_class st \<equiv> st = CCLASS \<or> st = CCLASS_UPPER \<or> st = CCLASS_LOWER"

lemma next_class:
  "is_class (state s) \<Longrightarrow> nextwctype lc (lastch s) (cclass s) = x \<Longrightarrow> x \<noteq> -1 \<Longrightarrow> 0 \<le> cnt s \<Longrightarrow> cnt s < 1000 \<Longrightarrow>
     next_ch lc s = Inr (True, s\<lparr>cnt := cnt s + 1, lastch := x\<rparr>)"
  by (auto simp: next_ch.simps [of _ s])

lemma class_gives:
  assumes "rest_gives q r ys" "\<And>t. state t = cc \<Longrightarrow> q t"
  shows "state s = cc \<Longrightarrow> is_class cc \<Longrightarrow> str s = r \<Longrightarrow> cclass s = k \<Longrightarrow>
    filter (\<lambda>c. c_iswctype c k) [lastch s + 1..255] = xs \<Longrightarrow> -1 \<le> lastch s \<Longrightarrow> 0 \<le> cnt s \<Longrightarrow>
    cnt s \<le> lastch s + 1 \<Longrightarrow> lastch s < 256 \<Longrightarrow> gives q s (xs @ ys)"
proof (induction xs arbitrary: s)
  case Nil
  let ?t = "s\<lparr>cnt := cnt s + 1, state := NORMAL\<rparr>"
  have "nextwctype c_locale (lastch s) k = -1" using Nil.prems(5) by (simp add: c_locale_def c_nextwctype_def)
  then have "next_ch c_locale s = next_ch c_locale ?t"
    using Nil.prems by (auto simp: next_ch.simps [of _ s])
  moreover have "gives q ?t ys" using assms(1) Nil by (simp add: rest_gives_def)
  ultimately show ?case using gives_same [of s ?t q ys] by simp
next
  case (Cons x xs)
  let ?t = "s\<lparr>cnt := cnt s + 1, lastch := x\<rparr>"
  note x = filter_upto_Cons [OF Cons.prems(5)]
  have "nextwctype c_locale (lastch s) k = x" using Cons.prems(5) by (simp add: c_locale_def c_nextwctype_def)
  then have n: "next_ch c_locale s = Inr (True, ?t)" using Cons.prems x by (intro next_class) auto
  have "gives q ?t (xs @ ys)" by (rule Cons.IH) (use Cons.prems x in auto)
  then show ?case using gives_step [OF n] assms(2) [of ?t] Cons.prems by simp
qed

section \<open>Single items\<close>

lemma octal_digit: "d < 8 \<Longrightarrow> is_octal_digit (digit_char d) \<and> digit_val (digit_char d) = d"
  by (simp add: is_octal_digit_def digit_val_digit)

lemma octal3_value:
  assumes "byte c"
  shows "(int (nat c div 64) * 8 + int (nat c div 8 mod 8)) * 8 + int (nat c mod 8) = c"
proof -
  have "nat c div 64 = nat c div 8 div 8" by (simp add: div_mult2_eq [of _ 8 8, simplified])
  then have "nat c = nat c div 64 * 64 + (nat c div 8 mod 8) * 8 + nat c mod 8"
    using div_mult_mod_eq [of "nat c" 8] div_mult_mod_eq [of "nat c div 8" 8] by linarith
  from arg_cong [OF this, of int]
  have "int (nat c) = int (nat c div 64) * 64 + int (nat c div 8 mod 8) * 8 + int (nat c mod 8)"
    unfolding of_nat_add of_nat_mult of_nat_numeral .
  then show ?thesis using assms by (simp add: byte_def)
qed

lemma octal3_digits:
  assumes "byte c"
  shows "nat c div 64 < 8" "nat c div 8 mod 8 < 8" "nat c mod 8 < 8"
proof -
  have "nat c < 256" using assms by (auto simp: byte_def)
  then show "nat c div 64 < 8" by (simp add: less_mult_imp_div_less)
qed simp_all

lemma backslash_octal3:
  assumes "byte c" "str s = octal3 c @ r"
  shows "backslash s = (c, True, s\<lparr>str := r\<rparr>)"
  using assms(2) octal3_value [OF assms(1)] octal3_digits [OF assms(1)]
  by (simp add: backslash_def octal3_def octal_digit)

lemma get_char_octal3:
  assumes "byte c" "str s = octal3 c @ r"
  shows "get_char c_locale s = Inr (c, True, s\<lparr>str := r\<rparr>)"
  using backslash_octal3 [OF assms] assms(2) by (simp add: get_char_def octal3_def)

lemma get_wc_C: "str s = a # r \<Longrightarrow> get_wc c_locale z s = Inr (of_char a, 1)"
  by (simp add: get_wc_def c_locale_def)

lemma c_locale_simps [simp]: "MB_CUR_MAX c_locale = 1" "mem c_locale"
  by (simp_all add: c_locale_def)

lemma c_locale_eval:
  "mbrtowc c_locale [] = MbChar 0 0" "mbrtowc c_locale (a # r) = MbChar (of_char a) 1"
  "towupper c_locale c = (if 97 \<le> c \<and> c \<le> 122 then c - 32 else c)"
  "towlower c_locale c = (if 65 \<le> c \<and> c \<le> 90 then c + 32 else c)"
  "wctype c_locale nm = index_of nm class_names" "strxfrm c_locale x = x"
  "nextwctype c_locale c k = c_nextwctype c k"
  by (simp_all add: c_locale_def)

lemma charcoll_C:
  assumes "byte x" "byte y"
  shows "charcoll c_locale x y = (if x = y then 0 else if x < y then -1 else 1)"
proof -
  have "nat x mod 256 = nat x" "nat y mod 256 = nat y" "x mod 256 = x" "y mod 256 = y"
    using assms by (auto simp: byte_def)
  then show ?thesis
    using assms by (auto simp: charcoll_def c_locale_def c_str1_def byte_def)
qed

lemma mergesort_C:
  assumes "sorted xs" "\<forall>x \<in> set xs. byte x"
  shows "mergesort c_locale xs = xs"
  using assms
proof (induction xs)
  case (Cons x xs)
  then have "mergesort c_locale xs = xs" by simp
  moreover have "coll_insert c_locale x xs = x # xs"
    using Cons.prems by (cases xs) (auto simp: charcoll_C)
  ultimately show ?case by (simp add: mergesort_def)
qed (simp add: mergesort_def)

lemma filter_upto_between:
  assumes "0 \<le> a" "b \<le> n"
  shows "filter (\<lambda>c. a \<le> c \<and> c \<le> b) [0..n] = [a..b :: int]"
  using assms
  by (intro sorted_distinct_set_unique sorted_filter [where f = id, simplified]) (auto simp del: upto_rec_numeral)

lemma filter_between:
  assumes "byte a" "byte b"
  shows "filter (\<lambda>c. charcoll c_locale c a \<ge> 0 \<and> charcoll c_locale c b \<le> 0) [0..255] = [a..b]"
proof -
  have "filter (\<lambda>c. charcoll c_locale c a \<ge> 0 \<and> charcoll c_locale c b \<le> 0) [0..255] = filter (\<lambda>c. a \<le> c \<and> c \<le> b) [0..255]"
    using assms by (intro filter_cong refl) (auto simp: charcoll_C byte_def simp del: upto_rec_numeral)
  also have "\<dots> = [a..b]" using assms by (intro filter_upto_between) (auto simp: byte_def)
  finally show ?thesis .
qed

lemma next_NORMAL:
  "state s = NORMAL \<Longrightarrow> str s = a # r \<Longrightarrow>
     next_ch lc s = bind_r (next_normal lc s) (\<lambda>(again, s1). if again then next_ch lc s1 else Inr (True, s1))"
  by (simp add: next_ch.simps [of lc s])

lemma maybe_range_no: "str s = [] \<or> hd (str s) \<noteq> CHR ''-'' \<Longrightarrow> maybe_range lc s oct = Inr (False, s)"
  by (auto simp: maybe_range_def)

lemma plain_charD: "plain_char a \<Longrightarrow> a \<noteq> CHR 0x5C \<and> a \<noteq> CHR ''['' \<and> a \<noteq> CHR ''-'' \<and> a \<noteq> CHR 0x00"
  by (simp add: plain_char_def)

lemma byte_of_char [simp]: "byte (of_char a)"
proof -
  have "(of_char a :: int) < 256" using of_char_mod_256 [of a, where 'a = int] pos_mod_bound [of 256 "of_char a"] by simp
  moreover have "0 \<le> (of_char a :: int)" unfolding of_nat_of_char [of a, where 'a = int, symmetric] by simp
  ultimately show ?thesis by (simp add: byte_def)
qed

lemma code_gives:
  assumes "byte c" "rest_gives q r ys" "r = [] \<or> hd r \<noteq> CHR ''-''" "\<And>t. state t = NORMAL \<Longrightarrow> q t"
  shows "rest_gives q (octal3 c @ r) (c # ys)"
  unfolding rest_gives_def
proof (intro allI impI)
  fix s :: tr_str
  assume s: "state s = NORMAL" "str s = octal3 c @ r"
  let ?t = "s\<lparr>str := r, lastch := c\<rparr>"
  have "next_normal c_locale s = Inr (False, ?t)"
    using backslash_octal3 [OF assms(1) s(2)] s(2) assms(3)
    by (simp add: next_normal_def octal3_def maybe_range_no)
  then have n: "next_ch c_locale s = Inr (True, ?t)"
    using next_NORMAL [OF s(1)] s(2) by (simp add: octal3_def)
  have "gives q ?t ys" using assms(2) s by (simp add: rest_gives_def)
  then show "gives q s (c # ys)" using gives_step [OF n] assms(4) s by simp
qed

lemma lit_gives:
  assumes "plain_char a" "rest_gives q r ys" "r = [] \<or> hd r \<noteq> CHR ''-''" "\<And>t. state t = NORMAL \<Longrightarrow> q t"
  shows "rest_gives q (a # r) (of_char a # ys)"
  unfolding rest_gives_def
proof (intro allI impI)
  fix s :: tr_str
  assume s: "state s = NORMAL" "str s = a # r"
  let ?t = "s\<lparr>str := r, lastch := of_char a\<rparr>"
  have "next_normal c_locale s = Inr (False, ?t)"
    using plain_charD [OF assms(1)] s(2) assms(3)
    by (simp add: next_normal_def next_plain_def get_wc_C maybe_range_no)
  then have n: "next_ch c_locale s = Inr (True, ?t)" using next_NORMAL [OF s] by simp
  have "gives q ?t ys" using assms(2) s by (simp add: rest_gives_def)
  then show "gives q s (of_char a # ys)" using gives_step [OF n] assms(4) s by simp
qed

lemma genrange_code:
  assumes "str u = CHR ''-'' # octal3 d @ r" "byte d" "byte (lastch u)" "lastch u \<le> d"
  shows "genrange c_locale u oct =
    Inr (True, u\<lparr>str := r, cnt := d - lastch u + 1, state := RANGE, lastch := lastch u - 1\<rparr>)"
proof -
  have "get_char c_locale (u\<lparr>str := tl (str u)\<rparr>) = Inr (d, True, u\<lparr>str := r\<rparr>)"
    using get_char_octal3 [OF assms(2), of "u\<lparr>str := tl (str u)\<rparr>" r] assms(1) by simp
  then show ?thesis using assms(2-4) by (simp add: genrange_def byte_def)
qed

lemma code_range_gives:
  assumes "byte c" "byte d" "c \<le> d" "rest_gives q r ys" "\<And>t. state t = RANGE \<Longrightarrow> q t"
  shows "rest_gives q (octal3 c @ CHR ''-'' # octal3 d @ r) ([c..d] @ ys)"
  unfolding rest_gives_def
proof (intro allI impI)
  fix s :: tr_str
  assume s: "state s = NORMAL" "str s = octal3 c @ CHR ''-'' # octal3 d @ r"
  let ?t = "s\<lparr>str := r, lastch := c - 1, cnt := d - c + 1, state := RANGE\<rparr>"
  have "next_normal c_locale s = Inr (True, ?t)"
    using backslash_octal3 [OF assms(1) s(2)] s(2) assms(1-3)
    by (simp add: next_normal_def octal3_def [of c] maybe_range_def genrange_code)
  then have n: "next_ch c_locale s = next_ch c_locale ?t"
    using next_NORMAL [OF s(1)] s(2) by (simp add: octal3_def)
  have "gives q ?t ([lastch ?t + 1..lastch ?t + int (nat (d - c + 1))] @ ys)"
    by (rule range_gives [OF assms(4,5)]) (use assms(1-3) in \<open>auto simp: byte_def\<close>)
  then have "gives q ?t ([c..d] @ ys)" using assms(3) by simp
  then show "gives q s ([c..d] @ ys)" by (rule gives_later [OF n]) (use assms(3) in simp)
qed

lemma lit_range_gives:
  assumes "plain_char a" "b \<noteq> CHR 0x5C" "(of_char a :: int) \<le> of_char b" "rest_gives q r ys"
    and "\<And>t. state t = SET \<Longrightarrow> q t"
  shows "rest_gives q (a # CHR ''-'' # b # r) ([of_char a..of_char b] @ ys)"
  unfolding rest_gives_def
proof (intro allI impI)
  fix s :: tr_str
  assume s: "state s = NORMAL" "str s = a # CHR ''-'' # b # r"
  let ?ab = "[of_char a..of_char b] :: int list"
  have srt: "mergesort c_locale ?ab = ?ab"
    by (rule mergesort_C) (use byte_of_char [of a] byte_of_char [of b] in \<open>auto simp: byte_def\<close>)
  let ?t = "s\<lparr>str := r, lastch := of_char a, chars := ?ab @ [OOBCH], cnt := 0, state := SET\<rparr>"
  have "next_normal c_locale s = Inr (True, ?t)"
    using plain_charD [OF assms(1)] s(2) assms(2,3)
    by (simp add: next_normal_def next_plain_def get_wc_C maybe_range_def genrange_def get_char_def
        charcoll_C filter_between srt Let_def del: upto_rec_numeral)
  then have n: "next_ch c_locale s = next_ch c_locale ?t" using next_NORMAL [OF s] by simp
  have "gives q ?t (?ab @ ys)"
    by (rule set_gives [OF assms(4,5), of ?t "[]"]) (use byte_of_char [of a] in \<open>auto simp: byte_def\<close>)
  then show "gives q s (?ab @ ys)" by (rule gives_later [OF n]) (use assms(3) in simp)
qed

lemma class_names_ok:
  assumes "nm \<in> set (take 13 class_names)"
  shows "nm \<noteq> [] \<and> CHR '']'' \<notin> set nm \<and> index_of nm class_names \<noteq> 0 \<and>
    filter (\<lambda>c. c_iswctype c (index_of nm class_names)) [0..255] \<noteq> []"
proof -
  have "nm = ''upper'' \<or> nm = ''lower'' \<or> nm = ''digit'' \<or> nm = ''alpha'' \<or> nm = ''alnum'' \<or> nm = ''blank'' \<or>
      nm = ''cntrl'' \<or> nm = ''graph'' \<or> nm = ''print'' \<or> nm = ''punct'' \<or> nm = ''space'' \<or> nm = ''xdigit'' \<or>
      nm = ''rune''"
    using assms by (simp add: class_names_def)
  then have "nm \<noteq> [] \<and> CHR '']'' \<notin> set nm \<and> index_of nm class_names \<noteq> 0 \<and>
      (\<exists>x \<in> {127, 65, 97, 48, 33, 32}. c_iswctype x (index_of nm class_names))"
    by (elim disjE) (simp_all add: class_names_def c_iswctype_def)
  then show ?thesis by (auto simp: filter_empty_conv simp del: upto_rec_numeral)
qed

lemma bracket_class:
  assumes "str s = ''[:'' @ nm @ '':]'' @ r" "nm \<in> set (take 13 class_names)"
  shows "bracket c_locale s = Inr (True, s\<lparr>str := r, cclass := index_of nm class_names, cnt := 0, lastch := -1,
    state := (if nm = ''upper'' then CCLASS_UPPER else if nm = ''lower'' then CCLASS_LOWER else CCLASS)\<rparr>)"
proof -
  note nm = class_names_ok [OF assms(2)]
  have tw: "takeWhile (\<lambda>c. c \<noteq> CHR '']'') (nm @ CHR '':'' # CHR '']'' # r) = nm @ [CHR '':'']"
    using conjunct1 [OF conjunct2 [OF nm]] by (induction nm) auto
  have ln: "\<not> 3 + length nm < 4" using nm by (cases nm) auto
  have nth: "(CHR ''['' # CHR '':'' # nm @ CHR '':'' # CHR '']'' # r) ! (2 + length nm) = CHR '':''"
    by (simp add: nth_append)
  have "genclass c_locale s nm = Inr (s\<lparr>cclass := index_of nm class_names, cnt := 0, lastch := -1,
    state := (if nm = ''upper'' then CCLASS_UPPER else if nm = ''lower'' then CCLASS_LOWER else CCLASS)\<rparr>)"
    using nm by (simp add: genclass_def c_locale_def)
  then show ?thesis
    using tw ln nth assms(1) unfolding bracket_def by (simp add: Let_def)
qed

lemma class_item_gives:
  assumes "nm \<in> set (take 13 class_names)" "rest_gives q r ys"
    and "\<And>t. state t = CCLASS \<or> letter_case (Class nm) \<Longrightarrow> q t"
  shows "rest_gives q (''[:'' @ nm @ '':]'' @ r) (expand_item (Class nm) @ ys)"
  unfolding rest_gives_def
proof (intro allI impI)
  fix s :: tr_str
  assume s: "state s = NORMAL" "str s = ''[:'' @ nm @ '':]'' @ r"
  define cc where "cc = (if nm = ''upper'' then CCLASS_UPPER else if nm = ''lower'' then CCLASS_LOWER else CCLASS)"
  define t where "t = s\<lparr>str := r, cclass := index_of nm class_names, cnt := 0, lastch := -1, state := cc\<rparr>"
  have B: "bracket c_locale s = Inr (True, t)" unfolding t_def cc_def by (rule bracket_class [OF s(2) assms(1)])
  then have "next_normal c_locale s = Inr (True, t)" using s(2) by (simp add: next_normal_def)
  then have n: "next_ch c_locale s = next_ch c_locale t" using next_NORMAL [OF s(1)] s(2) by simp
  have q: "q u" if "state u = cc" for u
    using assms(3) [of u] that by (auto simp: cc_def letter_case_def split: if_splits)
  have "gives q t (expand_item (Class nm) @ ys)"
    by (rule class_gives [OF assms(2), of cc]) (auto simp: t_def cc_def q simp del: upto_rec_numeral)
  then show "gives q s (expand_item (Class nm) @ ys)"
    by (rule gives_later [OF n]) (use class_names_ok [OF assms(1)] in \<open>simp del: upto_rec_numeral\<close>)
qed

lemma digit_not_star: "d < 10 \<Longrightarrow> digit_char d \<noteq> CHR ''*'' \<and> digit_char d \<noteq> CHR '']'' \<and> digit_char d \<noteq> CHR 0x5C"
  using of_char_digit [of d] by auto

lemma show_nat_Cons: "show_nat n = c # cs \<Longrightarrow> digit_val c < 10 \<and> c \<noteq> CHR 0x5C \<and> c \<noteq> CHR '']''"
  using show_nat_digits [of n] digit_not_star by (auto simp: digit_val_digit)

lemma seq_count_number:
  assumes "str s = show_nat n @ CHR '']'' # r" "0 < n" "int n < 2 ^ 31"
  shows "seq_count s = Inr (s\<lparr>cnt := int n, str := r\<rparr>)"
proof -
  obtain c cs where cs: "show_nat n = c # cs" using show_nat_digits [of n] by (cases "show_nat n") auto
  have "strto (- (2 ^ 31)) (2 ^ 31 - 1) (str s) = (int n, CHR '']'' # r, False)"
    unfolding assms(1) by (rule strto_number) (use assms(2,3) in \<open>auto simp: digit_val_def\<close>)
  then show ?thesis using show_nat_Cons [OF cs] assms(1) by (simp add: seq_count_def cs)
qed

lemma bracket_sequence:
  assumes "str s = CHR ''['' # octal3 c @ CHR ''*'' # show_nat n @ CHR '']'' # r" "byte c" "0 < n" "int n < 2 ^ 31"
  shows "bracket c_locale s = Inr (True, s\<lparr>str := r, lastch := c, cnt := int n, state := SEQUENCE\<rparr>)"
proof -
  note d = octal3_digits [OF assms(2)]
  have G: "get_char c_locale (s\<lparr>str := tl (str s)\<rparr>) = Inr (c, True, s\<lparr>str := CHR ''*'' # show_nat n @ CHR '']'' # r\<rparr>)"
    using get_char_octal3 [OF assms(2), of "s\<lparr>str := tl (str s)\<rparr>"] assms(1) by simp
  have S: "seq_count (s\<lparr>lastch := c, str := show_nat n @ CHR '']'' # r\<rparr>)
      = Inr (s\<lparr>lastch := c, cnt := int n, str := r\<rparr>)"
    using seq_count_number [of "s\<lparr>lastch := c, str := show_nat n @ CHR '']'' # r\<rparr>" n r] assms(3,4) by simp
  have Q: "genseq c_locale (s\<lparr>str := tl (str s)\<rparr>) = Inr (s\<lparr>str := r, lastch := c, cnt := int n, state := SEQUENCE\<rparr>)"
    unfolding genseq_def G using S assms(3) by simp
  have dw: "dropWhile (\<lambda>c. c \<noteq> CHR ''*'' \<and> c \<noteq> CHR '']'') (drop 2 (str s)) = CHR ''*'' # show_nat n @ CHR '']'' # r"
    using d assms(1) by (simp add: octal3_def digit_not_star)
  have "bracket_repeat c_locale s = Inr (True, s\<lparr>str := r, lastch := c, cnt := int n, state := SEQUENCE\<rparr>)"
    unfolding bracket_repeat_def dw Let_def Q using assms(1) by (simp add: octal3_def)
  then show ?thesis using assms(1) by (simp add: bracket_def octal3_def)
qed

lemma repeat_gives:
  assumes "byte c" "0 < n" "int n < 2 ^ 31" "rest_gives q r ys" "\<And>t. state t = SEQUENCE \<Longrightarrow> q t"
  shows "rest_gives q (CHR ''['' # octal3 c @ CHR ''*'' # show_nat n @ CHR '']'' # r) (replicate n c @ ys)"
  unfolding rest_gives_def
proof (intro allI impI)
  fix s :: tr_str
  assume s: "state s = NORMAL" "str s = CHR ''['' # octal3 c @ CHR ''*'' # show_nat n @ CHR '']'' # r"
  let ?t = "s\<lparr>str := r, lastch := c, cnt := int n, state := SEQUENCE\<rparr>"
  have "next_normal c_locale s = Inr (True, ?t)"
    using bracket_sequence [OF s(2) assms(1-3)] s(2) by (simp add: next_normal_def)
  then have nx: "next_ch c_locale s = next_ch c_locale ?t" using next_NORMAL [OF s] by simp
  have "gives q ?t (replicate n (lastch ?t) @ ys)"
    by (rule sequence_gives [OF assms(4,5)]) (use assms(3) in auto)
  then show "gives q s (replicate n c @ ys)" using gives_later [OF nx] assms(2) by simp
qed

section \<open>Lists of items\<close>

lemma render_item_head: "item_ok it \<Longrightarrow> render_item it \<noteq> [] \<and> hd (render_item it) \<noteq> CHR ''-''"
  by (cases it) (auto simp: octal3_def plain_char_def)

lemma item_gives:
  assumes "item_ok it" "rest_gives q r ys" "r = [] \<or> hd r \<noteq> CHR ''-''"
    and "\<And>t. no_case t \<or> letter_case it \<Longrightarrow> q t"
  shows "rest_gives q (render_item it @ r) (expand_item it @ ys)"
proof (cases it)
  case (Code c)
  then show ?thesis using code_gives [OF _ assms(2,3)] assms(1,4) by (simp add: no_case_def)
next
  case (Lit a)
  then show ?thesis using lit_gives [OF _ assms(2,3)] assms(1,4) by (simp add: no_case_def)
next
  case (Code_Range c d)
  then show ?thesis using code_range_gives [OF _ _ _ assms(2)] assms(1,4) by (simp add: no_case_def)
next
  case (Lit_Range a b)
  then show ?thesis using lit_range_gives [OF _ _ _ assms(2)] assms(1,4) by (simp add: no_case_def)
next
  case (Class nm)
  have "rest_gives q (''[:'' @ nm @ '':]'' @ r) (expand_item (Class nm) @ ys)"
  proof (rule class_item_gives [OF _ assms(2)])
    show "q t" if "state t = CCLASS \<or> letter_case (Class nm)" for t
      using that assms(4) Class by (auto simp: no_case_def)
  qed (use assms(1) Class in simp)
  then show ?thesis using Class by simp
next
  case (Repeat c n)
  then show ?thesis using repeat_gives [OF _ _ _ assms(2)] assms(1,4) by (simp add: no_case_def)
qed

lemma items_give:
  assumes "list_all item_ok its" "\<And>t it. it \<in> set its \<Longrightarrow> no_case t \<or> letter_case it \<Longrightarrow> q t"
  shows "rest_gives q (render_items its) (expand_items its)"
  using assms
proof (induction its)
  case Nil
  have "gives q s []" if "state s = NORMAL" "str s = []" for s
    unfolding gives_def using that
    by (intro exI [of _ "[]"] exI [of _ "s\<lparr>state := EOS\<rparr>"]) (simp add: next_ch.simps [of _ s])
  then show ?case by (simp add: rest_gives_def render_items_def expand_items_def)
next
  case (Cons it its)
  have IH: "rest_gives q (render_items its) (expand_items its)" using Cons by auto
  have hd: "render_items its = [] \<or> hd (render_items its) \<noteq> CHR ''-''"
    using Cons.prems(1) by (cases its) (auto simp: render_items_def hd_append dest: render_item_head)
  have "rest_gives q (render_item it @ render_items its) (expand_item it @ expand_items its)"
    by (rule item_gives [OF _ IH hd]) (use Cons.prems in auto)
  then show ?case by (simp add: render_items_def expand_items_def)
qed

end
