(* ===== verification/Tr_Props.thy ===== *)
theory Tr_Props
  imports Tr_Items
begin

text \<open>
  The properties of \<open>tr\<close> as a whole, in the \<open>C\<close> locale: what each synopsis form
  writes for operands built from characters, escapes, ranges, classes and counted sequences.
\<close>

section \<open>Operands\<close>

lemma render_items_head: "list_all item_ok its \<Longrightarrow> render_items its = [] \<or> hd (render_items its) \<noteq> CHR ''-''"
  by (cases its) (auto simp: render_items_def hd_append dest: render_item_head)

lemma getopt_operand:
  "a = [] \<or> hd a \<noteq> CHR ''-'' \<Longrightarrow> getopt ostr (a # rest) = ([], a # rest)"
  by (auto simp: getopt.simps)

lemma getopt_flags:
  assumes "set fl \<subseteq> set ''Ccdsu''" "fl \<noteq> []" "a = [] \<or> hd a \<noteq> CHR ''-''"
  shows "getopt ''Ccdsu'' ((CHR ''-'' # fl) # a # rest) = (map (\<lambda>c. Opt c None) fl, a # rest)"
proof -
  have cl: "opt_cluster ''Ccdsu'' f r = (map (\<lambda>c. Opt c None) f, r)" if "set f \<subseteq> set ''Ccdsu''" for f r
    using that by (induction f) (auto split: prod.split)
  have "fl \<noteq> ''-''" using assms(1) by auto
  then show ?thesis
    using cl [OF assms(1)] getopt_operand [OF assms(3)] assms(2) by (subst getopt.simps) (auto split: prod.split)
qed

lemma items_bytes: "list_all item_ok its \<Longrightarrow> c \<in> set (expand_items its) \<Longrightarrow> byte c"
proof (induction its)
  case (Cons it its)
  have "item_ok it" "c \<in> set (expand_item it) \<or> c \<in> set (expand_items its)"
    using Cons.prems by (auto simp: expand_items_def)
  moreover have "byte c" if "c \<in> set (expand_item it)" "item_ok it"
    using that
  proof (cases it)
    case (Lit_Range a b)
    then show ?thesis using that byte_of_char [of a] byte_of_char [of b] by (auto simp: byte_def)
  next
    case (Lit a)
    then show ?thesis using that by simp
  qed (auto simp: byte_def simp del: upto_rec_numeral)
  ultimately show ?case using Cons by auto
qed (simp add: expand_items_def)

lemma byte_bounds: "byte c \<Longrightarrow> 0 \<le> c \<and> c \<le> WCHAR_MAX \<and> wide c"
  by (simp add: byte_def wide_def)

text \<open>The run of an operand from the initial state of a string.\<close>

lemma operand_run:
  assumes "list_all item_ok its"
  obtains ts s' where "runs c_locale ((STR_init w)\<lparr>str := render_items its\<rparr>) ts s'"
    "map lastch ts = expand_items its" "lastch s' = last (OOBCH # expand_items its)"
    "list_all (\<lambda>t. list_ex letter_case its \<or> no_case t) ts"
proof -
  have "rest_gives (\<lambda>t. list_ex letter_case its \<or> no_case t) (render_items its) (expand_items its)"
    by (rule items_give [OF assms]) (auto simp: list_ex_iff)
  then have "gives (\<lambda>t. list_ex letter_case its \<or> no_case t) ((STR_init w)\<lparr>str := render_items its\<rparr>) (expand_items its)"
    by (simp add: rest_gives_def)
  then show thesis using that by (auto simp: gives_def)
qed

text \<open>The set of an operand, with the complement the options ask for.\<close>

lemma setup_operand:
  assumes "list_all item_ok its" "length (expand_items its) < n"
  obtains cs where "setup_set n c_locale (render_items its) (STR_init w) c C = Some (Inr cs)"
    "cset_inv c_locale cs" "members c_locale cs = selected c_locale c C (set (expand_items its))"
proof -
  obtain ts s' where R: "runs c_locale ((STR_init w)\<lparr>str := render_items its\<rparr>) ts s'"
    "map lastch ts = expand_items its"
    by (rule operand_run [OF assms(1)])
  have s: "lastch ` set ts = set (expand_items its)" using R(2) by (metis list.set_map)
  have "\<forall>t \<in> set ts. wide (lastch t)"
    using items_bytes [OF assms(1)] byte_bounds s by (metis imageI)
  moreover have "length ts < n" using assms(2) R(2) by (metis length_map)
  ultimately show thesis using setup_set_run [OF R(1)] that s by (metis c_locale_simps(2))
qed

section \<open>Deleting and squeezing\<close>

lemmas item_eval = render_items_def expand_items_def octal3_def digit_char_def plain_char_def byte_def

lemma tr_main_flags:
  assumes "list_all item_ok its" "set fl \<subseteq> set ''Ccdsu''" "fl \<noteq> []"
  shows "tr_main n lc ((CHR ''-'' # fl) # render_items its # rest) inp fe =
    bind_run (Some (tr_options (map (\<lambda>c. Opt c None) fl)
      \<lparr>Cflag = False, cflag = False, dflag = False, sflag = False\<rparr>)) (\<lambda>o1.
      bind_run (tr_copy n lc o1 (render_items its # rest) inp) (\<lambda>out. Some (Inr (out, fe))))"
  using getopt_flags [OF assms(2,3) render_items_head [OF assms(1)]] by (simp add: tr_main_def)

lemma tr_main_plain:
  assumes "list_all item_ok its"
  shows "tr_main n lc (render_items its # rest) inp fe =
    bind_run (tr_copy n lc \<lparr>Cflag = False, cflag = False, dflag = False, sflag = False\<rparr>
      (render_items its # rest) inp) (\<lambda>out. Some (Inr (out, fe)))"
  using getopt_operand [OF render_items_head [OF assms(1)]] by (simp add: tr_main_def)

text \<open>C27: \<open>tr [-c|-C] -d string1\<close> removes exactly the characters \<open>string1\<close> stands
  for (with \<open>-c\<close> all others, with \<open>-C\<close> all other valid characters) and keeps the rest
  in order, for every operand made of characters, escapes, ranges, classes and counted
  sequences and every input.\<close>

theorem tr_deletes:
  assumes "list_all item_ok its" "length (expand_items its) < n" "\<forall>c \<in> set inp. 0 \<le> c" "fl \<in> {[], ''c'', ''C''}"
  shows "tr_main n c_locale [CHR ''-'' # fl @ ''d'', render_items its] inp fe =
    Some (Inr (filter (\<lambda>c. c \<notin> selected c_locale (fl = ''c'') (fl = ''C'') (set (expand_items its))) inp, fe))"
proof -
  obtain cs where "setup_set n c_locale (render_items its) (STR_init STRING1) (fl = ''c'') (fl = ''C'') = Some (Inr cs)"
    "cset_inv c_locale cs"
    "members c_locale cs = selected c_locale (fl = ''c'') (fl = ''C'') (set (expand_items its))"
    by (rule setup_operand [OF assms(1,2)])
  then show ?thesis
    using assms(4) tr_set.delete_loop_filter [OF _ assms(3)] tr_main_flags [OF assms(1), of "fl @ ''d''"]
    by (auto simp: tr_copy_def Let_def)
qed

theorem tr_deletes_witness:
  "tr_main 10 c_locale [''-d'', ''a-c''] [97, 120, 98] False = Some (Inr ([120], False))"
  using tr_deletes [of "[Lit_Range CHR ''a'' CHR ''c'']" 10 "[97, 120, 98]" "[]" False]
  by (simp add: item_eval selected_def)

text \<open>\<open>tr [-c|-C] -s string1\<close> drops a character exactly when it repeats the one before it
  and belongs to \<open>string1\<close> (or its complement).\<close>

theorem tr_squeezes:
  assumes "list_all item_ok its" "length (expand_items its) < n" "\<forall>c \<in> set inp. 0 \<le> c" "fl \<in> {[], ''c'', ''C''}"
  shows "tr_main n c_locale [CHR ''-'' # fl @ ''s'', render_items its] inp fe =
    Some (Inr (squeezed (selected c_locale (fl = ''c'') (fl = ''C'') (set (expand_items its))) OOBCH inp, fe))"
proof -
  obtain cs where "setup_set n c_locale (render_items its) (STR_init STRING1) (fl = ''c'') (fl = ''C'') = Some (Inr cs)"
    "cset_inv c_locale cs"
    "members c_locale cs = selected c_locale (fl = ''c'') (fl = ''C'') (set (expand_items its))"
    by (rule setup_operand [OF assms(1,2)])
  then show ?thesis
    using assms(4) tr_set.squeeze_loop_runs [OF _ assms(3)] tr_main_flags [OF assms(1), of "fl @ ''s''"]
    by (auto simp: tr_copy_def Let_def)
qed

theorem tr_squeezes_witness:
  "tr_main 10 c_locale [''-s'', ''a''] [97, 97, 98, 98] False = Some (Inr ([97, 98, 98], False))"
  using tr_squeezes [of "[Lit CHR ''a'']" 10 "[97, 97, 98, 98]" "[]" False]
  by (simp add: item_eval selected_def)

text \<open>\<open>tr [-c|-C] -ds string1 string2\<close> deletes the characters of \<open>string1\<close> (or
  the complement) and then squeezes what is left over the characters of \<open>string2\<close>.\<close>

theorem tr_deletes_squeezes:
  assumes "list_all item_ok its" "list_all item_ok jts" "length (expand_items its) < n" "length (expand_items jts) < n"
    and "\<forall>c \<in> set inp. 0 \<le> c" "fl \<in> {[], ''c'', ''C''}"
  shows "tr_main n c_locale [CHR ''-'' # fl @ ''ds'', render_items its, render_items jts] inp fe =
    Some (Inr (squeezed (set (expand_items jts)) OOBCH
      (filter (\<lambda>c. c \<notin> selected c_locale (fl = ''c'') (fl = ''C'') (set (expand_items its))) inp), fe))"
proof -
  obtain cs where "setup_set n c_locale (render_items its) (STR_init STRING1) (fl = ''c'') (fl = ''C'') = Some (Inr cs)"
    "cset_inv c_locale cs"
    "members c_locale cs = selected c_locale (fl = ''c'') (fl = ''C'') (set (expand_items its))"
    by (rule setup_operand [OF assms(1,3)])
  moreover obtain sq where "setup_set n c_locale (render_items jts) (STR_init STRING2) False False = Some (Inr sq)"
    "cset_inv c_locale sq" "members c_locale sq = set (expand_items jts)"
    by (rule setup_operand [OF assms(2,4), of STRING2 False False]) (simp add: selected_def)
  ultimately show ?thesis
    using assms(6) tr_set.delete_squeeze_loop_runs [OF _ _ assms(5)] tr_main_flags [OF assms(1), of "fl @ ''ds''"]
    by (auto simp: tr_copy_def Let_def)
qed

theorem tr_deletes_squeezes_witness:
  "tr_main 10 c_locale [''-ds'', ''a'', ''b''] [98, 97, 98, 99, 99] False = Some (Inr ([98, 99, 99], False))"
  using tr_deletes_squeezes [of "[Lit CHR ''a'']" "[Lit CHR ''b'']" 10 "[98, 97, 98, 99, 99]" "[]" False]
  by (simp add: item_eval selected_def)

section \<open>Translating\<close>

lemma string2_run:
  assumes "list_all item_ok its" "expand_items its \<noteq> []"
  obtains u us u' where "runs c_locale ((STR_init STRING2)\<lparr>str := render_items its\<rparr>) (u # us) u'"
    "map lastch (u # us) = expand_items its" "lastch u' = last (expand_items its)"
proof -
  obtain vs u' where V: "runs c_locale ((STR_init STRING2)\<lparr>str := render_items its\<rparr>) vs u'"
    "map lastch vs = expand_items its" "lastch u' = last (OOBCH # expand_items its)"
    by (rule operand_run [OF assms(1)])
  then obtain u us where vs: "vs = u # us" using assms(2) by (cases vs) auto
  show thesis by (rule that [of u us u']) (use V vs assms(2) in simp_all)
qed

text \<open>As many characters as are needed, the last one repeated.\<close>

definition padded :: "int list \<Rightarrow> nat \<Rightarrow> int list" where
  "padded ys k = take k (ys @ replicate k (last ys))"

lemma offered_padded:
  assumes "map lastch (u # us) = ys" "lastch u' = last ys"
  shows "offered u us u' k = padded ys k"
proof -
  have "lastch u # map lastch us @ R = ys @ R" for R using assms(1) by auto
  then show ?thesis by (simp only: offered_def padded_def assms(2))
qed

lemma set_padded: "ys \<noteq> [] \<Longrightarrow> set (padded ys k) \<subseteq> set ys"
  by (auto simp: padded_def dest!: in_set_takeD)

lemma translate_items:
  assumes "list_all item_ok its" "list_all item_ok jts" "expand_items jts \<noteq> []" "\<not> list_ex letter_case its"
    and "2 * length (expand_items its) < n" "\<forall>c \<in> set inp. 0 \<le> c"
    and "ys = padded (expand_items jts) (length (expand_items its))"
    and "out = map (or_self (paired (expand_items its) ys)) inp"
  shows "tr_main n c_locale [render_items its, render_items jts] inp fe = Some (Inr (out, fe)) \<and>
    tr_main n c_locale [''-s'', render_items its, render_items jts] inp fe =
      Some (Inr (squeezed (set ys) OOBCH out, fe))"
proof -
  obtain ts s' where T: "runs c_locale ((STR_init STRING1)\<lparr>str := render_items its\<rparr>) ts s'"
    "map lastch ts = expand_items its" "list_all (\<lambda>t. list_ex letter_case its \<or> no_case t) ts"
    by (rule operand_run [OF assms(1)])
  obtain u us u' where U: "runs c_locale ((STR_init STRING2)\<lparr>str := render_items jts\<rparr>) (u # us) u'"
    "map lastch (u # us) = expand_items jts" "lastch u' = last (expand_items jts)"
    by (rule string2_run [OF assms(2,3)])
  have len: "length ts = length (expand_items its)" using T(2) by (metis length_map)
  have nc: "\<forall>t \<in> set ts. no_case t" using T(3) assms(4) by (simp add: list_all_iff)
  have ys: "ys = offered u us u' (length ts)" using offered_padded [OF U(2,3)] assms(7) len by simp
  have b: "\<forall>v \<in> set ys. 0 \<le> v \<and> v \<le> WCHAR_MAX"
    using set_padded [OF assms(3)] items_bytes [OF assms(2)] byte_bounds assms(7) by blast
  have "translate n c_locale o1 (render_items its) (render_items jts) inp =
      (let out = map (or_self (paired (map lastch ts) ys)) inp in
       Some (Inr (if sflag o1 then squeezed (set ys) OOBCH out else out)))" if "\<not> Cflag o1" "\<not> cflag o1" for o1
    by (rule translate_run [OF T(1) U(1) _ _ nc that ys b assms(6)]) (use assms(5) len in simp_all)
  then have tr: "translate n c_locale o1 (render_items its) (render_items jts) inp =
      Some (Inr (if sflag o1 then squeezed (set ys) OOBCH out else out))" if "\<not> Cflag o1" "\<not> cflag o1" for o1
    using that by (simp add: T(2) assms(8) Let_def)
  show ?thesis
    using tr_main_flags [OF assms(1), of "''s''"] tr_main_plain [OF assms(1)]
    by (simp add: tr_copy_def Let_def tr)
qed



text \<open>C19: \<open>tr -c [-s] string1 string2\<close> keeps the characters of \<open>string1\<close> and replaces
  every other one, in increasing order, by the characters of \<open>string2\<close> in turn, the last one
  from then on, although the map holds entries for a bounded part of the character set only.\<close>

theorem tr_complements:
  assumes "list_all item_ok its" "list_all item_ok jts" "expand_items jts \<noteq> []" "\<not> list_ex letter_case its"
    and "2 * length (expand_items its) < n" "\<forall>c \<in> set inp. 0 \<le> c \<and> c < WCHAR_MAX"
    and "X = set (expand_items its)" "ys = expand_items jts"
    and "im = (\<lambda>k. if k \<in> X then k else nth_or ys (last ys) (card {i. 0 \<le> i \<and> i < k \<and> i \<notin> X}))"
    and "sq = set (padded ys (length (expand_items its))) \<union> im ` {k. 0 \<le> k \<and> k < WCHAR_MAX \<and> k \<notin> X}"
  shows "tr_main n c_locale [''-c'', render_items its, render_items jts] inp fe = Some (Inr (map im inp, fe)) \<and>
    tr_main n c_locale [''-cs'', render_items its, render_items jts] inp fe =
      Some (Inr (squeezed sq OOBCH (map im inp), fe))"
proof -
  obtain ts s' where T: "runs c_locale ((STR_init STRING1)\<lparr>str := render_items its\<rparr>) ts s'"
    "map lastch ts = expand_items its" "list_all (\<lambda>t. list_ex letter_case its \<or> no_case t) ts"
    by (rule operand_run [OF assms(1)])
  obtain u us u' where U: "runs c_locale ((STR_init STRING2)\<lparr>str := render_items jts\<rparr>) (u # us) u'"
    "map lastch (u # us) = expand_items jts" "lastch u' = last (expand_items jts)"
    by (rule string2_run [OF assms(2,3)])
  have len: "length ts = length (expand_items its)" using T(2) by (metis length_map)
  have nc: "\<forall>t \<in> set ts. no_case t" using T(3) assms(4) by (simp add: list_all_iff)
  have again: "\<exists>ws w. runs c_locale s ws w \<and> map lastch ws = map lastch (u # us) \<and> lastch w = lastch u'"
    if "state s = NORMAL" "str s = render_items jts" for s
  proof -
    have "rest_gives (\<lambda>_. True) (render_items jts) (expand_items jts)" by (rule items_give [OF assms(2)]) simp
    then have "gives (\<lambda>_. True) s (expand_items jts)" using that by (simp add: rest_gives_def)
    then show ?thesis using assms(3) unfolding U(2,3) by (auto simp: gives_def)
  qed
  have b: "\<forall>v \<in> set (map lastch (u # us @ [u'])). 0 \<le> v \<and> v \<le> WCHAR_MAX"
  proof -
    have me: "map lastch (u # us @ [u']) = ys @ [last ys]" using U(2,3) assms(8) by auto
    show ?thesis unfolding me using items_bytes [OF assms(2)] byte_bounds assms(3,8) by auto
  qed
  have im: "sent (\<lambda>_. True) (\<lambda>k. if k \<in> X then k else comp_image (\<lambda>_. True) X ys (last ys) k) = im"
    by (rule HOL.ext) (simp add: sent_def assms(9) comp_image_def others_def)
  have sq: "set (offered u us u' (length ts)) \<union> comp_image (\<lambda>_. True) X ys (last ys) ` others (\<lambda>_. True) X WCHAR_MAX = sq"
  proof -
    have "offered u us u' (length ts) = padded ys (length (expand_items its))"
      using offered_padded [OF U(2,3)] assms(8) len by simp
    moreover have "comp_image (\<lambda>_. True) X ys (last ys) ` others (\<lambda>_. True) X WCHAR_MAX
        = im ` {k. 0 \<le> k \<and> k < WCHAR_MAX \<and> k \<notin> X}"
      by (intro image_cong) (auto simp: others_def assms(9) comp_image_def)
    ultimately show ?thesis by (simp add: assms(10))
  qed
  have tr: "translate n c_locale o1 (render_items its) (render_items jts) inp =
      Some (Inr (if sflag o1 then squeezed sq OOBCH (map im inp) else map im inp))" if "\<not> Cflag o1" "cflag o1" for o1
  proof -
    have "translate n c_locale o1 (render_items its) (render_items jts) inp =
      (let out = map (sent (\<lambda>_. True) (\<lambda>k. if k \<in> X then k else comp_image (\<lambda>_. True) X ys (last ys) k)) inp in
       Some (Inr (if sflag o1 then
         squeezed (set (offered u us u' (length ts)) \<union> comp_image (\<lambda>_. True) X ys (last ys) ` others (\<lambda>_. True) X WCHAR_MAX) OOBCH out
       else out)))"
      by (rule translate_complement_run [OF T(1) U(1) again _ _ nc _ b assms(6)])
        (use assms(5,7,8) len T(2) U(2,3) that in simp_all)
    then show ?thesis unfolding im sq Let_def .
  qed
  show ?thesis
    using tr_main_flags [OF assms(1), of "''c''"] tr_main_flags [OF assms(1), of "''cs''"]
    by (simp add: tr_copy_def Let_def tr)
qed

lemma nth_or_single: "nth_or [x] x i = x"
  by (simp add: nth_or_def)

lemma demo_operands:
  "expand_items [Lit CHR ''a''] = [97]" "expand_items [Lit CHR ''x''] = [120]"
  "render_items [Lit CHR ''a''] = ''a''" "render_items [Lit CHR ''x''] = ''x''"
  "list_all item_ok [Lit CHR ''a'']" "list_all item_ok [Lit CHR ''x'']"
  by (simp_all add: item_eval)

theorem tr_complements_witness:
  "tr_main 10 c_locale [''-c'', ''a'', ''x''] [97, 98] False = Some (Inr ([97, 120], False))"
  using tr_complements [OF demo_operands(5,6) _ _ _ _ refl refl refl refl, of 10 "[97, 98]" False] unfolding demo_operands(1-4)
  by (simp add: letter_case_def nth_or_single)

end
