(* ===== verification/Tr_Chars.thy ===== *)
theory Tr_Chars
  imports Tr_Props
begin

text \<open>
  The remaining forms of \<open>tr\<close>: \<open>-C\<close> in a single-byte locale, the case conversions of
  paired classes, and the operands on which the program does something else than its manual
  page says.
\<close>

section \<open>Complemented characters\<close>

lemma collect_loop_ok:
  assumes "distinct cs" "cmap_inv cm" "\<not> cm_havecache cm" "mem lc" "cm_def cm = OOBCH"
    and "Q = (\<lambda>k. image_of cm k = OOBCH \<and> iswrune lc k)"
  obtains cm' where "collect_loop lc cm cs = Inr (filter Q cs, cm')" "cmap_inv cm'" "\<not> cm_havecache cm'"
    "cm_def cm' = OOBCH" "maps cm' = (\<lambda>k. if k \<in> set cs \<and> \<not> Q k then Some k else maps cm k)"
  using assms
proof (induction cs arbitrary: cm Q thesis)
  case Nil
  then show ?case by simp
next
  case (Cons c cs)
  obtain c1 where 1: "cmap_lookup cm c = Inr (image_of cm c, c1)" "cmap_inv c1" "maps c1 = maps cm"
    "cm_def c1 = cm_def cm" "cm_havecache c1 = cm_havecache cm"
    by (rule cmap_lookup_ok [of cm c]) (use Cons.prems(3,4) in auto)
  have i1: "image_of c1 = image_of cm" by (rule image_of_cong [OF 1(3,4)])
  show ?case
  proof (cases "Q c")
    case True
    obtain c2 where 2: "collect_loop lc c1 cs = Inr (filter Q cs, c2)" "cmap_inv c2" "\<not> cm_havecache c2"
      "cm_def c2 = OOBCH" "maps c2 = (\<lambda>k. if k \<in> set cs \<and> \<not> Q k then Some k else maps c1 k)"
      by (rule Cons.IH [where cm = c1 and Q = Q]) (use Cons.prems 1 i1 in auto)
    show ?thesis
      by (rule Cons.prems(1) [of c2]) (use 1 2 True Cons.prems(7) in \<open>auto simp: fun_eq_iff\<close>)
  next
    case False
    obtain c2 where 2: "add_mapping lc c1 c c = Inr c2" "cmap_inv c2" "maps c2 = (maps c1)(c \<mapsto> c)"
      "cm_def c2 = cm_def c1" "\<not> cm_havecache c2"
      by (rule add_mapping_ok [OF Cons.prems(5) 1(2)])
    define Q2 where "Q2 = (\<lambda>k. image_of c2 k = OOBCH \<and> iswrune lc k)"
    have q: "Q2 k = Q k" if "k \<noteq> c" for k
      using that 1(3) 2(3,4) 1(4) unfolding Q2_def Cons.prems(7)
      by (simp add: image_of_def cmap_unmapped_def split: option.split)
    have "Q2 k = Q k" if "k \<in> set cs" for k using q [of k] that Cons.prems(2) by auto
    then have fq: "filter Q2 cs = filter Q cs" by (intro filter_cong refl)
    obtain c3 where 3: "collect_loop lc c2 cs = Inr (filter Q2 cs, c3)" "cmap_inv c3" "\<not> cm_havecache c3"
      "cm_def c3 = OOBCH" "maps c3 = (\<lambda>k. if k \<in> set cs \<and> \<not> Q2 k then Some k else maps c2 k)"
      by (rule Cons.IH [where cm = c2 and Q = Q2]) (use Cons.prems 1 2 Q2_def in auto)
    have m: "maps c3 = (\<lambda>k. if k \<in> set (c # cs) \<and> \<not> Q k then Some k else maps cm k)"
      using 3(5) 2(3) 1(3) False q Cons.prems(2) by (auto simp: fun_eq_iff)
    show ?thesis
      by (rule Cons.prems(1) [OF _ _ _ _ m]) (use 1 2 3 False Cons.prems(7) fq in auto)
  qed
qed

text \<open>The characters of \<open>string2\<close> in turn, the last one repeated.\<close>

definition in_turn :: "tr_str list \<Rightarrow> tr_str \<Rightarrow> nat \<Rightarrow> int list" where
  "in_turn us u' k = take k (map lastch us @ replicate k (lastch u'))"

lemma in_turn_simps [simp]:
  "in_turn us u' 0 = []"
  "in_turn (t # us) u' (Suc k) = lastch t # in_turn us u' k"
  "in_turn [] u' (Suc k) = lastch u' # in_turn [] u' k"
  by (simp_all add: in_turn_def replicate_append_same [symmetric])

lemma assign_loop_ok:
  assumes "runs lc (s2 st) us u'" "mem lc" "pst_inv lc st" "sf \<longrightarrow> (\<forall>v \<in> set (in_turn us u' (length cs)). wide v)"
  obtains st' where "assign_loop lc sf st cs = Inr st'" "pst_inv lc st'"
    "maps (cmap_of st') = (maps (cmap_of st))(cs [\<mapsto>] in_turn us u' (length cs))"
    "cm_def (cmap_of st') = cm_def (cmap_of st)"
    "exts (squeeze st') = exts (squeeze st) \<union> (if sf then set (in_turn us u' (length cs)) else {})"
  using assms
proof (induction cs arbitrary: st us thesis)
  case Nil
  then show ?case by simp
next
  case (Cons c cs)
  obtain b t vs where t: "next_ch lc (s2 st) = Inr (b, t)" "runs lc t vs u'"
    "in_turn us u' (Suc (length cs)) = lastch t # in_turn vs u' (length cs)"
  proof (cases us)
    case Nil
    then show thesis using that [of False u' "[]"] Cons.prems(2) runs_end [OF Cons.prems(2)] by auto
  qed (use that Cons.prems(2) in auto)
  let ?st = "st\<lparr>s2 := t\<rparr>"
  have inv: "pst_inv lc ?st" using Cons.prems(4) by (simp add: pst_inv_def)
  obtain st1 where P: "put_pair lc sf c (lastch t) ?st = Inr st1" "pst_inv lc st1" "s2 st1 = t"
    "maps (cmap_of st1) = (maps (cmap_of st))(c \<mapsto> lastch t)" "cm_def (cmap_of st1) = cm_def (cmap_of st)"
    "exts (squeeze st1) = exts (squeeze st) \<union> (if sf then {lastch t} else {})"
    by (rule put_pair_ok [OF Cons.prems(3) inv, of sf "lastch t" c]) (use Cons.prems(5) t(3) in auto)
  obtain st2 where R: "assign_loop lc sf st1 cs = Inr st2" "pst_inv lc st2"
    "maps (cmap_of st2) = (maps (cmap_of st1))(cs [\<mapsto>] in_turn vs u' (length cs))"
    "cm_def (cmap_of st2) = cm_def (cmap_of st1)"
    "exts (squeeze st2) = exts (squeeze st1) \<union> (if sf then set (in_turn vs u' (length cs)) else {})"
    by (rule Cons.IH [where st = st1 and us = vs]) (use t(2,3) Cons.prems(3,5) P(2,3) in auto)
  show ?case
    by (rule Cons.prems(1) [of st2]) (use t(1,3) P R in auto)
qed

lemma map_upds_map: "(m(cs [\<mapsto>] map f cs)) k = (if k \<in> set cs then Some (f k) else m k)"
proof (induction cs arbitrary: m)
  case (Cons c cs)
  then show ?case by (simp add: map_upds_apply_nontin)
qed simp

lemma sorted_filter_nth:
  assumes "Q k" "0 \<le> k" "k \<le> n"
  shows "card {i. 0 \<le> i \<and> i < k \<and> Q i} < length (filter Q [0..n]) \<and>
    filter Q [0..n] ! card {i. 0 \<le> i \<and> i < (k :: int) \<and> Q i} = k"
proof -
  have s: "[0..n] = [0..k - 1] @ k # [k + 1..n]"
    using upto_split2 [of 0 k n] upto_rec1 [of k n] assms by (simp add: upto_split3)
  have "set (filter Q [0..k - 1]) = {i. 0 \<le> i \<and> i < k \<and> Q i}" by auto
  moreover have "distinct (filter Q [0..k - 1])" by simp
  ultimately have "card {i. 0 \<le> i \<and> i < k \<and> Q i} = length (filter Q [0..k - 1])"
    by (metis distinct_card)
  then show ?thesis using assms(1) by (simp add: s nth_append)
qed

lemma in_turn_positions:
  assumes "\<And>k. Q k \<Longrightarrow> im k = nth_or (map lastch us) (lastch u') (card {i. 0 \<le> i \<and> i < k \<and> Q i})"
  shows "in_turn us u' (length (filter Q [0..n])) = map im (filter Q [0..(n :: int)])"
proof (rule nth_equalityI)
  fix j assume "j < length (in_turn us u' (length (filter Q [0..n])))"
  then have j: "j < length (filter Q [0..n])" by (simp add: in_turn_def)
  define k where "k = filter Q [0..n] ! j"
  have "k \<in> set (filter Q [0..n])" unfolding k_def by (rule nth_mem [OF j])
  then have k: "Q k" "0 \<le> k" "k \<le> n" by auto
  note p = sorted_filter_nth [of Q k n, OF k]
  have "distinct (filter Q [0..n])" by simp
  then have "card {i. 0 \<le> i \<and> i < k \<and> Q i} = j"
    using p j nth_eq_iff_index_eq [of "filter Q [0..n]"] unfolding k_def by blast
  moreover have "in_turn us u' (length (filter Q [0..n])) ! j = nth_or (map lastch us) (lastch u') j"
    using j by (simp add: in_turn_def nth_or_def nth_append)
  ultimately show "in_turn us u' (length (filter Q [0..n])) ! j = map im (filter Q [0..n]) ! j"
    using assms [OF k(1)] j by (simp add: k_def)
qed (simp add: in_turn_def)

lemma iswrune_C: "iswrune c_locale k \<longleftrightarrow> 0 \<le> k \<and> k < 128"
  by (simp add: iswrune_def c_locale_def c_iswctype_def class_names_def)

text \<open>What \<open>complement_chars\<close> makes of the map of two strings.\<close>

lemma complement_chars_ok:
  assumes st: "pst_inv c_locale st" "cm_def (cmap_of st) = OOBCH" "dom (maps (cmap_of st)) = X"
    "OOBCH \<notin> ran (maps (cmap_of st))"
    and run: "runs c_locale ((s2 st)\<lparr>str := arg, state := NORMAL\<rparr>) us u'"
    and b: "\<forall>v \<in> set (map lastch us @ [lastch u']). wide v"
    and im: "im = (\<lambda>k. if 0 \<le> k \<and> k < 128 \<and> k \<notin> X
       then nth_or (map lastch us) (lastch u') (card {i. 0 \<le> i \<and> i < k \<and> i \<notin> X}) else k)"
  obtains st' where "complement_chars c_locale sf arg st = Inr st'" "pst_inv c_locale st'"
    "\<forall>k. byte k \<longrightarrow> sent (iswrune c_locale) (image_of (cmap_of st')) k = im k"
    "exts (squeeze st') = exts (squeeze st) \<union> (if sf then im ` {k. 0 \<le> k \<and> k < 128 \<and> k \<notin> X} else {})"
proof -
  define Q where "Q = (\<lambda>k. image_of (cmap_of st) k = OOBCH \<and> iswrune c_locale k)"
  have Q: "Q k \<longleftrightarrow> 0 \<le> k \<and> k < 128 \<and> k \<notin> X" for k
    using st(2-4) by (auto simp: Q_def image_of_def cmap_unmapped_def iswrune_C ran_def domIff split: option.split)
  obtain cm where C: "collect_loop c_locale (cmap_of st) [0..int NCHARS_SB - 1] = Inr (filter Q [0..int NCHARS_SB - 1], cm)"
    "cmap_inv cm" "\<not> cm_havecache cm" "cm_def cm = OOBCH"
    "maps cm = (\<lambda>k. if k \<in> set [0..int NCHARS_SB - 1] \<and> \<not> Q k then Some k else maps (cmap_of st) k)"
    by (rule collect_loop_ok [of "[0..int NCHARS_SB - 1]" "cmap_of st" c_locale Q])
      (use st Q_def in \<open>auto simp: pst_inv_def simp del: upto_rec_numeral\<close>)
  let ?ca = "filter Q [0..255]"
  let ?st = "st\<lparr>cmap_of := cm, s2 := (s2 st)\<lparr>str := arg, state := NORMAL\<rparr>\<rparr>"
  have srt: "(if 1 < length ?ca then mergesort c_locale ?ca else ?ca) = ?ca"
    using mergesort_C [of ?ca] sorted_filter [of id "[0..255]" Q]
    by (auto simp: byte_def simp del: upto_rec_numeral)
  have card: "card {i. 0 \<le> i \<and> i < k \<and> i \<notin> X} = card {i. 0 \<le> i \<and> i < k \<and> Q i}" if "k < 128" for k
    using that by (intro arg_cong [of _ _ card]) (auto simp: Q)
  have turn: "in_turn us u' (length ?ca) = map im ?ca"
    by (rule in_turn_positions) (use card in \<open>simp add: im Q\<close>)
  have w: "sf \<longrightarrow> (\<forall>v \<in> set (in_turn us u' (length ?ca)). wide v)"
    using b by (auto simp: in_turn_def simp del: upto_rec_numeral dest!: in_set_takeD)
  have inv: "pst_inv c_locale ?st" using st(1) C by (simp add: pst_inv_def)
  obtain st' where A: "assign_loop c_locale sf ?st ?ca = Inr st'" "pst_inv c_locale st'"
    "maps (cmap_of st') = (maps cm)(?ca [\<mapsto>] map im ?ca)" "cm_def (cmap_of st') = OOBCH"
    "exts (squeeze st') = exts (squeeze st) \<union> (if sf then set (map im ?ca) else {})"
    by (rule assign_loop_ok [of c_locale ?st us u' sf ?ca])
      (use run inv w turn C(4) in \<open>simp_all del: upto_rec_numeral\<close>)
  have cc: "complement_chars c_locale sf arg st = Inr st'"
    using C(1) A(1) srt by (simp add: complement_chars_def del: upto_rec_numeral)
  have ex: "set (map im ?ca) = im ` {k. 0 \<le> k \<and> k < 128 \<and> k \<notin> X}"
    by (auto simp: Q simp del: upto_rec_numeral)
  have "sent (iswrune c_locale) (image_of (cmap_of st')) k = im k" if "byte k" for k
    using that A(3) C(5)
    by (auto simp: sent_def image_of_def map_upds_map iswrune_C im Q byte_def simp del: upto_rec_numeral)
  then show thesis using that cc A(2,5) ex by simp
qed

text \<open>\<open>tr -C [-s] string1 string2\<close> in the single-byte locale keeps the characters of
  \<open>string1\<close> and the bytes that are no characters, and replaces every other character, in
  increasing order, by the characters of \<open>string2\<close> in turn, the last one from then on.\<close>

theorem tr_complements_characters:
  assumes "list_all item_ok its" "list_all item_ok jts" "expand_items jts \<noteq> []" "\<not> list_ex letter_case its"
    and "2 * length (expand_items its) < n" "\<forall>c \<in> set inp. byte c"
    and "X = set (expand_items its)" "ys = expand_items jts"
    and "im = (\<lambda>k. if 0 \<le> k \<and> k < 128 \<and> k \<notin> X
       then nth_or ys (last ys) (card {i. 0 \<le> i \<and> i < k \<and> i \<notin> X}) else k)"
    and "sq = set (padded ys (length (expand_items its))) \<union> im ` {k. 0 \<le> k \<and> k < 128 \<and> k \<notin> X}"
  shows "tr_main n c_locale [''-C'', render_items its, render_items jts] inp fe = Some (Inr (map im inp, fe)) \<and>
    tr_main n c_locale [''-Cs'', render_items its, render_items jts] inp fe =
      Some (Inr (squeezed sq OOBCH (map im inp), fe))"
proof -
  obtain ts s' where T: "runs c_locale ((STR_init STRING1)\<lparr>str := render_items its\<rparr>) ts s'"
    "map lastch ts = expand_items its" "list_all (\<lambda>t. list_ex letter_case its \<or> no_case t) ts"
    by (rule operand_run [OF assms(1)])
  have len: "length ts = length (expand_items its)" using T(2) by (metis length_map)
  have nc: "\<forall>t \<in> set ts. no_case t" using T(3) assms(4) by (simp add: list_all_iff)
  obtain u us u' where U: "runs c_locale ((STR_init STRING2)\<lparr>str := render_items jts\<rparr>) (u # us) u'"
    "map lastch (u # us) = expand_items jts" "lastch u' = last (expand_items jts)"
    by (rule string2_run [OF assms(2,3)])
  let ?zs = "padded ys (length (expand_items its))"
  have zs: "?zs = offered u us u' (length ts)" using offered_padded [OF U(2,3)] assms(8) len by simp
  have yb: "\<forall>v \<in> set ys. byte v" using items_bytes [OF assms(2)] assms(8) by simp
  have zb: "\<forall>v \<in> set ?zs. byte v" using set_padded [of ys] yb assms(3,8) by blast
  have imb: "byte (im k)" if "byte k" for k
    using that yb assms(3,8) by (auto simp: assms(9) nth_or_def)
  have tr: "translate n c_locale o1 (render_items its) (render_items jts) inp =
      Some (Inr (if sflag o1 then squeezed sq OOBCH (map im inp) else map im inp))" if fl: "Cflag o1" "\<not> cflag o1" for o1
  proof -
    have w: "sflag o1 \<longrightarrow> (\<forall>v \<in> set ?zs. wide v)" using zb byte_bounds by blast
    have n: "2 * length ts < n" using assms(5) len by simp
    obtain st where st: "pst_inv c_locale st" "maps (cmap_of st) = paired (map lastch ts) ?zs"
      "cm_def (cmap_of st) = OOBCH" "exts (squeeze st) = (if sflag o1 then set ?zs else {})"
      "build_map n c_locale o1 (render_items its) (render_items jts)
         = Some (complement_chars c_locale (sflag o1) (render_items jts) st)"
      by (rule build_pairs [OF T(1) U(1) n _ nc zs w]) (use fl in simp_all)
    have "rest_gives (\<lambda>_. True) (render_items jts) (expand_items jts)" by (rule items_give [OF assms(2)]) simp
    then have "gives (\<lambda>_. True) ((s2 st)\<lparr>str := render_items jts, state := NORMAL\<rparr>) (expand_items jts)"
      by (simp add: rest_gives_def)
    then obtain ws w where ws: "runs c_locale ((s2 st)\<lparr>str := render_items jts, state := NORMAL\<rparr>) ws w"
      "map lastch ws = ys" "lastch w = last ys"
      using assms(3,8) by (auto simp: gives_def)
    have b: "\<forall>v \<in> set (map lastch ws @ [lastch w]). wide v"
      using yb byte_bounds assms(3,8) unfolding ws(2,3) by auto
    have dom: "dom (maps (cmap_of st)) = X"
      unfolding st(2) T(2) assms(7) by (rule dom_paired) (simp add: zs len)
    have ran: "OOBCH \<notin> ran (maps (cmap_of st))"
      using ran_paired [of "map lastch ts" ?zs] zb unfolding st(2) by (force simp: byte_def)
    have imq: "im = (\<lambda>k. if 0 \<le> k \<and> k < 128 \<and> k \<notin> X
        then nth_or (map lastch ws) (lastch w) (card {i. 0 \<le> i \<and> i < k \<and> i \<notin> X}) else k)"
      unfolding ws(2,3) by (rule assms(9))
    obtain st' where S: "complement_chars c_locale (sflag o1) (render_items jts) st = Inr st'" "pst_inv c_locale st'"
      "\<forall>k. byte k \<longrightarrow> sent (iswrune c_locale) (image_of (cmap_of st')) k = im k"
      "exts (squeeze st') = exts (squeeze st) \<union> (if sflag o1 then im ` {k. 0 \<le> k \<and> k < 128 \<and> k \<notin> X} else {})"
      by (rule complement_chars_ok [OF st(1,3) dom ran ws(1) b imq])
    have th: "iswrune c_locale = (\<lambda>ch. \<not> Cflag o1 \<or> iswrune c_locale ch)" using fl by simp
    have me: "map (sent (iswrune c_locale) (image_of (cmap_of st'))) inp = map im inp" using S(3) assms(6) by simp
    have "translate n c_locale o1 (render_items its) (render_items jts) inp =
        (let out = map (sent (iswrune c_locale) (image_of (cmap_of st'))) inp in
         Some (Inr (if sflag o1 then squeezed (exts (squeeze st')) OOBCH out else out)))"
      by (rule translate_copies [OF _ S(2) _ _ th])
        (use st(5) S(1,3) assms(6) imb in \<open>auto simp: byte_def\<close>)
    then show ?thesis unfolding me Let_def S(4) st(4) by (simp add: assms(10))
  qed
  show ?thesis
    using tr_main_flags [OF assms(1), of "''C''"] tr_main_flags [OF assms(1), of "''Cs''"]
    by (simp add: tr_copy_def Let_def tr)
qed

theorem tr_complements_characters_witness:
  "tr_main 10 c_locale [''-C'', ''a'', ''x''] [97, 98, 200] False = Some (Inr ([97, 120, 200], False))"
  using tr_complements_characters [OF demo_operands(5,6) _ _ _ _ refl refl refl refl, of 10 "[97, 98, 200]" False] unfolding demo_operands(1-4)
  by (simp add: letter_case_def nth_or_single byte_def)

section \<open>Case conversion\<close>

text \<open>A class at the end of \<open>string1\<close> paired with its opposite: every remaining member is
  mapped to its counterpart, then \<open>string1\<close> ends.\<close>

lemma case_loop_class:
  assumes "mem lc" "lc = c_locale"
  shows "state (s1 st) = cc \<Longrightarrow> is_class cc \<Longrightarrow> str (s1 st) = [] \<Longrightarrow> cclass (s1 st) = k \<Longrightarrow>
    filter (\<lambda>c. c_iswctype c k) [lastch (s1 st) + 1..255] = xs \<Longrightarrow> -1 \<le> lastch (s1 st) \<Longrightarrow>
    1 \<le> cnt (s1 st) \<Longrightarrow> cnt (s1 st) \<le> lastch (s1 st) + 1 \<Longrightarrow> lastch (s1 st) < 256 \<Longrightarrow>
    pst_inv lc st \<Longrightarrow> length xs < n \<Longrightarrow>
    \<exists>st'. case_loop n lc False tow isw cc st = Some (Inr (False, st')) \<and> pst_inv lc st' \<and>
      maps (cmap_of st') = (maps (cmap_of st))(lastch (s1 st) # xs [\<mapsto>] map tow (lastch (s1 st) # xs)) \<and>
      cm_def (cmap_of st') = cm_def (cmap_of st)"
proof (induction xs arbitrary: st n)
  case Nil
  let ?c = "lastch (s1 st)"
  obtain st1 where P: "put_pair lc False ?c (tow ?c) st = Inr st1" "pst_inv lc st1" "s1 st1 = s1 st"
    "maps (cmap_of st1) = (maps (cmap_of st))(?c \<mapsto> tow ?c)" "cm_def (cmap_of st1) = cm_def (cmap_of st)"
    by (rule put_pair_ok [OF assms(1) Nil.prems(10), of False "tow ?c" ?c]) simp
  have "nextwctype c_locale ?c k = -1" using Nil.prems(5) by (simp add: c_locale_def c_nextwctype_def)
  then have "\<exists>t. next_ch lc (s1 st) = Inr (False, t)"
    using Nil.prems(1-4,6-9) assms(2) by (auto simp: next_ch.simps)
  then obtain t where "next_ch lc (s1 st) = Inr (False, t)" by blast
  then show ?case using P Nil.prems(11) by (cases n) (auto simp: pst_inv_def)
next
  case (Cons x xs)
  let ?c = "lastch (s1 st)"
  obtain m where n: "n = Suc m" "length xs < m" using Cons.prems(11) by (cases n) auto
  obtain st1 where P: "put_pair lc False ?c (tow ?c) st = Inr st1" "pst_inv lc st1" "s1 st1 = s1 st"
    "maps (cmap_of st1) = (maps (cmap_of st))(?c \<mapsto> tow ?c)" "cm_def (cmap_of st1) = cm_def (cmap_of st)"
    by (rule put_pair_ok [OF assms(1) Cons.prems(10), of False "tow ?c" ?c]) simp
  note x = filter_upto_Cons [OF Cons.prems(5)]
  let ?t = "(s1 st)\<lparr>cnt := cnt (s1 st) + 1, lastch := x\<rparr>"
  let ?st = "st1\<lparr>s1 := ?t\<rparr>"
  have "nextwctype c_locale ?c k = x" using Cons.prems(5) by (simp add: c_locale_def c_nextwctype_def)
  then have nx: "next_ch lc (s1 st) = Inr (True, ?t)"
    using Cons.prems(1-4,6-9) x assms(2) by (intro next_class) auto
  have step: "case_loop n lc False tow isw cc st = case_loop m lc False tow isw cc ?st"
    using P nx Cons.prems(1,7) n by simp
  have inv: "pst_inv lc ?st" using P(2) by (simp add: pst_inv_def)
  have "\<exists>st'. case_loop m lc False tow isw cc ?st = Some (Inr (False, st')) \<and> pst_inv lc st' \<and>
      maps (cmap_of st') = (maps (cmap_of ?st))(lastch (s1 ?st) # xs [\<mapsto>] map tow (lastch (s1 ?st) # xs)) \<and>
      cm_def (cmap_of st') = cm_def (cmap_of ?st)"
    by (rule Cons.IH) (use Cons.prems x inv n(2) in auto)
  then show ?case using step P(4,5) by auto
qed

text \<open>The whole of \<open>build_map\<close> when the two operands are the two classes.\<close>

lemma build_case_map:
  assumes "26 < n"
    and "next_ch c_locale ((STR_init STRING1)\<lparr>str := arg1\<rparr>) = Inr (True, t1)"
    and "next_ch c_locale ((STR_init STRING2)\<lparr>str := arg2\<rparr>) = Inr (True, t2)"
    and "state t1 = c1" "state t2 = c2" "cnt t1 = 1" "cnt t2 = 1" "str t1 = []" "cclass t1 = k"
    and "(c1, c2, tow) = (CCLASS_LOWER, CCLASS_UPPER, towupper c_locale) \<or>
         (c1, c2, tow) = (CCLASS_UPPER, CCLASS_LOWER, towlower c_locale)"
    and "filter (\<lambda>c. c_iswctype c k) [0..255] = lastch t1 # xs" "length xs = 25"
    and "o1 = \<lparr>Cflag = False, cflag = False, dflag = False, sflag = False\<rparr>"
  obtains st where "build_map (Suc (Suc n)) c_locale o1 arg1 arg2 = Some (Inr st)" "pst_inv c_locale st"
    "image_of (cmap_of st) = (\<lambda>c. if c \<in> set (lastch t1 # xs) then tow c else c)"
proof -
  note x = filter_upto_Cons [OF assms(11)]
  let ?st = "\<lparr>s1 = t1, s2 = t2, cmap_of = cmap_alloc, squeeze = cset_alloc\<rparr>"
  have inv: "pst_inv c_locale ?st" by (simp add: pst_inv_def)
  have ex: "\<exists>st'. case_loop n c_locale False tow isw c1 ?st = Some (Inr (False, st')) \<and> pst_inv c_locale st' \<and>
      maps (cmap_of st') = (maps (cmap_of ?st))(lastch (s1 ?st) # xs [\<mapsto>] map tow (lastch (s1 ?st) # xs)) \<and>
      cm_def (cmap_of st') = cm_def (cmap_of ?st)" for isw
    by (rule case_loop_class [of c_locale _ _ k])
      (use assms(1,4,6,8,9,10,12) x inv in \<open>auto simp del: upto_rec_numeral\<close>)
  define isw where "isw = (if c1 = CCLASS_LOWER then iswupper c_locale else iswlower c_locale)"
  have cp: "case_pair c1 c2 ?st" using assms(4-7) by (simp add: case_pair_def)
  have isw: "pair_loop (Suc n) c_locale False True ?st =
      bind_run (case_loop n c_locale False tow isw c1 ?st) (\<lambda>(go_on, st1).
          if \<not> go_on then Some (Inr st1)
          else bind_run (skip_loop n c_locale c2 (s2 st1)) (\<lambda>t.
            pair_loop n c_locale False True (st1\<lparr>s2 := t\<rparr>)))"
    using assms(10) cp by (elim disjE) (clarsimp simp: case_pair_def isw_def)+
  obtain st' where S: "case_loop n c_locale False tow isw c1 ?st = Some (Inr (False, st'))" "pst_inv c_locale st'"
    "maps (cmap_of st') = Map.empty(lastch t1 # xs [\<mapsto>] map tow (lastch t1 # xs))"
    "cm_def (cmap_of st') = CM_DEF_SELF"
    using ex [of isw] by auto
  have "build_map (Suc (Suc n)) c_locale o1 arg1 arg2 = Some (Inr st')"
    using assms(2,3,13) isw S(1) by (simp add: build_map_def Let_def)
  moreover have "image_of (cmap_of st') = (\<lambda>c. if c \<in> set (lastch t1 # xs) then tow c else c)"
    by (rule HOL.ext) (simp only: image_of_def S(3) map_upds_map cmap_unmapped_def S(4), simp)
  ultimately show thesis using that S(2) by blast
qed

lemma next_class_C:
  assumes "nm \<in> set (take 13 class_names)" "filter (\<lambda>c. c_iswctype c (index_of nm class_names)) [0..255] = x # xs"
  shows "next_ch c_locale ((STR_init w)\<lparr>str := ''[:'' @ nm @ '':]''\<rparr>) = Inr (True, (STR_init w)\<lparr>str := [],
    cclass := index_of nm class_names, cnt := 1, lastch := x,
    state := (if nm = ''upper'' then CCLASS_UPPER else if nm = ''lower'' then CCLASS_LOWER else CCLASS)\<rparr>)"
proof -
  let ?s = "(STR_init w)\<lparr>str := ''[:'' @ nm @ '':]''\<rparr>"
  define cc where "cc = (if nm = ''upper'' then CCLASS_UPPER else if nm = ''lower'' then CCLASS_LOWER else CCLASS)"
  let ?t = "?s\<lparr>str := [], cclass := index_of nm class_names, cnt := 0, lastch := -1, state := cc\<rparr>"
  have B: "bracket c_locale ?s = Inr (True, ?t)" unfolding cc_def by (rule bracket_class [OF _ assms(1)]) simp
  then have "next_normal c_locale ?s = Inr (True, ?t)" by (simp add: next_normal_def)
  moreover have cc: "is_class cc" by (simp add: cc_def)
  ultimately have n: "next_ch c_locale ?s = next_ch c_locale ?t"
    using next_NORMAL [of ?s "CHR ''[''" "CHR '':'' # nm @ '':]''" c_locale] by simp
  have "nextwctype c_locale (-1) (index_of nm class_names) = x"
    using assms(2) by (simp add: c_locale_def c_nextwctype_def)
  moreover have "x \<noteq> -1" using filter_upto_Cons [OF assms(2)] by auto
  ultimately have "next_ch c_locale ?t = Inr (True, ?t\<lparr>cnt := 1, lastch := x\<rparr>)"
    using cc next_class [of ?t c_locale x] by simp
  then show ?thesis unfolding n by (simp add: cc_def [symmetric])
qed

lemma letters_C:
  "filter (\<lambda>c. c_iswctype c (index_of ''lower'' class_names)) [0..255] = 97 # [98..122]"
  "filter (\<lambda>c. c_iswctype c (index_of ''upper'' class_names)) [0..255] = 65 # [66..90]"
  using filter_upto_between [of 97 122 255] filter_upto_between [of 65 90 255]
  by (simp_all add: c_iswctype_def class_names_def upto_rec1 [of 97] upto_rec1 [of 65] del: upto_rec_numeral)

text \<open>C28: \<open>tr '[:lower:]' '[:upper:]'\<close> applies \<open>towupper\<close> to every character, and with
  the operands exchanged \<open>towlower\<close>.\<close>

theorem tr_converts_case:
  assumes "28 < n" "\<forall>c \<in> set inp. 0 \<le> c"
  shows "tr_main n c_locale [''[:lower:]'', ''[:upper:]''] inp fe = Some (Inr (map (towupper c_locale) inp, fe)) \<and>
    tr_main n c_locale [''[:upper:]'', ''[:lower:]''] inp fe = Some (Inr (map (towlower c_locale) inp, fe))"
proof -
  let ?o = "\<lparr>Cflag = False, cflag = False, dflag = False, sflag = False\<rparr>"
  have "n = Suc (Suc (n - 2))" "26 < n - 2" using assms(1) by auto
  then obtain m where n: "n = Suc (Suc m)" "26 < m" by blast
  have lo: "''lower'' \<in> set (take 13 class_names)" and up: "''upper'' \<in> set (take 13 class_names)"
    by (simp_all add: class_names_def)
  define lw where "lw w = (STR_init w)\<lparr>str := [], cclass := 2, cnt := 1, lastch := 97, state := CCLASS_LOWER\<rparr>" for w
  define uw where "uw w = (STR_init w)\<lparr>str := [], cclass := 1, cnt := 1, lastch := 65, state := CCLASS_UPPER\<rparr>" for w
  have L: "next_ch c_locale ((STR_init w)\<lparr>str := ''[:lower:]''\<rparr>) = Inr (True, lw w)" for w
    using next_class_C [OF lo letters_C(1), of w] by (simp add: class_names_def lw_def)
  have U: "next_ch c_locale ((STR_init w)\<lparr>str := ''[:upper:]''\<rparr>) = Inr (True, uw w)" for w
    using next_class_C [OF up letters_C(2), of w] by (simp add: class_names_def uw_def)
  have lt: "filter (\<lambda>c. c_iswctype c 2) [0..255] = 97 # [98..122]" "filter (\<lambda>c. c_iswctype c 1) [0..255] = 65 # [66..90]"
    using letters_C by (simp_all add: class_names_def numeral_2_eq_2 del: upto_rec_numeral)
  obtain st where S: "build_map n c_locale ?o ''[:lower:]'' ''[:upper:]'' = Some (Inr st)" "pst_inv c_locale st"
    "image_of (cmap_of st) = (\<lambda>c. if c \<in> set (97 # [98..122]) then towupper c_locale c else c)"
    by (rule build_case_map [OF n(2) L U, where ?o1.0 = ?o and k = 2 and xs = "[98..122]" and tow = "towupper c_locale"
          and ?c1.0 = CCLASS_LOWER and ?c2.0 = CCLASS_UPPER])
      (use lt in \<open>simp_all add: lw_def uw_def n(1) del: upto_rec_numeral\<close>)
  obtain st' where S': "build_map n c_locale ?o ''[:upper:]'' ''[:lower:]'' = Some (Inr st')" "pst_inv c_locale st'"
    "image_of (cmap_of st') = (\<lambda>c. if c \<in> set (65 # [66..90]) then towlower c_locale c else c)"
    by (rule build_case_map [OF n(2) U L, where ?o1.0 = ?o and k = 1 and xs = "[66..90]" and tow = "towlower c_locale"
          and ?c1.0 = CCLASS_UPPER and ?c2.0 = CCLASS_LOWER])
      (use lt in \<open>simp_all add: lw_def uw_def n(1) del: upto_rec_numeral\<close>)
  have im: "sent (\<lambda>_. True) (image_of (cmap_of st)) = towupper c_locale"
    "sent (\<lambda>_. True) (image_of (cmap_of st')) = towlower c_locale"
    by (rule HOL.ext, simp add: sent_def S(3) S'(3) c_locale_def del: upto_rec_numeral)+
  have th: "(\<lambda>_. True) = (\<lambda>ch. \<not> Cflag ?o \<or> iswrune c_locale ch)" by simp
  have T: "translate n c_locale ?o ''[:lower:]'' ''[:upper:]'' inp = Some (Inr (map (towupper c_locale) inp))"
    "translate n c_locale ?o ''[:upper:]'' ''[:lower:]'' inp = Some (Inr (map (towlower c_locale) inp))"
    using translate_copies [OF S(1,2) assms(2) _ th] translate_copies [OF S'(1,2) assms(2) _ th] unfolding im
    by (simp_all add: Let_def)
  show ?thesis using T by (simp add: tr_main_def getopt.simps tr_copy_def Let_def)
qed

theorem tr_converts_case_witness:
  "tr_main 40 c_locale [''[:lower:]'', ''[:upper:]''] [104, 73] False = Some (Inr ([72, 73], False))"
  using tr_converts_case [of 40 "[104, 73]" False] by (simp add: c_locale_eval)

end
