(* ===== verification/Tr_Safe.thy ===== *)
theory Tr_Safe
  imports Tr_Chars
begin

text \<open>
  Memory safety of the operand scanner in the \<open>C\<close> locale: from a well-formed state, a call
  of \<open>next\<close> stays inside the string and the arrays and overflows no counter, provided the
  string does not end in an opening bracket; it leaves a well-formed state. And the operands
  that show the limits of the code.
\<close>

section \<open>Well-formed operand strings\<close>

text \<open>The part that does not depend on the state: the array \<open>equiv\<close> has its size and a
  terminator behind its first entry, and the string does not end in a bracket.\<close>

definition str_base :: "tr_str \<Rightarrow> bool" where
  "str_base s \<longleftrightarrow> length (equiv s) = NCHARS_SB \<and> OOBCH \<in> set (tl (equiv s)) \<and>
     (str s \<noteq> [] \<longrightarrow> last (str s) \<noteq> CHR ''['')"

fun counters_ok :: "str_state \<Rightarrow> int \<Rightarrow> int \<Rightarrow> int list \<Rightarrow> bool" where
  "counters_ok RANGE n l cs \<longleftrightarrow> 0 \<le> n \<and> -1 \<le> l \<and> l + n \<le> 511"
| "counters_ok SEQUENCE n l cs \<longleftrightarrow> 0 \<le> n \<and> n \<le> 2 ^ 31 - 1"
| "counters_ok SET n l cs \<longleftrightarrow> 0 \<le> n \<and> OOBCH \<in> set (drop (nat n) cs)"
| "counters_ok CCLASS n l cs \<longleftrightarrow> -1 \<le> l \<and> l \<le> 255 \<and> 0 \<le> n \<and> n \<le> l + 1"
| "counters_ok CCLASS_UPPER n l cs \<longleftrightarrow> -1 \<le> l \<and> l \<le> 255 \<and> 0 \<le> n \<and> n \<le> l + 1"
| "counters_ok CCLASS_LOWER n l cs \<longleftrightarrow> -1 \<le> l \<and> l \<le> 255 \<and> 0 \<le> n \<and> n \<le> l + 1"
| "counters_ok _ n l cs \<longleftrightarrow> True"

definition str_ok :: "tr_str \<Rightarrow> bool" where
  "str_ok s \<longleftrightarrow> str_base s \<and> counters_ok (state s) (cnt s) (lastch s) (chars s)"

text \<open>A result is safe when it is a diagnostic or satisfies \<open>P\<close>.\<close>

definition safe :: "('a \<Rightarrow> bool) \<Rightarrow> tr_stop + 'a \<Rightarrow> bool" where
  "safe P r \<longleftrightarrow> (case r of Inl e \<Rightarrow> \<exists>d. e = Stop d | Inr a \<Rightarrow> P a)"

lemma safe_simps [simp]: "safe P (Inl e) \<longleftrightarrow> (\<exists>d. e = Stop d)" "safe P (Inr a) \<longleftrightarrow> P a"
  by (simp_all add: safe_def)

lemma safe_bind: "safe P r \<Longrightarrow> (\<And>a. P a \<Longrightarrow> safe Q (f a)) \<Longrightarrow> safe Q (bind_r r f)"
  by (cases r) auto

lemma safe_if: "(c \<Longrightarrow> safe P x) \<Longrightarrow> (\<not> c \<Longrightarrow> safe P y) \<Longrightarrow> safe P (if c then x else y)"
  by simp

text \<open>Advancing keeps the base part.\<close>

definition advances :: "tr_str \<Rightarrow> tr_str \<Rightarrow> bool" where
  "advances s t \<longleftrightarrow> (\<exists>n. str t = drop n (str s)) \<and> equiv t = equiv s"

lemma advances_base: "advances s t \<Longrightarrow> str_base s \<Longrightarrow> str_base t"
  by (auto simp: advances_def str_base_def last_drop)

lemma octal_parts:
  "octal cs n val = (m, v, rest) \<Longrightarrow> 0 \<le> val \<Longrightarrow> val < 8 ^ n \<Longrightarrow> n < 3 \<Longrightarrow>
     (\<exists>k. rest = drop k cs) \<and> 0 \<le> v \<and> v \<le> 511"
proof (induction cs n val rule: octal.induct)
  case (1 n val)
  have "(8 :: int) ^ n \<le> 8 ^ 2" using 1 by (intro power_increasing) auto
  with 1 show ?case by auto
next
  case (2 c cs n val)
  have d: "digit_val c < 8" if "is_octal_digit c" using that by (simp add: is_octal_digit_def)
  have p: "(8 :: int) ^ n \<le> 8 ^ 2" using 2(5) by (intro power_increasing) auto
  consider "\<not> is_octal_digit c" | "is_octal_digit c" "Suc n = 3" | "is_octal_digit c" "Suc n \<noteq> 3" by blast
  then show ?case
  proof cases
    case 1
    with 2 p show ?thesis by (auto intro!: exI [of _ 0])
  next
    case c2: 2
    with d [OF c2(1)] p "2.prems" show ?thesis by (auto intro!: exI [of _ 1])
  next
    case 3
    have lt: "val * 8 + int (digit_val c) < 8 ^ Suc n" using "2.prems"(3) d [OF 3(1)] by simp
    have "octal cs (Suc n) (val * 8 + int (digit_val c)) = (m, v, rest)" using "2.prems"(1) 3 by simp
    then have "(\<exists>k. rest = drop k cs) \<and> 0 \<le> v \<and> v \<le> 511"
      using "2.IH" 3 "2.prems"(2,4) lt by auto
    then show ?thesis by (metis drop_Suc_Cons)
  qed
qed

lemma backslash_safe:
  assumes "backslash s = (v, oct, t)"
  shows "advances s t" "0 \<le> v" "v \<le> 511" "chars t = chars s" "state t = EOS \<or> state t = state s"
    "lastch t = lastch s" "cnt t = cnt s"
proof -
  obtain m val rest where O: "octal (tl (str s)) 0 0 = (m, val, rest)" by (metis prod_cases3)
  then obtain k where k: "rest = drop k (tl (str s))" "0 \<le> val" "val \<le> 511"
    using octal_parts [OF O] by auto
  have d: "drop k (tl (str s)) = drop (Suc k) (str s)" by (simp add: drop_Suc)
  have b: "(of_char a :: int) \<le> 511" "0 \<le> (of_char a :: int)" for a
    using byte_of_char [of a] by (simp_all add: byte_def)
  show "advances s t"
  proof (cases "m = 0")
    case False
    then show ?thesis using assms O k d by (auto simp: backslash_def advances_def)
  next
    case True
    have "\<exists>n. c = drop n (str s)" if "drop (Suc k) (str s) = x # c" for x c
      using that by (metis drop_Suc list.sel(3) tl_drop)
    moreover have "\<exists>n. [] = drop n (str s)" by (intro exI [of _ "length (str s)"]) simp
    ultimately show ?thesis using assms O k d True
      by (auto simp: backslash_def advances_def split: list.splits)
  qed
  show "0 \<le> v" "v \<le> 511" "chars t = chars s" "state t = EOS \<or> state t = state s" "lastch t = lastch s" "cnt t = cnt s"
    using assms O k b by (auto simp: backslash_def escape_def split: if_splits list.splits)
qed

lemma get_wc_safe: "safe (\<lambda>(wc, clen). 0 \<le> wc \<and> wc \<le> 255 \<and> clen \<le> length (str s)) (get_wc c_locale z s)"
proof (cases "str s")
  case (Cons a r)
  then show ?thesis using get_wc_C [OF Cons] byte_of_char [of a] by (simp add: byte_def)
qed (simp add: get_wc_def c_locale_def EILSEQ_def)

lemma get_char_safe:
  "safe (\<lambda>(v, oct, t). advances s t \<and> 0 \<le> v \<and> v \<le> 511 \<and> (state t = EOS \<or> state t = state s) \<and>
     chars t = chars s \<and> lastch t = lastch s \<and> cnt t = cnt s) (get_char c_locale s)"
proof (cases "str s \<noteq> [] \<and> hd (str s) = CHR 0x5C")
  case True
  then show ?thesis using backslash_safe by (cases "backslash s") (auto simp: get_char_def)
next
  case False
  have "safe (\<lambda>(v, oct, t). advances s t \<and> 0 \<le> v \<and> v \<le> 511 \<and> (state t = EOS \<or> state t = state s) \<and>
      chars t = chars s \<and> lastch t = lastch s \<and> cnt t = cnt s)
     (bind_r (get_wc c_locale True s) (\<lambda>(wc, clen). Inr (wc, False, s\<lparr>str := drop clen (str s)\<rparr>)))"
    by (rule safe_bind [OF get_wc_safe]) (auto simp: advances_def)
  then show ?thesis unfolding get_char_def if_not_P [OF False] .
qed

lemma genrange_safe:
  assumes "str_base s" "0 \<le> lastch s" "lastch s \<le> 511" "state s = NORMAL \<or> state s = EOS"
  shows "safe (\<lambda>(b, t). str_ok t) (genrange c_locale s oct)"
  unfolding genrange_def
proof (rule safe_bind [OF get_char_safe])
  fix a :: "int \<times> bool \<times> tr_str"
  assume A: "case a of (v, oct, t) \<Rightarrow> advances (s\<lparr>str := tl (str s)\<rparr>) t \<and> 0 \<le> v \<and> v \<le> 511 \<and>
      (state t = EOS \<or> state t = state (s\<lparr>str := tl (str s)\<rparr>)) \<and> chars t = chars (s\<lparr>str := tl (str s)\<rparr>) \<and>
      lastch t = lastch (s\<lparr>str := tl (str s)\<rparr>) \<and> cnt t = cnt (s\<lparr>str := tl (str s)\<rparr>)"
  obtain v oc t where a: "a = (v, oc, t)" by (cases a)
  have "str_base (s\<lparr>str := tl (str s)\<rparr>)" using assms(1) by (auto simp: str_base_def last_tl)
  then have t: "str_base t" using A advances_base unfolding a by blast
  have bk: "str_base (t\<lparr>str := str s\<rparr>)" using t assms(1) by (simp add: str_base_def)
  have w: "wint (v - lastch s + 1) = Inr (v - lastch s + 1)" "wint (lastch s - 1) = Inr (lastch s - 1)"
    using A assms(2,3) unfolding a by auto
  show "safe (\<lambda>(b, t). str_ok t) (case a of (stopval, oc1, t1) \<Rightarrow>
       if oc1 \<or> oct \<or> MB_CUR_MAX c_locale > 1 then
         (if stopval < lastch s then Inr (False, t1\<lparr>str := str s\<rparr>)
          else bind_r (wint (stopval - lastch s + 1)) (\<lambda>n.
            bind_r (wint (lastch s - 1)) (\<lambda>l.
              Inr (True, t1\<lparr>cnt := n, state := RANGE, lastch := l\<rparr>))))
       else if charcoll c_locale stopval (lastch s) < 0 then Inr (False, t1\<lparr>str := str s\<rparr>)
       else if \<not> mem c_locale then Inl (Stop (Errmsg ''genrange() malloc''))
       else
         let set = filter (\<lambda>c. charcoll c_locale c (lastch s) \<ge> 0 \<and> charcoll c_locale c stopval \<le> 0) [0..255] in
         Inr (True, t1\<lparr>chars := (if 1 < length set then mergesort c_locale set else set) @ [OOBCH],
                       cnt := 0, state := SET\<rparr>))"
    using A t bk w assms(2-4) unfolding a
    by (auto simp: str_ok_def str_base_def Let_def simp del: upto_rec_numeral)
qed

lemma maybe_range_safe:
  assumes "str_base s" "0 \<le> lastch s" "lastch s \<le> 511" "state s = NORMAL \<or> state s = EOS"
  shows "safe (\<lambda>(b, t). str_ok t) (maybe_range c_locale s oct)"
  using genrange_safe [OF assms] assms by (auto simp: maybe_range_def str_ok_def)

section \<open>Brackets\<close>

lemma fill_equiv_C:
  assumes "distinct is" "set is \<subseteq> {1..255}" "length eq = NCHARS_SB" "p + (if pri \<in> set is then 1 else 0) < NCHARS_SB"
  obtains q eq' where "fill_equiv c_locale pri is p eq = Inr (q, eq')" "length eq' = NCHARS_SB"
    "p \<le> q" "q \<le> p + (if pri \<in> set is then 1 else 0)"
  using assms
proof (induction "is" arbitrary: p eq thesis)
  case (Cons i "is")
  have i: "c_str1 i = [char_of (nat i)]" "of_char (char_of (nat i) :: char) = (i :: int)"
  proof -
    have "i mod 256 = i" using Cons.prems(3) by auto
    moreover have "(of_char (char_of (nat i) :: char) :: nat) = nat i" using Cons.prems(3) by auto
    ultimately show "c_str1 i = [char_of (nat i)]" "of_char (char_of (nat i) :: char) = (i :: int)"
      using Cons.prems(3) of_nat_of_char [of "char_of (nat i)", where 'a = int] by (auto simp: c_str1_def)
  qed
  have x: "strxfrm c_locale (c_str1 i) = [char_of (nat i)]" by (simp add: c_locale_def i(1))
  show ?case
  proof (cases "pri = i")
    case True
    then have n: "pri \<notin> set is" "pri \<noteq> 0" using Cons.prems(2,3) by auto
    obtain q eq' where "fill_equiv c_locale pri is (Suc p) (eq[p := i]) = Inr (q, eq')" "length eq' = NCHARS_SB"
      "Suc p \<le> q" "q \<le> Suc p + (if pri \<in> set is then 1 else 0)"
      by (rule Cons.IH [where eq = "eq[p := i]" and p = "Suc p"]) (use Cons.prems n True in auto)
    then show ?thesis using Cons.prems(1) [of q eq'] Cons.prems(4,5) n True i(2) x by simp
  next
    case False
    obtain q eq' where "fill_equiv c_locale pri is p eq = Inr (q, eq')" "length eq' = NCHARS_SB"
      "p \<le> q" "q \<le> p + (if pri \<in> set is then 1 else 0)"
      by (rule Cons.IH [where eq = eq and p = p]) (use Cons.prems False in auto)
    then show ?thesis using Cons.prems(1) [of q eq'] False i(2) x by simp
  qed
qed simp

lemma update_tl: "0 < j \<Longrightarrow> j < length xs \<Longrightarrow> x \<in> set (tl (xs[j := x]))"
  by (cases xs; cases j) (auto simp: set_update_memI)

lemma genequiv_safe:
  assumes "str_base s"
  shows "safe str_ok (genequiv c_locale s)"
  unfolding genequiv_def
proof (rule safe_bind [where P = str_base])
  have tl0: "tl (xs[0 := v]) = tl xs" for xs :: "int list" and v by (cases xs) auto
  have dropb: "str_base (t\<lparr>equiv := (equiv t)[0 := v], str := drop k (str t)\<rparr>)" if "str_base t" for t v k
    using that by (auto simp: str_base_def tl0 last_drop)
  show "safe str_base
      (if str s \<noteq> [] \<and> hd (str s) = CHR 0x5C then
          (case backslash s of (v, _, t1) \<Rightarrow>
             if str t1 = [] \<or> hd (str t1) \<noteq> CHR ''='' then Inl misplaced_equals
             else Inr (t1\<lparr>equiv := (equiv t1)[0 := v], str := drop 2 (str t1)\<rparr>))
        else bind_r (get_wc c_locale False s) (\<lambda>(wc, clen).
          if length (str s) \<le> clen \<or> str s ! clen \<noteq> CHR ''='' then Inl misplaced_equals
          else Inr (s\<lparr>equiv := (equiv s)[0 := wc], str := drop (clen + 2) (str s)\<rparr>)))"
  proof (cases "str s \<noteq> [] \<and> hd (str s) = CHR 0x5C")
    case True
    obtain v oc t where B: "backslash s = (v, oc, t)" by (metis prod_cases3)
    have "str_base t" by (rule advances_base [OF backslash_safe(1) [OF B] assms])
    then show ?thesis unfolding if_P [OF True] B using dropb by (auto simp: misplaced_equals_def)
  next
    case False
    show ?thesis unfolding if_not_P [OF False]
      by (rule safe_bind [OF get_wc_safe]) (use dropb [OF assms] in \<open>auto simp: misplaced_equals_def\<close>)
  qed
next
  fix t assume t: "str_base t"
  let ?dst = "strxfrm c_locale (c_str1 (equiv t ! 0))"
  let ?pri = "of_char (hd ?dst) :: int"
  have fe: "\<exists>q eq. fill_equiv c_locale ?pri [1..255] 1 (equiv t) = Inr (q, eq) \<and> length eq = NCHARS_SB \<and> 1 \<le> q \<and> q \<le> 2"
  proof -
    have len: "length (equiv t) = NCHARS_SB" using t by (simp add: str_base_def)
    show ?thesis
      by (rule fill_equiv_C [of "[1..255]" "equiv t" 1 ?pri])
        (use len in \<open>auto split: if_splits simp del: upto_rec_numeral\<close>)
  qed
  then obtain q eq where F: "fill_equiv c_locale ?pri [1..255] 1 (equiv t) = Inr (q, eq)" "length eq = NCHARS_SB" "1 \<le> q" "q \<le> 2"
    by blast
  have ot: "OOBCH \<in> set (tl (eq[q := OOBCH]))" using update_tl [of q eq OOBCH] F by simp
  then have os: "OOBCH \<in> set (eq[q := OOBCH])" by (metis list.set_sel(2) tl_Nil)
  have e: "OOBCH \<in> set (equiv t)" using t by (metis str_base_def list.set_sel(2) tl_Nil)
  show "safe str_ok (let dst = ?dst in
          if MB_CUR_MAX c_locale = 1 \<and> length dst = 1 then
            bind_r (fill_equiv c_locale (of_char (hd dst)) [1..255] 1 (equiv t)) (\<lambda>(p, eq).
              if p < length eq then
                Inr (t\<lparr>equiv := eq[p := OOBCH], cnt := 0, state := SET, chars := eq[p := OOBCH]\<rparr>)
              else Inl Fault)
          else Inr (t\<lparr>cnt := 0, state := SET, chars := equiv t\<rparr>))"
    unfolding Let_def F(1) using F(2-4) ot os e t by (simp add: str_ok_def str_base_def)
qed

lemma digits_nonneg: "0 \<le> v \<Longrightarrow> 0 \<le> fst (digits b v s)"
  by (induction b v s rule: digits.induct) (auto simp: Let_def)

text \<open>\<open>strto\<close> reads digits of some base from some suffix of its argument.\<close>

lemma strto_parts:
  obtains b u k where "u = drop k s"
    "strto lo hi s = (let r = digits b 0 u in
       if fst (snd r) = 0 then (0, s, False)
       else let v = (if dropWhile c_isspace s \<noteq> [] \<and> hd (dropWhile c_isspace s) = CHR ''-'' then - fst r else fst r) in
         if v > hi then (hi, snd (snd r), True)
         else if v < lo then (lo, snd (snd r), True)
         else (v, snd (snd r), False))"
proof -
  define s1 where "s1 = dropWhile c_isspace s"
  define s2 where "s2 = (if s1 \<noteq> [] \<and> (hd s1 = CHR ''-'' \<or> hd s1 = CHR ''+'') then tl s1 else s1)"
  define hex where "hex = (2 < length s2 \<and> s2 ! 0 = CHR ''0'' \<and> (s2 ! 1 = CHR ''x'' \<or> s2 ! 1 = CHR ''X'') \<and>
                 digit_val (s2 ! 2) < 16)"
  define b :: nat where "b = (if hex then 16 else if s2 \<noteq> [] \<and> hd s2 = CHR ''0'' then 8 else 10)"
  define u where "u = (if hex then drop 2 s2 else s2)"
  have "\<exists>k. s1 = drop k s" unfolding s1_def by (metis dropWhile_eq_drop)
  then have "\<exists>k. s2 = drop k s" unfolding s2_def by (auto simp: tl_drop drop_Suc [symmetric])
  then have "\<exists>k. u = drop k s" unfolding u_def by auto
  then obtain k where "u = drop k s" by blast
  then show thesis
    by (rule that [of u k b])
      (simp only: strto_def Let_def s1_def [symmetric] s2_def [symmetric] hex_def [symmetric]
        b_def [symmetric] u_def [symmetric])
qed

lemma strto_digit:
  assumes "digit_val c < 10" "lo \<le> 0" "0 \<le> hi"
  shows "0 \<le> fst (strto lo hi (c # cs)) \<and> fst (strto lo hi (c # cs)) \<le> hi"
proof -
  have c: "c \<noteq> CHR ''-''" "\<not> c_isspace c"
    using assms(1) by (auto simp: digit_val_def c_isspace_def Let_def split: if_splits)
  show ?thesis
  proof (rule strto_parts [of "c # cs" lo hi])
    fix b u k
    assume S: "strto lo hi (c # cs) = (let r = digits b 0 u in
       if fst (snd r) = 0 then (0, c # cs, False)
       else let v = (if dropWhile c_isspace (c # cs) \<noteq> [] \<and> hd (dropWhile c_isspace (c # cs)) = CHR ''-''
           then - fst r else fst r) in
         if v > hi then (hi, snd (snd r), True)
         else if v < lo then (lo, snd (snd r), True)
         else (v, snd (snd r), False))"
    have "0 \<le> fst (digits b 0 u)" by (rule digits_nonneg) simp
    then show ?thesis using c assms(2,3) unfolding S by (auto simp: Let_def)
  qed
qed

lemma digits_drop: "\<exists>k. snd (snd (digits b v u)) = drop k u"
proof (induction b v u rule: digits.induct)
  case (2 b v c cs)
  then show ?case by (auto simp: Let_def) (metis drop_Suc_Cons, metis drop0)
qed (auto intro: exI [of _ 0])

lemma strto_drop: "\<exists>k. fst (snd (strto lo hi s)) = drop k s"
proof (rule strto_parts [of s lo hi])
  fix b u k
  assume u: "u = drop k s" and S: "strto lo hi s = (let r = digits b 0 u in
       if fst (snd r) = 0 then (0, s, False)
       else let v = (if dropWhile c_isspace s \<noteq> [] \<and> hd (dropWhile c_isspace s) = CHR ''-'' then - fst r else fst r) in
         if v > hi then (hi, snd (snd r), True)
         else if v < lo then (lo, snd (snd r), True)
         else (v, snd (snd r), False))"
  obtain j where "snd (snd (digits b 0 u)) = drop (j + k) s"
    using digits_drop [of b 0 u] unfolding u by auto
  moreover have "\<exists>k. s = drop k s" by (rule exI [of _ 0]) simp
  ultimately show ?thesis unfolding S Let_def by (auto split: if_splits)
qed

lemma seq_count_safe:
  assumes "str_base s"
  shows "safe (\<lambda>t. str_base t \<and> 0 \<le> cnt t \<and> cnt t \<le> 2 ^ 31 - 1) (seq_count s)"
proof (cases "str s")
  case (Cons c r)
  obtain v oc t where B: "backslash s = (v, oc, t)" by (metis prod_cases3)
  have t: "str_base t" by (rule advances_base [OF backslash_safe(1) [OF B] assms])
  obtain v' ep er where S: "strto (- (2 ^ 31)) (2 ^ 31 - 1) (str s) = (v', ep, er)" by (metis prod_cases3)
  then have S2: "strto (- 2147483648) 2147483647 (c # r) = (v', ep, er)" using Cons by simp
  obtain k where "ep = drop k (str s)" using strto_drop [of "- (2 ^ 31)" "2 ^ 31 - 1" "str s"] S by auto
  then have "tl ep = drop (Suc k) (str s)" by (simp add: tl_drop drop_Suc)
  then have e: "str_base (s\<lparr>cnt := v', str := tl ep\<rparr>)" using assms by (auto simp: str_base_def last_drop)
  have r: "str_base (s\<lparr>cnt := 0, str := r\<rparr>)" using assms Cons by (auto simp: str_base_def)
  have "0 \<le> v' \<and> v' \<le> 2 ^ 31 - 1" if "digit_val c < 10"
    using strto_digit [OF that, of "- (2 ^ 31)" "2 ^ 31 - 1" r] S Cons by simp
  then show ?thesis
    using Cons t e r backslash_safe(2,3) [OF B]
    by (auto simp: seq_count_def B S2 illegal_count_def str_base_def)
qed (simp add: seq_count_def illegal_count_def)

lemma genseq_safe:
  assumes "str_base s"
  shows "safe str_ok (genseq c_locale s)"
  unfolding genseq_def
proof (rule safe_bind [OF get_char_safe])
  fix a :: "int \<times> bool \<times> tr_str"
  assume A: "case a of (v, oct, t) \<Rightarrow> advances s t \<and> 0 \<le> v \<and> v \<le> 511 \<and> (state t = EOS \<or> state t = state s) \<and>
     chars t = chars s \<and> lastch t = lastch s \<and> cnt t = cnt s"
  obtain ch oc t where a: "a = (ch, oc, t)" by (cases a)
  have t: "str_base t" using A advances_base [OF _ assms] unfolding a by simp
  then have "str_base (t\<lparr>lastch := ch, str := tl (str t)\<rparr>)" by (auto simp: str_base_def last_tl)
  note sc = seq_count_safe [OF this]
  have fin: "safe str_ok (bind_r (seq_count (t\<lparr>lastch := ch, str := tl (str t)\<rparr>)) (\<lambda>s2.
         Inr (s2\<lparr>state := (if cnt s2 \<noteq> 0 then SEQUENCE else INFINITE)\<rparr>)))"
    by (rule safe_bind [OF sc]) (auto simp: str_ok_def str_base_def)
  show "safe str_ok (case a of (ch, _, t1) \<Rightarrow>
       if str t1 = [] \<or> hd (str t1) \<noteq> CHR ''*'' then Inl misplaced_asterisk
       else bind_r (seq_count (t1\<lparr>lastch := ch, str := tl (str t1)\<rparr>)) (\<lambda>s2.
         Inr (s2\<lparr>state := (if cnt s2 \<noteq> 0 then SEQUENCE else INFINITE)\<rparr>)))"
    unfolding a using fin by (auto simp: misplaced_asterisk_def)
qed

lemma bracket_repeat_safe:
  assumes "str_base s" "str s \<noteq> []" "hd (str s) = CHR ''[''" "state s = NORMAL"
  shows "safe (\<lambda>(b, t). if b then str_ok t else t = s) (bracket_repeat c_locale s)"
proof (cases "length (str s) < 2")
  case True
  then have "str s = [CHR ''['']" using assms(2,3) by (cases "str s") auto
  then show ?thesis using assms(1) by (simp add: str_base_def)
next
  case False
  have "str_base (s\<lparr>str := tl (str s)\<rparr>)" using assms(1) by (auto simp: str_base_def last_tl)
  note gs = genseq_safe [OF this]
  have ok: "safe (\<lambda>(b, t). if b then str_ok t else t = s)
      (bind_r (genseq c_locale (s\<lparr>str := tl (str s)\<rparr>)) (\<lambda>s1. Inr (True, s1)))"
    by (rule safe_bind [OF gs]) simp
  have st: "safe (\<lambda>(b, t). if b then str_ok t else t = s) (Inr (False, s))" by simp
  show ?thesis unfolding bracket_repeat_def if_not_P [OF False] Let_def by (intro safe_if ok st)
qed

lemma bracket_safe:
  assumes "str_base s" "str s \<noteq> []" "hd (str s) = CHR ''[''" "state s = NORMAL"
  shows "safe (\<lambda>(b, t). if b then str_ok t else t = s) (bracket c_locale s)"
proof -
  let ?P = "\<lambda>(b, t). if b then str_ok t else t = s"
  have cl: "safe ?P (bind_r (genclass c_locale s nm) (\<lambda>s1. Inr (True, s1\<lparr>str := drop k (str s)\<rparr>)))" for nm k
    using assms(1) by (auto simp: genclass_def str_ok_def str_base_def last_drop)
  have "str_base (s\<lparr>str := drop 2 (str s)\<rparr>)" using assms(1) by (auto simp: str_base_def last_drop)
  note ge = genequiv_safe [OF this]
  have eq: "safe ?P (bind_r (genequiv c_locale (s\<lparr>str := drop 2 (str s)\<rparr>)) (\<lambda>s1. Inr (True, s1)))"
    by (rule safe_bind [OF ge]) simp
  have st: "safe ?P (Inr (False, s))" by simp
  show ?thesis
    unfolding bracket_def Let_def by (intro safe_if bracket_repeat_safe [OF assms] cl eq st)
qed

section \<open>next\<close>

lemma next_plain_safe:
  assumes "str_base s" "state s = NORMAL"
  shows "safe (\<lambda>(b, t). str_ok t) (next_plain c_locale s)"
  unfolding next_plain_def
proof (rule safe_bind [OF get_wc_safe])
  fix a :: "int \<times> nat" assume A: "case a of (wc, clen) \<Rightarrow> 0 \<le> wc \<and> wc \<le> 255 \<and> clen \<le> length (str s)"
  obtain wc clen where a: "a = (wc, clen)" by (cases a)
  have "str_base (s\<lparr>lastch := wc, str := drop clen (str s)\<rparr>)" using assms(1) by (auto simp: str_base_def last_drop)
  then have "safe (\<lambda>(b, t). str_ok t) (maybe_range c_locale (s\<lparr>lastch := wc, str := drop clen (str s)\<rparr>) False)"
    by (rule maybe_range_safe) (use A a assms(2) in auto)
  then show "safe (\<lambda>(b, t). str_ok t) (case a of (wc, clen) \<Rightarrow>
      maybe_range c_locale (s\<lparr>lastch := wc, str := drop clen (str s)\<rparr>) False)"
    by (simp add: a)
qed

lemma next_normal_safe:
  assumes "str_base s" "str s \<noteq> []" "state s = NORMAL"
  shows "safe (\<lambda>(b, t). str_ok t) (next_normal c_locale s)"
proof -
  obtain v oc t where B: "backslash s = (v, oc, t)" by (metis prod_cases3)
  note b = backslash_safe [OF B]
  have "str_base (t\<lparr>lastch := v\<rparr>)" using advances_base [OF b(1) assms(1)] by (simp add: str_base_def)
  then have bs: "safe (\<lambda>(b, t). str_ok t) (maybe_range c_locale (t\<lparr>lastch := v\<rparr>) oc)"
    by (rule maybe_range_safe) (use b assms(3) in auto)
  have br: "safe (\<lambda>(b, t). str_ok t) (bind_r (bracket c_locale s) (\<lambda>(b, s1).
      if b then Inr (True, s1) else next_plain c_locale s1))" if "hd (str s) = CHR ''[''"
    by (rule safe_bind [OF bracket_safe [OF assms(1,2) that assms(3)]])
      (use next_plain_safe [OF assms(1,3)] in \<open>auto split: if_splits\<close>)
  show ?thesis
    unfolding next_normal_def B using bs br next_plain_safe [OF assms(1,3)] by simp
qed

lemma c_nextwctype_range: "c_nextwctype c k = -1 \<or> c < c_nextwctype c k \<and> c_nextwctype c k \<le> 255"
proof (cases "filter (\<lambda>x. c_iswctype x k) [c + 1..255]")
  case (Cons x xs)
  then show ?thesis using filter_upto_Cons [OF Cons] by (simp add: c_nextwctype_def)
qed (simp add: c_nextwctype_def)

lemma class_step:
  assumes "is_class (state s)" "-1 \<le> lastch s" "lastch s \<le> 255" "0 \<le> cnt s" "cnt s \<le> lastch s + 1"
  shows "wint (cnt s + 1) = Inr (cnt s + 1)"
    "next_ch c_locale s =
      (let ch = nextwctype c_locale (lastch s) (cclass s) in
       if ch = -1 then next_ch c_locale (s\<lparr>cnt := cnt s + 1, state := NORMAL\<rparr>)
       else Inr (True, s\<lparr>cnt := cnt s + 1, lastch := ch\<rparr>))"
    "nextwctype c_locale (lastch s) (cclass s) \<noteq> -1 \<Longrightarrow>
       lastch s < nextwctype c_locale (lastch s) (cclass s) \<and> nextwctype c_locale (lastch s) (cclass s) \<le> 255"
proof -
  show w: "wint (cnt s + 1) = Inr (cnt s + 1)" using assms by simp
  show "next_ch c_locale s =
      (let ch = nextwctype c_locale (lastch s) (cclass s) in
       if ch = -1 then next_ch c_locale (s\<lparr>cnt := cnt s + 1, state := NORMAL\<rparr>)
       else Inr (True, s\<lparr>cnt := cnt s + 1, lastch := ch\<rparr>))"
    using assms(1) w by (auto simp: next_ch.simps [of _ s])
  show "nextwctype c_locale (lastch s) (cclass s) \<noteq> -1 \<Longrightarrow>
       lastch s < nextwctype c_locale (lastch s) (cclass s) \<and> nextwctype c_locale (lastch s) (cclass s) \<le> 255"
    using c_nextwctype_range [of "lastch s" "cclass s"] by (simp add: c_locale_def)
qed

text \<open>C26: in the \<open>C\<close> locale a call of \<open>next\<close> on a well-formed operand string whose text
  does not end in an opening bracket reads and writes only inside the string and the two arrays,
  overflows no counter, fails no assertion, and leaves a well-formed string; it stops the program
  only with one of its diagnostics.\<close>

theorem next_is_safe: "str_ok s \<Longrightarrow> safe (\<lambda>(b, t). str_ok t) (next_ch c_locale s)"
proof (induction "c_locale" s rule: next_ch.induct)
  case (1 s)
  note base = "1.prems" [unfolded str_ok_def]
  have norm: "str_ok (s\<lparr>cnt := n, state := NORMAL\<rparr>)" for n using base by (simp add: str_ok_def str_base_def)
  have cl: "-1 \<le> lastch s" "lastch s \<le> 255" "0 \<le> cnt s" "cnt s \<le> lastch s + 1" if "is_class (state s)"
    using that base by auto
  have w: "wint (cnt s + 1) = Inr (cnt s + 1)" if "is_class (state s)" using class_step(1) [OF that cl [OF that]] .
  have cls: "safe (\<lambda>(b, t). str_ok t) (next_ch c_locale s)"
    if c: "is_class (state s)" and "nextwctype c_locale (lastch s) (cclass s) = -1 \<Longrightarrow>
        safe (\<lambda>(b, t). str_ok t) (next_ch c_locale (s\<lparr>cnt := cnt s + 1, state := NORMAL\<rparr>))"
  proof (cases "nextwctype c_locale (lastch s) (cclass s) = -1")
    case False
    then show ?thesis
      using class_step(3) [OF c cl [OF c] False] cl [OF c] c base
      unfolding class_step(2) [OF c cl [OF c]] by (auto simp: str_ok_def str_base_def)
  qed (use that class_step(2) [OF c cl [OF c]] in simp)
  show ?case
  proof (cases "state s")
    case NORMAL
    show ?thesis
    proof (cases "str s = []")
      case False
      have "safe (\<lambda>(b, t). str_ok t) (bind_r (next_normal c_locale s) (\<lambda>(again, s1).
          if again then next_ch c_locale s1 else Inr (True, s1)))"
      proof (cases "next_normal c_locale s")
        case (Inl e)
        then show ?thesis using next_normal_safe [of s] base False NORMAL by simp
      next
        case (Inr p)
        obtain again t where p: "p = (again, t)" by (cases p)
        have "str_ok t" using next_normal_safe [of s] base False NORMAL Inr p by simp
        then show ?thesis using "1.hyps"(1) [OF NORMAL False Inr p [symmetric]] Inr p by simp
      qed
      then show ?thesis using NORMAL False by (simp add: next_ch.simps [of _ s])
    qed (use base NORMAL in \<open>simp add: next_ch.simps [of _ s] str_ok_def str_base_def\<close>)
  next
    case RANGE
    then show ?thesis using "1.hyps"(2) [OF RANGE] norm base
      by (auto simp: next_ch.simps [of _ s] str_ok_def str_base_def)
  next
    case SEQUENCE
    then show ?thesis using "1.hyps"(3) [OF SEQUENCE] norm base
      by (auto simp: next_ch.simps [of _ s] str_ok_def str_base_def)
  next
    case SET
    then have c: "0 \<le> cnt s" "OOBCH \<in> set (drop (nat (cnt s)) (chars s))" using base by simp_all
    then have lt: "nat (cnt s) < length (chars s)" by (cases "nat (cnt s) < length (chars s)") auto
    then have A: "array_get (chars s) (cnt s) = Inr (chars s ! nat (cnt s))" using c(1) by simp
    have sp: "drop (nat (cnt s)) (chars s) = chars s ! nat (cnt s) # drop (nat (cnt s + 1)) (chars s)"
      using lt c(1) by (simp add: Cons_nth_drop_Suc nat_add_distrib)
    show ?thesis
    proof (cases "chars s ! nat (cnt s) = OOBCH")
      case True
      then show ?thesis using SET A "1.hyps"(7) [OF SET A True] norm by (simp add: next_ch.simps [of _ s])
    next
      case False
      then have "OOBCH \<in> set (drop (nat (cnt s + 1)) (chars s))" using c(2) unfolding sp by auto
      then show ?thesis using SET A False base c(1)
        by (simp add: next_ch.simps [of _ s] str_ok_def str_base_def)
    qed
  next
    case CCLASS
    then show ?thesis using cls "1.hyps"(4) [OF CCLASS w refl] norm by simp
  next
    case CCLASS_UPPER
    then show ?thesis using cls "1.hyps"(5) [OF CCLASS_UPPER w refl] norm by simp
  next
    case CCLASS_LOWER
    then show ?thesis using cls "1.hyps"(6) [OF CCLASS_LOWER w refl] norm by simp
  qed (use base in \<open>auto simp: next_ch.simps [of _ s] str_ok_def str_base_def\<close>)
qed

theorem next_is_safe_witness:
  "safe (\<lambda>(b, t). str_ok t) (next_ch c_locale ((STR_init STRING1)\<lparr>str := ''[a*3]''\<rparr>))"
  using next_is_safe [of "(STR_init STRING1)\<lparr>str := ''[a*3]''\<rparr>"] by (simp add: str_ok_def str_base_def STR_init_def)

section \<open>Limits of the code\<close>

lemma next_endless: "state s = INFINITE \<Longrightarrow> str s \<noteq> [] \<Longrightarrow> next_ch lc s = Inr (True, s)"
  by (simp add: next_ch.simps [of _ s])

lemma setup_endless:
  assumes "state s = INFINITE" "str s \<noteq> []" "0 \<le> lastch s" "lastch s \<le> WCHAR_MAX" "cset_inv c_locale cs"
  shows "setup_loop n c_locale s cs = None"
  using assms(5)
proof (induction n arbitrary: cs)
  case (Suc n)
  obtain cs' where "add_char c_locale cs (lastch s) = Inr cs'" "cset_inv c_locale cs'"
    by (rule add_char_ok [of c_locale cs "lastch s"]) (use assms Suc.prems in \<open>auto simp: wide_def\<close>)
  then show ?case using Suc.IH assms(1,2) by (simp add: next_ch.simps [of _ s])
qed simp

text \<open>\<open>tr -d '[a*]b'\<close> never ends: a sequence without a count that is followed by another
  character is handed out for ever, and \<open>setup\<close> adds its character over and over; no number of
  rounds brings the program to its input.\<close>

theorem tr_sequence_hangs: "tr_main n c_locale [''-d'', ''[a*]b''] inp fe = None"
proof -
  let ?s = "(STR_init STRING1)\<lparr>str := ''[a*]b''\<rparr>"
  let ?t = "?s\<lparr>str := ''b'', lastch := 97, cnt := 0, state := INFINITE\<rparr>"
  have "next_normal c_locale ?s = Inr (True, ?t)"
    by (simp add: next_normal_def bracket_def bracket_repeat_def genseq_def get_char_def get_wc_def c_locale_eval seq_count_def)
  then have n: "next_ch c_locale ?s = Inr (True, ?t)"
    using next_NORMAL [of ?s "CHR ''[''" "''a*]b''" c_locale] next_endless [of ?t c_locale] by simp
  have "setup_loop n c_locale ?s cset_alloc = None"
  proof (cases n)
    case (Suc m)
    obtain cs where "add_char c_locale cset_alloc 97 = Inr cs" "cset_inv c_locale cs"
      by (rule add_char_ok [of c_locale cset_alloc 97]) (auto simp: wide_def)
    then show ?thesis using Suc n setup_endless [of ?t cs m] by simp
  qed simp
  then show ?thesis by (simp add: tr_main_def getopt.simps tr_copy_def setup_set_def Let_def)
qed

text \<open>For an operand that is a lone opening bracket, \<open>bracket\<close> starts to search behind the
  terminator of the string: the program reads outside its argument.\<close>

theorem tr_bracket_overread: "tr_main (Suc n) c_locale [''-d'', ''[''] inp fe = Some (Inl Fault)"
proof -
  have "next_ch c_locale ((STR_init STRING1)\<lparr>str := ''[''\<rparr>) = Inl Fault"
    using next_NORMAL [of "(STR_init STRING1)\<lparr>str := ''[''\<rparr>" "CHR ''[''" "[]" c_locale]
    by (simp add: next_normal_def bracket_def bracket_repeat_def)
  then show ?thesis by (simp add: tr_main_def getopt.simps tr_copy_def setup_set_def Let_def)
qed

text \<open>\<open>tr -s a xw\<close> leaves a repeated \<open>w\<close> alone although \<open>w\<close> is a character of
  \<open>string2\<close>: only the characters paired with one of \<open>string1\<close> are put into the set to squeeze.\<close>

theorem tr_s_unpaired: "tr_main 10 c_locale [''-s'', ''a'', ''xw''] [119, 119] fe = Some (Inr ([119, 119], fe))"
proof -
  have e: "expand_items [Lit CHR ''a''] = [97]" "expand_items [Lit CHR ''x'', Lit CHR ''w''] = [120, 119]"
    "render_items [Lit CHR ''a''] = ''a''" "render_items [Lit CHR ''x'', Lit CHR ''w''] = ''xw''"
    "list_all item_ok [Lit CHR ''a'']" "list_all item_ok [Lit CHR ''x'', Lit CHR ''w'']"
    by (simp_all add: item_eval)
  have p: "padded [120, 119] (length [97 :: int]) = [120]"
    "map (or_self (paired [97] [120])) [119, 119] = [119, 119]"
    by (simp_all add: padded_def paired_def or_self_def)
  show ?thesis
    using translate_items [OF e(5,6), of 10 "[119, 119]" "[120]" "[119, 119]" fe] unfolding e(1-4) p
    by (simp add: letter_case_def)
qed

end
