(* ===== verification/Test_Cmd.thy ===== *)
theory Test_Cmd
  imports Prelude
begin

text \<open>
  The \<open>test\<close> and \<open>[\<close> command, \<open>shell_cmds-187/test/test.c\<close>: the operator table, the
  lexer \<open>t_lex\<close>, the recursive descent evaluator \<open>oexpr\<close>, \<open>aexpr\<close>, \<open>nexpr\<close>,
  \<open>primary\<close>, \<open>binop\<close> with its global word pointer, the file and number tests, and
  \<open>main\<close> with the special cases POSIX gives for up to four arguments.

  The argument vector is a list of pointers (\<open>None\<close> is the null pointer); \<open>t_wp\<close> is an
  index into it. A read outside the vector or through the null pointer stops the model with
  \<open>Fault\<close>. The file system, the terminal and the process's identity are answers in a record.
  The C code's \<open>int\<close> truth values are \<open>bool\<close>s.
\<close>

section \<open>Tokens and the operator table\<close>

datatype token =
  EOI | FILRD | FILWR | FILEX | FILEXIST | FILREG | FILDIR | FILCDEV | FILBDEV | FILFIFO
  | FILSOCK | FILSYM | FILGZ | FILTT | FILSUID | FILSGID | FILSTCK | FILNT | FILOT | FILEQ
  | FILUID | FILGID | STREZ | STRNZ | STREQ | STRNE | STRLT | STRGT | INTEQ | INTNE | INTGE
  | INTGT | INTLE | INTLT | UNOT | BAND | BOR | LPAREN | RPAREN | OPERAND

datatype token_types = UNOP | BINOP | BUNOP | BBINOP | PAREN

record t_op =
  op_text :: string
  op_num :: token
  op_type :: token_types

definition ops :: "t_op list" where
  "ops =
    [t_op.make ''-r'' FILRD UNOP, t_op.make ''-w'' FILWR UNOP,
     t_op.make ''-x'' FILEX UNOP, t_op.make ''-e'' FILEXIST UNOP,
     t_op.make ''-f'' FILREG UNOP, t_op.make ''-d'' FILDIR UNOP,
     t_op.make ''-c'' FILCDEV UNOP, t_op.make ''-b'' FILBDEV UNOP,
     t_op.make ''-p'' FILFIFO UNOP, t_op.make ''-u'' FILSUID UNOP,
     t_op.make ''-g'' FILSGID UNOP, t_op.make ''-k'' FILSTCK UNOP,
     t_op.make ''-s'' FILGZ UNOP, t_op.make ''-t'' FILTT UNOP,
     t_op.make ''-z'' STREZ UNOP, t_op.make ''-n'' STRNZ UNOP,
     t_op.make ''-h'' FILSYM UNOP, t_op.make ''-O'' FILUID UNOP,
     t_op.make ''-G'' FILGID UNOP, t_op.make ''-L'' FILSYM UNOP,
     t_op.make ''-S'' FILSOCK UNOP, t_op.make ''='' STREQ BINOP,
     t_op.make ''!='' STRNE BINOP, t_op.make ''<'' STRLT BINOP,
     t_op.make ''>'' STRGT BINOP, t_op.make ''-eq'' INTEQ BINOP,
     t_op.make ''-ne'' INTNE BINOP, t_op.make ''-ge'' INTGE BINOP,
     t_op.make ''-gt'' INTGT BINOP, t_op.make ''-le'' INTLE BINOP,
     t_op.make ''-lt'' INTLT BINOP, t_op.make ''-nt'' FILNT BINOP,
     t_op.make ''-ot'' FILOT BINOP, t_op.make ''-ef'' FILEQ BINOP,
     t_op.make ''!'' UNOT BUNOP, t_op.make ''-a'' BAND BBINOP,
     t_op.make ''-o'' BOR BBINOP, t_op.make ''('' LPAREN PAREN,
     t_op.make '')'' RPAREN PAREN]"

section \<open>What the command asks its surroundings\<close>

text \<open>The members of \<open>struct stat\<close> the code reads; \<open>st_mode\<close> has Darwin's 16 bits.\<close>

record stat_buf =
  st_dev :: int
  st_ino :: int
  st_mode :: u16
  st_uid :: int
  st_gid :: int
  st_size :: int
  st_mtime :: int

datatype access_mode = R_OK | W_OK | X_OK | F_OK

text \<open>
  The answers of the kernel, and two things the C implementation chooses: the width of
  \<open>long\<close> (32 or 64 bits on Darwin) and whether \<open>strtol\<close> sets \<open>errno\<close> to \<open>EINVAL\<close>
  when a string has no digits.
\<close>

record t_env =
  do_stat :: "string \<Rightarrow> stat_buf option"
  do_lstat :: "string \<Rightarrow> stat_buf option"
  do_access :: "string \<Rightarrow> access_mode \<Rightarrow> bool"
  isatty :: "int \<Rightarrow> bool"
  geteuid :: int
  getegid :: int
  sets_EINVAL :: bool
  LONG_BIT :: nat

text \<open>Ways to stop: \<open>errx(2, \<dots>)\<close> with its text, \<open>abort()\<close>, a read outside memory.\<close>

datatype t_stop = Errx2 string | Abort | Fault

text \<open>The globals \<open>t_wp\<close> (as an index) and \<open>t_wp_op\<close>.\<close>

record t_state =
  t_wp :: nat
  t_wp_op :: "t_op option"

type_synonym t_argv = "string option list"

definition arg :: "t_argv \<Rightarrow> nat \<Rightarrow> t_stop + string option" where
  "arg argv i = (if i < length argv then Inr (argv ! i) else Inl Fault)"

definition deref :: "string option \<Rightarrow> t_stop + string" where
  "deref p = (case p of None \<Rightarrow> Inl Fault | Some s \<Rightarrow> Inr s)"

section \<open>Errors, the lexer\<close>

definition syntax_err :: "string option \<Rightarrow> string \<Rightarrow> t_stop + 'a" where
  "syntax_err op msg =
     (case op of
        Some s \<Rightarrow> if s \<noteq> [] then Inl (Errx2 (s @ '': '' @ msg)) else Inl (Errx2 msg)
      | None \<Rightarrow> Inl (Errx2 msg))"

fun t_lex_loop :: "t_op list \<Rightarrow> string \<Rightarrow> t_op option" where
  "t_lex_loop [] s = None"
| "t_lex_loop (op # rest) s = (if strcmp s (op_text op) = 0 then Some op else t_lex_loop rest s)"

definition t_lex :: "string option \<Rightarrow> t_state \<Rightarrow> token \<times> t_state" where
  "t_lex s st =
     (case s of
        None \<Rightarrow> (EOI, st\<lparr>t_wp_op := None\<rparr>)
      | Some w \<Rightarrow>
          (case t_lex_loop ops w of
             Some op \<Rightarrow> (op_num op, st\<lparr>t_wp_op := Some op\<rparr>)
           | None \<Rightarrow> (OPERAND, st\<lparr>t_wp_op := None\<rparr>)))"

text \<open>The idiom \<open>t_lex(*++t_wp)\<close>.\<close>

definition lex_next :: "t_argv \<Rightarrow> t_state \<Rightarrow> t_stop + token \<times> t_state" where
  "lex_next argv st =
     bind_r (arg argv (t_wp st + 1)) (\<lambda>s. Inr (t_lex s (st\<lparr>t_wp := t_wp st + 1\<rparr>)))"

definition op_is :: "token_types \<Rightarrow> t_state \<Rightarrow> bool" where
  "op_is ty st = (case t_wp_op st of None \<Rightarrow> False | Some op \<Rightarrow> op_type op = ty)"

section \<open>Numbers\<close>

text \<open>\<open>strtol(s, &p, 10)\<close>: the value, the unread rest, whether \<open>errno\<close> was set.\<close>

definition LONG_MAX :: "t_env \<Rightarrow> int" where "LONG_MAX env = 2 ^ (LONG_BIT env - 1) - 1"
definition LONG_MIN :: "t_env \<Rightarrow> int" where "LONG_MIN env = - (2 ^ (LONG_BIT env - 1))"

definition strtol10 :: "t_env \<Rightarrow> string \<Rightarrow> int \<times> string \<times> bool" where
  "strtol10 env s =
     (case strtol_10 (LONG_MIN env) (LONG_MAX env) s of
        (v, p, none, out) \<Rightarrow> (v, p, none \<and> sets_EINVAL env \<or> out))"

text \<open>The conversion \<open>(int) r\<close> to 32 bits.\<close>

definition to_int :: "int \<Rightarrow> int" where
  "to_int r = (r + 2 ^ 31) mod 2 ^ 32 - 2 ^ 31"

definition getn :: "t_env \<Rightarrow> string \<Rightarrow> t_stop + int" where
  "getn env s =
     (case strtol10 env s of (r, p, err) \<Rightarrow>
        if err then Inl (Errx2 (s @ '': out of range''))
        else if dropWhile c_isspace p \<noteq> [] then Inl (Errx2 (s @ '': bad number''))
        else Inr (to_int r))"

section \<open>File tests\<close>

definition newerf :: "t_env \<Rightarrow> string \<Rightarrow> string \<Rightarrow> bool" where
  "newerf env f1 f2 =
     (case do_stat env f1 of None \<Rightarrow> False
      | Some b1 \<Rightarrow> (case do_stat env f2 of None \<Rightarrow> False
         | Some b2 \<Rightarrow> st_mtime b1 > st_mtime b2))"

definition olderf :: "t_env \<Rightarrow> string \<Rightarrow> string \<Rightarrow> bool" where
  "olderf env f1 f2 =
     (case do_stat env f1 of None \<Rightarrow> False
      | Some b1 \<Rightarrow> (case do_stat env f2 of None \<Rightarrow> False
         | Some b2 \<Rightarrow> st_mtime b1 < st_mtime b2))"

definition equalf :: "t_env \<Rightarrow> string \<Rightarrow> string \<Rightarrow> bool" where
  "equalf env f1 f2 =
     (case do_stat env f1 of None \<Rightarrow> False
      | Some b1 \<Rightarrow> (case do_stat env f2 of None \<Rightarrow> False
         | Some b2 \<Rightarrow> st_dev b1 = st_dev b2 \<and> st_ino b1 = st_ino b2))"

definition filstat :: "t_env \<Rightarrow> string \<Rightarrow> token \<Rightarrow> bool" where
  "filstat env nm mode =
     (case (if mode = FILSYM then do_lstat env nm else do_stat env nm) of
        None \<Rightarrow> False
      | Some s \<Rightarrow>
         (case mode of
            FILRD \<Rightarrow> do_access env nm R_OK
          | FILWR \<Rightarrow> do_access env nm W_OK
          | FILEX \<Rightarrow> do_access env nm X_OK
          | FILEXIST \<Rightarrow> do_access env nm F_OK
          | FILREG \<Rightarrow> st_mode s AND S_IFMT = S_IFREG
          | FILDIR \<Rightarrow> st_mode s AND S_IFMT = S_IFDIR
          | FILCDEV \<Rightarrow> st_mode s AND S_IFMT = S_IFCHR
          | FILBDEV \<Rightarrow> st_mode s AND S_IFMT = S_IFBLK
          | FILFIFO \<Rightarrow> st_mode s AND S_IFMT = S_IFIFO
          | FILSOCK \<Rightarrow> st_mode s AND S_IFMT = S_IFSOCK
          | FILSYM \<Rightarrow> st_mode s AND S_IFMT = S_IFLNK
          | FILSUID \<Rightarrow> st_mode s AND S_ISUID \<noteq> 0
          | FILSGID \<Rightarrow> st_mode s AND S_ISGID \<noteq> 0
          | FILSTCK \<Rightarrow> st_mode s AND S_ISVTX \<noteq> 0
          | FILGZ \<Rightarrow> st_size s > 0
          | FILUID \<Rightarrow> st_uid s = geteuid env
          | FILGID \<Rightarrow> st_gid s = getegid env
          | _ \<Rightarrow> True))"

section \<open>Binary primaries\<close>

text \<open>The comparisons of two numbers; the operands are converted from left to right.\<close>

definition int_cmp :: "t_env \<Rightarrow> (int \<Rightarrow> int \<Rightarrow> bool) \<Rightarrow> string \<Rightarrow> string \<Rightarrow> t_stop + bool" where
  "int_cmp env rel a b = bind_r (getn env a) (\<lambda>x. bind_r (getn env b) (\<lambda>y. Inr (rel x y)))"

text \<open>The \<open>switch\<close> of \<open>binop\<close>.\<close>

definition binop_value :: "t_env \<Rightarrow> token \<Rightarrow> string \<Rightarrow> string \<Rightarrow> t_stop + bool" where
  "binop_value env n opnd1 opnd2 =
     (case n of
        STREQ \<Rightarrow> Inr (strcmp opnd1 opnd2 = 0)
      | STRNE \<Rightarrow> Inr (strcmp opnd1 opnd2 \<noteq> 0)
      | STRLT \<Rightarrow> Inr (strcmp opnd1 opnd2 < 0)
      | STRGT \<Rightarrow> Inr (strcmp opnd1 opnd2 > 0)
      | INTEQ \<Rightarrow> int_cmp env (=) opnd1 opnd2
      | INTNE \<Rightarrow> int_cmp env (\<noteq>) opnd1 opnd2
      | INTGE \<Rightarrow> int_cmp env (\<ge>) opnd1 opnd2
      | INTGT \<Rightarrow> int_cmp env (>) opnd1 opnd2
      | INTLE \<Rightarrow> int_cmp env (\<le>) opnd1 opnd2
      | INTLT \<Rightarrow> int_cmp env (<) opnd1 opnd2
      | FILNT \<Rightarrow> Inr (newerf env opnd1 opnd2)
      | FILOT \<Rightarrow> Inr (olderf env opnd1 opnd2)
      | FILEQ \<Rightarrow> Inr (equalf env opnd1 opnd2)
      | _ \<Rightarrow> Inl Abort)"

text \<open>\<open>opnd1\<close> is only dereferenced by the comparison; reading through \<open>op\<close> when
  \<open>t_lex\<close> left it null is a \<open>Fault\<close>.\<close>

definition binop :: "t_env \<Rightarrow> t_argv \<Rightarrow> t_state \<Rightarrow> t_stop + bool \<times> t_state" where
  "binop env argv st =
     bind_r (arg argv (t_wp st)) (\<lambda>opnd1.
     bind_r (lex_next argv st) (\<lambda>(_, st1).
     bind_r (arg argv (t_wp st1 + 1)) (\<lambda>opnd2.
       let st2 = st1\<lparr>t_wp := t_wp st1 + 1\<rparr> in
       case t_wp_op st1 of
         None \<Rightarrow> Inl Fault
       | Some op \<Rightarrow>
           if opnd2 = None then syntax_err (Some (op_text op)) ''argument expected''
           else
             bind_r (deref opnd1) (\<lambda>a.
             bind_r (deref opnd2) (\<lambda>b.
             bind_r (binop_value env (op_num op) a b) (\<lambda>v. Inr (v, st2)))))))"

section \<open>The evaluator\<close>

text \<open>The unary \<open>switch\<close> of \<open>primary\<close>.\<close>

definition unop_value :: "t_env \<Rightarrow> token \<Rightarrow> string \<Rightarrow> t_stop + bool" where
  "unop_value env n s =
     (case n of
        STREZ \<Rightarrow> Inr (length s = 0)
      | STRNZ \<Rightarrow> Inr (length s \<noteq> 0)
      | FILTT \<Rightarrow> bind_r (getn env s) (\<lambda>fd. Inr (isatty env fd))
      | _ \<Rightarrow> Inr (filstat env s n))"

text \<open>The branch of \<open>primary\<close> for a unary operator.\<close>

definition unary_primary :: "t_env \<Rightarrow> t_argv \<Rightarrow> token \<Rightarrow> t_op \<Rightarrow> t_state \<Rightarrow> t_stop + bool \<times> t_state" where
  "unary_primary env argv n op st =
     bind_r (arg argv (t_wp st + 1)) (\<lambda>p.
       case p of
         None \<Rightarrow> syntax_err (Some (op_text op)) ''argument expected''
       | Some s \<Rightarrow> bind_r (unop_value env n s) (\<lambda>v. Inr (v, st\<lparr>t_wp := t_wp st + 1\<rparr>)))"

text \<open>The last branch: a binary primary, or a string alone.\<close>

definition operand_primary :: "t_env \<Rightarrow> t_argv \<Rightarrow> t_state \<Rightarrow> t_stop + bool \<times> t_state" where
  "operand_primary env argv st =
     bind_r (arg argv (t_wp st + 1)) (\<lambda>q.
       let st1 = snd (t_lex q st) in
       if op_is BINOP st1 then binop env argv st1
       else bind_r (arg argv (t_wp st1)) (\<lambda>p.
            bind_r (deref p) (\<lambda>s. Inr (length s > 0, st1))))"

function oexpr :: "t_env \<Rightarrow> t_argv \<Rightarrow> token \<Rightarrow> t_state \<Rightarrow> t_stop + bool \<times> t_state"
  and aexpr :: "t_env \<Rightarrow> t_argv \<Rightarrow> token \<Rightarrow> t_state \<Rightarrow> t_stop + bool \<times> t_state"
  and nexpr :: "t_env \<Rightarrow> t_argv \<Rightarrow> token \<Rightarrow> t_state \<Rightarrow> t_stop + bool \<times> t_state"
  and primary :: "t_env \<Rightarrow> t_argv \<Rightarrow> token \<Rightarrow> t_state \<Rightarrow> t_stop + bool \<times> t_state" where
  "oexpr env argv n st =
     bind_r (aexpr env argv n st) (\<lambda>(res, st1).
     bind_r (lex_next argv st1) (\<lambda>(t, st2).
       if t = BOR then
         bind_r (lex_next argv st2) (\<lambda>(t', st3).
         bind_r (oexpr env argv t' st3) (\<lambda>(res', st4). Inr (res' \<or> res, st4)))
       else Inr (res, st2\<lparr>t_wp := t_wp st2 - 1\<rparr>)))"
| "aexpr env argv n st =
     bind_r (nexpr env argv n st) (\<lambda>(res, st1).
     bind_r (lex_next argv st1) (\<lambda>(t, st2).
       if t = BAND then
         bind_r (lex_next argv st2) (\<lambda>(t', st3).
         bind_r (aexpr env argv t' st3) (\<lambda>(res', st4). Inr (res' \<and> res, st4)))
       else Inr (res, st2\<lparr>t_wp := t_wp st2 - 1\<rparr>)))"
| "nexpr env argv n st =
     (if n = UNOT then
        bind_r (lex_next argv st) (\<lambda>(t, st1).
        bind_r (nexpr env argv t st1) (\<lambda>(res, st2). Inr (\<not> res, st2)))
      else primary env argv n st)"
| "primary env argv n st =
     (if n = EOI then syntax_err None ''argument expected''
      else if n = LPAREN then
        bind_r (lex_next argv st) (\<lambda>(t, st1).
        bind_r (oexpr env argv t st1) (\<lambda>(res, st2).
        bind_r (lex_next argv st2) (\<lambda>(t', st3).
          if t' \<noteq> RPAREN then syntax_err None ''closing paren expected''
          else Inr (res, st3))))
      else if op_is UNOP st then unary_primary env argv n (the (t_wp_op st)) st
      else operand_primary env argv st)"
  by pat_completeness auto


text \<open>A routine that returns has not moved \<open>t_wp\<close> back; shown for the calls that return, it
  is what makes every loop of calls end.\<close>

lemma lex_next_Inr:
  "lex_next argv st = Inr (t, st') \<longleftrightarrow>
     t_wp st + 1 < length argv \<and> t = fst (t_lex (argv ! (t_wp st + 1)) st) \<and>
     st' = snd (t_lex (argv ! (t_wp st + 1)) (st\<lparr>t_wp := t_wp st + 1\<rparr>))"
  by (auto simp: lex_next_def arg_def t_lex_def split: option.splits)

lemma t_wp_t_lex [simp]: "t_wp (snd (t_lex s st)) = t_wp st"
  by (simp add: t_lex_def split: option.split)

lemma syntax_err_Inr [simp]: "syntax_err op msg \<noteq> Inr v" "Inr v \<noteq> syntax_err op msg"
  by (simp_all add: syntax_err_def split: option.split)

lemma unary_t_wp: "unary_primary env argv n op st = Inr (v, st') \<Longrightarrow> t_wp st \<le> t_wp st'"
  by (auto simp: unary_primary_def bind_r_Inr split: option.splits)

lemma binop_t_wp: "binop env argv st = Inr (v, st') \<Longrightarrow> t_wp st \<le> t_wp st'"
  by (auto simp: binop_def bind_r_Inr lex_next_Inr Let_def split: option.splits if_splits)

lemma operand_t_wp: "operand_primary env argv st = Inr (v, st') \<Longrightarrow> t_wp st \<le> t_wp st'"
  by (auto simp: operand_primary_def bind_r_Inr Let_def dest: binop_t_wp split: if_splits)

lemma advance:
  "oexpr_aexpr_nexpr_primary_dom (Inl (Inl (env, argv, n, st))) \<Longrightarrow>
     oexpr env argv n st = Inr (v, st') \<Longrightarrow> t_wp st \<le> t_wp st'"
  "oexpr_aexpr_nexpr_primary_dom (Inl (Inr (env, argv, n, st))) \<Longrightarrow>
     aexpr env argv n st = Inr (v, st') \<Longrightarrow> t_wp st \<le> t_wp st'"
  "oexpr_aexpr_nexpr_primary_dom (Inr (Inl (env, argv, n, st))) \<Longrightarrow>
     nexpr env argv n st = Inr (v, st') \<Longrightarrow> t_wp st \<le> t_wp st'"
  "oexpr_aexpr_nexpr_primary_dom (Inr (Inr (env, argv, n, st))) \<Longrightarrow>
     primary env argv n st = Inr (v, st') \<Longrightarrow> t_wp st \<le> t_wp st'"
proof (induction env argv n st and env argv n st and env argv n st and env argv n st arbitrary: v st' and v st' and v st' and v st'
    rule: oexpr_aexpr_nexpr_primary.pinduct)
  case (1 env argv n st)
  show ?case using "1.prems" "1.IH"
    by (fastforce simp: oexpr.psimps [OF "1.hyps"] bind_r_Inr lex_next_Inr split: if_splits prod.splits)
next
  case (2 env argv n st)
  show ?case using "2.prems" "2.IH"
    by (fastforce simp: aexpr.psimps [OF "2.hyps"] bind_r_Inr lex_next_Inr split: if_splits prod.splits)
next
  case (3 env argv n st)
  show ?case using "3.prems" "3.IH"
    by (fastforce simp: nexpr.psimps [OF "3.hyps"] bind_r_Inr lex_next_Inr split: if_splits prod.splits)
next
  case (4 env argv n st)
  show ?case using "4.prems" "4.IH"
    by (fastforce simp: primary.psimps [OF "4.hyps"] bind_r_Inr lex_next_Inr
        dest: unary_t_wp operand_t_wp split: if_splits prod.splits)
qed

termination oexpr
  by (relation "measure (\<lambda>x. case x of
      Inl (Inl (env, argv, n, st)) \<Rightarrow> 4 * (length argv - t_wp st) + 3
    | Inl (Inr (env, argv, n, st)) \<Rightarrow> 4 * (length argv - t_wp st) + 2
    | Inr (Inl (env, argv, n, st)) \<Rightarrow> 4 * (length argv - t_wp st) + 1
    | Inr (Inr (env, argv, n, st)) \<Rightarrow> 4 * (length argv - t_wp st))")
    (auto simp: lex_next_Inr dest!: advance)

declare oexpr.simps [simp del] aexpr.simps [simp del] nexpr.simps [simp del] primary.simps [simp del]

section \<open>The main program\<close>

definition exit_of :: "bool \<Rightarrow> nat" where
  "exit_of res = (if res then 0 else 1)"

text \<open>The test \<open>s[0] == '!' && s[1] == '\0'\<close>.\<close>

definition is_bang :: "string \<Rightarrow> bool" where
  "is_bang s = (s = ''!'')"

definition arg_str :: "t_argv \<Rightarrow> nat \<Rightarrow> t_stop + string" where
  "arg_str argv i = bind_r (arg argv i) deref"

text \<open>A special case with a binary operator at \<open>argv[i + 1]\<close>: \<open>t_wp = &argv[i]\<close>, then
  \<open>binop()\<close>; \<open>None\<close> when the word there is no such operator.\<close>

definition special_binop :: "t_env \<Rightarrow> t_argv \<Rightarrow> nat \<Rightarrow> (t_stop + bool) option" where
  "special_binop env argv i =
     (case arg argv (i + 1) of
        Inl e \<Rightarrow> Some (Inl e)
      | Inr p \<Rightarrow>
          let st = snd (t_lex p \<lparr>t_wp = 0, t_wp_op = None\<rparr>) in
          if op_is BINOP st
          then Some (bind_r (binop env argv (st\<lparr>t_wp := i\<rparr>)) (\<lambda>(v, _). Inr v))
          else None)"

text \<open>The \<open>switch (argc)\<close>; \<open>None\<close> is its \<open>break\<close>.\<close>

definition special_case :: "t_env \<Rightarrow> t_argv \<Rightarrow> nat \<Rightarrow> (t_stop + nat) option" where
  "special_case env argv argc =
     (if argc = 1 then Some (Inr 1)
      else if argc = 2 then
        Some (bind_r (arg_str argv 1) (\<lambda>s. Inr (exit_of (s \<noteq> []))))
      else if argc = 3 then
        (case arg_str argv 1 of
           Inl e \<Rightarrow> Some (Inl e)
         | Inr s \<Rightarrow> if is_bang s
             then Some (bind_r (arg_str argv 2) (\<lambda>w. Inr (exit_of (w = [])))) else None)
      else if argc = 4 then
        (case arg_str argv 1 of
           Inl e \<Rightarrow> Some (Inl e)
         | Inr s \<Rightarrow> if is_bang s then None
             else map_option (\<lambda>r. bind_r r (\<lambda>v. Inr (exit_of v))) (special_binop env argv 1))
      else if argc = 5 then
        (case arg_str argv 1 of
           Inl e \<Rightarrow> Some (Inl e)
         | Inr s \<Rightarrow> if is_bang s
             then map_option (\<lambda>r. bind_r r (\<lambda>v. Inr (exit_of (\<not> v)))) (special_binop env argv 2)
             else None)
      else None)"

text \<open>The general case: the whole expression, then no word may be left.\<close>

definition evaluate :: "t_env \<Rightarrow> t_argv \<Rightarrow> t_stop + nat" where
  "evaluate env argv =
     bind_r (arg argv 1) (\<lambda>p.
       case t_lex p \<lparr>t_wp = 1, t_wp_op = None\<rparr> of (n, st) \<Rightarrow>
         bind_r (oexpr env argv n st) (\<lambda>(v, st1).
         bind_r (arg argv (t_wp st1)) (\<lambda>q.
           if q = None then Inr (exit_of v)
           else bind_r (arg argv (t_wp st1 + 1)) (\<lambda>r.
             case r of None \<Rightarrow> Inr (exit_of v)
             | Some w \<Rightarrow> syntax_err (Some w) ''unknown operand''))))"

definition test_run :: "t_env \<Rightarrow> t_argv \<Rightarrow> nat \<Rightarrow> t_stop + nat" where
  "test_run env argv argc =
     (case special_case env argv argc of Some r \<Rightarrow> r | None \<Rightarrow> evaluate env argv)"

definition test_main :: "t_env \<Rightarrow> string list \<Rightarrow> t_stop + nat" where
  "test_main env args =
     (let argc = length args; argv = map Some args @ [None] in
      if args \<noteq> [] \<and> hd args = ''['' then
        if args ! (argc - 1) \<noteq> '']'' then Inl (Errx2 ''missing ]'')
        else test_run env (argv[argc - 1 := None]) (argc - 1)
      else test_run env argv argc)"

end
