(* ===== verification/Test_Parse.thy ===== *)
theory Test_Parse
  imports Test_Cmd
begin

text \<open>
  The evaluator of \<open>test\<close> seen from positions in the argument vector: its four routines as
  functions of the position they are called at, the fact that none of them reads outside the
  vector, stops through \<open>abort\<close> or dereferences a null pointer, and that they depend only on
  the words from the current one on.
\<close>

section \<open>The evaluator by positions\<close>

text \<open>
  \<open>t_wp_op\<close> is always the entry of the word last lexed, so a routine's work is determined by
  the position it is called at, and only the position it returns at matters to its caller.
  \<open>looked\<close> is the state after \<open>t_lex\<close> of the word at a position; \<open>o_at\<close> and its
  fellows are the four routines read off at a position.
\<close>

definition looked :: "t_argv \<Rightarrow> nat \<Rightarrow> token \<times> t_state" where
  "looked argv i = t_lex (argv ! i) \<lparr>t_wp = i, t_wp_op = None\<rparr>"

definition tok :: "t_argv \<Rightarrow> nat \<Rightarrow> t_stop + token" where
  "tok argv i = (if i < length argv then Inr (fst (looked argv i)) else Inl Fault)"

definition kind :: "string option \<Rightarrow> token_types \<Rightarrow> bool" where
  "kind p ty = op_is ty (snd (t_lex p \<lparr>t_wp = 0, t_wp_op = None\<rparr>))"

definition position :: "t_stop + bool \<times> t_state \<Rightarrow> t_stop + bool \<times> nat" where
  "position r = bind_r r (\<lambda>(v, st). Inr (v, t_wp st))"

definition o_at :: "t_env \<Rightarrow> t_argv \<Rightarrow> nat \<Rightarrow> t_stop + bool \<times> nat" where
  "o_at env argv i = position (case looked argv i of (n, st) \<Rightarrow> oexpr env argv n st)"

definition a_at :: "t_env \<Rightarrow> t_argv \<Rightarrow> nat \<Rightarrow> t_stop + bool \<times> nat" where
  "a_at env argv i = position (case looked argv i of (n, st) \<Rightarrow> aexpr env argv n st)"

definition n_at :: "t_env \<Rightarrow> t_argv \<Rightarrow> nat \<Rightarrow> t_stop + bool \<times> nat" where
  "n_at env argv i = position (case looked argv i of (n, st) \<Rightarrow> nexpr env argv n st)"

definition p_at :: "t_env \<Rightarrow> t_argv \<Rightarrow> nat \<Rightarrow> t_stop + bool \<times> nat" where
  "p_at env argv i = position (case looked argv i of (n, st) \<Rightarrow> primary env argv n st)"

definition b_at :: "t_env \<Rightarrow> t_argv \<Rightarrow> nat \<Rightarrow> t_stop + bool \<times> nat" where
  "b_at env argv i = position (binop env argv \<lparr>t_wp = i, t_wp_op = None\<rparr>)"

lemma t_lex_looked: "t_lex (argv ! t_wp st) st = looked argv (t_wp st)"
  by (cases st) (simp add: looked_def t_lex_def split: option.split)

lemma lex_next_looked:
  "lex_next argv st = (if t_wp st + 1 < length argv then Inr (looked argv (t_wp st + 1)) else Inl Fault)"
  by (cases st) (simp add: lex_next_def arg_def looked_def t_lex_def split: option.split)

lemma looked_t_wp [simp]: "t_wp (snd (looked argv i)) = i"
  by (simp add: looked_def)

lemma looked_kind: "op_is ty (snd (looked argv i)) = kind (argv ! i) ty"
  by (simp add: looked_def kind_def t_lex_def op_is_def split: option.split)

lemma bind_r_assoc: "bind_r (bind_r r f) g = bind_r r (\<lambda>x. bind_r (f x) g)"
  by (cases r) auto

lemma bind_lex_next:
  "bind_r (lex_next argv st) f =
     bind_r (tok argv (t_wp st + 1)) (\<lambda>_. f (looked argv (t_wp st + 1)))"
  by (simp add: lex_next_looked tok_def)

lemma if_bind: "bind_r (if b then x else y) f = (if b then bind_r x f else bind_r y f)"
  by simp

lemma bind_syntax_err [simp]: "bind_r (syntax_err op msg) f = syntax_err op msg"
  by (simp add: syntax_err_def split: option.split)

lemma op_is_t_lex: "op_is ty (snd (t_lex q st)) = kind q ty"
  by (simp add: kind_def t_lex_def op_is_def split: option.split)

lemma binop_state: "t_wp st = i \<Longrightarrow> binop env argv st = binop env argv \<lparr>t_wp = i, t_wp_op = None\<rparr>"
  unfolding binop_def lex_next_looked by simp

lemma kind_Some: "kind p ty \<Longrightarrow> \<exists>op. t_wp_op (snd (t_lex p st)) = Some op"
  by (auto simp: kind_def t_lex_def op_is_def split: option.splits)

lemmas at_defs = o_at_def a_at_def n_at_def p_at_def b_at_def position_def split_def
  bind_r_assoc bind_lex_next if_bind

lemma o_at_eq:
  "o_at env argv i =
     bind_r (a_at env argv i) (\<lambda>(res, k).
     bind_r (tok argv (k + 1)) (\<lambda>_.
       if fst (looked argv (k + 1)) = BOR then
         bind_r (tok argv (k + 2)) (\<lambda>_.
         bind_r (o_at env argv (k + 2)) (\<lambda>(res', k'). Inr (res' \<or> res, k')))
       else Inr (res, k)))"
  by (simp add: at_defs oexpr.simps [of env argv "fst (looked argv i)" "snd (looked argv i)"]
      cong: if_cong)

lemma a_at_eq:
  "a_at env argv i =
     bind_r (n_at env argv i) (\<lambda>(res, k).
     bind_r (tok argv (k + 1)) (\<lambda>_.
       if fst (looked argv (k + 1)) = BAND then
         bind_r (tok argv (k + 2)) (\<lambda>_.
         bind_r (a_at env argv (k + 2)) (\<lambda>(res', k'). Inr (res' \<and> res, k')))
       else Inr (res, k)))"
  by (simp add: at_defs aexpr.simps [of env argv "fst (looked argv i)" "snd (looked argv i)"]
      cong: if_cong)

lemma n_at_eq:
  "n_at env argv i =
     (if fst (looked argv i) = UNOT then
        bind_r (tok argv (i + 1)) (\<lambda>_.
        bind_r (n_at env argv (i + 1)) (\<lambda>(res, k). Inr (\<not> res, k)))
      else p_at env argv i)"
  by (simp add: at_defs nexpr.simps [of env argv "fst (looked argv i)" "snd (looked argv i)"] cong: if_cong)

lemma p_at_eq:
  "p_at env argv i =
     (if fst (looked argv i) = EOI then syntax_err None ''argument expected''
      else if fst (looked argv i) = LPAREN then
        bind_r (tok argv (i + 1)) (\<lambda>_.
        bind_r (o_at env argv (i + 1)) (\<lambda>(res, k).
        bind_r (tok argv (k + 1)) (\<lambda>_.
          if fst (looked argv (k + 1)) \<noteq> RPAREN then syntax_err None ''closing paren expected'' else Inr (res, k + 1))))
      else if kind (argv ! i) UNOP then
        bind_r (arg argv (i + 1)) (\<lambda>p.
          case p of
            None \<Rightarrow> syntax_err (map_option op_text (t_wp_op (snd (looked argv i)))) ''argument expected''
          | Some s \<Rightarrow> bind_r (unop_value env (fst (looked argv i)) s) (\<lambda>v. Inr (v, i + 1)))
      else
        bind_r (arg argv (i + 1)) (\<lambda>q.
          if kind q BINOP then b_at env argv i
          else bind_r (arg_str argv i) (\<lambda>s. Inr (length s > 0, i))))"
proof -
  define st where "st = snd (looked argv i)"
  have wp: "t_wp st = i" by (simp add: st_def)
  have un: "syntax_err (Some (op_text (the (t_wp_op st)))) m = syntax_err (map_option op_text (t_wp_op st)) m"
    if "kind (argv ! i) UNOP" for m
    using kind_Some [OF that, of "\<lparr>t_wp = i, t_wp_op = None\<rparr>"] by (auto simp: st_def looked_def)
  have unary: "position (unary_primary env argv n (the (t_wp_op st)) st) =
      bind_r (arg argv (i + 1)) (\<lambda>p.
          case p of
            None \<Rightarrow> syntax_err (map_option op_text (t_wp_op st)) ''argument expected''
          | Some s \<Rightarrow> bind_r (unop_value env n s) (\<lambda>v. Inr (v, i + 1)))"
    if "kind (argv ! i) UNOP" for n
    using un [OF that] by (auto simp: unary_primary_def at_defs wp intro!: bind_r_cong split: option.split)
  have bs: "binop env argv (snd (t_lex q st)) = binop env argv \<lparr>t_wp = i, t_wp_op = None\<rparr>" for q
    by (rule binop_state) (simp add: wp)
  have operand: "position (operand_primary env argv st) =
      bind_r (arg argv (i + 1)) (\<lambda>q.
          if kind q BINOP then b_at env argv i
          else bind_r (arg_str argv i) (\<lambda>s. Inr (length s > 0, i)))"
    by (auto simp: operand_primary_def at_defs wp op_is_t_lex Let_def bs arg_str_def
        intro!: bind_r_cong)
  have knd: "op_is UNOP st = kind (argv ! i) UNOP" by (simp add: st_def looked_kind)
  show ?thesis
  proof (cases "fst (looked argv i) \<noteq> EOI \<and> fst (looked argv i) \<noteq> LPAREN")
    case True
    then show ?thesis
      unfolding p_at_def split_def primary.simps [of env argv "fst (looked argv i)"] st_def [symmetric]
      using unary operand knd by (simp cong: if_cong option.case_cong)
  next
    case False
    then show ?thesis
      unfolding p_at_def split_def primary.simps [of env argv "fst (looked argv i)"] st_def [symmetric]
      by (auto simp: at_defs wp cong: if_cong)
  qed
qed


section \<open>No read outside the vector\<close>

definition terminated :: "t_argv \<Rightarrow> bool" where
  "terminated argv \<longleftrightarrow> argv \<noteq> [] \<and> last argv = None"

definition word_at :: "t_argv \<Rightarrow> nat \<Rightarrow> bool" where
  "word_at argv k \<longleftrightarrow> k < length argv \<and> argv ! k \<noteq> None"

definition clean :: "t_stop + 'a \<Rightarrow> bool" where
  "clean r \<longleftrightarrow> (\<forall>e. r = Inl e \<longrightarrow> (\<exists>m. e = Errx2 m))"

text \<open>A routine called at \<open>i\<close> ends in an error message, or returns at a word not before.\<close>

definition good_at :: "t_argv \<Rightarrow> nat \<Rightarrow> t_stop + bool \<times> nat \<Rightarrow> bool" where
  "good_at argv i r \<longleftrightarrow> clean r \<and> (\<forall>v k. r = Inr (v, k) \<longrightarrow> i \<le> k \<and> word_at argv k)"

lemma clean_simps [simp]: "clean (Inr a)" "clean (Inl (Errx2 m))" "clean (syntax_err op msg)"
  by (auto simp: clean_def syntax_err_def split: option.splits if_splits)

lemma clean_bind [intro]:
  "clean r \<Longrightarrow> (\<And>a. r = Inr a \<Longrightarrow> clean (f a)) \<Longrightarrow> clean (bind_r r f)"
  by (cases r) (auto simp: clean_def)

lemma clean_getn: "clean (getn env s)"
  by (simp add: getn_def split: prod.split)

lemma clean_unop: "clean (unop_value env n s)"
  by (auto simp: unop_value_def clean_getn split: token.split)

lemma ops_entries: "t_lex_loop tab w = Some op \<Longrightarrow> op \<in> set tab \<and> op_text op = w"
  by (induction tab w rule: t_lex_loop.induct) (auto split: if_splits)

lemma ops_tokens:
  "op \<in> set ops \<Longrightarrow> op_num op \<noteq> EOI \<and> op_num op \<noteq> OPERAND"
  by (auto simp: ops_def t_op.make_def)

lemma clean_int_cmp: "clean (int_cmp env rel a b)"
  unfolding int_cmp_def by (intro clean_bind clean_getn clean_simps)

lemma clean_binop_value:
  assumes "op \<in> set ops" "op_type op = BINOP"
  shows "clean (binop_value env (op_num op) a b)"
  using assms by (auto simp: ops_def t_op.make_def binop_value_def clean_int_cmp)

lemma looked_EOI: "fst (looked argv i) = EOI \<longleftrightarrow> argv ! i = None"
  by (auto simp: looked_def t_lex_def dest: ops_entries ops_tokens split: option.split)

lemma next_word: "terminated argv \<Longrightarrow> word_at argv k \<Longrightarrow> k + 1 < length argv"
  by (cases "k = length argv - 1") (auto simp: terminated_def word_at_def last_conv_nth)

lemma word_at_looked: "k < length argv \<Longrightarrow> fst (looked argv k) \<noteq> EOI \<Longrightarrow> word_at argv k"
  by (simp add: word_at_def looked_EOI)

lemma good_at_simps [simp]:
  "good_at argv i (Inr (v, k)) \<longleftrightarrow> i \<le> k \<and> word_at argv k"
  "good_at argv i (syntax_err op msg)"
  by (auto simp: good_at_def)

lemma good_at_bind:
  assumes "good_at argv j r" "i \<le> j"
    "\<And>v k. r = Inr (v, k) \<Longrightarrow> i \<le> k \<Longrightarrow> word_at argv k \<Longrightarrow> good_at argv i (f (v, k))"
  shows "good_at argv i (bind_r r f)"
  using assms by (cases r) (fastforce simp: good_at_def clean_def)+

lemma good_at_value:
  "clean r \<Longrightarrow> i \<le> k \<Longrightarrow> word_at argv k \<Longrightarrow> good_at argv i (bind_r r (\<lambda>v. Inr (v, k)))"
  by (cases r) (auto simp: good_at_def clean_def)

lemma tok_Inr [simp]: "k < length argv \<Longrightarrow> tok argv k = Inr (fst (looked argv k))"
  by (simp add: tok_def)

lemma arg_Inr [simp]: "k < length argv \<Longrightarrow> arg argv k = Inr (argv ! k)"
  by (simp add: arg_def)

lemma kind_word: "kind p ty \<longleftrightarrow> (\<exists>w op. p = Some w \<and> t_lex_loop ops w = Some op \<and> op_type op = ty)"
  by (auto simp: kind_def t_lex_def op_is_def split: option.splits)

text \<open>\<open>binop\<close> on three words.\<close>

lemma b_at_words:
  assumes "i + 2 < length argv" "argv ! i = Some a" "argv ! (i + 1) = Some w"
    "t_lex_loop ops w = Some op"
  shows "b_at env argv i =
    (case argv ! (i + 2) of
       None \<Rightarrow> syntax_err (Some w) ''argument expected''
     | Some b \<Rightarrow> bind_r (binop_value env (op_num op) a b) (\<lambda>v. Inr (v, i + 2)))"
  using assms ops_entries [OF assms(4)]
  by (simp add: b_at_def position_def binop_def lex_next_looked looked_def t_lex_def Let_def deref_def
      bind_r_assoc split: option.split)

lemma b_at_good:
  assumes "terminated argv" "word_at argv i" "kind (argv ! (i + 1)) BINOP"
  shows "good_at argv i (b_at env argv i)"
proof -
  obtain a where a: "argv ! i = Some a" using assms(2) by (auto simp: word_at_def)
  obtain w op where w: "argv ! (i + 1) = Some w" "t_lex_loop ops w = Some op" "op_type op = BINOP"
    using assms(3) by (auto simp: kind_word)
  have l: "i + 2 < length argv"
    using next_word [OF assms(1,2)] next_word [OF assms(1), of "i + 1"] w by (simp add: word_at_def)
  have "clean (binop_value env (op_num op) a b)" for b
    using clean_binop_value ops_entries w by blast
  then show ?thesis
    unfolding b_at_words [OF l a w(1,2)] using l
    by (auto intro!: good_at_value simp: word_at_def split: option.split)
qed

lemma p_at_good:
  assumes "terminated argv" "i < length argv"
    and o: "i + 1 < length argv \<Longrightarrow> good_at argv (i + 1) (o_at env argv (i + 1))"
  shows "good_at argv i (p_at env argv i)"
proof (cases "fst (looked argv i) = EOI")
  case True
  then show ?thesis by (simp add: p_at_eq [of env argv i])
next
  case False
  then have w: "word_at argv i" using assms(2) word_at_looked by blast
  note l = next_word [OF assms(1) w]
  have "good_at argv i (bind_r (o_at env argv (i + 1)) (\<lambda>(res, k).
        bind_r (tok argv (k + 1)) (\<lambda>_.
          if fst (looked argv (k + 1)) \<noteq> RPAREN then syntax_err None ''closing paren expected'' else Inr (res, k + 1))))"
    by (rule good_at_bind [OF o [OF l]])
      (use next_word [OF assms(1)] word_at_looked [of "_ + 1" argv] in \<open>force simp: if_distrib\<close>)+
  moreover have "good_at argv i (bind_r (unop_value env n s) (\<lambda>v. Inr (v, i + 1)))" 
    if "argv ! (i + 1) = Some s" for n s
    using that l by (intro good_at_value clean_unop) (auto simp: word_at_def)
  moreover have "good_at argv i (bind_r (arg_str argv i) (\<lambda>s. Inr (length s > 0, i)))"
    using w by (auto simp: arg_str_def deref_def word_at_def)
  ultimately show ?thesis
    using False l b_at_good [OF assms(1) w] unfolding p_at_eq [of env argv i] 
    by (simp split: option.split)
qed

lemma good_at_chain:
  assumes t: "terminated argv" and r: "good_at argv i r" and T: "T \<noteq> EOI"
    and f: "\<And>j. i < j \<Longrightarrow> j < length argv \<Longrightarrow> good_at argv j (f j)"
  shows "good_at argv i (bind_r r (\<lambda>(res, k).
     bind_r (tok argv (k + 1)) (\<lambda>_.
       if fst (looked argv (k + 1)) = T then
         bind_r (tok argv (k + 2)) (\<lambda>_.
         bind_r (f (k + 2)) (\<lambda>(res', k'). Inr (g res' res, k')))
       else Inr (res, k))))"
proof (rule good_at_bind [OF r order.refl], unfold prod.case)
  fix v k
  assume k: "i \<le> k" "word_at argv k"
  note l = next_word [OF t k(2)]
  have l2: "k + 2 < length argv" if "fst (looked argv (k + 1)) = T"
    using next_word [OF t word_at_looked [OF l]] that T by simp
  have "good_at argv i (bind_r (f (k + 2)) (\<lambda>(res', k'). Inr (g res' v, k')))" if "k + 2 < length argv"
    by (rule good_at_bind [OF f]) (use that k in auto)
  then show "good_at argv i (bind_r (tok argv (k + 1)) (\<lambda>_.
       if fst (looked argv (k + 1)) = T then
         bind_r (tok argv (k + 2)) (\<lambda>_. bind_r (f (k + 2)) (\<lambda>(res', k'). Inr (g res' v, k')))
       else Inr (v, k)))"
    using l l2 k by simp
qed

lemma at_good:
  assumes "terminated argv" "i < length argv"
  shows "good_at argv i (o_at env argv i) \<and> good_at argv i (a_at env argv i) \<and>
    good_at argv i (n_at env argv i) \<and> good_at argv i (p_at env argv i)"
  using assms(2)
proof (induction "length argv - i" arbitrary: i rule: less_induct)
  case less
  have IH: "good_at argv j (o_at env argv j)" "good_at argv j (a_at env argv j)"
    "good_at argv j (n_at env argv j)" if "i < j" "j < length argv" for j
    using less(1) [of j] that less(2) by auto
  have p: "good_at argv i (p_at env argv i)"
    using p_at_good [OF assms(1) less(2)] IH by simp
  have n: "good_at argv i (n_at env argv i)"
  proof (cases "fst (looked argv i) = UNOT")
    case True
    then have l: "i + 1 < length argv" using next_word [OF assms(1) word_at_looked [OF less(2)]] by simp
    have "good_at argv i (bind_r (n_at env argv (i + 1)) (\<lambda>(res, k). Inr (\<not> res, k)))"
      by (rule good_at_bind [OF IH(3)]) (use l in auto)
    then show ?thesis using True l by (simp add: n_at_eq [of env argv i])
  qed (simp add: n_at_eq [of env argv i] p)
  have a: "good_at argv i (a_at env argv i)"
    unfolding a_at_eq [of env argv i] by (rule good_at_chain [OF assms(1) n]) (use IH in auto)
  have "good_at argv i (o_at env argv i)"
    unfolding o_at_eq [of env argv i] by (rule good_at_chain [OF assms(1) a]) (use IH in auto)
  with a n p show ?case by blast
qed


section \<open>Only the words from the current one on matter\<close>

definition agrees :: "nat \<Rightarrow> t_argv \<Rightarrow> t_argv \<Rightarrow> bool" where
  "agrees i argv argv' \<longleftrightarrow>
     length argv \<le> length argv' \<and> (\<forall>j. i \<le> j \<longrightarrow> j < length argv \<longrightarrow> argv' ! j = argv ! j)"

lemma agrees_later: "agrees i argv argv' \<Longrightarrow> i \<le> j \<Longrightarrow> agrees j argv argv'"
  by (auto simp: agrees_def)

lemma agrees_reads:
  assumes "agrees i argv argv'" "i \<le> j" "j < length argv"
  shows "argv' ! j = argv ! j" "looked argv' j = looked argv j" "tok argv' j = tok argv j"
    "arg argv' j = arg argv j" "arg_str argv' j = arg_str argv j"
  using assms by (auto simp: agrees_def looked_def tok_def arg_def arg_str_def)

lemma b_at_agrees:
  assumes t: "terminated argv" and ag: "agrees i argv argv'" and w: "word_at argv i"
    and b: "kind (argv ! (i + 1)) BINOP"
  shows "b_at env argv' i = b_at env argv i"
proof -
  obtain a where a: "argv ! i = Some a" using w by (auto simp: word_at_def)
  obtain w' op where w': "argv ! (i + 1) = Some w'" "t_lex_loop ops w' = Some op"
    using b by (auto simp: kind_word)
  have l: "i + 2 < length argv"
    using next_word [OF t w] next_word [OF t, of "i + 1"] w' by (simp add: word_at_def)
  then have l': "i + 2 < length argv'" using ag by (simp add: agrees_def)
  note r = agrees_reads(1) [OF ag]
  have "argv' ! i = Some a" "argv' ! (i + 1) = Some w'" "argv' ! (i + 2) = argv ! (i + 2)"
    using r [of i] r [of "i + 1"] r [of "i + 2"] l a w' by auto
  then show ?thesis
    using b_at_words [OF l a w'] b_at_words [OF l' _ _ w'(2)] by simp
qed

lemma p_at_agrees:
  assumes t: "terminated argv" and ag: "agrees i argv argv'" and i: "i < length argv"
    and o: "i + 1 < length argv \<Longrightarrow> o_at env argv' (i + 1) = o_at env argv (i + 1)"
  shows "p_at env argv' i = p_at env argv i"
proof (cases "fst (looked argv i) = EOI")
  case True
  then show ?thesis using agrees_reads(2) [OF ag order.refl i] by (simp add: p_at_eq [of env _ i])
next
  case False
  then have w: "word_at argv i" using i word_at_looked by blast
  note l = next_word [OF t w]
  have rest: "tok argv' (k + 1) = tok argv (k + 1) \<and> looked argv' (k + 1) = looked argv (k + 1)"
    if "o_at env argv (i + 1) = Inr (v, k)" for v k
  proof -
    have "i + 1 \<le> k \<and> word_at argv k" using at_good [OF t l, of env] that by (simp add: good_at_def)
    then show ?thesis using agrees_reads [OF ag, of "k + 1"] next_word [OF t, of k] by simp
  qed
  show ?thesis
    using o [OF l] False agrees_reads [OF ag, of i] agrees_reads [OF ag, of "i + 1"] l
      b_at_agrees [OF t ag w, of env] rest
    unfolding p_at_eq [of env _ i]
    by (auto intro!: bind_r_cong cong: if_cong)
qed

lemma chain_agrees:
  assumes t: "terminated argv" and ag: "agrees i argv argv'" and r: "good_at argv i r" and T: "T \<noteq> EOI"
    and f: "\<And>j. i < j \<Longrightarrow> j < length argv \<Longrightarrow> f' j = f j"
  shows "bind_r r (\<lambda>(res, k).
     bind_r (tok argv' (k + 1)) (\<lambda>_.
       if fst (looked argv' (k + 1)) = T then
         bind_r (tok argv' (k + 2)) (\<lambda>_.
         bind_r (f' (k + 2)) (\<lambda>(res', k'). Inr (g res' res, k')))
       else Inr (res, k))) =
   bind_r r (\<lambda>(res, k).
     bind_r (tok argv (k + 1)) (\<lambda>_.
       if fst (looked argv (k + 1)) = T then
         bind_r (tok argv (k + 2)) (\<lambda>_.
         bind_r (f (k + 2)) (\<lambda>(res', k'). Inr (g res' res, k')))
       else Inr (res, k)))"
proof (intro bind_r_cong [OF refl], clarify)
  fix v k
  assume "r = Inr (v, k)"
  then have k: "i \<le> k" "word_at argv k" using r by (auto simp: good_at_def)
  note l = next_word [OF t k(2)]
  have l2: "k + 2 < length argv" if "fst (looked argv (k + 1)) = T"
    using next_word [OF t word_at_looked [OF l]] that T by simp
  show "bind_r (tok argv' (k + 1)) (\<lambda>_.
       if fst (looked argv' (k + 1)) = T then
         bind_r (tok argv' (k + 2)) (\<lambda>_. bind_r (f' (k + 2)) (\<lambda>(res', k'). Inr (g res' v, k')))
       else Inr (v, k)) =
     bind_r (tok argv (k + 1)) (\<lambda>_.
       if fst (looked argv (k + 1)) = T then
         bind_r (tok argv (k + 2)) (\<lambda>_. bind_r (f (k + 2)) (\<lambda>(res', k'). Inr (g res' v, k')))
       else Inr (v, k))"
    using agrees_reads [OF ag, of "k + 1"] agrees_reads [OF ag, of "k + 2"] l l2 k f [of "k + 2"]
    by simp
qed

lemma at_agrees:
  assumes "terminated argv" "agrees i argv argv'" "i < length argv"
  shows "o_at env argv' i = o_at env argv i \<and> a_at env argv' i = a_at env argv i \<and>
    n_at env argv' i = n_at env argv i \<and> p_at env argv' i = p_at env argv i"
  using assms(2,3)
proof (induction "length argv - i" arbitrary: i rule: less_induct)
  case less
  note t = assms(1) and ag = less(2)
  have IH: "o_at env argv' j = o_at env argv j" "a_at env argv' j = a_at env argv j"
    "n_at env argv' j = n_at env argv j" if "i < j" "j < length argv" for j
    using less(1) [of j] that less(3) agrees_later [OF ag, of j] by auto
  have p: "p_at env argv' i = p_at env argv i"
    using p_at_agrees [OF t ag less(3)] IH by simp
  have n: "n_at env argv' i = n_at env argv i"
    using agrees_reads [OF ag, of i] agrees_reads [OF ag, of "i + 1"] p IH(3) [of "i + 1"] less(3)
      next_word [OF t, of i] word_at_looked [of i argv]
    by (simp add: n_at_eq [of env _ i])
  note g = at_good [OF t less(3), of env]
  have a: "a_at env argv' i = a_at env argv i"
    unfolding a_at_eq [of env _ i] n by (rule chain_agrees [OF t ag]) (use g IH in auto)
  have "o_at env argv' i = o_at env argv i"
    unfolding o_at_eq [of env _ i] a by (rule chain_agrees [OF t ag]) (use g IH in auto)
  with a n p show ?case by blast
qed

end
