(* ===== verification/Test_Cond.thy ===== *)
theory Test_Cond
  imports Test_Parse
begin

text \<open>
  The conditions \<open>test\<close> evaluates: their syntax, how they are written as words, what they
  mean, and that the evaluator of \<open>test.c\<close>, started at the first word of a written condition,
  computes its meaning and stops at its last word.
\<close>

section \<open>Conditions\<close>

text \<open>The conditions the grammar describes, and how they are written: parentheses where the
  precedences (\<open>!\<close> over \<open>-a\<close> over \<open>-o\<close>) need them. Level 0 is a place for a whole
  expression, 1 an operand of \<open>-o\<close>, 2 an operand of \<open>-a\<close> or \<open>!\<close>.\<close>

datatype cond =
    Word string
  | Unary string string
  | Binary string string string
  | Neg cond
  | Conj cond cond
  | Disj cond cond

definition parens :: "bool \<Rightarrow> string list \<Rightarrow> string list" where
  "parens b ws = (if b then ''('' # ws @ ['')''] else ws)"

fun render :: "nat \<Rightarrow> cond \<Rightarrow> string list" where
  "render l (Word w) = [w]"
| "render l (Unary op s) = [op, s]"
| "render l (Binary a op b) = [a, op, b]"
| "render l (Neg c) = ''!'' # render 2 c"
| "render l (Conj c d) = parens (1 < l) (render 2 c @ ''-a'' # render 1 d)"
| "render l (Disj c d) = parens (0 < l) (render 1 c @ ''-o'' # render 0 d)"

definition plain_word :: "string \<Rightarrow> bool" where
  "plain_word w \<longleftrightarrow> w \<noteq> ''!'' \<and> w \<noteq> ''('' \<and> \<not> kind (Some w) UNOP"

text \<open>A word at the start of a primary must not be an operator itself; operands are free.\<close>

fun wf_cond :: "cond \<Rightarrow> bool" where
  "wf_cond (Word w) = plain_word w"
| "wf_cond (Unary op s) = kind (Some op) UNOP"
| "wf_cond (Binary a op b) = (plain_word a \<and> kind (Some op) BINOP)"
| "wf_cond (Neg c) = wf_cond c"
| "wf_cond (Conj c d) = (wf_cond c \<and> wf_cond d)"
| "wf_cond (Disj c d) = (wf_cond c \<and> wf_cond d)"

text \<open>What the primaries mean, operator by operator.\<close>

definition file_has :: "t_env \<Rightarrow> string \<Rightarrow> (stat_buf \<Rightarrow> bool) \<Rightarrow> t_stop + bool" where
  "file_has env s P = Inr (case do_stat env s of None \<Rightarrow> False | Some b \<Rightarrow> P b)"

definition file_type :: "u16 \<Rightarrow> stat_buf \<Rightarrow> bool" where
  "file_type ty b = (st_mode b AND S_IFMT = ty)"

definition unary_meaning :: "t_env \<Rightarrow> string \<Rightarrow> string \<Rightarrow> t_stop + bool" where
  "unary_meaning env op s =
     (if op = ''-z'' then Inr (s = [])
      else if op = ''-n'' then Inr (s \<noteq> [])
      else if op = ''-t'' then bind_r (getn env s) (\<lambda>fd. Inr (isatty env fd))
      else if op = ''-e'' then file_has env s (\<lambda>_. do_access env s F_OK)
      else if op = ''-r'' then file_has env s (\<lambda>_. do_access env s R_OK)
      else if op = ''-w'' then file_has env s (\<lambda>_. do_access env s W_OK)
      else if op = ''-x'' then file_has env s (\<lambda>_. do_access env s X_OK)
      else if op = ''-f'' then file_has env s (file_type S_IFREG)
      else if op = ''-d'' then file_has env s (file_type S_IFDIR)
      else if op = ''-c'' then file_has env s (file_type S_IFCHR)
      else if op = ''-b'' then file_has env s (file_type S_IFBLK)
      else if op = ''-p'' then file_has env s (file_type S_IFIFO)
      else if op = ''-S'' then file_has env s (file_type S_IFSOCK)
      else if op = ''-h'' \<or> op = ''-L'' then
        Inr (case do_lstat env s of None \<Rightarrow> False | Some b \<Rightarrow> file_type S_IFLNK b)
      else if op = ''-u'' then file_has env s (\<lambda>b. st_mode b AND S_ISUID \<noteq> 0)
      else if op = ''-g'' then file_has env s (\<lambda>b. st_mode b AND S_ISGID \<noteq> 0)
      else if op = ''-k'' then file_has env s (\<lambda>b. st_mode b AND S_ISVTX \<noteq> 0)
      else if op = ''-s'' then file_has env s (\<lambda>b. 0 < st_size b)
      else if op = ''-O'' then file_has env s (\<lambda>b. st_uid b = geteuid env)
      else if op = ''-G'' then file_has env s (\<lambda>b. st_gid b = getegid env)
      else Inl Abort)"

definition numbers :: "t_env \<Rightarrow> string \<Rightarrow> string \<Rightarrow> (int \<Rightarrow> int \<Rightarrow> bool) \<Rightarrow> t_stop + bool" where
  "numbers env a b rel = bind_r (getn env a) (\<lambda>x. bind_r (getn env b) (\<lambda>y. Inr (rel x y)))"

definition files :: "t_env \<Rightarrow> string \<Rightarrow> string \<Rightarrow> (stat_buf \<Rightarrow> stat_buf \<Rightarrow> bool) \<Rightarrow> t_stop + bool" where
  "files env a b rel =
     Inr (\<exists>x y. do_stat env a = Some x \<and> do_stat env b = Some y \<and> rel x y)"

definition binary_meaning :: "t_env \<Rightarrow> string \<Rightarrow> string \<Rightarrow> string \<Rightarrow> t_stop + bool" where
  "binary_meaning env a op b =
     (if op = ''='' then Inr (a = b)
      else if op = ''!='' then Inr (a \<noteq> b)
      else if op = ''<'' then Inr (strcmp a b < 0)
      else if op = ''>'' then Inr (strcmp b a < 0)
      else if op = ''-eq'' then numbers env a b (=)
      else if op = ''-ne'' then numbers env a b (\<noteq>)
      else if op = ''-ge'' then numbers env a b (\<ge>)
      else if op = ''-gt'' then numbers env a b (>)
      else if op = ''-le'' then numbers env a b (\<le>)
      else if op = ''-lt'' then numbers env a b (<)
      else if op = ''-nt'' then files env a b (\<lambda>x y. st_mtime y < st_mtime x)
      else if op = ''-ot'' then files env a b (\<lambda>x y. st_mtime x < st_mtime y)
      else if op = ''-ef'' then files env a b (\<lambda>x y. st_dev x = st_dev y \<and> st_ino x = st_ino y)
      else Inl Abort)"

text \<open>The value of a condition; a bad number anywhere in it, also in an operand that cannot
  change the result, is an error.\<close>

fun meaning :: "t_env \<Rightarrow> cond \<Rightarrow> t_stop + bool" where
  "meaning env (Word w) = Inr (w \<noteq> [])"
| "meaning env (Unary op s) = unary_meaning env op s"
| "meaning env (Binary a op b) = binary_meaning env a op b"
| "meaning env (Neg c) = bind_r (meaning env c) (\<lambda>x. Inr (\<not> x))"
| "meaning env (Conj c d) = bind_r (meaning env c) (\<lambda>x. bind_r (meaning env d) (\<lambda>y. Inr (x \<and> y)))"
| "meaning env (Disj c d) = bind_r (meaning env c) (\<lambda>x. bind_r (meaning env d) (\<lambda>y. Inr (x \<or> y)))"

lemma unary_table:
  "list_all (\<lambda>e. op_type e = UNOP \<longrightarrow> unop_value env (op_num e) s = unary_meaning env (op_text e) s) ops"
  by (simp add: ops_def t_op.make_def unop_value_def unary_meaning_def filstat_def file_has_def
      file_type_def cong: option.case_cong)

lemma strcmp_greater: "0 < strcmp a b \<longleftrightarrow> strcmp b a < 0"
  by (subst strcmp_sym) simp

lemma binary_table:
  "list_all (\<lambda>e. op_type e = BINOP \<longrightarrow> binop_value env (op_num e) a b = binary_meaning env a (op_text e) b) ops"
  by (simp add: ops_def t_op.make_def binop_value_def binary_meaning_def int_cmp_def numbers_def
      files_def newerf_def olderf_def equalf_def strcmp_greater split: option.split)

lemma unary_means:
  "t_lex_loop ops op = Some e \<Longrightarrow> op_type e = UNOP \<Longrightarrow>
     unop_value env (op_num e) s = unary_meaning env op s"
  using ops_entries [of ops op e] unary_table [of env s] by (auto simp: list_all_iff)

lemma binary_means:
  "t_lex_loop ops op = Some e \<Longrightarrow> op_type e = BINOP \<Longrightarrow>
     binop_value env (op_num e) a b = binary_meaning env a op b"
  using ops_entries [of ops op e] binary_table [of env a b] by (auto simp: list_all_iff)


section \<open>The evaluator computes the meaning\<close>

definition token_of :: "string option \<Rightarrow> token" where
  "token_of p = fst (t_lex p \<lparr>t_wp = 0, t_wp_op = None\<rparr>)"

text \<open>The words \<open>ws\<close> stand in the vector from position \<open>i\<close> on.\<close>

fun seg :: "t_argv \<Rightarrow> nat \<Rightarrow> string list \<Rightarrow> bool" where
  "seg argv i [] \<longleftrightarrow> i \<le> length argv"
| "seg argv i (w # ws) \<longleftrightarrow> i < length argv \<and> argv ! i = Some w \<and> seg argv (i + 1) ws"

lemma looked_token: "fst (looked argv i) = token_of (argv ! i)"
  by (simp add: looked_def token_of_def t_lex_def split: option.split)

lemma seg_le: "seg argv i ws \<Longrightarrow> i + length ws \<le> length argv"
  by (induction ws arbitrary: i) force+

lemma seg_append [simp]:
  "seg argv i (us @ ws) \<longleftrightarrow> seg argv i us \<and> seg argv (i + length us) ws"
  by (induction us arbitrary: i) (auto dest: seg_le)

definition follows :: "nat \<Rightarrow> string option \<Rightarrow> bool" where
  "follows l p \<longleftrightarrow> \<not> kind p BINOP \<and> (l \<le> 1 \<longrightarrow> token_of p \<noteq> BAND) \<and> (l = 0 \<longrightarrow> token_of p \<noteq> BOR)"

definition level_at :: "nat \<Rightarrow> t_env \<Rightarrow> t_argv \<Rightarrow> nat \<Rightarrow> t_stop + bool \<times> nat" where
  "level_at l = (if l = 0 then o_at else if l = 1 then a_at else n_at)"

text \<open>The routine of level \<open>l\<close>, called at \<open>i\<close>, has the value \<open>r\<close> and returns at the
  word before \<open>k\<close>.\<close>

definition gets :: "nat \<Rightarrow> t_env \<Rightarrow> t_argv \<Rightarrow> nat \<Rightarrow> t_stop + bool \<Rightarrow> nat \<Rightarrow> bool" where
  "gets l env argv i r k \<longleftrightarrow> level_at l env argv i = bind_r r (\<lambda>v. Inr (v, k - 1))"

lemma word_kinds:
  "token_of (Some ''-a'') = BAND" "token_of (Some ''-o'') = BOR" "token_of (Some ''!'') = UNOT"
  "token_of (Some ''('') = LPAREN" "token_of (Some '')'') = RPAREN" "token_of None = EOI"
  "\<not> kind (Some ''-a'') ty \<or> ty = BBINOP" "\<not> kind (Some ''-o'') ty \<or> ty = BBINOP"
  "\<not> kind (Some ''!'') ty \<or> ty = BUNOP" "\<not> kind (Some '')'') ty \<or> ty = PAREN" "\<not> kind None ty"
  by (auto simp: token_of_def kind_def t_lex_def ops_def t_op.make_def op_is_def)

lemma ops_words:
  "list_all (\<lambda>e. op_num e \<noteq> EOI \<and> (op_num e = UNOT \<longrightarrow> op_text e = ''!'') \<and>
     (op_num e = LPAREN \<longrightarrow> op_text e = ''('') \<and>
     (op_type e = UNOP \<longrightarrow> op_num e \<noteq> UNOT \<and> op_num e \<noteq> LPAREN)) ops"
  by (simp add: ops_def t_op.make_def)

lemma plain_word_token: "plain_word w \<Longrightarrow> token_of (Some w) \<notin> {UNOT, LPAREN, EOI}"
  using ops_words ops_entries [of ops w]
  by (auto simp: plain_word_def token_of_def t_lex_def list_all_iff split: option.splits)

lemma unary_token: "kind (Some op) UNOP \<Longrightarrow> token_of (Some op) \<notin> {UNOT, LPAREN, EOI}"
  using ops_words ops_entries [of ops op]
  by (auto simp: kind_word token_of_def t_lex_def list_all_iff split: option.splits)

lemma gets_up1:
  assumes "gets 2 env argv i r k" "0 < k" "k < length argv" "token_of (argv ! k) \<noteq> BAND"
  shows "gets 1 env argv i r k"
  using assms by (simp add: gets_def level_at_def a_at_eq [of env argv i] looked_token bind_r_assoc)

lemma gets_up0:
  assumes "gets 1 env argv i r k" "0 < k" "k < length argv" "token_of (argv ! k) \<noteq> BOR"
  shows "gets 0 env argv i r k"
  using assms by (simp add: gets_def level_at_def o_at_eq [of env argv i] looked_token bind_r_assoc)

lemma gets_up:
  assumes "gets 2 env argv i r k" "0 < k" "k < length argv" "follows l (argv ! k)" 
  shows "gets l env argv i r k"
proof -
  consider "l = 0" | "l = 1" | "1 < l" by linarith
  then show ?thesis
  proof cases
    case 1
    then show ?thesis using assms gets_up1 [OF assms(1-3)] gets_up0 [OF _ assms(2,3)] by (auto simp: follows_def)
  next
    case 2
    then show ?thesis using assms gets_up1 [OF assms(1-3)] by (auto simp: follows_def)
  next
    case 3
    then show ?thesis using assms(1) by (simp add: gets_def level_at_def)
  qed
qed

lemma gets_word:
  assumes "i + 1 < length argv" "argv ! i = Some w" "plain_word w" "\<not> kind (argv ! (i + 1)) BINOP"
  shows "gets 2 env argv i (Inr (w \<noteq> [])) (i + 1)"
  using assms plain_word_token [OF assms(3)]
  by (simp add: gets_def level_at_def n_at_eq [of env argv i] p_at_eq [of env argv i] looked_token
      plain_word_def arg_str_def deref_def)

lemma gets_unary:
  assumes "i + 1 < length argv" "argv ! i = Some op" "argv ! (i + 1) = Some s" "kind (Some op) UNOP"
  shows "gets 2 env argv i (unary_meaning env op s) (i + 2)"
proof -
  obtain e where e: "t_lex_loop ops op = Some e" "op_type e = UNOP" using assms(4) by (auto simp: kind_word)
  then have "token_of (Some op) = op_num e" by (simp add: token_of_def t_lex_def)
  then show ?thesis
    using assms unary_token [OF assms(4)] unary_means [OF e, of env s]
    by (simp add: gets_def level_at_def n_at_eq [of env argv i] p_at_eq [of env argv i] looked_token)
qed

lemma gets_binary:
  assumes "i + 2 < length argv" "argv ! i = Some a" "argv ! (i + 1) = Some op" "argv ! (i + 2) = Some b"
    "plain_word a" "kind (Some op) BINOP"
  shows "gets 2 env argv i (binary_meaning env a op b) (i + 3)"
proof -
  obtain e where e: "t_lex_loop ops op = Some e" "op_type e = BINOP" using assms(6) by (auto simp: kind_word)
  show ?thesis
    using assms plain_word_token [OF assms(5)] b_at_words [OF assms(1-3) e(1), of env]
      binary_means [OF e, of env a b]
    by (simp add: gets_def level_at_def n_at_eq [of env argv i] p_at_eq [of env argv i] looked_token
        plain_word_def)
qed

lemma gets_neg:
  assumes "gets 2 env argv (i + 1) r k" "i + 1 < length argv" "argv ! i = Some ''!''"
  shows "gets 2 env argv i (bind_r r (\<lambda>x. Inr (\<not> x))) k"
  using assms by (simp add: gets_def level_at_def n_at_eq [of env argv i] looked_token word_kinds bind_r_assoc)

lemma gets_conj:
  assumes "gets 2 env argv i r k" "gets 1 env argv (k + 1) r' k'" "0 < k" "k + 1 < length argv"
    "argv ! k = Some ''-a''"
  shows "gets 1 env argv i (bind_r r (\<lambda>x. bind_r r' (\<lambda>y. Inr (x \<and> y)))) k'"
  using assms by (simp add: gets_def level_at_def a_at_eq [of env argv i] looked_token word_kinds bind_r_assoc conj_commute)

lemma gets_disj:
  assumes "gets 1 env argv i r k" "gets 0 env argv (k + 1) r' k'" "0 < k" "k + 1 < length argv"
    "argv ! k = Some ''-o''"
  shows "gets 0 env argv i (bind_r r (\<lambda>x. bind_r r' (\<lambda>y. Inr (x \<or> y)))) k'"
  using assms by (simp add: gets_def level_at_def o_at_eq [of env argv i] looked_token word_kinds bind_r_assoc disj_commute)

lemma gets_parens:
  assumes "gets 0 env argv (i + 1) r k" "0 < k" "i + 1 < length argv" "k < length argv" "argv ! i = Some ''(''"
    "argv ! k = Some '')''"
  shows "gets 2 env argv i r (k + 1)"
  using assms by (simp add: gets_def level_at_def n_at_eq [of env argv i] p_at_eq [of env argv i]
      looked_token word_kinds bind_r_assoc)


lemma render_nonempty: "0 < length (render l c)"
  by (cases c) (auto simp: parens_def)

lemma follows_parens: "follows 0 (Some '')'')" "follows 2 (Some ''-a'')" "follows 1 (Some ''-o'')" "follows 0 None"
  using word_kinds by (auto simp: follows_def)

lemma follows_2: "follows l p \<Longrightarrow> follows 2 p"
  by (simp add: follows_def)

text \<open>A construct of level \<open>m\<close>, at a place of level \<open>l\<close>: bare where that is allowed, else
  in parentheses.\<close>

lemma gets_placed:
  assumes bare: "\<And>i. seg argv i ws \<Longrightarrow> i + length ws < length argv \<Longrightarrow>
      follows m (argv ! (i + length ws)) \<Longrightarrow> gets m env argv i r (i + length ws)"
    and ws: "ws \<noteq> []" and m: "m \<le> 1"
    and seg: "seg argv i (parens (m < l) ws)" and k: "k = i + length (parens (m < l) ws)" "k < length argv"
    and fol: "follows l (argv ! k)"
  shows "gets l env argv i r k"
proof (cases "m < l")
  case True
  define j where "j = i + 1 + length ws"
  have sg: "i < length argv" "argv ! i = Some ''(''" "seg argv (i + 1) ws" "j < length argv" "argv ! j = Some '')''"
    using seg True by (auto simp: parens_def j_def)
  have kj: "k = j + 1" using k True by (simp add: parens_def j_def)
  have "gets m env argv (i + 1) r j"
    using bare [OF sg(3)] sg follows_parens word_kinds by (auto simp: j_def follows_def)
  moreover have "m = 0 \<or> m = 1" using m by auto
  ultimately have "gets 0 env argv (i + 1) r j"
    using gets_up0 [of env argv "i + 1" r j] sg word_kinds by (auto simp: j_def)
  then have "gets 2 env argv i r k"
    using gets_parens [of env argv i r j] sg kj by (auto simp: j_def)
  then show ?thesis using gets_up [of env argv i r k l] k(2) fol kj by simp
next
  case False
  then have g: "gets m env argv i r k" if "follows m (argv ! k)"
    using bare [of i] seg k that by (simp add: parens_def)
  have fm: "follows m (argv ! k)" using fol False m by (auto simp: follows_def)
  consider "m = l" | "m = 1" "l = 0" using False m by linarith
  then show ?thesis
  proof cases
    case 1
    then show ?thesis using g [OF fm] by simp
  next
    case 2
    then show ?thesis using gets_up0 [of env argv i r k] g [OF fm] fol k ws by (auto simp: follows_def parens_def)
  qed
qed

lemma render_gets:
  "wf_cond c \<Longrightarrow> seg argv i (render l c) \<Longrightarrow> k = i + length (render l c) \<Longrightarrow> k < length argv \<Longrightarrow>
     follows l (argv ! k) \<Longrightarrow> gets l env argv i (meaning env c) k"
proof (induction c arbitrary: l i k)
  case (Word w)
  then show ?case using gets_up [OF gets_word [of i argv w env], of l] by (auto simp: follows_def)
next
  case (Unary op s)
  then show ?case using gets_up [OF gets_unary [of i argv op s env], of l] by (auto simp: numeral_2_eq_2)
next
  case (Binary a op b)
  then show ?case
    using gets_up [OF gets_binary [of i argv a op b env], of l] by (auto simp: eval_nat_numeral)
next
  case (Neg c)
  have "gets 2 env argv (i + 1) (meaning env c) k"
    using Neg.prems follows_2 by (intro Neg.IH) auto
  then have "gets 2 env argv i (meaning env (Neg c)) k"
    using gets_neg [of env argv i "meaning env c" k] Neg.prems render_nonempty [of 2 c] by (auto dest: seg_le)
  then show ?case using gets_up [of env argv i _ k l] Neg.prems by auto
next
  case (Conj c d)
  show ?case unfolding meaning.simps
  proof (rule gets_placed [where m = 1 and ws = "render 2 c @ ''-a'' # render 1 d"])
    fix i assume a: "seg argv i (render 2 c @ ''-a'' # render 1 d)"
      "i + length (render 2 c @ ''-a'' # render 1 d) < length argv"
      "follows 1 (argv ! (i + length (render 2 c @ ''-a'' # render 1 d)))"
    show "gets 1 env argv i (bind_r (meaning env c) (\<lambda>x. bind_r (meaning env d) (\<lambda>y. Inr (x \<and> y))))
       (i + length (render 2 c @ ''-a'' # render 1 d))"
      by (rule gets_conj [OF Conj.IH(1) [where k = "i + length (render 2 c)"] Conj.IH(2)])
        (use a Conj.prems render_nonempty [of 2 c] follows_parens in auto)
  qed (use Conj.prems in auto)
next
  case (Disj c d)
  show ?case unfolding meaning.simps
  proof (rule gets_placed [where m = 0 and ws = "render 1 c @ ''-o'' # render 0 d"])
    fix i assume a: "seg argv i (render 1 c @ ''-o'' # render 0 d)"
      "i + length (render 1 c @ ''-o'' # render 0 d) < length argv"
      "follows 0 (argv ! (i + length (render 1 c @ ''-o'' # render 0 d)))"
    show "gets 0 env argv i (bind_r (meaning env c) (\<lambda>x. bind_r (meaning env d) (\<lambda>y. Inr (x \<or> y))))
       (i + length (render 1 c @ ''-o'' # render 0 d))"
      by (rule gets_disj [OF Disj.IH(1) [where k = "i + length (render 1 c)"] Disj.IH(2)])
        (use a Disj.prems render_nonempty [of 1 c] follows_parens in auto)
  qed (use Disj.prems in auto)
qed

end
