(* ===== verification/Test_Props.thy ===== *)
theory Test_Props
  imports Test_Cond
begin

text \<open>
  \<open>test\<close> and \<open>[\<close> as whole programs: the special cases of \<open>main\<close> agree with the general
  evaluation on written conditions, every run ends with a status or a diagnostic, the two names
  of the command agree, and what it makes of numbers.
\<close>

section \<open>The main program by positions\<close>

lemma evaluate_at:
  "evaluate env argv =
     bind_r (tok argv 1) (\<lambda>_. bind_r (o_at env argv 1) (\<lambda>(v, k).
       bind_r (arg argv k) (\<lambda>q.
         if q = None then Inr (exit_of v)
         else bind_r (arg argv (k + 1)) (\<lambda>r.
           case r of None \<Rightarrow> Inr (exit_of v)
           | Some w \<Rightarrow> syntax_err (Some w) ''unknown operand''))))"
  by (simp add: evaluate_def o_at_def position_def split_def bind_r_assoc arg_def tok_def looked_def cong: if_cong)

lemma special_binop_at:
  "special_binop env argv i =
     (if i + 1 < length argv
      then if kind (argv ! (i + 1)) BINOP
        then Some (bind_r (b_at env argv i) (\<lambda>(v, _). Inr v)) else None
      else Some (Inl Fault))"
  using binop_state [of "snd (t_lex (argv ! Suc i) \<lparr>t_wp = 0, t_wp_op = None\<rparr>)\<lparr>t_wp := i\<rparr>" i env argv]
  by (simp add: special_binop_def arg_def b_at_def position_def bind_r_assoc split_def Let_def op_is_t_lex)

text \<open>The vector of a call: \<open>argc\<close> words, then null pointers.\<close>

definition vector :: "t_argv \<Rightarrow> nat \<Rightarrow> bool" where
  "vector argv argc \<longleftrightarrow> 0 < argc \<and> argc < length argv \<and> (\<forall>j < argc. argv ! j \<noteq> None) \<and> last argv = None"

lemma vectorD:
  assumes "vector argv argc"
  shows "terminated argv" "1 < length argv" "\<And>j. j < argc \<Longrightarrow> word_at argv j"
    "\<And>j. j < argc \<Longrightarrow> \<exists>s. arg_str argv j = Inr s \<and> argv ! j = Some s"
  using assms by (auto simp: vector_def terminated_def word_at_def arg_str_def deref_def)

lemma main_vector:
  "test_main env (x # ws) =
     (if x = ''['' then
        if last (x # ws) \<noteq> '']'' then Inl (Errx2 ''missing ]'')
        else test_run env (map Some (butlast (x # ws)) @ [None, None]) (length ws)
      else test_run env (map Some (x # ws) @ [None]) (length ws + 1))"
  by (cases ws rule: rev_cases) (auto simp: test_main_def nth_append list_update_append)

lemma b_at_value:
  assumes "vector argv argc" "i < argc" "kind (argv ! (i + 1)) BINOP"
  shows "clean (b_at env argv i)"
  using b_at_good [OF vectorD(1) [OF assms(1)] vectorD(3) [OF assms(1,2)] assms(3)] by (simp add: good_at_def)

definition exits :: "t_stop + nat \<Rightarrow> bool" where
  "exits r \<longleftrightarrow> (\<exists>m. r = Inl (Errx2 m)) \<or> r = Inr 0 \<or> r = Inr 1"

lemma exits_bind: "clean r \<Longrightarrow> (\<And>a. r = Inr a \<Longrightarrow> exits (f a)) \<Longrightarrow> exits (bind_r r f)"
  by (cases r) (auto simp: exits_def clean_def)

lemma exits_simps [simp]: "exits (Inr (exit_of v))" "exits (syntax_err op m)" "exits (Inr (Suc 0))"
  by (auto simp: exits_def exit_of_def syntax_err_def split: option.split)

lemma special_exits:
  assumes v: "vector argv argc" and r: "special_case env argv argc = Some r"
  shows "exits r"
proof -
  have w: "i + 1 < argc \<Longrightarrow> special_binop env argv i = Some b \<Longrightarrow> clean b" for i b
    using b_at_value [OF v, of i env] v
    by (auto simp: special_binop_at vector_def split: if_splits intro!: clean_bind)
  note s = vectorD(4) [OF v]
  show ?thesis
    using r s [of 1] s [of 2] w [of 1] w [of 2]
    by (auto simp: special_case_def split: if_splits intro!: exits_bind)
qed

lemma run_exits:
  assumes v: "vector argv argc"
  shows "exits (test_run env argv argc)"
proof (cases "special_case env argv argc")
  case (Some r)
  then show ?thesis using special_exits [OF v] by (simp add: test_run_def)
next
  case None
  note t = vectorD(1,2) [OF v]
  have g: "good_at argv 1 (o_at env argv 1)" using at_good [OF t] by simp
  have "exits (bind_r (arg argv k) (\<lambda>q. if q = None then Inr (exit_of b)
         else bind_r (arg argv (k + 1)) (\<lambda>r. case r of None \<Rightarrow> Inr (exit_of b)
           | Some w \<Rightarrow> syntax_err (Some w) ''unknown operand'')))" if "o_at env argv 1 = Inr (b, k)" for b k
  proof -
    have "word_at argv k" using g that by (simp add: good_at_def)
    then show ?thesis using next_word [OF t(1), of k] by (auto simp: word_at_def split: option.split)
  qed
  then have "exits (evaluate env argv)"
    unfolding evaluate_at tok_Inr [OF t(2)] bind_r_simps
    by (intro exits_bind) (use g in \<open>auto simp: good_at_def split_def\<close>)
  then show ?thesis using None by (simp add: test_run_def)
qed

lemma run_agrees:
  assumes v: "vector argv argc" and ag: "agrees 1 argv argv'"
  shows "test_run env argv' argc = test_run env argv argc"
proof -
  note t = vectorD(1,2) [OF v]
  have ac: "argc < length argv" using v by (simp add: vector_def)
  have sb: "special_binop env argv' i = special_binop env argv i" if "1 \<le> i" "i + 1 < argc" for i
    using that ac ag agrees_reads(1) [OF ag, of "i + 1"] b_at_agrees [OF t(1) agrees_later [OF ag], of i env]
      vectorD(3) [OF v, of i]
    by (auto simp: special_binop_at agrees_def)
  have "special_case env argv' argc = special_case env argv argc"
    using agrees_reads(5) [OF ag, of 1] agrees_reads(5) [OF ag, of 2] sb [of 1] sb [of 2] ac
    by (auto simp: special_case_def split: sum.split)
  moreover have "evaluate env argv' = evaluate env argv"
  proof -
    have g: "good_at argv 1 (o_at env argv 1)" using at_good [OF t] by simp
    have o: "o_at env argv' 1 = o_at env argv 1" using at_agrees [OF t(1) ag t(2)] by simp
    have "arg argv' k = arg argv k" "arg argv' (k + 1) = arg argv (k + 1)" if "o_at env argv 1 = Inr (b, k)" for b k
    proof -
      have "1 \<le> k" "word_at argv k" using g that by (auto simp: good_at_def)
      then show "arg argv' k = arg argv k" "arg argv' (k + 1) = arg argv (k + 1)"
        using next_word [OF t(1), of k] agrees_reads(4) [OF ag] by (auto simp: word_at_def)
    qed
    then show ?thesis
      unfolding evaluate_at o agrees_reads(3) [OF ag order.refl t(2)]
      by (auto intro!: bind_r_cong)
  qed
  ultimately show ?thesis by (simp add: test_run_def split: option.split)
qed


section \<open>Written conditions\<close>

lemma vector_words: "vector (map Some (x # ws) @ [None]) (length ws + 1)"
  by (auto simp: vector_def nth_append nth_Cons split: nat.split)

lemma seg_words: "seg (map Some (x # ws) @ p # ps) 1 ws"
proof -
  have "seg (map Some (us @ ws) @ p # ps) (length us) ws" for us
    by (induction ws arbitrary: us) (auto simp: nth_append simp flip: append_assoc, metis (no_types, opaque_lifting) append.assoc append_Cons append_Nil length_append_singleton list.simps(8) list.simps(9) map_append)
  from this [of "[x]"] show ?thesis by simp
qed

lemma evaluate_cond:
  assumes c: "wf_cond c" and ws: "argv = map Some (x # render 0 c) @ p # ps" and p: "follows 0 p"
  shows "evaluate env argv = bind_r (meaning env c) (\<lambda>v.
    case p of None \<Rightarrow> Inr (exit_of v) | Some w \<Rightarrow> syntax_err (Some w) ''unknown operand'')"
proof -
  define k where "k = 1 + length (render 0 c)"
  have sg: "seg argv 1 (render 0 c)" unfolding ws by (rule seg_words)
  have k: "k < length argv" "argv ! k = p" "argv ! (k - 1) \<noteq> None"
    using render_nonempty [of 0 c] by (auto simp: k_def ws nth_append)
  have "gets 0 env argv 1 (meaning env c) k"
    using k by (intro render_gets [OF c sg]) (auto simp: k_def p)
  then have o: "o_at env argv 1 = bind_r (meaning env c) (\<lambda>v. Inr (v, k - 1))" by (simp add: gets_def level_at_def)
  have "1 < length argv" using k by (simp add: k_def)
  then show ?thesis
    unfolding evaluate_at o using k by (auto simp: bind_r_assoc k_def intro!: bind_r_cong split: option.split)
qed

lemma long_conds: "2 < length (render l (Conj c d))" "2 < length (render l (Disj c d))"
proof -
  have "\<exists>n. length (render m e) = Suc n" for m e using render_nonempty [of m e] gr0_conv_Suc by blast
  then obtain n where n: "length (render m e) = Suc (n m e)" for m e by metis
  show "2 < length (render l (Conj c d))" "2 < length (render l (Disj c d))"
    by (simp_all add: parens_def n)
qed

lemma short_conds:
  "length (render l c) = 1 \<Longrightarrow> \<exists>w. c = Word w"
  "length (render l c) = 2 \<Longrightarrow> (\<exists>op s. c = Unary op s) \<or> (\<exists>w. c = Neg (Word w))"
proof -
  have one: "\<exists>w. c = Word w" if len: "length (render l c) = 1" for l c
  proof (cases c)
    case (Conj d e)
    then show ?thesis using len long_conds(1) [of l d e] by simp
  next
    case (Disj d e)
    then show ?thesis using len long_conds(2) [of l d e] by simp
  qed (use len render_nonempty [of 2] in auto)
  then show "length (render l c) = 1 \<Longrightarrow> \<exists>w. c = Word w" .
  show "(\<exists>op s. c = Unary op s) \<or> (\<exists>w. c = Neg (Word w))" if len: "length (render l c) = 2"
  proof (cases c)
    case (Conj d e)
    then show ?thesis using len long_conds(1) [of l d e] by simp
  next
    case (Disj d e)
    then show ?thesis using len long_conds(2) [of l d e] by simp
  next
    case (Neg d)
    then show ?thesis using len one [of 2 d] by simp
  qed (use len in auto)
qed

text \<open>The special cases for up to four arguments agree with the general evaluation.\<close>

lemma kind_unique: "kind p ty \<Longrightarrow> kind p ty' \<Longrightarrow> ty = ty'"
  by (auto simp: kind_word)

lemma no_binop: "\<not> kind (Some ''-a'') BINOP" "\<not> kind (Some ''-o'') BINOP" "\<not> kind (Some ''!'') BINOP"
    "\<not> kind (Some ''!'') UNOP"
  using word_kinds by blast+

lemma b_at_binary:
  assumes "i + 2 < length argv" "argv ! i = Some a" "argv ! (i + 1) = Some op" "argv ! (i + 2) = Some b"
    "kind (Some op) BINOP"
  shows "b_at env argv i = bind_r (binary_meaning env a op b) (\<lambda>v. Inr (v, i + 2))"
proof -
  obtain e where e: "t_lex_loop ops op = Some e" "op_type e = BINOP" using assms(5) by (auto simp: kind_word)
  show ?thesis using b_at_words [OF assms(1-3) e(1), of env] binary_means [OF e, of env a b] assms(4) by simp
qed

text \<open>A connective is where a special case looks for a binary operator, or \<open>!\<close> is missing.\<close>

lemma connective_words:
  assumes "wf_cond c" "c = Conj d e \<or> c = Disj d e" "ws = render 0 c"
  shows "length ws = 3 \<Longrightarrow> \<not> kind (Some (ws ! 1)) BINOP"
    "length ws = 4 \<Longrightarrow> ws ! 0 = ''!'' \<Longrightarrow> \<not> kind (Some (ws ! 2)) BINOP"
proof -
  obtain m m' op where ws: "ws = render m d @ op # render m' e" "op = ''-a'' \<or> op = ''-o''"
    using assms by (auto simp: parens_def)
  have op: "\<not> kind (Some op) BINOP" using ws(2) no_binop by auto
  have n: "render m d \<noteq> []" "render m' e \<noteq> []" using render_nonempty by auto
  have w: "length (render m d) = 1 \<Longrightarrow> \<exists>w. render m d = [w] \<and> plain_word w"
    using short_conds(1) [of m d] assms(1,2) by auto
  show "length ws = 3 \<Longrightarrow> \<not> kind (Some (ws ! 1)) BINOP"
    using ws(1) n op by (cases "render m d"; cases "render m' e") auto
  assume l: "length ws = 4" and b: "ws ! 0 = ''!''"
  have "length (render m d) \<noteq> 1" using w b ws(1) by (auto simp: plain_word_def)
  moreover have "length (render m d) + length (render m' e) = 3" "length (render m d) \<noteq> 0"
    "length (render m' e) \<noteq> 0" using l n ws(1) by auto
  ultimately have "length (render m d) = 2" by arith
  then show "\<not> kind (Some (ws ! 2)) BINOP" using ws(1) op by (simp add: nth_append)
qed

lemma neg_words:
  assumes "wf_cond d" "length (render 2 d) = 3" "kind (Some (render 2 d ! 1)) BINOP"
  shows "\<exists>a op b. d = Binary a op b"
proof (cases d)
  case (Neg e)
  then have "(\<exists>op s. e = Unary op s) \<or> (\<exists>w. e = Neg (Word w))" using assms(2) short_conds(2) [of 2 e] by simp
  then show ?thesis using assms Neg no_binop kind_unique by fastforce
next
  case (Conj e f)
  then show ?thesis using assms(2) render_nonempty [of 2 e] render_nonempty [of 1 f]
    by (cases "render 2 e"; cases "render 1 f") (auto simp: parens_def)
next
  case (Disj e f)
  then show ?thesis using assms(2) render_nonempty [of 1 e] render_nonempty [of 0 f]
    by (cases "render 1 e"; cases "render 0 f") (auto simp: parens_def)
qed (use assms in auto)


lemma special_binop_words:
  assumes "argv = map Some (us @ [a, op, b]) @ [None]" "kind (Some op) BINOP"
  shows "special_binop env argv (length us) = Some (binary_meaning env a op b)"
proof -
  have "argv ! length us = Some a" "argv ! (length us + 1) = Some op" "argv ! (length us + 2) = Some b"
    by (simp_all add: assms(1) nth_append)
  then show ?thesis
    using b_at_binary [of "length us" argv a op b env] assms(2)
    by (simp add: special_binop_at assms(1) bind_r_assoc) (cases "binary_meaning env a op b"; simp)
qed

text \<open>The words of the call \<open>x ws\<close>, read from the vector.\<close>

lemma words_read:
  assumes "argv = map Some (x # ws) @ [None]" "0 < j" "j \<le> length ws"
  shows "arg_str argv j = Inr (ws ! (j - 1))" "argv ! j = Some (ws ! (j - 1))"
  using assms by (auto simp: arg_str_def arg_def deref_def nth_append)

lemma special_two:
  assumes c: "wf_cond c" "length (render 0 c) < 3" and argv: "argv = map Some (x # render 0 c) @ [None]"
    and r: "special_case env argv (length (render 0 c) + 1) = Some r"
  shows "r = bind_r (meaning env c) (\<lambda>v. Inr (exit_of v))"
proof -
  note str = words_read [OF argv]
  have "length (render 0 c) = 1 \<or> length (render 0 c) = 2" using c(2) render_nonempty [of 0 c] by linarith
  then consider w where "c = Word w" | op s where "c = Unary op s" | w where "c = Neg (Word w)"
    using short_conds [of 0 c] by blast
  then show ?thesis
    using r c str [of 1] str [of 2] no_binop(4)
    by cases (auto simp: special_case_def is_bang_def split: if_splits)
qed

lemma special_three:
  assumes c: "wf_cond c" and len: "length (render 0 c) = 3" and argv: "argv = map Some (x # render 0 c) @ [None]"
    and r: "special_case env argv 4 = Some r"
  shows "r = bind_r (meaning env c) (\<lambda>v. Inr (exit_of v))"
proof -
  note s1 = words_read [OF argv, of 1] and s2 = words_read [OF argv, of 2]
  have b: "render 0 c ! 0 \<noteq> ''!''" "kind (Some (render 0 c ! 1)) BINOP"
    using r len s1 s2 argv by (auto simp: special_case_def special_binop_at is_bang_def split: if_splits)
  have "\<exists>a op b. c = Binary a op b"
  proof (cases c)
    case (Conj d e)
    then show ?thesis using connective_words(1) [OF c _ refl, of d e] b len by blast
  next
    case (Disj d e)
    then show ?thesis using connective_words(1) [OF c _ refl, of d e] b len by blast
  qed (use len b in auto)
  then obtain a op b' where cb: "c = Binary a op b'" by blast
  have "special_binop env argv 1 = Some (binary_meaning env a op b')"
    using special_binop_words [of argv "[x]" a op b' env] b cb argv by simp
  then show ?thesis using r b s1 len cb by (auto simp: special_case_def is_bang_def)
qed

lemma special_four:
  assumes c: "wf_cond c" and len: "length (render 0 c) = 4" and argv: "argv = map Some (x # render 0 c) @ [None]"
    and r: "special_case env argv 5 = Some r"
  shows "r = bind_r (meaning env c) (\<lambda>v. Inr (exit_of v))"
proof -
  note s1 = words_read [OF argv, of 1] and s3 = words_read [OF argv, of 3]
  have b: "render 0 c ! 0 = ''!''" "kind (Some (render 0 c ! 2)) BINOP"
    using r len s1 s3 argv by (auto simp: special_case_def special_binop_at is_bang_def split: if_splits)
  have "\<exists>d. c = Neg d"
  proof (cases c)
    case (Conj d e)
    then show ?thesis using connective_words(2) [OF c _ refl, of d e] b len by blast
  next
    case (Disj d e)
    then show ?thesis using connective_words(2) [OF c _ refl, of d e] b len by blast
  qed (use len b in auto)
  then obtain d where d: "c = Neg d" by blast
  moreover have "\<exists>a op b. d = Binary a op b"
    using neg_words [of d] d c b len by (simp add: numeral_2_eq_2)
  ultimately obtain a op b' where cb: "c = Neg (Binary a op b')" by blast
  have "special_binop env argv 2 = Some (binary_meaning env a op b')"
    using special_binop_words [of argv "[x, ''!'']" a op b' env] b cb argv by (simp add: numeral_2_eq_2)
  then show ?thesis using r b s1 len cb
    by (cases "binary_meaning env a op b'") (auto simp: special_case_def is_bang_def)
qed

lemma run_cond:
  assumes c: "wf_cond c" and argv: "argv = map Some (x # render 0 c) @ [None]"
  shows "test_run env argv (length (render 0 c) + 1) = bind_r (meaning env c) (\<lambda>v. Inr (exit_of v))"
proof (cases "special_case env argv (length (render 0 c) + 1)")
  case None
  then show ?thesis
    using evaluate_cond [OF c argv follows_parens(4), of env] by (simp add: test_run_def)
next
  case (Some r)
  then have "length (render 0 c) < 3 \<or> length (render 0 c) = 3 \<or> length (render 0 c) = 4"
    by (auto simp: special_case_def split: if_splits)
  then show ?thesis
    using Some special_two [OF c _ argv, of env r] special_three [OF c _ argv, of env r]
      special_four [OF c _ argv, of env r] by (auto simp: test_run_def)
qed

section \<open>Numbers\<close>

definition show_int :: "int \<Rightarrow> string" where
  "show_int i = (if i < 0 then ''-'' @ show_nat (nat (- i)) else show_nat (nat i))"

definition blanks :: "string \<Rightarrow> bool" where
  "blanks s \<longleftrightarrow> (\<forall>c \<in> set s. c_isspace c)"

lemma space_no_digit: "c_isspace c \<Longrightarrow> 10 \<le> digit_val c"
  by (auto simp: c_isspace_def digit_val_def Let_def)

lemma digits_number: "blanks r \<Longrightarrow> digits 10 0 (show_nat n @ r) = (int n, length (show_nat n), r)"
proof -
  assume r: "blanks r"
  have "digits 10 v r = (v, 0, r)" for v
    using r space_no_digit [of "hd r"] by (cases r) (auto simp: blanks_def)
  then show ?thesis
    using show_nat_digits [of n] digit_val_digit by (subst digits_append) (auto simp: Let_def)
qed

lemma strtol10_number:
  assumes sp: "blanks sp" "blanks r" and i: "LONG_MIN env \<le> i" "i \<le> LONG_MAX env"
  shows "strtol10 env (sp @ show_int i @ r) = (i, r, False)"
proof -
  obtain c cs where cs: "show_nat (nat \<bar>i\<bar>) = c # cs" and d: "\<exists>d < 10. c = digit_char d"
    using show_nat_digits [of "nat \<bar>i\<bar>"] by (cases "show_nat (nat \<bar>i\<bar>)") auto
  have oc: "48 \<le> (of_char c :: nat)" "of_char c \<le> (57 :: nat)" using d by (auto simp: of_char_digit)
  then have nc: "\<not> c_isspace c" "c \<noteq> CHR ''-''" "c \<noteq> CHR ''+''" by (auto simp: c_isspace_def Let_def)
  have drop: "dropWhile c_isspace (sp @ show_int i @ r) = show_int i @ r"
  proof -
    have "dropWhile c_isspace (sp @ show_int i @ r) = dropWhile c_isspace (show_int i @ r)"
      using sp(1) by (simp add: dropWhile_append2 blanks_def)
    also have "\<dots> = show_int i @ r"
      using cs nc by (cases "i < 0") (auto simp: show_int_def c_isspace_def Let_def)
    finally show ?thesis .
  qed
  have dg: "digits 10 0 (show_nat (nat \<bar>i\<bar>) @ r) = (\<bar>i\<bar>, length (show_nat (nat \<bar>i\<bar>)), r)"
    using digits_number [OF sp(2), of "nat \<bar>i\<bar>"] by simp
  show ?thesis
    using dg cs nc i unfolding strtol10_def strtol_10_def drop Let_def
    by (cases "i < 0") (simp_all add: show_int_def)
qed

lemma getn_number:
  assumes "blanks sp" "blanks r" "LONG_MIN env \<le> i" "i \<le> LONG_MAX env"
  shows "getn env (sp @ show_int i @ r) = Inr (to_int i)"
  using strtol10_number [OF assms] assms(2) by (simp add: getn_def blanks_def dropWhile_eq_Nil_conv [THEN iffD2])

lemma to_int_eq: "to_int x = to_int y \<longleftrightarrow> x mod 2 ^ 32 = y mod 2 ^ 32"
  by (simp add: to_int_def mod_eq_dvd_iff)

lemma to_int_id: "- (2 ^ 31) \<le> x \<Longrightarrow> x < 2 ^ 31 \<Longrightarrow> to_int x = x"
  by (simp add: to_int_def)

lemma number_not_bang: "sp @ show_int i @ r \<noteq> ''!''"
proof
  assume e: "sp @ show_int i @ r = ''!''"
  have "\<exists>d < 10. digit_char d \<in> set (show_nat n)" for n
    using show_nat_digits [of n] by (cases "show_nat n") auto
  then have "\<exists>d < 10. digit_char d \<in> set (show_int i)" by (auto simp: show_int_def)
  then have "\<exists>d < 10. digit_char d \<in> set ''!''" by (auto simp flip: e)
  then obtain d where "d < 10" "digit_char d = CHR ''!''" by auto
  then show False using of_char_digit [of d] by simp
qed

lemma run_three:
  assumes "a \<noteq> ''!''" "kind (Some op) BINOP" "x \<noteq> ''[''"
  shows "test_main env [x, a, op, b] = bind_r (binary_meaning env a op b) (\<lambda>v. Inr (exit_of v))"
proof -
  have "special_binop env (map Some [x, a, op, b] @ [None]) 1 = Some (binary_meaning env a op b)"
    using special_binop_words [OF _ assms(2), of _ "[x]" a b env] by simp
  then show ?thesis
    using assms(1,3) by (simp add: main_vector test_run_def special_case_def arg_str_def deref_def is_bang_def)
qed

lemma run_four:
  assumes "kind (Some op) BINOP" "x \<noteq> ''[''"
  shows "test_main env [x, ''!'', a, op, b] = bind_r (binary_meaning env a op b) (\<lambda>v. Inr (exit_of (\<not> v)))"
proof -
  have "special_binop env (map Some [x, ''!'', a, op, b] @ [None]) 2 = Some (binary_meaning env a op b)"
    using special_binop_words [OF _ assms(1), of _ "[x, ''!'']" a b env] by (simp add: numeral_2_eq_2)
  then show ?thesis
    using assms(2) by (simp add: main_vector test_run_def special_case_def arg_str_def deref_def is_bang_def)
qed

section \<open>Properties\<close>

text \<open>The surroundings of the examples: two regular files and a directory.\<close>

definition demo_stat :: "string \<Rightarrow> stat_buf option" where
  "demo_stat nm =
     (if nm = ''f'' then Some \<lparr>st_dev = 1, st_ino = 2, st_mode = 0x81A4, st_uid = 501, st_gid = 20, st_size = 7, st_mtime = 100\<rparr>
      else if nm = ''g'' then Some \<lparr>st_dev = 1, st_ino = 3, st_mode = 0x81A4, st_uid = 0, st_gid = 0, st_size = 0, st_mtime = 200\<rparr>
      else if nm = ''d'' then Some \<lparr>st_dev = 1, st_ino = 4, st_mode = 0x41ED, st_uid = 501, st_gid = 20, st_size = 68, st_mtime = 50\<rparr>
      else None)"

definition demo_env :: t_env where
  "demo_env = \<lparr>do_stat = demo_stat, do_lstat = demo_stat, do_access = \<lambda>nm m. m \<noteq> X_OK,
     isatty = \<lambda>fd. fd = 0, geteuid = 501, getegid = 20, sets_EINVAL = True, LONG_BIT = 64\<rparr>"

text \<open>C6: \<open>test\<close> evaluates a written condition: the words of any condition built from
  strings, unary and binary primaries, \<open>!\<close>, \<open>-a\<close> and \<open>-o\<close>, with parentheses where the
  precedences need them, give exit status 0 when the condition holds and 1 when it does not; a
  malformed or out-of-range number in any primary of it ends the command with that diagnostic.
  The special cases for up to four arguments agree with the grammar on all of these.\<close>

theorem test_evaluates:
  assumes "wf_cond c" "x \<noteq> ''[''"
  shows "test_main env (x # render 0 c) = bind_r (meaning env c) (\<lambda>v. Inr (exit_of v))"
  using run_cond [OF assms(1) refl, of env x] assms(2) by (simp add: main_vector)

theorem test_evaluates_witness:
  "test_main demo_env [''test'', ''('', ''-f'', ''f'', ''-o'', ''!'', ''-d'', ''d'', '')'', ''-a'', ''g'', ''-nt'', ''f'']
   = Inr 0"
proof -
  define c where "c = Conj (Disj (Unary ''-f'' ''f'') (Neg (Unary ''-d'' ''d''))) (Binary ''g'' ''-nt'' ''f'')"
  have wf: "wf_cond c"
    by (simp add: c_def plain_word_def kind_word ops_def t_op.make_def)
  have "meaning demo_env c = Inr True"
    by (simp add: c_def unary_meaning_def binary_meaning_def file_has_def file_type_def files_def
        demo_env_def demo_stat_def S_IFMT_def S_IFREG_def S_IFDIR_def)
  then show ?thesis
    using test_evaluates [OF wf, of "''test''" demo_env]
    by (simp add: c_def parens_def exit_of_def)
qed

text \<open>C21: Whatever its arguments, \<open>test\<close> exits with 0 or 1, or with a diagnostic and status 2:
  it never reads outside its argument vector or through a null pointer and never reaches its
  \<open>abort()\<close>.\<close>

theorem test_exits:
  assumes "args \<noteq> []"
  shows "(\<exists>m. test_main env args = Inl (Errx2 m)) \<or> test_main env args = Inr 0 \<or> test_main env args = Inr 1"
proof -
  obtain x ws where args: "args = x # ws" using assms by (cases args) auto
  have "exits (test_main env args)"
  proof (cases "x = ''[''")
    case False
    then show ?thesis using run_exits [OF vector_words, of env x ws] by (simp add: main_vector args)
  next
    case True
    have "vector (map Some (butlast (x # ws)) @ [None, None]) (length ws)" if "last (x # ws) = '']''"
      using that True by (cases ws) (auto simp: vector_def nth_append nth_Cons split: nat.split)
    then show ?thesis using True run_exits by (auto simp: main_vector args exits_def)
  qed
  then show ?thesis by (simp add: exits_def)
qed

theorem test_exits_witness:
  "test_main demo_env [''test'', ''('', ''!'', ''-a'', ''-o'', ''-t''] \<noteq> Inl Fault"
  using test_exits [of "[''test'', ''('', ''!'', ''-a'', ''-o'', ''-t'']" demo_env] by auto

text \<open>C29: \<open>[\<close> is \<open>test\<close> with a closing bracket, for all arguments; without the bracket at
  the end it ends with a diagnostic.\<close>

theorem test_bracket:
  assumes "x \<noteq> ''[''"
  shows "test_main env (''['' # ws @ ['']'']) = test_main env (x # ws)"
proof -
  have "agrees 1 (map Some (x # ws) @ [None]) (map Some (''['' # ws) @ [None, None])"
    by (auto simp: agrees_def nth_append nth_Cons split: nat.split)
  then show ?thesis
    using run_agrees [OF vector_words, of x ws] assms by (simp add: main_vector)
qed


theorem test_bracket_witness:
  "test_main demo_env [''['', ''x'', ''='', ''x'', '']''] = Inr 0"
proof -
  have k: "kind (Some ''='') BINOP" by (simp add: kind_word ops_def t_op.make_def)
  show ?thesis
    using test_bracket [of "''test''" demo_env "[''x'', ''='', ''x'']"]
      run_three [OF _ k, of "''x''" "''test''" demo_env "''x''"]
    by (simp add: binary_meaning_def exit_of_def)
qed

text \<open>A word left over after a complete condition is an error: \<open>unknown operand\<close>, reported
  after the whole condition has been evaluated.\<close>

theorem test_extra_word:
  assumes "wf_cond c" "follows 0 (Some w)" "x \<noteq> ''[''" "3 < length (render 0 c) + length ws"
  shows "test_main env (x # render 0 c @ w # ws) =
    bind_r (meaning env c) (\<lambda>_. syntax_err (Some w) ''unknown operand'')"
proof -
  have "special_case env argv (length (render 0 c @ w # ws) + 1) = None" for argv
    using assms(4) by (auto simp: special_case_def)
  then show ?thesis
    using evaluate_cond [OF assms(1) _ assms(2), of _ x "map Some ws @ [None]" env] assms(3)
    by (simp add: main_vector test_run_def)
qed

theorem test_extra_word_witness:
  "test_main demo_env [''test'', ''a'', ''-a'', ''b'', ''-a'', ''c'', ''d''] =
     Inl (Errx2 ''d: unknown operand'')"
proof -
  define c where "c = Conj (Word ''a'') (Conj (Word ''b'') (Word ''c''))"
  have wf: "wf_cond c" "follows 0 (Some ''d'')"
    by (simp_all add: c_def plain_word_def kind_word follows_def token_of_def t_lex_def ops_def t_op.make_def)
  show ?thesis
    using test_extra_word [OF wf, of "''test''" "[]" demo_env]
    by (simp add: c_def parens_def syntax_err_def)
qed

text \<open>With three arguments the middle one decides: a binary operator there makes a binary
  primary, also when the first argument looks like an operator or a parenthesis; with four
  arguments the first of which is \<open>!\<close>, its negation.\<close>

theorem test_three_words:
  assumes "kind (Some op) BINOP" "x \<noteq> ''[''"
  shows "(a \<noteq> ''!'' \<longrightarrow>
      test_main env [x, a, op, b] = bind_r (binary_meaning env a op b) (\<lambda>v. Inr (exit_of v))) \<and>
    test_main env [x, ''!'', a, op, b] = bind_r (binary_meaning env a op b) (\<lambda>v. Inr (exit_of (\<not> v)))"
  using run_three [OF _ assms] run_four [OF assms] by blast

theorem test_three_words_witness:
  "test_main demo_env [''test'', ''('', ''='', ''(''] = Inr 0 \<and>
   test_main demo_env [''test'', ''!'', ''-f'', ''!='', ''f''] = Inr 1"
proof -
  have k: "kind (Some ''='') BINOP" "kind (Some ''!='') BINOP" by (simp_all add: kind_word ops_def t_op.make_def)
  show ?thesis
    using test_three_words [OF k(1), of "''test''" "''(''" demo_env "''(''"]
      test_three_words [OF k(2), of "''test''" "''-f''" demo_env "''f''"]
    by (simp add: binary_meaning_def exit_of_def)
qed

text \<open>C34: Numbers: an integer of the C type \<open>long\<close>, in decimal with blanks around it, is read as
  its value reduced to 32 bits, so \<open>-eq\<close> compares modulo \<open>2\<^sup>3\<^sup>2\<close>: exact where \<open>long\<close> has
  32 bits, but where it has 64, \<open>test 4294967296 -eq 0\<close> succeeds.\<close>

theorem test_eq_wraps:
  assumes "LONG_MIN env \<le> i" "i \<le> LONG_MAX env" "LONG_MIN env \<le> j" "j \<le> LONG_MAX env"
    "blanks s1" "blanks s2" "blanks s3" "blanks s4" "x \<noteq> ''[''"
  shows "test_main env [x, s1 @ show_int i @ s2, ''-eq'', s3 @ show_int j @ s4] =
      Inr (if i mod 2 ^ 32 = j mod 2 ^ 32 then 0 else 1) \<and>
    (LONG_BIT env = 32 \<longrightarrow>
      test_main env [x, s1 @ show_int i @ s2, ''-eq'', s3 @ show_int j @ s4] =
        Inr (if i = j then 0 else 1))"
proof -
  have k: "kind (Some ''-eq'') BINOP" by (simp add: kind_word ops_def t_op.make_def)
  have "test_main env [x, s1 @ show_int i @ s2, ''-eq'', s3 @ show_int j @ s4] =
      Inr (exit_of (to_int i = to_int j))"
    unfolding run_three [OF number_not_bang k assms(9)]
    using assms by (simp add: binary_meaning_def numbers_def getn_number)
  moreover have "to_int i = to_int j \<longleftrightarrow> i = j" if "LONG_BIT env = 32"
    using that assms to_int_id [of i] to_int_id [of j] by (simp add: LONG_MIN_def LONG_MAX_def)
  ultimately show ?thesis by (simp add: exit_of_def to_int_eq)
qed

theorem test_eq_wraps_witness:
  "test_main demo_env [''test'', '' '' @ show_int 4294967296 @ [], ''-eq'', [] @ show_int 0 @ '' ''] = Inr 0"
  using test_eq_wraps [of demo_env 4294967296 0 "'' ''" "[]" "[]" "'' ''" "''test''"]
  by (simp add: LONG_MIN_def LONG_MAX_def demo_env_def blanks_def c_isspace_def)

end
