(* ===== verification/Z_State.thy ===== *)
theory Z_State
  imports Prelude
begin

text \<open>
  The Lempel-Ziv-Welch library behind \<open>compress\<close>, \<open>uncompress\<close> and \<open>zcat\<close>:
  \<open>file_cmds-251/compress/zopen.c\<close>. A compressed stream is written by \<open>zwrite\<close> (hash table of
  prefix codes, \<open>output\<close> packing codes of growing width, adaptive clearing by \<open>cl_block\<close>) and
  \<open>zclose\<close>, and read back by \<open>zread\<close> (\<open>getcode\<close>, the table of prefixes and suffixes, the
  stack of pending characters).

  \<open>struct s_zstate\<close> is a record with one extension for each member of its union. The
  decompressor's tables lie in the memory of \<open>codetab\<close> and \<open>htab\<close>: the suffixes are the first
  \<open>2\<^sup>1\<^sup>6\<close> bytes of \<open>htab\<close> and the stack is the rest of it; as no stream is read and written
  at once they are fields of their own. An access outside an array, or outside the part of it
  that a table or the stack has, stops the model with \<open>Fault\<close>, popping the empty stack included.
  A computation that may not return is an option. \<open>EIO\<close> stands for any \<open>errno\<close> a stdio call has
  left. The counters of bytes and codes are unbounded; they only steer when the table is cleared.
\<close>

section \<open>Constants\<close>

definition BITS :: nat where "BITS = 16"
definition HSIZE :: int where "HSIZE = 69001"
definition INIT_BITS :: nat where "INIT_BITS = 9"
definition FIRST :: int where "FIRST = 257"
definition CLEAR :: int where "CLEAR = 256"
definition CHECK_GAP :: int where "CHECK_GAP = 10000"
definition BIT_MASK :: u8 where "BIT_MASK = 0x1f"
definition BLOCK_MASK :: u8 where "BLOCK_MASK = 0x80"

definition magic_header :: bytes where "magic_header = [0x1f, 0x9d]"

definition MAXCODE :: "nat \<Rightarrow> int" where "MAXCODE n = 2 ^ n - 1"

definition lmask :: bytes where
  "lmask = [0xff, 0xfe, 0xfc, 0xf8, 0xf0, 0xe0, 0xc0, 0x80, 0x00]"

definition rmask :: bytes where
  "rmask = [0x00, 0x01, 0x03, 0x07, 0x0f, 0x1f, 0x3f, 0x7f, 0xff]"

text \<open>Room for the stack of characters, with \<open>long\<close>s of four bytes.\<close>

definition DE_STACK :: nat where "DE_STACK = 4 * nat HSIZE - 2 ^ BITS"

section \<open>The state\<close>

datatype zphase = S_START | S_MIDDLE | S_EOF

datatype z_stop = Fault

datatype z_errno = EFTYPE | EINVAL | EIO | ENOMEM

text \<open>What a call returns: a count, or \<open>-1\<close> with \<open>errno\<close>.\<close>

datatype zret = Ret nat | Fail z_errno

record zstate =
  state :: zphase
  n_bits :: nat
  maxbits :: nat
  maxcode :: int
  maxmaxcode :: int
  codetab :: "int \<Rightarrow> int"
  hsize :: int
  free_ent :: int
  block_compress :: u8
  clear_flg :: bool
  ratio :: int
  checkpoint :: int
  offset :: nat
  in_count :: int
  bytes_out :: int
  out_count :: int
  buf :: bytes

text \<open>The writer: besides the union's first member, the table \<open>htab\<close>, the bytes that went to the
  file and the outcomes of the coming stdio calls on it (when none are listed they succeed).\<close>

record zwriter = zstate +
  htab :: "int \<Rightarrow> int"
  ent :: int
  hsize_reg :: int
  hshift :: nat
  zout :: bytes
  wscript :: "bool list"

text \<open>The reader: the union's second member, the suffix table, the stack with its top first, the
  bytes of the file not yet read, and the byte behind \<open>gbuf\<close> in memory.\<close>

record zreader = zstate +
  tab_suffix :: "int \<Rightarrow> u8"
  stack :: bytes
  finchar :: int
  code :: int
  oldcode :: int
  incode :: int
  roffset :: int
  gsize :: int
  gbuf :: bytes
  zin :: bytes
  beyond :: u8

type_synonym 'a zres = "z_stop + 'a"
type_synonym 'a zrun = "(z_stop + 'a) option"

section \<open>Writing codes\<close>

text \<open>\<open>fwrite(bs, 1, length bs, fp)\<close>: whether all of it was written.\<close>

definition z_fwrite :: "bytes \<Rightarrow> zwriter \<Rightarrow> bool \<times> zwriter" where
  "z_fwrite bs zs =
     (case wscript zs of
        [] \<Rightarrow> (True, zs\<lparr>zout := zout zs @ bs\<rparr>)
      | ok # rest \<Rightarrow>
          if ok then (True, zs\<lparr>zout := zout zs @ bs, wscript := rest\<rparr>)
          else (False, zs\<lparr>wscript := rest\<rparr>))"

definition set_byte :: "nat \<Rightarrow> u8 \<Rightarrow> bytes \<Rightarrow> bytes zres" where
  "set_byte i b bs = (if i < length bs then Inr (bs[i := b]) else Inl Fault)"

definition get_byte :: "nat \<Rightarrow> bytes \<Rightarrow> u8 zres" where
  "get_byte i bs = (if i < length bs then Inr (bs ! i) else Inl Fault)"

text \<open>The insertion of a code of \<open>n\<close> bits at bit \<open>off\<close> of the buffer; \<open>bits\<close> is unsigned.\<close>

definition put_code :: "nat \<Rightarrow> nat \<Rightarrow> int \<Rightarrow> bytes \<Rightarrow> bytes zres" where
  "put_code n off ocode bs =
     (let bp = off div 8; r_off = off mod 8 in
      bind_r (get_byte bp bs) (\<lambda>old.
      bind_r (set_byte bp ((old AND rmask ! r_off) OR (word_of_int (push_bit r_off ocode) AND lmask ! r_off)) bs) (\<lambda>bs1.
        let bits = (int n - (8 - int r_off)) mod 2 ^ 32; ocode1 = drop_bit (8 - r_off) ocode in
        bind_r (if bits \<ge> 8
                then bind_r (set_byte (bp + 1) (word_of_int ocode1) bs1) (\<lambda>bs2.
                  Inr (bs2, bp + 2, drop_bit 8 ocode1, bits - 8))
                else Inr (bs1, bp + 1, ocode1, bits)) (\<lambda>(bs2, bp2, ocode2, bits2).
          if bits2 \<noteq> 0 then set_byte bp2 (word_of_int ocode2) bs2 else Inr bs2))))"

text \<open>After a code: a buffer of eight codes is written out.\<close>

definition flush_full :: "zwriter \<Rightarrow> bool \<times> zwriter" where
  "flush_full zs =
     (if offset zs = n_bits zs * 8 then
        case z_fwrite (take (n_bits zs) (buf zs)) (zs\<lparr>bytes_out := bytes_out zs + int (n_bits zs)\<rparr>) of
          (ok, zs1) \<Rightarrow> if ok then (True, zs1\<lparr>offset := 0\<rparr>) else (False, zs1)
      else (True, zs))"

text \<open>The next width, in \<open>output\<close> and \<open>getcode\<close> alike.\<close>

definition widen :: "('a zstate_scheme) \<Rightarrow> ('a zstate_scheme)" where
  "widen zs =
     (let n = n_bits zs + 1 in
      zs\<lparr>n_bits := n, maxcode := (if n = maxbits zs then maxmaxcode zs else MAXCODE n)\<rparr>)"

definition first_width :: "('a zstate_scheme) \<Rightarrow> ('a zstate_scheme)" where
  "first_width zs = zs\<lparr>n_bits := INIT_BITS, maxcode := MAXCODE INIT_BITS, clear_flg := False\<rparr>"

text \<open>After a code: when the width changes the whole buffer is written out.\<close>

definition change_width :: "zwriter \<Rightarrow> bool \<times> zwriter" where
  "change_width zs =
     (if free_ent zs > maxcode zs \<or> clear_flg zs then
        case (if offset zs > 0 then
                case z_fwrite (take (n_bits zs) (buf zs)) zs of
                  (ok, zs1) \<Rightarrow> if ok then (True, zs1\<lparr>bytes_out := bytes_out zs1 + int (n_bits zs1)\<rparr>)
                              else (False, zs1)
              else (True, zs)) of
          (ok, zs2) \<Rightarrow>
            if \<not> ok then (False, zs2)
            else let zs3 = zs2\<lparr>offset := 0\<rparr> in
              (True, if clear_flg zs3 then first_width zs3 else widen zs3)
      else (True, zs))"

definition output_code :: "zwriter \<Rightarrow> int \<Rightarrow> (bool \<times> zwriter) zres" where
  "output_code zs ocode =
     bind_r (put_code (n_bits zs) (offset zs) ocode (buf zs)) (\<lambda>bs.
       case flush_full (zs\<lparr>buf := bs, offset := offset zs + n_bits zs\<rparr>) of
         (ok, zs1) \<Rightarrow> if ok then Inr (change_width zs1) else Inr (False, zs1))"

definition output_eof :: "zwriter \<Rightarrow> bool \<times> zwriter" where
  "output_eof zs =
     (if offset zs > 0 then
        let n = (offset zs + 7) div 8 in
        case z_fwrite (take n (buf zs)) (zs\<lparr>offset := n\<rparr>) of
          (ok, zs1) \<Rightarrow> if ok then (True, zs1\<lparr>bytes_out := bytes_out zs1 + int n, offset := 0\<rparr>)
                      else (False, zs1)
      else (True, zs\<lparr>offset := 0\<rparr>))"

definition z_output :: "zwriter \<Rightarrow> int \<Rightarrow> (bool \<times> zwriter) zres" where
  "z_output zs ocode = (if ocode \<ge> 0 then output_code zs ocode else Inr (output_eof zs))"

section \<open>The hash table\<close>

text \<open>\<open>cl_hash\<close>: the entries below \<open>p\<close> are cleared downwards, sixteen at a time while \<open>i\<close>
  stays nonnegative, then one by one.\<close>

fun cl_sixteen :: "nat \<Rightarrow> int \<Rightarrow> (int \<Rightarrow> int) \<Rightarrow> (int \<Rightarrow> int)" where
  "cl_sixteen 0 p t = t"
| "cl_sixteen (Suc k) p t = cl_sixteen k p (t(p - int (Suc k) := -1))"

function cl_loop :: "int \<Rightarrow> int \<Rightarrow> (int \<Rightarrow> int) \<Rightarrow> (int \<times> int \<times> (int \<Rightarrow> int)) zres" where
  "cl_loop p i t =
     (if p < 16 \<or> HSIZE < p then Inl Fault
      else let t1 = cl_sixteen 16 p t; i1 = i - 16 in
        if i1 \<ge> 0 then cl_loop (p - 16) i1 t1 else Inr (p - 16, i1, t1))"
  by pat_completeness auto
termination by (relation "measure (\<lambda>(p, i, t). nat i)") auto

function cl_rest :: "int \<Rightarrow> int \<Rightarrow> (int \<Rightarrow> int) \<Rightarrow> (int \<Rightarrow> int) zres" where
  "cl_rest p i t =
     (if i > 0 then
        if p < 1 \<or> HSIZE < p then Inl Fault else cl_rest (p - 1) (i - 1) (t(p - 1 := -1))
      else Inr t)"
  by pat_completeness auto
termination by (relation "measure (\<lambda>(p, i, t). nat i)") auto

declare cl_loop.simps [simp del] cl_rest.simps [simp del]

definition cl_hash :: "zwriter \<Rightarrow> int \<Rightarrow> zwriter zres" where
  "cl_hash zs cl_hsize =
     bind_r (cl_loop cl_hsize (cl_hsize - 16) (htab zs)) (\<lambda>(p, i, t).
     bind_r (cl_rest p (i + 16) t) (\<lambda>t'. Inr (zs\<lparr>htab := t'\<rparr>)))"

definition htabof :: "zwriter \<Rightarrow> int \<Rightarrow> int zres" where
  "htabof zs i = (if 0 \<le> i \<and> i < HSIZE then Inr (htab zs i) else Inl Fault)"

text \<open>The secondary probes; a slot and whether it holds \<open>fcode\<close>.\<close>

partial_function (option) probe :: "zwriter \<Rightarrow> int \<Rightarrow> int \<Rightarrow> int \<Rightarrow> (int \<times> bool) zrun" where
  "probe zs fcode disp i =
     (let i1 = i - disp; i2 = (if i1 < 0 then i1 + hsize_reg zs else i1) in
      case htabof zs i2 of
        Inl e \<Rightarrow> Some (Inl e)
      | Inr h \<Rightarrow>
          if h = fcode then Some (Inr (i2, True))
          else if h \<ge> 0 then probe zs fcode disp i2
          else Some (Inr (i2, False)))"

declare probe.simps [code]

definition find_slot :: "zwriter \<Rightarrow> int \<Rightarrow> int \<Rightarrow> (int \<times> bool) zrun" where
  "find_slot zs fcode c =
     (let i = push_bit (hshift zs) c XOR ent zs in
      case htabof zs i of
        Inl e \<Rightarrow> Some (Inl e)
      | Inr h \<Rightarrow>
          if h = fcode then Some (Inr (i, True))
          else if h < 0 then Some (Inr (i, False))
          else probe zs fcode (if i = 0 then 1 else hsize_reg zs - i) i)"

text \<open>The table clear for block compression.\<close>

definition cl_ratio :: "zwriter \<Rightarrow> int" where
  "cl_ratio zs =
     (if in_count zs > 0x007fffff then
        let rat = drop_bit 8 (bytes_out zs) in if rat = 0 then 0x7fffffff else in_count zs div rat
      else push_bit 8 (in_count zs) div bytes_out zs)"

definition cl_block :: "zwriter \<Rightarrow> (bool \<times> zwriter) zres" where
  "cl_block zs =
     (let zs1 = zs\<lparr>checkpoint := in_count zs + CHECK_GAP\<rparr>; rat = cl_ratio zs1 in
      if rat > ratio zs1 then Inr (True, zs1\<lparr>ratio := rat\<rparr>)
      else bind_r (cl_hash (zs1\<lparr>ratio := 0\<rparr>) (hsize zs1)) (\<lambda>zs2.
        z_output (zs2\<lparr>free_ent := FIRST, clear_flg := True\<rparr>) CLEAR))"

section \<open>Writing\<close>

text \<open>No match: the pending code is put out and the new string entered, or the table cleared.\<close>

definition nomatch :: "zwriter \<Rightarrow> int \<Rightarrow> int \<Rightarrow> int \<Rightarrow> (bool \<times> zwriter) zres" where
  "nomatch zs fcode i c =
     bind_r (z_output zs (ent zs)) (\<lambda>(ok, zs1).
       if \<not> ok then Inr (False, zs1)
       else let zs2 = zs1\<lparr>out_count := out_count zs1 + 1, ent := c\<rparr> in
         if free_ent zs2 < maxmaxcode zs2 then
           Inr (True, zs2\<lparr>codetab := (codetab zs2)(i := free_ent zs2 mod 2 ^ 16),
             free_ent := free_ent zs2 + 1, htab := (htab zs2)(i := fcode)\<rparr>)
         else if in_count zs2 \<ge> checkpoint zs2 \<and> block_compress zs2 \<noteq> 0 then cl_block zs2
         else Inr (True, zs2))"

definition write_char :: "zwriter \<Rightarrow> u8 \<Rightarrow> (bool \<times> zwriter) zrun" where
  "write_char zs0 b =
     (let c = uint b; zs = zs0\<lparr>in_count := in_count zs0 + 1\<rparr>;
          fcode = push_bit (maxbits zs) c + ent zs in
      bind_run (find_slot zs fcode c) (\<lambda>(i, found).
        if found then Some (Inr (True, zs\<lparr>ent := codetab zs i\<rparr>))
        else Some (nomatch zs fcode i c)))"

fun write_loop :: "bytes \<Rightarrow> zwriter \<Rightarrow> (bool \<times> zwriter) zrun" where
  "write_loop [] zs = Some (Inr (True, zs))"
| "write_loop (b # bs) zs =
     bind_run (write_char zs b) (\<lambda>(ok, zs1). if ok then write_loop bs zs1 else Some (Inr (False, zs1)))"

text \<open>The bound of the hash code: doublings of the table size below \<open>2\<^sup>1\<^sup>6\<close>.\<close>

function doublings :: "int \<Rightarrow> nat" where
  "doublings f = (if 0 < f \<and> f < 65536 then Suc (doublings (f * 2)) else 0)"
  by pat_completeness auto
termination by (relation "measure (\<lambda>f. nat (65536 - f))") auto

declare doublings.simps [simp del]

definition start_writing :: "zwriter \<Rightarrow> u8 \<Rightarrow> zwriter zres" where
  "start_writing zs b =
     (let zs1 = zs\<lparr>offset := 0, bytes_out := 3, out_count := 0, clear_flg := False, ratio := 0,
            in_count := 1, checkpoint := CHECK_GAP, n_bits := INIT_BITS, maxcode := MAXCODE INIT_BITS,
            free_ent := (if block_compress zs \<noteq> 0 then FIRST else 256),
            ent := uint b, hshift := 8 - doublings (hsize zs), hsize_reg := hsize zs\<rparr> in
      cl_hash zs1 (hsize_reg zs1))"

definition write_header :: "zwriter \<Rightarrow> bool \<times> zwriter" where
  "write_header zs =
     (case z_fwrite magic_header zs of
        (ok, zs1) \<Rightarrow>
          if ok then z_fwrite [word_of_nat (maxbits zs1) OR block_compress zs1] zs1 else (False, zs1))"

definition zwrite :: "zwriter \<Rightarrow> bytes \<Rightarrow> (zret \<times> zwriter) zrun" where
  "zwrite zs wbp =
     (case wbp of
        [] \<Rightarrow> Some (Inr (Ret 0, zs))
      | b # bs \<Rightarrow>
          bind_run
            (if state zs = S_MIDDLE then write_loop wbp zs
             else
               (case write_header (zs\<lparr>state := S_MIDDLE, maxmaxcode := 2 ^ maxbits zs\<rparr>) of
                  (ok, zs1) \<Rightarrow>
                    if \<not> ok then Some (Inr (False, zs1))
                    else bind_run (Some (start_writing zs1 b)) (write_loop bs)))
            (\<lambda>(ok, zs2). Some (Inr (if ok then Ret (length wbp) else Fail EIO, zs2))))"

definition z_fclose :: "zwriter \<Rightarrow> bool \<times> zwriter" where
  "z_fclose zs = (case wscript zs of [] \<Rightarrow> (True, zs) | ok # rest \<Rightarrow> (ok, zs\<lparr>wscript := rest\<rparr>))"

text \<open>\<open>zclose\<close> of a stream opened for writing: whether it succeeded, and the file.\<close>

definition zclose_w :: "zwriter \<Rightarrow> (bool \<times> bytes) zres" where
  "zclose_w zs =
     bind_r (z_output zs (ent zs)) (\<lambda>(ok, zs1).
       if \<not> ok then Inr (False, zout zs1)
       else bind_r (z_output (zs1\<lparr>out_count := out_count zs1 + 1\<rparr>) (-1)) (\<lambda>(ok2, zs2).
         if \<not> ok2 then Inr (False, zout zs2)
         else Inr (fst (z_fclose zs2), zout zs2)))"

section \<open>Reading codes\<close>

text \<open>A byte of \<open>gbuf\<close>; the code reads one byte behind it when a code of sixteen bits ends the
  buffer.\<close>

definition gb :: "zreader \<Rightarrow> nat \<Rightarrow> u8 zres" where
  "gb zs i = (if i < length (gbuf zs) then Inr (gbuf zs ! i)
     else if i = length (gbuf zs) then Inr (beyond zs) else Inl Fault)"

definition refill :: "zreader \<Rightarrow> (bool \<times> zreader) zres" where
  "refill zs0 =
     (let zs1 = (if free_ent zs0 > maxcode zs0 then widen zs0 else zs0);
          zs2 = (if clear_flg zs1 then first_width zs1 else zs1);
          bs = take (n_bits zs2) (zin zs2) in
      if length (gbuf zs2) < n_bits zs2 then Inl Fault
      else
        let zs3 = zs2\<lparr>zin := drop (n_bits zs2) (zin zs2), gsize := int (length bs),
              gbuf := bs @ drop (length bs) (gbuf zs2)\<rparr> in
        if bs = [] then Inr (False, zs3)
        else Inr (True, zs3\<lparr>roffset := 0, gsize := int (length bs) * 8 - (int (n_bits zs3) - 1)\<rparr>))"

definition take_code :: "zreader \<Rightarrow> (int \<times> zreader) zres" where
  "take_code zs =
     (let bp = nat (roffset zs) div 8; r_off = nat (roffset zs) mod 8 in
      bind_r (gb zs bp) (\<lambda>b0.
        let gcode = drop_bit r_off (uint b0); bits = int (n_bits zs) - (8 - int r_off); r = 8 - r_off in
        bind_r (if bits \<ge> 8
                then bind_r (gb zs (bp + 1)) (\<lambda>b1.
                  Inr (gcode OR push_bit r (uint b1), bp + 2, r + 8, bits - 8))
                else Inr (gcode, bp + 1, r, bits)) (\<lambda>(gcode1, bp1, r1, bits1).
          bind_r (gb zs bp1) (\<lambda>b2.
            if 0 \<le> bits1 \<and> bits1 < 9 then
              Inr (gcode1 OR push_bit r1 (uint (b2 AND rmask ! nat bits1)),
                   zs\<lparr>roffset := roffset zs + int (n_bits zs)\<rparr>)
            else Inl Fault))))"

definition getcode :: "zreader \<Rightarrow> (int \<times> zreader) zres" where
  "getcode zs =
     (if clear_flg zs \<or> roffset zs \<ge> gsize zs \<or> free_ent zs > maxcode zs then
        bind_r (refill zs) (\<lambda>(more, zs1). if more then take_code zs1 else Inr (-1, zs1))
      else take_code zs)"

section \<open>Reading\<close>

definition push :: "u8 \<Rightarrow> bytes \<Rightarrow> bytes zres" where
  "push b st = (if length st < DE_STACK then Inr (b # st) else Inl Fault)"

definition prefix_of :: "zreader \<Rightarrow> int \<Rightarrow> int zres" where
  "prefix_of zs c = (if 0 \<le> c \<and> c < HSIZE then Inr (codetab zs c) else Inl Fault)"

definition suffix_of :: "zreader \<Rightarrow> int \<Rightarrow> u8 zres" where
  "suffix_of zs c = (if 0 \<le> c \<and> c < 2 ^ BITS then Inr (tab_suffix zs c) else Inl Fault)"

text \<open>The characters of a code in reverse order: \<open>while (code >= 256)\<close>; the loop can only be
  stopped by the end of the stack.\<close>

function chain :: "zreader \<Rightarrow> int \<Rightarrow> bytes \<Rightarrow> (int \<times> bytes) zres" where
  "chain zs c st =
     (if c \<ge> 256 then
        bind_r (suffix_of zs c) (\<lambda>b.
        bind_r (push b st) (\<lambda>st1.
        bind_r (prefix_of zs c) (\<lambda>c1. chain zs c1 st1)))
      else Inr (c, st))"
  by pat_completeness auto
termination
  by (relation "measure (\<lambda>(zs, c, st). DE_STACK - length st)")
    (auto simp: push_def split: if_splits)

declare chain.simps [simp del]

text \<open>Putting the characters out in forward order: \<open>None\<close> for the count when the caller's buffer
  is full, else what is left of it.\<close>

fun emit :: "bytes \<Rightarrow> nat \<Rightarrow> bytes \<Rightarrow> (bytes \<times> nat option \<times> bytes) zres" where
  "emit [] count acc = Inl Fault"
| "emit (b # st) count acc =
     (if count = 0 then Inr (b # st, None, acc)
      else if st = [] then Inr ([], Some (count - 1), acc @ [b])
      else emit st (count - 1) (acc @ [b]))"

definition new_entry :: "zreader \<Rightarrow> zreader" where
  "new_entry zs =
     (let c = free_ent zs;
          zs1 = (if c < maxmaxcode zs \<and> oldcode zs \<noteq> -1
                 then zs\<lparr>codetab := (codetab zs)(c := oldcode zs mod 2 ^ 16),
                        tab_suffix := (tab_suffix zs)(c := word_of_int (finchar zs)), free_ent := c + 1\<rparr>
                 else zs) in
      zs1\<lparr>code := c, oldcode := incode zs1\<rparr>)"

definition clear_table :: "zreader \<Rightarrow> zreader" where
  "clear_table zs =
     zs\<lparr>codetab := (\<lambda>i. if 0 \<le> i \<and> i \<le> 255 then 0 else codetab zs i), code := -1,
       clear_flg := True, free_ent := FIRST, oldcode := -1\<rparr>"

text \<open>One code: its characters are pushed. \<open>None\<close> is a bad stream.\<close>

definition expand_code :: "zreader \<Rightarrow> int \<Rightarrow> zreader option zres" where
  "expand_code zs c =
     (let zs1 = zs\<lparr>code := c, incode := c\<rparr> in
      if c \<ge> free_ent zs1 \<and> (c > free_ent zs1 \<or> oldcode zs1 = -1) then Inr None
      else
        bind_r (if c \<ge> free_ent zs1
                then bind_r (push (word_of_int (finchar zs1)) (stack zs1)) (\<lambda>st. Inr (oldcode zs1, st))
                else Inr (c, stack zs1)) (\<lambda>(c1, st1).
        bind_r (chain zs1 c1 st1) (\<lambda>(c2, st2).
        bind_r (suffix_of zs1 c2) (\<lambda>b.
        bind_r (push b st2) (\<lambda>st3.
          Inr (Some (zs1\<lparr>code := c2, stack := st3, finchar := uint b\<rparr>)))))))"

text \<open>The loop over the codes, from its head; \<open>read_middle\<close> enters it at the label \<open>middle\<close>.
  \<open>num - count\<close> is the length of what was delivered.\<close>

partial_function (option) read_loop_z :: "zreader \<Rightarrow> nat \<Rightarrow> bytes \<Rightarrow> (zret \<times> bytes \<times> zreader) zrun" where
  "read_loop_z zs count acc =
     (case getcode zs of
        Inl e \<Rightarrow> Some (Inl e)
      | Inr (c, zs1) \<Rightarrow>
          if \<not> c > -1 then Some (Inr (Ret (length acc), acc, zs1\<lparr>code := c, state := S_EOF\<rparr>))
          else if c = CLEAR \<and> block_compress zs1 \<noteq> 0 then read_loop_z (clear_table zs1) count acc
          else
            (case expand_code zs1 c of
               Inl e \<Rightarrow> Some (Inl e)
             | Inr None \<Rightarrow> Some (Inr (Fail EINVAL, acc, zs1\<lparr>code := c, incode := c\<rparr>))
             | Inr (Some zs2) \<Rightarrow>
                 (case emit (stack zs2) count acc of
                    Inl e \<Rightarrow> Some (Inl e)
                  | Inr (st, left, acc1) \<Rightarrow>
                      (case left of
                         None \<Rightarrow> Some (Inr (Ret (length acc1), acc1, zs2\<lparr>stack := st\<rparr>))
                       | Some n \<Rightarrow> read_loop_z (new_entry (zs2\<lparr>stack := st\<rparr>)) n acc1))))"

declare read_loop_z.simps [code]

definition read_middle :: "zreader \<Rightarrow> nat \<Rightarrow> (zret \<times> bytes \<times> zreader) zrun" where
  "read_middle zs num =
     (case emit (stack zs) num [] of
        Inl e \<Rightarrow> Some (Inl e)
      | Inr (st, left, acc) \<Rightarrow>
          (case left of
             None \<Rightarrow> Some (Inr (Ret (length acc), acc, zs\<lparr>stack := st\<rparr>))
           | Some n \<Rightarrow> read_loop_z (new_entry (zs\<lparr>stack := st\<rparr>)) n acc))"

definition init_tables :: "zreader \<Rightarrow> zreader" where
  "init_tables zs =
     zs\<lparr>codetab := (\<lambda>i. if 0 \<le> i \<and> i \<le> 255 then 0 else codetab zs i),
       tab_suffix := (\<lambda>i. if 0 \<le> i \<and> i \<le> 255 then word_of_int i else tab_suffix zs i), code := -1\<rparr>"

definition zread :: "zreader \<Rightarrow> nat \<Rightarrow> (zret \<times> bytes \<times> zreader) zrun" where
  "zread zs num =
     (if num = 0 then Some (Inr (Ret 0, [], zs))
      else case state zs of
        S_EOF \<Rightarrow> Some (Inr (Ret 0, [], zs))
      | S_MIDDLE \<Rightarrow> read_middle zs num
      | S_START \<Rightarrow>
          let header = take 3 (zin zs); zs1 = zs\<lparr>state := S_MIDDLE, zin := drop 3 (zin zs)\<rparr> in
          if length header < 3 \<or> take 2 header \<noteq> magic_header then Some (Inr (Fail EFTYPE, [], zs1))
          else
            let mb = unat ((header ! 2) AND BIT_MASK);
                zs2 = zs1\<lparr>block_compress := (header ! 2) AND BLOCK_MASK, maxbits := mb, maxmaxcode := 2 ^ mb\<rparr> in
            if mb > BITS \<or> mb < 12 then Some (Inr (Fail EFTYPE, [], zs2))
            else
              let zs3 = init_tables (zs2\<lparr>n_bits := INIT_BITS, maxcode := MAXCODE INIT_BITS\<rparr>) in
              bind_run (Some (getcode (zs3\<lparr>free_ent := (if block_compress zs3 \<noteq> 0 then FIRST else 256)\<rparr>)))
                (\<lambda>(c, zs4).
                  let zs5 = zs4\<lparr>finchar := c, oldcode := c\<rparr> in
                  if c = -1 then Some (Inr (Ret 0, [], zs5))
                  else read_loop_z (zs5\<lparr>stack := []\<rparr>) (num - 1) [word_of_int c]))"

section \<open>Opening\<close>

datatype zhandle = Zr zreader | Zw zwriter

definition zstate_init :: "nat \<Rightarrow> zstate" where
  "zstate_init mb =
     \<lparr>state = S_START, n_bits = 0, maxbits = mb, maxcode = 0, maxmaxcode = 2 ^ mb, codetab = (\<lambda>_. 0),
      hsize = HSIZE, free_ent = 0, block_compress = BLOCK_MASK, clear_flg = False, ratio = 0,
      checkpoint = CHECK_GAP, offset = 0, in_count = 1, bytes_out = 0, out_count = 0,
      buf = replicate BITS 0\<rparr>"

text \<open>\<open>zopen\<close>: the arguments after the bits are whether \<open>calloc\<close> and \<open>fopen\<close> succeed, the file's
  contents when it is read, and the outcomes of the stdio calls when it is written.\<close>

definition zopen :: "string \<Rightarrow> int \<Rightarrow> bool \<Rightarrow> bool \<Rightarrow> bytes \<Rightarrow> u8 \<Rightarrow> bool list \<Rightarrow> z_errno + zhandle" where
  "zopen mode bits mem opens file past script =
     (if (mode \<noteq> ''r'' \<and> mode \<noteq> ''w'') \<or> bits < 0 \<or> bits > int BITS then Inl EINVAL
      else if \<not> mem then Inl ENOMEM
      else if \<not> opens then Inl EIO
      else
        let zs = zstate_init (if bits \<noteq> 0 then nat bits else BITS) in
        if mode = ''r''
        then Inr (Zr (zstate.extend zs
          (zreader.fields (\<lambda>_. 0) [] 0 0 0 0 0 0 (replicate BITS 0) file past)))
        else Inr (Zw (zstate.extend zs (zwriter.fields (\<lambda>_. 0) 0 0 0 [] script))))"

end
