(* ===== verification/Z_Hash.thy ===== *)
theory Z_Hash
  imports Z_State
begin

text \<open>
  The hash table of \<open>zwrite\<close>: open addressing with double hashing over 69001 slots. The
  probes visit every slot, because 69001 is prime; so a search ends as long as a slot is free, and
  the table represents the list of strings entered so far.
\<close>

section \<open>The probe sequence\<close>

definition start_slot :: "int \<Rightarrow> u8 \<Rightarrow> int" where
  "start_slot p b = push_bit 8 (uint b) XOR p"

definition disp :: "int \<Rightarrow> int" where
  "disp i = (if i = 0 then 1 else HSIZE - i)"

definition slot :: "int \<Rightarrow> nat \<Rightarrow> int" where
  "slot i m = (i - int m * disp i) mod HSIZE"

lemma start_slot_range: "0 \<le> p \<Longrightarrow> p < 2 ^ 16 \<Longrightarrow> 0 \<le> start_slot p b \<and> start_slot p b < 2 ^ 16"
proof -
  assume p: "0 \<le> p" "p < 2 ^ 16"
  have "uint b < 2 ^ 8" using uint_bounded [of b] by simp
  then have "push_bit 8 (uint b) < 2 ^ 16" by (simp add: push_bit_eq_mult)
  then show ?thesis
    using p XOR_upper [of "push_bit 8 (uint b)" 16 p] by (simp add: start_slot_def)
qed

lemma HSIZE_no_divisor: "\<forall>d \<in> {2..262 :: nat}. \<not> d dvd 69001"
  by (simp add: atLeastAtMost_upt upt_rec dvd_eq_mod_eq_0)

lemma coprime_69001:
  assumes "0 < d" "d < (69001 :: nat)"
  shows "coprime d 69001"
proof (rule ccontr)
  assume n: "\<not> coprime d 69001"
  define g where "g = gcd d 69001"
  have gd: "g dvd d" "g dvd 69001" by (simp_all add: g_def)
  have "g \<noteq> 1" using n by (simp add: g_def coprime_iff_gcd_eq_1)
  moreover have "g \<le> d" using gd(1) assms(1) by (rule dvd_imp_le)
  moreover have "g \<noteq> 0" using assms(1) by (simp add: g_def)
  moreover obtain k where k: "69001 = g * k" using gd(2) by (rule dvdE)
  ultimately have "k \<noteq> 1" "2 \<le> g" using assms(2) by auto
  moreover have "k \<noteq> 0" using k by (cases k) auto
  ultimately have "2 \<le> g" "2 \<le> k" by linarith+
  have "g \<le> 262 \<or> k \<le> 262"
  proof (rule ccontr)
    assume "\<not> ?thesis"
    then have "263 * 263 \<le> g * k" by (intro mult_le_mono) auto
    then show False using k by simp
  qed
  then show False
    using HSIZE_no_divisor gd(2) k \<open>2 \<le> g\<close> \<open>2 \<le> k\<close> by (metis atLeastAtMost_iff dvd_triv_right)
qed

lemma HSIZE_coprime:
  assumes "0 < d" "d < HSIZE"
  shows "coprime d HSIZE"
proof -
  have "coprime (int (nat d)) (int 69001)"
    unfolding coprime_int_iff using assms by (intro coprime_69001) (auto simp: HSIZE_def)
  then show ?thesis using assms(1) by (simp add: HSIZE_def)
qed

lemma slot_reaches:
  assumes i: "0 \<le> i" "i < HSIZE" and e: "0 \<le> e" "e < HSIZE"
  shows "\<exists>m. slot i m = e"
proof -
  have "0 < disp i" "disp i < HSIZE" using i by (auto simp: disp_def HSIZE_def)
  then have "coprime (disp i) HSIZE" by (rule HSIZE_coprime)
  then obtain u v where uv: "u * disp i + v * HSIZE = 1" using bezout_int [of "disp i" HSIZE] by auto
  define m where "m = ((i - e) * u) mod HSIZE"
  have m0: "0 \<le> m" by (simp add: m_def HSIZE_def)
  have "m * disp i mod HSIZE = (i - e) * (u * disp i) mod HSIZE"
    by (simp add: m_def mod_mult_left_eq mult.assoc)
  also have "u * disp i = 1 - v * HSIZE" using uv by simp
  also have "(i - e) * (1 - v * HSIZE) = (i - e) + HSIZE * (- (v * (i - e)))" by (simp add: algebra_simps)
  also have "\<dots> mod HSIZE = (i - e) mod HSIZE" by (rule mod_mult_self2)
  finally have "(i - m * disp i) mod HSIZE = (i - (i - e)) mod HSIZE"
    by (metis mod_diff_right_eq)
  then have "slot i (nat m) = e" using m0 e by (simp add: slot_def)
  then show ?thesis by blast
qed

lemma slot_range: "0 \<le> slot i m" "slot i m < HSIZE"
  by (simp_all add: slot_def HSIZE_def)

lemma slot_0: "0 \<le> i \<Longrightarrow> i < HSIZE \<Longrightarrow> slot i 0 = i"
  by (simp add: slot_def)

lemma slot_Suc:
  assumes i: "0 \<le> i" "i < HSIZE"
  shows "slot i (Suc m) = (let i1 = slot i m - disp i in if i1 < 0 then i1 + HSIZE else i1)"
proof -
  have d: "0 < disp i" "disp i < HSIZE" using i by (auto simp: disp_def HSIZE_def)
  have "i - int (Suc m) * disp i = i - int m * disp i - disp i" by (simp add: left_diff_distrib distrib_right)
  then have "slot i (Suc m) = (slot i m - disp i) mod HSIZE"
    unfolding slot_def mod_diff_left_eq by (rule arg_cong)
  moreover have "x mod HSIZE = (if x < 0 then x + HSIZE else x)" if "- HSIZE < x" "x < HSIZE" for x
    using that mod_pos_pos_trivial [of "x + HSIZE" HSIZE] by auto
  ultimately show ?thesis
    using slot_range [of i m] d by (simp add: Let_def)
qed

section \<open>Searching\<close>

text \<open>The first slot on the way that is free or holds \<open>fc\<close>.\<close>

definition stops :: "(int \<Rightarrow> int) \<Rightarrow> int \<Rightarrow> int \<Rightarrow> nat \<Rightarrow> bool" where
  "stops t fc i m \<longleftrightarrow> (t (slot i m) = fc \<or> t (slot i m) < 0) \<and>
     (\<forall>l < m. t (slot i l) \<noteq> fc \<and> 0 \<le> t (slot i l))"

lemma stops_exists:
  assumes i: "0 \<le> i" "i < HSIZE" and e: "0 \<le> e" "e < HSIZE" "t e < 0"
  obtains m where "stops t fc i m"
proof -
  obtain m0 where "slot i m0 = e" using slot_reaches i e by blast
  then have ex: "t (slot i m0) = fc \<or> t (slot i m0) < 0" using e by simp
  define m where "m = (LEAST m. t (slot i m) = fc \<or> t (slot i m) < 0)"
  have "t (slot i m) = fc \<or> t (slot i m) < 0" unfolding m_def by (rule LeastI) (rule ex)
  moreover have "t (slot i l) \<noteq> fc \<and> 0 \<le> t (slot i l)" if "l < m" for l
    using not_less_Least [of l] that m_def by fastforce
  ultimately show thesis using that by (auto simp: stops_def)
qed

lemma stops_unique: "stops t fc i m \<Longrightarrow> stops t fc i m' \<Longrightarrow> m = m'"
  by (metis (no_types, lifting) leD linorder_neqE_nat stops_def)

lemma probe_finds:
  assumes i: "0 \<le> i" "i < HSIZE" and h: "hsize_reg zs = HSIZE" and s: "stops (htab zs) fc i m"
  shows "l < m \<Longrightarrow> probe zs fc (disp i) (slot i l) = Some (Inr (slot i m, htab zs (slot i m) = fc))"
proof (induction "m - l" arbitrary: l)
  case (Suc k)
  have n: "(let i1 = slot i l - disp i in if i1 < 0 then i1 + hsize_reg zs else i1) = slot i (Suc l)"
    unfolding slot_Suc [OF i] h ..
  have r: "htabof zs (slot i (Suc l)) = Inr (htab zs (slot i (Suc l)))"
    using slot_range by (simp add: htabof_def)
  show ?case
  proof (cases "Suc l = m")
    case True
    then show ?thesis
      using n r s by (subst probe.simps) (auto simp: Let_def stops_def)
  next
    case False
    then have "probe zs fc (disp i) (slot i (Suc l)) = Some (Inr (slot i m, htab zs (slot i m) = fc))"
      using Suc by auto
    moreover have "htab zs (slot i (Suc l)) \<noteq> fc" "0 \<le> htab zs (slot i (Suc l))"
      using s False Suc.prems by (auto simp: stops_def)
    ultimately show ?thesis
      using n r by (subst probe.simps) (auto simp: Let_def)
  qed
qed simp

lemma find_slot_stops:
  assumes zs: "hsize_reg zs = HSIZE" "hshift zs = 8" "ent zs = p" and p: "0 \<le> p" "p < 2 ^ 16"
    and s: "stops (htab zs) fc (start_slot p b) m"
  shows "find_slot zs fc (uint b) =
    Some (Inr (slot (start_slot p b) m, htab zs (slot (start_slot p b) m) = fc))"
proof -
  let ?i = "start_slot p b"
  have i: "0 \<le> ?i" "?i < HSIZE" using start_slot_range [OF p, of b] by (auto simp: HSIZE_def)
  have r: "htabof zs ?i = Inr (htab zs ?i)" using i by (simp add: htabof_def)
  have e: "find_slot zs fc (uint b) =
      (if htab zs ?i = fc then Some (Inr (?i, True)) else if htab zs ?i < 0 then Some (Inr (?i, False))
       else probe zs fc (disp ?i) ?i)"
    using r zs by (simp add: find_slot_def Let_def start_slot_def disp_def)
  show ?thesis
  proof (cases "m = 0")
    case True
    then show ?thesis using e s slot_0 [OF i] by (auto simp: stops_def)
  next
    case False
    then have "htab zs ?i \<noteq> fc" "\<not> htab zs ?i < 0" using s slot_0 [OF i] by (auto simp: stops_def)
    then show ?thesis
      using e probe_finds [OF i zs(1) s, of 0] False slot_0 [OF i] by simp
  qed
qed

section \<open>The table represents a list of strings\<close>

text \<open>An entry is a code and the character that extends its string; it is kept under one number.\<close>

definition key :: "nat \<Rightarrow> int \<times> u8 \<Rightarrow> int" where
  "key mb e = push_bit mb (uint (snd e)) + fst e"

definition in_range :: "nat \<Rightarrow> int \<times> u8 \<Rightarrow> bool" where
  "in_range mb e \<longleftrightarrow> 0 \<le> fst e \<and> fst e < 2 ^ mb"

lemma key_inj: "in_range mb e \<Longrightarrow> in_range mb e' \<Longrightarrow> key mb e = key mb e' \<Longrightarrow> e = e'"
proof -
  assume r: "in_range mb e" "in_range mb e'" and k: "key mb e = key mb e'"
  have m: "key mb x mod 2 ^ mb = fst x" "key mb x div 2 ^ mb = uint (snd x)" if "in_range mb x" for x
    using that by (auto simp: key_def in_range_def push_bit_eq_mult)
  have "fst e = fst e'" "uint (snd e) = uint (snd e')" using m r k by metis+
  then show "e = e'" by (simp add: prod_eq_iff word_uint_eq_iff)
qed

lemma key_nonneg: "in_range mb e \<Longrightarrow> 0 \<le> key mb e"
  by (simp add: key_def in_range_def)

definition occupied :: "(int \<Rightarrow> int) \<Rightarrow> int set" where
  "occupied t = {i. 0 \<le> i \<and> i < HSIZE \<and> 0 \<le> t i}"

text \<open>The search for entry \<open>e\<close> ends at a slot with the code \<open>c\<close>.\<close>

definition located :: "nat \<Rightarrow> (int \<Rightarrow> int) \<Rightarrow> (int \<Rightarrow> int) \<Rightarrow> int \<times> u8 \<Rightarrow> int \<Rightarrow> bool" where
  "located mb t ct e c \<longleftrightarrow>
     (\<exists>m. stops t (key mb e) (start_slot (fst e) (snd e)) m \<and>
        t (slot (start_slot (fst e) (snd e)) m) = key mb e \<and>
        ct (slot (start_slot (fst e) (snd e)) m) = c)"

definition hashed :: "nat \<Rightarrow> (int \<Rightarrow> int) \<Rightarrow> (int \<Rightarrow> int) \<Rightarrow> (int \<times> u8) list \<Rightarrow> bool" where
  "hashed mb t ct T \<longleftrightarrow>
     (\<forall>e \<in> set T. in_range mb e) \<and> card (occupied t) \<le> length T \<and>
     (\<forall>i. 0 \<le> i \<longrightarrow> i < HSIZE \<longrightarrow> t i = -1 \<or> t i \<in> key mb ` set T) \<and>
     (\<forall>k < length T. located mb t ct (T ! k) (FIRST + int k))"

lemma finite_occupied: "finite (occupied t)"
  by (rule finite_subset [of _ "{0..HSIZE}"]) (auto simp: occupied_def)

lemma hashed_empty: "(\<And>i. 0 \<le> i \<Longrightarrow> i < HSIZE \<Longrightarrow> t i = -1) \<Longrightarrow> hashed mb t ct []"
proof -
  assume "\<And>i. 0 \<le> i \<Longrightarrow> i < HSIZE \<Longrightarrow> t i = -1"
  then have "occupied t = {}" by (force simp: occupied_def)
  then show ?thesis using \<open>\<And>i. 0 \<le> i \<Longrightarrow> i < HSIZE \<Longrightarrow> t i = -1\<close> by (simp add: hashed_def)
qed

lemma free_slot:
  assumes "hashed mb t ct T" "int (length T) < HSIZE"
  obtains e where "0 \<le> e" "e < HSIZE" "t e < 0"
proof (rule ccontr)
  assume "\<not> thesis"
  then have "occupied t = {0..<HSIZE}" using that by (fastforce simp: occupied_def)
  then have "nat HSIZE \<le> length T" using assms(1) by (simp add: hashed_def)
  then show False using assms(2) by (simp add: HSIZE_def)
qed

lemma hashed_member:
  assumes "hashed mb t ct T" "k < length T"
  shows "located mb t ct (T ! k) (FIRST + int k)"
  using assms by (simp add: hashed_def)

lemma located_kept:
  assumes "located mb t ct e c" "t i < 0" "fc \<noteq> key mb e"
    and "in_range mb e"
  shows "located mb (t(i := fc)) (ct(i := v)) e c"
proof -
  obtain m where m: "stops t (key mb e) (start_slot (fst e) (snd e)) m"
    "t (slot (start_slot (fst e) (snd e)) m) = key mb e" "ct (slot (start_slot (fst e) (snd e)) m) = c"
    using assms(1) by (auto simp: located_def)
  have "slot (start_slot (fst e) (snd e)) l \<noteq> i" if "l \<le> m" for l
  proof (cases "l = m")
    case True
    then show ?thesis using m(2) assms(2) key_nonneg [OF assms(4)] by auto
  next
    case False
    then have "0 \<le> t (slot (start_slot (fst e) (snd e)) l)" using m(1) that by (auto simp: stops_def)
    then show ?thesis using assms(2) by auto
  qed
  then show ?thesis
    using m unfolding located_def by (intro exI [of _ m]) (auto simp: stops_def)
qed

section \<open>What a search returns\<close>

lemma find_slot_hit:
  assumes zs: "hsize_reg zs = HSIZE" "hshift zs = 8" "ent zs = fst (T ! k)"
    and mb: "mb \<le> 16" and h: "hashed mb (htab zs) (codetab zs) T" and k: "k < length T"
  obtains i where "find_slot zs (key mb (T ! k)) (uint (snd (T ! k))) = Some (Inr (i, True))"
    "codetab zs i = FIRST + int k"
proof -
  obtain m where m: "stops (htab zs) (key mb (T ! k)) (start_slot (fst (T ! k)) (snd (T ! k))) m"
    "htab zs (slot (start_slot (fst (T ! k)) (snd (T ! k))) m) = key mb (T ! k)"
    "codetab zs (slot (start_slot (fst (T ! k)) (snd (T ! k))) m) = FIRST + int k"
    using hashed_member [OF h k] by (auto simp: located_def)
  have "in_range mb (T ! k)" using h k by (auto simp: hashed_def)
  moreover have "(2 :: int) ^ mb \<le> 2 ^ 16" using mb by (intro power_increasing) auto
  ultimately have "0 \<le> fst (T ! k)" "fst (T ! k) < 2 ^ 16" unfolding in_range_def by linarith+
  then show thesis
    using find_slot_stops [OF zs _ _ m(1)] m(2,3) that by simp
qed

lemma find_slot_miss:
  assumes zs: "hsize_reg zs = HSIZE" "hshift zs = 8" "ent zs = fst e"
    and mb: "mb \<le> 16" and h: "hashed mb (htab zs) (codetab zs) T" and e: "e \<notin> set T" "in_range mb e"
    and room: "int (length T) < HSIZE"
  obtains i where "find_slot zs (key mb e) (uint (snd e)) = Some (Inr (i, False))"
    "hashed mb ((htab zs)(i := key mb e)) ((codetab zs)(i := FIRST + int (length T))) (T @ [e])"
proof -
  let ?s = "start_slot (fst e) (snd e)" and ?t = "htab zs"
  have "(2 :: int) ^ mb \<le> 2 ^ 16" using mb by (intro power_increasing) auto
  then have p: "0 \<le> fst e" "fst e < 2 ^ 16" using e(2) unfolding in_range_def by linarith+
  have s: "0 \<le> ?s" "?s < HSIZE" using start_slot_range [OF p, of "snd e"] by (auto simp: HSIZE_def)
  obtain f where f: "0 \<le> f" "f < HSIZE" "?t f < 0" using free_slot [OF h room] .
  obtain m where m: "stops ?t (key mb e) ?s m" using stops_exists [OF s f(1,2), of ?t "key mb e"] f(3) by auto
  define i where "i = slot ?s m"
  have i: "0 \<le> i" "i < HSIZE" using slot_range by (simp_all add: i_def)
  have ne: "key mb e \<notin> key mb ` set T"
    using e h key_inj [of mb e] by (auto simp: hashed_def)
  have "?t i = -1 \<or> ?t i \<in> key mb ` set T" using h i by (simp add: hashed_def)
  moreover have "?t i = key mb e \<or> ?t i < 0" using m by (simp add: stops_def i_def)
  moreover have "0 \<le> v" if "v \<in> key mb ` set T" for v using that h key_nonneg by (auto simp: hashed_def)
  ultimately have ti: "?t i = -1" using ne by (metis not_less)
  have "find_slot zs (key mb e) (uint (snd e)) = Some (Inr (i, False))"
    using find_slot_stops [OF zs p m] ti key_nonneg [OF e(2)] by (simp add: i_def)
  moreover have "hashed mb (?t(i := key mb e)) ((codetab zs)(i := FIRST + int (length T))) (T @ [e])"
    unfolding hashed_def
  proof (intro conjI ballI allI impI)
    have "occupied (?t(i := key mb e)) = insert i (occupied ?t)"
      using i key_nonneg [OF e(2)] by (auto simp: occupied_def)
    moreover have "card (insert i (occupied ?t)) \<le> Suc (card (occupied ?t))" by (rule card_insert_le_m1) simp_all
    ultimately show "card (occupied (?t(i := key mb e))) \<le> length (T @ [e])"
      using h by (simp add: hashed_def)
    fix k assume k: "k < length (T @ [e])"
    show "located mb (?t(i := key mb e)) ((codetab zs)(i := FIRST + int (length T))) ((T @ [e]) ! k) (FIRST + int k)"
    proof (cases "k < length T")
      case True
      have "T ! k \<in> set T" using True by simp
      then have "key mb e \<noteq> key mb (T ! k)" "in_range mb (T ! k)" using ne h by (auto simp: hashed_def)
      then show ?thesis
        using located_kept [OF hashed_member [OF h True]] ti True by (simp add: nth_append)
    next
      case False
      have "slot ?s l \<noteq> i" if "l < m" for l using m that ti by (auto simp: stops_def)
      then have "stops (?t(i := key mb e)) (key mb e) ?s m" using m by (auto simp: stops_def i_def)
      then show ?thesis using False k by (auto simp: located_def i_def nth_append)
    qed
  qed (use h e in \<open>auto simp: hashed_def\<close>)
  ultimately show thesis using that by blast
qed

end
