(* ===== verification/Z_Lzw.thy ===== *)
theory Z_Lzw
  imports Z_State
begin

text \<open>
  The Lempel-Ziv-Welch method on its own: a table of strings, each a known string extended by a
  character, what a code stands for, the receiver that rebuilds the table from the codes, one
  entry behind the sender, and the invariant of the sender.
\<close>

section \<open>Tables\<close>

type_synonym table = "(int \<times> u8) list"

definition valid :: "table \<Rightarrow> int \<Rightarrow> bool" where
  "valid T c \<longleftrightarrow> 0 \<le> c \<and> c < 256 \<or> FIRST \<le> c \<and> c < FIRST + int (length T)"

definition wf_table :: "table \<Rightarrow> bool" where
  "wf_table T \<longleftrightarrow> (\<forall>k < length T. valid (take k T) (fst (T ! k)))"

definition entry_of :: "table \<Rightarrow> int \<Rightarrow> int \<times> u8" where
  "entry_of T c = T ! nat (c - FIRST)"

text \<open>The string a code stands for.\<close>

function expand :: "table \<Rightarrow> int \<Rightarrow> bytes" where
  "expand T c =
     (if c < 256 then [word_of_int c]
      else if fst (entry_of T c) < c then expand T (fst (entry_of T c)) @ [snd (entry_of T c)]
      else [])"
  by pat_completeness auto
termination by (relation "measure (\<lambda>(T, c). nat c)") auto

declare expand.simps [simp del]

lemma expand_char [simp]: "c < 256 \<Longrightarrow> expand T c = [word_of_int c]"
  by (simp add: expand.simps [of T c])

lemma expand_nonempty: "wf_table T \<Longrightarrow> valid T c \<Longrightarrow> expand T c \<noteq> []"
proof (cases "c < 256")
  case False
  assume T: "wf_table T" "valid T c"
  define k where "k = nat (c - FIRST)"
  have k: "k < length T" "c = FIRST + int k" using T(2) False by (auto simp: valid_def k_def FIRST_def)
  then have "fst (entry_of T c) < c"
    using T(1) by (auto simp: wf_table_def valid_def entry_of_def FIRST_def)
  then show ?thesis by (subst expand.simps) simp
qed simp

lemma expand_entry:
  assumes "wf_table T" "k < length T"
  shows "expand T (FIRST + int k) = expand T (fst (T ! k)) @ [snd (T ! k)]"
proof -
  have "fst (T ! k) < FIRST + int k"
    using assms by (auto simp: wf_table_def valid_def FIRST_def)
  then show ?thesis by (subst expand.simps) (simp add: entry_of_def FIRST_def)
qed

lemma valid_append: "valid T c \<Longrightarrow> valid (T @ X) c"
  by (auto simp: valid_def)

lemma wf_table_snoc: "wf_table (T @ [e]) \<longleftrightarrow> wf_table T \<and> valid T (fst e)"
  by (auto simp: wf_table_def nth_append less_Suc_eq)

lemma wf_table_Nil [simp]: "wf_table []"
  by (simp add: wf_table_def)

lemma wf_prefix_valid: "wf_table T \<Longrightarrow> k < length T \<Longrightarrow> valid T (fst (T ! k))"
  by (auto simp: wf_table_def valid_def)

lemma expand_append:
  assumes "wf_table T" "valid T c"
  shows "expand (T @ X) c = expand T c"
  using assms(2)
proof (induction "nat c" arbitrary: c rule: less_induct)
  case less
  show ?case
  proof (cases "c < 256")
    case False
    define k where "k = nat (c - FIRST)"
    have k: "k < length T" "c = FIRST + int k" using less(2) False by (auto simp: valid_def k_def FIRST_def)
    have e: "entry_of (T @ X) c = T ! k" "entry_of T c = T ! k"
      using k by (auto simp: entry_of_def nth_append)
    have v: "valid T (fst (T ! k))" using wf_prefix_valid [OF assms(1) k(1)] .
    have l: "fst (T ! k) < c" using assms(1) k by (auto simp: wf_table_def valid_def FIRST_def)
    have "expand (T @ X) (fst (T ! k)) = expand T (fst (T ! k))"
      using less(1) [OF _ v] l False by simp
    then show ?thesis
      using e l False by (simp add: expand.simps [of "T @ X" c] expand.simps [of T c])
  qed simp
qed

section \<open>The receiver\<close>

text \<open>Its state is the table and the previous code, \<open>-1\<close> at the start and after a \<open>CLEAR\<close>. The
  table holds at most \<open>M\<close> strings. A code may be the one just about to be entered.\<close>

type_synonym receiver = "table \<times> int"

definition accepts :: "receiver \<Rightarrow> int \<Rightarrow> bool" where
  "accepts R c \<longleftrightarrow> c = CLEAR \<or> valid (fst R) c \<or> (c = FIRST + int (length (fst R)) \<and> snd R \<noteq> -1)"

definition says :: "receiver \<Rightarrow> int \<Rightarrow> bytes" where
  "says R c =
     (if c = CLEAR then []
      else if c = FIRST + int (length (fst R))
      then expand (fst R) (snd R) @ [hd (expand (fst R) (snd R))]
      else expand (fst R) c)"

definition learns :: "nat \<Rightarrow> receiver \<Rightarrow> int \<Rightarrow> receiver" where
  "learns M R c =
     (if c = CLEAR then ([], -1)
      else (if length (fst R) < M \<and> snd R \<noteq> -1 then fst R @ [(snd R, hd (says R c))] else fst R, c))"

fun hears :: "nat \<Rightarrow> receiver \<Rightarrow> int list \<Rightarrow> bytes" where
  "hears M R [] = []"
| "hears M R (c # cs) = says R c @ hears M (learns M R c) cs"

fun understands :: "nat \<Rightarrow> receiver \<Rightarrow> int list \<Rightarrow> bool" where
  "understands M R [] = True"
| "understands M R (c # cs) = (accepts R c \<and> understands M (learns M R c) cs)"

abbreviation fresh_receiver :: receiver where "fresh_receiver \<equiv> ([], -1)"

definition after :: "nat \<Rightarrow> int list \<Rightarrow> receiver" where
  "after M cs = foldl (learns M) fresh_receiver cs"

lemma hears_append: "hears M R (cs @ ds) = hears M R cs @ hears M (foldl (learns M) R cs) ds"
  by (induction cs arbitrary: R) auto

lemma understands_append:
  "understands M R (cs @ ds) \<longleftrightarrow> understands M R cs \<and> understands M (foldl (learns M) R cs) ds"
  by (induction cs arbitrary: R) auto

lemma after_snoc: "after M (cs @ [c]) = learns M (after M cs) c"
  by (simp add: after_def)

section \<open>The sender\<close>

text \<open>
  The table of the sender is that of the receiver, or one string ahead: the receiver's previous
  code extended by the first character of the pending string.
\<close>

definition abreast :: "nat \<Rightarrow> table \<Rightarrow> int \<Rightarrow> receiver \<Rightarrow> bool" where
  "abreast M T p R \<longleftrightarrow>
     (T = fst R \<and> (snd R = -1 \<or> length T = M)) \<or>
     (T = fst R @ [(snd R, hd (expand T p))] \<and> snd R \<noteq> -1)"

definition sends :: "nat \<Rightarrow> table \<Rightarrow> int \<Rightarrow> int list \<Rightarrow> bytes \<Rightarrow> bool" where
  "sends M T p cs data \<longleftrightarrow>
     wf_table T \<and> valid T p \<and> length T \<le> M \<and> understands M fresh_receiver cs \<and>
     data = hears M fresh_receiver cs @ expand T p \<and> abreast M T p (after M cs) \<and>
     (cs \<noteq> [] \<longrightarrow> hd cs \<noteq> CLEAR)"

lemma valid_not_CLEAR: "valid T c \<Longrightarrow> c \<noteq> CLEAR"
  by (auto simp: valid_def CLEAR_def FIRST_def)

text \<open>When the pending code is sent the receiver takes it for the right string and catches up.\<close>

lemma pending_understood:
  assumes "sends M T p cs data"
  shows "accepts (after M cs) p" "says (after M cs) p = expand T p" "learns M (after M cs) p = (T, p)"
proof -
  obtain U old where R: "after M cs = (U, old)" by (cases "after M cs")
  have T: "wf_table T" "valid T p" "length T \<le> M" and ab: "abreast M T p (U, old)"
    using assms R by (simp_all add: sends_def)
  have nc: "p \<noteq> CLEAR" using valid_not_CLEAR [OF T(2)] .
  consider (even) "T = U" "old = -1 \<or> length T = M"
    | (ahead) "T = U @ [(old, hd (expand T p))]" "old \<noteq> -1"
    using ab by (auto simp: abreast_def)
  then have "accepts (U, old) p \<and> says (U, old) p = expand T p \<and> learns M (U, old) p = (T, p)"
  proof cases
    case even
    then show ?thesis using T nc by (auto simp: accepts_def says_def learns_def valid_def FIRST_def)
  next
    case ahead
    have U: "wf_table U" "valid U old" using T ahead(1) wf_table_snoc [of U "(old, hd (expand T p))"] by auto
    have "length T = Suc (length U)" by (subst ahead(1)) simp
    then have "length U < M" using T(3) by simp
    have acc: "accepts (U, old) p"
      using T(2) ahead(2) \<open>length T = Suc (length U)\<close> by (auto simp: accepts_def valid_def FIRST_def)
    have say: "says (U, old) p = expand T p"
    proof (cases "p = FIRST + int (length U)")
      case False
      then have "valid U p" using T(2) \<open>length T = Suc (length U)\<close> by (auto simp: valid_def)
      then show ?thesis
        using False nc expand_append [OF U(1)] by (subst ahead(1)) (simp add: says_def)
    next
      case True
      have "expand T p = expand T old @ [hd (expand T p)]"
        using expand_entry [OF T(1), of "length U"] True ahead(1)
        by (metis length_append_singleton lessI nth_append_length fst_conv snd_conv)
      moreover have "expand T old = expand U old"
        using expand_append [OF U(1,2)] by (subst ahead(1)) simp
      moreover have "expand U old \<noteq> []" using expand_nonempty U by blast
      ultimately show ?thesis using True nc by (simp add: says_def) (metis hd_append2)
    qed
    show ?thesis using acc say ahead \<open>length U < M\<close> nc by (simp add: learns_def)
  qed
  then show "accepts (after M cs) p" "says (after M cs) p = expand T p" "learns M (after M cs) p = (T, p)"
    using R by auto
qed

lemma sends_code:
  assumes "sends M T p cs data"
  shows "understands M fresh_receiver (cs @ [p])" "hears M fresh_receiver (cs @ [p]) = data"
    "after M (cs @ [p]) = (T, p)" "hd (cs @ [p]) \<noteq> CLEAR"
  using assms pending_understood [OF assms] valid_not_CLEAR [of T p]
  by (auto simp: sends_def understands_append hears_append after_snoc hd_append simp flip: after_def)

lemma uint_byte [simp]: "uint (b :: u8) < 256"
  using unsigned_less [of b, where 'a = int] by simp

lemma expand_byte: "expand T (uint (b :: u8)) = [b]"
  by simp

lemma valid_byte: "valid T (uint (b :: u8))"
  by (simp add: valid_def)

lemma sends_start: "sends M [] (uint b) [] [b]"
  by (simp add: sends_def valid_byte expand_byte abreast_def after_def)

lemma sends_extend:
  assumes s: "sends M T p cs data" and k: "k < length T" "T ! k = (p, b)"
  shows "sends M T (FIRST + int k) cs (data @ [b])"
proof -
  have T: "wf_table T" "valid T p" using s by (simp_all add: sends_def)
  have e: "expand T (FIRST + int k) = expand T p @ [b]" using expand_entry [OF T(1) k(1)] k(2) by simp
  moreover have "hd (expand T (FIRST + int k)) = hd (expand T p)" using e expand_nonempty [OF T] by simp
  moreover have "valid T (FIRST + int k)" using k(1) by (simp add: valid_def)
  ultimately show ?thesis using s by (simp add: sends_def abreast_def)
qed

lemma sends_enter:
  assumes s: "sends M T p cs data" and room: "length T < M"
  shows "sends M (T @ [(p, b)]) (uint b) (cs @ [p]) (data @ [b])"
proof -
  have T: "wf_table T" "valid T p" using s by (simp_all add: sends_def)
  have "p \<noteq> -1" using T(2) by (auto simp: valid_def FIRST_def)
  then show ?thesis
    using sends_code [OF s] T room
    by (simp add: sends_def wf_table_snoc valid_byte expand_byte abreast_def)
qed

lemma sends_full:
  assumes s: "sends M T p cs data" and full: "length T = M"
  shows "sends M T (uint b) (cs @ [p]) (data @ [b])"
  using sends_code [OF s] s full by (simp add: sends_def valid_byte expand_byte abreast_def)

lemma sends_clear:
  assumes s: "sends M T (uint (b :: u8)) cs data" and "cs \<noteq> []"
  shows "sends M [] (uint b) (cs @ [CLEAR]) data"
  using assms by (simp add: sends_def valid_byte expand_byte abreast_def understands_append hears_append
      after_snoc accepts_def says_def learns_def)

text \<open>The round trip of the method: what the receiver hears is the data.\<close>

lemma sends_heard:
  assumes "sends M T p cs data"
  shows "understands M fresh_receiver (cs @ [p]) \<and> hears M fresh_receiver (cs @ [p]) = data \<and>
    hd (cs @ [p]) \<noteq> CLEAR"
  using sends_code [OF assms] by simp

end
