(* ===== verification/Z_Bits.thy ===== *)
theory Z_Bits
  imports Z_State
begin

text \<open>
  Codes in a buffer: \<open>output\<close> puts the codes of a group behind one another, low bits first, and
  \<open>getcode\<close> takes them out again.
\<close>

lemma rmask_nth: "r \<le> 8 \<Longrightarrow> rmask ! r = mask r"
  by (simp add: rmask_def mask_eq_exp_minus_1 le_Suc_eq numeral_eq_Suc) (elim disjE; simp)

lemma lmask_nth: "r \<le> 8 \<Longrightarrow> lmask ! r = NOT (mask r)"
  by (simp add: lmask_def mask_eq_exp_minus_1 le_Suc_eq numeral_eq_Suc) (elim disjE; simp)

definition carries :: "nat \<Rightarrow> int list \<Rightarrow> bytes \<Rightarrow> bool" where
  "carries n cs bs \<longleftrightarrow> length cs * n \<le> 8 * length bs \<and>
     (\<forall>i < length cs * n. bit (bs ! (i div 8)) (i mod 8) = bit (cs ! (i div n)) (i mod n))"

lemma first_byte_bit:
  "j < 8 \<Longrightarrow> r < 8 \<Longrightarrow>
     bit (((old :: u8) AND rmask ! r) OR (word_of_int (push_bit r c) AND lmask ! r)) j =
       (if j < r then bit old j else bit c (j - r))"
  by (auto simp: rmask_nth lmask_nth bit_simps)

lemma byte_bit: "j < 8 \<Longrightarrow> bit (word_of_int c :: u8) j = bit c j"
  by (simp add: bit_simps)

lemma put_code_bits:
  assumes n: "9 \<le> n" "n \<le> 16" and room: "off + n \<le> 8 * length bs"
  obtains bs' where "put_code n off c bs = Inr bs'" "length bs' = length bs"
    "\<And>i. i < off + n \<Longrightarrow> bit (bs' ! (i div 8)) (i mod 8) =
       (if i < off then bit (bs ! (i div 8)) (i mod 8) else bit c (i - off))"
proof -
  define q where "q = off div 8"
  define r where "r = off mod 8"
  have qr: "off = 8 * q + r" "r < 8" by (simp_all add: q_def r_def)
  define b1 where "b1 = (bs ! q AND rmask ! r) OR (word_of_int (push_bit r c) AND lmask ! r)"
  define b2 :: u8 where "b2 = word_of_int (drop_bit (8 - r) c)"
  define b3 :: u8 where "b3 = word_of_int (drop_bit 8 (drop_bit (8 - r) c))"
  define bs1 where "bs1 = bs[q := b1, Suc q := b2]"
  define bs' where "bs' = (if 16 < n + r then bs1[Suc (Suc q) := b3] else bs1)"
  have q1: "q < length bs" "Suc q < length bs" using room n qr by auto
  have q2: "Suc (Suc q) < length bs" if "16 < n + r" using room n qr that by linarith
  have m: "(int n - (8 - int r)) mod 2 ^ 32 = int n + int r - 8" using n qr by simp
  have "put_code n off c bs = Inr bs'"
  proof (cases "16 \<le> n + r")
    case True
    then show ?thesis
      unfolding put_code_def Let_def q_def [symmetric] r_def [symmetric] m
      using q1 q2 by (simp add: get_byte_def set_byte_def b1_def b2_def b3_def bs1_def bs'_def)
  next
    case False
    then show ?thesis
      unfolding put_code_def Let_def q_def [symmetric] r_def [symmetric] m
      using q1 q2 n by (simp add: get_byte_def set_byte_def b1_def b2_def b3_def bs1_def bs'_def)
  qed
  moreover have "bit (bs' ! (i div 8)) (i mod 8) =
      (if i < off then bit (bs ! (i div 8)) (i mod 8) else bit c (i - off))" if i: "i < off + n" for i
  proof -
    define k where "k = i div 8"
    define j where "j = i mod 8"
    have kj: "i = 8 * k + j" "j < 8" by (simp_all add: k_def j_def)
    have "k \<le> q + 2" using i qr kj n by linarith
    then consider "k < q" | "k = q" | "k = Suc q" | "k = Suc (Suc q)" by linarith
    then have "bit (bs' ! k) j = (if i < off then bit (bs ! k) j else bit c (i - off))"
    proof cases
      case 1
      then show ?thesis using qr kj by (simp add: bs'_def bs1_def)
    next
      case 2
      then show ?thesis using q1 kj qr by (simp add: bs'_def bs1_def b1_def first_byte_bit)
    next
      case 3
      then have "i - off = 8 - r + j" using kj qr by simp
      then show ?thesis using 3 q1 kj qr by (simp add: bs'_def bs1_def b2_def byte_bit bit_drop_bit_eq)
    next
      case 4
      then have g: "16 < n + r" "i - off = 16 - r + j" using i kj qr by linarith+
      then show ?thesis using 4 q1 q2 kj qr
        by (simp add: bs'_def bs1_def b3_def byte_bit bit_drop_bit_eq)
    qed
    then show ?thesis by (simp add: k_def j_def)
  qed
  ultimately show thesis using that [of bs'] by (simp add: bs'_def bs1_def)
qed

lemma put_code_carries:
  assumes c: "carries n cs bs" and n: "9 \<le> n" "n \<le> 16" and room: "(length cs + 1) * n \<le> 8 * length bs"
  obtains bs' where "put_code n (length cs * n) c bs = Inr bs'" "length bs' = length bs"
    "carries n (cs @ [c]) bs'"
proof -
  obtain bs' where bs': "put_code n (length cs * n) c bs = Inr bs'" "length bs' = length bs"
    "\<And>i. i < length cs * n + n \<Longrightarrow> bit (bs' ! (i div 8)) (i mod 8) =
       (if i < length cs * n then bit (bs ! (i div 8)) (i mod 8) else bit c (i - length cs * n))"
    using put_code_bits [OF n, of "length cs * n" bs c] room by auto
  have "carries n (cs @ [c]) bs'"
    unfolding carries_def
  proof (intro conjI allI impI)
    show "length (cs @ [c]) * n \<le> 8 * length bs'" using room bs'(2) by simp
    fix i assume i: "i < length (cs @ [c]) * n"
    have np: "0 < n" using n by simp
    show "bit (bs' ! (i div 8)) (i mod 8) = bit ((cs @ [c]) ! (i div n)) (i mod n)"
    proof (cases "i < length cs * n")
      case True
      then have "i div n < length cs" using np by (simp add: div_less_iff_less_mult)
      then show ?thesis using bs'(3) [of i] True c by (simp add: carries_def nth_append)
    next
      case False
      then obtain j where j: "i = length cs * n + j" by (metis le_iff_add not_less)
      then have "j < n" using i by simp
      then have "i div n = length cs" "i mod n = j" using j np by simp_all
      then show ?thesis using bs'(3) [of i] i j by simp
    qed
  qed
  then show thesis using that bs' by blast
qed

lemma bits_eq:
  assumes "0 \<le> a" "a < 2 ^ n" "0 \<le> b" "b < 2 ^ n" "\<And>i. i < n \<Longrightarrow> bit a i = bit (b :: int) i"
  shows "a = b"
proof -
  have "take_bit n a = take_bit n b"
    using assms(5) by (intro bit_eqI) (auto simp: bit_take_bit_iff)
  then show ?thesis using assms by (simp add: take_bit_int_eq_self)
qed

text \<open>What \<open>take_code\<close> reads: the bits from \<open>roffset\<close> on.\<close>

lemma take_code_bits:
  assumes n: "9 \<le> n_bits zs" "n_bits zs \<le> 16" and off: "roffset zs = int off"
    and room: "off + n_bits zs \<le> 8 * length (gbuf zs)"
  obtains c where "take_code zs = Inr (c, zs\<lparr>roffset := roffset zs + int (n_bits zs)\<rparr>)" "0 \<le> c" "c < 2 ^ n_bits zs"
    "\<And>i. i < n_bits zs \<Longrightarrow> bit c i = bit (gbuf zs ! ((off + i) div 8)) ((off + i) mod 8)"
proof -
  define n where "n = n_bits zs"
  define q where "q = off div 8"
  define r where "r = off mod 8"
  have qr: "off = 8 * q + r" "r < 8" by (simp_all add: q_def r_def)
  define g where "g k = (if k < length (gbuf zs) then gbuf zs ! k else beyond zs)" for k
  have nn: "9 \<le> n" "n \<le> 16" using n by (simp_all add: n_def)
  have q1: "Suc q < length (gbuf zs)" using room n qr by linarith
  have gbI: "gb zs k = Inr (g k)" if "k \<le> length (gbuf zs)" for k
    using that by (auto simp: gb_def g_def)
  define c where "c = (if 16 \<le> n + r
    then (drop_bit r (uint (g q)) OR push_bit (8 - r) (uint (g (Suc q)))) OR
      push_bit (16 - r) (uint (g (Suc (Suc q)) AND mask (n + r - 16)))
    else drop_bit r (uint (g q)) OR push_bit (8 - r) (uint (g (Suc q) AND mask (n + r - 8))))"
  have e: "take_code zs = Inr (c, zs\<lparr>roffset := roffset zs + int n\<rparr>)"
  proof (cases "16 \<le> n + r")
    case True
    then have "int n - (8 - int r) = int (n + r - 8)" "nat (int (n + r - 8) - 8) = n + r - 16"
      "8 - r + 8 = 16 - r" "n + r - 16 \<le> 8" "8 \<le> n + r - 8" "int (n + r - 8) - 8 < 9"
      using qr nn by auto
    then show ?thesis
      unfolding take_code_def Let_def off nat_int q_def [symmetric] r_def [symmetric] n_def [symmetric]
      using True q1 gbI [of q] gbI [of "Suc q"] gbI [of "Suc (Suc q)"]
      by (simp add: c_def rmask_nth)
  next
    case False
    then have "int n - (8 - int r) = int (n + r - 8)" "n + r - 8 < 8"
      "nat (int n + int r - 8) = n + r - 8" using qr nn by auto
    then show ?thesis
      unfolding take_code_def Let_def off nat_int q_def [symmetric] r_def [symmetric] n_def [symmetric]
      using False q1 gbI [of q] gbI [of "Suc q"]
      by (simp add: c_def rmask_nth)
  qed
  have high: "\<not> bit (w :: u8) k" if "8 \<le> k" for w k 
    using that bit_imp_le_length [of w k] by auto
  have bits: "bit c i = (i < n \<and> bit (g ((off + i) div 8)) ((off + i) mod 8))" for i
  proof -
    have s: "(off + i) div 8 = q + (r + i) div 8" "(off + i) mod 8 = (r + i) mod 8"
      using qr by (simp_all add: add.assoc)
    have b: "bit c i = (if 16 \<le> n + r
      then bit (g q) (r + i) \<or> (8 - r \<le> i \<and> bit (g (Suc q)) (i - (8 - r))) \<or>
        (16 - r \<le> i \<and> i - (16 - r) < n + r - 16 \<and> bit (g (Suc (Suc q))) (i - (16 - r)))
      else bit (g q) (r + i) \<or> (8 - r \<le> i \<and> i - (8 - r) < n + r - 8 \<and> bit (g (Suc q)) (i - (8 - r))))"
      using nn qr(2) by (auto simp: c_def bit_simps high)
    consider "r + i < 8" | "8 \<le> r + i" "r + i < 16" | "16 \<le> r + i" "r + i < 24" | "24 \<le> r + i" by linarith
    then show ?thesis
    proof cases
      case 1
      then show ?thesis unfolding b s using qr nn by auto
    next
      case 2
      then have "(r + i) div 8 = 1" "(r + i) mod 8 = i - (8 - r)" using qr by (auto simp: mod_if)
      then show ?thesis unfolding b s using 2 qr nn high [of "r + i"] by auto
    next
      case 3
      then have "(r + i) div 8 = 2" "(r + i) mod 8 = i - (16 - r)" using qr by (auto simp: mod_if)
      then show ?thesis unfolding b s using 3 qr nn high [of "r + i"] high [of "i - (8 - r)"] by auto
    next
      case 4
      then show ?thesis unfolding b s using qr nn high [of "r + i"] high [of "i - (8 - r)"] by auto
    qed
  qed
  have "0 \<le> c" by (simp add: c_def)
  moreover have "take_bit n c = c" by (rule bit_eqI) (auto simp: bit_take_bit_iff bits)
  then have "c < 2 ^ n" using take_bit_int_less_exp [of n c] by simp
  moreover have "(off + i) div 8 < length (gbuf zs)" if "i < n" for i
    using room that n_def by (simp add: div_less_iff_less_mult)
  ultimately show thesis
    using that [of c] e bits by (simp add: n_def g_def)
qed

lemma take_code_carries:
  assumes n: "9 \<le> n_bits zs" "n_bits zs \<le> 16" and off: "roffset zs = int (j * n_bits zs)"
    and c: "carries (n_bits zs) cs (gbuf zs)" "j < length cs" "0 \<le> cs ! j" "cs ! j < 2 ^ n_bits zs"
  shows "take_code zs = Inr (cs ! j, zs\<lparr>roffset := roffset zs + int (n_bits zs)\<rparr>)"
proof -
  define n where "n = n_bits zs"
  have "(j + 1) * n \<le> length cs * n" using c(2) by (intro mult_right_mono) auto
  also have "\<dots> \<le> 8 * length (gbuf zs)" using c(1) by (simp add: carries_def n_def)
  finally have room: "j * n + n \<le> 8 * length (gbuf zs)" by simp
  then obtain c' where t: "take_code zs = Inr (c', zs\<lparr>roffset := roffset zs + int n\<rparr>)" "0 \<le> c'" "c' < 2 ^ n"
    and b: "\<And>i. i < n \<Longrightarrow> bit c' i = bit (gbuf zs ! ((j * n + i) div 8)) ((j * n + i) mod 8)"
    using take_code_bits [OF n off] by (auto simp: n_def)
  have "c' = cs ! j"
  proof (rule bits_eq [of _ n])
    fix i assume i: "i < n"
    have "j * n + i < length cs * n"
      using \<open>(j + 1) * n \<le> length cs * n\<close> i by simp
    moreover have "(j * n + i) div n = j" "(j * n + i) mod n = i" using i by simp_all
    ultimately show "bit c' i = bit (cs ! j) i" using b [OF i] c(1) by (simp add: carries_def n_def)
  qed (use t c n_def in auto)
  then show ?thesis using t n_def by simp
qed

end
