(* ===== verification/Z_Frames.thy ===== *)
theory Z_Frames
  imports Z_Bits
begin

text \<open>
  The layout of a compressed stream: codes in groups of up to eight, all of one width, each group
  as many bytes as a code has bits. A group ends early where the width changes: before the table
  outgrows the width and after a \<open>CLEAR\<close>. The width and the number of codes in use are functions
  of the codes before, \<open>astate\<close>; \<open>output\<close> keeps to this layout.
\<close>

section \<open>Widths\<close>

definition mcode :: "nat \<Rightarrow> nat \<Rightarrow> int" where
  "mcode mb n = (if n = mb then 2 ^ mb else MAXCODE n)"

definition boundary :: "nat \<Rightarrow> nat \<times> int \<Rightarrow> int \<Rightarrow> bool" where
  "boundary mb s c \<longleftrightarrow> c = CLEAR \<or> snd s > mcode mb (fst s)"

definition a_step :: "nat \<Rightarrow> nat \<times> int \<Rightarrow> int \<Rightarrow> nat \<times> int" where
  "a_step mb s c =
     (if c = CLEAR then (INIT_BITS, FIRST)
      else (if snd s > mcode mb (fst s) then fst s + 1 else fst s, min (snd s + 1) (2 ^ mb)))"

definition astate :: "nat \<Rightarrow> int list \<Rightarrow> nat \<times> int" where
  "astate mb cs = foldl (a_step mb) (INIT_BITS, FIRST) cs"

definition a_inv :: "nat \<Rightarrow> nat \<times> int \<Rightarrow> bool" where
  "a_inv mb s \<longleftrightarrow> INIT_BITS \<le> fst s \<and> fst s \<le> mb \<and> FIRST \<le> snd s \<and> snd s \<le> 2 ^ mb \<and>
     (fst s < mb \<longrightarrow> snd s \<le> 2 ^ fst s)"

fun quiet :: "nat \<Rightarrow> nat \<times> int \<Rightarrow> int list \<Rightarrow> bool" where
  "quiet mb s [] = True"
| "quiet mb s (c # cs) = (\<not> boundary mb s c \<and> quiet mb (a_step mb s c) cs)"

lemma quiet_snoc: "quiet mb s (cs @ [c]) \<longleftrightarrow> quiet mb s cs \<and> \<not> boundary mb (foldl (a_step mb) s cs) c"
  by (induction cs arbitrary: s) auto

lemma quiet_width: "quiet mb s cs \<Longrightarrow> fst (foldl (a_step mb) s cs) = fst s"
  by (induction cs arbitrary: s) (auto simp: boundary_def a_step_def)

lemma a_inv_step:
  assumes "12 \<le> mb" "a_inv mb s"
  shows "a_inv mb (a_step mb s c)"
proof -
  have m: "(2 :: int) ^ 12 \<le> 2 ^ mb" using assms(1) by (intro power_increasing) auto
  have "(1 :: int) \<le> 2 ^ fst s" by simp
  then have "snd s + 1 \<le> 2 ^ (fst s + 1)" if "snd s \<le> 2 ^ fst s" using that unfolding power_add power_one_right by linarith
  moreover have "\<not> snd s > mcode mb (fst s)" if "fst s = mb" using assms that by (auto simp: a_inv_def mcode_def)
  moreover have "snd s + 1 \<le> 2 ^ fst s" if "\<not> snd s > mcode mb (fst s)" "fst s < mb"
    using that by (auto simp: mcode_def MAXCODE_def)
  ultimately show ?thesis
    using assms m by (cases "fst s = mb") (auto simp: a_inv_def a_step_def INIT_BITS_def FIRST_def)
qed

lemma a_inv_start: "12 \<le> mb \<Longrightarrow> a_inv mb (INIT_BITS, FIRST)"
proof -
  assume "12 \<le> mb"
  then have "(2 :: int) ^ 12 \<le> 2 ^ mb" by (intro power_increasing) auto
  then show ?thesis using \<open>12 \<le> mb\<close> by (simp add: a_inv_def INIT_BITS_def FIRST_def)
qed

lemma a_inv_foldl: "12 \<le> mb \<Longrightarrow> a_inv mb s \<Longrightarrow> a_inv mb (foldl (a_step mb) s cs)"
  by (induction cs arbitrary: s) (auto simp: a_inv_step)

lemma a_inv_astate: "12 \<le> mb \<Longrightarrow> a_inv mb (astate mb cs)"
  by (simp add: astate_def a_inv_foldl a_inv_start)

section \<open>Groups\<close>

definition full_group :: "nat \<Rightarrow> nat \<times> int \<Rightarrow> int list \<Rightarrow> bool" where
  "full_group mb s cs \<longleftrightarrow> length cs \<le> 8 \<and>
     (\<exists>cs' c. cs = cs' @ [c] \<and> quiet mb s cs' \<and> (length cs = 8 \<or> boundary mb (foldl (a_step mb) s cs') c))"

definition fit :: "nat \<Rightarrow> int list \<Rightarrow> bool" where
  "fit n cs \<longleftrightarrow> (\<forall>c \<in> set cs. 0 \<le> c \<and> c < 2 ^ n)"

type_synonym group = "int list \<times> bytes"

definition codes :: "group list \<Rightarrow> int list" where "codes gs = concat (map fst gs)"
definition packed :: "group list \<Rightarrow> bytes" where "packed gs = concat (map snd gs)"

fun frames :: "nat \<Rightarrow> nat \<times> int \<Rightarrow> group list \<Rightarrow> bool" where
  "frames mb s [] = True"
| "frames mb s ((cs, bs) # gs) =
     (full_group mb s cs \<and> carries (fst s) cs bs \<and> length bs = fst s \<and> fit (fst s) cs \<and>
      frames mb (foldl (a_step mb) s cs) gs)"

lemma codes_simps [simp]: "codes [] = []" "codes ((cs, bs) # gs) = cs @ codes gs" "codes (gs @ hs) = codes gs @ codes hs"
  by (simp_all add: codes_def)

lemma packed_simps [simp]: "packed [] = []" "packed ((cs, bs) # gs) = bs @ packed gs" "packed (gs @ hs) = packed gs @ packed hs"
  by (simp_all add: packed_def)

lemma frames_append:
  "frames mb s (gs @ hs) \<longleftrightarrow> frames mb s gs \<and> frames mb (foldl (a_step mb) s (codes gs)) hs"
  by (induction mb s gs rule: frames.induct) auto

lemma carries_take:
  assumes c: "carries n cs bs" and l: "length cs * n \<le> 8 * k" and k: "k \<le> length bs"
  shows "carries n cs (take k bs)"
  unfolding carries_def
proof (intro conjI allI impI)
  show "length cs * n \<le> 8 * length (take k bs)" using l k by simp
  fix i assume i: "i < length cs * n"
  then have "i div 8 < k" using l by (simp add: div_less_iff_less_mult)
  then show "bit (take k bs ! (i div 8)) (i mod 8) = bit (cs ! (i div n)) (i mod n)"
    using c i by (simp add: carries_def)
qed

lemma carries_Nil [simp]: "carries n [] bs"
  by (simp add: carries_def)

section \<open>The writer keeps the layout\<close>

definition header :: "nat \<Rightarrow> bytes" where
  "header mb = magic_header @ [word_of_nat mb OR BLOCK_MASK]"

text \<open>Complete groups \<open>gs\<close> are in the file, the codes \<open>cur\<close> of the next one in the buffer.\<close>

definition channel :: "nat \<Rightarrow> zwriter \<Rightarrow> group list \<Rightarrow> int list \<Rightarrow> bool" where
  "channel mb zs gs cur \<longleftrightarrow>
     zout zs = header mb @ packed gs \<and> frames mb (INIT_BITS, FIRST) gs \<and>
     quiet mb (astate mb (codes gs)) cur \<and> length cur < 8 \<and>
     n_bits zs = fst (astate mb (codes gs)) \<and> maxcode zs = mcode mb (n_bits zs) \<and>
     maxbits zs = mb \<and> maxmaxcode zs = 2 ^ mb \<and> offset zs = length cur * n_bits zs \<and>
     length (buf zs) = BITS \<and> carries (n_bits zs) cur (buf zs) \<and> fit (n_bits zs) cur \<and> wscript zs = []"

lemma astate_append: "astate mb (cs @ ds) = foldl (a_step mb) (astate mb cs) ds"
  by (simp add: astate_def)

lemma channel_width:
  assumes "channel mb zs gs cur" "12 \<le> mb" "mb \<le> 16"
  shows "fst (astate mb (codes gs @ cur)) = n_bits zs" "9 \<le> n_bits zs" "n_bits zs \<le> 16" "n_bits zs \<le> mb"
proof -
  have n: "n_bits zs = fst (astate mb (codes gs))" "quiet mb (astate mb (codes gs)) cur"
    using assms(1) by (simp_all add: channel_def)
  then show "fst (astate mb (codes gs @ cur)) = n_bits zs" by (simp add: astate_append quiet_width)
  show "9 \<le> n_bits zs" "n_bits zs \<le> 16" "n_bits zs \<le> mb"
    using n(1) a_inv_astate [OF assms(2), of "codes gs"] assms(3) by (simp_all add: a_inv_def INIT_BITS_def)
qed


text \<open>The fields \<open>output\<close> changes.\<close>

definition rest_same :: "zwriter \<Rightarrow> zwriter \<Rightarrow> bool" where
  "rest_same zs zs' \<longleftrightarrow>
     zs' = zs\<lparr>n_bits := n_bits zs', maxcode := maxcode zs', clear_flg := False, offset := offset zs',
       bytes_out := bytes_out zs', buf := buf zs', zout := zout zs'\<rparr>"

lemma rest_sameD:
  assumes "rest_same zs zs'"
  shows "state zs' = state zs" "maxbits zs' = maxbits zs" "maxmaxcode zs' = maxmaxcode zs"
    "codetab zs' = codetab zs" "hsize zs' = hsize zs" "free_ent zs' = free_ent zs"
    "block_compress zs' = block_compress zs" "clear_flg zs' = False" "ratio zs' = ratio zs"
    "checkpoint zs' = checkpoint zs" "in_count zs' = in_count zs" "out_count zs' = out_count zs"
    "htab zs' = htab zs" "ent zs' = ent zs" "hsize_reg zs' = hsize_reg zs" "hshift zs' = hshift zs"
    "wscript zs' = wscript zs"
  using assms unfolding rest_same_def by (cases zs; cases zs'; simp)+

text \<open>The new group when a code fills it or the width changes.\<close>

lemma channel_close:
  assumes ch: "channel mb zs gs cur" and mb: "12 \<le> mb" "mb \<le> 16"
    and fit: "0 \<le> c" "c < 2 ^ n_bits zs" and bs: "length bs = BITS" "carries (n_bits zs) (cur @ [c]) bs"
    and full: "length cur = 7 \<or> boundary mb (astate mb (codes gs @ cur)) c"
  shows "frames mb (INIT_BITS, FIRST) (gs @ [(cur @ [c], take (n_bits zs) bs)])"
proof -
  note n = channel_width [OF ch mb]
  let ?n = "n_bits zs"
  have c0: "frames mb (INIT_BITS, FIRST) gs" "quiet mb (astate mb (codes gs)) cur" "length cur < 8"
    "?n = fst (astate mb (codes gs))" "fit ?n cur"
    using ch unfolding channel_def by blast+
  have "full_group mb (astate mb (codes gs)) (cur @ [c])"
    unfolding full_group_def using c0(2,3) full by (auto simp: astate_append)
  moreover have "(length cur + 1) * ?n \<le> 8 * ?n" using c0(3) by (intro mult_right_mono) auto
  then have "carries ?n (cur @ [c]) (take ?n bs)"
    using bs n by (intro carries_take) (auto simp: BITS_def)
  ultimately show ?thesis
    using c0 n bs fit by (simp add: frames_append astate_def fit_def BITS_def)
qed

lemma output_channel:
  assumes ch: "channel mb zs gs cur" and mb: "12 \<le> mb" "mb \<le> 16"
    and fit: "0 \<le> c" "c < 2 ^ n_bits zs"
    and use: "c \<noteq> CLEAR \<and> \<not> clear_flg zs \<and> free_ent zs = snd (astate mb (codes gs @ cur)) \<or>
      c = CLEAR \<and> clear_flg zs"
  obtains zs' gs' cur' where "z_output zs c = Inr (True, zs')" "channel mb zs' gs' cur'"
    "codes gs' @ cur' = codes gs @ cur @ [c]" "rest_same zs zs'"
proof -
  note n = channel_width [OF ch mb]
  let ?n = "n_bits zs" and ?s = "astate mb (codes gs @ cur)"
  have c0: "zout zs = header mb @ packed gs" "frames mb (INIT_BITS, FIRST) gs"
    "quiet mb (astate mb (codes gs)) cur" "length cur < 8" "?n = fst (astate mb (codes gs))"
    "maxcode zs = mcode mb ?n" "maxbits zs = mb" "maxmaxcode zs = 2 ^ mb" "offset zs = length cur * ?n"
    "length (buf zs) = BITS" "carries ?n cur (buf zs)" "fit ?n cur" "wscript zs = []"
    using ch unfolding channel_def by blast+
  have "(length cur + 1) * ?n \<le> 8 * ?n" using c0(4) by (intro mult_right_mono) auto
  then have room: "(length cur + 1) * ?n \<le> 8 * length (buf zs)" using n c0(10) unfolding BITS_def by linarith
  obtain bs where put: "put_code ?n (offset zs) c (buf zs) = Inr bs" and bs: "length bs = BITS"
    "carries ?n (cur @ [c]) bs"
    using put_code_carries [OF c0(11) n(2,3) room, of c] c0(9,10) by (metis)
  let ?g = "(cur @ [c], take ?n bs)"
  define B where "B \<longleftrightarrow> free_ent zs > maxcode zs \<or> clear_flg zs"
  have B: "B \<longleftrightarrow> boundary mb ?s c"
    using use c0(6) n(1) by (auto simp: B_def boundary_def)
  have step: "astate mb (codes (gs @ [?g])) = a_step mb ?s c" by (simp add: astate_append)
  have width: "fst (a_step mb ?s c) = (if clear_flg zs then INIT_BITS else if B then ?n + 1 else ?n)"
    using use n(1) c0(6) by (auto simp: a_step_def B_def)
  have wmax: "INIT_BITS \<noteq> mb" using mb by (simp add: INIT_BITS_def)
  show thesis
  proof (cases "B \<or> length cur = 7")
    case False
    \<comment> \<open>the buffer has room for more\<close>
    let ?zs' = "zs\<lparr>buf := bs, offset := offset zs + ?n\<rparr>"
    have "offset zs + ?n \<noteq> ?n * 8" using False c0(4,9) n by auto
    then have "z_output zs c = Inr (True, ?zs')"
      using put fit False by (simp add: z_output_def output_code_def flush_full_def change_width_def B_def)
    moreover have "channel mb ?zs' gs (cur @ [c])"
      using c0 bs False B fit by (auto simp: channel_def quiet_snoc astate_append fit_def)
    moreover have "rest_same zs ?zs'" using False by (cases zs) (simp add: rest_same_def B_def)
    ultimately show thesis using that [of ?zs' gs "cur @ [c]"] by simp
  next
    case True
    have fr: "frames mb (INIT_BITS, FIRST) (gs @ [?g])"
      using channel_close [OF ch mb fit bs] True B by auto
    let ?w = "fst (a_step mb ?s c)" and ?zs0 = "zs\<lparr>buf := bs, offset := offset zs + ?n\<rparr>"
      and ?zs1 = "zs\<lparr>buf := bs, bytes_out := bytes_out zs + int ?n, zout := zout zs @ take ?n bs, offset := 0\<rparr>"
    have new: "(if clear_flg zs then first_width ?zs1 else if B then widen ?zs1 else ?zs1) =
        zs\<lparr>n_bits := ?w, maxcode := mcode mb ?w, clear_flg := False, offset := 0,
          bytes_out := bytes_out zs + int ?n, buf := bs, zout := zout zs @ take ?n bs\<rparr>"
      using width wmax c0(6,7,8) by (simp add: first_width_def widen_def Let_def mcode_def)
    have out: "z_output zs c = Inr (case flush_full ?zs0 of (ok, zs1) \<Rightarrow> if ok then change_width zs1 else (False, zs1))"
      using put fit by (simp add: z_output_def output_code_def split_def if_distrib)
    have "z_output zs c = Inr (True, if clear_flg zs then first_width ?zs1 else if B then widen ?zs1 else ?zs1)"
    proof (cases "length cur = 7")
      case True
      then have "offset zs + ?n = ?n * 8" using c0(9) by simp
      then have "flush_full ?zs0 = (True, ?zs1)" using c0(13) by (simp add: flush_full_def z_fwrite_def)
      moreover have "change_width ?zs1 = (True, if clear_flg zs then first_width ?zs1 else if B then widen ?zs1 else ?zs1)"
        by (simp add: change_width_def B_def)
      ultimately show ?thesis unfolding out by simp
    next
      case False
      then have "B" "offset zs + ?n \<noteq> ?n * 8" "0 < offset zs + ?n" using True c0(4,9) n by auto
      then have "flush_full ?zs0 = (True, ?zs0)" by (simp add: flush_full_def)
      moreover have "change_width ?zs0 = (True, if clear_flg zs then first_width ?zs1 else widen ?zs1)"
        using \<open>B\<close> \<open>0 < offset zs + ?n\<close> c0(13) by (simp add: change_width_def B_def z_fwrite_def first_width_def widen_def Let_def)
      ultimately show ?thesis unfolding out using \<open>B\<close> by simp
    qed
    note o = this [unfolded new]
    show thesis
      using o that [of _ "gs @ [?g]" "[]"] fr c0 bs step by (auto simp: channel_def rest_same_def fit_def)
  qed
qed

end
