(* ===== verification/Z_Write.thy ===== *)
theory Z_Write
  imports Z_Hash Z_Lzw Z_Frames
begin

text \<open>
  \<open>zwrite\<close> and \<open>zclose\<close> send their data: the hash table represents the sender's table, the codes
  put out keep the layout, and the file is complete at the end.
\<close>

section \<open>Clearing the hash table\<close>

lemma cl_sixteen_eq: "cl_sixteen k p t i = (if p - int k \<le> i \<and> i < p then -1 else t i)"
  by (induction k arbitrary: t) auto

lemma cl_loop_clears:
  "16 \<le> p \<Longrightarrow> p \<le> HSIZE \<Longrightarrow>
     \<exists>q t'. cl_loop p (p - 16) t = Inr (q, q - 16, t') \<and> 0 \<le> q \<and> q < 16 \<and>
       (\<forall>i. t' i = (if q \<le> i \<and> i < p then -1 else t i))"
proof (induction "nat p" arbitrary: p t rule: less_induct)
  case less
  let ?t = "cl_sixteen 16 p t"
  show ?case
  proof (cases "16 \<le> p - 16")
    case True
    obtain q t' where "cl_loop (p - 16) (p - 16 - 16) ?t = Inr (q, q - 16, t')" "0 \<le> q" "q < 16"
      "\<forall>i. t' i = (if q \<le> i \<and> i < p - 16 then -1 else ?t i)"
      using less(1) [of "p - 16" ?t] less(2,3) True by auto
    then show ?thesis
      using less(2,3) True by (subst cl_loop.simps) (auto simp: Let_def cl_sixteen_eq)
  next
    case False
    then show ?thesis
      using less(2,3) by (subst cl_loop.simps) (auto simp: Let_def cl_sixteen_eq)
  qed
qed

lemma cl_rest_clears:
  "0 \<le> p \<Longrightarrow> p \<le> HSIZE \<Longrightarrow>
     \<exists>t'. cl_rest p p t = Inr t' \<and> (\<forall>i. t' i = (if 0 \<le> i \<and> i < p then -1 else t i))"
proof (induction "nat p" arbitrary: p t rule: less_induct)
  case less
  show ?case
  proof (cases "p = 0")
    case False
    obtain t' where "cl_rest (p - 1) (p - 1) (t(p - 1 := -1)) = Inr t'"
      "\<forall>i. t' i = (if 0 \<le> i \<and> i < p - 1 then -1 else (t(p - 1 := -1)) i)"
      using less(1) [of "p - 1" "t(p - 1 := -1)"] less(2,3) False by auto
    then show ?thesis
      using less(2,3) False by (subst cl_rest.simps) (auto intro!: exI [of _ t'])
  qed (simp add: cl_rest.simps)
qed

lemma cl_hash_clears:
  obtains t where "cl_hash zs HSIZE = Inr (zs\<lparr>htab := t\<rparr>)" "\<And>ct. hashed mb t ct []"
proof -
  obtain q t' where q: "cl_loop HSIZE (HSIZE - 16) (htab zs) = Inr (q, q - 16, t')" "0 \<le> q" "q < 16"
    "\<forall>i. t' i = (if q \<le> i \<and> i < HSIZE then -1 else htab zs i)"
    using cl_loop_clears [of HSIZE "htab zs"] by (auto simp: HSIZE_def)
  obtain t where t: "cl_rest q q t' = Inr t" "\<forall>i. t i = (if 0 \<le> i \<and> i < q then -1 else t' i)"
    using cl_rest_clears [of q t'] q by (auto simp: HSIZE_def)
  have "hashed mb t ct []" for ct using q t by (intro hashed_empty) auto
  then show thesis using that [of t] q t by (simp add: cl_hash_def)
qed

section \<open>The invariant\<close>

definition room :: "nat \<Rightarrow> nat" where
  "room mb = 2 ^ mb - 257"

definition writing :: "nat \<Rightarrow> zwriter \<Rightarrow> group list \<Rightarrow> int list \<Rightarrow> table \<Rightarrow> bytes \<Rightarrow> bool" where
  "writing mb zs gs cur T data \<longleftrightarrow>
     channel mb zs gs cur \<and> sends (room mb) T (ent zs) (codes gs @ cur) data \<and>
     hashed mb (htab zs) (codetab zs) T \<and> hsize zs = HSIZE \<and> hsize_reg zs = HSIZE \<and> hshift zs = 8 \<and>
     free_ent zs = FIRST + int (length T) \<and> snd (astate mb (codes gs @ cur)) = free_ent zs \<and>
     \<not> clear_flg zs \<and> block_compress zs = BLOCK_MASK \<and> state zs = S_MIDDLE"

lemma int_room: "12 \<le> mb \<Longrightarrow> FIRST + int (room mb) = 2 ^ mb"
proof -
  assume "12 \<le> mb"
  then have "(2 :: nat) ^ 12 \<le> 2 ^ mb" by (intro power_increasing) auto
  then show ?thesis by (simp add: room_def FIRST_def of_nat_diff)
qed

lemma room_HSIZE: "mb \<le> 16 \<Longrightarrow> int (room mb) < HSIZE"
proof -
  assume "mb \<le> 16"
  then have "(2 :: nat) ^ mb \<le> 2 ^ 16" by (intro power_increasing) auto
  then have "room mb \<le> 65536" by (simp add: room_def)
  then show ?thesis by (simp add: HSIZE_def)
qed

text \<open>A code in use fits the current width.\<close>

lemma pending_fits:
  assumes w: "writing mb zs gs cur T data" and mb: "12 \<le> mb" "mb \<le> 16"
  shows "0 \<le> ent zs" "ent zs < 2 ^ n_bits zs" "ent zs < 2 ^ mb" "ent zs \<noteq> CLEAR"
proof -
  have ch: "channel mb zs gs cur" and v: "valid T (ent zs)" "length T \<le> room mb"
    and f: "free_ent zs = FIRST + int (length T)" "snd (astate mb (codes gs @ cur)) = free_ent zs"
    using w by (auto simp: writing_def sends_def)
  note n = channel_width [OF ch mb]
  have "(2 :: int) ^ 9 \<le> 2 ^ n_bits zs" "(2 :: int) ^ n_bits zs \<le> 2 ^ mb"
    using n power_increasing [of 9 "n_bits zs" "2 :: int"] power_increasing [of "n_bits zs" mb "2 :: int"] by auto
  moreover have "free_ent zs \<le> 2 ^ n_bits zs"
    using a_inv_astate [OF mb(1), of "codes gs @ cur"] f(2) n(1,4) unfolding a_inv_def
    by (cases "n_bits zs = mb") auto
  ultimately have "0 \<le> ent zs \<and> ent zs < 2 ^ n_bits zs \<and> ent zs \<noteq> CLEAR" "(2 :: int) ^ n_bits zs \<le> 2 ^ mb"
    using v f unfolding valid_def CLEAR_def FIRST_def by linarith+
  then show "0 \<le> ent zs" "ent zs < 2 ^ n_bits zs" "ent zs < 2 ^ mb" "ent zs \<noteq> CLEAR" by linarith+
qed

lemma astate_snoc: "astate mb (cs @ [c]) = a_step mb (astate mb cs) c"
  by (simp add: astate_append)

text \<open>The invariant after the pending code was put out, before the table is changed.\<close>

lemma writing_output:
  assumes w: "writing mb zs gs cur T data" and mb: "12 \<le> mb" "mb \<le> 16"
  obtains zs' gs' cur' where "z_output zs (ent zs) = Inr (True, zs')" "channel mb zs' gs' cur'"
    "codes gs' @ cur' = codes gs @ cur @ [ent zs]" "rest_same zs zs'"
    "snd (astate mb (codes gs' @ cur')) = min (free_ent zs + 1) (2 ^ mb)"
proof -
  note p = pending_fits [OF w mb]
  have ch: "channel mb zs gs cur" and st: "\<not> clear_flg zs" "free_ent zs = snd (astate mb (codes gs @ cur))"
    using w by (auto simp: writing_def)
  obtain zs' gs' cur' where o: "z_output zs (ent zs) = Inr (True, zs')" "channel mb zs' gs' cur'"
    "codes gs' @ cur' = codes gs @ cur @ [ent zs]" "rest_same zs zs'"
    using output_channel [OF ch mb p(1,2)] p(4) st by blast
  moreover have "snd (astate mb (codes gs' @ cur')) = min (free_ent zs + 1) (2 ^ mb)"
    using st p(4) astate_snoc [of mb "codes gs @ cur" "ent zs"] by (simp add: o(3) a_step_def)
  ultimately show thesis using that by blast
qed


lemma nomatch_enters:
  assumes w: "writing mb zs gs cur T data" and mb: "12 \<le> mb" "mb \<le> 16" and rm: "length T < room mb"
    and h: "hashed mb ((htab zs)(i := key mb (ent zs, b)))
      ((codetab zs)(i := FIRST + int (length T))) (T @ [(ent zs, b)])"
  obtains zs' gs' cur' where "nomatch zs (key mb (ent zs, b)) i (uint b) = Inr (True, zs')"
    "writing mb zs' gs' cur' (T @ [(ent zs, b)]) (data @ [b])"
proof -
  obtain zs1 gs' cur' where o: "z_output zs (ent zs) = Inr (True, zs1)" "channel mb zs1 gs' cur'"
    "codes gs' @ cur' = codes gs @ cur @ [ent zs]" "rest_same zs zs1"
    "snd (astate mb (codes gs' @ cur')) = min (free_ent zs + 1) (2 ^ mb)"
    using writing_output [OF w mb] .
  note same = rest_sameD [OF o(4)]
  have w0: "free_ent zs = FIRST + int (length T)" "sends (room mb) T (ent zs) (codes gs @ cur) data"
    "maxmaxcode zs1 = 2 ^ mb" "hsize zs = HSIZE" "hsize_reg zs = HSIZE" "hshift zs = 8"
    "block_compress zs = BLOCK_MASK" "state zs = S_MIDDLE"
    using w o(2) by (simp_all add: writing_def channel_def)
  have lt: "free_ent zs < 2 ^ mb" using rm int_room [OF mb(1)] w0(1) by simp
  moreover have "(2 :: int) ^ mb \<le> 2 ^ 16" using mb by (intro power_increasing) auto
  ultimately have m: "free_ent zs mod 65536 = free_ent zs" "0 \<le> free_ent zs" using w0(1) by (simp_all add: FIRST_def)
  let ?zs2 = "zs1\<lparr>out_count := out_count zs1 + 1, ent := uint b\<rparr>"
  let ?zs3 = "?zs2\<lparr>codetab := (codetab zs)(i := free_ent zs), free_ent := free_ent zs + 1,
    htab := (htab zs)(i := key mb (ent zs, b))\<rparr>"
  have "nomatch zs (key mb (ent zs, b)) i (uint b) = Inr (True, ?zs3)"
    using o(1) lt w0(3) same m by (simp add: nomatch_def)
  moreover have "channel mb ?zs3 gs' cur'" using o(2) by (auto simp: channel_def)
  moreover have "sends (room mb) (T @ [(ent zs, b)]) (uint b) (codes gs' @ cur') (data @ [b])"
    using sends_enter [OF w0(2) rm, of b] o(3) by simp
  ultimately show thesis
    using that [of ?zs3 gs' cur'] h w0 o(5) same lt by (simp add: writing_def)
qed


lemma cl_block_writes:
  assumes w: "writing mb zs gs cur T data" and mb: "12 \<le> mb" "mb \<le> 16" and e: "ent zs = uint (b :: u8)"
    and ne: "codes gs @ cur \<noteq> []"
  obtains zs' gs' cur' T' where "cl_block zs = Inr (True, zs')" "writing mb zs' gs' cur' T' data"
proof (cases "cl_ratio (zs\<lparr>checkpoint := in_count zs + CHECK_GAP\<rparr>) > ratio zs")
  case True
  let ?zs1 = "zs\<lparr>checkpoint := in_count zs + CHECK_GAP,
    ratio := cl_ratio (zs\<lparr>checkpoint := in_count zs + CHECK_GAP\<rparr>)\<rparr>"
  have "cl_block zs = Inr (True, ?zs1)" using True by (simp add: cl_block_def Let_def)
  moreover have "writing mb ?zs1 gs cur T data" using w by (auto simp: writing_def channel_def)
  ultimately show thesis using that by blast
next
  case False
  let ?zs1 = "zs\<lparr>checkpoint := in_count zs + CHECK_GAP, ratio := 0\<rparr>"
  obtain t where t: "cl_hash ?zs1 HSIZE = Inr (?zs1\<lparr>htab := t\<rparr>)" "\<And>ct. hashed mb t ct []"
    using cl_hash_clears [of ?zs1 mb] by blast
  let ?zs2 = "?zs1\<lparr>htab := t, free_ent := FIRST, clear_flg := True\<rparr>"
  have w0: "hsize zs = HSIZE" "sends (room mb) T (uint b) (codes gs @ cur) data" "hsize_reg zs = HSIZE"
    "hshift zs = 8" "block_compress zs = BLOCK_MASK" "state zs = S_MIDDLE"
    using w e by (simp_all add: writing_def)
  have ch0: "channel mb zs gs cur" using w by (simp add: writing_def)
  have ch: "channel mb ?zs2 gs cur" using ch0 by (auto simp: channel_def)
  have "(2 :: int) ^ 9 \<le> 2 ^ n_bits zs"
    using channel_width [OF ch0 mb] by (intro power_increasing) auto
  then have fits: "0 \<le> CLEAR" "CLEAR < 2 ^ n_bits ?zs2" by (simp_all add: CLEAR_def)
  obtain zs' gs' cur' where o: "z_output ?zs2 CLEAR = Inr (True, zs')" "channel mb zs' gs' cur'"
    "codes gs' @ cur' = codes gs @ cur @ [CLEAR]" "rest_same ?zs2 zs'"
    by (rule output_channel [OF ch mb fits]) auto
  note same = rest_sameD [OF o(4)]
  have "cl_block zs = Inr (True, zs')" using False t(1) o(1) w0(1) by (simp add: cl_block_def Let_def)
  moreover have "snd (astate mb (codes gs' @ cur')) = FIRST"
    using astate_snoc [of mb "codes gs @ cur" CLEAR] by (simp add: o(3) a_step_def)
  then have "writing mb zs' gs' cur' [] data"
    using o(2,3) same t(2) w0 e sends_clear [OF w0(2) ne] by (simp add: writing_def)
  ultimately show thesis using that by blast
qed


lemma nomatch_full:
  assumes w: "writing mb zs gs cur T data" and mb: "12 \<le> mb" "mb \<le> 16" and full: "length T = room mb"
  obtains zs' gs' cur' T' where "nomatch zs fc i (uint b) = Inr (True, zs')"
    "writing mb zs' gs' cur' T' (data @ [b])"
proof -
  obtain zs1 gs' cur' where o: "z_output zs (ent zs) = Inr (True, zs1)" "channel mb zs1 gs' cur'"
    "codes gs' @ cur' = codes gs @ cur @ [ent zs]" "rest_same zs zs1"
    "snd (astate mb (codes gs' @ cur')) = min (free_ent zs + 1) (2 ^ mb)"
    using writing_output [OF w mb] .
  note same = rest_sameD [OF o(4)]
  have w0: "free_ent zs = FIRST + int (length T)" "sends (room mb) T (ent zs) (codes gs @ cur) data"
    "maxmaxcode zs1 = 2 ^ mb" "hsize zs = HSIZE" "hsize_reg zs = HSIZE" "hshift zs = 8"
    "block_compress zs = BLOCK_MASK" "state zs = S_MIDDLE" "hashed mb (htab zs) (codetab zs) T"
    using w o(2) by (simp_all add: writing_def channel_def)
  have f: "free_ent zs = 2 ^ mb" using full int_room [OF mb(1)] w0(1) by simp
  let ?zs2 = "zs1\<lparr>out_count := out_count zs1 + 1, ent := uint b\<rparr>"
  have "channel mb ?zs2 gs' cur'" using o(2) by (auto simp: channel_def)
  moreover have "sends (room mb) T (uint b) (codes gs' @ cur') (data @ [b])"
    using sends_full [OF w0(2) full, of b] o(3) by simp
  ultimately have w2: "writing mb ?zs2 gs' cur' T (data @ [b])"
    using w0 o(5) same f by (simp add: writing_def)
  have n: "nomatch zs fc i (uint b) =
      (if in_count ?zs2 \<ge> checkpoint ?zs2 then cl_block ?zs2 else Inr (True, ?zs2))"
    using o(1) f w0(3,7) same by (simp add: nomatch_def BLOCK_MASK_def)
  show thesis
  proof (cases "in_count ?zs2 \<ge> checkpoint ?zs2")
    case True
    then show thesis using cl_block_writes [OF w2 mb, of b] o(3) that n by auto
  next
    case False
    then show thesis using that n w2 by auto
  qed
qed

lemma writing_counts: "writing mb (zs\<lparr>in_count := k\<rparr>) gs cur T data \<longleftrightarrow> writing mb zs gs cur T data"
  by (simp add: writing_def channel_def)

lemma write_char_writes:
  assumes w0: "writing mb zs0 gs cur T data" and mb: "12 \<le> mb" "mb \<le> 16"
  obtains zs' gs' cur' T' where "write_char zs0 b = Some (Inr (True, zs'))"
    "writing mb zs' gs' cur' T' (data @ [b])"
proof -
  let ?zs = "zs0\<lparr>in_count := in_count zs0 + 1\<rparr>" and ?e = "(ent zs0, b)"
  have w: "writing mb ?zs gs cur T data" using w0 by (simp add: writing_counts)
  have fc: "push_bit (maxbits ?zs) (uint b) + ent ?zs = key mb ?e"
    using w0 by (simp add: writing_def channel_def key_def)
  have tab: "hsize_reg ?zs = HSIZE" "hshift ?zs = 8" "hashed mb (htab ?zs) (codetab ?zs) T"
    and sn: "sends (room mb) T (ent zs0) (codes gs @ cur) data"
    using w by (simp_all add: writing_def)
  have char: "write_char zs0 b = bind_run (find_slot ?zs (key mb ?e) (uint b)) (\<lambda>(i, found).
      if found then Some (Inr (True, ?zs\<lparr>ent := codetab ?zs i\<rparr>))
      else Some (nomatch ?zs (key mb ?e) i (uint b)))"
    unfolding write_char_def Let_def fc ..
  show thesis
  proof (cases "?e \<in> set T")
    case True
    then obtain k where k: "k < length T" "T ! k = ?e" by (auto simp: in_set_conv_nth)
    obtain i where i: "find_slot ?zs (key mb ?e) (uint b) = Some (Inr (i, True))" "codetab ?zs i = FIRST + int k"
      using find_slot_hit [OF tab(1,2) _ mb(2) tab(3) k(1)] k(2) by auto
    have "writing mb (?zs\<lparr>ent := FIRST + int k\<rparr>) gs cur T (data @ [b])"
      using w sends_extend [OF sn k(1,2)] by (auto simp: writing_def channel_def)
    then show thesis using that char i by simp
  next
    case False
    have lt: "length T \<le> room mb" using sn by (simp add: sends_def)
    have "in_range mb ?e" using pending_fits [OF w0 mb] by (simp add: in_range_def)
    then obtain i where i: "find_slot ?zs (key mb ?e) (uint b) = Some (Inr (i, False))"
      "hashed mb ((htab ?zs)(i := key mb ?e)) ((codetab ?zs)(i := FIRST + int (length T))) (T @ [?e])"
      using find_slot_miss [OF tab(1,2) _ mb(2) tab(3) False] lt room_HSIZE [OF mb(2)] by auto
    show thesis
    proof (cases "length T < room mb")
      case True
      obtain zs' gs' cur' where "nomatch ?zs (key mb ?e) i (uint b) = Inr (True, zs')"
        "writing mb zs' gs' cur' (T @ [?e]) (data @ [b])"
        by (rule nomatch_enters [OF w mb True, of i b]) (use i(2) in auto)
      then show thesis using i(1) that char by simp
    next
      case False
      then show thesis using nomatch_full [OF w mb, of "key mb ?e" i b] lt i that char by auto
    qed
  qed
qed

lemma write_loop_writes:
  assumes "writing mb zs gs cur T data" and mb: "12 \<le> mb" "mb \<le> 16"
  shows "\<exists>zs' gs' cur' T'. write_loop bs zs = Some (Inr (True, zs')) \<and> writing mb zs' gs' cur' T' (data @ bs)"
  using assms(1)
proof (induction bs arbitrary: zs gs cur T data)
  case (Cons b bs)
  obtain zs' gs' cur' T' where s: "write_char zs b = Some (Inr (True, zs'))"
    "writing mb zs' gs' cur' T' (data @ [b])"
    using write_char_writes [OF Cons.prems mb] .
  then show ?case using Cons.IH [OF s(2)] by simp
qed auto


section \<open>Starting and finishing\<close>

lemma doublings_HSIZE: "doublings HSIZE = 0"
  by (subst doublings.simps) (simp add: HSIZE_def)

text \<open>What \<open>zopen\<close> makes for writing.\<close>

definition opened_w :: "nat \<Rightarrow> zwriter \<Rightarrow> bool" where
  "opened_w mb zs \<longleftrightarrow> state zs = S_START \<and> maxbits zs = mb \<and> hsize zs = HSIZE \<and>
     block_compress zs = BLOCK_MASK \<and> length (buf zs) = BITS \<and> zout zs = [] \<and> wscript zs = []"

lemma zwrite_first:
  assumes op: "opened_w mb zs" and mb: "12 \<le> mb" "mb \<le> 16"
  shows "\<exists>zs' gs cur T. zwrite zs (b # bs) = Some (Inr (Ret (length (b # bs)), zs')) \<and>
    writing mb zs' gs cur T (b # bs)"
proof -
  let ?zs1 = "zs\<lparr>state := S_MIDDLE, maxmaxcode := 2 ^ mb, zout := header mb\<rparr>"
  have hd: "write_header (zs\<lparr>state := S_MIDDLE, maxmaxcode := 2 ^ maxbits zs\<rparr>) = (True, ?zs1)"
    using op by (simp add: write_header_def opened_w_def z_fwrite_def header_def)
  let ?zs2 = "?zs1\<lparr>offset := 0, bytes_out := 3, out_count := 0, clear_flg := False, ratio := 0,
    in_count := 1, checkpoint := CHECK_GAP, n_bits := INIT_BITS, maxcode := MAXCODE INIT_BITS,
    free_ent := FIRST, ent := uint b, hshift := 8, hsize_reg := HSIZE\<rparr>"
  obtain t where t: "cl_hash ?zs2 HSIZE = Inr (?zs2\<lparr>htab := t\<rparr>)" "\<And>ct. hashed mb t ct []"
    using cl_hash_clears [of ?zs2 mb] by blast
  have st: "start_writing ?zs1 b = Inr (?zs2\<lparr>htab := t\<rparr>)"
    using op t(1) by (simp add: start_writing_def opened_w_def Let_def doublings_HSIZE BLOCK_MASK_def)
  have "mb \<noteq> INIT_BITS" using mb by (simp add: INIT_BITS_def)
  then have "writing mb (?zs2\<lparr>htab := t\<rparr>) [] [] [] [b]"
    using op t(2) sends_start [of "room mb" b] mb
    by (simp add: writing_def channel_def opened_w_def astate_def mcode_def fit_def)
  then obtain zs' gs cur T where "write_loop bs (?zs2\<lparr>htab := t\<rparr>) = Some (Inr (True, zs'))"
    "writing mb zs' gs cur T ([b] @ bs)"
    using write_loop_writes [OF _ mb] by blast
  then show ?thesis
    using op hd st by (auto simp: zwrite_def opened_w_def)
qed

lemma zwrite_next:
  assumes w: "writing mb zs gs cur T data" and mb: "12 \<le> mb" "mb \<le> 16"
  shows "\<exists>zs' gs' cur' T'. zwrite zs bs = Some (Inr (Ret (length bs), zs')) \<and> writing mb zs' gs' cur' T' (data @ bs)"
proof -
  obtain zs' gs' cur' T' where l: "write_loop bs zs = Some (Inr (True, zs'))" "writing mb zs' gs' cur' T' (data @ bs)"
    using write_loop_writes [OF w mb, of bs] by blast
  have "state zs = S_MIDDLE" using w by (simp add: writing_def)
  then have "zwrite zs bs = Some (Inr (Ret (length bs), zs'))"
    using l(1) by (cases bs) (simp_all add: zwrite_def del: write_loop.simps(2))
  then show ?thesis using l(2) by blast
qed

text \<open>A complete file: the header, groups, and the last group cut to the bytes it needs.\<close>

definition complete :: "nat \<Rightarrow> bytes \<Rightarrow> bytes \<Rightarrow> bool" where
  "complete mb file data \<longleftrightarrow> (\<exists>gs cur lst.
     file = header mb @ packed gs @ lst \<and> frames mb (INIT_BITS, FIRST) gs \<and>
     quiet mb (astate mb (codes gs)) cur \<and> length cur < 8 \<and>
     carries (fst (astate mb (codes gs))) cur lst \<and> fit (fst (astate mb (codes gs))) cur \<and>
     length lst = (length cur * fst (astate mb (codes gs)) + 7) div 8 \<and>
     understands (room mb) fresh_receiver (codes gs @ cur) \<and>
     hears (room mb) fresh_receiver (codes gs @ cur) = data \<and>
     codes gs @ cur \<noteq> [] \<and> hd (codes gs @ cur) \<noteq> CLEAR)"

lemma zclose_completes:
  assumes w: "writing mb zs gs cur T data" and mb: "12 \<le> mb" "mb \<le> 16"
  shows "\<exists>file. zclose_w zs = Inr (True, file) \<and> complete mb file data"
proof -
  obtain zs1 gs' cur' where o: "z_output zs (ent zs) = Inr (True, zs1)" "channel mb zs1 gs' cur'"
    "codes gs' @ cur' = codes gs @ cur @ [ent zs]" "rest_same zs zs1"
    using writing_output [OF w mb] by metis
  have h: "understands (room mb) fresh_receiver (codes gs' @ cur')" "hears (room mb) fresh_receiver (codes gs' @ cur') = data"
    "codes gs' @ cur' \<noteq> []" "hd (codes gs' @ cur') \<noteq> CLEAR"
    using sends_heard [of "room mb" T "ent zs" "codes gs @ cur" data] w o(3) by (simp_all add: writing_def)
  let ?n = "n_bits zs1" and ?k = "(length cur' * n_bits zs1 + 7) div 8"
  note n = channel_width [OF o(2) mb]
  have c: "zout zs1 = header mb @ packed gs'" "frames mb (INIT_BITS, FIRST) gs'"
    "quiet mb (astate mb (codes gs')) cur'" "length cur' < 8" "?n = fst (astate mb (codes gs'))"
    "offset zs1 = length cur' * ?n" "length (buf zs1) = BITS" "carries ?n cur' (buf zs1)" "fit ?n cur'"
    "wscript zs1 = []"
    using o(2) unfolding channel_def by blast+
  have "length cur' * ?n \<le> 8 * 16" using c(4) n(3) by (intro mult_mono) auto
  then have k: "?k \<le> length (buf zs1)" using c(7) unfolding BITS_def by linarith
  then have "carries ?n cur' (take ?k (buf zs1))" "length (take ?k (buf zs1)) = ?k"
    using carries_take [OF c(8), of ?k] by auto
  moreover have "zclose_w zs = Inr (True, zout zs1 @ take ?k (buf zs1))"
    using o(1) c(6,10) by (auto simp: zclose_w_def z_output_def output_eof_def z_fwrite_def z_fclose_def Let_def)
  ultimately show ?thesis
    unfolding complete_def using c h by (auto intro!: exI [of _ gs'] exI [of _ cur'] exI [of _ "take ?k (buf zs1)"])
qed

end
