(* ===== verification/Z_Getcode.thy ===== *)
theory Z_Getcode
  imports Z_Write
begin

text \<open>
  \<open>getcode\<close> on a complete file: it takes the codes from the groups, changing the width where the
  writer did.
\<close>

section \<open>Codes still in the file\<close>

text \<open>From a state \<open>s\<close> of the widths on, the bytes hold exactly the codes \<open>cs\<close>.\<close>

definition tail_holds :: "nat \<Rightarrow> nat \<times> int \<Rightarrow> bytes \<Rightarrow> int list \<Rightarrow> bool" where
  "tail_holds mb s file cs \<longleftrightarrow> (\<exists>gs cur lst.
     file = packed gs @ lst \<and> cs = codes gs @ cur \<and> frames mb s gs \<and>
     quiet mb (foldl (a_step mb) s (codes gs)) cur \<and> length cur < 8 \<and>
     carries (fst (foldl (a_step mb) s (codes gs))) cur lst \<and> fit (fst (foldl (a_step mb) s (codes gs))) cur \<and>
     length lst = (length cur * fst (foldl (a_step mb) s (codes gs)) + 7) div 8)"

text \<open>A group of codes: one of eight or cut off by a change of width, or the last one.\<close>

definition group_ends :: "nat \<Rightarrow> nat \<times> int \<Rightarrow> int list \<Rightarrow> nat \<Rightarrow> bytes \<Rightarrow> int list \<Rightarrow> bool" where
  "group_ends mb s G len file cs \<longleftrightarrow>
     full_group mb s G \<and> len = fst s \<and> tail_holds mb (foldl (a_step mb) s G) file cs \<or>
     quiet mb s G \<and> length G < 8 \<and> len = (length G * fst s + 7) div 8 \<and> file = [] \<and> cs = []"

lemma full_group_nonempty: "full_group mb s cs \<Longrightarrow> cs \<noteq> []"
  by (auto simp: full_group_def)

lemma tail_holds_Nil: "tail_holds mb s file [] \<Longrightarrow> file = []"
proof -
  assume "tail_holds mb s file []"
  then obtain gs lst where g: "file = packed gs @ lst" "codes gs = []" "frames mb s gs" "length lst = 0"
    by (auto simp: tail_holds_def)
  have "gs = []" using g(2,3) full_group_nonempty [of mb s "[]"] by (cases gs) auto
  then show ?thesis using g by simp
qed

lemma tail_holds_next:
  assumes t: "tail_holds mb s file cs" and cs: "cs \<noteq> []" and n: "9 \<le> fst s"
  obtains G cs' where "cs = G @ cs'" "G \<noteq> []" "carries (fst s) G (take (fst s) file)" "fit (fst s) G"
    "length G \<le> 8" "take (fst s) file \<noteq> []"
    "group_ends mb s G (length (take (fst s) file)) (drop (fst s) file) cs'"
proof -
  obtain gs cur lst where g: "file = packed gs @ lst" "cs = codes gs @ cur" "frames mb s gs"
    "quiet mb (foldl (a_step mb) s (codes gs)) cur" "length cur < 8"
    "carries (fst (foldl (a_step mb) s (codes gs))) cur lst" "fit (fst (foldl (a_step mb) s (codes gs))) cur"
    "length lst = (length cur * fst (foldl (a_step mb) s (codes gs)) + 7) div 8"
    using t by (auto simp: tail_holds_def)
  show thesis
  proof (cases gs)
    case Nil
    let ?n = "fst s"
    have "length cur * ?n \<le> 7 * ?n" using g(5) by (intro mult_right_mono) auto
    moreover have e: "length lst = (length cur * ?n + 7) div 8" using g(8) Nil by simp
    ultimately have l: "length lst \<le> ?n" using n by linarith
    have "length cur \<noteq> 0" using g(2) Nil cs by auto
    then have "?n \<le> length cur * ?n" by (cases "length cur") auto
    then have "0 < length lst" using e n by linarith
    then have "lst \<noteq> []" by blast
    then show thesis
      using that [of cur "[]"] g Nil l cs n by (auto simp: group_ends_def)
  next
    case (Cons p gs')
    obtain G bs where p: "p = (G, bs)" by (cases p)
    have f: "full_group mb s G" "carries (fst s) G bs" "length bs = fst s" "fit (fst s) G"
      "frames mb (foldl (a_step mb) s G) gs'"
      using g(3) Cons p by auto
    have tk: "take (fst s) file = bs" "drop (fst s) file = packed gs' @ lst" using g(1) Cons p f(3) by auto
    have "tail_holds mb (foldl (a_step mb) s G) (packed gs' @ lst) (codes gs' @ cur)"
      unfolding tail_holds_def using g f(5) Cons p by (auto intro!: exI [of _ gs'] exI [of _ cur] exI [of _ lst])
    then have ge: "group_ends mb s G (length bs) (packed gs' @ lst) (codes gs' @ cur)"
      using f(1,3) by (simp add: group_ends_def)
    have "bs \<noteq> []" "length G \<le> 8" using f(1,3) n by (auto simp: full_group_def)
    then show thesis
      using that [of G "codes gs' @ cur", unfolded tk] ge g(2) Cons p f(2,4) full_group_nonempty [OF f(1)] by simp
  qed
qed

section \<open>A position in the stream\<close>

text \<open>The codes \<open>ds\<close> have been read, \<open>cs\<close> are to come; the last group read into \<open>gbuf\<close> is
  \<open>xs @ rs\<close>, of which \<open>xs\<close> have been taken.\<close>

definition loaded :: "nat \<Rightarrow> zreader \<Rightarrow> int list \<Rightarrow> int list \<Rightarrow> bool" where
  "loaded mb zs ds cs \<longleftrightarrow> (\<exists>d0 xs rs rest len.
     ds = d0 @ xs \<and> cs = rs @ rest \<and> xs \<noteq> [] \<and> n_bits zs = fst (astate mb d0) \<and>
     maxcode zs = mcode mb (n_bits zs) \<and> maxbits zs = mb \<and> maxmaxcode zs = 2 ^ mb \<and>
     length (gbuf zs) = BITS \<and> carries (n_bits zs) (xs @ rs) (gbuf zs) \<and> fit (n_bits zs) (xs @ rs) \<and>
     roffset zs = int (length xs * n_bits zs) \<and> gsize zs = int len * 8 - (int (n_bits zs) - 1) \<and>
     length (xs @ rs) \<le> 8 \<and> length (xs @ rs) * n_bits zs \<le> 8 * len \<and>
     group_ends mb (astate mb d0) (xs @ rs) len (zin zs) rest)"

text \<open>What \<open>getcode\<close> goes by: the last code was a \<open>CLEAR\<close>, or how many codes were in use when it
  was put out.\<close>

definition flagged :: "nat \<Rightarrow> zreader \<Rightarrow> int list \<Rightarrow> bool" where
  "flagged mb zs ds \<longleftrightarrow>
     (if last ds = CLEAR then clear_flg zs \<and> free_ent zs = FIRST
      else \<not> clear_flg zs \<and> free_ent zs = snd (astate mb (butlast ds)))"

definition reads_same :: "zreader \<Rightarrow> zreader \<Rightarrow> bool" where
  "reads_same zs zs' \<longleftrightarrow>
     zs' = zs\<lparr>n_bits := n_bits zs', maxcode := maxcode zs', clear_flg := False, zin := zin zs',
       gsize := gsize zs', gbuf := gbuf zs', roffset := roffset zs'\<rparr>"

lemma reads_sameD:
  assumes "reads_same zs zs'"
  shows "state zs' = state zs" "codetab zs' = codetab zs" "free_ent zs' = free_ent zs"
    "block_compress zs' = block_compress zs" "clear_flg zs' = False" "tab_suffix zs' = tab_suffix zs"
    "stack zs' = stack zs" "finchar zs' = finchar zs" "oldcode zs' = oldcode zs" "incode zs' = incode zs"
    "maxbits zs' = maxbits zs" "maxmaxcode zs' = maxmaxcode zs"
  using assms unfolding reads_same_def by (cases zs; cases zs'; simp)+

text \<open>The width in force for the next group.\<close>

definition renewed :: "zreader \<Rightarrow> zreader" where
  "renewed zs =
     (let zs1 = (if free_ent zs > maxcode zs then widen zs else zs) in
      if clear_flg zs1 then first_width zs1 else zs1)"

lemma refill_renewed:
  "refill zs =
     (let zs2 = renewed zs; bs = take (n_bits zs2) (zin zs2) in
      if length (gbuf zs2) < n_bits zs2 then Inl Fault
      else
        let zs3 = zs2\<lparr>zin := drop (n_bits zs2) (zin zs2), gsize := int (length bs),
              gbuf := bs @ drop (length bs) (gbuf zs2)\<rparr> in
        if bs = [] then Inr (False, zs3)
        else Inr (True, zs3\<lparr>roffset := 0, gsize := int (length bs) * 8 - (int (n_bits zs3) - 1)\<rparr>))"
  unfolding refill_def renewed_def Let_def ..

lemma renewed_width:
  assumes f: "flagged mb zs (ds @ [d])" and mb: "12 \<le> mb"
    and w: "n_bits zs = fst (astate mb ds)" "maxcode zs = mcode mb (n_bits zs)" "maxbits zs = mb"
      "maxmaxcode zs = 2 ^ mb"
    and n: "n = fst (astate mb (ds @ [d]))"
  shows "renewed zs = zs\<lparr>n_bits := n, maxcode := mcode mb n, clear_flg := False\<rparr>"
proof -
  have "INIT_BITS \<noteq> mb" using mb by (simp add: INIT_BITS_def)
  moreover have "n = (if d = CLEAR then INIT_BITS
      else if free_ent zs > maxcode zs then n_bits zs + 1 else n_bits zs)"
    using f w by (simp add: n astate_snoc a_step_def flagged_def)
  ultimately show ?thesis
    using f w by (cases zs) (auto simp: renewed_def flagged_def first_width_def widen_def Let_def mcode_def)
qed

lemma carries_append: "carries n cs bs \<Longrightarrow> carries n cs (bs @ xs)"
  by (auto simp: carries_def nth_append div_less_iff_less_mult)

text \<open>The next group is read.\<close>

abbreviation refilled :: "zreader \<Rightarrow> (int \<times> zreader) zres" where
  "refilled zs \<equiv> bind_r (refill zs) (\<lambda>(more, zs1). if more then take_code zs1 else Inr (-1, zs1))"

lemma refill_loads:
  assumes n: "n = fst (astate mb ds)" and mb: "12 \<le> mb" "mb \<le> 16"
    and r: "renewed zs = zs\<lparr>n_bits := n, maxcode := mcode mb n, clear_flg := False\<rparr>"
    and zs: "length (gbuf zs) = BITS" "maxbits zs = mb" "maxmaxcode zs = 2 ^ mb"
    and t: "tail_holds mb (astate mb ds) (zin zs) (c # cs)"
  shows "\<exists>zs'. refilled zs = Inr (c, zs') \<and> loaded mb zs' (ds @ [c]) cs \<and> reads_same zs zs'"
proof -
  have n16: "9 \<le> n" "n \<le> 16" "n \<le> BITS"
    using a_inv_astate [OF mb(1), of ds] mb(2) by (simp_all add: a_inv_def n INIT_BITS_def BITS_def)
  define bs where "bs = take n (zin zs)"
  obtain G rest where G: "c # cs = G @ rest" "G \<noteq> []" "carries n G bs" "fit n G" "length G \<le> 8" "bs \<noteq> []"
    "group_ends mb (astate mb ds) G (length bs) (drop n (zin zs)) rest"
    using tail_holds_next [OF t] n16 by (auto simp: n bs_def)
  obtain rs where rs: "G = c # rs" "cs = rs @ rest" using G(1,2) by (cases G) auto
  let ?gb = "bs @ drop (length bs) (gbuf zs)"
  let ?zs1 = "zs\<lparr>n_bits := n, maxcode := mcode mb n, clear_flg := False, zin := drop n (zin zs),
    gbuf := ?gb, roffset := 0, gsize := int (length bs) * 8 - (int n - 1)\<rparr>"
  have rf: "refill zs = Inr (True, ?zs1)"
    using G(6) zs(1) n16 unfolding refill_renewed r bs_def by (simp add: Let_def)
  have cg: "carries n G ?gb" using carries_append [OF G(3)] .
  have fc: "0 \<le> c" "c < 2 ^ n" using G(4) rs by (simp_all add: fit_def)
  have tc: "take_code ?zs1 = Inr (G ! 0, ?zs1\<lparr>roffset := roffset ?zs1 + int (n_bits ?zs1)\<rparr>)"
    by (rule take_code_carries) (use n16 cg fc rs in auto)
  let ?zs' = "?zs1\<lparr>roffset := int n\<rparr>"
  have "refilled zs = Inr (c, ?zs')" using rf tc rs by simp
  moreover have "reads_same zs ?zs'" by (cases zs) (simp add: reads_same_def)
  moreover have "length ?gb = BITS" using zs(1) n16 by (simp add: bs_def)
  moreover have "length G * n \<le> 8 * length bs" using G(3) by (simp add: carries_def)
  ultimately show ?thesis
    using G n zs cg rs unfolding loaded_def
    by (intro exI [of _ ?zs'] conjI exI [of _ ds] exI [of _ "[c]"] exI [of _ rs] exI [of _ rest]
        exI [of _ "length bs"]) auto
qed

lemma refill_ends:
  assumes mb: "12 \<le> mb" "mb \<le> 16"
    and r: "renewed zs = zs\<lparr>n_bits := n, maxcode := mcode mb n, clear_flg := False\<rparr>" "n \<le> 16"
    and zs: "length (gbuf zs) = BITS" "zin zs = []"
  shows "\<exists>zs'. refilled zs = Inr (-1, zs') \<and> reads_same zs zs'"
  using zs r(2) unfolding refill_renewed r
  by (cases zs) (simp add: Let_def BITS_def reads_same_def)

section \<open>\<open>getcode\<close>\<close>

text \<open>Inside a group nothing is read.\<close>

lemma quiet_append: "quiet mb s (cs @ ds) \<longleftrightarrow> quiet mb s cs \<and> quiet mb (foldl (a_step mb) s cs) ds"
  by (induction cs arbitrary: s) auto

lemma group_quiet:
  assumes "group_ends mb s (xs @ r # rs) len file rest"
  shows "quiet mb s xs"
proof -
  have "quiet mb s (butlast (xs @ r # rs)) \<or> quiet mb s (xs @ r # rs)"
    using assms by (auto simp: group_ends_def full_group_def)
  moreover have "butlast (xs @ r # rs) = xs @ butlast (r # rs)" by (simp add: butlast_append)
  ultimately show ?thesis by (auto simp: quiet_append)
qed

lemma getcode_inside:
  assumes l: "loaded mb zs (ds @ [d]) (c # cs)" and f: "flagged mb zs (ds @ [d])" and mb: "12 \<le> mb" "mb \<le> 16"
    and s: "ds @ [d] = d0 @ xs" "c # cs = (c # rs) @ rest" "xs \<noteq> []" "n_bits zs = fst (astate mb d0)"
     "maxcode zs = mcode mb (n_bits zs)" "maxbits zs = mb" "maxmaxcode zs = 2 ^ mb"
     "length (gbuf zs) = BITS" "carries (n_bits zs) (xs @ c # rs) (gbuf zs)" "fit (n_bits zs) (xs @ c # rs)"
     "roffset zs = int (length xs * n_bits zs)" "gsize zs = int len * 8 - (int (n_bits zs) - 1)"
     "length (xs @ c # rs) \<le> 8" "length (xs @ c # rs) * n_bits zs \<le> 8 * len"
     "group_ends mb (astate mb d0) (xs @ c # rs) len (zin zs) rest"
  shows "\<exists>zs'. getcode zs = Inr (c, zs') \<and> loaded mb zs' (ds @ [d, c]) cs \<and> reads_same zs zs'"
proof -
  let ?n = "n_bits zs"
  obtain xs' where xs: "xs = xs' @ [d]" "ds = d0 @ xs'" using s(1,3) by (cases xs rule: rev_cases) auto
  have q: "quiet mb (astate mb d0) xs'" "\<not> boundary mb (astate mb ds) d"
    using group_quiet [OF s(15)] by (simp_all add: xs quiet_snoc astate_append)
  then have "fst (astate mb ds) = ?n" by (simp add: xs astate_append quiet_width s(4))
  then have nb: "\<not> clear_flg zs" "\<not> free_ent zs > maxcode zs"
    using f q(2) s(5) by (auto simp: flagged_def boundary_def)
  have n: "9 \<le> ?n" "?n \<le> 16"
    using a_inv_astate [OF mb(1), of d0] mb(2) by (simp_all add: a_inv_def s(4) INIT_BITS_def)
  have "(length xs + 1) * ?n \<le> length (xs @ c # rs) * ?n" by (intro mult_right_mono) auto
  then have "(length xs + 1) * ?n \<le> 8 * len" using s(14) by linarith
  then have "length xs * ?n + ?n \<le> 8 * len" by simp
  then have "\<not> roffset zs \<ge> gsize zs" using s(11,12) n by linarith
  then have "getcode zs = take_code zs" using nb by (simp add: getcode_def)
  also have "\<dots> = Inr ((xs @ c # rs) ! length xs, zs\<lparr>roffset := roffset zs + int ?n\<rparr>)"
    by (rule take_code_carries) (use n s in \<open>auto simp: fit_def\<close>)
  finally have g: "getcode zs = Inr (c, zs\<lparr>roffset := roffset zs + int ?n\<rparr>)" by simp
  let ?zs' = "zs\<lparr>roffset := roffset zs + int ?n\<rparr>"
  have "loaded mb ?zs' (ds @ [d, c]) cs"
    unfolding loaded_def
    by (intro exI [of _ d0] exI [of _ "xs @ [c]"] exI [of _ rs] exI [of _ rest] exI [of _ len] conjI)
      (use s xs in \<open>auto simp: algebra_simps\<close>)
  moreover have "reads_same zs ?zs'" using nb by (cases zs) (simp add: reads_same_def)
  ultimately show ?thesis using g by blast
qed

text \<open>At the end of a group, or of the last one, the next is asked for.\<close>

lemma getcode_between:
  assumes f: "flagged mb zs (ds @ [d])" and mb: "12 \<le> mb" "mb \<le> 16"
    and s: "ds @ [d] = d0 @ xs" "xs \<noteq> []" "n_bits zs = fst (astate mb d0)"
     "maxcode zs = mcode mb (n_bits zs)" "maxbits zs = mb" "maxmaxcode zs = 2 ^ mb"
     "roffset zs = int (length xs * n_bits zs)" "gsize zs = int len * 8 - (int (n_bits zs) - 1)"
     "group_ends mb (astate mb d0) xs len (zin zs) rest"
  shows "getcode zs = refilled zs"
    "renewed zs = (let n = fst (astate mb (ds @ [d])) in zs\<lparr>n_bits := n, maxcode := mcode mb n, clear_flg := False\<rparr>)"
    "tail_holds mb (astate mb (ds @ [d])) (zin zs) rest \<or> zin zs = [] \<and> rest = []"
proof -
  let ?n = "n_bits zs"
  obtain xs' where xs: "xs = xs' @ [d]" "ds = d0 @ xs'" using s(1,2) by (cases xs rule: rev_cases) auto
  have n: "9 \<le> ?n" "?n \<le> 16"
    using a_inv_astate [OF mb(1), of d0] mb(2) by (simp_all add: a_inv_def s(3) INIT_BITS_def)
  have q: "quiet mb (astate mb d0) xs'" using s(9) by (auto simp: group_ends_def full_group_def xs quiet_snoc)
  then have w: "?n = fst (astate mb ds)" by (simp add: xs astate_append quiet_width s(3))
  show "renewed zs = (let n = fst (astate mb (ds @ [d])) in zs\<lparr>n_bits := n, maxcode := mcode mb n, clear_flg := False\<rparr>)"
    using renewed_width [OF f mb(1) w s(4,5,6) refl] by (simp add: Let_def)
  show "tail_holds mb (astate mb (ds @ [d])) (zin zs) rest \<or> zin zs = [] \<and> rest = []"
    using s(9) by (auto simp: group_ends_def xs astate_append)
  have "clear_flg zs \<or> free_ent zs > maxcode zs" if "boundary mb (astate mb ds) d"
    using that f s(4) w by (auto simp: boundary_def flagged_def split: if_splits)
  moreover have "roffset zs \<ge> gsize zs" if "\<not> boundary mb (astate mb ds) d"
  proof (cases "length xs = 8")
    case True
    then have "len = ?n" using s(9) by (auto simp: group_ends_def s(3))
    then show ?thesis using True s(7,8) n by simp
  next
    case False
    then have "len = (length xs * ?n + 7) div 8"
      using s(9) that by (auto simp: group_ends_def full_group_def xs astate_append s(3))
    then have "8 * len \<le> length xs * ?n + 7" by linarith
    then show ?thesis unfolding s(7,8) using n by linarith
  qed
  ultimately show "getcode zs = refilled zs" by (auto simp: getcode_def)
qed

lemma getcode_next:
  assumes l: "loaded mb zs (ds @ [d]) (c # cs)" and f: "flagged mb zs (ds @ [d])" and mb: "12 \<le> mb" "mb \<le> 16"
  shows "\<exists>zs'. getcode zs = Inr (c, zs') \<and> loaded mb zs' (ds @ [d, c]) cs \<and> reads_same zs zs'"
proof -
  obtain d0 xs rs rest len where s: "ds @ [d] = d0 @ xs" "c # cs = rs @ rest" "xs \<noteq> []"
    "n_bits zs = fst (astate mb d0)" "maxcode zs = mcode mb (n_bits zs)" "maxbits zs = mb" "maxmaxcode zs = 2 ^ mb"
    "length (gbuf zs) = BITS" "carries (n_bits zs) (xs @ rs) (gbuf zs)" "fit (n_bits zs) (xs @ rs)"
    "roffset zs = int (length xs * n_bits zs)" "gsize zs = int len * 8 - (int (n_bits zs) - 1)"
    "length (xs @ rs) \<le> 8" "length (xs @ rs) * n_bits zs \<le> 8 * len"
    "group_ends mb (astate mb d0) (xs @ rs) len (zin zs) rest"
    using l unfolding loaded_def by blast
  show ?thesis
  proof (cases rs)
    case (Cons r rs')
    then have "r = c" using s(2) by simp
    then show ?thesis
      using getcode_inside [OF l f mb s(1) _ s(3-8) _ _ s(11,12)] s Cons by auto
  next
    case Nil
    note b = getcode_between [OF f mb s(1,3-7,11,12) s(15) [unfolded Nil append_Nil2]]
    have "tail_holds mb (astate mb (ds @ [d])) (zin zs) (c # cs)" using b(3) s(2) Nil by auto
    then show ?thesis
      using refill_loads [OF refl mb b(2) [unfolded Let_def] s(8,6,7)] b(1) by auto
  qed
qed

lemma getcode_end:
  assumes l: "loaded mb zs (ds @ [d]) []" and f: "flagged mb zs (ds @ [d])" and mb: "12 \<le> mb" "mb \<le> 16"
  shows "\<exists>zs'. getcode zs = Inr (-1, zs') \<and> reads_same zs zs'"
proof -
  obtain d0 xs len where s: "ds @ [d] = d0 @ xs" "xs \<noteq> []"
    "n_bits zs = fst (astate mb d0)" "maxcode zs = mcode mb (n_bits zs)" "maxbits zs = mb" "maxmaxcode zs = 2 ^ mb"
    "length (gbuf zs) = BITS" "roffset zs = int (length xs * n_bits zs)"
    "gsize zs = int len * 8 - (int (n_bits zs) - 1)" "group_ends mb (astate mb d0) xs len (zin zs) []"
    using l unfolding loaded_def by auto
  note b = getcode_between [OF f mb s(1-6,8-10)]
  have "zin zs = []" using b(3) tail_holds_Nil by blast
  moreover have "fst (astate mb (ds @ [d])) \<le> 16"
    using a_inv_astate [OF mb(1), of "ds @ [d]"] mb(2) by (simp add: a_inv_def)
  ultimately show ?thesis
    using refill_ends [OF mb b(2) [unfolded Let_def] _ s(7)] b(1) by simp
qed

text \<open>The first code.\<close>

lemma getcode_first:
  assumes t: "tail_holds mb (astate mb []) (zin zs) (c # cs)" and mb: "12 \<le> mb" "mb \<le> 16"
    and zs: "length (gbuf zs) = BITS" "maxbits zs = mb" "maxmaxcode zs = 2 ^ mb" "n_bits zs = INIT_BITS"
      "maxcode zs = MAXCODE INIT_BITS" "free_ent zs = FIRST" "\<not> clear_flg zs" "roffset zs = 0" "gsize zs = 0"
  shows "\<exists>zs'. getcode zs = Inr (c, zs') \<and> loaded mb zs' [c] cs \<and> reads_same zs zs'"
proof -
  have n: "fst (astate mb []) = INIT_BITS" by (simp add: astate_def)
  have "renewed zs = zs\<lparr>n_bits := INIT_BITS, maxcode := mcode mb INIT_BITS, clear_flg := False\<rparr>"
    using zs mb by (cases zs) (auto simp: renewed_def mcode_def INIT_BITS_def MAXCODE_def FIRST_def)
  then have "\<exists>zs'. refilled zs = Inr (c, zs') \<and> loaded mb zs' ([] @ [c]) cs \<and> reads_same zs zs'"
    using refill_loads [OF n [symmetric] mb _ zs(1-3) t] by blast
  moreover have "getcode zs = refilled zs" using zs by (simp add: getcode_def)
  ultimately show ?thesis by simp
qed

end
