(* ===== verification/Z_Read.thy ===== *)
theory Z_Read
  imports Z_Getcode
begin

text \<open>
  \<open>zread\<close> on a complete file: the tables in memory are those of the receiver, the stack never
  overflows, and the characters come out in any portions the caller asks for.
\<close>

section \<open>The receiver's invariant\<close>

definition r_inv :: "nat \<Rightarrow> receiver \<Rightarrow> bool" where
  "r_inv M R \<longleftrightarrow> wf_table (fst R) \<and> length (fst R) \<le> M \<and> (snd R \<noteq> -1 \<longrightarrow> valid (fst R) (snd R))"

lemma r_inv_learns:
  assumes R: "r_inv M R" "accepts R c" and c: "c < FIRST + int M"
  shows "r_inv M (learns M R c)"
proof (cases "c = CLEAR")
  case True
  then show ?thesis by (simp add: r_inv_def learns_def)
next
  case False
  obtain T old where Rd: "R = (T, old)" by (cases R)
  have T: "wf_table T" "length T \<le> M" "old \<noteq> -1 \<Longrightarrow> valid T old" using R Rd by (auto simp: r_inv_def)
  have "valid T c \<or> c = FIRST + int (length T) \<and> old \<noteq> -1" using R(2) False Rd by (auto simp: accepts_def)
  moreover have "length T < M" if "c = FIRST + int (length T)" using that c by simp
  ultimately show ?thesis
    using T False Rd valid_append [of T c] by (auto simp: r_inv_def learns_def wf_table_snoc valid_def)
qed

lemma says_nonempty:
  assumes "r_inv M R" "accepts R c" "c \<noteq> CLEAR"
  shows "says R c \<noteq> []"
  using assms expand_nonempty [of "fst R" c] by (auto simp: r_inv_def accepts_def says_def)

text \<open>The string just said is what the code stands for from now on.\<close>

lemma expand_learnt:
  assumes R: "r_inv M R" "accepts R c" and c: "c \<noteq> CLEAR" "c < FIRST + int M"
  shows "expand (fst (learns M R c)) c = says R c"
proof -
  obtain T old where Rd: "R = (T, old)" by (cases R)
  have T: "wf_table T" "old \<noteq> -1 \<Longrightarrow> valid T old" using R Rd by (auto simp: r_inv_def)
  show ?thesis
  proof (cases "c = FIRST + int (length T)")
    case True
    then have o: "old \<noteq> -1" "length T < M"
      using R(2) c Rd by (auto simp: accepts_def valid_def FIRST_def)
    let ?T = "T @ [(old, hd (says R c))]"
    have says: "says R c = expand T old @ [hd (expand T old)]" using True Rd c(1) by (simp add: says_def)
    have "wf_table ?T" using T o by (simp add: wf_table_snoc)
    then have "expand ?T c = expand ?T old @ [hd (says R c)]"
      using expand_entry [of ?T "length T"] True by simp
    moreover have "expand ?T old = expand T old" using expand_append T o(1) by blast
    moreover have "hd (says R c) = hd (expand T old)" using expand_nonempty [OF T(1) T(2)] o(1) says by simp
    ultimately have "expand ?T c = says R c" using says by metis
    then show ?thesis using o c(1) Rd by (simp add: learns_def)
  next
    case False
    then have "valid T c" using R(2) c(1) Rd by (auto simp: accepts_def)
    then show ?thesis
      using False c(1) Rd expand_append [OF T(1)] by (simp add: learns_def says_def)
  qed
qed

text \<open>The strings of a table are no longer than it.\<close>

lemma expand_length:
  assumes "wf_table T" "valid T c"
  shows "length (expand T c) \<le> length T + 1"
proof -
  have "valid T c \<Longrightarrow> length (expand T c) \<le> (if c < 256 then 1 else nat (c - FIRST) + 2)"
  proof (induction "nat c" arbitrary: c rule: less_induct)
    case less
    show ?case
    proof (cases "c < 256")
      case False
      define k where "k = nat (c - FIRST)"
      have k: "k < length T" "c = FIRST + int k" using less(2) False by (auto simp: valid_def k_def FIRST_def)
      have v: "valid T (fst (T ! k))" "fst (T ! k) < c"
        using wf_prefix_valid [OF assms(1) k(1)] assms(1) k by (auto simp: wf_table_def valid_def FIRST_def)
      have "length (expand T (fst (T ! k))) \<le> k + 1"
        using less(1) [OF _ v(1)] v k by (auto simp: FIRST_def valid_def split: if_splits)
      then show ?thesis using expand_entry [OF assms(1) k(1)] k by (simp add: FIRST_def)
    qed simp
  qed
  then show ?thesis using assms(2) by (auto simp: valid_def FIRST_def split: if_splits)
qed

text \<open>The number of codes in use, for the sender when it put the last code out.\<close>

lemma after_size:
  assumes mb: "12 \<le> mb" and M: "M = room mb" and p: "\<forall>c \<in> set cs. 0 \<le> c"
  shows "length (fst (after M cs)) \<le> M \<and>
    (if snd (after M cs) = -1 then fst (after M cs) = [] \<and> snd (astate mb cs) = FIRST
     else snd (astate mb cs) = min (FIRST + int (length (fst (after M cs))) + 1) (2 ^ mb))"
  using p
proof (induction cs rule: rev_induct)
  case Nil
  then show ?case by (simp add: after_def astate_def)
next
  case (snoc c cs)
  have "FIRST + int M = 2 ^ mb" using int_room [OF mb] M by simp
  moreover have "0 \<le> c" using snoc.prems by simp
  moreover have "FIRST + 1 \<le> 2 ^ mb" using a_inv_start [OF mb] power_increasing [OF mb, of "2 :: int"]
    by (simp add: FIRST_def)
  ultimately show ?case
    using snoc by (auto simp: after_snoc astate_snoc learns_def a_step_def split: if_splits)
qed

lemma after_next_size:
  assumes mb: "12 \<le> mb" and M: "M = room mb" and p: "\<forall>c \<in> set ds. 0 \<le> c" and c: "0 \<le> c" "c \<noteq> CLEAR"
  shows "FIRST + int (length (fst (after M (ds @ [c])))) = snd (astate mb ds)"
  using after_size [OF mb M p] int_room [OF mb] M c
  by (auto simp: after_snoc learns_def split: if_splits)

section \<open>The tables in memory\<close>

definition tables :: "zreader \<Rightarrow> table \<Rightarrow> bool" where
  "tables zs T \<longleftrightarrow>
     (\<forall>i. 0 \<le> i \<and> i < 256 \<longrightarrow> tab_suffix zs i = word_of_int i) \<and>
     (\<forall>k < length T. codetab zs (FIRST + int k) = fst (T ! k) \<and> tab_suffix zs (FIRST + int k) = snd (T ! k))"

lemma chain_expands:
  assumes t: "tables zs T" and T: "wf_table T" "FIRST + int (length T) \<le> 2 ^ BITS"
  shows "valid T c \<Longrightarrow> length st + length (expand T c) \<le> DE_STACK \<Longrightarrow>
    \<exists>c0 st'. chain zs c st = Inr (c0, st') \<and> 0 \<le> c0 \<and> c0 < 256 \<and> word_of_int c0 # st' = expand T c @ st"
proof (induction "nat c" arbitrary: c st rule: less_induct)
  case less
  show ?case
  proof (cases "c < 256")
    case True
    then show ?thesis using less(2) by (subst chain.simps) (auto simp: valid_def FIRST_def)
  next
    case False
    define k where "k = nat (c - FIRST)"
    have k: "k < length T" "c = FIRST + int k" using less(2) False by (auto simp: valid_def k_def FIRST_def)
    have v: "valid T (fst (T ! k))" "fst (T ! k) < c"
      using wf_prefix_valid [OF T(1) k(1)] T(1) k by (auto simp: wf_table_def valid_def FIRST_def)
    have e: "expand T c = expand T (fst (T ! k)) @ [snd (T ! k)]" using expand_entry [OF T(1) k(1)] k by simp
    have b: "length st < DE_STACK" "length (snd (T ! k) # st) + length (expand T (fst (T ! k))) \<le> DE_STACK"
      using less(3) e by simp_all
    obtain c0 st' where "chain zs (fst (T ! k)) (snd (T ! k) # st) = Inr (c0, st')" "0 \<le> c0" "c0 < 256"
      "word_of_int c0 # st' = expand T (fst (T ! k)) @ (snd (T ! k) # st)"
      using less(1) [OF _ v(1) b(2)] v False by auto
    moreover have "suffix_of zs c = Inr (snd (T ! k))" "prefix_of zs c = Inr (fst (T ! k))"
      using t k T(2) by (auto simp: suffix_of_def prefix_of_def tables_def FIRST_def HSIZE_def BITS_def)
    ultimately show ?thesis using False b e by (subst chain.simps) (simp add: push_def)
  qed
qed

lemma DE_STACK_eq: "DE_STACK = 210468"
  by (simp add: DE_STACK_def HSIZE_def BITS_def)

lemma expand_code_says:
  assumes t: "tables zs (fst R)" and R: "r_inv M R" "accepts R c" "c \<noteq> CLEAR"
    and M: "FIRST + int M \<le> 2 ^ BITS"
    and zs: "free_ent zs = FIRST + int (length (fst R))" "oldcode zs = snd R" "stack zs = []"
      "snd R \<noteq> -1 \<Longrightarrow> finchar zs = uint (hd (expand (fst R) (snd R)))"
  shows "\<exists>c0. expand_code zs c =
    Inr (Some (zs\<lparr>incode := c, code := c0, stack := says R c, finchar := uint (hd (says R c))\<rparr>))"
proof -
  obtain T old where Rd: "R = (T, old)" by (cases R)
  have T: "wf_table T" "length T \<le> M" "old \<noteq> -1 \<Longrightarrow> valid T old" using R Rd by (auto simp: r_inv_def)
  have T16: "FIRST + int (length T) \<le> 2 ^ BITS" using T(2) M by linarith
  have len: "length (expand T d) + 1 \<le> DE_STACK" if "valid T d" for d
    using expand_length [OF T(1) that] T16 by (simp add: DE_STACK_eq FIRST_def BITS_def)
  let ?zs1 = "zs\<lparr>code := c, incode := c\<rparr>"
  have t1: "tables ?zs1 T" using t Rd by (simp add: tables_def)
  have last: "suffix_of ?zs1 c0 = Inr (word_of_int c0)" if "0 \<le> c0" "c0 < 256" for c0
    using t that by (simp add: suffix_of_def tables_def BITS_def)
  show ?thesis
  proof (cases "c = FIRST + int (length T)")
    case True
    have o: "old \<noteq> -1" "valid T old" using R(2) True T(3) Rd by (auto simp: accepts_def valid_def CLEAR_def FIRST_def)
    let ?b = "hd (expand T old)"
    have "\<exists>c0 st'. chain ?zs1 old [?b] = Inr (c0, st') \<and> 0 \<le> c0 \<and> c0 < 256 \<and> word_of_int c0 # st' = expand T old @ [?b]"
      using chain_expands [OF t1 T(1) T16 o(2), of "[?b]"] len [OF o(2)] by simp
    then obtain c0 st' where ch: "chain ?zs1 old [?b] = Inr (c0, st')" "0 \<le> c0" "c0 < 256"
      "word_of_int c0 # st' = says R c" using True Rd R(3) by (auto simp: says_def)
    have "length (says R c) \<le> DE_STACK" using len [OF o(2)] True Rd R(3) by (simp add: says_def)
    then have "length st' < DE_STACK" unfolding ch(4) [symmetric] by simp
    then have "expand_code zs c = Inr (Some (zs\<lparr>incode := c, code := c0, stack := word_of_int c0 # st',
        finchar := uint (word_of_int c0 :: u8)\<rparr>))"
      using zs ch(1) True o Rd last [OF ch(2,3)] by (auto simp: expand_code_def push_def DE_STACK_eq)
    then show ?thesis unfolding ch(4) [symmetric] by auto
  next
    case False
    have v: "valid T c" using R False Rd by (auto simp: accepts_def)
    then obtain c0 st' where ch: "chain ?zs1 c [] = Inr (c0, st')" "0 \<le> c0" "c0 < 256"
      "word_of_int c0 # st' = says R c"
      using chain_expands [OF t1 T(1) T16 v, of "[]"] len [OF v] False Rd R(3) by (auto simp: says_def)
    have "length (says R c) \<le> DE_STACK" using len [OF v] False Rd R(3) by (simp add: says_def)
    then have "length st' < DE_STACK" unfolding ch(4) [symmetric] by simp
    moreover have "c < FIRST + int (length T)" using v by (auto simp: valid_def FIRST_def)
    ultimately have "expand_code zs c = Inr (Some (zs\<lparr>incode := c, code := c0, stack := word_of_int c0 # st',
        finchar := uint (word_of_int c0 :: u8)\<rparr>))"
      using zs ch(1) Rd last [OF ch(2,3)] by (auto simp: expand_code_def push_def)
    then show ?thesis unfolding ch(4) [symmetric] by auto
  qed
qed

lemma emit_eq:
  "st \<noteq> [] \<Longrightarrow> emit st n acc =
     (if n < length st then Inr (drop n st, None, acc @ take n st)
      else Inr ([], Some (n - length st), acc @ st))"
proof (induction st arbitrary: n acc)
  case (Cons b st)
  then show ?case by (cases n; cases st) auto
qed simp

section \<open>The loop\<close>

text \<open>At the head of the loop: the codes \<open>ds\<close> have been dealt with.\<close>

definition at_code :: "nat \<Rightarrow> zreader \<Rightarrow> int list \<Rightarrow> int list \<Rightarrow> bool" where
  "at_code mb zs ds cs \<longleftrightarrow>
     loaded mb zs ds cs \<and> ds \<noteq> [] \<and> clear_flg zs = (last ds = CLEAR) \<and>
     r_inv (room mb) (after (room mb) ds) \<and> tables zs (fst (after (room mb) ds)) \<and>
     free_ent zs = FIRST + int (length (fst (after (room mb) ds))) \<and> oldcode zs = snd (after (room mb) ds) \<and>
     (snd (after (room mb) ds) \<noteq> -1 \<longrightarrow>
        finchar zs = uint (hd (expand (fst (after (room mb) ds)) (snd (after (room mb) ds))))) \<and>
     understands (room mb) (after (room mb) ds) cs \<and> fit mb (ds @ cs) \<and> stack zs = [] \<and>
     block_compress zs \<noteq> 0 \<and> state zs = S_MIDDLE"

text \<open>The code \<open>c\<close> is being put out; it is yet to be entered into the table.\<close>

definition at_chars :: "nat \<Rightarrow> zreader \<Rightarrow> int list \<Rightarrow> int \<Rightarrow> int list \<Rightarrow> bool" where
  "at_chars mb zs ds c cs \<longleftrightarrow>
     loaded mb zs (ds @ [c]) cs \<and> \<not> clear_flg zs \<and> c \<noteq> CLEAR \<and>
     r_inv (room mb) (after (room mb) ds) \<and> tables zs (fst (after (room mb) ds)) \<and>
     free_ent zs = FIRST + int (length (fst (after (room mb) ds))) \<and> oldcode zs = snd (after (room mb) ds) \<and>
     incode zs = c \<and> finchar zs = uint (hd (says (after (room mb) ds) c)) \<and>
     accepts (after (room mb) ds) c \<and> understands (room mb) (after (room mb) (ds @ [c])) cs \<and>
     fit mb (ds @ c # cs) \<and> block_compress zs \<noteq> 0 \<and> state zs = S_MIDDLE"

lemma at_code_flagged:
  assumes a: "at_code mb zs ds cs" and mb: "12 \<le> mb"
  shows "flagged mb zs ds"
proof -
  have f: "fit mb ds" "ds \<noteq> []" using a by (auto simp: at_code_def fit_def)
  then obtain ds' d where ds: "ds = ds' @ [d]" by (cases ds rule: rev_cases) auto
  have p: "\<forall>c \<in> set ds'. 0 \<le> c" "0 \<le> d" using f ds by (auto simp: fit_def)
  show ?thesis
  proof (cases "d = CLEAR")
    case True
    then show ?thesis using a ds by (simp add: flagged_def at_code_def after_snoc learns_def)
  next
    case False
    then show ?thesis
      using a ds after_next_size [OF mb refl p False] by (simp add: flagged_def at_code_def)
  qed
qed

lemma loaded_same:
  assumes "loaded mb zs ds cs" "n_bits zs' = n_bits zs" "maxcode zs' = maxcode zs" "maxbits zs' = maxbits zs"
    "maxmaxcode zs' = maxmaxcode zs" "gbuf zs' = gbuf zs" "roffset zs' = roffset zs" "gsize zs' = gsize zs" "zin zs' = zin zs"
  shows "loaded mb zs' ds cs"
  using assms unfolding loaded_def by simp

lemma tables_same: "tables zs T \<Longrightarrow> codetab zs' = codetab zs \<Longrightarrow> tab_suffix zs' = tab_suffix zs \<Longrightarrow> tables zs' T"
  by (simp add: tables_def)

lemma at_code_next:
  assumes a: "at_code mb zs ds (c # cs)" and mb: "12 \<le> mb" "mb \<le> 16"
  obtains zs1 where "getcode zs = Inr (c, zs1)" "loaded mb zs1 (ds @ [c]) cs" "reads_same zs zs1"
proof -
  have l: "loaded mb zs ds (c # cs)" "ds \<noteq> []" using a by (auto simp: at_code_def)
  obtain ds' d where ds: "ds = ds' @ [d]" using l(2) by (cases ds rule: rev_cases) auto
  show thesis
    using getcode_next [of mb zs ds' d c cs] l(1) at_code_flagged [OF a mb(1)] mb that ds by auto
qed

lemma room_BITS: "12 \<le> mb \<Longrightarrow> mb \<le> 16 \<Longrightarrow> FIRST + int (room mb) \<le> 2 ^ BITS"
  unfolding int_room BITS_def by (rule power_increasing) auto

lemma code_expanded:
  assumes a: "at_code mb zs ds (c # cs)" and mb: "12 \<le> mb" "mb \<le> 16" and c: "c \<noteq> CLEAR"
  obtains zs1 zs2 where "getcode zs = Inr (c, zs1)" "-1 < c" "expand_code zs1 c = Inr (Some zs2)"
    "at_chars mb zs2 ds c cs" "stack zs2 = says (after (room mb) ds) c"
proof -
  let ?R = "after (room mb) ds"
  obtain zs1 where g: "getcode zs = Inr (c, zs1)" "loaded mb zs1 (ds @ [c]) cs" "reads_same zs zs1"
    using at_code_next [OF a mb] .
  note same = reads_sameD [OF g(3)]
  have a0: "r_inv (room mb) ?R" "tables zs (fst ?R)" "free_ent zs = FIRST + int (length (fst ?R))"
    "oldcode zs = snd ?R" "snd ?R \<noteq> -1 \<Longrightarrow> finchar zs = uint (hd (expand (fst ?R) (snd ?R)))"
    "accepts ?R c" "understands (room mb) (learns (room mb) ?R c) cs" "fit mb (ds @ c # cs)" "stack zs = []"
    "block_compress zs \<noteq> 0" "state zs = S_MIDDLE"
    using a by (simp_all add: at_code_def)
  have "\<exists>c0. expand_code zs1 c =
    Inr (Some (zs1\<lparr>incode := c, code := c0, stack := says ?R c, finchar := uint (hd (says ?R c))\<rparr>))"
    by (rule expand_code_says [OF _ a0(1,6) c room_BITS [OF mb]])
      (use a0 same tables_same [OF a0(2), of zs1] in auto)
  then obtain c0 where e: "expand_code zs1 c =
    Inr (Some (zs1\<lparr>incode := c, code := c0, stack := says ?R c, finchar := uint (hd (says ?R c))\<rparr>))" ..
  let ?zs2 = "zs1\<lparr>incode := c, code := c0, stack := says ?R c, finchar := uint (hd (says ?R c))\<rparr>"
  have "at_chars mb ?zs2 ds c cs"
    unfolding at_chars_def using a0 same c loaded_same [OF g(2), of ?zs2] tables_same [OF a0(2), of ?zs2]
    by (simp add: after_snoc)
  moreover have "-1 < c" using a0(8) by (simp add: fit_def)
  ultimately show thesis using that g(1) e by simp
qed

lemma code_clears:
  assumes a: "at_code mb zs ds (CLEAR # cs)" and mb: "12 \<le> mb" "mb \<le> 16"
  obtains zs1 where "getcode zs = Inr (CLEAR, zs1)" "block_compress zs1 \<noteq> 0"
    "at_code mb (clear_table zs1) (ds @ [CLEAR]) cs"
proof -
  obtain zs1 where g: "getcode zs = Inr (CLEAR, zs1)" "loaded mb zs1 (ds @ [CLEAR]) cs" "reads_same zs zs1"
    using at_code_next [OF a mb] .
  note same = reads_sameD [OF g(3)]
  have "tables (clear_table zs1) []" using a same by (simp add: at_code_def tables_def clear_table_def)
  moreover have "loaded mb (clear_table zs1) (ds @ [CLEAR]) cs"
    by (rule loaded_same [OF g(2)]) (simp_all add: clear_table_def)
  ultimately have "at_code mb (clear_table zs1) (ds @ [CLEAR]) cs"
    using a same unfolding at_code_def by (simp add: after_snoc learns_def r_inv_def) (simp add: clear_table_def)
  then show thesis using that g(1) same a by (simp add: at_code_def)
qed

lemma entry_made:
  assumes a: "at_chars mb zs ds c cs" and mb: "12 \<le> mb" "mb \<le> 16"
  shows "at_code mb (new_entry (zs\<lparr>stack := []\<rparr>)) (ds @ [c]) cs"
proof -
  define R where "R = after (room mb) ds"
  obtain T old where Rd: "R = (T, old)" by (cases R)
  have a0: "loaded mb zs (ds @ [c]) cs" "\<not> clear_flg zs" "c \<noteq> CLEAR" "r_inv (room mb) R" "tables zs T"
    "free_ent zs = FIRST + int (length T)" "oldcode zs = old" "incode zs = c" "finchar zs = uint (hd (says R c))"
    "accepts R c" "understands (room mb) (learns (room mb) R c) cs" "fit mb (ds @ c # cs)"
    "block_compress zs \<noteq> 0" "state zs = S_MIDDLE"
    using a Rd unfolding at_chars_def after_snoc R_def [symmetric] by auto
  have mx: "maxmaxcode zs = 2 ^ mb" using a0(1) by (auto simp: loaded_def)
  have c: "0 \<le> c" "c < FIRST + int (room mb)" using a0(12) int_room [OF mb(1)] by (simp_all add: fit_def)
  have ri: "r_inv (room mb) (learns (room mb) R c)" using r_inv_learns [OF a0(4,10) c(2)] .
  have lt: "free_ent zs < maxmaxcode zs \<longleftrightarrow> length T < room mb"
    using int_room [OF mb(1)] a0(6) mx by linarith
  have old: "0 \<le> old \<and> old < 2 ^ 16" if "old \<noteq> -1"
  proof -
    have "valid T old" "length T \<le> room mb" using a0(4) Rd that by (auto simp: r_inv_def)
    then show ?thesis using room_BITS [OF mb] by (auto simp: valid_def FIRST_def BITS_def)
  qed
  let ?zs' = "new_entry (zs\<lparr>stack := []\<rparr>)"
  define T' where "T' = (if length T < room mb \<and> old \<noteq> -1 then T @ [(old, hd (says R c))] else T)"
  have R': "after (room mb) (ds @ [c]) = (T', c)"
    using a0(3) Rd by (simp add: after_snoc R_def [symmetric] learns_def T'_def)
  have tb: "tables ?zs' T'"
    using a0(5,6,7,9) lt old mx by (auto simp: new_entry_def Let_def T'_def tables_def nth_append FIRST_def)
  have l: "loaded mb ?zs' (ds @ [c]) cs"
    by (rule loaded_same [OF a0(1)]) (simp_all add: new_entry_def Let_def)
  have "free_ent ?zs' = FIRST + int (length T')" "oldcode ?zs' = c" "finchar ?zs' = uint (hd (says R c))"
    "stack ?zs' = []" "block_compress ?zs' = block_compress zs" "state ?zs' = state zs" "\<not> clear_flg ?zs'"
    using a0 lt by (simp_all add: new_entry_def Let_def T'_def)
  moreover have "hd (expand T' c) = hd (says R c)"
    using expand_learnt [OF a0(4,10,3) c(2)] R' by (simp add: after_snoc R_def)
  ultimately show ?thesis
    using l tb a0 c ri R' unfolding at_code_def R_def by (simp add: after_snoc [symmetric])
qed

section \<open>\<open>zread\<close>\<close>

text \<open>What is still to be delivered.\<close>

definition holds :: "nat \<Rightarrow> zreader \<Rightarrow> bytes \<Rightarrow> bool" where
  "holds mb zs rest \<longleftrightarrow>
     state zs = S_EOF \<and> rest = [] \<or>
     (\<exists>ds c cs. at_chars mb zs ds c cs \<and> stack zs \<noteq> [] \<and>
        rest = stack zs @ hears (room mb) (after (room mb) (ds @ [c])) cs) \<or>
     state zs = S_START \<and> complete mb (zin zs) rest \<and> length (gbuf zs) = BITS \<and> \<not> clear_flg zs \<and>
       roffset zs = 0 \<and> gsize zs = 0"

lemma at_chars_stack: "at_chars mb (zs\<lparr>stack := st\<rparr>) ds c cs \<longleftrightarrow> at_chars mb zs ds c cs"
  unfolding at_chars_def loaded_def tables_def by simp

lemma read_loop_delivers:
  assumes "at_code mb zs ds cs" and mb: "12 \<le> mb" "mb \<le> 16"
  shows "\<exists>zs'. read_loop_z zs n acc =
      Some (Inr (Ret (length acc + min n (length (hears (room mb) (after (room mb) ds) cs))),
        acc @ take n (hears (room mb) (after (room mb) ds) cs), zs')) \<and>
    holds mb zs' (drop n (hears (room mb) (after (room mb) ds) cs))"
  using assms(1)
proof (induction cs arbitrary: zs ds n acc)
  case Nil
  obtain ds' d where ds: "ds = ds' @ [d]" using Nil by (cases ds rule: rev_cases) (auto simp: at_code_def)
  obtain zs' where "getcode zs = Inr (-1, zs')"
    using getcode_end [of mb zs ds' d] at_code_flagged [OF Nil mb(1)] Nil mb ds by (auto simp: at_code_def)
  then show ?case by (subst read_loop_z.simps) (simp add: holds_def)
next
  case (Cons c cs)
  let ?M = "room mb" let ?R = "after ?M ds"
  show ?case
  proof (cases "c = CLEAR")
    case True
    obtain zs1 where z: "getcode zs = Inr (CLEAR, zs1)" "block_compress zs1 \<noteq> 0"
      "at_code mb (clear_table zs1) (ds @ [CLEAR]) cs"
      using code_clears [OF _ mb] Cons.prems True by blast
    have "hears ?M ?R (c # cs) = hears ?M (after ?M (ds @ [CLEAR])) cs"
      using True by (simp add: says_def after_snoc)
    then show ?thesis
      using Cons.IH [OF z(3), of n acc] z(1,2) by (subst read_loop_z.simps) (simp add: CLEAR_def)
  next
    case False
    obtain zs1 zs2 where z: "getcode zs = Inr (c, zs1)" "-1 < c" "expand_code zs1 c = Inr (Some zs2)"
      "at_chars mb zs2 ds c cs" "stack zs2 = says ?R c"
      using code_expanded [OF Cons.prems mb False] .
    have "says ?R c \<noteq> []" using says_nonempty [of ?M ?R c] z(4) by (auto simp: at_chars_def)
    note e = emit_eq [OF this, of n acc]
    have h: "hears ?M ?R (c # cs) = says ?R c @ hears ?M (after ?M (ds @ [c])) cs" by (simp add: after_snoc)
    show ?thesis
    proof (cases "n < length (says ?R c)")
      case True
      let ?zs' = "zs2\<lparr>stack := drop n (says ?R c)\<rparr>"
      have "read_loop_z zs n acc = Some (Inr (Ret (length acc + n), acc @ take n (says ?R c), ?zs'))"
        using z False e True by (subst read_loop_z.simps) (simp add: min_absorb2)
      moreover have "holds mb ?zs' (drop n (hears ?M ?R (c # cs)))"
        using z(4) True unfolding holds_def h by (auto simp: at_chars_stack)
      ultimately show ?thesis using True unfolding h by (intro exI [of _ ?zs']) (simp add: min_def)
    next
      case long: False
      note a = entry_made [OF z(4) mb]
      let ?H = "hears ?M (after ?M (ds @ [c])) cs"
      have "read_loop_z zs n acc =
          read_loop_z (new_entry (zs2\<lparr>stack := []\<rparr>)) (n - length (says ?R c)) (acc @ says ?R c)"
        using z False e long by (subst read_loop_z.simps) simp
      moreover obtain zs' where "read_loop_z (new_entry (zs2\<lparr>stack := []\<rparr>)) (n - length (says ?R c)) (acc @ says ?R c) =
          Some (Inr (Ret (length (acc @ says ?R c) + min (n - length (says ?R c)) (length ?H)),
            (acc @ says ?R c) @ take (n - length (says ?R c)) ?H, zs'))"
          "holds mb zs' (drop (n - length (says ?R c)) ?H)"
        using Cons.IH [OF a] by blast
      moreover have "length (acc @ says ?R c) + min (n - length (says ?R c)) (length ?H) =
          length acc + min n (length (says ?R c @ ?H))" using long by auto
      ultimately show ?thesis using long unfolding h by (intro exI [of _ zs']) (simp del: min_def)
    qed
  qed
qed

text \<open>The header.\<close>

lemma header_bits:
  assumes "12 \<le> mb" "mb \<le> 16"
  shows "unat ((word_of_nat mb OR BLOCK_MASK) AND BIT_MASK :: u8) = mb"
    "(word_of_nat mb OR BLOCK_MASK) AND BLOCK_MASK \<noteq> (0 :: u8)"
proof -
  consider "mb = 12" | "mb = 13" | "mb = 14" | "mb = 15" | "mb = 16" using assms by linarith
  then have "unat ((word_of_nat mb OR BLOCK_MASK) AND BIT_MASK :: u8) = mb \<and>
    (word_of_nat mb OR BLOCK_MASK) AND BLOCK_MASK \<noteq> (0 :: u8)"
    by cases (simp_all add: BLOCK_MASK_def BIT_MASK_def)
  then show "unat ((word_of_nat mb OR BLOCK_MASK) AND BIT_MASK :: u8) = mb"
    "(word_of_nat mb OR BLOCK_MASK) AND BLOCK_MASK \<noteq> (0 :: u8)" by simp_all
qed

lemma fit_mono:
  assumes "fit n cs" "n \<le> m"
  shows "fit m cs"
proof -
  have "(2 :: int) ^ n \<le> 2 ^ m" using assms(2) by (intro power_increasing) auto
  then show ?thesis using assms(1) unfolding fit_def by (blast intro: less_le_trans)
qed

lemma fit_codes: "frames mb s gs \<Longrightarrow> 12 \<le> mb \<Longrightarrow> a_inv mb s \<Longrightarrow> fit mb (codes gs)"
proof (induction mb s gs rule: frames.induct)
  case (2 mb s cs bs gs)
  have "fit mb cs" using fit_mono [of "fst s" cs mb] 2(2,4) by (simp add: a_inv_def)
  moreover have "fit mb (codes gs)" using 2 a_inv_foldl [of mb s cs] by simp
  ultimately show ?case by (auto simp: fit_def)
qed (simp add: fit_def)

lemma complete_first:
  assumes "complete mb file data" "12 \<le> mb"
  obtains body b cs where "file = header mb @ body" "tail_holds mb (astate mb []) body (uint b # cs)"
    "understands (room mb) (after (room mb) [uint b]) cs" "fit mb (uint b # cs)"
    "data = (b :: u8) # hears (room mb) (after (room mb) [uint b]) cs"
proof -
  let ?M = "room mb"
  obtain gs cur lst where c: "file = header mb @ packed gs @ lst" "frames mb (INIT_BITS, FIRST) gs"
    "quiet mb (astate mb (codes gs)) cur" "length cur < 8"
    "carries (fst (astate mb (codes gs))) cur lst" "fit (fst (astate mb (codes gs))) cur"
    "length lst = (length cur * fst (astate mb (codes gs)) + 7) div 8"
    "understands ?M fresh_receiver (codes gs @ cur)" "hears ?M fresh_receiver (codes gs @ cur) = data"
    "codes gs @ cur \<noteq> []" "hd (codes gs @ cur) \<noteq> CLEAR"
    using assms(1) unfolding complete_def by blast
  obtain c0 cs where cs: "codes gs @ cur = c0 # cs" using c(10) by (cases "codes gs @ cur") auto
  define b :: u8 where "b = word_of_int c0"
  have "valid [] c0" using c(8,11) cs by (auto simp: accepts_def)
  then have c0: "c0 = uint b" by (auto simp: valid_def b_def unsigned_of_int take_bit_int_eq_self)
  have t: "tail_holds mb (astate mb []) (packed gs @ lst) (uint b # cs)"
    unfolding tail_holds_def using c cs c0 by (auto simp: astate_def intro!: exI [of _ gs] exI [of _ cur] exI [of _ lst])
  have "fit mb (codes gs)" using fit_codes [OF c(2) assms(2) a_inv_start [OF assms(2)]] .
  moreover have "fit mb cur"
    using fit_mono [OF c(6)] a_inv_astate [OF assms(2), of "codes gs"] by (simp add: a_inv_def)
  ultimately have "fit mb (uint b # cs)" using cs c0 by (metis fit_def Un_iff set_append)
  moreover have "c0 \<noteq> CLEAR" using c(11) cs by simp
  moreover have "uint b \<noteq> 257" using uint_byte [of b] by linarith
  ultimately have "after ?M [uint b] = learns ?M fresh_receiver c0" "says fresh_receiver c0 = [b]"
    "fit mb (uint b # cs)"
    using c0 by (simp_all add: after_def says_def FIRST_def)
  then show thesis using that [OF c(1) t] c(8,9) cs by simp
qed

lemma zread_delivers:
  assumes h: "holds mb zs rest" and mb: "12 \<le> mb" "mb \<le> 16" and n: "0 < n"
  shows "\<exists>zs'. zread zs n = Some (Inr (Ret (min n (length rest)), take n rest, zs')) \<and> holds mb zs' (drop n rest)"
  using h [unfolded holds_def]
proof (elim disjE conjE exE)
  assume "state zs = S_EOF" "rest = []"
  then show ?thesis using n by (simp add: zread_def holds_def)
next
  let ?M = "room mb"
  fix ds c cs assume a: "at_chars mb zs ds c cs" "stack zs \<noteq> []"
    and r: "rest = stack zs @ hears ?M (after ?M (ds @ [c])) cs"
  have z: "zread zs n = read_middle zs n" using a n by (simp add: zread_def at_chars_def)
  note e = emit_eq [OF a(2), of n "[]"]
  show ?thesis
  proof (cases "n < length (stack zs)")
    case True
    let ?zs' = "zs\<lparr>stack := drop n (stack zs)\<rparr>"
    have "zread zs n = Some (Inr (Ret n, take n (stack zs), ?zs'))"
      using z e True by (simp add: read_middle_def min_absorb2)
    moreover have "holds mb ?zs' (drop n rest)"
      using a True unfolding holds_def r by (auto simp: at_chars_stack)
    ultimately show ?thesis using True r by (intro exI [of _ ?zs']) (simp add: min_def)
  next
    case False
    have "zread zs n = read_loop_z (new_entry (zs\<lparr>stack := []\<rparr>)) (n - length (stack zs)) (stack zs)"
      using z e False by (simp add: read_middle_def)
    moreover have "length (stack zs) + min (n - length (stack zs)) k = min n (length (stack zs) + k)" for k
      using False by auto
    ultimately show ?thesis
      using read_loop_delivers [OF entry_made [OF a(1) mb] mb, of "n - length (stack zs)" "stack zs"] False r by simp
  qed
next
  let ?M = "room mb"
  assume s: "state zs = S_START" "complete mb (zin zs) rest" "length (gbuf zs) = BITS" "\<not> clear_flg zs"
    "roffset zs = 0" "gsize zs = 0"
  obtain body b cs where f: "zin zs = header mb @ body" "tail_holds mb (astate mb []) body (uint b # cs)"
    "understands ?M (after ?M [uint b]) cs" "fit mb (uint b # cs)"
    "rest = (b :: u8) # hears ?M (after ?M [uint b]) cs"
    using complete_first [OF s(2) mb(1)] .
  let ?bc = "(word_of_nat mb OR BLOCK_MASK) AND BLOCK_MASK :: u8"
  define zs3 where "zs3 = (init_tables (zs\<lparr>state := S_MIDDLE, zin := body, block_compress := ?bc, maxbits := mb,
    maxmaxcode := 2 ^ mb, n_bits := INIT_BITS, maxcode := MAXCODE INIT_BITS\<rparr>))\<lparr>free_ent := FIRST\<rparr>"
  obtain zs4 where g: "getcode zs3 = Inr (uint b, zs4)" "loaded mb zs4 [uint b] cs" "reads_same zs3 zs4"
    using getcode_first [of mb zs3 "uint b" cs] f(2) mb s by (auto simp: zs3_def init_tables_def)
  let ?zs5 = "zs4\<lparr>finchar := uint b, oldcode := uint b, stack := []\<rparr>"
  note same = reads_sameD [OF g(3)]
  have "uint b \<noteq> -1" using unsigned_greater_eq [of b, where 'a = int] by linarith
  then have z: "zread zs n = read_loop_z ?zs5 (n - 1) [b]"
    using n s(1) f(1) header_bits [OF mb] mb g(1)
    by (simp add: zread_def header_def magic_header_def zs3_def init_tables_def Let_def BITS_def)
  have b: "uint b \<noteq> CLEAR" unfolding CLEAR_def using uint_byte [of b] by linarith
  then have R: "after ?M [uint b] = ([], uint b)" by (simp add: after_def learns_def)
  have "tables ?zs5 []" using same by (simp add: tables_def zs3_def init_tables_def)
  moreover have "loaded mb ?zs5 [uint b] cs" by (rule loaded_same [OF g(2)]) simp_all
  ultimately have "at_code mb ?zs5 [uint b] cs"
    using same f(3,4) R b header_bits(2) [OF mb] unfolding at_code_def
    by (simp add: r_inv_def valid_byte zs3_def init_tables_def)
  then obtain zs' where "zread zs n = Some (Inr (Ret (length [b] + min (n - 1) (length (tl rest))), [b] @ take (n - 1) (tl rest), zs'))"
    "holds mb zs' (drop (n - 1) (tl rest))"
    using read_loop_delivers [OF _ mb] z f(5) by (metis list.sel(3))
  then show ?thesis using n f(5) by (cases n) auto
qed

end
