(* ===== verification/Z_Safe.thy ===== *)
theory Z_Safe
  imports Z_Read
begin

text \<open>
  \<open>zread\<close> on an arbitrary file: as long as the first code is a character, no array is left and
  every call returns. A file that starts with another code can make it overrun its stack.
\<close>

section \<open>The buffer\<close>

definition geometry :: "zreader \<Rightarrow> bool" where
  "geometry zs \<longleftrightarrow>
     length (gbuf zs) = BITS \<and> 12 \<le> maxbits zs \<and> maxbits zs \<le> BITS \<and> INIT_BITS \<le> n_bits zs \<and>
     n_bits zs \<le> maxbits zs \<and> maxmaxcode zs = 2 ^ maxbits zs \<and> maxcode zs = mcode (maxbits zs) (n_bits zs) \<and>
     free_ent zs \<le> maxmaxcode zs \<and> 0 \<le> roffset zs \<and> gsize zs \<le> 129 - int (n_bits zs)"

definition left_over :: "zreader \<Rightarrow> nat \<times> nat" where
  "left_over zs = (length (zin zs), nat (gsize zs - roffset zs))"

lemma take_code_safe:
  assumes g: "geometry zs" and r: "roffset zs \<le> 128 - int (n_bits zs)"
  obtains c where "take_code zs = Inr (c, zs\<lparr>roffset := roffset zs + int (n_bits zs)\<rparr>)" "0 \<le> c" "c < 2 ^ n_bits zs"
proof -
  have n: "9 \<le> n_bits zs" "n_bits zs \<le> 16" "roffset zs = int (nat (roffset zs))"
    "nat (roffset zs) + n_bits zs \<le> 8 * length (gbuf zs)"
    using g r by (auto simp: geometry_def INIT_BITS_def BITS_def)
  show thesis using take_code_bits [OF n] that by metis
qed

lemma renewed_geometry:
  assumes g: "geometry zs"
  obtains n where "renewed zs = zs\<lparr>n_bits := n, maxcode := mcode (maxbits zs) n, clear_flg := False\<rparr>"
    "INIT_BITS \<le> n" "n \<le> maxbits zs"
proof -
  define n where "n = (if clear_flg zs then INIT_BITS else if free_ent zs > maxcode zs then n_bits zs + 1 else n_bits zs)"
  have "n_bits zs < maxbits zs" if "free_ent zs > maxcode zs"
    using g that by (cases "n_bits zs = maxbits zs") (auto simp: geometry_def mcode_def)
  then have "INIT_BITS \<le> n" "n \<le> maxbits zs" using g by (auto simp: n_def geometry_def INIT_BITS_def)
  moreover have "INIT_BITS \<noteq> maxbits zs" using g by (simp add: geometry_def INIT_BITS_def)
  then have "renewed zs = zs\<lparr>n_bits := n, maxcode := mcode (maxbits zs) n, clear_flg := False\<rparr>"
    using g by (cases zs) (auto simp: renewed_def geometry_def n_def first_width_def widen_def Let_def mcode_def)
  ultimately show thesis using that by blast
qed

lemma getcode_safe:
  assumes g: "geometry zs"
  obtains c zs' where "getcode zs = Inr (c, zs')" "reads_same zs zs'"
    "c = -1 \<or> 0 \<le> c \<and> c < maxmaxcode zs \<and> geometry zs' \<and> (left_over zs', left_over zs) \<in> less_than <*lex*> less_than"
proof -
  have mono: "(2 :: int) ^ n \<le> maxmaxcode zs" if "n \<le> maxbits zs" for n
    using g that power_increasing [of n "maxbits zs" "2 :: int"] by (simp add: geometry_def)
  show thesis
  proof (cases "clear_flg zs \<or> roffset zs \<ge> gsize zs \<or> free_ent zs > maxcode zs")
    case False
    then have "roffset zs \<le> 128 - int (n_bits zs)" using g by (simp add: geometry_def)
    then obtain c where c: "take_code zs = Inr (c, zs\<lparr>roffset := roffset zs + int (n_bits zs)\<rparr>)" "0 \<le> c" "c < 2 ^ n_bits zs"
      using take_code_safe [OF g] by blast
    let ?zs' = "zs\<lparr>roffset := roffset zs + int (n_bits zs)\<rparr>"
    have "getcode zs = Inr (c, ?zs')" using False c(1) by (simp add: getcode_def)
    moreover have "reads_same zs ?zs'" using False by (cases zs) (simp add: reads_same_def)
    moreover have "geometry ?zs'" using g by (simp add: geometry_def)
    moreover have "n_bits zs \<le> maxbits zs" using g by (simp add: geometry_def)
    then have "c < maxmaxcode zs" using c(3) mono [of "n_bits zs"] by simp
    moreover have "(left_over ?zs', left_over zs) \<in> less_than <*lex*> less_than"
      using False g by (auto simp: left_over_def geometry_def INIT_BITS_def)
    ultimately show thesis using that c(2) by blast
  next
    case True
    then have gr: "getcode zs = refilled zs" by (simp add: getcode_def)
    obtain n where r: "renewed zs = zs\<lparr>n_bits := n, maxcode := mcode (maxbits zs) n, clear_flg := False\<rparr>"
      and n: "INIT_BITS \<le> n" "n \<le> maxbits zs" using renewed_geometry [OF g] .
    have n16: "n \<le> BITS" "9 \<le> n" "n \<le> 16" using n g by (auto simp: geometry_def INIT_BITS_def BITS_def)
    define bs where "bs = take n (zin zs)"
    let ?zs0 = "zs\<lparr>n_bits := n, maxcode := mcode (maxbits zs) n, clear_flg := False, zin := drop n (zin zs),
      gbuf := bs @ drop (length bs) (gbuf zs), gsize := int (length bs)\<rparr>"
    let ?zs1 = "?zs0\<lparr>roffset := 0, gsize := int (length bs) * 8 - (int n - 1)\<rparr>"
    have rf: "refill zs = (if bs = [] then Inr (False, ?zs0) else Inr (True, ?zs1))"
      using g n16 unfolding refill_renewed r bs_def by (simp add: Let_def geometry_def)
    show thesis
    proof (cases "bs = []")
      case True
      moreover have "reads_same zs ?zs0" by (cases zs) (simp add: reads_same_def)
      ultimately show thesis using that [of "-1" ?zs0] gr rf by simp
    next
      case False
      have g1: "geometry ?zs1" using g n n16 by (auto simp: geometry_def bs_def BITS_def)
      moreover have "roffset ?zs1 \<le> 128 - int (n_bits ?zs1)" using n16 by simp
      ultimately obtain c where c: "take_code ?zs1 = Inr (c, ?zs1\<lparr>roffset := roffset ?zs1 + int (n_bits ?zs1)\<rparr>)"
        "0 \<le> c" "c < 2 ^ n_bits ?zs1" using take_code_safe by blast
      let ?zs' = "?zs1\<lparr>roffset := int n\<rparr>"
      have "getcode zs = Inr (c, ?zs')" using False gr rf c(1) by simp
      moreover have "reads_same zs ?zs'" by (cases zs) (simp add: reads_same_def)
      moreover have "geometry ?zs'" using g1 by (simp add: geometry_def)
      moreover have "c < maxmaxcode zs" using c(3) mono [OF n(2)] by simp
      moreover have "(left_over ?zs', left_over zs) \<in> less_than <*lex*> less_than"
        using False n16 by (auto simp: left_over_def bs_def)
      ultimately show thesis using that c(2) by blast
    qed
  qed
qed

section \<open>The tables\<close>

text \<open>Every prefix is a smaller code.\<close>

definition descends :: "zreader \<Rightarrow> bool" where
  "descends zs \<longleftrightarrow> (\<forall>i. 256 \<le> i \<and> i < free_ent zs \<longrightarrow> 0 \<le> codetab zs i \<and> codetab zs i < i) \<and>
     256 \<le> free_ent zs \<and> (block_compress zs \<noteq> 0 \<longrightarrow> FIRST \<le> free_ent zs) \<and> free_ent zs \<le> 2 ^ BITS \<and> (oldcode zs = -1 \<or> 0 \<le> oldcode zs \<and> oldcode zs < free_ent zs)"

lemma chain_safe:
  assumes "\<forall>i. 256 \<le> i \<and> i < f \<longrightarrow> 0 \<le> codetab zs i \<and> codetab zs i < i" "f \<le> 2 ^ BITS"
  shows "0 \<le> c \<Longrightarrow> c < f \<or> c < 256 \<Longrightarrow> length st + nat c < DE_STACK \<Longrightarrow>
    \<exists>c0 st'. chain zs c st = Inr (c0, st') \<and> 0 \<le> c0 \<and> c0 < 256 \<and> length st' < DE_STACK"
proof (induction "nat c" arbitrary: c st rule: less_induct)
  case less
  show ?case
  proof (cases "c < 256")
    case True
    then show ?thesis using less by (subst chain.simps) auto
  next
    case False
    let ?b = "tab_suffix zs c" and ?p = "codetab zs c"
    have p: "0 \<le> ?p" "?p < c" "c < 2 ^ BITS" using assms less False by auto
    then have "\<exists>c0 st'. chain zs ?p (?b # st) = Inr (c0, st') \<and> 0 \<le> c0 \<and> c0 < 256 \<and> length st' < DE_STACK"
      using less(1) [of ?p "?b # st"] less(2-4) False by auto
    moreover have "suffix_of zs c = Inr ?b" "prefix_of zs c = Inr ?p" "push ?b st = Inr (?b # st)"
      using p less(2,4) by (auto simp: suffix_of_def prefix_of_def push_def HSIZE_def BITS_def)
    ultimately show ?thesis using False by (subst chain.simps) simp
  qed
qed

lemma expand_code_safe:
  assumes d: "descends zs" and st: "stack zs = []" and c: "0 \<le> c"
  obtains (bad) "expand_code zs c = Inr None"
    | (good) c0 st b where "expand_code zs c = Inr (Some (zs\<lparr>incode := c, code := c0, stack := st, finchar := b\<rparr>))"
        "st \<noteq> []" "c < free_ent zs \<or> c = free_ent zs \<and> oldcode zs \<noteq> -1"
proof (cases "c \<ge> free_ent zs \<and> (c > free_ent zs \<or> oldcode zs = -1)")
  case True
  then show thesis using bad by (simp add: expand_code_def)
next
  case False
  let ?zs1 = "zs\<lparr>code := c, incode := c\<rparr>"
  define c1 where "c1 = (if c \<ge> free_ent zs then oldcode zs else c)"
  define st1 :: bytes where "st1 = (if c \<ge> free_ent zs then [word_of_int (finchar zs)] else [])"
  have c1: "0 \<le> c1" "c1 < free_ent zs" using False d c by (auto simp: c1_def descends_def)
  then have "length st1 + nat c1 < DE_STACK"
    using d by (auto simp: st1_def DE_STACK_eq descends_def BITS_def)
  moreover have "\<forall>i. 256 \<le> i \<and> i < free_ent zs \<longrightarrow> 0 \<le> codetab ?zs1 i \<and> codetab ?zs1 i < i"
    "free_ent zs \<le> 2 ^ BITS" using d by (auto simp: descends_def)
  ultimately obtain c0 st' where ch: "chain ?zs1 c1 st1 = Inr (c0, st')" "0 \<le> c0" "c0 < 256" "length st' < DE_STACK"
    using chain_safe [of "free_ent zs" ?zs1 c1 st1] c1 by blast
  have sf: "suffix_of ?zs1 c0 = Inr (tab_suffix zs c0)" "push (tab_suffix zs c0) st' = Inr (tab_suffix zs c0 # st')"
    using ch by (simp_all add: suffix_of_def push_def BITS_def)
  have "expand_code zs c = Inr (Some (zs\<lparr>incode := c, code := c0, stack := tab_suffix zs c0 # st', finchar := uint (tab_suffix zs c0)\<rparr>))"
  proof (cases "c \<ge> free_ent zs")
    case True
    then have "chain ?zs1 (oldcode zs) [word_of_int (finchar zs)] = Inr (c0, st')" using ch(1) by (simp add: c1_def st1_def)
    moreover have "push (word_of_int (finchar zs)) [] = Inr [word_of_int (finchar zs)]" by (simp add: push_def DE_STACK_eq)
    ultimately show ?thesis using True False st sf by (simp add: expand_code_def)
  next
    case less: False
    then have "chain ?zs1 c [] = Inr (c0, st')" using ch(1) by (simp add: c1_def st1_def)
    then show ?thesis using less st sf by (simp add: expand_code_def)
  qed
  from good [OF this] False show thesis by auto
qed

section \<open>The loop\<close>

text \<open>At the head of the loop, and while the characters of a code are put out.\<close>

definition safe_head :: "zreader \<Rightarrow> bool" where
  "safe_head zs \<longleftrightarrow> geometry zs \<and> descends zs \<and> stack zs = [] \<and> state zs = S_MIDDLE"

definition safe_chars :: "zreader \<Rightarrow> bool" where
  "safe_chars zs \<longleftrightarrow> geometry zs \<and> descends zs \<and> stack zs \<noteq> [] \<and> state zs = S_MIDDLE \<and> 0 \<le> incode zs \<and>
     incode zs < maxmaxcode zs \<and> (incode zs < free_ent zs \<or> incode zs = free_ent zs \<and> oldcode zs \<noteq> -1)"

lemma geometry_same:
  assumes "geometry zs" "n_bits zs' = n_bits zs" "maxcode zs' = maxcode zs" "maxbits zs' = maxbits zs"
    "maxmaxcode zs' = maxmaxcode zs" "gbuf zs' = gbuf zs" "roffset zs' = roffset zs" "gsize zs' = gsize zs"
    "free_ent zs' \<le> maxmaxcode zs"
  shows "geometry zs'"
  using assms unfolding geometry_def by simp

lemma clear_table_safe:
  assumes "geometry zs" "descends zs" "stack zs = []" "state zs = S_MIDDLE" "block_compress zs \<noteq> 0"
  shows "safe_head (clear_table zs)" "left_over (clear_table zs) = left_over zs"
proof -
  have "FIRST \<le> maxmaxcode zs" using assms(1,2,5) by (auto simp: descends_def geometry_def)
  then have "geometry (clear_table zs)"
    by (intro geometry_same [OF assms(1)]) (auto simp: clear_table_def)
  then show "safe_head (clear_table zs)"
    using assms by (auto simp: safe_head_def descends_def clear_table_def FIRST_def BITS_def)
  show "left_over (clear_table zs) = left_over zs" by (simp add: left_over_def clear_table_def)
qed

lemma new_entry_safe:
  assumes "safe_chars zs"
  shows "safe_head (new_entry (zs\<lparr>stack := []\<rparr>))" "left_over (new_entry (zs\<lparr>stack := []\<rparr>)) = left_over zs"
proof -
  let ?zs' = "new_entry (zs\<lparr>stack := []\<rparr>)"
  have s: "geometry zs" "descends zs" "state zs = S_MIDDLE" "0 \<le> incode zs" "incode zs < maxmaxcode zs"
    "incode zs < free_ent zs \<or> incode zs = free_ent zs \<and> oldcode zs \<noteq> -1"
    using assms by (auto simp: safe_chars_def)
  have m: "maxmaxcode zs \<le> 2 ^ 16"
    using s(1) power_increasing [of "maxbits zs" 16 "2 :: int"] by (simp add: geometry_def BITS_def)
  have "geometry ?zs'"
    by (rule geometry_same [OF s(1)]) (use s(1) in \<open>auto simp: new_entry_def Let_def geometry_def\<close>)
  moreover have "descends ?zs'"
    using s(2,4-6) m by (auto simp: descends_def new_entry_def Let_def BITS_def)
  ultimately show "safe_head ?zs'" using s(3) by (simp add: safe_head_def new_entry_def Let_def)
  show "left_over ?zs' = left_over zs" by (simp add: left_over_def new_entry_def Let_def)
qed

lemma safe_chars_stack: "safe_chars zs \<Longrightarrow> st \<noteq> [] \<Longrightarrow> safe_chars (zs\<lparr>stack := st\<rparr>)"
  by (simp add: safe_chars_def geometry_def descends_def)

definition call_ok :: "(zret \<times> bytes \<times> zreader) zrun \<Rightarrow> bool" where
  "call_ok res \<longleftrightarrow> (\<exists>r bs zs'. res = Some (Inr (r, bs, zs')) \<and>
     (\<forall>k. r = Ret k \<longrightarrow> k = length bs \<and> (state zs' = S_EOF \<or> safe_chars zs')))"

lemma call_okI: "res = Some (Inr (Ret (length bs), bs, zs')) \<Longrightarrow> state zs' = S_EOF \<or> safe_chars zs' \<Longrightarrow> call_ok res"
  "res = Some (Inr (Fail e, bs, zs')) \<Longrightarrow> call_ok res"
  by (auto simp: call_ok_def)

lemma read_loop_safe: "safe_head zs \<Longrightarrow> call_ok (read_loop_z zs n acc)"
proof (induction "left_over zs" arbitrary: zs n acc rule: wf_induct_rule [OF wf_lex_prod [OF wf_less_than wf_less_than]])
  case 1
  have s: "geometry zs" "descends zs" "stack zs = []" "state zs = S_MIDDLE" using 1(2) by (auto simp: safe_head_def)
  obtain c zs1 where g: "getcode zs = Inr (c, zs1)" "reads_same zs zs1"
    "c = -1 \<or> 0 \<le> c \<and> c < maxmaxcode zs \<and> geometry zs1 \<and> (left_over zs1, left_over zs) \<in> less_than <*lex*> less_than"
    using getcode_safe [OF s(1)] .
  note same = reads_sameD [OF g(2)]
  show ?case
  proof (cases "c = -1")
    case True
    then have "read_loop_z zs n acc = Some (Inr (Ret (length acc), acc, zs1\<lparr>code := c, state := S_EOF\<rparr>))"
      using g(1) by (subst read_loop_z.simps) simp
    then show ?thesis by (rule call_okI) simp
  next
    case False
    then have c: "0 \<le> c" "c < maxmaxcode zs1" "geometry zs1" "(left_over zs1, left_over zs) \<in> less_than <*lex*> less_than"
      using g(3) same by auto
    have d: "descends zs1" using s(2) same by (simp add: descends_def)
    have s1: "stack zs1 = []" "state zs1 = S_MIDDLE" using same s by simp_all
    show ?thesis
    proof (cases "c = CLEAR \<and> block_compress zs1 \<noteq> 0")
      case True
      note t = clear_table_safe [OF c(3) d s1 conjunct2 [OF True]]
      have "read_loop_z zs n acc = read_loop_z (clear_table zs1) n acc"
        using g(1) True by (subst read_loop_z.simps) (simp add: CLEAR_def)
      then show ?thesis using 1(1) [OF _ t(1)] c(4) t(2) by simp
    next
      case no_clear: False
      show ?thesis
      proof (rule expand_code_safe [OF d s1(1) c(1)])
        assume "expand_code zs1 c = Inr None"
        then have "read_loop_z zs n acc = Some (Inr (Fail EINVAL, acc, zs1\<lparr>code := c, incode := c\<rparr>))"
          using g(1) c(1) no_clear by (subst read_loop_z.simps) auto
        then show ?thesis by (rule call_okI)
      next
        fix c0 st b
        let ?zs2 = "zs1\<lparr>incode := c, code := c0, stack := st, finchar := b\<rparr>"
        assume e: "expand_code zs1 c = Inr (Some ?zs2)" "st \<noteq> []" "c < free_ent zs1 \<or> c = free_ent zs1 \<and> oldcode zs1 \<noteq> -1"
        have s2: "safe_chars ?zs2" using c d s1 e by (simp add: safe_chars_def geometry_def descends_def)
        note em = emit_eq [OF e(2), of n acc]
        show ?thesis
        proof (cases "n < length st")
          case True
          then have "read_loop_z zs n acc = Some (Inr (Ret (length (acc @ take n st)), acc @ take n st, ?zs2\<lparr>stack := drop n st\<rparr>))"
            using g(1) c(1) no_clear e(1) em by (subst read_loop_z.simps) auto
          then show ?thesis using True safe_chars_stack [OF s2, of "drop n st"] by (intro call_okI) auto
        next
          case False
          then have "read_loop_z zs n acc = read_loop_z (new_entry (?zs2\<lparr>stack := []\<rparr>)) (n - length st) (acc @ st)"
            using g(1) c(1) no_clear e(1) em by (subst read_loop_z.simps) auto
          moreover have "left_over ?zs2 = left_over zs1" by (simp add: left_over_def)
          ultimately show ?thesis using 1(1) [OF _ new_entry_safe(1) [OF s2]] new_entry_safe(2) [OF s2] c(4) by simp
        qed
      qed
    qed
  qed
qed

section \<open>\<open>zread\<close>\<close>

text \<open>The reader as \<open>zopen\<close> makes it.\<close>

definition opened_r :: "zreader \<Rightarrow> bytes \<Rightarrow> bool" where
  "opened_r zs file \<longleftrightarrow> state zs = S_START \<and> zin zs = file \<and> gbuf zs = replicate BITS 0 \<and> \<not> clear_flg zs \<and>
     roffset zs = 0 \<and> gsize zs = 0 \<and> codetab zs 256 = 0"

text \<open>The first nine bits after the header make a character.\<close>

definition first_is_char :: "bytes \<Rightarrow> bool" where
  "first_is_char file \<longleftrightarrow> length file \<le> 4 \<or> \<not> bit (file ! 4) 0"

lemma below_bit:
  assumes "0 \<le> (c :: int)" "c < 2 ^ Suc n" "\<not> bit c n"
  shows "c < 2 ^ n"
proof -
  have s: "take_bit (Suc n) c = c" using assms by (intro take_bit_int_eq_self) auto
  have "take_bit n c = c"
  proof (rule bit_eqI)
    fix i
    have "bit c i \<longleftrightarrow> i < Suc n \<and> bit c i" by (subst s [symmetric]) (simp add: bit_take_bit_iff)
    then show "bit (take_bit n c) i \<longleftrightarrow> bit c i" using assms(3) by (auto simp: bit_take_bit_iff less_Suc_eq)
  qed
  then show ?thesis using take_bit_int_less_exp [of n c] by simp
qed

lemma first_code_char:
  assumes zs: "gbuf zs = replicate BITS 0" "n_bits zs = INIT_BITS" "\<not> free_ent zs > maxcode zs" "\<not> clear_flg zs"
      "roffset zs = 0" "gsize zs = 0"
    and b: "length (zin zs) \<le> 1 \<or> \<not> bit (zin zs ! 1) 0"
    and g: "getcode zs = Inr (c, zs')"
  shows "c < 256"
proof -
  define bs where "bs = take 9 (zin zs)"
  let ?zs1 = "zs\<lparr>zin := drop 9 (zin zs), gbuf := bs @ drop (length bs) (replicate BITS 0), roffset := 0, gsize := int (length bs) * 8 - 8\<rparr>"
  have r: "renewed zs = zs" using zs by (simp add: renewed_def)
  have gr: "getcode zs = (if bs = [] then Inr (-1, ?zs1\<lparr>gsize := 0\<rparr>) else take_code ?zs1)"
    using zs unfolding getcode_def refill_renewed r bs_def by (auto simp: Let_def INIT_BITS_def BITS_def)
  show ?thesis
  proof (cases "bs = []")
    case True
    then show ?thesis using g gr by simp
  next
    case False
    have pre: "9 \<le> n_bits ?zs1" "n_bits ?zs1 \<le> 16" "roffset ?zs1 = int 0" "0 + n_bits ?zs1 \<le> 8 * length (gbuf ?zs1)"
      using zs(2) by (simp_all add: INIT_BITS_def bs_def BITS_def)
    obtain c' where c': "take_code ?zs1 = Inr (c', ?zs1\<lparr>roffset := roffset ?zs1 + int (n_bits ?zs1)\<rparr>)"
      "0 \<le> c'" "c' < 2 ^ n_bits ?zs1"
      "\<And>i. i < n_bits ?zs1 \<Longrightarrow> bit c' i = bit (gbuf ?zs1 ! ((0 + i) div 8)) ((0 + i) mod 8)"
      using take_code_bits [OF pre] by blast
    have "\<not> bit (gbuf ?zs1 ! 1) 0"
    proof (cases "length bs \<le> 1")
      case True
      then have "length bs = 1" using False by (cases bs) auto
      then show ?thesis by (simp add: nth_append BITS_def)
    next
      case l: False
      then have "bs ! 1 = zin zs ! 1" "\<not> length (zin zs) \<le> 1" by (auto simp: bs_def)
      then show ?thesis using l b by (simp add: nth_append)
    qed
    then have "\<not> bit c' 8" using c'(4) [of 8] zs(2) by (simp add: INIT_BITS_def)
    moreover have "c' < 2 ^ Suc 8" using c'(3) zs(2) by (simp add: INIT_BITS_def)
    ultimately have "c' < 2 ^ 8" using below_bit [of c' 8] c'(2) by blast
    then show ?thesis using g gr False c'(1) by simp
  qed
qed

lemma zread_safe_first:
  assumes op: "opened_r zs file" and b: "first_is_char file" and n: "0 < n"
  shows "\<exists>r bs zs'. zread zs n = Some (Inr (r, bs, zs')) \<and>
    (\<forall>k. r = Ret k \<longrightarrow> k = length bs \<and> (k = 0 \<or> state zs' = S_EOF \<or> safe_chars zs'))"
proof -
  let ?h = "take 3 file"
  have start: "state zs = S_START" "zin zs = file" using op by (simp_all add: opened_r_def)
  define mb where "mb = unat ((?h ! 2) AND BIT_MASK)"
  show ?thesis
  proof (cases "length ?h < 3 \<or> take 2 ?h \<noteq> magic_header \<or> mb > BITS \<or> mb < 12")
    case True
    then show ?thesis using start n by (auto simp: zread_def Let_def mb_def)
  next
    case False
    define zs3 where "zs3 = (let z = init_tables (zs\<lparr>state := S_MIDDLE, zin := drop 3 file,
        block_compress := (?h ! 2) AND BLOCK_MASK, maxbits := mb, maxmaxcode := 2 ^ mb, n_bits := INIT_BITS,
        maxcode := MAXCODE INIT_BITS\<rparr>) in z\<lparr>free_ent := (if block_compress z \<noteq> 0 then FIRST else 256)\<rparr>)"
    have mb: "12 \<le> mb" "mb \<le> 16" using False by (auto simp: BITS_def)
    have m: "(2 :: int) ^ 12 \<le> 2 ^ mb" using mb by (intro power_increasing) auto
    have free: "free_ent zs3 = (if block_compress zs3 \<noteq> 0 then FIRST else 256)"
      by (simp add: zs3_def Let_def init_tables_def)
    have z3: "gbuf zs3 = replicate BITS 0" "n_bits zs3 = INIT_BITS" "maxbits zs3 = mb" "maxmaxcode zs3 = 2 ^ mb"
      "maxcode zs3 = MAXCODE INIT_BITS" "\<not> clear_flg zs3" "roffset zs3 = 0" "gsize zs3 = 0" "zin zs3 = drop 3 file"
      "codetab zs3 256 = 0" "state zs3 = S_MIDDLE"
      using op by (simp_all add: zs3_def Let_def init_tables_def opened_r_def)
    have g3: "geometry zs3"
      using z3 mb m free by (auto simp: geometry_def INIT_BITS_def BITS_def FIRST_def mcode_def)
    obtain c zs4 where g: "getcode zs3 = Inr (c, zs4)" "reads_same zs3 zs4" "c = -1 \<or> 0 \<le> c \<and> geometry zs4"
      using getcode_safe [OF g3] by metis
    note same = reads_sameD [OF g(2)]
    have "c < 256"
    proof (rule first_code_char [OF z3(1,2) _ z3(6-8) _ g(1)])
      show "\<not> free_ent zs3 > maxcode zs3" using free z3(5) by (auto simp: FIRST_def MAXCODE_def INIT_BITS_def)
      show "length (zin zs3) \<le> 1 \<or> \<not> bit (zin zs3 ! 1) 0" using b z3(9) by (auto simp: first_is_char_def)
    qed
    let ?zs5 = "zs4\<lparr>finchar := c, oldcode := c\<rparr>"
    have z: "zread zs n = (if c = -1 then Some (Inr (Ret 0, [], ?zs5)) else read_loop_z (?zs5\<lparr>stack := []\<rparr>) (n - 1) [word_of_int c])"
      using False n start g(1) unfolding zs3_def Let_def by (simp add: zread_def Let_def mb_def)
    show ?thesis
    proof (cases "c = -1")
      case True
      then show ?thesis using z by simp
    next
      case False
      have "geometry (?zs5\<lparr>stack := []\<rparr>)" using False g(3) by (simp add: geometry_def)
      moreover have "codetab zs3 i = 0" if "256 \<le> i" "i < free_ent zs3" for i
      proof -
        have "i = 256" using that free by (simp add: FIRST_def split: if_splits)
        then show ?thesis using z3(10) by simp
      qed
      then have "descends (?zs5\<lparr>stack := []\<rparr>)"
        using False g(3) same \<open>c < 256\<close> free by (auto simp: descends_def BITS_def FIRST_def)
      ultimately have "safe_head (?zs5\<lparr>stack := []\<rparr>)"
        using same z3(11) by (simp add: safe_head_def)
      then show ?thesis using z False read_loop_safe [of "?zs5\<lparr>stack := []\<rparr>" "n - 1" "[word_of_int c]"]
        by (auto simp: call_ok_def)
    qed
  qed
qed

lemma zread_safe_next:
  assumes s: "state zs = S_EOF \<or> safe_chars zs" and n: "0 < n"
  shows "call_ok (zread zs n)"
  using s
proof
  assume "state zs = S_EOF"
  then show ?thesis by (intro call_okI(1) [of _ "[]" zs]) (simp_all add: zread_def)
next
  assume s: "safe_chars zs"
  have st: "stack zs \<noteq> []" "state zs = S_MIDDLE" using s by (auto simp: safe_chars_def)
  note e = emit_eq [OF st(1), of n "[]"]
  show ?thesis
  proof (cases "n < length (stack zs)")
    case True
    then have "zread zs n = Some (Inr (Ret (length (take n (stack zs))), take n (stack zs), zs\<lparr>stack := drop n (stack zs)\<rparr>))"
      using n st e by (simp add: zread_def read_middle_def)
    then show ?thesis using True safe_chars_stack [OF s, of "drop n (stack zs)"] by (intro call_okI) auto
  next
    case False
    then have "zread zs n = read_loop_z (new_entry (zs\<lparr>stack := []\<rparr>)) (n - length (stack zs)) (stack zs)"
      using n st e by (simp add: zread_def read_middle_def)
    then show ?thesis using read_loop_safe [OF new_entry_safe(1) [OF s]] by simp
  qed
qed

end
