(* ===== verification/Z_Errs.thy ===== *)
theory Z_Errs
  imports Z_Write
begin

text \<open>
  Write errors: a call that reports success did what it does when no error can occur. So no data
  is lost without a report, whatever the outcomes of the stdio calls.
\<close>

definition carefree :: "zwriter \<Rightarrow> zwriter" where
  "carefree zs = zs\<lparr>wscript := []\<rparr>"

lemma carefree_simps [simp]:
  "state (carefree zs) = state zs" "n_bits (carefree zs) = n_bits zs" "maxbits (carefree zs) = maxbits zs"
  "maxcode (carefree zs) = maxcode zs" "maxmaxcode (carefree zs) = maxmaxcode zs" "codetab (carefree zs) = codetab zs"
  "hsize (carefree zs) = hsize zs" "free_ent (carefree zs) = free_ent zs" "block_compress (carefree zs) = block_compress zs"
  "clear_flg (carefree zs) = clear_flg zs" "ratio (carefree zs) = ratio zs" "checkpoint (carefree zs) = checkpoint zs"
  "offset (carefree zs) = offset zs" "in_count (carefree zs) = in_count zs" "bytes_out (carefree zs) = bytes_out zs"
  "out_count (carefree zs) = out_count zs" "buf (carefree zs) = buf zs" "htab (carefree zs) = htab zs"
  "ent (carefree zs) = ent zs" "hsize_reg (carefree zs) = hsize_reg zs" "hshift (carefree zs) = hshift zs"
  "zout (carefree zs) = zout zs" "wscript (carefree zs) = []"
  by (simp_all add: carefree_def)

lemma carefree_updates [simp]:
  "(carefree zs)\<lparr>state := a\<rparr> = carefree (zs\<lparr>state := a\<rparr>)"
  "(carefree zs)\<lparr>n_bits := n\<rparr> = carefree (zs\<lparr>n_bits := n\<rparr>)"
  "(carefree zs)\<lparr>maxcode := i\<rparr> = carefree (zs\<lparr>maxcode := i\<rparr>)"
  "(carefree zs)\<lparr>maxmaxcode := i\<rparr> = carefree (zs\<lparr>maxmaxcode := i\<rparr>)"
  "(carefree zs)\<lparr>codetab := t\<rparr> = carefree (zs\<lparr>codetab := t\<rparr>)"
  "(carefree zs)\<lparr>free_ent := i\<rparr> = carefree (zs\<lparr>free_ent := i\<rparr>)"
  "(carefree zs)\<lparr>clear_flg := f\<rparr> = carefree (zs\<lparr>clear_flg := f\<rparr>)"
  "(carefree zs)\<lparr>ratio := i\<rparr> = carefree (zs\<lparr>ratio := i\<rparr>)"
  "(carefree zs)\<lparr>checkpoint := i\<rparr> = carefree (zs\<lparr>checkpoint := i\<rparr>)"
  "(carefree zs)\<lparr>offset := n\<rparr> = carefree (zs\<lparr>offset := n\<rparr>)"
  "(carefree zs)\<lparr>in_count := i\<rparr> = carefree (zs\<lparr>in_count := i\<rparr>)"
  "(carefree zs)\<lparr>bytes_out := i\<rparr> = carefree (zs\<lparr>bytes_out := i\<rparr>)"
  "(carefree zs)\<lparr>out_count := i\<rparr> = carefree (zs\<lparr>out_count := i\<rparr>)"
  "(carefree zs)\<lparr>buf := b\<rparr> = carefree (zs\<lparr>buf := b\<rparr>)"
  "(carefree zs)\<lparr>htab := t\<rparr> = carefree (zs\<lparr>htab := t\<rparr>)"
  "(carefree zs)\<lparr>ent := i\<rparr> = carefree (zs\<lparr>ent := i\<rparr>)"
  "(carefree zs)\<lparr>hsize_reg := i\<rparr> = carefree (zs\<lparr>hsize_reg := i\<rparr>)"
  "(carefree zs)\<lparr>hshift := n\<rparr> = carefree (zs\<lparr>hshift := n\<rparr>)"
  "(carefree zs)\<lparr>zout := b\<rparr> = carefree (zs\<lparr>zout := b\<rparr>)"
  "carefree (zs\<lparr>wscript := s\<rparr>) = carefree zs"
  by (simp_all add: carefree_def)

lemma flush_full_ok: "flush_full zs = (True, zs') \<Longrightarrow> flush_full (carefree zs) = (True, carefree zs')"
  by (auto simp: flush_full_def z_fwrite_def carefree_def split: list.splits if_splits)

lemma change_width_ok: "change_width zs = (True, zs') \<Longrightarrow> change_width (carefree zs) = (True, carefree zs')"
  by (auto simp: change_width_def z_fwrite_def first_width_def widen_def Let_def carefree_def split: list.splits if_splits)

lemma output_code_ok: "output_code zs c = Inr (True, zs') \<Longrightarrow> output_code (carefree zs) c = Inr (True, carefree zs')"
proof -
  assume o: "output_code zs c = Inr (True, zs')"
  then obtain bs where bs: "put_code (n_bits zs) (offset zs) c (buf zs) = Inr bs"
    by (cases "put_code (n_bits zs) (offset zs) c (buf zs)") (auto simp: output_code_def)
  obtain zs1 where f: "flush_full (zs\<lparr>buf := bs, offset := offset zs + n_bits zs\<rparr>) = (True, zs1)" "change_width zs1 = (True, zs')"
    using o bs by (auto simp: output_code_def split: prod.splits if_splits)
  show ?thesis using bs flush_full_ok [OF f(1)] change_width_ok [OF f(2)] by (simp add: output_code_def)
qed

lemma output_eof_ok: "output_eof zs = (True, zs') \<Longrightarrow> output_eof (carefree zs) = (True, carefree zs')"
  by (auto simp: output_eof_def z_fwrite_def Let_def carefree_def split: list.splits if_splits)

lemma z_output_ok: "z_output zs c = Inr (True, zs') \<Longrightarrow> z_output (carefree zs) c = Inr (True, carefree zs')"
  by (auto simp: z_output_def output_code_ok output_eof_ok split: if_splits)

lemma cl_hash_carefree: "cl_hash (carefree zs) n = (case cl_hash zs n of Inl e \<Rightarrow> Inl e | Inr zs' \<Rightarrow> Inr (carefree zs'))"
  by (auto simp: cl_hash_def bind_r_def split: sum.splits)

lemma cl_block_ok: "cl_block zs = Inr (True, zs') \<Longrightarrow> cl_block (carefree zs) = Inr (True, carefree zs')"
  using z_output_ok
  by (auto simp: cl_block_def cl_ratio_def Let_def cl_hash_carefree bind_r_def split: sum.splits if_splits)

lemma nomatch_ok: "nomatch zs f i c = Inr (True, zs') \<Longrightarrow> nomatch (carefree zs) f i c = Inr (True, carefree zs')"
proof -
  assume n: "nomatch zs f i c = Inr (True, zs')"
  then obtain zs1 where o: "z_output zs (ent zs) = Inr (True, zs1)"
    by (cases "z_output zs (ent zs)") (auto simp: nomatch_def split: if_splits)
  show ?thesis using n o z_output_ok [OF o] cl_block_ok by (auto simp: nomatch_def Let_def split: if_splits)
qed

lemma htabof_carefree [simp]: "htabof (carefree zs) i = htabof zs i"
  by (simp add: htabof_def)

lemma probe_carefree:
  assumes "probe zs fc d i = Some r"
  shows "probe (carefree zs) fc d i = Some r"
  using assms
proof (induction rule: probe.raw_induct [rotated 1, consumes 1])
  case (1 prb zs fc d i r)
  then show ?case
    by (subst probe.simps) (auto simp: Let_def split: sum.splits if_splits)
qed

lemma find_slot_carefree: "find_slot zs fc c = Some r \<Longrightarrow> find_slot (carefree zs) fc c = Some r"
  using probe_carefree by (auto simp: find_slot_def Let_def split: sum.splits if_splits)

lemma write_char_ok:
  assumes "write_char zs b = Some (Inr (True, zs'))"
  shows "write_char (carefree zs) b = Some (Inr (True, carefree zs'))"
proof -
  let ?zs = "zs\<lparr>in_count := in_count zs + 1\<rparr>" and ?f = "push_bit (maxbits zs) (uint b) + ent zs"
  obtain i found where f: "find_slot ?zs ?f (uint b) = Some (Inr (i, found))"
    using assms by (auto simp: write_char_def bind_run_def Let_def split: option.splits sum.splits)
  show ?thesis
    using assms f find_slot_carefree [OF f] nomatch_ok [of ?zs] by (auto simp: write_char_def Let_def split: if_splits)
qed

lemma write_loop_ok:
  "write_loop bs zs = Some (Inr (True, zs')) \<Longrightarrow> write_loop bs (carefree zs) = Some (Inr (True, carefree zs'))"
proof (induction bs arbitrary: zs)
  case (Cons b bs)
  then obtain zs1 where w: "write_char zs b = Some (Inr (True, zs1))" "write_loop bs zs1 = Some (Inr (True, zs'))"
    by (auto simp: bind_run_def split: option.splits sum.splits if_splits)
  then show ?case using write_char_ok [OF w(1)] Cons.IH [OF w(2)] by simp
qed simp

lemma write_header_ok: "write_header zs = (True, zs') \<Longrightarrow> write_header (carefree zs) = (True, carefree zs')"
  by (auto simp: write_header_def z_fwrite_def carefree_def split: list.splits if_splits prod.splits)

lemma start_writing_ok: "start_writing zs b = Inr zs' \<Longrightarrow> start_writing (carefree zs) b = Inr (carefree zs')"
  by (simp add: start_writing_def Let_def cl_hash_carefree)

lemma zwrite_ok:
  assumes "zwrite zs bs = Some (Inr (Ret n, zs'))"
  shows "zwrite (carefree zs) bs = Some (Inr (Ret n, carefree zs'))"
proof (cases bs)
  case Nil
  then show ?thesis using assms by (simp add: zwrite_def)
next
  case (Cons b cs)
  show ?thesis
  proof (cases "state zs = S_MIDDLE")
    case True
    then have "write_loop bs zs = Some (Inr (True, zs'))" "n = length bs"
      using assms Cons by (auto simp: zwrite_def bind_run_def simp del: write_loop.simps split: option.splits sum.splits if_splits)
    then show ?thesis using True Cons write_loop_ok [of bs zs] by (simp add: zwrite_def del: write_loop.simps)
  next
    case False
    let ?zs = "zs\<lparr>state := S_MIDDLE, maxmaxcode := 2 ^ maxbits zs\<rparr>"
    obtain zs1 where h: "write_header ?zs = (True, zs1)"
      using assms Cons False by (auto simp: zwrite_def split: prod.splits if_splits)
    moreover obtain zs2 where s: "start_writing zs1 b = Inr zs2"
      using assms Cons False h by (cases "start_writing zs1 b") (auto simp: zwrite_def)
    ultimately have l: "write_loop cs zs2 = Some (Inr (True, zs'))" "n = length bs"
      using assms Cons False by (auto simp: zwrite_def bind_run_def simp del: write_loop.simps split: option.splits sum.splits if_splits)
    show ?thesis
      using False Cons write_header_ok [OF h] start_writing_ok [OF s] write_loop_ok [OF l(1)] l(2)
      by (simp add: zwrite_def del: write_loop.simps)
  qed
qed

lemma zclose_ok:
  assumes "zclose_w zs = Inr (True, file)"
  shows "zclose_w (carefree zs) = Inr (True, file)"
proof -
  obtain zs1 where o: "z_output zs (ent zs) = Inr (True, zs1)"
    using assms by (cases "z_output zs (ent zs)") (auto simp: zclose_w_def split: if_splits)
  let ?zs1 = "zs1\<lparr>out_count := out_count zs1 + 1\<rparr>"
  obtain zs2 where e: "z_output ?zs1 (-1) = Inr (True, zs2)" "zout zs2 = file"
    using assms o by (cases "z_output ?zs1 (-1)") (auto simp: zclose_w_def split: if_splits)
  show ?thesis using z_output_ok [OF o] z_output_ok [OF e(1)] e(2) by (simp add: zclose_w_def z_fclose_def)
qed

end
