(* ===== verification/Z_Props.thy ===== *)
theory Z_Props
  imports Z_Safe Z_Errs
begin

text \<open>
  What the library promises to its callers, \<open>compress\<close> and \<open>uncompress\<close>: data written in any
  portions and closed is read back in any portions; reading an arbitrary file is safe unless its
  first code is not a character.
\<close>

section \<open>Sequences of calls\<close>

fun zwrites :: "zwriter \<Rightarrow> bytes list \<Rightarrow> (zret list \<times> zwriter) zrun" where
  "zwrites zs [] = Some (Inr ([], zs))"
| "zwrites zs (b # bs) =
     bind_run (zwrite zs b) (\<lambda>(r, zs1). bind_run (zwrites zs1 bs) (\<lambda>(rs, zs2). Some (Inr (r # rs, zs2))))"

text \<open>A reader calls until it is told the end of the file or an error.\<close>

fun zreads :: "zreader \<Rightarrow> nat list \<Rightarrow> ((zret \<times> bytes) list \<times> zreader) zrun" where
  "zreads zs [] = Some (Inr ([], zs))"
| "zreads zs (n # ns) =
     bind_run (zread zs n) (\<lambda>(r, bs, zs1).
       case r of
         Ret (Suc k) \<Rightarrow> bind_run (zreads zs1 ns) (\<lambda>(rs, zs2). Some (Inr ((r, bs) # rs, zs2)))
       | _ \<Rightarrow> Some (Inr ([(r, bs)], zs1)))"

lemma zwrites_writing:
  assumes "writing mb zs gs cur T data" and mb: "12 \<le> mb" "mb \<le> 16"
  shows "\<exists>zs' gs' cur' T'. zwrites zs chunks = Some (Inr (map (Ret \<circ> length) chunks, zs')) \<and>
    writing mb zs' gs' cur' T' (data @ concat chunks)"
  using assms(1)
proof (induction chunks arbitrary: zs gs cur T data)
  case (Cons b chunks)
  obtain zs' gs' cur' T' where s: "zwrite zs b = Some (Inr (Ret (length b), zs'))"
    "writing mb zs' gs' cur' T' (data @ b)"
    using zwrite_next [OF Cons.prems mb] by blast
  then show ?case using Cons.IH [OF s(2)] by fastforce
qed auto

lemma zwrites_opened:
  assumes op: "opened_w mb zs" and mb: "12 \<le> mb" "mb \<le> 16" and ne: "concat chunks \<noteq> []"
  shows "\<exists>zs' gs cur T. zwrites zs chunks = Some (Inr (map (Ret \<circ> length) chunks, zs')) \<and>
    writing mb zs' gs cur T (concat chunks)"
  using ne
proof (induction chunks)
  case (Cons b chunks)
  show ?case
  proof (cases b)
    case Nil
    then show ?thesis using Cons by (fastforce simp: zwrite_def)
  next
    case (Cons x xs)
    obtain zs' gs cur T where s: "zwrite zs b = Some (Inr (Ret (length b), zs'))" "writing mb zs' gs cur T b"
      using zwrite_first [OF op mb, of x xs] Cons by auto
    then show ?thesis using zwrites_writing [OF s(2) mb, of chunks] by fastforce
  qed
qed simp

lemma zreads_delivers:
  assumes "holds mb zs rest" and mb: "12 \<le> mb" "mb \<le> 16" and "0 \<notin> set ns"
  shows "\<exists>rs zs'. zreads zs ns = Some (Inr (rs, zs')) \<and> (\<forall>(r, bs) \<in> set rs. r = Ret (length bs)) \<and>
    concat (map snd rs) = take (sum_list ns) rest"
  using assms(1,4)
proof (induction ns arbitrary: zs rest)
  case (Cons n ns)
  then obtain zs1 where z: "zread zs n = Some (Inr (Ret (min n (length rest)), take n rest, zs1))" "holds mb zs1 (drop n rest)"
    using zread_delivers [OF Cons.prems(1) mb, of n] by auto
  show ?case
  proof (cases "rest = []")
    case True
    then show ?thesis using z(1) by simp
  next
    case False
    then obtain k where k: "min n (length rest) = Suc k" using Cons.prems(2) by (cases n; cases rest) auto
    obtain rs zs' where "zreads zs1 ns = Some (Inr (rs, zs'))" "\<forall>(r, bs) \<in> set rs. r = Ret (length bs)"
      "concat (map snd rs) = take (sum_list ns) (drop n rest)"
      using Cons.IH [OF z(2)] Cons.prems(2) by auto
    moreover have "take (n + sum_list ns) rest = take n rest @ take (sum_list ns) (drop n rest)" by (rule take_add)
    moreover have "length (take n rest) = Suc k" using k by simp
    ultimately show ?thesis
      using z(1) [unfolded k]
      by (intro exI [of _ "(Ret (Suc k), take n rest) # rs"] exI [of _ zs']) (simp del: length_take)
  qed
qed simp

lemma zreads_safe:
  assumes "state zs = S_EOF \<or> safe_chars zs" "0 \<notin> set ns"
  shows "\<exists>rs zs'. zreads zs ns = Some (Inr (rs, zs'))"
  using assms
proof (induction ns arbitrary: zs)
  case (Cons n ns)
  then have "call_ok (zread zs n)" by (intro zread_safe_next) auto
  then obtain r bs zs1 where "zread zs n = Some (Inr (r, bs, zs1))"
    "\<forall>k. r = Ret k \<longrightarrow> state zs1 = S_EOF \<or> safe_chars zs1"
    by (auto simp: call_ok_def)
  then show ?case using Cons.IH [of zs1] Cons.prems(2) by (auto split: zret.splits nat.splits)
qed simp

section \<open>A file that overruns the stack\<close>

text \<open>The codes 258, 257, 65, 257: the second and third enter 257 and 258, each the other's prefix.\<close>

definition cyclic_codes :: "int list" where "cyclic_codes = [258, 257, 65, 257]"

definition cyclic_file :: bytes where
  "cyclic_file = magic_header @ [0x90] @ [0x02, 0x03, 0x06, 0x09, 0x08]"

lemma chain_cycles:
  assumes "codetab zs 257 = 258" "codetab zs 258 = 257"
  shows "c = 257 \<or> c = 258 \<Longrightarrow> chain zs c st = Inl Fault"
proof (induction "DE_STACK - length st" arbitrary: c st)
  case 0
  then show ?case by (subst chain.simps) (auto simp: suffix_of_def push_def BITS_def)
next
  case (Suc k)
  have "k = DE_STACK - length (tab_suffix zs c # st)" using Suc(2) by simp
  then have "chain zs (codetab zs c) (tab_suffix zs c # st) = Inl Fault"
    using Suc(1) [of "tab_suffix zs c # st" "codetab zs c"] Suc(3) assms by auto
  then show ?case using Suc(3)
    by (subst chain.simps) (auto simp: suffix_of_def prefix_of_def push_def BITS_def HSIZE_def)
qed

lemma cyclic_carries: "carries 9 cyclic_codes ([0x02, 0x03, 0x06, 0x09, 0x08] @ replicate 11 0)"
  unfolding carries_def cyclic_codes_def by code_simp

lemma cyclic_getcode:
  assumes "gbuf zs = [0x02, 0x03, 0x06, 0x09, 0x08] @ replicate 11 0" "n_bits zs = 9" "\<not> clear_flg zs" "gsize zs = 32"
    "maxcode zs = 511" "free_ent zs \<le> 511" "roffset zs = int (j * 9)" "j < 4"
  shows "getcode zs = Inr (cyclic_codes ! j, zs\<lparr>roffset := roffset zs + 9\<rparr>)"
proof -
  have "take_code zs = Inr (cyclic_codes ! j, zs\<lparr>roffset := roffset zs + int (n_bits zs)\<rparr>)"
  proof (rule take_code_carries)
    show "carries (n_bits zs) cyclic_codes (gbuf zs)" unfolding assms(1,2) by (rule cyclic_carries)
    show "0 \<le> cyclic_codes ! j" "cyclic_codes ! j < 2 ^ n_bits zs"
      using assms(2,8) by (auto simp: cyclic_codes_def nth_Cons' )
  qed (use assms in \<open>auto simp: cyclic_codes_def\<close>)
  then show ?thesis using assms by (simp add: getcode_def)
qed

lemma zread_cyclic:
  assumes op: "opened_r zs cyclic_file" and tabs: "codetab zs = (\<lambda>_. 0)" "tab_suffix zs = (\<lambda>_. 0)" and n: "5 \<le> n"
  shows "zread zs n = Some (Inl Fault)"
proof -
  let ?g = "[0x02, 0x03, 0x06, 0x09, 0x08] @ replicate 11 0 :: bytes"
  obtain m where m: "n = m + 5" using n by (metis le_add_diff_inverse2)
  define z0 where "z0 = (init_tables (zs\<lparr>state := S_MIDDLE, zin := [0x02, 0x03, 0x06, 0x09, 0x08], block_compress := BLOCK_MASK,
    maxbits := 16, maxmaxcode := 65536, n_bits := 9, maxcode := 511\<rparr>))\<lparr>free_ent := 257\<rparr>"
  define z1 where "z1 = z0\<lparr>zin := [], gbuf := ?g, gsize := 32, roffset := 0\<rparr>"
  define z2 where "z2 = z1\<lparr>roffset := 9, finchar := 258, oldcode := 258, stack := []\<rparr>"
  define z3 where "z3 = z2\<lparr>roffset := 18, incode := 257, code := 0, stack := [0, 0, 2], finchar := 0\<rparr>"
  define z4 where "z4 = new_entry (z3\<lparr>stack := []\<rparr>)"
  define z5 where "z5 = z4\<lparr>roffset := 27, incode := 65, code := 65, stack := [65], finchar := 65\<rparr>"
  define z6 where "z6 = new_entry (z5\<lparr>stack := []\<rparr>)"
  note defs = z0_def z1_def z2_def z3_def z4_def z5_def z6_def init_tables_def new_entry_def Let_def
  have r: "refill z0 = Inr (True, z1)"
    using op by (cases zs) (simp add: refill_def defs opened_r_def Let_def BITS_def)
  have g1: "getcode z1 = Inr (258, z1\<lparr>roffset := 9\<rparr>)"
    using op cyclic_getcode [of z1 0] by (simp add: defs opened_r_def cyclic_codes_def)
  then have g0: "getcode z0 = Inr (258, z1\<lparr>roffset := 9\<rparr>)"
    using r op by (simp add: getcode_def) (simp add: defs opened_r_def)
  have w: "[258 :: u8] = [2]" by simp
  have "zread zs n = read_loop_z z2 (4 + m) [258]"
    using g0 op m by (simp add: zread_def cyclic_file_def magic_header_def opened_r_def Let_def BIT_MASK_def BLOCK_MASK_def z2_def z0_def init_tables_def INIT_BITS_def MAXCODE_def FIRST_def BITS_def)
  also note w
  also have "read_loop_z z2 (4 + m) [2] = read_loop_z z4 (1 + m) [2, 0, 0, 2]"
  proof -
    have "getcode z2 = Inr (257, z2\<lparr>roffset := 18\<rparr>)"
      using op cyclic_getcode [of z2 1] by (simp add: defs opened_r_def cyclic_codes_def)
    moreover have "expand_code (z2\<lparr>roffset := 18\<rparr>) 257 = Inr (Some z3)"
      using tabs by (simp add: expand_code_def defs chain.simps suffix_of_def prefix_of_def push_def DE_STACK_eq BITS_def HSIZE_def)
    moreover have "emit (stack z3) (4 + m) [2] = Inr ([], Some (1 + m), [2, 0, 0, 2])" by (simp add: z3_def)
    ultimately show ?thesis by (subst read_loop_z.simps) (simp add: CLEAR_def z4_def)
  qed
  also have "\<dots> = read_loop_z z6 m [2, 0, 0, 2, 65]"
  proof -
    have "getcode z4 = Inr (65, z4\<lparr>roffset := 27\<rparr>)"
      using op cyclic_getcode [of z4 2] by (simp add: defs opened_r_def cyclic_codes_def)
    moreover have "expand_code (z4\<lparr>roffset := 27\<rparr>) 65 = Inr (Some z5)"
      using tabs by (simp add: expand_code_def defs chain.simps suffix_of_def prefix_of_def push_def DE_STACK_eq BITS_def HSIZE_def)
    moreover have "emit (stack z5) (1 + m) [2, 0, 0, 2] = Inr ([], Some m, [2, 0, 0, 2, 65])" by (simp add: z5_def)
    ultimately show ?thesis by (subst read_loop_z.simps) (simp add: CLEAR_def z6_def)
  qed
  also have "\<dots> = Some (Inl Fault)"
  proof -
    have "getcode z6 = Inr (257, z6\<lparr>roffset := 36\<rparr>)"
      using op cyclic_getcode [of z6 3] by (simp add: defs opened_r_def cyclic_codes_def)
    moreover have "expand_code (z6\<lparr>roffset := 36\<rparr>) 257 = Inl Fault"
      using chain_cycles [of "z6\<lparr>roffset := 36, code := 257, incode := 257\<rparr>" 257] by (simp add: expand_code_def) (simp add: defs)
    ultimately show ?thesis by (subst read_loop_z.simps) (simp add: CLEAR_def)
  qed
  finally show ?thesis .
qed

lemma zwrites_ok:
  "zwrites zs chunks = Some (Inr (map (Ret \<circ> length) chunks, zs')) \<Longrightarrow>
     zwrites (carefree zs) chunks = Some (Inr (map (Ret \<circ> length) chunks, carefree zs'))"
proof (induction chunks arbitrary: zs)
  case (Cons b chunks)
  then obtain zs1 where "zwrite zs b = Some (Inr (Ret (length b), zs1))"
    "zwrites zs1 chunks = Some (Inr (map (Ret \<circ> length) chunks, zs'))"
    by (auto simp: bind_run_def split: option.splits sum.splits)
  then show ?case using zwrite_ok [of zs b] Cons.IH [of zs1] by simp
qed simp

section \<open>Opened streams\<close>

definition width :: "int \<Rightarrow> nat" where
  "width bits = (if bits \<noteq> 0 then nat bits else BITS)"

lemma zopen_w:
  assumes "0 \<le> bits" "bits \<le> 16"
  obtains zw where "zopen ''w'' bits True True old past script = Inr (Zw zw)" "opened_w (width bits) (carefree zw)"
    "wscript zw = script"
  using assms that
  by (simp add: zopen_def Let_def opened_w_def zstate_init_def zstate.defs zwriter.defs width_def BITS_def)

lemma carefree_id: "wscript zw = [] \<Longrightarrow> carefree zw = zw"
  by (simp add: carefree_def)

lemma zopen_r:
  assumes "0 \<le> bits" "bits \<le> 16"
  obtains zr where "zopen ''r'' bits True True file past script = Inr (Zr zr)" "opened_r zr file"
    "codetab zr = (\<lambda>_. 0)" "tab_suffix zr = (\<lambda>_. 0)"
  using assms that
  by (simp add: zopen_def Let_def opened_r_def zstate_init_def zstate.defs zreader.defs BITS_def)

lemma opened_holds: "opened_r zr file \<Longrightarrow> complete mb file data \<Longrightarrow> holds mb zr data"
  by (simp add: opened_r_def holds_def)

text \<open>Writing without errors.\<close>

lemma written:
  assumes "opened_w mb zw" "12 \<le> mb" "mb \<le> 16" "concat chunks \<noteq> []"
  obtains zw' "file" where "zwrites zw chunks = Some (Inr (map (Ret \<circ> length) chunks, zw'))"
    "zclose_w zw' = Inr (True, file)" "complete mb file (concat chunks)"
proof -
  obtain zw' gs cur T where w: "zwrites zw chunks = Some (Inr (map (Ret \<circ> length) chunks, zw'))"
    "writing mb zw' gs cur T (concat chunks)"
    using zwrites_opened [OF assms] by blast
  then show thesis using zclose_completes [OF w(2) assms(2,3)] that by blast
qed

text \<open>Reading a complete file.\<close>

lemma read_back:
  assumes "complete mb file data" "12 \<le> mb" "mb \<le> 16" "0 \<le> rbits" "rbits \<le> 16" "0 \<notin> set ns"
  shows "\<exists>zr rs zr'. zopen ''r'' rbits True True file past script = Inr (Zr zr) \<and> zreads zr ns = Some (Inr (rs, zr')) \<and>
    (\<forall>(r, bs) \<in> set rs. r = Ret (length bs)) \<and> concat (map snd rs) = take (sum_list ns) data"
proof -
  obtain zr where o: "zopen ''r'' rbits True True file past script = Inr (Zr zr)" "opened_r zr file"
    using zopen_r [OF assms(4,5)] by metis
  then show ?thesis
    using zreads_delivers [OF opened_holds [OF o(2) assms(1)] assms(2,3,6)] by fastforce
qed

lemma width_ok: "bits = 0 \<or> 12 \<le> bits \<and> bits \<le> 16 \<Longrightarrow> 0 \<le> bits \<and> bits \<le> 16 \<and> 12 \<le> width bits \<and> width bits \<le> 16"
  by (auto simp: width_def BITS_def)

section \<open>Properties\<close>

text \<open>C1: What is written through \<open>zopen(path, "w", bits)\<close> in any portions and closed is read back
  through \<open>zopen(path, "r", ...)\<close> in any portions: every call returns, the writes report their
  lengths, \<open>zclose\<close> succeeds, each read reports the length of what it delivers, and the
  deliveries together are the first bytes of the data, all of it when enough was asked for. This
  covers the table growing full, the adaptive clearing and every change of the code width.\<close>

theorem zopen_roundtrip:
  assumes "bits = 0 \<or> 12 \<le> bits \<and> bits \<le> 16" "concat chunks \<noteq> []" "0 \<le> rbits" "rbits \<le> 16" "0 \<notin> set ns"
  shows "\<exists>zw zw' file zr rs zr'.
    zopen ''w'' bits True True old past [] = Inr (Zw zw) \<and>
    zwrites zw chunks = Some (Inr (map (Ret \<circ> length) chunks, zw')) \<and>
    zclose_w zw' = Inr (True, file) \<and>
    zopen ''r'' rbits True True file past script = Inr (Zr zr) \<and>
    zreads zr ns = Some (Inr (rs, zr')) \<and>
    (\<forall>(r, bs) \<in> set rs. r = Ret (length bs)) \<and>
    concat (map snd rs) = take (sum_list ns) (concat chunks)"
proof -
  note w = width_ok [OF assms(1)]
  obtain zw where o: "zopen ''w'' bits True True old past [] = Inr (Zw zw)" "opened_w (width bits) (carefree zw)"
    "wscript zw = []" using zopen_w w by metis
  have zw: "opened_w (width bits) zw" using carefree_id [OF o(3)] o(2) by simp
  obtain zw' "file" where "zwrites zw chunks = Some (Inr (map (Ret \<circ> length) chunks, zw'))"
    "zclose_w zw' = Inr (True, file)" "complete (width bits) file (concat chunks)"
    by (rule written [OF zw _ _ assms(2)]) (use w in auto)
  then show ?thesis using o(1) read_back [OF _ _ _ assms(3-5), of "width bits" "file" "concat chunks" past script] w by blast
qed

theorem zopen_roundtrip_witness:
  "\<exists>zw zw' file zr rs zr'.
    zopen ''w'' 12 True True [] 0 [] = Inr (Zw zw) \<and>
    zwrites zw [[65, 66], [65, 66, 65]] = Some (Inr ([Ret 2, Ret 3], zw')) \<and>
    zclose_w zw' = Inr (True, file) \<and>
    zopen ''r'' 0 True True file 0 [] = Inr (Zr zr) \<and>
    zreads zr [1, 1, 100] = Some (Inr (rs, zr')) \<and>
    concat (map snd rs) = [65, 66, 65, 66, 65]"
  using zopen_roundtrip [of 12 "[[65, 66], [65, 66, 65]]" 0 "[1, 1, 100]" "[]" 0 "[]"] by auto

text \<open>C35: No data is lost without a report. Whatever the outcomes of the stdio calls on the file: when
  every write reports its full length and \<open>zclose\<close> reports success, reading the file gives the
  data.\<close>

theorem zopen_reports_errors:
  assumes "bits = 0 \<or> 12 \<le> bits \<and> bits \<le> 16" "concat chunks \<noteq> []" "0 \<le> rbits" "rbits \<le> 16" "0 \<notin> set ns"
    "zopen ''w'' bits True True old past outcomes = Inr (Zw zw)"
    "zwrites zw chunks = Some (Inr (map (Ret \<circ> length) chunks, zw'))"
    "zclose_w zw' = Inr (True, file)"
  shows "\<exists>zr rs zr'.
    zopen ''r'' rbits True True file past script = Inr (Zr zr) \<and>
    zreads zr ns = Some (Inr (rs, zr')) \<and>
    (\<forall>(r, bs) \<in> set rs. r = Ret (length bs)) \<and>
    concat (map snd rs) = take (sum_list ns) (concat chunks)"
proof -
  note w = width_ok [OF assms(1)]
  have o: "opened_w (width bits) (carefree zw)"
    using zopen_w [of bits old past outcomes] w assms(6) by auto
  obtain zw1 file1 where "zwrites (carefree zw) chunks = Some (Inr (map (Ret \<circ> length) chunks, zw1))"
    "zclose_w zw1 = Inr (True, file1)" "complete (width bits) file1 (concat chunks)"
    by (rule written [OF o _ _ assms(2)]) (use w in auto)
  moreover have "zwrites (carefree zw) chunks = Some (Inr (map (Ret \<circ> length) chunks, carefree zw'))"
    using zwrites_ok [OF assms(7)] .
  ultimately have "complete (width bits) file (concat chunks)" using zclose_ok [OF assms(8)] by auto
  then show ?thesis using read_back [OF _ _ _ assms(3-5)] w by blast
qed

theorem zopen_reports_errors_witness:
  "\<exists>zw zw' file zr rs zr'.
    zopen ''w'' 0 True True [] 0 [] = Inr (Zw zw) \<and>
    zwrites zw [[65], [66]] = Some (Inr ([Ret 1, Ret 1], zw')) \<and>
    zclose_w zw' = Inr (True, file) \<and>
    zopen ''r'' 0 True True file 0 [] = Inr (Zr zr) \<and>
    zreads zr [5, 5] = Some (Inr (rs, zr')) \<and>
    concat (map snd rs) = [65, 66]"
proof -
  obtain zw where o: "zopen ''w'' 0 True True [] 0 [] = Inr (Zw zw)" "opened_w (width 0) (carefree zw)"
    "wscript zw = []" using zopen_w [of 0 "[]" 0 "[]"] by auto
  have zw: "opened_w (width 0) zw" using carefree_id [OF o(3)] o(2) by simp
  obtain zw' "file" where "zwrites zw [[65], [66]] = Some (Inr (map (Ret \<circ> length) [[65], [66 :: u8]], zw'))"
    "zclose_w zw' = Inr (True, file)"
    by (rule written [OF zw, of "[[65], [66]]"]) (auto simp: width_def BITS_def)
  then show ?thesis
    using o(1) zopen_reports_errors [of 0 "[[65], [66]]" 0 "[5, 5]" "[]" 0 "[]" zw zw' "file" "[]"] by auto
qed



text \<open>C36: The first code is not checked. A file of eight bytes whose first code is 258 makes the second
  and third code each the prefix of the other; expanding one of them then pushes characters until
  the stack, and with it the state's memory, is overrun.\<close>

theorem zread_overruns_stack:
  assumes "0 \<le> bits" "bits \<le> 16" "5 \<le> n"
  shows "length cyclic_file = 8 \<and>
    (\<exists>zr. zopen ''r'' bits True True cyclic_file past script = Inr (Zr zr) \<and> zread zr n = Some (Inl Fault))"
proof -
  obtain zr where "zopen ''r'' bits True True cyclic_file past script = Inr (Zr zr)" "opened_r zr cyclic_file"
    "codetab zr = (\<lambda>_. 0)" "tab_suffix zr = (\<lambda>_. 0)"
    using zopen_r [OF assms(1,2)] .
  then show ?thesis using zread_cyclic assms(3) by (auto simp: cyclic_file_def magic_header_def)
qed

theorem zread_overruns_stack_witness:
  "\<exists>zr. zopen ''r'' 0 True True cyclic_file 0 [] = Inr (Zr zr) \<and> zread zr 1024 = Some (Inl Fault)"
  using zread_overruns_stack [of 0 1024 0 "[]"] by simp

end
