(* ===== verification/Compress.thy ===== *)
theory Compress
  imports Z_Props
begin

text \<open>
  The command \<open>compress\<close>, alias \<open>uncompress\<close> and \<open>zcat\<close>: \<open>file_cmds-251/compress/compress.c\<close>, on top
  of the library of \<open>zopen.c\<close>.

  The world is a map from path names to files, the globals of the program, and scripts: the
  outcomes of the coming system calls (\<open>answers\<close>), of the reads of a plain input file, and of the
  stdio writes; when a script is used up everything succeeds. Standard input and output are the
  paths \<open>/dev/stdin\<close> and \<open>/dev/stdout\<close>, files that are not regular. Between a stream of \<open>funopen\<close> and
  the functions of \<open>zopen.c\<close> lies the buffering of stdio, which is a parameter: in which portions
  data are handed to \<open>zwrite\<close>, and how much is asked of \<open>zread\<close> at a time. Closing a stream twice
  is a \<open>Fault\<close>. Messages are data; the percentages in them are given by the two sizes.
\<close>

section \<open>The world\<close>

datatype c_errno = C_EPERM | C_ENOTSUP | C_OTHER

datatype c_diag =
  Warn string | Warn_exists string | Warn_suffix string | Warn_long string | Prompt string
  | Would_grow string | Compression string nat nat | Expansion string nat nat
  | Usage bool | Unknown_name | Illegal_bits string | Single_file

record cfile =
  fdata :: bytes
  fmode :: u16
  fuid :: int
  fgid :: int
  fflags :: int
  fatime :: int
  fmtime :: int

record cw =
  fs :: "string \<Rightarrow> cfile option"
  answers :: "c_errno option list"
  in_errors :: "nat option list"
  out_results :: "bool list"
  created :: cfile
  past_gbuf :: u8
  tty :: bool
  typed :: string
  eval :: nat
  force :: bool
  verbose :: bool
  cat :: bool
  diags :: "c_diag list"

record stdio =
  portions_now :: "bytes \<Rightarrow> bytes list \<times> bytes"
  portions_end :: "bytes \<Rightarrow> bytes list"
  bufsiz :: nat

definition S_ISREG :: "cfile \<Rightarrow> bool" where
  "S_ISREG f \<longleftrightarrow> fmode f AND S_IFMT = S_IFREG"

definition st_size :: "cfile \<Rightarrow> nat" where
  "st_size f = length (fdata f)"

definition say :: "c_diag \<Rightarrow> cw \<Rightarrow> cw" where
  "say d w = w\<lparr>diags := diags w @ [d]\<rparr>"

definition cwarn :: "string \<Rightarrow> cw \<Rightarrow> cw" where
  "cwarn s w = (say (Warn s) w)\<lparr>eval := 1\<rparr>"

definition cwarnx :: "c_diag \<Rightarrow> cw \<Rightarrow> cw" where
  "cwarnx d w = (say d w)\<lparr>eval := 1\<rparr>"

section \<open>System calls\<close>

definition ask :: "cw \<Rightarrow> c_errno option \<times> cw" where
  "ask w = (case answers w of [] \<Rightarrow> (None, w) | a # as \<Rightarrow> (a, w\<lparr>answers := as\<rparr>))"

definition c_stat :: "string \<Rightarrow> cw \<Rightarrow> cfile option \<times> cw" where
  "c_stat p w = (case ask w of (a, w1) \<Rightarrow> (if a = None then fs w1 p else None, w1))"

definition unlink :: "string \<Rightarrow> cw \<Rightarrow> bool \<times> cw" where
  "unlink p w =
     (case ask w of (a, w1) \<Rightarrow>
        if a = None \<and> fs w1 p \<noteq> None then (True, w1\<lparr>fs := (fs w1)(p := None)\<rparr>) else (False, w1))"

text \<open>What \<open>fopen(path, "w")\<close> does to the path.\<close>

definition open_w :: "string \<Rightarrow> cw \<Rightarrow> cw" where
  "open_w p w =
     w\<lparr>fs := (fs w)(p \<mapsto>
       (case fs w p of
          None \<Rightarrow> (created w)\<lparr>fdata := []\<rparr>
        | Some f \<Rightarrow> if S_ISREG f then f\<lparr>fdata := []\<rparr> else f))\<rparr>"

definition contents_at :: "string \<Rightarrow> cw \<Rightarrow> bytes" where
  "contents_at p w = (case fs w p of None \<Rightarrow> [] | Some f \<Rightarrow> fdata f)"

text \<open>The bytes that reached an open file are in it, unless it was unlinked.\<close>

definition settle :: "string \<Rightarrow> bytes \<Rightarrow> cw \<Rightarrow> cw" where
  "settle p bs w =
     (case fs w p of None \<Rightarrow> w | Some f \<Rightarrow> w\<lparr>fs := (fs w)(p \<mapsto> f\<lparr>fdata := bs\<rparr>)\<rparr>)"

definition change :: "string \<Rightarrow> (cfile \<Rightarrow> cfile) \<Rightarrow> cw \<Rightarrow> c_errno option \<times> cw" where
  "change p f w =
     (case ask w of (a, w1) \<Rightarrow>
        (case fs w1 p of
           None \<Rightarrow> (Some C_OTHER, w1)
         | Some x \<Rightarrow> if a = None then (None, w1\<lparr>fs := (fs w1)(p \<mapsto> f x)\<rparr>) else (a, w1)))"

section \<open>Streams\<close>

text \<open>A plain file being read: a read error delivers some bytes and sets the error flag.\<close>

record ifile =
  i_rest :: bytes
  i_err :: bool

definition fread_in :: "ifile \<Rightarrow> cw \<Rightarrow> bytes \<times> ifile \<times> cw" where
  "fread_in i w =
     (case in_errors w of
        [] \<Rightarrow> (take 1024 (i_rest i), i\<lparr>i_rest := drop 1024 (i_rest i)\<rparr>, w)
      | None # es \<Rightarrow> (take 1024 (i_rest i), i\<lparr>i_rest := drop 1024 (i_rest i)\<rparr>, w\<lparr>in_errors := es\<rparr>)
      | Some k # es \<Rightarrow>
          let n = min k 1023 in
          (take n (i_rest i), i\<lparr>i_rest := drop n (i_rest i), i_err := True\<rparr>, w\<lparr>in_errors := es\<rparr>))"

text \<open>A stream of \<open>zopen\<close> being written.\<close>

record zofile =
  o_z :: zwriter
  o_pending :: bytes

fun put_all :: "zwriter \<Rightarrow> bytes list \<Rightarrow> (bool \<times> zwriter) zrun" where
  "put_all z [] = Some (Inr (True, z))"
| "put_all z (p # ps) =
     bind_run (zwrite z p) (\<lambda>(r, z1).
       if r = Ret (length p) then put_all z1 ps else Some (Inr (False, z1)))"

definition fwrite_z :: "stdio \<Rightarrow> bytes \<Rightarrow> zofile \<Rightarrow> (bool \<times> zofile) zrun" where
  "fwrite_z sd bs ofl =
     (case portions_now sd (o_pending ofl @ bs) of (ps, rest) \<Rightarrow>
        bind_run (put_all (o_z ofl) ps) (\<lambda>(ok, z). Some (Inr (ok, \<lparr>o_z = z, o_pending = rest\<rparr>))))"

definition fclose_z :: "stdio \<Rightarrow> zofile \<Rightarrow> (bool \<times> bytes) zrun" where
  "fclose_z sd ofl =
     bind_run (put_all (o_z ofl) (portions_end sd (o_pending ofl))) (\<lambda>(ok, z).
     bind_run (Some (zclose_w z)) (\<lambda>(ok2, bs). Some (Inr (ok \<and> ok2, bs))))"

text \<open>A stream of \<open>zopen\<close> being read.\<close>

record zfile =
  z_reader :: zreader
  z_avail :: bytes
  z_eof :: bool
  z_err :: bool

function fread_z :: "stdio \<Rightarrow> nat \<Rightarrow> zfile \<Rightarrow> (bytes \<times> zfile) zrun" where
  "fread_z sd n r =
     (if n \<le> length (z_avail r) \<or> z_eof r
      then Some (Inr (take n (z_avail r), r\<lparr>z_avail := drop n (z_avail r)\<rparr>))
      else bind_run (zread (z_reader r) (bufsiz sd)) (\<lambda>(ret, bs, z).
        let r1 = r\<lparr>z_reader := z\<rparr> in
        case ret of
          Fail e \<Rightarrow> Some (Inr (z_avail r, r1\<lparr>z_avail := [], z_err := True\<rparr>))
        | Ret k \<Rightarrow>
            if bs = [] then Some (Inr (z_avail r, r1\<lparr>z_avail := [], z_eof := True\<rparr>))
            else fread_z sd n (r1\<lparr>z_avail := z_avail r @ bs\<rparr>)))"
  by pat_completeness auto
termination
  by (relation "measure (\<lambda>(sd, n, r). n - length (z_avail r))") (auto simp: neq_Nil_conv)

declare fread_z.simps [simp del]

text \<open>\<open>fwrite\<close> to a plain file: whether all of it was written.\<close>

definition fwrite_out :: "cw \<Rightarrow> bool \<times> cw" where
  "fwrite_out w =
     (case out_results w of [] \<Rightarrow> (True, w) | ok # oks \<Rightarrow> (ok, w\<lparr>out_results := oks\<rparr>))"

section \<open>Attributes\<close>

definition warn_unless :: "bool \<Rightarrow> string \<Rightarrow> c_errno option \<times> cw \<Rightarrow> cw" where
  "warn_unless silent s r = (if fst r = None \<or> silent then snd r else cwarn s (snd r))"

text \<open>\<open>setfile\<close>; the mode bits it copies are \<open>S_ISUID|S_ISGID|S_IRWXU|S_IRWXG|S_IRWXO\<close>.\<close>

definition setfile :: "string \<Rightarrow> cfile \<Rightarrow> cw \<Rightarrow> cw" where
  "setfile name st w0 =
     (let mode = fmode st AND 0xDFF;
          w1 = warn_unless False (''utimes: '' @ name) (change name (\<lambda>f. f\<lparr>fatime := fatime st, fmtime := fmtime st\<rparr>) w0);
          owned = change name (\<lambda>f. f\<lparr>fuid := fuid st, fgid := fgid st\<rparr>) w1;
          w2 = warn_unless (fst owned = Some C_EPERM) (''chown: '' @ name) owned;
          mode2 = (if fst owned = None then mode else mode AND NOT 0xC00);
          moded = change name (\<lambda>f. f\<lparr>fmode := (fmode f AND S_IFMT) OR mode2\<rparr>) w2;
          w3 = warn_unless (fst moded = Some C_ENOTSUP) (''chmod: '' @ name) moded;
          reflagged = change name (\<lambda>f. f\<lparr>fflags := fflags st\<rparr>) w3 in
      warn_unless (fst reflagged = Some C_ENOTSUP) (''chflags: '' @ name) reflagged)"

definition permission :: "string \<Rightarrow> cw \<Rightarrow> bool \<times> cw" where
  "permission name w =
     (if \<not> tty w then (False, w)
      else (typed w \<noteq> [] \<and> hd (typed w) = CHR ''y'',
            (say (Prompt name) w)\<lparr>typed := drop 1 (dropWhile (\<lambda>c. c \<noteq> CHR 0x0A) (typed w))\<rparr>))"

text \<open>The guard both operations start with: whether to go on.\<close>

definition may_write :: "string \<Rightarrow> cfile option \<Rightarrow> cw \<Rightarrow> bool \<times> cw" where
  "may_write out sb w =
     (if \<not> force w \<and> sb \<noteq> None \<and> S_ISREG (the sb) \<and> \<not> cat w then permission out w else (True, w))"

definition say_ratio :: "string \<Rightarrow> nat \<Rightarrow> nat \<Rightarrow> cw \<Rightarrow> cw" where
  "say_ratio out isize osize w =
     (if \<not> verbose w then w
      else say (if isize > osize then Compression out osize isize else Expansion out isize osize) w)"

section \<open>\<open>compress\<close>\<close>

definition zopen_out :: "string \<Rightarrow> int \<Rightarrow> cw \<Rightarrow> zwriter option \<times> cw" where
  "zopen_out out bits w =
     (case ask w of (a, w1) \<Rightarrow> case ask w1 of (b, w2) \<Rightarrow>
        (case zopen ''w'' bits (a = None) (b = None) [] (past_gbuf w2) (out_results w2) of
           Inr (Zw z) \<Rightarrow> (Some z, open_w out w2)
         | _ \<Rightarrow> (None, w2)))"

function comp_copy_loop :: "stdio \<Rightarrow> ifile \<Rightarrow> zofile \<Rightarrow> cw \<Rightarrow> (bool \<times> ifile \<times> zofile \<times> cw) zrun" where
  "comp_copy_loop sd i ofl w =
     (case fread_in i w of (bs, i1, w1) \<Rightarrow>
        if bs = [] then Some (Inr (True, i1, ofl, w1))
        else bind_run (fwrite_z sd bs ofl) (\<lambda>(ok, o1).
          if ok then comp_copy_loop sd i1 o1 w1 else Some (Inr (False, i1, o1, w1))))"
  by pat_completeness auto
termination
  by (relation "measure (\<lambda>(sd, i, ofl, w). length (i_rest i))")
    (auto simp: fread_in_def Let_def split: list.splits option.splits)

declare comp_copy_loop.simps [simp del]

text \<open>The label \<open>err\<close> with the output open.\<close>

definition comp_err :: "stdio \<Rightarrow> string \<Rightarrow> bool \<Rightarrow> bytes \<Rightarrow> zofile \<Rightarrow> cw \<Rightarrow> cw zrun" where
  "comp_err sd out oreg base ofl w =
     (let w1 = (if \<not> cat w \<and> oreg then snd (unlink out w) else w) in
      bind_run (fclose_z sd ofl) (\<lambda>(_, bs). Some (Inr (settle out (base @ bs) w1))))"

text \<open>After both files are closed.\<close>

definition comp_finish :: "string \<Rightarrow> string \<Rightarrow> cfile \<Rightarrow> cw \<Rightarrow> cw" where
  "comp_finish inp out isb w =
     (case c_stat out w of
        (None, w1) \<Rightarrow> cwarn out w1
      | (Some sb, w1) \<Rightarrow>
          if \<not> force w1 \<and> st_size sb \<ge> st_size isb then
            let w2 = (if verbose w1 then say (Would_grow inp) w1 else w1)\<lparr>eval := 2\<rparr> in
            case unlink out w2 of (ok, w3) \<Rightarrow> if ok then w3 else cwarn out w3
          else
            case unlink inp (setfile out isb w1) of (ok, w3) \<Rightarrow>
              say_ratio out (st_size isb) (st_size sb) (if ok then w3 else cwarn inp w3))"

definition comp_copy :: "stdio \<Rightarrow> string \<Rightarrow> string \<Rightarrow> bool \<Rightarrow> cfile \<Rightarrow> zwriter \<Rightarrow> cw \<Rightarrow> cw zrun" where
  "comp_copy sd inp out oreg isb z w =
     (let base = contents_at out w in
      bind_run (comp_copy_loop sd \<lparr>i_rest = contents_at inp w, i_err = False\<rparr> \<lparr>o_z = z, o_pending = []\<rparr> w)
        (\<lambda>(ok, i, ofl, w1).
          if \<not> ok then comp_err sd out oreg base ofl (cwarn out w1)
          else if i_err i then comp_err sd out oreg base ofl (cwarn inp w1)
          else case ask w1 of (a, w2) \<Rightarrow>
            if a \<noteq> None
            then bind_run (comp_err sd out oreg base ofl (cwarn inp w2)) (\<lambda>_. Some (Inl Fault))
            else bind_run (fclose_z sd ofl) (\<lambda>(ok2, bs).
              if \<not> ok2 then Some (Inl Fault)
              else let w3 = settle out (base @ bs) w2 in
                Some (Inr (if \<not> cat w3 \<and> oreg \<and> S_ISREG isb then comp_finish inp out isb w3 else w3)))))"

definition compress :: "stdio \<Rightarrow> string \<Rightarrow> string \<Rightarrow> int \<Rightarrow> cw \<Rightarrow> cw zrun" where
  "compress sd inp out bits w =
     (case c_stat out w of (sb, w1) \<Rightarrow>
      case may_write out sb w1 of (go, w2) \<Rightarrow>
        if \<not> go then Some (Inr (cwarnx (Warn_exists out) w2))
        else case ask w2 of (a, w3) \<Rightarrow>
          if a \<noteq> None \<or> fs w3 inp = None then Some (Inr (cwarn inp w3))
          else case c_stat inp w3 of
            (None, w4) \<Rightarrow> Some (Inr (cwarn inp w4))
          | (Some isb, w4) \<Rightarrow>
              (case zopen_out out bits w4 of
                 (None, w5) \<Rightarrow> Some (Inr (cwarn out w5))
               | (Some z, w5) \<Rightarrow>
                   comp_copy sd inp out (sb = None \<or> S_ISREG (the sb)) isb z w5))"

section \<open>\<open>decompress\<close>\<close>

definition zopen_in :: "string \<Rightarrow> int \<Rightarrow> cw \<Rightarrow> zreader option \<times> cw" where
  "zopen_in inp bits w =
     (case ask w of (a, w1) \<Rightarrow> case ask w1 of (b, w2) \<Rightarrow>
        (case zopen ''r'' bits (a = None) (b = None \<and> fs w2 inp \<noteq> None) (contents_at inp w2) (past_gbuf w2) [] of
           Inr (Zr z) \<Rightarrow> (Some z, w2)
         | _ \<Rightarrow> (None, w2)))"

text \<open>The copying loop: whether no write failed, and what was written.\<close>

partial_function (option) decomp_loop :: "stdio \<Rightarrow> zfile \<Rightarrow> bytes \<Rightarrow> cw \<Rightarrow> (bool \<times> zfile \<times> bytes \<times> cw) zrun" where
  "decomp_loop sd r acc w =
     (case fread_z sd 1024 r of
        None \<Rightarrow> None
      | Some res \<Rightarrow>
          (case res of
             Inl e \<Rightarrow> Some (Inl e)
           | Inr (bs, r1) \<Rightarrow>
               if bs = [] then Some (Inr (True, r1, acc, w))
               else (case fwrite_out w of (ok, w1) \<Rightarrow>
                 if ok then decomp_loop sd r1 (acc @ bs) w1 else Some (Inr (False, r1, acc, w1)))))"

declare decomp_loop.simps [code]

definition decomp_err :: "string \<Rightarrow> bool \<Rightarrow> bytes \<Rightarrow> cw \<Rightarrow> cw" where
  "decomp_err out oreg bs w =
     settle out bs (if \<not> cat w \<and> oreg then snd (unlink out w) else w)"

definition decomp_finish :: "string \<Rightarrow> string \<Rightarrow> cfile \<Rightarrow> cw \<Rightarrow> cw" where
  "decomp_finish inp out sb w =
     (case unlink inp (setfile out sb w) of (ok, w1) \<Rightarrow>
        let w2 = (if ok then w1 else cwarn inp w1) in
        if \<not> verbose w2 then w2
        else case c_stat out w2 of (sb2, w3) \<Rightarrow>
          say_ratio out (st_size sb) (case sb2 of None \<Rightarrow> st_size sb | Some f \<Rightarrow> st_size f) w3)"

definition decomp_copy :: "stdio \<Rightarrow> string \<Rightarrow> string \<Rightarrow> bool \<Rightarrow> cfile \<Rightarrow> bytes \<Rightarrow> zfile \<Rightarrow> cw \<Rightarrow> cw zrun" where
  "decomp_copy sd inp out oreg sb bs r w =
     (let base = contents_at out w in
      case fwrite_out w of (ok, w1) \<Rightarrow>
        if \<not> ok then Some (Inr (cwarn out w1))
        else bind_run (decomp_loop sd r (base @ bs) w1) (\<lambda>(ok2, r1, data, w2).
          if \<not> ok2 then Some (Inr (decomp_err out oreg data (cwarn out w2)))
          else if z_err r1 then Some (Inr (decomp_err out oreg data (cwarn inp w2)))
          else case ask w2 of (a, w3) \<Rightarrow>
            if a \<noteq> None then Some (Inl Fault)
            else case fwrite_out w3 of (ok3, w4) \<Rightarrow>
              if \<not> ok3 then Some (Inl Fault)
              else let w5 = settle out data w4 in
                Some (Inr (if \<not> cat w5 \<and> oreg \<and> S_ISREG sb then decomp_finish inp out sb w5 else w5))))"

definition decompress :: "stdio \<Rightarrow> string \<Rightarrow> string \<Rightarrow> int \<Rightarrow> cw \<Rightarrow> cw zrun" where
  "decompress sd inp out bits w =
     (case c_stat out w of (sb0, w1) \<Rightarrow>
      case may_write out sb0 w1 of (go, w2) \<Rightarrow>
        if \<not> go then Some (Inr (cwarnx (Warn_exists out) w2))
        else case zopen_in inp bits w2 of
          (None, w3) \<Rightarrow> Some (Inr (cwarn inp w3))
        | (Some z, w3) \<Rightarrow>
            (case c_stat inp w3 of
               (None, w4) \<Rightarrow> Some (Inr (cwarn inp w4))
             | (Some sb, w4) \<Rightarrow>
                 bind_run (fread_z sd 1024 \<lparr>z_reader = z, z_avail = [], z_eof = False, z_err = False\<rparr>) (\<lambda>(bs, r).
                   if bs = [] then Some (Inr (cwarn inp w4))
                   else case ask w4 of (a, w5) \<Rightarrow>
                     if a \<noteq> None then Some (Inr (cwarn out w5))
                     else decomp_copy sd inp out (sb0 = None \<or> S_ISREG (the sb0)) sb bs r (open_w out w5))))"

section \<open>\<open>main\<close>\<close>

datatype style = COMPRESS | DECOMPRESS

text \<open>\<open>rindex\<close>: the string from the last occurrence of a character on.\<close>

definition rindex :: "string \<Rightarrow> char \<Rightarrow> string option" where
  "rindex s c = (if c \<in> set s then Some (c # rev (takeWhile (\<lambda>x. x \<noteq> c) (rev s))) else None)"

definition MAXPATHLEN :: nat where "MAXPATHLEN = 1024"

definition style_of :: "string \<Rightarrow> (style \<times> bool) option" where
  "style_of argv0 =
     (let p = (case rindex argv0 CHR ''/'' of None \<Rightarrow> argv0 | Some q \<Rightarrow> tl q) in
      if p = ''uncompress'' then Some (DECOMPRESS, False)
      else if p = ''compress'' then Some (COMPRESS, False)
      else if p = ''zcat'' then Some (DECOMPRESS, True)
      else None)"

text \<open>The options; \<open>Inl\<close> is an exit with status 1.\<close>

fun options :: "optev list \<Rightarrow> style \<Rightarrow> int \<Rightarrow> cw \<Rightarrow> cw + (style \<times> int \<times> cw)" where
  "options [] st bits w = Inr (st, bits, w)"
| "options (Opt c a # evs) st bits w =
     (if c = CHR ''b'' then
        (case strtol_10 (- (2 ^ 31)) (2 ^ 31 - 1) (the a) of (v, p, _, _) \<Rightarrow>
           if p \<noteq> [] then Inl (say (Illegal_bits (the a)) w) else options evs st v w)
      else if c = CHR ''c'' then options evs st bits (w\<lparr>cat := True\<rparr>)
      else if c = CHR ''d'' then options evs DECOMPRESS bits w
      else if c = CHR ''f'' then options evs st bits (w\<lparr>force := True\<rparr>)
      else options evs st bits (w\<lparr>verbose := True\<rparr>))"
| "options (_ # evs) st bits w = Inl (say (Usage (st = COMPRESS)) w)"

definition has_Z :: "string \<Rightarrow> bool" where
  "has_Z s \<longleftrightarrow> rindex s CHR ''.'' = Some ''.Z''"

definition c_operand :: "stdio \<Rightarrow> style \<Rightarrow> int \<Rightarrow> string \<Rightarrow> cw \<Rightarrow> cw zrun" where
  "c_operand sd st bits arg w =
     (case st of
        COMPRESS \<Rightarrow>
          if arg = ''-'' then compress sd ''/dev/stdin'' ''/dev/stdout'' bits (w\<lparr>cat := True\<rparr>)
          else if cat w then compress sd arg ''/dev/stdout'' bits w
          else if has_Z arg then Some (Inr (cwarnx (Warn_suffix arg) w))
          else if length arg > MAXPATHLEN - 3 then Some (Inr (cwarnx (Warn_long arg) w))
          else compress sd arg (arg @ ''.Z'') bits w
      | DECOMPRESS \<Rightarrow>
          if arg = ''-'' then decompress sd ''/dev/stdin'' ''/dev/stdout'' bits (w\<lparr>cat := True\<rparr>)
          else if \<not> has_Z arg then
            if length arg > MAXPATHLEN - 3 then Some (Inr (cwarnx (Warn_long arg) w))
            else decompress sd (arg @ ''.Z'') (if cat w then ''/dev/stdout'' else arg) bits w
          else
            if length arg - 2 > MAXPATHLEN - 1 then Some (Inr (cwarnx (Warn_long arg) w))
            else decompress sd arg (if cat w then ''/dev/stdout'' else take (length arg - 2) arg) bits w)"

fun c_operands :: "stdio \<Rightarrow> style \<Rightarrow> int \<Rightarrow> string list \<Rightarrow> cw \<Rightarrow> cw zrun" where
  "c_operands sd st bits [] w = Some (Inr w)"
| "c_operands sd st bits (arg # args) w = bind_run (c_operand sd st bits arg w) (c_operands sd st bits args)"

text \<open>\<open>main\<close>: the exit status and the world. The globals start as zero.\<close>

definition compress_main :: "stdio \<Rightarrow> string list \<Rightarrow> cw \<Rightarrow> (nat \<times> cw) zrun" where
  "compress_main sd argv w =
     (case argv of
        [] \<Rightarrow> Some (Inr (1, say (Usage True) w))
      | argv0 # args \<Rightarrow>
          (case style_of argv0 of
             None \<Rightarrow> Some (Inr (1, say Unknown_name w))
           | Some (st0, zcat) \<Rightarrow>
               (case getopt ''b:cdfv'' args of (evs, rest) \<Rightarrow>
                  (case options evs st0 0 (w\<lparr>eval := 0, force := False, verbose := False, cat := zcat\<rparr>) of
                     Inl w1 \<Rightarrow> Some (Inr (1, w1))
                   | Inr (st, bits, w1) \<Rightarrow>
                       if rest = [] then
                         bind_run ((case st of COMPRESS \<Rightarrow> compress | DECOMPRESS \<Rightarrow> decompress)
                             sd ''/dev/stdin'' ''/dev/stdout'' bits (w1\<lparr>cat := True\<rparr>))
                           (\<lambda>w2. Some (Inr (eval w2, w2)))
                       else if cat w1 \<and> length rest > 1 then Some (Inr (1, say Single_file w1))
                       else bind_run (c_operands sd st bits rest w1) (\<lambda>w2. Some (Inr (eval w2, w2)))))))"

end
