(* ===== verification/Compress_Copy.thy ===== *)
theory Compress_Copy
  imports Compress
begin

text \<open>
  The copying loops of \<open>compress\<close> and \<open>decompress\<close> over the library, for every way in which stdio
  cuts the data into calls, as an interface: a layer of stdio hands on all data in order.
\<close>

section \<open>Writing portions\<close>

text \<open>A writer that has taken \<open>data\<close> so far.\<close>

definition taken :: "nat \<Rightarrow> zwriter \<Rightarrow> bytes \<Rightarrow> bool" where
  "taken mb z data \<longleftrightarrow> opened_w mb z \<and> data = [] \<or> (\<exists>gs cur T. writing mb z gs cur T data)"

lemma zwrite_taken:
  assumes "taken mb z data" and mb: "12 \<le> mb" "mb \<le> 16"
  shows "\<exists>z'. zwrite z p = Some (Inr (Ret (length p), z')) \<and> taken mb z' (data @ p)"
proof -
  consider "opened_w mb z" "data = []" | gs cur T where "writing mb z gs cur T data"
    using assms(1) by (auto simp: taken_def)
  then show ?thesis
  proof cases
    case 1
    then show ?thesis
      using zwrite_first [OF 1(1) mb] by (cases p) (auto simp: taken_def zwrite_def [of z "[]"])
  next
    case 2
    then show ?thesis using zwrite_next [OF 2 mb, of p] by (auto simp: taken_def)
  qed
qed

lemma put_all_taken:
  assumes "taken mb z data" and mb: "12 \<le> mb" "mb \<le> 16"
  shows "\<exists>z'. put_all z ps = Some (Inr (True, z')) \<and> taken mb z' (data @ concat ps)"
  using assms(1)
proof (induction ps arbitrary: z data)
  case (Cons p ps)
  then obtain z1 where z: "zwrite z p = Some (Inr (Ret (length p), z1))" "taken mb z1 (data @ p)"
    using zwrite_taken [OF Cons.prems mb] by blast
  then show ?case using Cons.IH [OF z(2)] by simp
qed simp

lemma put_all_ok: "put_all z ps = Some (Inr (True, z')) \<Longrightarrow> put_all (carefree z) ps = Some (Inr (True, carefree z'))"
proof (induction ps arbitrary: z)
  case (Cons p ps)
  then obtain z1 where z: "zwrite z p = Some (Inr (Ret (length p), z1))" "put_all z1 ps = Some (Inr (True, z'))"
    by (auto simp: bind_run_Inr split: if_splits)
  then show ?case using zwrite_ok [OF z(1)] Cons.IH [OF z(2)] by simp
qed simp

lemma put_all_append:
  "put_all z ps = Some (Inr (True, z1)) \<Longrightarrow> put_all z1 qs = Some (Inr (True, z2)) \<Longrightarrow> put_all z (ps @ qs) = Some (Inr (True, z2))"
  by (induction ps arbitrary: z) (auto simp: bind_run_Inr split: if_splits)

lemma fread_in_result:
  assumes "fread_in i w = (bs, i1, w1)"
  shows "w1 = w\<lparr>in_errors := in_errors w1\<rparr>"
    "\<not> i_err i1 \<Longrightarrow> \<not> i_err i \<and> (bs = [] \<longrightarrow> i_rest i = [])"
    "i_rest i = bs @ i_rest i1"
  using assms by (auto simp: fread_in_def Let_def split: list.splits option.splits)

section \<open>The interface of stdio\<close>

locale stdio_layer =
  fixes sd :: stdio
  assumes now: "portions_now sd bs = (ps, rest) \<Longrightarrow> concat ps @ rest = bs"
    and at_end: "concat (portions_end sd bs) = bs"
    and some: "0 < bufsiz sd"
begin

text \<open>The loop of \<open>compress\<close> that ended well wrote everything it read.\<close>

lemma comp_copy_loop_wrote:
  assumes "comp_copy_loop sd i ofl w = Some (Inr (True, i', ofl', w'))" "\<not> i_err i'"
  shows "\<not> i_err i \<and> w' = w\<lparr>in_errors := in_errors w'\<rparr> \<and>
    (\<exists>ps. put_all (o_z ofl) ps = Some (Inr (True, o_z ofl')) \<and> concat ps @ o_pending ofl' = o_pending ofl @ i_rest i)"
  using assms(1)
proof (induction "length (i_rest i)" arbitrary: i ofl w rule: less_induct)
  case less
  obtain bs i1 w1 where f: "fread_in i w = (bs, i1, w1)" by (cases "fread_in i w")
  note r = fread_in_result [OF f]
  show ?case
  proof (cases "bs = []")
    case True
    then have e: "i' = i1" "ofl' = ofl" "w' = w1" using less.prems f by (auto simp: comp_copy_loop.simps [of sd i])
    then have "\<not> i_err i" "i_rest i = []" using r(2) True assms(2) by auto
    moreover have "put_all (o_z ofl) [] = Some (Inr (True, o_z ofl'))" using e by simp
    ultimately show ?thesis using r(1) e by (metis append.right_neutral append_Nil concat.simps(1))
  next
    case False
    then obtain o1 where o: "fwrite_z sd bs ofl = Some (Inr (True, o1))"
      "comp_copy_loop sd i1 o1 w1 = Some (Inr (True, i', ofl', w'))"
      using less.prems f by (auto simp: comp_copy_loop.simps [of sd i] bind_run_Inr split: if_splits)
    obtain ps rest where ps: "portions_now sd (o_pending ofl @ bs) = (ps, rest)" by fastforce
    have p: "put_all (o_z ofl) ps = Some (Inr (True, o_z o1))" "o_pending o1 = rest"
      using o(1) ps by (auto simp: fwrite_z_def bind_run_Inr)
    have "length (i_rest i1) < length (i_rest i)" using r(3) False by auto
    note IH = less.hyps [OF this o(2)]
    then obtain qs where q: "put_all (o_z o1) qs = Some (Inr (True, o_z ofl'))"
      "concat qs @ o_pending ofl' = o_pending o1 @ i_rest i1" by blast
    have "concat (ps @ qs) @ o_pending ofl' = concat ps @ rest @ i_rest i1" using q(2) p(2) by simp
    also have "\<dots> = o_pending ofl @ bs @ i_rest i1" using now [OF ps] by (metis append.assoc)
    finally have "concat (ps @ qs) @ o_pending ofl' = o_pending ofl @ i_rest i" using r(3) by simp
    moreover have "w' = w\<lparr>in_errors := in_errors w'\<rparr>" using IH r(1) by (metis cw.surjective cw.update_convs(3))
    ultimately show ?thesis using put_all_append [OF p(1) q(1)] IH r(2) by blast
  qed
qed

text \<open>Without errors it ends well.\<close>

lemma comp_copy_loop_ends:
  assumes "taken mb (o_z ofl) data" and mb: "12 \<le> mb" "mb \<le> 16" and "in_errors w = []" "\<not> i_err i"
  shows "\<exists>i' ofl'. comp_copy_loop sd i ofl w = Some (Inr (True, i', ofl', w)) \<and> \<not> i_err i'"
  using assms(1,5)
proof (induction "length (i_rest i)" arbitrary: i ofl data rule: less_induct)
  case less
  let ?bs = "take 1024 (i_rest i)" and ?i1 = "i\<lparr>i_rest := drop 1024 (i_rest i)\<rparr>"
  have f: "fread_in i w = (?bs, ?i1, w)" using assms(4) by (simp add: fread_in_def)
  show ?case
  proof (cases "i_rest i = []")
    case True
    then show ?thesis using f less.prems(2) by (simp add: comp_copy_loop.simps [of sd i])
  next
    case False
    obtain ps rest where ps: "portions_now sd (o_pending ofl @ ?bs) = (ps, rest)" by fastforce
    obtain z1 where z: "put_all (o_z ofl) ps = Some (Inr (True, z1))" "taken mb z1 (data @ concat ps)"
      using put_all_taken [OF less.prems(1) mb] by blast
    let ?o1 = "\<lparr>o_z = z1, o_pending = rest\<rparr>"
    have "fwrite_z sd ?bs ofl = Some (Inr (True, ?o1))" using ps z(1) by (simp add: fwrite_z_def)
    then have "comp_copy_loop sd i ofl w = comp_copy_loop sd ?i1 ?o1 w"
      using f False by (simp add: comp_copy_loop.simps [of sd i])
    moreover have "\<exists>i' ofl'. comp_copy_loop sd ?i1 ?o1 w = Some (Inr (True, i', ofl', w)) \<and> \<not> i_err i'"
      by (rule less.hyps) (use False z(2) less.prems(2) in auto)
    ultimately show ?thesis by simp
  qed
qed

text \<open>The file after the loop and \<open>fclose\<close>: complete whenever both report success.\<close>

lemma written_complete:
  assumes op: "opened_w mb (carefree z)" and mb: "12 \<le> mb" "mb \<le> 16" and ne: "i_rest i \<noteq> []"
    and l: "comp_copy_loop sd i \<lparr>o_z = z, o_pending = []\<rparr> w = Some (Inr (True, i', ofl', w'))" "\<not> i_err i'"
    and c: "fclose_z sd ofl' = Some (Inr (True, bs))"
  shows "complete mb bs (i_rest i)"
proof -
  obtain ps where ps: "put_all z ps = Some (Inr (True, o_z ofl'))" "concat ps @ o_pending ofl' = i_rest i"
    using comp_copy_loop_wrote [OF l] by auto
  obtain z1 where z1: "put_all (o_z ofl') (portions_end sd (o_pending ofl')) = Some (Inr (True, z1))" "zclose_w z1 = Inr (True, bs)"
    using c by (auto simp: fclose_z_def bind_run_Inr)
  have p: "put_all (carefree z) (ps @ portions_end sd (o_pending ofl')) = Some (Inr (True, carefree z1))"
    using put_all_ok [OF put_all_append [OF ps(1) z1(1)]] .
  have "taken mb (carefree z) []" using op by (simp add: taken_def)
  then have "taken mb (carefree z1) (concat (ps @ portions_end sd (o_pending ofl')))"
    using put_all_taken [OF _ mb, of "carefree z" "[]" "ps @ portions_end sd (o_pending ofl')"] p by auto
  then have "taken mb (carefree z1) (i_rest i)" using at_end ps(2) by simp
  then obtain gs cur T where "writing mb (carefree z1) gs cur T (i_rest i)" using ne by (auto simp: taken_def)
  then show ?thesis using zclose_completes [OF _ mb] zclose_ok [OF z1(2)] by fastforce
qed

lemma fclose_ends:
  assumes op: "opened_w mb z" and mb: "12 \<le> mb" "mb \<le> 16" and ne: "i_rest i \<noteq> []"
    and l: "comp_copy_loop sd i \<lparr>o_z = z, o_pending = []\<rparr> w = Some (Inr (True, i', ofl', w'))" "\<not> i_err i'"
  shows "\<exists>bs. fclose_z sd ofl' = Some (Inr (True, bs))"
proof -
  obtain ps where ps: "put_all z ps = Some (Inr (True, o_z ofl'))" "concat ps @ o_pending ofl' = i_rest i"
    using comp_copy_loop_wrote [OF l] by auto
  have t: "taken mb z []" using op by (simp add: taken_def)
  have "taken mb (o_z ofl') (concat ps)" using put_all_taken [OF t mb, of ps] ps(1) by auto
  then obtain z1 where z1: "put_all (o_z ofl') (portions_end sd (o_pending ofl')) = Some (Inr (True, z1))"
    "taken mb z1 (concat ps @ concat (portions_end sd (o_pending ofl')))"
    using put_all_taken [OF _ mb] by blast
  then have "taken mb z1 (i_rest i)" using at_end ps(2) by simp
  then obtain gs cur T where "writing mb z1 gs cur T (i_rest i)" using ne by (auto simp: taken_def)
  then show ?thesis using zclose_completes [OF _ mb] z1(1) by (fastforce simp: fclose_z_def)
qed

text \<open>Reading: what is available and what the library still holds come out in order.\<close>

lemma fread_z_delivers:
  assumes mb: "12 \<le> mb" "mb \<le> 16"
  shows "holds mb (z_reader r) rest \<Longrightarrow> (z_eof r \<longrightarrow> rest = []) \<Longrightarrow> \<not> z_err r \<Longrightarrow>
    \<exists>r' rest'. fread_z sd n r = Some (Inr (take n (z_avail r @ rest), r')) \<and> holds mb (z_reader r') rest' \<and>
      (z_eof r' \<longrightarrow> rest' = []) \<and> \<not> z_err r' \<and> z_avail r' @ rest' = drop n (z_avail r @ rest)"
proof (induction "n - length (z_avail r)" arbitrary: r rest rule: less_induct)
  case less
  show ?case
  proof (cases "n \<le> length (z_avail r) \<or> z_eof r")
    case True
    then have "take n (z_avail r @ rest) = take n (z_avail r)" "drop n (z_avail r @ rest) = drop n (z_avail r) @ rest"
      using less.prems(2) by auto
    then show ?thesis
      using True less.prems
      by (intro exI [of _ "r\<lparr>z_avail := drop n (z_avail r)\<rparr>"] exI [of _ rest]) (simp add: fread_z.simps [of sd n r])
  next
    case False
    let ?n = "bufsiz sd"
    obtain z where z: "zread (z_reader r) ?n = Some (Inr (Ret (min ?n (length rest)), take ?n rest, z))"
      "holds mb z (drop ?n rest)"
      using zread_delivers [OF less.prems(1) mb some] by blast
    show ?thesis
    proof (cases "rest = []")
      case True
      let ?r' = "r\<lparr>z_reader := z, z_avail := [], z_eof := True\<rparr>"
      have "fread_z sd n r = Some (Inr (z_avail r, ?r'))" using False z(1) True by (simp add: fread_z.simps [of sd n r])
      then show ?thesis using False True z(2) less.prems(3) by (intro exI [of _ ?r'] exI [of _ "[]"]) auto
    next
      case ne: False
      let ?r1 = "r\<lparr>z_reader := z, z_avail := z_avail r @ take ?n rest\<rparr>"
      have t: "take ?n rest \<noteq> []" using ne some by (cases rest) (auto simp: take_Cons')
      then have f: "fread_z sd n r = fread_z sd n ?r1" using False z(1) by (simp add: fread_z.simps [of sd n r])
      have "n - length (z_avail ?r1) < n - length (z_avail r)" using t False by (cases "take ?n rest") auto
      then have "\<exists>r' rest'. fread_z sd n ?r1 = Some (Inr (take n (z_avail ?r1 @ drop ?n rest), r')) \<and> holds mb (z_reader r') rest' \<and>
          (z_eof r' \<longrightarrow> rest' = []) \<and> \<not> z_err r' \<and> z_avail r' @ rest' = drop n (z_avail ?r1 @ drop ?n rest)"
        by (rule less.hyps) (use z(2) False less.prems(3) in auto)
      moreover have e: "z_avail ?r1 @ drop ?n rest = z_avail r @ rest" by simp
      ultimately show ?thesis unfolding f e by blast
    qed
  qed
qed

lemma decomp_loop_delivers:
  assumes mb: "12 \<le> mb" "mb \<le> 16" and "out_results w = []"
  shows "holds mb (z_reader r) rest \<Longrightarrow> (z_eof r \<longrightarrow> rest = []) \<Longrightarrow> \<not> z_err r \<Longrightarrow>
    \<exists>r'. decomp_loop sd r acc w = Some (Inr (True, r', acc @ z_avail r @ rest, w)) \<and> \<not> z_err r'"
proof (induction "length (z_avail r @ rest)" arbitrary: r rest acc rule: less_induct)
  case less
  let ?all = "z_avail r @ rest"
  obtain r1 rest1 where f: "fread_z sd 1024 r = Some (Inr (take 1024 ?all, r1))" "holds mb (z_reader r1) rest1"
    "z_eof r1 \<longrightarrow> rest1 = []" "\<not> z_err r1" "z_avail r1 @ rest1 = drop 1024 ?all"
    using fread_z_delivers [OF mb less.prems] by blast
  show ?case
  proof (cases "?all = []")
    case True
    then show ?thesis using f by (subst decomp_loop.simps) simp
  next
    case False
    have "length (z_avail r1 @ rest1) < length ?all" unfolding f(5) length_drop using False by (cases ?all) auto
    then obtain r' where r': "decomp_loop sd r1 (acc @ take 1024 ?all) w = Some (Inr (True, r', (acc @ take 1024 ?all) @ z_avail r1 @ rest1, w))" "\<not> z_err r'"
      using less.hyps [OF _ f(2-4)] by blast
    moreover have "(acc @ take 1024 ?all) @ z_avail r1 @ rest1 = acc @ ?all" unfolding f(5) by (metis append.assoc append_take_drop_id)
    moreover have "decomp_loop sd r acc w = decomp_loop sd r1 (acc @ take 1024 ?all) w"
      using f(1) False assms(3) by (subst decomp_loop.simps) (auto simp: fwrite_out_def)
    ultimately show ?thesis by simp
  qed
qed

end

section \<open>A buffer of stdio\<close>

text \<open>Full buffering with a buffer of \<open>BUFSIZ\<close> bytes, as the C library has it: whole buffers are
  handed on, the rest stays.\<close>

fun full_buffers :: "nat \<Rightarrow> nat \<Rightarrow> bytes \<Rightarrow> bytes list \<times> bytes" where
  "full_buffers 0 n bs = ([], bs)"
| "full_buffers (Suc k) n bs =
     (if length bs < n then ([], bs)
      else case full_buffers k n (drop n bs) of (ps, rest) \<Rightarrow> (take n bs # ps, rest))"

definition bsd_stdio :: stdio where
  "bsd_stdio = \<lparr>portions_now = (\<lambda>bs. full_buffers (length bs) 1024 bs), portions_end = (\<lambda>bs. [bs]), bufsiz = 1024\<rparr>"

lemma full_buffers_concat: "full_buffers k n bs = (ps, rest) \<Longrightarrow> concat ps @ rest = bs"
  by (induction k n bs arbitrary: ps rest rule: full_buffers.induct) (auto split: if_splits prod.splits)

interpretation bsd: stdio_layer bsd_stdio
  by unfold_locales (auto simp: bsd_stdio_def full_buffers_concat)

end
