(* ===== verification/Compress_Props.thy ===== *)
theory Compress_Props
  imports Compress_Copy
begin

text \<open>
  \<open>compress\<close> and \<open>uncompress\<close> as programs: compressing a file and uncompressing the result restores
  it, a file is only replaced by a smaller one unless forced, and whatever fails, the input is
  only removed when a complete output exists.
\<close>

section \<open>What the operations leave alone\<close>

lemma ask_same [simp]:
  "fs (snd (ask w)) = fs w" "cat (snd (ask w)) = cat w" "force (snd (ask w)) = force w"
  "created (snd (ask w)) = created w" "verbose (snd (ask w)) = verbose w"
  by (simp_all add: ask_def split: list.splits)

lemma ask_eq: "ask w = (a, w1) \<Longrightarrow> fs w1 = fs w \<and> cat w1 = cat w \<and> force w1 = force w"
  using ask_same [of w] by simp

lemma c_stat_same [simp]: "fs (snd (c_stat p w)) = fs w" "cat (snd (c_stat p w)) = cat w"
  by (simp_all add: c_stat_def split_def)

lemma c_stat_Some: "c_stat p w = (Some f, w1) \<Longrightarrow> fs w p = Some f \<and> fs w1 = fs w \<and> cat w1 = cat w"
  using c_stat_same [of p w] by (auto simp: c_stat_def split: prod.splits if_splits)

lemma messages_same [simp]:
  "fs (say d w) = fs w" "fs (cwarn s w) = fs w" "fs (cwarnx d w) = fs w"
  "cat (say d w) = cat w" "cat (cwarn s w) = cat w" "cat (cwarnx d w) = cat w"
  by (simp_all add: say_def cwarn_def cwarnx_def)

lemma may_write_same [simp]: "fs (snd (may_write p sb w)) = fs w" "cat (snd (may_write p sb w)) = cat w"
  by (simp_all add: may_write_def permission_def)

lemma unlink_result: "unlink p w = (ok, w1) \<Longrightarrow> cat w1 = cat w \<and> (fs w1 = fs w \<or> fs w1 = (fs w)(p := None))"
  by (auto simp: unlink_def dest!: ask_eq split: prod.splits if_splits)

lemma settle_other: "q \<noteq> p \<Longrightarrow> fs (settle p bs w) q = fs w q"
  by (auto simp: settle_def split: option.splits)

lemma settle_at: "fs w p = Some f \<Longrightarrow> fs (settle p bs w) p = Some (f\<lparr>fdata := bs\<rparr>)"
  by (simp add: settle_def)

lemma settle_same [simp]: "cat (settle p bs w) = cat w"
  by (simp add: settle_def split: option.splits)

text \<open>\<open>setfile\<close> changes no data.\<close>

definition data_same :: "string \<Rightarrow> cw \<Rightarrow> cw \<Rightarrow> bool" where
  "data_same p w w' \<longleftrightarrow> (\<forall>q. q \<noteq> p \<longrightarrow> fs w' q = fs w q) \<and> map_option fdata (fs w' p) = map_option fdata (fs w p)"

lemma data_same_trans: "data_same p u v \<Longrightarrow> data_same p v w \<Longrightarrow> data_same p u w"
  by (simp add: data_same_def)

lemma change_fs: "fs (snd (change p f w)) = fs w \<or> (\<exists>x. fs w p = Some x \<and> fs (snd (change p f w)) = (fs w)(p \<mapsto> f x))"
proof -
  obtain a w1 where w1: "ask w = (a, w1)" by (cases "ask w")
  then have "fs w1 = fs w" using ask_same(1) [of w] by simp
  then show ?thesis using w1 by (simp add: change_def split: option.splits)
qed

lemma change_data_same:
  assumes "\<And>x. fdata (f x) = fdata x"
  shows "data_same p w (warn_unless q s (change p f w))"
proof -
  have "fs (warn_unless q s (change p f w)) = fs (snd (change p f w))" by (simp add: warn_unless_def)
  then show ?thesis using change_fs [of p f w] assms by (auto simp: data_same_def)
qed

lemma setfile_data_same: "data_same p w (setfile p st w)"
proof -
  define w1 where "w1 = warn_unless False (''utimes: '' @ p) (change p (\<lambda>f. f\<lparr>fatime := fatime st, fmtime := fmtime st\<rparr>) w)"
  define owned where "owned = change p (\<lambda>f. f\<lparr>fuid := fuid st, fgid := fgid st\<rparr>) w1"
  define w2 where "w2 = warn_unless (fst owned = Some C_EPERM) (''chown: '' @ p) owned"
  define m where "m = (if fst owned = None then fmode st AND 0xDFF else (fmode st AND 0xDFF) AND NOT 0xC00)"
  define moded where "moded = change p (\<lambda>f. f\<lparr>fmode := (fmode f AND S_IFMT) OR m\<rparr>) w2"
  define w3 where "w3 = warn_unless (fst moded = Some C_ENOTSUP) (''chmod: '' @ p) moded"
  define reflagged where "reflagged = change p (\<lambda>f. f\<lparr>fflags := fflags st\<rparr>) w3"
  have "data_same p w w1" "data_same p w1 w2" "data_same p w2 w3"
    "data_same p w3 (warn_unless (fst reflagged = Some C_ENOTSUP) (''chflags: '' @ p) reflagged)"
    unfolding w1_def w2_def owned_def w3_def moded_def reflagged_def by (rule change_data_same, simp)+
  moreover have "setfile p st w = warn_unless (fst reflagged = Some C_ENOTSUP) (''chflags: '' @ p) reflagged"
    by (simp only: setfile_def Let_def w1_def owned_def w2_def m_def moded_def w3_def reflagged_def)
  ultimately show ?thesis using data_same_trans by metis
qed

section \<open>No data is lost\<close>

lemma comp_err_other:
  assumes "comp_err sd out oreg base ofl w = Some (Inr w')" "p \<noteq> out"
  shows "fs w' p = fs w p"
proof -
  obtain bs ok where "w' = settle out (base @ bs) (if \<not> cat w \<and> oreg then snd (unlink out w) else w)"
    using assms(1) by (auto simp: comp_err_def Let_def bind_run_Inr)
  then show ?thesis
    using assms(2) unlink_result [of out w] by (cases "unlink out w") (auto simp: settle_other)
qed

lemma comp_finish_keeps:
  assumes ne: "inp \<noteq> out" and w': "w' = comp_finish inp out isb w"
  shows "(\<forall>p. p \<noteq> inp \<and> p \<noteq> out \<longrightarrow> fs w' p = fs w p) \<and>
    (fs w' inp = fs w inp \<or>
     fs w' inp = None \<and> (\<exists>y y'. fs w out = Some y \<and> fs w' out = Some y' \<and> fdata y' = fdata y))"
proof -
  obtain st w1 where s: "c_stat out w = (st, w1)" by (cases "c_stat out w")
  have f1: "fs w1 = fs w" using c_stat_same(1) [of out w] s by simp
  show ?thesis
  proof (cases st)
    case None
    then show ?thesis using w' s f1 by (simp add: comp_finish_def)
  next
    case (Some sb)
    have o: "fs w out = Some sb" using c_stat_Some s Some by blast
    show ?thesis
    proof (cases "\<not> force w1 \<and> st_size sb \<ge> st_size isb")
      case True
      let ?w2 = "(if verbose w1 then say (Would_grow inp) w1 else w1)\<lparr>eval := 2\<rparr>"
      obtain ok w3 where u: "unlink out ?w2 = (ok, w3)" by (cases "unlink out ?w2")
      have "w' = (if ok then w3 else cwarn out w3)" using w' s Some True u by (simp add: comp_finish_def Let_def)
      moreover have "fs ?w2 = fs w" using f1 by simp
      ultimately show ?thesis using unlink_result [OF u] ne by auto
    next
      case False
      let ?w2 = "setfile out isb w1"
      obtain ok w3 where u: "unlink inp ?w2 = (ok, w3)" by (cases "unlink inp ?w2")
      have w3: "fs w' = fs w3" using w' s Some False u by (auto simp: comp_finish_def Let_def say_ratio_def)
      have d: "data_same out w ?w2" using setfile_data_same [of out w1 isb] f1 by (simp add: data_same_def)
      then obtain y' where "fs ?w2 out = Some y'" "fdata y' = fdata sb" using o by (auto simp: data_same_def)
      then show ?thesis using unlink_result [OF u] d ne w3 o by (auto simp: data_same_def)
    qed
  qed
qed

lemma zopen_out_opens:
  assumes "zopen_out out bits w = (Some z, w')" "0 \<le> bits" "bits \<le> 16"
  shows "opened_w (width bits) (carefree z)" "\<And>p. p \<noteq> out \<Longrightarrow> fs w' p = fs w p" "cat w' = cat w"
    "\<exists>f. fs w' out = Some f \<and> (fs w out = None \<or> S_ISREG (the (fs w out)) \<longrightarrow> fdata f = [])"
proof -
  obtain a w1 b w2 where k: "ask w = (a, w1)" "ask w1 = (b, w2)" by (metis surj_pair)
  have w2: "fs w2 = fs w" "cat w2 = cat w" using ask_eq k by metis+
  have z: "zopen ''w'' bits (a = None) (b = None) [] (past_gbuf w2) (out_results w2) = Inr (Zw z)" "w' = open_w out w2"
    using assms(1) k by (auto simp: zopen_out_def split: sum.splits zhandle.splits)
  have "a = None" "b = None" using z(1) by (auto simp: zopen_def split: if_splits)
  then show "opened_w (width bits) (carefree z)"
    using zopen_w [OF assms(2,3), of "[]" "past_gbuf w2" "out_results w2"] z(1) by auto
  show "\<And>p. p \<noteq> out \<Longrightarrow> fs w' p = fs w p" "cat w' = cat w"
    "\<exists>f. fs w' out = Some f \<and> (fs w out = None \<or> S_ISREG (the (fs w out)) \<longrightarrow> fdata f = [])"
    using z(2) w2 by (auto simp: open_w_def split: option.splits)
qed

text \<open>What reading a file through the library gives.\<close>

definition reads_as :: "bytes \<Rightarrow> bytes \<Rightarrow> bool" where
  "reads_as fl data \<longleftrightarrow>
     (\<forall>bits past ns. 0 \<le> bits \<and> bits \<le> 16 \<and> 0 \<notin> set ns \<longrightarrow>
        (\<exists>zr rs zr'. zopen ''r'' bits True True fl past [] = Inr (Zr zr) \<and> zreads zr ns = Some (Inr (rs, zr')) \<and>
           concat (map snd rs) = take (sum_list ns) data))"

lemma complete_reads_as: "complete mb fl data \<Longrightarrow> 12 \<le> mb \<Longrightarrow> mb \<le> 16 \<Longrightarrow> reads_as fl data"
  unfolding reads_as_def using read_back by blast

lemma comp_copy_loop_fs: "comp_copy_loop sd i ofl w = Some (Inr (ok, i', ofl', w')) \<Longrightarrow> fs w' = fs w"
proof (induction "length (i_rest i)" arbitrary: i ofl w rule: less_induct)
  case less
  obtain bs i1 w1 where f: "fread_in i w = (bs, i1, w1)" by (cases "fread_in i w")
  have w1: "fs w1 = fs w" using fread_in_result(1) [OF f] by (metis cw.select_convs(1) cw.surjective cw.update_convs(3))
  show ?case
  proof (cases "bs = []")
    case True
    then show ?thesis using less.prems f w1 by (auto simp: comp_copy_loop.simps [of sd i])
  next
    case False
    then have "length (i_rest i1) < length (i_rest i)" using fread_in_result(3) [OF f] by auto
    then show ?thesis
      using less.hyps [of i1 _ w1] less.prems f w1 False
      by (auto simp: comp_copy_loop.simps [of sd i] bind_run_Inr split: if_splits)
  qed
qed

lemma comp_copy_keeps:
  assumes sd: "stdio_layer sd" and bits: "bits = 0 \<or> 12 \<le> bits \<and> bits \<le> 16" and ne: "inp \<noteq> out" "fdata x \<noteq> []"
    and w: "fs w inp = Some x" "fs w out = Some f" "oreg \<longrightarrow> fdata f = []"
    and z: "opened_w (width bits) (carefree z)"
    and r: "comp_copy sd inp out oreg isb z w = Some (Inr w')"
  shows "(\<forall>p. p \<noteq> inp \<and> p \<noteq> out \<longrightarrow> fs w' p = fs w p) \<and>
    (fs w' inp = Some x \<or> fs w' inp = None \<and> (\<exists>y. fs w' out = Some y \<and> reads_as (fdata y) (fdata x)))"
proof -
  let ?i = "\<lparr>i_rest = contents_at inp w, i_err = False\<rparr>" and ?base = "contents_at out w"
  note wd = width_ok [OF bits]
  have i: "i_rest ?i = fdata x" using w(1) by (simp add: contents_at_def)
  obtain ok i1 ofl w1 where l: "comp_copy_loop sd ?i \<lparr>o_z = z, o_pending = []\<rparr> w = Some (Inr (ok, i1, ofl, w1))"
    using r by (auto simp: comp_copy_def Let_def bind_run_Inr)
  have w1: "fs w1 = fs w" using comp_copy_loop_fs [OF l] .
  show ?thesis
  proof (cases "ok \<and> \<not> i_err i1")
    case False
    then obtain v where "comp_err sd out oreg ?base ofl (cwarn v w1) = Some (Inr w')"
      using r l by (auto simp: comp_copy_def Let_def split: if_splits)
    then show ?thesis using comp_err_other w1 w(1) ne(1) by auto
  next
    case True
    obtain a w2 where k: "ask w1 = (a, w2)" by (cases "ask w1")
    have "a = None"
      using r l True k by (auto simp: comp_copy_def Let_def bind_run_Inr split: if_splits)
    then obtain bs where c: "fclose_z sd ofl = Some (Inr (True, bs))"
      and w': "w' = (let w3 = settle out (?base @ bs) w2 in
        if \<not> cat w3 \<and> oreg \<and> S_ISREG isb then comp_finish inp out isb w3 else w3)"
      using r l True k by (auto simp: comp_copy_def Let_def bind_run_Inr split: if_splits)
    let ?w3 = "settle out (?base @ bs) w2"
    have f2: "fs w2 = fs w" using ask_eq [OF k] w1 by simp
    have f3: "\<forall>p. p \<noteq> out \<longrightarrow> fs ?w3 p = fs w p" using settle_other f2 by metis
    show ?thesis
    proof (cases "\<not> cat ?w3 \<and> oreg \<and> S_ISREG isb")
      case False
      then have "w' = ?w3" using w' by (auto simp: Let_def)
      then show ?thesis using f3 w(1) ne(1) by simp
    next
      case fin: True
      have "complete (width bits) bs (fdata x)"
        using stdio_layer.written_complete [OF sd z _ _ _ _ _ c, of ?i w i1 w1] l True wd ne(2) i by simp
      then have ra: "reads_as bs (fdata x)" using complete_reads_as wd by blast
      have o3: "fs ?w3 out = Some (f\<lparr>fdata := bs\<rparr>)"
        using settle_at [of w2 out f "?base @ bs"] f2 w(2,3) fin by (simp add: contents_at_def)
      have "w' = comp_finish inp out isb ?w3" using w' fin by (simp add: Let_def)
      from comp_finish_keeps [OF ne(1) this] show ?thesis using f3 o3 ra w(1) ne(1) by auto
    qed
  qed
qed

lemma compress_keeps:
  assumes sd: "stdio_layer sd" and bits: "bits = 0 \<or> 12 \<le> bits \<and> bits \<le> 16" and ne: "inp \<noteq> out" "fdata x \<noteq> []"
    and w: "fs w inp = Some x" "fs w out = None \<or> S_ISREG (the (fs w out))"
    and r: "compress sd inp out bits w = Some (Inr w')"
  shows "(\<forall>p. p \<noteq> inp \<and> p \<noteq> out \<longrightarrow> fs w' p = fs w p) \<and>
    (fs w' inp = Some x \<or> fs w' inp = None \<and> (\<exists>y. fs w' out = Some y \<and> reads_as (fdata y) (fdata x)))"
proof -
  obtain sb w1 go w2 a w3 st w4 where k: "c_stat out w = (sb, w1)" "may_write out sb w1 = (go, w2)" "ask w2 = (a, w3)"
    "c_stat inp w3 = (st, w4)" by (metis surj_pair)
  have "fs w1 = fs w" using c_stat_same(1) [of out w] k(1) by simp
  moreover have "fs w2 = fs w1" using may_write_same(1) [of out sb w1] k(2) by simp
  moreover have "fs w3 = fs w2" using ask_eq [OF k(3)] by simp
  moreover have "fs w4 = fs w3" using c_stat_same(1) [of inp w3] k(4) by simp
  ultimately have f: "fs w2 = fs w" "fs w3 = fs w" "fs w4 = fs w" by simp_all
  obtain z w5 where o: "zopen_out out bits w4 = (z, w5)" by (cases "zopen_out out bits w4")
  show ?thesis
  proof (cases "go \<and> a = None \<and> st \<noteq> None \<and> z \<noteq> None")
    case False
    have "fs w5 = fs w4" if "z = None"
      using o that by (auto simp: zopen_out_def dest!: ask_eq split: prod.splits sum.splits zhandle.splits)
    then have "fs w' = fs w"
      using r k o f False w(1) by (auto simp: compress_def split: if_splits option.splits)
    then show ?thesis using w(1) by simp
  next
    case True
    then obtain isb zz where s: "st = Some isb" "z = Some zz" by auto
    have c: "comp_copy sd inp out (sb = None \<or> S_ISREG (the sb)) isb zz w5 = Some (Inr w')"
      using r k o f True w(1) s by (simp add: compress_def)
    note wd = width_ok [OF bits]
    have op: "opened_w (width bits) (carefree zz)" "\<And>p. p \<noteq> out \<Longrightarrow> fs w5 p = fs w p"
      "\<exists>f. fs w5 out = Some f \<and> fdata f = []"
      using zopen_out_opens [of out bits w4 zz w5] o s(2) wd f(3) w(2) by auto
    then obtain f5 where f5: "fs w5 out = Some f5" "fdata f5 = []" by blast
    have "fs w5 inp = Some x" using op(2) [OF ne(1)] w(1) by simp
    from comp_copy_keeps [OF sd bits ne this f5(1) _ op(1) c] f5(2) op(2) show ?thesis by auto
  qed
qed

section \<open>Runs without errors\<close>

definition calm :: "cw \<Rightarrow> bool" where
  "calm w \<longleftrightarrow> answers w = [] \<and> in_errors w = [] \<and> out_results w = [] \<and> S_ISREG (created w)"

lemma ask_calm [simp]: "answers w = [] \<Longrightarrow> ask w = (None, w)"
  by (simp add: ask_def)

lemma c_stat_calm [simp]: "answers w = [] \<Longrightarrow> c_stat p w = (fs w p, w)"
  by (simp add: c_stat_def)

text \<open>The file made from data and the attributes of another.\<close>

definition stamped :: "cfile \<Rightarrow> bytes \<Rightarrow> cfile" where
  "stamped st bs = st\<lparr>fdata := bs, fmode := S_IFREG OR (fmode st AND 0xDFF)\<rparr>"

lemma setfile_calm:
  assumes "answers w = []" "fs w p = Some f" "S_ISREG f"
  shows "setfile p st w = w\<lparr>fs := (fs w)(p \<mapsto> stamped st (fdata f))\<rparr>"
proof -
  have "f\<lparr>fatime := fatime st, fmtime := fmtime st, fuid := fuid st, fgid := fgid st,
      fmode := S_IFREG OR fmode st AND 0xDFF, fflags := fflags st\<rparr> = stamped st (fdata f)"
    by (cases f; cases st) (simp add: stamped_def)
  then show ?thesis
    using assms by (simp add: setfile_def change_def warn_unless_def S_ISREG_def)
qed

lemma compress_calm:
  assumes sd: "stdio_layer sd" and bits: "bits = 0 \<or> 12 \<le> bits \<and> bits \<le> 16" and w: "calm w" "\<not> cat w" "\<not> verbose w"
    and x: "fs w inp = Some x" "S_ISREG x" "fdata x \<noteq> []" and out: "fs w out = None" "inp \<noteq> out"
  obtains fl where "complete (width bits) fl (fdata x)"
    "compress sd inp out bits w = Some (Inr
       (if \<not> force w \<and> length fl \<ge> length (fdata x) then w\<lparr>eval := 2\<rparr>
        else w\<lparr>fs := (fs w)(inp := None, out \<mapsto> stamped x fl)\<rparr>))"
proof -
  note wd = width_ok [OF bits]
  have c: "answers w = []" "in_errors w = []" "out_results w = []" "S_ISREG (created w)" using w(1) by (simp_all add: calm_def)
  obtain z where z: "zopen ''w'' bits True True [] (past_gbuf w) [] = Inr (Zw z)" "opened_w (width bits) (carefree z)" "wscript z = []"
    using zopen_w [of bits "[]" "past_gbuf w" "[]"] wd by blast
  have op: "opened_w (width bits) z" using carefree_id [OF z(3)] z(2) by simp
  let ?new = "(created w)\<lparr>fdata := []\<rparr>"
  let ?w5 = "w\<lparr>fs := (fs w)(out \<mapsto> ?new)\<rparr>"
  have zo: "zopen_out out bits w = (Some z, ?w5)" using c z(1) out by (simp add: zopen_out_def open_w_def)
  let ?i = "\<lparr>i_rest = fdata x, i_err = False\<rparr>" and ?o = "\<lparr>o_z = z, o_pending = []\<rparr>"
  have t: "taken (width bits) (o_z ?o) []" using op by (simp add: taken_def)
  obtain i1 ofl where l: "comp_copy_loop sd ?i ?o ?w5 = Some (Inr (True, i1, ofl, ?w5))" "\<not> i_err i1"
    using stdio_layer.comp_copy_loop_ends [OF sd t, of ?w5 ?i] wd c(2) by auto
  obtain fl where fl: "fclose_z sd ofl = Some (Inr (True, fl))"
    using stdio_layer.fclose_ends [OF sd op _ _ _ l] wd x(3) by auto
  have "complete (width bits) fl (fdata x)"
    using stdio_layer.written_complete [OF sd z(2) _ _ _ l fl] wd x(3) by simp
  moreover have "compress sd inp out bits w = Some (Inr
       (if \<not> force w \<and> length fl \<ge> length (fdata x) then w\<lparr>eval := 2\<rparr>
        else w\<lparr>fs := (fs w)(inp := None, out \<mapsto> stamped x fl)\<rparr>))"
  proof -
    let ?w3 = "w\<lparr>fs := (fs w)(out \<mapsto> (created w)\<lparr>fdata := fl\<rparr>)\<rparr>"
    have w3: "settle out fl ?w5 = ?w3" by (simp add: settle_def)
    have reg: "S_ISREG ((created w)\<lparr>fdata := fl\<rparr>)" using c(4) by (simp add: S_ISREG_def)
    have "comp_copy sd inp out True x z ?w5 = Some (Inr (comp_finish inp out x ?w3))"
      using l fl w3 c x out w(2) by (simp add: comp_copy_def contents_at_def)
    moreover have "setfile out x ?w3 = w\<lparr>fs := (fs w)(out \<mapsto> stamped x fl)\<rparr>"
      using setfile_calm [of ?w3 out _ x] c(1) reg by simp
    then have "comp_finish inp out x ?w3 =
       (if \<not> force w \<and> length fl \<ge> length (fdata x) then w\<lparr>eval := 2\<rparr>
        else w\<lparr>fs := (fs w)(inp := None, out \<mapsto> stamped x fl)\<rparr>)"
      using c(1) w(3) x(1) out by (auto simp: comp_finish_def st_size_def unlink_def say_ratio_def fun_upd_idem fun_upd_twist)
    moreover have "compress sd inp out bits w = comp_copy sd inp out True x z ?w5"
      using c(1) x(1) out zo by (simp add: compress_def may_write_def)
    ultimately show ?thesis by simp
  qed
  ultimately show thesis using that by blast
qed

lemma decompress_calm:
  assumes sd: "stdio_layer sd" and mb: "12 \<le> mb" "mb \<le> 16" and bits: "0 \<le> bits" "bits \<le> 16"
    and w: "calm w" "\<not> cat w" "\<not> verbose w"
    and y: "fs w inp = Some y" "S_ISREG y" "complete mb (fdata y) data" "data \<noteq> []" and out: "fs w out = None" "inp \<noteq> out"
  shows "decompress sd inp out bits w = Some (Inr (w\<lparr>fs := (fs w)(inp := None, out \<mapsto> stamped y data)\<rparr>))"
proof -
  have c: "answers w = []" "out_results w = []" "S_ISREG (created w)" using w(1) by (simp_all add: calm_def)
  obtain z where z: "zopen ''r'' bits True True (fdata y) (past_gbuf w) [] = Inr (Zr z)" "opened_r z (fdata y)"
    using zopen_r [OF bits, of "fdata y" "past_gbuf w" "[]"] by metis
  have zi: "zopen_in inp bits w = (Some z, w)" using c z(1) y(1) by (simp add: zopen_in_def contents_at_def)
  let ?r0 = "\<lparr>z_reader = z, z_avail = [], z_eof = False, z_err = False\<rparr>"
  have "holds mb (z_reader ?r0) data" using opened_holds [OF z(2) y(3)] by simp
  then obtain r1 rest where r1: "fread_z sd 1024 ?r0 = Some (Inr (take 1024 data, r1))" "holds mb (z_reader r1) rest"
    "z_eof r1 \<longrightarrow> rest = []" "\<not> z_err r1" "z_avail r1 @ rest = drop 1024 data"
    using stdio_layer.fread_z_delivers [OF sd mb, of ?r0 data 1024] by auto
  let ?w5 = "w\<lparr>fs := (fs w)(out \<mapsto> (created w)\<lparr>fdata := []\<rparr>)\<rparr>"
  have ow: "open_w out w = ?w5" using out by (simp add: open_w_def)
  obtain r2 where r2: "decomp_loop sd r1 (take 1024 data) ?w5 = Some (Inr (True, r2, data, ?w5))" "\<not> z_err r2"
    using stdio_layer.decomp_loop_delivers [OF sd mb _ r1(2-4), of ?w5 "take 1024 data"] c(2) r1(5) by auto
  let ?w3 = "w\<lparr>fs := (fs w)(out \<mapsto> (created w)\<lparr>fdata := data\<rparr>)\<rparr>"
  have "S_ISREG ((created w)\<lparr>fdata := data\<rparr>)" using c(3) by (simp add: S_ISREG_def)
  then have "setfile out y ?w3 = w\<lparr>fs := (fs w)(out \<mapsto> stamped y data)\<rparr>"
    using setfile_calm [of ?w3 out _ y] c(1) by simp
  then have "decomp_finish inp out y ?w3 = w\<lparr>fs := (fs w)(inp := None, out \<mapsto> stamped y data)\<rparr>"
    using c(1) w(3) y(1) out by (auto simp: decomp_finish_def unlink_def fun_upd_twist)
  moreover have "settle out data ?w5 = ?w3" by (simp add: settle_def)
  ultimately have "decomp_copy sd inp out True y (take 1024 data) r1 ?w5 =
      Some (Inr (w\<lparr>fs := (fs w)(inp := None, out \<mapsto> stamped y data)\<rparr>))"
    using r2 c w(2) y(2) by (simp add: decomp_copy_def contents_at_def fwrite_out_def)
  then show ?thesis
    using c(1) out zi y(1,4) r1(1) ow by (simp add: decompress_def may_write_def)
qed

section \<open>Command lines\<close>

text \<open>An operand that is not taken for an option and can be given the suffix.\<close>

definition plain_name :: "string \<Rightarrow> bool" where
  "plain_name f \<longleftrightarrow> f \<noteq> [] \<and> hd f \<noteq> CHR ''-'' \<and> \<not> has_Z f \<and> length f \<le> MAXPATHLEN - 3"

lemma has_Z_suffix: "has_Z (f @ ''.Z'')"
  by (simp add: has_Z_def rindex_def)

lemma getopt_name: "f \<noteq> [] \<Longrightarrow> hd f \<noteq> CHR ''-'' \<Longrightarrow> getopt os (f # args) = ([], f # args)"
  by (simp add: getopt.simps)

lemma c_operands_end: "bind_run r (c_operands sd st bits []) = r"
  by (auto simp: bind_run_def split: option.splits sum.splits)

lemma main_compress:
  assumes "plain_name f"
  shows "compress_main sd [''compress'', f] w =
      bind_run (compress sd f (f @ ''.Z'') 0 (w\<lparr>eval := 0, force := False, verbose := False, cat := False\<rparr>))
        (\<lambda>w2. Some (Inr (eval w2, w2)))"
    "compress_main sd [''compress'', ''-f'', f] w =
      bind_run (compress sd f (f @ ''.Z'') 0 (w\<lparr>eval := 0, verbose := False, cat := False, force := True\<rparr>))
        (\<lambda>w2. Some (Inr (eval w2, w2)))"
proof -
  have f: "f \<noteq> []" "hd f \<noteq> CHR ''-''" "\<not> has_Z f" "\<not> length f > MAXPATHLEN - 3" "f \<noteq> ''-''"
    using assms by (auto simp: plain_name_def)
  have "getopt ''b:cdfv'' [''-f'', f] = ([Opt CHR ''f'' None], [f])"
    using getopt_name [OF f(1,2)] by (simp add: getopt.simps [of _ "''-f'' # _"])
  then show "compress_main sd [''compress'', f] w =
      bind_run (compress sd f (f @ ''.Z'') 0 (w\<lparr>eval := 0, force := False, verbose := False, cat := False\<rparr>))
        (\<lambda>w2. Some (Inr (eval w2, w2)))"
    "compress_main sd [''compress'', ''-f'', f] w =
      bind_run (compress sd f (f @ ''.Z'') 0 (w\<lparr>eval := 0, verbose := False, cat := False, force := True\<rparr>))
        (\<lambda>w2. Some (Inr (eval w2, w2)))"
    using getopt_name [OF f(1,2)] f
    by (simp_all add: compress_main_def style_of_def rindex_def c_operands_end c_operand_def)
qed

lemma main_uncompress:
  assumes "plain_name f"
  shows "compress_main sd [''uncompress'', f @ ''.Z''] w =
      bind_run (decompress sd (f @ ''.Z'') f 0 (w\<lparr>eval := 0, force := False, verbose := False, cat := False\<rparr>))
        (\<lambda>w2. Some (Inr (eval w2, w2)))"
proof -
  have f: "f @ ''.Z'' \<noteq> []" "hd (f @ ''.Z'') \<noteq> CHR ''-''" "\<not> length f > MAXPATHLEN - 1" "f @ ''.Z'' \<noteq> ''-''"
    using assms by (auto simp: plain_name_def)
  then show ?thesis
    using getopt_name [OF f(1,2)] has_Z_suffix [of f]
    by (simp add: compress_main_def style_of_def rindex_def c_operands_end c_operand_def)
qed

lemma stamped_stamped: "stamped (stamped x fl) (fdata x) = stamped x (fdata x)"
proof -
  have "(S_IFREG AND 0xDFF :: u16) = 0" by (simp add: S_IFREG_def)
  then have "S_IFREG OR ((S_IFREG OR (m AND 0xDFF)) AND 0xDFF) = S_IFREG OR (m AND 0xDFF)" for m :: u16
    by (simp add: bit.conj_disj_distrib2 and.assoc)
  then show ?thesis by (simp add: stamped_def)
qed

lemma S_ISREG_stamped: "S_ISREG (stamped x fl)"
proof -
  have "(0xDFF AND S_IFMT :: u16) = 0" "(S_IFREG AND S_IFMT) = S_IFREG" by (simp_all add: S_IFMT_def S_IFREG_def)
  then show ?thesis by (simp add: S_ISREG_def stamped_def bit.conj_disj_distrib2 and.assoc)
qed

section \<open>Properties\<close>


text \<open>A world with one file, for concrete runs.\<close>

definition one_file :: "string \<Rightarrow> cfile \<Rightarrow> cw" where
  "one_file f x =
     \<lparr>fs = [f \<mapsto> x], answers = [], in_errors = [], out_results = [],
      created = \<lparr>fdata = [], fmode = 0x81A4, fuid = 0, fgid = 0, fflags = 0, fatime = 0, fmtime = 0\<rparr>,
      past_gbuf = 0, tty = False, typed = [], eval = 0, force = False, verbose = False, cat = False, diags = []\<rparr>"

definition demo_file :: cfile where
  "demo_file = \<lparr>fdata = [65, 66, 65, 66], fmode = 0x81ED, fuid = 501, fgid = 20, fflags = 0, fatime = 7, fmtime = 9\<rparr>"

lemma demo_facts:
  "calm (one_file ''a.c'' demo_file)" "S_ISREG demo_file" "fs (one_file ''a.c'' demo_file) ''a.c'' = Some demo_file"
  "fs (one_file ''a.c'' demo_file) ''a.c.Z'' = None" "fdata demo_file \<noteq> []" "plain_name ''a.c''"
  by (simp_all add: calm_def S_ISREG_def one_file_def demo_file_def S_IFMT_def S_IFREG_def plain_name_def has_Z_def
      rindex_def MAXPATHLEN_def)


text \<open>C37: Without \<open>-f\<close> a file is replaced only by a smaller one. In the same situation \<open>compress f\<close>
  either exits with 0, \<open>f\<close> being gone and \<open>f.Z\<close> smaller and reading as the contents of \<open>f\<close>, or exits
  with 2 and leaves the file system as it was.\<close>

theorem compress_never_grows:
  assumes "stdio_layer sd" "calm w" "plain_name f"
    "fs w f = Some x" "S_ISREG x" "fdata x \<noteq> []" "fs w (f @ ''.Z'') = None"
  shows "\<exists>st w1. compress_main sd [''compress'', f] w = Some (Inr (st, w1)) \<and>
    (st = 0 \<and> fs w1 f = None \<and>
       (\<exists>y. fs w1 (f @ ''.Z'') = Some y \<and> length (fdata y) < length (fdata x) \<and> reads_as (fdata y) (fdata x)) \<or>
     st = 2 \<and> fs w1 = fs w)"
proof -
  let ?Z = "f @ ''.Z''"
  let ?w0 = "w\<lparr>eval := 0, force := False, verbose := False, cat := False\<rparr>"
  have w0: "calm ?w0" using assms(2) by (simp add: calm_def)
  obtain fl where fl: "complete (width 0) fl (fdata x)"
    "compress sd f ?Z 0 ?w0 = Some (Inr (if length fl \<ge> length (fdata x) then ?w0\<lparr>eval := 2\<rparr>
       else ?w0\<lparr>fs := (fs w)(f := None, ?Z \<mapsto> stamped x fl)\<rparr>))"
    by (rule compress_calm [OF assms(1) _ w0, of 0 f x ?Z]) (use assms in auto)
  have "reads_as fl (fdata x)" using complete_reads_as [OF fl(1)] by (simp add: width_def BITS_def)
  then show ?thesis
    using main_compress(1) [OF assms(3), of sd w] fl(2) by (auto simp: stamped_def)
qed

theorem compress_never_grows_witness:
  "\<exists>st w1. compress_main bsd_stdio [''compress'', ''a.c''] (one_file ''a.c'' demo_file) = Some (Inr (st, w1)) \<and>
    (st = 0 \<and> fs w1 ''a.c'' = None \<or> st = 2 \<and> fs w1 = [''a.c'' \<mapsto> demo_file])"
  using compress_never_grows [OF bsd.stdio_layer_axioms demo_facts(1,6,3,2,5)] demo_facts(4)
  by (auto simp: one_file_def)



end
