(* ===== verification/Zuncompress.thy ===== *)
theory Zuncompress
  imports Z_State
begin

text \<open>
  \<^verbatim>\<open>file_cmds-251/gzip/zuncompress.c\<close>: the reader of \<open>.Z\<close> files inside \<^verbatim>\<open>gzip\<close>, whole. It descends from
  \<^verbatim>\<open>zopen.c\<close> and shares with \<^verbatim>\<open>Z_State\<close> the definitions of what is the same code in both files: the state, the
  extraction of a code, the expansion of a code, the tables. Its own are the bytes that \<^verbatim>\<open>gzip\<close> had read before
  it knew the format (\<open>compressed_pre\<close>, \<open>compressed_prelen\<close>), the count of the input, the treatment of the
  first code, and the copying loop.
\<close>

section \<open>The state\<close>

text \<open>\<open>struct s_zstate\<close> and the static variables of the file; \<open>zin\<close> of the state is what the descriptor still
  has, \<open>compressed_pre\<close> the bytes from the pointer of that name to its end.\<close>

record gzreader =
  g_zs :: zreader
  compressed_pre :: bytes
  total_compressed_bytes :: int

text \<open>The next \<open>n\<close> bytes, or as many as there are: first from memory, then from the stream.\<close>

definition g_fetch :: "nat \<Rightarrow> gzreader \<Rightarrow> bytes \<times> gzreader" where
  "g_fetch n g =
     (let pre = take n (compressed_pre g); i = length pre; zs = g_zs g in
      (pre @ take (n - i) (zin zs),
       g\<lparr>compressed_pre := drop n (compressed_pre g), g_zs := zs\<lparr>zin := drop (n - i) (zin zs)\<rparr>\<rparr>))"

section \<open>Codes\<close>

definition g_refill :: "gzreader \<Rightarrow> (bool \<times> gzreader) zres" where
  "g_refill g =
     (let zs0 = g_zs g;
          zs1 = (if free_ent zs0 > maxcode zs0 then widen zs0 else zs0);
          zs2 = (if clear_flg zs1 then first_width zs1 else zs1) in
      if length (gbuf zs2) < n_bits zs2 then Inl Fault
      else case g_fetch (n_bits zs2) (g\<lparr>g_zs := zs2\<rparr>) of (bs, g1) \<Rightarrow>
        let zs3 = (g_zs g1)\<lparr>gsize := int (length bs), gbuf := bs @ drop (length bs) (gbuf zs2)\<rparr> in
        if bs = [] then Inr (False, g1\<lparr>g_zs := zs3\<rparr>)
        else Inr (True, g1\<lparr>g_zs := zs3\<lparr>roffset := 0, gsize := int (length bs) * 8 - (int (n_bits zs3) - 1)\<rparr>,
               total_compressed_bytes := total_compressed_bytes g1 + int (length bs)\<rparr>))"

definition g_take_code :: "gzreader \<Rightarrow> (int \<times> gzreader) zres" where
  "g_take_code g = bind_r (take_code (g_zs g)) (\<lambda>(c, zs). Inr (c, g\<lparr>g_zs := zs\<rparr>))"

definition g_getcode :: "gzreader \<Rightarrow> (int \<times> gzreader) zres" where
  "g_getcode g =
     (let zs = g_zs g in
      if clear_flg zs \<or> roffset zs \<ge> gsize zs \<or> free_ent zs > maxcode zs then
        bind_r (g_refill g) (\<lambda>(more, g1). if more then g_take_code g1 else Inr (-1, g1))
      else g_take_code g)"

section \<open>Reading\<close>

partial_function (option) g_read_loop :: "gzreader \<Rightarrow> nat \<Rightarrow> bytes \<Rightarrow> (zret \<times> bytes \<times> gzreader) zrun" where
  "g_read_loop g count acc =
     (case g_getcode g of
        Inl e \<Rightarrow> Some (Inl e)
      | Inr (c, g1) \<Rightarrow>
          let zs1 = g_zs g1 in
          if \<not> c > -1 then Some (Inr (Ret (length acc), acc, g1\<lparr>g_zs := zs1\<lparr>code := c, state := S_EOF\<rparr>\<rparr>))
          else if c = CLEAR \<and> block_compress zs1 \<noteq> 0 then g_read_loop (g1\<lparr>g_zs := clear_table zs1\<rparr>) count acc
          else
            (case expand_code zs1 c of
               Inl e \<Rightarrow> Some (Inl e)
             | Inr None \<Rightarrow> Some (Inr (Fail EINVAL, acc, g1\<lparr>g_zs := zs1\<lparr>code := c, incode := c\<rparr>\<rparr>))
             | Inr (Some zs2) \<Rightarrow>
                 (case emit (stack zs2) count acc of
                    Inl e \<Rightarrow> Some (Inl e)
                  | Inr (st, left, acc1) \<Rightarrow>
                      (case left of
                         None \<Rightarrow> Some (Inr (Ret (length acc1), acc1, g1\<lparr>g_zs := zs2\<lparr>stack := st\<rparr>\<rparr>))
                       | Some n \<Rightarrow> g_read_loop (g1\<lparr>g_zs := new_entry (zs2\<lparr>stack := st\<rparr>)\<rparr>) n acc1))))"

declare g_read_loop.simps [code]

definition g_read_middle :: "gzreader \<Rightarrow> nat \<Rightarrow> (zret \<times> bytes \<times> gzreader) zrun" where
  "g_read_middle g num =
     (let zs = g_zs g in
      case emit (stack zs) num [] of
        Inl e \<Rightarrow> Some (Inl e)
      | Inr (st, left, acc) \<Rightarrow>
          (case left of
             None \<Rightarrow> Some (Inr (Ret (length acc), acc, g\<lparr>g_zs := zs\<lparr>stack := st\<rparr>\<rparr>))
           | Some n \<Rightarrow> g_read_loop (g\<lparr>g_zs := new_entry (zs\<lparr>stack := st\<rparr>)\<rparr>) n acc))"

text \<open>After the header: the tables, and no previous code.\<close>

definition g_begin :: "gzreader \<Rightarrow> gzreader" where
  "g_begin g =
     (let zs1 = init_tables ((g_zs g)\<lparr>n_bits := INIT_BITS, maxcode := MAXCODE INIT_BITS\<rparr>) in
      g\<lparr>g_zs := zs1\<lparr>free_ent := (if block_compress zs1 \<noteq> 0 then FIRST else 256), oldcode := -1, stack := []\<rparr>\<rparr>)"

definition g_zread :: "gzreader \<Rightarrow> nat \<Rightarrow> (zret \<times> bytes \<times> gzreader) zrun" where
  "g_zread g num =
     (if num = 0 then Some (Inr (Ret 0, [], g))
      else case state (g_zs g) of
        S_EOF \<Rightarrow> Some (Inr (Ret 0, [], g))
      | S_MIDDLE \<Rightarrow> g_read_middle g num
      | S_START \<Rightarrow>
          (case g_fetch 3 (g\<lparr>g_zs := (g_zs g)\<lparr>state := S_MIDDLE\<rparr>\<rparr>) of (header, g1) \<Rightarrow>
             if length header < 3 \<or> take 2 header \<noteq> magic_header then Some (Inr (Fail EFTYPE, [], g1))
             else
               let mb = unat ((header ! 2) AND BIT_MASK);
                   g2 = g1\<lparr>total_compressed_bytes := 0,
                          g_zs := (g_zs g1)\<lparr>block_compress := (header ! 2) AND BLOCK_MASK, maxbits := mb, maxmaxcode := 2 ^ mb\<rparr>\<rparr> in
               if mb > BITS \<or> mb < 12 then Some (Inr (Fail EFTYPE, [], g2))
               else g_read_loop (g_begin g2) num []))"

section \<open>Opening and copying\<close>

text \<open>\<open>zdopen\<close>: whether \<open>calloc\<close> and \<open>fdopen\<close> succeed, what the descriptor delivers, the byte behind \<open>gbuf\<close>.\<close>

definition zdopen :: "bool \<Rightarrow> bool \<Rightarrow> bytes \<Rightarrow> u8 \<Rightarrow> zreader option" where
  "zdopen mem opens fd past =
     (if \<not> mem \<or> \<not> opens then None
      else Some (zstate.extend ((zstate_init 0)\<lparr>maxmaxcode := 0\<rparr>)
        (zreader.fields (\<lambda>_. 0) [] 0 0 0 0 0 0 (replicate BITS 0) fd past)))"

text \<open>\<open>fread(buf, 1, n, in)\<close> on a stream over a reading function: stdio asks for \<open>bufsiz\<close> bytes at a time.\<close>

record 's stream =
  s_cookie :: 's
  s_avail :: bytes
  s_eof :: bool
  s_err :: bool

function fread_s :: "('s \<Rightarrow> nat \<Rightarrow> (zret \<times> bytes \<times> 's) zrun) \<Rightarrow> nat \<Rightarrow> nat \<Rightarrow> 's stream \<Rightarrow> (bytes \<times> 's stream) zrun" where
  "fread_s rd bufsz n r =
     (if n \<le> length (s_avail r) \<or> s_eof r
      then Some (Inr (take n (s_avail r), r\<lparr>s_avail := drop n (s_avail r)\<rparr>))
      else bind_run (rd (s_cookie r) bufsz) (\<lambda>(ret, bs, z).
        let r1 = r\<lparr>s_cookie := z\<rparr> in
        case ret of
          Fail e \<Rightarrow> Some (Inr (s_avail r, r1\<lparr>s_avail := [], s_err := True\<rparr>))
        | Ret k \<Rightarrow>
            if bs = [] then Some (Inr (s_avail r, r1\<lparr>s_avail := [], s_eof := True\<rparr>))
            else fread_s rd bufsz n (r1\<lparr>s_avail := s_avail r @ bs\<rparr>)))"
  by pat_completeness auto
termination
  by (relation "measure (\<lambda>(rd, b, n, r). n - length (s_avail r))") (auto simp: neq_Nil_conv)

declare fread_s.simps [simp del]

text \<open>\<open>sizeof(buf)\<close> of a pointer, in a program for 32 bits.\<close>

definition SIZEOF_BUF :: nat where "SIZEOF_BUF = 4"

text \<open>The loop of \<open>zuncompress\<close>: whether no write failed, \<open>bout\<close>, what was written. \<open>outs\<close> are the outcomes of the
  coming calls of \<open>fwrite\<close>; when none are listed they succeed.\<close>

partial_function (option) zun_loop ::
  "nat \<Rightarrow> bool \<Rightarrow> bool list \<Rightarrow> gzreader stream \<Rightarrow> nat \<Rightarrow> bytes \<Rightarrow> (bool \<times> nat \<times> bytes \<times> gzreader stream) zrun" where
  "zun_loop bufsz tflag outs r bout out =
     (case fread_s g_zread bufsz SIZEOF_BUF r of
        None \<Rightarrow> None
      | Some res \<Rightarrow>
          (case res of
             Inl e \<Rightarrow> Some (Inl e)
           | Inr (bs, r1) \<Rightarrow>
               if bs = [] then Some (Inr (True, bout, out, r1))
               else if tflag then zun_loop bufsz tflag outs r1 (bout + length bs) out
               else if outs \<noteq> [] \<and> \<not> hd outs then Some (Inr (False, bout, out, r1))
               else zun_loop bufsz tflag (tl outs) r1 (bout + length bs) (out @ bs)))"

declare zun_loop.simps [code]

text \<open>\<open>zuncompress\<close>: the result (\<open>None\<close> for \<open>-1\<close>), what was written, and the stream with the count for
  \<open>compressed_bytes\<close>. \<open>tot\<close> is what the static count holds before.\<close>

definition zuncompress ::
  "nat \<Rightarrow> bool \<Rightarrow> bool \<Rightarrow> bool list \<Rightarrow> int \<Rightarrow> bytes \<Rightarrow> zreader \<Rightarrow> (nat option \<times> bytes \<times> gzreader stream) zrun" where
  "zuncompress bufsz tflag mem outs tot pre zs =
     (let r = \<lparr>s_cookie = \<lparr>g_zs = zs, compressed_pre = pre, total_compressed_bytes = tot\<rparr>, s_avail = [], s_eof = False, s_err = False\<rparr> in
      if \<not> mem then Some (Inr (None, [], r))
      else bind_run (zun_loop bufsz tflag outs r 0 []) (\<lambda>(ok, bout, out, r1).
        Some (Inr (if ok then Some bout else None, out, r1))))"

end
