(* ===== verification/Zuncompress_Sim.thy ===== *)
theory Zuncompress_Sim
  imports Zuncompress Z_Props
begin

text \<open>
  The reader of \<^verbatim>\<open>gzip\<close> tracks the reader of \<^verbatim>\<open>compress\<close> on the bytes in memory and in the file together, so
  what is known of one is known of the other; unlike it, it also accepts files whose first code is no
  character.
\<close>

section \<open>One input\<close>

text \<open>The state with all the input that is left in one place.\<close>

definition merged :: "gzreader \<Rightarrow> zreader" where
  "merged g = (g_zs g)\<lparr>zin := compressed_pre g @ zin (g_zs g)\<rparr>"

lemma merged_update [simp]:
  "state (merged g) = state (g_zs g)" "n_bits (merged g) = n_bits (g_zs g)" "maxbits (merged g) = maxbits (g_zs g)"
  "maxcode (merged g) = maxcode (g_zs g)" "maxmaxcode (merged g) = maxmaxcode (g_zs g)" "codetab (merged g) = codetab (g_zs g)"
  "free_ent (merged g) = free_ent (g_zs g)" "block_compress (merged g) = block_compress (g_zs g)"
  "clear_flg (merged g) = clear_flg (g_zs g)" "tab_suffix (merged g) = tab_suffix (g_zs g)" "stack (merged g) = stack (g_zs g)"
  "finchar (merged g) = finchar (g_zs g)" "oldcode (merged g) = oldcode (g_zs g)" "incode (merged g) = incode (g_zs g)"
  "roffset (merged g) = roffset (g_zs g)" "gsize (merged g) = gsize (g_zs g)" "gbuf (merged g) = gbuf (g_zs g)"
  by (simp_all add: merged_def)

lemma zin_merged: "zin (merged g) = compressed_pre g @ zin (g_zs g)"
  by (simp add: merged_def)

text \<open>Bytes counted and bytes left.\<close>

definition tally :: "gzreader \<Rightarrow> int" where
  "tally g = total_compressed_bytes g + int (length (zin (merged g)))"

lemma g_fetch_merged:
  "g_fetch n g = (bs, g') \<Longrightarrow>
     bs = take n (zin (merged g)) \<and> merged g' = (merged g)\<lparr>zin := drop n (zin (merged g))\<rparr> \<and>
     total_compressed_bytes g' = total_compressed_bytes g \<and> n_bits (g_zs g') = n_bits (g_zs g)"
  by (auto simp: g_fetch_def Let_def merged_def min_def not_le)

text \<open>A step of one reader and of the other.\<close>

definition tracks :: "gzreader \<Rightarrow> ('a \<times> zreader) zres \<Rightarrow> ('a \<times> gzreader) zres \<Rightarrow> bool" where
  "tracks g x y \<longleftrightarrow>
     (case x of Inl e \<Rightarrow> y = Inl e
      | Inr (a, zs) \<Rightarrow> \<exists>g'. y = Inr (a, g') \<and> merged g' = zs \<and> tally g' = tally g)"

lemma tracks_Inl: "tracks g (Inl e) y \<longleftrightarrow> y = Inl e"
  by (simp add: tracks_def)

lemma tracks_Inr: "tracks g (Inr (a, zs)) y \<longleftrightarrow> (\<exists>g'. y = Inr (a, g') \<and> merged g' = zs \<and> tally g' = tally g)"
  by (simp add: tracks_def)

lemma g_refill_follows: "tracks g (refill (merged g)) (g_refill g)"
proof -
  define zs1 where "zs1 = (if free_ent (g_zs g) > maxcode (g_zs g) then widen (g_zs g) else g_zs g)"
  define zs2 where "zs2 = (if clear_flg zs1 then first_width zs1 else zs1)"
  obtain bs g1 where f: "g_fetch (n_bits zs2) (g\<lparr>g_zs := zs2\<rparr>) = (bs, g1)" by fastforce
  let ?h = "g\<lparr>g_zs := zs2\<rparr>"
  have r: "renewed (merged g) = merged ?h"
    by (simp add: renewed_def Let_def zs2_def zs1_def merged_def widen_def first_width_def)
  have a: "tally ?h = tally g" by (simp add: tally_def zin_merged zs2_def zs1_def widen_def first_width_def Let_def)
  note m = g_fetch_merged [OF f]
  let ?zs3 = "(g_zs g1)\<lparr>gsize := int (length bs), gbuf := bs @ drop (length bs) (gbuf zs2)\<rparr>"
  let ?g2 = "g1\<lparr>g_zs := ?zs3\<rparr>"
  let ?g3 = "g1\<lparr>g_zs := ?zs3\<lparr>roffset := 0, gsize := int (length bs) * 8 - (int (n_bits ?zs3) - 1)\<rparr>,
    total_compressed_bytes := total_compressed_bytes g1 + int (length bs)\<rparr>"
  have gr: "g_refill g = (if length (gbuf zs2) < n_bits zs2 then Inl Fault else if bs = [] then Inr (False, ?g2) else Inr (True, ?g3))"
    unfolding g_refill_def Let_def zs1_def [symmetric] zs2_def [symmetric] f by simp
  have zl: "zin (merged g1) = drop (n_bits zs2) (zin (merged ?h))" using m by simp
  have ac: "tally ?g2 = tally g" if "bs = []"
  proof -
    have "zin (merged g1) = zin (merged ?h)" using that m by (metis append_Nil append_take_drop_id zl)
    then have "zin (merged ?g2) = zin (merged ?h)" by (simp add: zin_merged)
    then show ?thesis using m a by (simp add: tally_def)
  qed
  have ac3: "tally ?g3 = tally g"
  proof -
    have "length (zin (merged ?h)) = length bs + length (zin (merged g1))" using m zl by simp
    moreover have "zin (merged ?g3) = zin (merged g1)" by (simp add: zin_merged)
    ultimately show ?thesis using m a by (simp add: tally_def)
  qed
  have "merged ?g2 = (merged g1)\<lparr>gsize := int (length bs), gbuf := bs @ drop (length bs) (gbuf zs2)\<rparr>"
    by (simp add: merged_def)
  then have m2: "merged ?g2 = (merged ?h)\<lparr>zin := drop (n_bits zs2) (zin (merged ?h)), gsize := int (length bs), gbuf := bs @ drop (length bs) (gbuf zs2)\<rparr>"
    using m by metis
  have "merged ?g3 = (merged ?g2)\<lparr>roffset := 0, gsize := int (length bs) * 8 - (int (n_bits (g_zs g1)) - 1)\<rparr>"
    by (simp add: merged_def)
  then have m3: "merged ?g3 = (merged ?g2)\<lparr>roffset := 0, gsize := int (length bs) * 8 - (int (n_bits zs2) - 1)\<rparr>"
    using m by simp
  have b: "n_bits (merged ?h) = n_bits zs2" "gbuf (merged ?h) = gbuf zs2" "take (n_bits zs2) (zin (merged ?h)) = bs"
    using m by simp_all
  have "refill (merged g) =
      (if length (gbuf zs2) < n_bits zs2 then Inl Fault else if bs = [] then Inr (False, merged ?g2) else Inr (True, merged ?g3))"
    unfolding refill_renewed r Let_def b m3 m2 by simp
  then show ?thesis unfolding gr using ac ac3 by (auto simp: tracks_Inl tracks_Inr)
qed

lemma take_code_zin:
  "take_code (zs\<lparr>zin := x\<rparr>) = bind_r (take_code zs) (\<lambda>(c, zs'). Inr (c, zs'\<lparr>zin := x\<rparr>))"
proof -
  have "gb (zs\<lparr>zin := x\<rparr>) i = gb zs i" for i by (simp add: gb_def)
  then show ?thesis by (auto simp: take_code_def Let_def bind_r_def split: sum.splits)
qed

lemma take_code_keeps: "take_code zs = Inr (c, zs') \<Longrightarrow> zin zs' = zin zs"
  by (auto simp: take_code_def Let_def bind_r_def split: sum.splits if_splits)

lemma g_take_code_follows: "tracks g (take_code (merged g)) (g_take_code g)"
proof (cases "take_code (g_zs g)")
  case (Inr a)
  obtain c zs where a: "a = (c, zs)" by (cases a)
  then have "zin zs = zin (g_zs g)" using take_code_keeps Inr by blast
  then have "merged (g\<lparr>g_zs := zs\<rparr>) = zs\<lparr>zin := compressed_pre g @ zin (g_zs g)\<rparr>" "tally (g\<lparr>g_zs := zs\<rparr>) = tally g"
    by (simp_all add: merged_def tally_def)
  then show ?thesis using Inr a by (simp add: merged_def take_code_zin g_take_code_def tracks_Inr)
qed (simp add: merged_def take_code_zin g_take_code_def tracks_Inl)

lemma tracks_trans: "tally g1 = tally g \<Longrightarrow> tracks g1 x y \<Longrightarrow> tracks g x y"
  by (auto simp: tracks_def split: sum.splits)

lemma g_getcode_follows: "tracks g (getcode (merged g)) (g_getcode g)"
proof (cases "clear_flg (g_zs g) \<or> roffset (g_zs g) \<ge> gsize (g_zs g) \<or> free_ent (g_zs g) > maxcode (g_zs g)")
  case False
  then show ?thesis using g_take_code_follows [of g] by (simp add: getcode_def g_getcode_def)
next
  case True
  then have e: "getcode (merged g) = refilled (merged g)"
    "g_getcode g = bind_r (g_refill g) (\<lambda>(b, g1). if b then g_take_code g1 else Inr (-1, g1))"
    by (auto simp: getcode_def g_getcode_def)
  show ?thesis
  proof (cases "refill (merged g)")
    case (Inl e)
    then show ?thesis using g_refill_follows [of g] unfolding e by (simp add: tracks_Inl)
  next
    case (Inr a)
    obtain b zs where a: "a = (b, zs)" by (cases a)
    then obtain g' where g': "g_refill g = Inr (b, g')" "merged g' = zs" "tally g' = tally g"
      using g_refill_follows [of g] Inr by (auto simp: tracks_Inr)
    show ?thesis
      using Inr a g' g_take_code_follows [of g'] unfolding e
      by (cases b) (auto simp: tracks_Inr intro: tracks_trans)
  qed
qed

section \<open>The loop\<close>

definition follows_run :: "gzreader \<Rightarrow> (zret \<times> bytes \<times> zreader) zres \<Rightarrow> (zret \<times> bytes \<times> gzreader) zres \<Rightarrow> bool" where
  "follows_run g x y \<longleftrightarrow>
     (case x of Inl e \<Rightarrow> y = Inl e
      | Inr (r, bs, zs) \<Rightarrow> \<exists>g'. y = Inr (r, bs, g') \<and> merged g' = zs \<and> tally g' = tally g)"

lemma follows_run_Inl: "follows_run g (Inl e) y \<longleftrightarrow> y = Inl e"
  by (simp add: follows_run_def)

lemma follows_run_Inr:
  "follows_run g (Inr (r, bs, zs)) y \<longleftrightarrow> (\<exists>g'. y = Inr (r, bs, g') \<and> merged g' = zs \<and> tally g' = tally g)"
  by (simp add: follows_run_def)

text \<open>Operations on the state that do not touch the input.\<close>

definition input_free :: "(zreader \<Rightarrow> zreader) \<Rightarrow> bool" where
  "input_free f \<longleftrightarrow> (\<forall>zs x. f (zs\<lparr>zin := x\<rparr>) = (f zs)\<lparr>zin := x\<rparr>)"

lemma input_free_merged:
  assumes "input_free f"
  shows "merged (g\<lparr>g_zs := f (g_zs g)\<rparr>) = f (merged g)" "tally (g\<lparr>g_zs := f (g_zs g)\<rparr>) = tally g"
proof -
  have "f ((g_zs g)\<lparr>zin := zin (g_zs g)\<rparr>) = (f (g_zs g))\<lparr>zin := zin (g_zs g)\<rparr>"
    using assms unfolding input_free_def by blast
  then have "zin (f (g_zs g)) = zin ((f (g_zs g))\<lparr>zin := zin (g_zs g)\<rparr>)" by simp
  then have z: "zin (f (g_zs g)) = zin (g_zs g)" by simp
  show "merged (g\<lparr>g_zs := f (g_zs g)\<rparr>) = f (merged g)"
    using assms z by (simp add: merged_def input_free_def)
  show "tally (g\<lparr>g_zs := f (g_zs g)\<rparr>) = tally g" using z by (simp add: tally_def zin_merged)
qed

lemma chain_zin: "chain (zs\<lparr>zin := x\<rparr>) c st = chain zs c st"
proof (induction zs c st rule: chain.induct)
  case (1 zs c st)
  have p: "suffix_of (zs\<lparr>zin := x\<rparr>) = suffix_of zs" "prefix_of (zs\<lparr>zin := x\<rparr>) = prefix_of zs"
    by (simp_all add: fun_eq_iff suffix_of_def prefix_of_def)
  show ?case
    unfolding chain.simps [of "zs\<lparr>zin := x\<rparr>" c st] chain.simps [of zs c st] p
    using 1 by (auto simp: bind_r_def split: sum.splits)
qed

lemma expand_code_zin:
  "expand_code (zs\<lparr>zin := x\<rparr>) c = bind_r (expand_code zs c) (\<lambda>o'. Inr (map_option (\<lambda>zs'. zs'\<lparr>zin := x\<rparr>) o'))"
proof -
  have z: "(zs\<lparr>zin := x\<rparr>)\<lparr>code := c, incode := c\<rparr> = (zs\<lparr>code := c, incode := c\<rparr>)\<lparr>zin := x\<rparr>" by simp
  have s: "suffix_of ((zs\<lparr>code := c, incode := c\<rparr>)\<lparr>zin := x\<rparr>) d = suffix_of (zs\<lparr>code := c, incode := c\<rparr>) d" for d
    by (simp add: suffix_of_def)
  show ?thesis
    unfolding expand_code_def Let_def z chain_zin s
    by (auto simp: bind_r_def split: sum.splits prod.splits)
qed

lemma input_freeI [intro]:
  "input_free clear_table" "input_free (\<lambda>zs. new_entry (zs\<lparr>stack := st\<rparr>))" "input_free (\<lambda>zs. zs\<lparr>stack := st\<rparr>)"
  "input_free (\<lambda>zs. zs\<lparr>code := c, state := S_EOF\<rparr>)" "input_free (\<lambda>zs. zs\<lparr>code := c, incode := c\<rparr>)"
  by (simp_all add: input_free_def clear_table_def new_entry_def Let_def cong: if_cong)

lemma follows_run_trans: "tally g1 = tally g \<Longrightarrow> follows_run g1 x y \<Longrightarrow> follows_run g x y"
  by (auto simp: follows_run_def split: sum.splits)

text \<open>A code expanded by both.\<close>

lemma expand_code_follows:
  assumes "expand_code (merged g) c = Inr (Some zs2)"
  obtains h where "expand_code (g_zs g) c = Inr (Some h)" "merged (g\<lparr>g_zs := h\<rparr>) = zs2" "tally (g\<lparr>g_zs := h\<rparr>) = tally g"
proof -
  obtain h where h: "expand_code (g_zs g) c = Inr (Some h)" "zs2 = h\<lparr>zin := zin (merged g)\<rparr>"
    using assms unfolding merged_def [of g] expand_code_zin by (auto simp: bind_r_def split: sum.splits)
  then have "h = h\<lparr>zin := zin (g_zs g)\<rparr>" using expand_code_zin [where zs = "g_zs g" and x = "zin (g_zs g)" and c = c] by simp
  then have "zin h = zin (h\<lparr>zin := zin (g_zs g)\<rparr>)" by simp
  then have "zin h = zin (g_zs g)" by simp
  then show thesis by (intro that [OF h(1)]) (simp_all add: merged_def tally_def h(2))
qed

text \<open>The end of the loop's body, with the rest of the loop as an argument.\<close>

definition emitting ::
  "(zreader \<Rightarrow> nat \<Rightarrow> bytes \<Rightarrow> (zret \<times> bytes \<times> zreader) zrun) \<Rightarrow> zreader \<Rightarrow> nat \<Rightarrow> bytes \<Rightarrow> (zret \<times> bytes \<times> zreader) zrun" where
  "emitting rec zs n acc =
     (case emit (stack zs) n acc of
        Inl e \<Rightarrow> Some (Inl e)
      | Inr (st, left, acc1) \<Rightarrow>
          (case left of
             None \<Rightarrow> Some (Inr (Ret (length acc1), acc1, zs\<lparr>stack := st\<rparr>))
           | Some m \<Rightarrow> rec (new_entry (zs\<lparr>stack := st\<rparr>)) m acc1))"

definition g_emitting :: "gzreader \<Rightarrow> nat \<Rightarrow> bytes \<Rightarrow> (zret \<times> bytes \<times> gzreader) zrun" where
  "g_emitting g n acc =
     (case emit (stack (g_zs g)) n acc of
        Inl e \<Rightarrow> Some (Inl e)
      | Inr (st, left, acc1) \<Rightarrow>
          (case left of
             None \<Rightarrow> Some (Inr (Ret (length acc1), acc1, g\<lparr>g_zs := (g_zs g)\<lparr>stack := st\<rparr>\<rparr>))
           | Some m \<Rightarrow> g_read_loop (g\<lparr>g_zs := new_entry ((g_zs g)\<lparr>stack := st\<rparr>)\<rparr>) m acc1))"

definition tracked :: "(zreader \<Rightarrow> nat \<Rightarrow> bytes \<Rightarrow> (zret \<times> bytes \<times> zreader) zrun) \<Rightarrow> bool" where
  "tracked rec \<longleftrightarrow>
     (\<forall>g n acc y. rec (merged g) n acc = Some y \<longrightarrow> (\<exists>y'. g_read_loop g n acc = Some y' \<and> follows_run g y y'))"

lemma emitting_follows:
  assumes "tracked rec" "emitting rec (merged g) n acc = Some y"
  shows "\<exists>y'. g_emitting g n acc = Some y' \<and> follows_run g y y'"
proof (cases "emit (stack (g_zs g)) n acc")
  case (Inl e)
  then show ?thesis using assms(2) by (auto simp: emitting_def g_emitting_def follows_run_Inl)
next
  case (Inr a)
  obtain st l acc1 where a: "a = (st, l, acc1)" by (cases a)
  show ?thesis
  proof (cases l)
    case None
    then show ?thesis
      using Inr a assms(2) input_free_merged [OF input_freeI(3) [of st], of g]
      by (auto simp: emitting_def g_emitting_def follows_run_Inr)
  next
    case (Some m)
    let ?h = "g\<lparr>g_zs := new_entry ((g_zs g)\<lparr>stack := st\<rparr>)\<rparr>"
    have m: "merged ?h = new_entry ((merged g)\<lparr>stack := st\<rparr>)" "tally ?h = tally g"
      using input_free_merged [OF input_freeI(2) [of st], of g] by simp_all
    have "rec (merged ?h) m acc1 = Some y" using Inr a Some assms(2) by (simp add: emitting_def m(1))
    then have "\<exists>y'. g_read_loop ?h m acc1 = Some y' \<and> follows_run ?h y y'" using assms(1) unfolding tracked_def by blast
    then show ?thesis using Inr a Some follows_run_trans [OF m(2)] by (auto simp: g_emitting_def)
  qed
qed

definition dispatch ::
  "(zreader \<Rightarrow> nat \<Rightarrow> bytes \<Rightarrow> (zret \<times> bytes \<times> zreader) zrun) \<Rightarrow> int \<Rightarrow> zreader \<Rightarrow> nat \<Rightarrow> bytes \<Rightarrow> (zret \<times> bytes \<times> zreader) zrun" where
  "dispatch rec c zs n acc =
     (if \<not> c > -1 then Some (Inr (Ret (length acc), acc, zs\<lparr>code := c, state := S_EOF\<rparr>))
      else if c = CLEAR \<and> block_compress zs \<noteq> 0 then rec (clear_table zs) n acc
      else
        (case expand_code zs c of
           Inl e \<Rightarrow> Some (Inl e)
         | Inr None \<Rightarrow> Some (Inr (Fail EINVAL, acc, zs\<lparr>code := c, incode := c\<rparr>))
         | Inr (Some zs2) \<Rightarrow> emitting rec zs2 n acc))"

definition g_dispatch :: "int \<Rightarrow> gzreader \<Rightarrow> nat \<Rightarrow> bytes \<Rightarrow> (zret \<times> bytes \<times> gzreader) zrun" where
  "g_dispatch c g n acc =
     (if \<not> c > -1 then Some (Inr (Ret (length acc), acc, g\<lparr>g_zs := (g_zs g)\<lparr>code := c, state := S_EOF\<rparr>\<rparr>))
      else if c = CLEAR \<and> block_compress (g_zs g) \<noteq> 0 then g_read_loop (g\<lparr>g_zs := clear_table (g_zs g)\<rparr>) n acc
      else
        (case expand_code (g_zs g) c of
           Inl e \<Rightarrow> Some (Inl e)
         | Inr None \<Rightarrow> Some (Inr (Fail EINVAL, acc, g\<lparr>g_zs := (g_zs g)\<lparr>code := c, incode := c\<rparr>\<rparr>))
         | Inr (Some zs2) \<Rightarrow> g_emitting (g\<lparr>g_zs := zs2\<rparr>) n acc))"

lemma expand_code_merged:
  "expand_code (merged g) c = bind_r (expand_code (g_zs g) c) (\<lambda>o'. Inr (map_option (\<lambda>zs'. zs'\<lparr>zin := zin (merged g)\<rparr>) o'))"
  unfolding zin_merged unfolding merged_def by (rule expand_code_zin)

lemma dispatch_follows:
  assumes t: "tracked rec" and d: "dispatch rec c (merged g) n acc = Some y"
  shows "\<exists>y'. g_dispatch c g n acc = Some y' \<and> follows_run g y y'"
proof -
  consider "\<not> c > -1" | "c > -1" "c = CLEAR \<and> block_compress (g_zs g) \<noteq> 0"
    | "c > -1" "\<not> (c = CLEAR \<and> block_compress (g_zs g) \<noteq> 0)" by blast
  then show ?thesis
  proof cases
    case 1
    then show ?thesis
      using d input_free_merged [OF input_freeI(4) [of c], of g] by (auto simp: dispatch_def g_dispatch_def follows_run_Inr)
  next
    case 2
    let ?h = "g\<lparr>g_zs := clear_table (g_zs g)\<rparr>"
    have m: "merged ?h = clear_table (merged g)" "tally ?h = tally g"
      using input_free_merged [OF input_freeI(1), of g] by simp_all
    have "rec (merged ?h) n acc = Some y" using d 2 by (simp add: dispatch_def m(1) CLEAR_def)
    then have "\<exists>y'. g_read_loop ?h n acc = Some y' \<and> follows_run ?h y y'" using t unfolding tracked_def by blast
    then show ?thesis using 2 follows_run_trans [OF m(2)] by (auto simp: g_dispatch_def)
  next
    case 3
    show ?thesis
    proof (cases "expand_code (g_zs g) c")
      case (Inl e)
      then show ?thesis using d 3 by (auto simp: dispatch_def g_dispatch_def expand_code_merged follows_run_Inl)
    next
      case (Inr b)
      show ?thesis
      proof (cases b)
        case None
        then show ?thesis using d 3 Inr input_free_merged [OF input_freeI(5) [of c], of g]
          by (auto simp: dispatch_def g_dispatch_def expand_code_merged follows_run_Inr)
      next
        case (Some zs2)
        have "expand_code (merged g) c = Inr (Some (zs2\<lparr>zin := zin (merged g)\<rparr>))" using Inr Some by (simp add: expand_code_merged)
        then obtain h where h: "expand_code (g_zs g) c = Inr (Some h)" "merged (g\<lparr>g_zs := h\<rparr>) = zs2\<lparr>zin := zin (merged g)\<rparr>"
            "tally (g\<lparr>g_zs := h\<rparr>) = tally g"
          by (rule expand_code_follows)
        have "emitting rec (merged (g\<lparr>g_zs := h\<rparr>)) n acc = Some y"
          using d 3 Inr Some unfolding h(2) by (auto simp: dispatch_def expand_code_merged)
        from emitting_follows [OF t this] show ?thesis
          using 3 h(1) follows_run_trans [OF h(3)] by (auto simp: g_dispatch_def)
      qed
    qed
  qed
qed

lemma g_read_loop_dispatch:
  "g_read_loop g n acc = (case g_getcode g of Inl e \<Rightarrow> Some (Inl e) | Inr (c, g1) \<Rightarrow> g_dispatch c g1 n acc)"
  by (subst g_read_loop.simps) (auto simp: g_dispatch_def g_emitting_def Let_def split: sum.splits option.splits prod.splits)

lemma getcode_dispatch_follows:
  assumes t: "tracked rec"
    and b: "(case getcode (merged g) of Inl e \<Rightarrow> Some (Inl e) | Inr (c, zs1) \<Rightarrow> dispatch rec c zs1 n acc) = Some y"
  shows "\<exists>y'. g_read_loop g n acc = Some y' \<and> follows_run g y y'"
proof (cases "getcode (merged g)")
  case (Inl e)
  then show ?thesis using b g_getcode_follows [of g] by (auto simp: g_read_loop_dispatch tracks_Inl follows_run_Inl)
next
  case (Inr a)
  obtain c zs1 where a: "a = (c, zs1)" by (cases a)
  then obtain g1 where g1: "g_getcode g = Inr (c, g1)" "merged g1 = zs1" "tally g1 = tally g"
    using g_getcode_follows [of g] Inr by (auto simp: tracks_Inr)
  have "dispatch rec c (merged g1) n acc = Some y" using b Inr a g1(2) by simp
  from dispatch_follows [OF t this] show ?thesis
    using g1 follows_run_trans [OF g1(3)] by (auto simp: g_read_loop_dispatch)
qed

lemma g_read_loop_follows: "tracked read_loop_z"
proof -
  have "\<forall>g. merged g = zs \<longrightarrow> (\<exists>y'. g_read_loop g n acc = Some y' \<and> follows_run g y y')"
    if "read_loop_z zs n acc = Some y" for zs n acc y
    using that
  proof (induction rule: read_loop_z.raw_induct [rotated, consumes 1, case_names step])
    case (step rec zs n acc y)
    have "tracked rec" using step.IH unfolding tracked_def by blast
    then show ?case
      using step.hyps getcode_dispatch_follows [where rec = rec] unfolding dispatch_def emitting_def by blast
  qed
  then show ?thesis unfolding tracked_def by blast
qed

end
