(* ===== verification/Zuncompress_Props.thy ===== *)
theory Zuncompress_Props
  imports Zuncompress_Sim
begin

text \<open>
  What the reader of \<^verbatim>\<open>gzip\<close> does with whole files: it decodes what \<^verbatim>\<open>compress\<close> wrote, and it is safe on every
  file.
\<close>

section \<open>After the header\<close>

definition begun :: "u8 \<Rightarrow> zreader \<Rightarrow> zreader" where
  "begun b zs =
     (let z = init_tables (zs\<lparr>state := S_MIDDLE, zin := drop 3 (zin zs), block_compress := b AND BLOCK_MASK,
        maxbits := unat (b AND BIT_MASK), maxmaxcode := 2 ^ unat (b AND BIT_MASK), n_bits := INIT_BITS, maxcode := MAXCODE INIT_BITS\<rparr>) in
      z\<lparr>free_ent := (if block_compress z \<noteq> 0 then FIRST else 256), oldcode := -1, stack := []\<rparr>)"

definition good_header :: "bytes \<Rightarrow> bool" where
  "good_header file \<longleftrightarrow> 3 \<le> length file \<and> take 2 file = magic_header \<and>
     unat ((file ! 2) AND BIT_MASK) \<le> BITS \<and> 12 \<le> unat ((file ! 2) AND BIT_MASK)"

lemma g_zread_bad_header:
  assumes "state (g_zs g) = S_START" "0 < n" "\<not> good_header (zin (merged g))"
  shows "\<exists>g'. g_zread g n = Some (Inr (Fail EFTYPE, [], g'))"
proof -
  let ?g0 = "g\<lparr>g_zs := (g_zs g)\<lparr>state := S_MIDDLE\<rparr>\<rparr>"
  obtain h g1 where f: "g_fetch 3 ?g0 = (h, g1)" by fastforce
  have "zin (merged ?g0) = zin (merged g)" by (simp add: zin_merged)
  then have h: "h = take 3 (zin (merged g))" using g_fetch_merged [OF f] by simp
  show ?thesis
    using assms f unfolding g_zread_def good_header_def h by (auto simp: Let_def)
qed

lemma g_zread_good_header:
  assumes "state (g_zs g) = S_START" "0 < n" "good_header (zin (merged g))"
  obtains g' where "g_zread g n = g_read_loop g' n []" "merged g' = begun (zin (merged g) ! 2) (merged g)"
    "tally g' = int (length (zin (merged g))) - 3"
proof -
  let ?g0 = "g\<lparr>g_zs := (g_zs g)\<lparr>state := S_MIDDLE\<rparr>\<rparr>" and ?b = "zin (merged g) ! 2"
  obtain h g1 where f: "g_fetch 3 ?g0 = (h, g1)" by fastforce
  have z0: "zin (merged ?g0) = zin (merged g)" "merged ?g0 = (merged g)\<lparr>state := S_MIDDLE\<rparr>" by (simp_all add: merged_def)
  have h: "h = take 3 (zin (merged g))" "merged g1 = (merged g)\<lparr>state := S_MIDDLE, zin := drop 3 (zin (merged g))\<rparr>"
    using g_fetch_merged [OF f] unfolding z0 by simp_all
  let ?g2 = "g1\<lparr>total_compressed_bytes := 0, g_zs := (g_zs g1)\<lparr>block_compress := ?b AND BLOCK_MASK,
    maxbits := unat (?b AND BIT_MASK), maxmaxcode := 2 ^ unat (?b AND BIT_MASK)\<rparr>\<rparr>"
  have z: "g_zread g n = g_read_loop (g_begin ?g2) n []"
    using assms f unfolding g_zread_def good_header_def h(1) by (auto simp: Let_def)
  have "merged (g_begin ?g2) = begun ?b (merged g)"
  proof -
    have "merged (g_begin ?g2) = (let z = init_tables ((merged g1)\<lparr>block_compress := ?b AND BLOCK_MASK,
        maxbits := unat (?b AND BIT_MASK), maxmaxcode := 2 ^ unat (?b AND BIT_MASK), n_bits := INIT_BITS, maxcode := MAXCODE INIT_BITS\<rparr>) in
        z\<lparr>free_ent := (if block_compress z \<noteq> 0 then FIRST else 256), oldcode := -1, stack := []\<rparr>)"
      by (simp add: g_begin_def Let_def merged_def init_tables_def cong: if_cong)
    then show ?thesis unfolding h(2) begun_def by simp
  qed
  moreover have "tally (g_begin ?g2) = int (length (zin (merged g))) - 3"
  proof -
    have "length (zin (merged (g_begin ?g2))) = length (zin (merged g)) - 3"
      unfolding calculation by (simp add: begun_def Let_def init_tables_def)
    then show ?thesis using assms(3) by (simp add: tally_def g_begin_def Let_def good_header_def)
  qed
  ultimately show thesis using that z by blast
qed

section \<open>Complete files\<close>

lemma first_delivers:
  assumes c: "complete mb (zin zs) rest" and mb: "12 \<le> mb" "mb \<le> 16" and n: "0 < n"
    and s: "length (gbuf zs) = BITS" "\<not> clear_flg zs" "roffset zs = 0" "gsize zs = 0"
  shows "good_header (zin zs) \<and> (\<exists>zs'. read_loop_z (begun (zin zs ! 2) zs) n [] =
    Some (Inr (Ret (min n (length rest)), take n rest, zs')) \<and> holds mb zs' (drop n rest))"
proof -
  let ?M = "room mb"
  obtain body b cs where f: "zin zs = header mb @ body" "tail_holds mb (astate mb []) body (uint b # cs)"
    "understands ?M (after ?M [uint b]) cs" "fit mb (uint b # cs)"
    "rest = (b :: u8) # hears ?M (after ?M [uint b]) cs"
    using complete_first [OF c mb(1)] .
  have h: "zin zs ! 2 = word_of_nat mb OR BLOCK_MASK" "drop 3 (zin zs) = body" "good_header (zin zs)"
    using f(1) header_bits [OF mb] mb by (simp_all add: header_def magic_header_def good_header_def BITS_def)
  define zs3 where "zs3 = begun (zin zs ! 2) zs"
  have z3: "zin zs3 = body" "maxbits zs3 = mb" "maxmaxcode zs3 = 2 ^ mb" "n_bits zs3 = INIT_BITS" "maxcode zs3 = MAXCODE INIT_BITS"
    "free_ent zs3 = FIRST" "block_compress zs3 \<noteq> 0" "state zs3 = S_MIDDLE" "oldcode zs3 = -1" "stack zs3 = []"
    "gbuf zs3 = gbuf zs" "clear_flg zs3 = clear_flg zs" "roffset zs3 = 0" "gsize zs3 = 0" "tables zs3 []"
    using h header_bits [OF mb] s by (simp_all add: zs3_def begun_def Let_def init_tables_def tables_def)
  obtain zs4 where g: "getcode zs3 = Inr (uint b, zs4)" "loaded mb zs4 [uint b] cs" "reads_same zs3 zs4"
    using getcode_first [of mb zs3 "uint b" cs] f(2) mb s z3 by auto
  note same = reads_sameD [OF g(3)]
  have b: "uint b \<noteq> CLEAR" "uint b \<noteq> FIRST" "-1 < uint b" unfolding CLEAR_def FIRST_def using uint_byte [of b] unsigned_greater_eq [of b, where 'a = int] by linarith+
  have R: "after ?M [] = fresh_receiver" by (simp add: after_def)
  have sy: "says fresh_receiver (uint b) = [b]" using b by (simp add: says_def expand_byte)
  have ac: "r_inv ?M fresh_receiver" "accepts fresh_receiver (uint b)" by (simp_all add: r_inv_def accepts_def valid_byte)
  obtain c0 where e: "expand_code zs4 (uint b) =
      Inr (Some (zs4\<lparr>incode := uint b, code := c0, stack := [b], finchar := uint b\<rparr>))"
    using expand_code_says [of zs4 fresh_receiver ?M "uint b"] tables_same [OF z3(15), of zs4] ac b(1) room_BITS [OF mb] z3 same sy
    by (auto simp: FIRST_def)
  let ?zs5 = "zs4\<lparr>incode := uint b, code := c0, stack := [b], finchar := uint b\<rparr>"
  have "at_chars mb ?zs5 [] (uint b) cs"
    unfolding at_chars_def R using loaded_same [OF g(2), of ?zs5] tables_same [OF z3(15), of ?zs5] same z3 ac b f(3,4) sy by simp
  from entry_made [OF this mb] have a: "at_code mb (new_entry (?zs5\<lparr>stack := []\<rparr>)) [uint b] cs" by simp
  have "read_loop_z zs3 n [] = read_loop_z (new_entry (?zs5\<lparr>stack := []\<rparr>)) (n - 1) [b]"
    using g(1) e b n by (subst read_loop_z.simps) simp
  moreover obtain zs' where "read_loop_z (new_entry (?zs5\<lparr>stack := []\<rparr>)) (n - 1) [b] =
      Some (Inr (Ret (length [b] + min (n - 1) (length (tl rest))), [b] @ take (n - 1) (tl rest), zs'))"
      "holds mb zs' (drop (n - 1) (tl rest))"
    using read_loop_delivers [OF a mb, of "n - 1" "[b]"] f(5) by auto
  ultimately show ?thesis using n f(5) h(3) unfolding zs3_def by (cases n) auto
qed

section \<open>Later calls\<close>

lemma g_zread_later:
  assumes "state (g_zs g) \<noteq> S_START" "zread (merged g) n = Some y"
  shows "\<exists>y'. g_zread g n = Some y' \<and> follows_run g y y'"
proof (cases "n = 0 \<or> state (g_zs g) = S_EOF")
  case True
  then show ?thesis using assms(2)
    by (cases "state (g_zs g)") (auto simp: zread_def g_zread_def follows_run_Inr split: if_splits)
next
  case False
  then have m: "state (g_zs g) = S_MIDDLE" using assms(1) by (cases "state (g_zs g)") auto
  have "emitting read_loop_z (merged g) n [] = Some y"
    using assms(2) m False by (simp add: zread_def read_middle_def emitting_def)
  from emitting_follows [OF g_read_loop_follows this] show ?thesis
    using m False by (simp add: g_zread_def g_read_middle_def g_emitting_def Let_def)
qed

text \<open>No call goes back to the start.\<close>

lemma getcode_state: "getcode zs = Inr (c, zs') \<Longrightarrow> state zs' = state zs"
proof -
  have t: "state zs' = state zs" if "take_code zs = Inr (c, zs')" for zs zs' c
    using that by (auto simp: take_code_def Let_def bind_r_def split: sum.splits if_splits)
  have r: "state zs' = state zs" if "refill zs = Inr (b, zs')" for zs zs' b
    using that by (auto simp: refill_def Let_def widen_def first_width_def split: if_splits)
  assume "getcode zs = Inr (c, zs')"
  then show ?thesis by (auto simp: getcode_def bind_r_def split: sum.splits if_splits dest!: t r)
qed

lemma expand_code_state: "expand_code zs c = Inr (Some zs') \<Longrightarrow> state zs' = state zs"
  by (auto simp: expand_code_def Let_def bind_r_Inr split: if_splits)

lemma read_loop_state:
  "read_loop_z zs n acc = Some y \<Longrightarrow> state zs \<noteq> S_START \<Longrightarrow> y = Inr (r, bs, zs') \<Longrightarrow> state zs' \<noteq> S_START"
proof (induction arbitrary: r bs zs' rule: read_loop_z.raw_induct [rotated, consumes 1, case_names step])
  case (step rec zs n acc y)
  note st = getcode_state [of zs] expand_code_state
  show ?case
    using step.hyps step.prems
    by (auto split: sum.splits prod.splits if_splits option.splits dest!: st dest: step.IH simp: clear_table_def new_entry_def Let_def)
qed

section \<open>Delivery\<close>

text \<open>What a reader still has to deliver, and that all bytes of the file but the header are counted or left.\<close>

definition g_holds :: "int \<Rightarrow> gzreader \<Rightarrow> bytes \<Rightarrow> bool" where
  "g_holds N g rest \<longleftrightarrow> (\<exists>mb. 12 \<le> mb \<and> mb \<le> 16 \<and> holds mb (merged g) rest) \<and>
     N = (if state (g_zs g) = S_START then int (length (zin (merged g))) - 3 else tally g)"

lemma zread_state:
  assumes "zread zs n = Some (Inr (r, bs, zs'))" "state zs \<noteq> S_START"
  shows "state zs' \<noteq> S_START"
proof (cases "n = 0 \<or> state zs = S_EOF")
  case True
  then show ?thesis using assms by (cases "state zs") (auto simp: zread_def split: if_splits)
next
  case False
  then have "emitting read_loop_z zs n [] = Some (Inr (r, bs, zs'))" "state zs = S_MIDDLE"
    using assms by (cases "state zs"; simp add: zread_def read_middle_def emitting_def)+
  then show ?thesis
    by (auto simp: emitting_def new_entry_def Let_def split: sum.splits prod.splits option.splits if_splits dest!: read_loop_state [OF _ _ refl])
qed

lemma g_zread_delivers:
  assumes "g_holds N g rest" and n: "0 < n"
  shows "\<exists>g'. g_zread g n = Some (Inr (Ret (min n (length rest)), take n rest, g')) \<and> g_holds N g' (drop n rest)"
proof -
  obtain mb where h: "holds mb (merged g) rest" and mb: "12 \<le> mb" "mb \<le> 16" using assms(1) by (auto simp: g_holds_def)
  show ?thesis
  proof (cases "state (g_zs g) = S_START")
    case True
    then have s: "complete mb (zin (merged g)) rest" "length (gbuf (merged g)) = BITS" "\<not> clear_flg (merged g)"
      "roffset (merged g) = 0" "gsize (merged g) = 0"
      using h by (auto simp: holds_def at_chars_def)
    obtain zs' where d: "good_header (zin (merged g))" "read_loop_z (begun (zin (merged g) ! 2) (merged g)) n [] =
        Some (Inr (Ret (min n (length rest)), take n rest, zs'))" "holds mb zs' (drop n rest)"
      using first_delivers [OF s(1) mb n s(2-5)] by blast
    obtain g1 where g1: "g_zread g n = g_read_loop g1 n []" "merged g1 = begun (zin (merged g) ! 2) (merged g)"
        "tally g1 = int (length (zin (merged g))) - 3"
      using g_zread_good_header [OF True n d(1)] .
    obtain g' where g': "g_zread g n = Some (Inr (Ret (min n (length rest)), take n rest, g'))" "merged g' = zs'" "tally g' = tally g1"
      using g_read_loop_follows d(2) unfolding tracked_def g1(1) g1(2) [symmetric] by (fastforce simp: follows_run_Inr)
    have "state (begun (zin (merged g) ! 2) (merged g)) \<noteq> S_START" by (simp add: begun_def Let_def init_tables_def)
    then have "state zs' \<noteq> S_START" using read_loop_state [OF d(2) _ refl] by blast
    then show ?thesis using g' g1(3) d(3) mb True assms(1) by (auto simp: g_holds_def)
  next
    case False
    obtain zs' where z: "zread (merged g) n = Some (Inr (Ret (min n (length rest)), take n rest, zs'))" "holds mb zs' (drop n rest)"
      using zread_delivers [OF h mb n] by blast
    obtain g' where g': "g_zread g n = Some (Inr (Ret (min n (length rest)), take n rest, g'))" "merged g' = zs'" "tally g' = tally g"
      using g_zread_later [OF False z(1)] by (auto simp: follows_run_Inr)
    moreover have "state zs' \<noteq> S_START" using zread_state [OF z(1)] False by simp
    ultimately show ?thesis using z(2) mb False assms(1) by (auto simp: g_holds_def)
  qed
qed

section \<open>Streams over a reader\<close>

text \<open>What stdio needs of a reading function.\<close>

locale stream_reader =
  fixes rd :: "'s \<Rightarrow> nat \<Rightarrow> (zret \<times> bytes \<times> 's) zrun" and has :: "'s \<Rightarrow> bytes \<Rightarrow> bool"
  assumes delivers: "has z rest \<Longrightarrow> 0 < n \<Longrightarrow>
    \<exists>z'. rd z n = Some (Inr (Ret (min n (length rest)), take n rest, z')) \<and> has z' (drop n rest)"
begin

definition s_holds :: "'s stream \<Rightarrow> bytes \<Rightarrow> bool" where
  "s_holds r rest \<longleftrightarrow> (\<exists>left. has (s_cookie r) left \<and> rest = s_avail r @ left \<and> (s_eof r \<longrightarrow> left = [])) \<and> \<not> s_err r"

lemma fread_delivers:
  assumes "0 < bufsz"
  shows "s_holds r rest \<Longrightarrow> \<exists>r'. fread_s rd bufsz n r = Some (Inr (take n rest, r')) \<and> s_holds r' (drop n rest)"
proof (induction "n - length (s_avail r)" arbitrary: r rule: less_induct)
  case less
  obtain left where l: "has (s_cookie r) left" "rest = s_avail r @ left" "s_eof r \<longrightarrow> left = []" "\<not> s_err r"
    using less.prems by (auto simp: s_holds_def)
  show ?case
  proof (cases "n \<le> length (s_avail r) \<or> s_eof r")
    case True
    then have "take n rest = take n (s_avail r)" "drop n rest = drop n (s_avail r) @ left" using l by auto
    then show ?thesis using True l by (auto simp: fread_s.simps [of rd bufsz n r] s_holds_def)
  next
    case False
    obtain z' where z: "rd (s_cookie r) bufsz = Some (Inr (Ret (min bufsz (length left)), take bufsz left, z'))" "has z' (drop bufsz left)"
      using delivers [OF l(1) assms] by blast
    show ?thesis
    proof (cases "left = []")
      case True
      then show ?thesis using False z l by (auto simp: fread_s.simps [of rd bufsz n r] s_holds_def)
    next
      case ne: False
      let ?r1 = "r\<lparr>s_cookie := z', s_avail := s_avail r @ take bufsz left\<rparr>"
      have t: "0 < length (take bufsz left)" using ne assms by simp
      then have f: "fread_s rd bufsz n r = fread_s rd bufsz n ?r1"
        using False z(1) by (simp add: fread_s.simps [of rd bufsz n r])
      have "n - length (s_avail ?r1) < n - length (s_avail r)" using t False by (simp del: length_take length_greater_0_conv) linarith
      moreover have "s_holds ?r1 rest" using z(2) l False by (auto simp: s_holds_def)
      ultimately show ?thesis unfolding f by (rule less.hyps)
    qed
  qed
qed

end

interpretation gz: stream_reader g_zread "g_holds N" for N
  by unfold_locales (rule g_zread_delivers)

text \<open>The loop of \<open>zuncompress\<close>.\<close>

lemma zun_loop_delivers:
  assumes "0 < bufsz"
  shows "gz.s_holds N r rest \<Longrightarrow>
    \<exists>r'. zun_loop bufsz tflag [] r bout out = Some (Inr (True, bout + length rest, (if tflag then out else out @ rest), r')) \<and>
      gz.s_holds N r' []"
proof (induction "length rest" arbitrary: r rest bout out rule: less_induct)
  case less
  obtain r1 where f: "fread_s g_zread bufsz SIZEOF_BUF r = Some (Inr (take 4 rest, r1))" "gz.s_holds N r1 (drop 4 rest)"
    using gz.fread_delivers [OF assms less.prems, of SIZEOF_BUF] by (auto simp: SIZEOF_BUF_def)
  show ?case
  proof (cases "rest = []")
    case True
    then show ?thesis using f by (subst zun_loop.simps) simp
  next
    case False
    have "\<exists>r'. zun_loop bufsz tflag [] r1 (bout + length (take 4 rest)) (if tflag then out else out @ take 4 rest) =
        Some (Inr (True, bout + length (take 4 rest) + length (drop 4 rest),
          (if tflag then (if tflag then out else out @ take 4 rest) else (if tflag then out else out @ take 4 rest) @ drop 4 rest), r')) \<and>
        gz.s_holds N r' []"
      by (rule less.hyps [OF _ f(2)]) (use False in simp)
    then show ?thesis using f(1) False
      by (subst zun_loop.simps) (cases tflag; simp add: add.assoc min_def split: if_splits)
  qed
qed

end
