(* ===== verification/Zuncompress_Safe.thy ===== *)
theory Zuncompress_Safe
  imports Zuncompress_Props
begin

text \<open>
  The reader of \<^verbatim>\<open>gzip\<close> on arbitrary files: every call returns, nothing is accessed outside its bounds, and
  \<open>zuncompress\<close> comes to an end.
\<close>

section \<open>Progress\<close>

abbreviation before :: "((nat \<times> nat) \<times> (nat \<times> nat)) set" where
  "before \<equiv> less_than <*lex*> less_than"

lemma before_trans: "(a, b) \<in> before \<Longrightarrow> (b, c) \<in> before \<Longrightarrow> (a, c) \<in> before"
  by (meson trans_lex_prod trans_less_than transD)

text \<open>A call that does not reach the end of the file has filled the buffer and used input.\<close>

definition advanced :: "zreader \<Rightarrow> nat \<Rightarrow> bytes \<Rightarrow> zreader \<Rightarrow> bool" where
  "advanced zs n bs zs' \<longleftrightarrow> state zs' = S_EOF \<or> length bs = n \<and> (left_over zs', left_over zs) \<in> before"

lemma advanced_before:
  assumes "advanced zs1 n bs zs'" "left_over zs1 = m" "(m, left_over zs) \<in> before"
  shows "advanced zs n bs zs'"
  using assms before_trans unfolding advanced_def by blast

lemma read_loop_advances:
  "read_loop_z zs n acc = Some y \<Longrightarrow> safe_head zs \<Longrightarrow> y = Inr (Ret k, bs, zs') \<Longrightarrow> advanced zs (length acc + n) bs zs'"
proof (induction arbitrary: k bs zs' rule: read_loop_z.raw_induct [rotated, consumes 1, case_names step])
  case (step rec zs n acc y)
  have s: "geometry zs" "descends zs" "stack zs = []" "state zs = S_MIDDLE" using step.prems by (auto simp: safe_head_def)
  obtain c zs1 where g: "getcode zs = Inr (c, zs1)" "reads_same zs zs1"
    "c = -1 \<or> 0 \<le> c \<and> c < maxmaxcode zs \<and> geometry zs1 \<and> (left_over zs1, left_over zs) \<in> before"
    using getcode_safe [OF s(1)] .
  note same = reads_sameD [OF g(2)]
  have body: "dispatch rec c zs1 n acc = Some y"
    using step.hyps g(1) unfolding dispatch_def emitting_def by simp
  show ?case
  proof (cases "c = -1")
    case True
    then show ?thesis using body step.prems(2) by (auto simp: dispatch_def advanced_def)
  next
    case False
    then have c: "0 \<le> c" "c < maxmaxcode zs1" "geometry zs1" "(left_over zs1, left_over zs) \<in> before"
      using g(3) same by auto
    have d: "descends zs1" "stack zs1 = []" "state zs1 = S_MIDDLE" using s same by (simp_all add: descends_def)
    show ?thesis
    proof (cases "c = CLEAR \<and> block_compress zs1 \<noteq> 0")
      case True
      note t = clear_table_safe [OF c(3) d conjunct2 [OF True]]
      have "rec (clear_table zs1) n acc = Some y" using body True by (simp add: dispatch_def CLEAR_def)
      from step.IH [OF this t(1) step.prems(2)] show ?thesis using t(2) c(4) by (rule advanced_before)
    next
      case no_clear: False
      show ?thesis
      proof (rule expand_code_safe [OF d(1,2) c(1)])
        assume "expand_code zs1 c = Inr None"
        then show ?thesis using body no_clear c(1) step.prems(2) by (auto simp: dispatch_def)
      next
        fix c0 st b
        let ?zs2 = "zs1\<lparr>incode := c, code := c0, stack := st, finchar := b\<rparr>"
        assume e: "expand_code zs1 c = Inr (Some ?zs2)" "st \<noteq> []" "c < free_ent zs1 \<or> c = free_ent zs1 \<and> oldcode zs1 \<noteq> -1"
        have s2: "safe_chars ?zs2" using c d e by (simp add: safe_chars_def geometry_def descends_def)
        have lo: "left_over (?zs2\<lparr>stack := st'\<rparr>) = left_over zs1" for st' by (simp add: left_over_def)
        have em: "emitting rec ?zs2 n acc = Some y" using body no_clear c(1) e(1) by (auto simp: dispatch_def)
        show ?thesis
        proof (cases "n < length st")
          case True
          then show ?thesis using em emit_eq [OF e(2), of n acc] step.prems(2) c(4) lo
            by (auto simp: emitting_def advanced_def)
        next
          case False
          then have "rec (new_entry (?zs2\<lparr>stack := []\<rparr>)) (n - length st) (acc @ st) = Some y"
            using em emit_eq [OF e(2), of n acc] by (simp add: emitting_def)
          note a = step.IH [OF this new_entry_safe(1) [OF s2] step.prems(2)]
          have "left_over (new_entry (?zs2\<lparr>stack := []\<rparr>)) = left_over zs1"
            using new_entry_safe(2) [OF s2] by (simp add: left_over_def)
          from advanced_before [OF a this c(4)] show ?thesis using False by simp
        qed
      qed
    qed
  qed
qed

section \<open>Calls\<close>

definition untouched :: "zreader \<Rightarrow> bool" where
  "untouched zs \<longleftrightarrow> state zs = S_START \<and> length (gbuf zs) = BITS \<and> \<not> clear_flg zs \<and> roffset zs = 0 \<and> gsize zs = 0 \<and>
     codetab zs 256 = 0"

lemma begun_safe:
  assumes "untouched zs" "good_header (zin zs)"
  shows "safe_head (begun (zin zs ! 2) zs)"
proof -
  let ?z = "begun (zin zs ! 2) zs"
  define mb where "mb = unat ((zin zs ! 2) AND BIT_MASK)"
  have mb: "12 \<le> mb" "mb \<le> 16" using assms(2) by (simp_all add: good_header_def mb_def BITS_def)
  have m: "(2 :: int) ^ 12 \<le> 2 ^ mb" using mb by (intro power_increasing) auto
  have z: "length (gbuf ?z) = BITS" "maxbits ?z = mb" "n_bits ?z = INIT_BITS" "maxmaxcode ?z = 2 ^ mb" "maxcode ?z = MAXCODE INIT_BITS"
    "free_ent ?z = (if block_compress ?z \<noteq> 0 then FIRST else 256)" "roffset ?z = 0" "gsize ?z = 0" "codetab ?z 256 = 0"
    "oldcode ?z = -1" "stack ?z = []" "state ?z = S_MIDDLE"
    using assms(1) by (simp_all add: untouched_def begun_def Let_def init_tables_def mb_def)
  have "geometry ?z"
    using z(1-8) mb m by (auto simp: geometry_def INIT_BITS_def BITS_def FIRST_def mcode_def)
  moreover have "codetab ?z i = 0" if "256 \<le> i" "i < free_ent ?z" for i
  proof -
    have "i = 256" using that z(6) by (simp add: FIRST_def split: if_splits)
    then show ?thesis using z(9) by simp
  qed
  then have "descends ?z" using z(6,10) by (auto simp: descends_def BITS_def FIRST_def)
  ultimately show ?thesis using z(11,12) by (simp add: safe_head_def)
qed

definition ready :: "gzreader \<Rightarrow> bool" where
  "ready g \<longleftrightarrow> untouched (merged g) \<or> state (merged g) = S_EOF \<or> safe_chars (merged g)"

definition work :: "gzreader \<Rightarrow> nat \<times> (nat \<times> nat) \<times> nat" where
  "work g = (case state (merged g) of S_START \<Rightarrow> 2 | S_MIDDLE \<Rightarrow> 1 | S_EOF \<Rightarrow> 0, left_over (merged g), length (stack (merged g)))"

abbreviation less_work :: "((nat \<times> (nat \<times> nat) \<times> nat) \<times> (nat \<times> (nat \<times> nat) \<times> nat)) set" where
  "less_work \<equiv> less_than <*lex*> before <*lex*> less_than"

text \<open>A call returns; if it reports bytes and the file is not at its end, the buffer is full and there is less
  work left.\<close>

definition called :: "gzreader \<Rightarrow> nat \<Rightarrow> (zret \<times> bytes \<times> gzreader) zrun \<Rightarrow> bool" where
  "called g n res \<longleftrightarrow> (\<exists>r bs g'. res = Some (Inr (r, bs, g')) \<and>
     (\<forall>k. r = Ret k \<longrightarrow> state (merged g') = S_EOF \<or>
        safe_chars (merged g') \<and> length bs = n \<and> (work g', work g) \<in> less_work))"

lemma call_start:
  assumes "untouched (merged g)" and n: "0 < n"
  shows "called g n (g_zread g n)"
proof (cases "good_header (zin (merged g))")
  case False
  then show ?thesis using g_zread_bad_header [of g n] assms by (auto simp: called_def untouched_def)
next
  case True
  let ?z = "begun (zin (merged g) ! 2) (merged g)"
  have s: "safe_head ?z" using begun_safe [OF assms(1) True] .
  then obtain r bs zs' where y: "read_loop_z ?z n [] = Some (Inr (r, bs, zs'))"
    "\<forall>k. r = Ret k \<longrightarrow> state zs' = S_EOF \<or> safe_chars zs'"
    using read_loop_safe [OF s, of n "[]"] by (auto simp: call_ok_def)
  have st: "state (g_zs g) = S_START" using assms(1) by (simp add: untouched_def)
  obtain g1 where g1: "g_zread g n = g_read_loop g1 n []" "merged g1 = ?z"
    using g_zread_good_header [OF st n True] .
  then obtain g' where g': "g_zread g n = Some (Inr (r, bs, g'))" "merged g' = zs'"
    using g_read_loop_follows y(1) unfolding tracked_def g1(1) g1(2) [symmetric] by (fastforce simp: follows_run_Inr)
  have a: "advanced ?z n bs zs'" if "r = Ret k" for k
    using read_loop_advances [OF y(1) s] that by simp
  have "(work g', work g) \<in> less_work" if "safe_chars zs'"
    using that st g'(2) by (auto simp: work_def safe_chars_def)
  then show ?thesis using g' y(2) a unfolding called_def advanced_def by blast
qed

lemma call_later:
  assumes s: "safe_chars (merged g)" and n: "0 < n"
  shows "called g n (g_zread g n)"
proof -
  have st: "state (g_zs g) = S_MIDDLE" "stack (merged g) \<noteq> []" using s by (auto simp: safe_chars_def)
  obtain r bs zs' where y: "zread (merged g) n = Some (Inr (r, bs, zs'))"
    "\<forall>k. r = Ret k \<longrightarrow> state zs' = S_EOF \<or> safe_chars zs'"
    using zread_safe_next [of "merged g" n] s n by (auto simp: call_ok_def)
  obtain g' where g': "g_zread g n = Some (Inr (r, bs, g'))" "merged g' = zs'"
    using g_zread_later [OF _ y(1)] st by (auto simp: follows_run_Inr)
  have em: "emitting read_loop_z (merged g) n [] = Some (Inr (r, bs, zs'))"
    using y(1) st n by (simp add: zread_def read_middle_def emitting_def)
  have "state zs' = S_EOF \<or> length bs = n \<and> (work g', work g) \<in> less_work" if r: "r = Ret k" for k
  proof (cases "n < length (stack (merged g))")
    case True
    then have "bs = take n (stack (merged g))" "zs' = (merged g)\<lparr>stack := drop n (stack (merged g))\<rparr>"
      using em emit_eq [OF st(2), of n "[]"] by (auto simp: emitting_def)
    then show ?thesis using True n g'(2) by (auto simp: work_def left_over_def)
  next
    case False
    let ?z = "new_entry ((merged g)\<lparr>stack := []\<rparr>)"
    have "read_loop_z ?z (n - length (stack (merged g))) (stack (merged g)) = Some (Inr (r, bs, zs'))"
      using False em emit_eq [OF st(2), of n "[]"] by (simp add: emitting_def)
    then have "advanced ?z (length (stack (merged g)) + (n - length (stack (merged g)))) bs zs'"
      using read_loop_advances new_entry_safe(1) [OF s] r by blast
    moreover have "state zs' \<noteq> S_START" using zread_state [OF y(1)] st by simp
    ultimately show ?thesis using False new_entry_safe(2) [OF s] g'(2) st by (auto simp: advanced_def work_def split: zphase.splits)
  qed
  then show ?thesis using g' y(2) unfolding called_def by blast
qed

section \<open>\<open>zuncompress\<close>\<close>

text \<open>A stream: as long as the reader has not come to the end, what stdio holds is a whole number of requests.\<close>

definition steady :: "gzreader stream \<Rightarrow> bool" where
  "steady r \<longleftrightarrow> s_eof r \<or> state (merged (s_cookie r)) = S_EOF \<or> 4 dvd length (s_avail r) \<and> ready (s_cookie r)"

definition stream_work :: "gzreader stream \<Rightarrow> (nat \<times> (nat \<times> nat) \<times> nat) \<times> nat" where
  "stream_work r = (work (s_cookie r), length (s_avail r))"

lemma fread_avail:
  assumes "n \<le> length (s_avail r) \<or> s_eof r"
  shows "fread_s rd b n r = Some (Inr (take n (s_avail r), r\<lparr>s_avail := drop n (s_avail r)\<rparr>))"
  using assms by (simp add: fread_s.simps [of rd b n r])

lemma fread_at_end:
  assumes "state (merged (s_cookie r)) = S_EOF" "0 < b" "0 < n"
  shows "\<exists>r1. fread_s g_zread b n r = Some (Inr (take n (s_avail r), r1)) \<and>
    s_cookie r1 = s_cookie r \<and> s_avail r1 = drop n (s_avail r)"
proof (cases "n \<le> length (s_avail r) \<or> s_eof r")
  case True
  then show ?thesis by (simp add: fread_avail)
next
  case False
  then show ?thesis using assms by (simp add: fread_s.simps [of g_zread b n r] g_zread_def)
qed

lemma fread_steady:
  assumes b: "0 < b" "4 dvd b" and r: "steady r"
  shows "\<exists>bs r1. fread_s g_zread b 4 r = Some (Inr (bs, r1)) \<and>
    (bs = [] \<or> steady r1 \<and> (stream_work r1, stream_work r) \<in> less_work <*lex*> less_than)"
proof (cases "4 \<le> length (s_avail r) \<or> s_eof r")
  case True
  let ?r1 = "r\<lparr>s_avail := drop 4 (s_avail r)\<rparr>"
  have "steady ?r1" using r True by (auto simp: steady_def dvd_diff_nat)
  then show ?thesis using fread_avail [OF True, of g_zread b] by (auto simp: stream_work_def)
next
  case False
  show ?thesis
  proof (cases "state (merged (s_cookie r)) = S_EOF")
    case True
    then obtain r1 where "fread_s g_zread b 4 r = Some (Inr (take 4 (s_avail r), r1))" "s_cookie r1 = s_cookie r"
        "s_avail r1 = drop 4 (s_avail r)"
      using fread_at_end [of r b 4] b by auto
    then show ?thesis using True by (auto simp: steady_def stream_work_def)
  next
    case mid: False
    then have a: "s_avail r = []" "ready (s_cookie r)"
      using r False dvd_imp_le [of 4 "length (s_avail r)"] by (auto simp: steady_def)
    have "called (s_cookie r) b (g_zread (s_cookie r) b)"
      using a(2) mid call_start call_later b(1) by (auto simp: ready_def)
    then obtain ret bs g' where c: "g_zread (s_cookie r) b = Some (Inr (ret, bs, g'))"
      "\<And>k. ret = Ret k \<Longrightarrow> state (merged g') = S_EOF \<or> safe_chars (merged g') \<and> length bs = b \<and> (work g', work (s_cookie r)) \<in> less_work"
      unfolding called_def by blast
    let ?r1 = "r\<lparr>s_cookie := g', s_avail := bs\<rparr>"
    show ?thesis
    proof (cases "\<exists>k. ret = Ret k \<and> bs \<noteq> []")
      case stop: False
      then show ?thesis using False c(1) a(1)
        by (cases ret) (auto simp: fread_s.simps [of g_zread b 4 r] Let_def)
    next
      case True
      then have f: "fread_s g_zread b 4 r = fread_s g_zread b 4 ?r1"
        using False c(1) a(1) by (auto simp: fread_s.simps [of g_zread b 4 r])
      show ?thesis
      proof (cases "state (merged g') = S_EOF")
        case eof: True
        then obtain r1 where r1: "fread_s g_zread b 4 ?r1 = Some (Inr (take 4 bs, r1))" "s_cookie r1 = g'" "s_avail r1 = drop 4 bs"
          using fread_at_end [of ?r1 b 4] b by auto
        have "(work g', work (s_cookie r)) \<in> less_work" using eof mid by (auto simp: work_def split: zphase.splits)
        then show ?thesis using f r1 eof by (auto simp: steady_def stream_work_def)
      next
        case False
        then have s: "safe_chars (merged g')" "length bs = b" "(work g', work (s_cookie r)) \<in> less_work" using c(2) True by auto
        have "4 \<le> length (s_avail ?r1)" using s(2) b dvd_imp_le by auto
        then have "fread_s g_zread b 4 ?r1 = Some (Inr (take 4 bs, ?r1\<lparr>s_avail := drop 4 bs\<rparr>))" by (simp add: fread_avail)
        then show ?thesis using f s b by (auto simp: steady_def stream_work_def ready_def dvd_diff_nat)
      qed
    qed
  qed
qed

lemma zun_loop_returns:
  assumes b: "0 < b" "4 dvd b"
  shows "steady r \<Longrightarrow> \<exists>ok m out' r'. zun_loop b tflag outs r bout out = Some (Inr (ok, m, out', r'))"
proof (induction "stream_work r" arbitrary: r outs bout out
    rule: wf_induct_rule [OF wf_lex_prod [OF wf_lex_prod [OF wf_less_than wf_lex_prod [OF wf_lex_prod [OF wf_less_than wf_less_than] wf_less_than]] wf_less_than]])
  case 1
  obtain bs r1 where f: "fread_s g_zread b 4 r = Some (Inr (bs, r1))"
    "bs = [] \<or> steady r1 \<and> (stream_work r1, stream_work r) \<in> less_work <*lex*> less_than"
    using fread_steady [OF b 1(2)] by blast
  show ?case
  proof (cases "bs = []")
    case True
    then show ?thesis using f(1) by (subst zun_loop.simps) (auto simp: SIZEOF_BUF_def)
  next
    case False
    then have "\<exists>ok m out' r'. zun_loop b tflag outs' r1 bout' out1 = Some (Inr (ok, m, out', r'))" for outs' bout' out1
      using 1(1) f(2) by blast
    then show ?thesis using f(1) by (subst zun_loop.simps) (auto simp: SIZEOF_BUF_def)
  qed
qed

lemma zdopen_untouched: "zdopen mem opens fd past = Some zs \<Longrightarrow>
    untouched zs \<and> zin zs = fd \<and> untouched (merged \<lparr>g_zs = zs, compressed_pre = pre, total_compressed_bytes = tot\<rparr>)"
  by (auto simp: zdopen_def untouched_def zstate_init_def zstate.defs zreader.defs BITS_def split: if_splits)

section \<open>Properties\<close>

text \<open>C7: \<^verbatim>\<open>gzip\<close> reads what \<^verbatim>\<open>compress\<close> writes. Data written through \<open>zopen\<close> in any portions and closed makes
  a file from which \<open>zuncompress\<close> writes exactly the data and returns their length without an error, however many of
  its bytes \<^verbatim>\<open>gzip\<close> had read before and whatever size the buffer of stdio has; with \<open>-t\<close> it returns the length and
  writes nothing. The count of compressed bytes falls short of the file by its header of three bytes at least.\<close>

theorem gzip_decodes_compress:
  assumes "bits = 0 \<or> 12 \<le> bits \<and> bits \<le> 16" "concat chunks \<noteq> []" "0 < bufsz"
  shows "\<exists>zw zw' file.
    zopen ''w'' bits True True old past [] = Inr (Zw zw) \<and>
    zwrites zw chunks = Some (Inr (map (Ret \<circ> length) chunks, zw')) \<and>
    zclose_w zw' = Inr (True, file) \<and>
    (\<forall>k. \<exists>zs r. zdopen True True (drop k file) past = Some zs \<and>
      zuncompress bufsz tflag True [] tot (take k file) zs =
        Some (Inr (Some (length (concat chunks)), (if tflag then [] else concat chunks), r)) \<and>
      \<not> s_err r \<and> total_compressed_bytes (s_cookie r) \<le> int (length file) - 3)"
proof -
  note w = width_ok [OF assms(1)]
  obtain zw where o: "zopen ''w'' bits True True old past [] = Inr (Zw zw)" "opened_w (width bits) (carefree zw)"
    "wscript zw = []" using zopen_w w by metis
  have zw: "opened_w (width bits) zw" using carefree_id [OF o(3)] o(2) by simp
  obtain zw' "file" where f: "zwrites zw chunks = Some (Inr (map (Ret \<circ> length) chunks, zw'))"
    "zclose_w zw' = Inr (True, file)" "complete (width bits) file (concat chunks)"
    by (rule written [OF zw _ _ assms(2)]) (use w in auto)
  have "\<exists>zs r. zdopen True True (drop k file) past = Some zs \<and>
      zuncompress bufsz tflag True [] tot (take k file) zs =
        Some (Inr (Some (length (concat chunks)), (if tflag then [] else concat chunks), r)) \<and>
      \<not> s_err r \<and> total_compressed_bytes (s_cookie r) \<le> int (length file) - 3" for k
  proof -
    obtain zs where zs: "zdopen True True (drop k file) past = Some zs" by (simp add: zdopen_def)
    let ?g = "\<lparr>g_zs = zs, compressed_pre = take k file, total_compressed_bytes = tot\<rparr>"
    let ?r = "\<lparr>s_cookie = ?g, s_avail = [], s_eof = False, s_err = False\<rparr>"
    note u = zdopen_untouched [OF zs, of "take k file" tot]
    have "zin (merged ?g) = file" using u by (simp add: zin_merged)
    then have "g_holds (int (length file) - 3) ?g (concat chunks)"
      using u f(3) w by (auto simp: g_holds_def holds_def untouched_def)
    then have "gz.s_holds (int (length file) - 3) ?r (concat chunks)" by (simp add: gz.s_holds_def)
    then obtain r where r: "zun_loop bufsz tflag [] ?r 0 [] = Some (Inr (True, length (concat chunks), (if tflag then [] else concat chunks), r))"
        "gz.s_holds (int (length file) - 3) r []"
      using zun_loop_delivers [OF assms(3), of "int (length file) - 3" ?r "concat chunks" tflag 0 "[]"] by auto
    then have h: "g_holds (int (length file) - 3) (s_cookie r) []" "\<not> s_err r" by (auto simp: gz.s_holds_def)
    have "state (g_zs (s_cookie r)) \<noteq> S_START"
    proof
      assume "state (g_zs (s_cookie r)) = S_START"
      then obtain mb where "complete mb (zin (merged (s_cookie r))) []" "12 \<le> mb"
        using h(1) by (auto simp: g_holds_def holds_def at_chars_def)
      then show False by (rule complete_first) simp
    qed
    then have "tally (s_cookie r) = int (length file) - 3" using h(1) by (simp add: g_holds_def)
    then have "total_compressed_bytes (s_cookie r) \<le> int (length file) - 3" by (simp add: tally_def)
    then show ?thesis using zs r(1) h(2) by (auto simp: zuncompress_def)
  qed
  then show ?thesis using o(1) f(1,2) by blast
qed

theorem gzip_decodes_compress_witness:
  "\<exists>zw zw' file.
    zopen ''w'' 12 True True [] 0 [] = Inr (Zw zw) \<and>
    zwrites zw [[65, 66], [65, 66, 65]] = Some (Inr ([Ret 2, Ret 3], zw')) \<and>
    zclose_w zw' = Inr (True, file) \<and>
    (\<exists>zs r. zdopen True True (drop 4 file) 0 = Some zs \<and>
      zuncompress 1024 False True [] 0 (take 4 file) zs = Some (Inr (Some 5, [65, 66, 65, 66, 65], r)))"
  using gzip_decodes_compress [of 12 "[[65, 66], [65, 66, 65]]" 1024 "[]" 0 False 0] by fastforce



end
