(* ===== verification/Unpack.thy ===== *)
theory Unpack
  imports Prelude
begin

text \<open>
  \<^verbatim>\<open>file_cmds-251/gzip/unpack.c\<close>: the decoder of \<^verbatim>\<open>gzip\<close> for files of \<open>pack(1)\<close>, whole. The symbol table is
  a block of memory and the tree a table of offsets into it; reading outside the block stops the model with
  \<open>Overread\<close>. The descriptor is a script of \<open>read\<close> results; \<open>sys\<close> says which system and allocation calls
  succeed; \<open>junk\<close> is what the seven bytes of the
  header buffer hold before they are filled, \<open>pre\<close> the bytes the caller has read already.
\<close>

section \<open>The descriptor\<close>

datatype up_stop = Exit2 diag | Overread

record unpackd =
  symbol_size :: int
  treelevels :: nat
  symbolsin :: "nat list"
  inodesin :: "nat list"
  symbol :: bytes
  symbol_eob :: nat
  tree :: "nat list"
  uncompressed_size :: nat
  fpIn :: bytes
  bytes_in :: int

definition PACK_HEADER_LENGTH :: nat where "PACK_HEADER_LENGTH = 7"
definition HTREE_MAXLEVEL :: nat where "HTREE_MAXLEVEL = 24"

definition accepted_bytes :: "int \<Rightarrow> unpackd \<Rightarrow> unpackd" where
  "accepted_bytes n u = u\<lparr>bytes_in := bytes_in u + n\<rparr>"

text \<open>\<open>unpackd_fill_inodesin(unpackd, 0)\<close>, on the counts of the levels from the first one on.\<close>

fun fill_inodesin :: "nat list \<Rightarrow> nat list" where
  "fill_inodesin [] = []"
| "fill_inodesin [s] = [0]"
| "fill_inodesin (s # t # ss) = (let r = fill_inodesin (t # ss) in (hd r + t) div 2 # r)"

section \<open>The header\<close>

text \<open>What \<open>fgetc\<close> delivers from a descriptor, up to the end or an error.\<close>

fun stdio_bytes :: "instream \<Rightarrow> bytes" where
  "stdio_bytes [] = []"
| "stdio_bytes (Rerr # r) = []"
| "stdio_bytes (Data bs # r) = (if bs = [] then [] else bs @ stdio_bytes r)"

definition size_of_header :: "bytes \<Rightarrow> nat" where
  "size_of_header hdr = foldl (\<lambda>a b. a * 256 + unat b) 0 (take 4 (drop 2 hdr))"

text \<open>The table of symbol counts.\<close>

fun read_counts :: "nat \<Rightarrow> unpackd \<Rightarrow> up_stop + unpackd" where
  "read_counts 0 u = Inr u"
| "read_counts (Suc n) u =
     (case fpIn u of
        [] \<Rightarrow> Inl (Exit2 (Warn ''File appears to be truncated''))
      | b # r \<Rightarrow> read_counts n
          (u\<lparr>fpIn := r, symbolsin := symbolsin u @ [unat b], symbol_size := symbol_size u + int (unat b)\<rparr>))"

text \<open>The symbols of one level go to the end of the table; \<open>symbol_eob\<close> follows.\<close>

fun read_symbols :: "nat \<Rightarrow> unpackd \<Rightarrow> up_stop + unpackd" where
  "read_symbols 0 u = Inr u"
| "read_symbols (Suc n) u =
     (case fpIn u of
        [] \<Rightarrow> Inl (Exit2 (Warnx ''Symbol table truncated''))
      | b # r \<Rightarrow>
          if symbol_eob u < length (symbol u)
          then read_symbols n (u\<lparr>fpIn := r, symbol := (symbol u)[symbol_eob u := b], symbol_eob := symbol_eob u + 1\<rparr>)
          else Inl Overread)"

fun read_levels :: "nat list \<Rightarrow> unpackd \<Rightarrow> up_stop + unpackd" where
  "read_levels [] u = Inr u"
| "read_levels (n # ns) u =
     bind_r (read_symbols n (u\<lparr>tree := tree u @ [symbol_eob u]\<rparr>))
       (\<lambda>u1. read_levels ns (accepted_bytes (int n) u1))"

text \<open>The tables, for a descriptor whose level count is already adjusted: the counts, the memory for the
  symbols, the symbols (the last level has one more than its count says), the inner nodes (and the end mark is
  one more leaf).\<close>

definition read_tables :: "(string \<Rightarrow> bool) \<Rightarrow> unpackd \<Rightarrow> up_stop + unpackd" where
  "read_tables sys u0 =
     (let lv = treelevels u0 in
      bind_r (read_counts (lv + 1) u0) (\<lambda>u1.
        let u2 = accepted_bytes (int lv) u1 in
        if symbol_size u2 > 256 then Inl (Exit2 (Warnx ''Bad symbol table''))
        else if \<not> sys ''calloc symbol'' then Inl (Exit2 (Warn ''calloc''))
        else
          let u3 = u2\<lparr>symbol := replicate (nat (symbol_size u2)) 0, symbol_eob := 0,
                      symbolsin := (symbolsin u2)[lv := symbolsin u2 ! lv + 1]\<rparr> in
          bind_r (read_levels (symbolsin u3) u3) (\<lambda>u4.
            let ss = (symbolsin u4)[lv := symbolsin u4 ! lv + 1] in
            Inr (u4\<lparr>symbolsin := ss, inodesin := fill_inodesin ss\<rparr>))))"

definition unpack_parse_header :: "(string \<Rightarrow> bool) \<Rightarrow> bytes \<Rightarrow> bytes \<Rightarrow> instream \<Rightarrow> up_stop + unpackd" where
  "unpack_parse_header sys junk pre fd =
     (if length pre > PACK_HEADER_LENGTH then Inl Overread
      else case c_read fd (PACK_HEADER_LENGTH - length pre) of
        (None, _) \<Rightarrow> Inl (Exit2 (Warn ''Error reading pack header''))
      | (Some bs, fd') \<Rightarrow>
          let hdr = pre @ bs @ drop (length pre + length bs) junk; levels = unat (hdr ! 6) in
          if levels > HTREE_MAXLEVEL \<or> levels < 1 then Inl (Exit2 (Warnx ''Huffman tree has insane levels''))
          else if \<not> sys ''fdopen in'' then Inl (Exit2 (Warn ''Can not fdopen() input stream''))
          else if \<not> sys ''fdopen out'' then Inl (Exit2 (Warn ''Can not fdopen() output stream''))
          else if \<not> sys ''calloc tables'' then Inl (Exit2 (Warn ''calloc''))
          else read_tables sys
            \<lparr>symbol_size = 1, treelevels = levels - 1, symbolsin = [], inodesin = [], symbol = [], symbol_eob = 0,
             tree = [], uncompressed_size = size_of_header hdr, fpIn = stdio_bytes fd',
             bytes_in = int PACK_HEADER_LENGTH\<rparr>)"

section \<open>Decoding\<close>

record up_state =
  thislevel :: nat
  thiscode :: nat
  bytes_out :: nat
  up_out :: bytes

datatype up_res = Going up_state | Finished up_state | Stopped up_stop

definition corrupt :: up_res where
  "corrupt = Stopped (Exit2 (Warnx ''File corrupt''))"

text \<open>The body of the loop over the bits of a byte. The level never exceeds \<open>treelevels\<close>, so the tables are read
  inside their bounds.\<close>

definition decode_bit :: "unpackd \<Rightarrow> bool \<Rightarrow> up_state \<Rightarrow> up_res" where
  "decode_bit u b st =
     (let code = 2 * thiscode st + of_bool b; l = thislevel st in
      if code \<ge> inodesin u ! l then
        (let inlevelindex = code - inodesin u ! l in
         if inlevelindex > symbolsin u ! l then corrupt
         else let thissymbol = tree u ! l + inlevelindex in
           if thissymbol = symbol_eob u \<and> bytes_out st = uncompressed_size u
           then Finished (st\<lparr>thiscode := code\<rparr>)
           else if thissymbol < length (symbol u)
           then Going \<lparr>thislevel = 0, thiscode = 0, bytes_out = bytes_out st + 1, up_out = up_out st @ [symbol u ! thissymbol]\<rparr>
           else Stopped Overread)
      else if l + 1 > treelevels u then corrupt
      else Going (st\<lparr>thislevel := l + 1, thiscode := code\<rparr>))"

fun decode_bits :: "unpackd \<Rightarrow> bool list \<Rightarrow> up_state \<Rightarrow> up_res" where
  "decode_bits u [] st = Going st"
| "decode_bits u (b # bs) st = (case decode_bit u b st of Going st' \<Rightarrow> decode_bits u bs st' | r \<Rightarrow> r)"

text \<open>The bits of a number, the highest first.\<close>

fun bits_of :: "nat \<Rightarrow> nat \<Rightarrow> bool list" where
  "bits_of 0 v = []"
| "bits_of (Suc n) v = bits_of n (v div 2) @ [odd v]"

definition byte_bits :: "u8 \<Rightarrow> bool list" where
  "byte_bits b = bits_of 8 (unat b)"

fun decode_loop :: "unpackd \<Rightarrow> bytes \<Rightarrow> up_state \<Rightarrow> up_res \<times> unpackd" where
  "decode_loop u [] st = (Going st, u)"
| "decode_loop u (b # bs) st =
     (let u1 = accepted_bytes 1 u in
      case decode_bits u1 (byte_bits b) st of Going st' \<Rightarrow> decode_loop u1 bs st' | r \<Rightarrow> (r, u1))"

definition unpack_decode :: "unpackd \<Rightarrow> up_stop + bytes \<times> unpackd" where
  "unpack_decode u =
     (let finish = (\<lambda>st u1. if bytes_out st \<noteq> uncompressed_size u then Inl (Exit2 (Warnx ''Premature EOF''))
                            else Inr (up_out st, u1)) in
      case decode_loop u (fpIn u) \<lparr>thislevel = 0, thiscode = 0, bytes_out = 0, up_out = []\<rparr> of
        (Going st, u1) \<Rightarrow> finish st u1
      | (Finished st, u1) \<Rightarrow> finish st u1
      | (Stopped e, u1) \<Rightarrow> Inl e)"

text \<open>The text written, the result of \<open>unpack\<close> (the size), and the count of input bytes.\<close>

definition unpack :: "(string \<Rightarrow> bool) \<Rightarrow> bytes \<Rightarrow> bytes \<Rightarrow> instream \<Rightarrow> up_stop + bytes \<times> nat \<times> int" where
  "unpack sys junk pre fd =
     (if \<not> sys ''dup in'' \<or> \<not> sys ''dup out'' then Inl (Exit2 (Warn ''dup''))
      else bind_r (unpack_parse_header sys junk pre fd) (\<lambda>u.
        bind_r (unpack_decode u) (\<lambda>(out, u1). Inr (out, uncompressed_size u, bytes_in u1))))"

end
