(* ===== verification/Unpack_Props.thy ===== *)
theory Unpack_Props
  imports Unpack
begin

text \<open>
  What \<^verbatim>\<open>unpack.c\<close> promises. The reference is the format: a full Huffman tree given by the symbols of its
  levels, the codes that belong to it, and the file \<open>pack(1)\<close> makes of a text. Decoding such a file gives
  the text back. A file that is not one can make the decoder read past its symbol table.
\<close>

section \<open>The format\<close>

text \<open>The leaves of the levels, the end mark at the end of the last one.\<close>

definition leaves :: "u8 list list \<Rightarrow> nat list" where
  "leaves lev = map length (butlast lev) @ [length (last lev) + 1]"

definition full_tree :: "nat list \<Rightarrow> bool" where
  "full_tree ss \<longleftrightarrow> (let is = fill_inodesin ss in
     is ! 0 + ss ! 0 = 2 \<and> (\<forall>i. Suc i < length ss \<longrightarrow> even (is ! Suc i + ss ! Suc i)))"

definition pack_table :: "u8 list list \<Rightarrow> bool" where
  "pack_table lev \<longleftrightarrow> lev \<noteq> [] \<and> length lev \<le> 24 \<and> last lev \<noteq> [] \<and> length (concat lev) \<le> 256 \<and>
     (\<forall>l \<in> set (butlast lev). length l < 256) \<and> full_tree (leaves lev)"

fun locate :: "nat \<Rightarrow> u8 list list \<Rightarrow> u8 \<Rightarrow> nat \<times> nat" where
  "locate l [] b = (l, 0)"
| "locate l (s # ss) b = (if b \<in> set s then (l, length (takeWhile (\<lambda>c. c \<noteq> b) s)) else locate (Suc l) ss b)"

definition leaf_code :: "u8 list list \<Rightarrow> nat \<times> nat \<Rightarrow> bool list" where
  "leaf_code lev p = bits_of (fst p + 1) (fill_inodesin (leaves lev) ! fst p + snd p)"

definition encode :: "u8 list list \<Rightarrow> bytes \<Rightarrow> bool list" where
  "encode lev msg =
     concat (map (\<lambda>b. leaf_code lev (locate 0 lev b)) msg) @ leaf_code lev (length lev - 1, length (last lev))"

definition bits_value :: "bool list \<Rightarrow> nat" where
  "bits_value bs = foldl (\<lambda>a b. 2 * a + of_bool b) 0 bs"

function pack_bits :: "bool list \<Rightarrow> bytes" where
  "pack_bits bs =
     (if bs = [] then [] else word_of_nat (bits_value (take 8 (bs @ replicate 7 False))) # pack_bits (drop 8 bs))"
  by pat_completeness auto
termination
  by (relation "measure length") (auto simp: neq_Nil_conv)

declare pack_bits.simps [simp del]

definition size_bytes :: "nat \<Rightarrow> bytes" where
  "size_bytes n = map (\<lambda>i. word_of_nat (n div 256 ^ i mod 256)) [3, 2, 1, 0]"

definition pack_file :: "u8 list list \<Rightarrow> bytes \<Rightarrow> bytes" where
  "pack_file lev msg =
     [0x1f, 0x1e] @ size_bytes (length msg) @ [word_of_nat (length lev)] @
     map (\<lambda>l. word_of_nat (length l)) (butlast lev) @ [word_of_nat (length (last lev) - 1)] @
     concat lev @ pack_bits (encode lev msg)"

section \<open>The tables\<close>

lemma length_fill [simp]: "length (fill_inodesin ss) = length ss"
  by (induction ss rule: fill_inodesin.induct) (auto simp: Let_def)

lemma fill_step: "Suc i < length ss \<Longrightarrow> fill_inodesin ss ! i = (fill_inodesin ss ! Suc i + ss ! Suc i) div 2"
proof (induction ss arbitrary: i rule: fill_inodesin.induct)
  case (3 s t ss)
  then show ?case
  proof (cases i)
    case 0
    have "hd (fill_inodesin (t # ss)) = fill_inodesin (t # ss) ! 0"
      by (rule hd_conv_nth) (metis length_fill list.size(3) length_Cons nat.distinct(1))
    then show ?thesis using 0 by (simp add: Let_def)
  qed (simp add: Let_def)
qed simp_all

text \<open>A number below the nodes of a level is, halved, below the inner nodes of the level above.\<close>

lemma inner_above:
  assumes "full_tree ss" "l < length ss" "v < fill_inodesin ss ! l + ss ! l"
  shows "k < l \<Longrightarrow> v div 2 ^ (l - k) < fill_inodesin ss ! k"
proof (induction "l - k" arbitrary: k)
  case (Suc m)
  define w where "w = v div 2 ^ (l - Suc k)"
  have w: "w < fill_inodesin ss ! Suc k + ss ! Suc k"
  proof (cases "Suc k = l")
    case True
    then show ?thesis using assms(3) by (simp add: w_def)
  next
    case False
    then have "w < fill_inodesin ss ! Suc k" using Suc.hyps(1) [of "Suc k"] Suc.hyps(2) Suc.prems by (simp add: w_def)
    then show ?thesis by simp
  qed
  have "even (fill_inodesin ss ! Suc k + ss ! Suc k)"
    using assms(1,2) Suc.prems by (simp add: full_tree_def Let_def)
  then have "w div 2 < fill_inodesin ss ! k"
    using w fill_step [of k ss] Suc.prems assms(2) less_mult_imp_div_less [of w _ 2] by (metis dvd_div_mult_self less_trans_Suc Suc_lessI Suc_leI le_less_trans)
  moreover have "l - k = Suc (l - Suc k)" using Suc.prems by simp
  then have "v div 2 ^ (l - k) = w div 2" by (simp only: w_def power_Suc2 div_mult2_eq)
  ultimately show ?case by simp
qed simp

section \<open>One symbol\<close>

text \<open>A descriptor that holds the tables of \<open>lev\<close>.\<close>

definition holds_table :: "unpackd \<Rightarrow> u8 list list \<Rightarrow> bool" where
  "holds_table u lev \<longleftrightarrow> symbolsin u = leaves lev \<and> inodesin u = fill_inodesin (leaves lev) \<and>
     treelevels u = length lev - 1 \<and> symbol u = concat lev \<and> symbol_eob u = length (concat lev) \<and>
     tree u = map (\<lambda>l. length (concat (take l lev))) [0..<length lev]"

lemma decode_bits_append:
  "decode_bits u (bs @ cs) st = (case decode_bits u bs st of Going st' \<Rightarrow> decode_bits u cs st' | r \<Rightarrow> r)"
  by (induction u bs st rule: decode_bits.induct) (auto split: up_res.splits)

lemma odd_code: "2 * (v div 2) + of_bool (odd v) = (v :: nat)"
  by (simp add: of_bool_odd_eq_mod_2)

lemma decode_prefix:
  assumes "n \<le> treelevels u" "\<And>k. k < n \<Longrightarrow> v div 2 ^ (n - 1 - k) < inodesin u ! k" "v < 2 ^ n"
    "thislevel st = 0" "thiscode st = 0"
  shows "decode_bits u (bits_of n v) st = Going (st\<lparr>thislevel := n, thiscode := v\<rparr>)"
  using assms
proof (induction n arbitrary: v)
  case 0
  then show ?case by (cases st) simp
next
  case (Suc n)
  have "decode_bits u (bits_of n (v div 2)) st = Going (st\<lparr>thislevel := n, thiscode := v div 2\<rparr>)"
  proof (rule Suc.IH)
    show "v div 2 div 2 ^ (n - 1 - k) < inodesin u ! k" if "k < n" for k
    proof -
      have "Suc n - 1 - k = Suc (n - 1 - k)" using that by simp
      then show ?thesis using Suc.prems(2) [of k] that by (simp add: div_mult2_eq)
    qed
  qed (use Suc.prems in auto)
  moreover have "decode_bit u (odd v) (st\<lparr>thislevel := n, thiscode := v div 2\<rparr>) = Going (st\<lparr>thislevel := Suc n, thiscode := v\<rparr>)"
    using Suc.prems(1) Suc.prems(2) [of n] by (simp add: decode_bit_def odd_code Let_def)
  ultimately show ?case by (simp add: decode_bits_append)
qed

text \<open>The code of a leaf leads to it.\<close>

lemma decode_leaf:
  assumes "full_tree (leaves lev)" "holds_table u lev" "lev \<noteq> []" "l < length lev" "j < leaves lev ! l"
    "thislevel st = 0" "thiscode st = 0"
  shows "decode_bits u (leaf_code lev (l, j)) st =
    (let p = length (concat (take l lev)) + j in
     if p = length (concat lev) \<and> bytes_out st = uncompressed_size u
     then Finished (st\<lparr>thislevel := l, thiscode := fill_inodesin (leaves lev) ! l + j\<rparr>)
     else if p < length (concat lev)
     then Going \<lparr>thislevel = 0, thiscode = 0, bytes_out = bytes_out st + 1, up_out = up_out st @ [concat lev ! p]\<rparr>
     else Stopped Overread)"
proof -
  define v where "v = fill_inodesin (leaves lev) ! l + j"
  have len: "length (leaves lev) = length lev" using assms(3) by (simp add: leaves_def)
  have inn: "v div 2 ^ (l - k) < fill_inodesin (leaves lev) ! k" if "k < l" for k
    using inner_above [OF assms(1), of l v k] that assms(4,5) len by (simp add: v_def)
  have "v div 2 ^ l < 2"
  proof (cases "l = 0")
    case True
    then show ?thesis using assms(1,5) by (simp add: v_def full_tree_def Let_def)
  next
    case False
    then show ?thesis using inn [of 0] assms(1) by (simp add: full_tree_def Let_def)
  qed
  then have v2: "v div 2 < 2 ^ l" by (simp add: div_less_iff_less_mult mult.commute)
  have t: "treelevels u = length lev - 1" "inodesin u = fill_inodesin (leaves lev)" "symbolsin u = leaves lev"
    "tree u ! l = length (concat (take l lev))" "symbol u = concat lev" "symbol_eob u = length (concat lev)"
    using assms(2,4) by (simp_all add: holds_table_def)
  have "decode_bits u (bits_of l (v div 2)) st = Going (st\<lparr>thislevel := l, thiscode := v div 2\<rparr>)"
  proof (rule decode_prefix)
    show "v div 2 div 2 ^ (l - 1 - k) < inodesin u ! k" if "k < l" for k
    proof -
      have "l - k = Suc (l - 1 - k)" using that by simp
      then show ?thesis using inn [OF that] t(2) by (simp add: div_mult2_eq)
    qed
  qed (use assms(4,6,7) t(1) v2 in auto)
  moreover have "leaf_code lev (l, j) = bits_of l (v div 2) @ [odd v]" by (simp add: leaf_code_def v_def)
  moreover have "decode_bit u (odd v) (st\<lparr>thislevel := l, thiscode := v div 2\<rparr>) =
    (let p = length (concat (take l lev)) + j in
     if p = length (concat lev) \<and> bytes_out st = uncompressed_size u
     then Finished (st\<lparr>thislevel := l, thiscode := v\<rparr>)
     else if p < length (concat lev)
     then Going \<lparr>thislevel = 0, thiscode = 0, bytes_out = bytes_out st + 1, up_out = up_out st @ [concat lev ! p]\<rparr>
     else Stopped Overread)"
    using assms(5) by (simp add: decode_bit_def odd_code t Let_def) (simp add: v_def)
  ultimately show ?thesis by (simp add: decode_bits_append v_def Let_def)
qed

section \<open>A text\<close>

lemma locate_nth:
  "b \<in> set (concat lev) \<Longrightarrow> locate n lev b = (l, j) \<Longrightarrow>
     n \<le> l \<and> l - n < length lev \<and> j < length (lev ! (l - n)) \<and> lev ! (l - n) ! j = b"
proof (induction n lev b rule: locate.induct)
  case (2 n s ss b)
  show ?case
  proof (cases "b \<in> set s")
    case True
    then obtain ys zs where s: "s = ys @ b # zs" "b \<notin> set ys" by (meson split_list_first)
    then have "takeWhile (\<lambda>c. c \<noteq> b) s = ys" by (simp only:) (subst takeWhile_append2, auto)
    then have "length (takeWhile (\<lambda>c. c \<noteq> b) s) < length s" "s ! length (takeWhile (\<lambda>c. c \<noteq> b) s) = b"
      using s by simp_all
    then show ?thesis using True 2(3) by auto
  next
    case False
    then have "Suc n \<le> l \<and> l - Suc n < length ss \<and> j < length (ss ! (l - Suc n)) \<and> ss ! (l - Suc n) ! j = b"
      using 2 by simp
    then show ?thesis by (auto simp: Suc_diff_le nth_Cons')
  qed
qed simp

lemma concat_nth:
  "l < length lev \<Longrightarrow> j < length (lev ! l) \<Longrightarrow>
     length (concat (take l lev)) + j < length (concat lev) \<and> concat lev ! (length (concat (take l lev)) + j) = lev ! l ! j"
proof (induction lev arbitrary: l)
  case (Cons s lev)
  then show ?case by (cases l) (auto simp: nth_append)
qed simp

lemma leaves_nth:
  "lev \<noteq> [] \<Longrightarrow> l < length lev \<Longrightarrow> leaves lev ! l = (if l = length lev - 1 then length (last lev) + 1 else length (lev ! l))"
  by (auto simp: leaves_def nth_append nth_butlast)

lemma decode_message:
  assumes "pack_table lev" "holds_table u lev"
  shows "set msg \<subseteq> set (concat lev) \<Longrightarrow> thislevel st = 0 \<Longrightarrow> thiscode st = 0 \<Longrightarrow>
    decode_bits u (concat (map (\<lambda>b. leaf_code lev (locate 0 lev b)) msg)) st =
      Going \<lparr>thislevel = 0, thiscode = 0, bytes_out = bytes_out st + length msg, up_out = up_out st @ msg\<rparr>"
proof (induction msg arbitrary: st)
  case Nil
  then show ?case by (cases st) simp
next
  case (Cons b msg)
  have lev: "lev \<noteq> []" "full_tree (leaves lev)" using assms(1) by (simp_all add: pack_table_def)
  obtain l j where lj: "locate 0 lev b = (l, j)" by fastforce
  then have b: "l < length lev" "j < length (lev ! l)" "lev ! l ! j = b"
    using locate_nth [of b lev 0 l j] Cons.prems(1) by auto
  have lf: "j < leaves lev ! l" using b lev(1) by (auto simp: leaves_nth last_conv_nth)
  have p: "length (concat (take l lev)) + j < length (concat lev)" "concat lev ! (length (concat (take l lev)) + j) = b"
    using concat_nth [OF b(1,2)] b(3) by simp_all
  have "decode_bits u (leaf_code lev (l, j)) st =
      Going \<lparr>thislevel = 0, thiscode = 0, bytes_out = bytes_out st + 1, up_out = up_out st @ [b]\<rparr>"
    using decode_leaf [OF lev(2) assms(2) lev(1) b(1) lf Cons.prems(2,3)] p by (simp add: Let_def)
  then show ?case using Cons.IH [of "\<lparr>thislevel = 0, thiscode = 0, bytes_out = bytes_out st + 1, up_out = up_out st @ [b]\<rparr>"] Cons.prems(1) lj
    by (simp add: decode_bits_append)
qed

lemma decode_encoded:
  assumes "pack_table lev" "holds_table u lev" "set msg \<subseteq> set (concat lev)" "uncompressed_size u = length msg"
  shows "\<exists>st. decode_bits u (encode lev msg @ pad) \<lparr>thislevel = 0, thiscode = 0, bytes_out = 0, up_out = []\<rparr> = Finished st \<and>
    bytes_out st = length msg \<and> up_out st = msg"
proof -
  have lev: "lev \<noteq> []" "full_tree (leaves lev)" using assms(1) by (simp_all add: pack_table_def)
  have l: "length lev - 1 < length lev" "length (last lev) < leaves lev ! (length lev - 1)" using lev(1) by (simp_all add: leaves_nth)
  have "concat lev = concat (take (length lev - 1) lev) @ last lev"
    using append_butlast_last_id [OF lev(1)] by (metis butlast_conv_take concat_append concat.simps append_Nil2)
  then have p: "length (concat (take (length lev - 1) lev)) + length (last lev) = length (concat lev)"
    by (metis length_append)
  show ?thesis
    using decode_message [OF assms(1,2,3)] decode_leaf [OF lev(2) assms(2) lev(1) l] p assms(4)
    by (simp add: encode_def decode_bits_append Let_def)
qed

section \<open>Bits and bytes\<close>

lemma bits_value_snoc: "bits_value (bs @ [b]) = 2 * bits_value bs + of_bool b"
  by (simp add: bits_value_def)

lemma bits_value_less: "bits_value bs < 2 ^ length bs"
  by (induction bs rule: rev_induct) (auto simp: bits_value_snoc, simp add: bits_value_def)

lemma bits_of_value: "bits_of (length bs) (bits_value bs) = bs"
  by (induction bs rule: rev_induct) (simp_all add: bits_value_snoc)

lemma byte_bits_value: "length bs = 8 \<Longrightarrow> byte_bits (word_of_nat (bits_value bs)) = bs"
  using bits_value_less [of bs] bits_of_value [of bs] by (simp add: byte_bits_def unat_of_nat)

lemma pack_bits_bits: "\<exists>pad. concat (map byte_bits (pack_bits bs)) = bs @ pad"
proof (induction bs rule: pack_bits.induct)
  case (1 bs)
  show ?case
  proof (cases "bs = []")
    case True
    then show ?thesis by (simp add: pack_bits.simps)
  next
    case False
    define t where "t = take 8 (bs @ replicate 7 False)"
    have "length t = 8" using False by (cases bs) (simp_all add: t_def)
    then have t: "byte_bits (word_of_nat (bits_value t)) = t" by (rule byte_bits_value)
    obtain pad where pad: "concat (map byte_bits (pack_bits (drop 8 bs))) = drop 8 bs @ pad" using 1 False by blast
    have "concat (map byte_bits (pack_bits bs)) = t @ drop 8 bs @ pad"
      using False t pad by (simp add: pack_bits.simps [of bs] t_def)
    moreover have "\<exists>pad'. t @ drop 8 bs @ pad = bs @ pad'"
    proof (cases "8 \<le> length bs")
      case True
      then have "t = take 8 bs" by (simp add: t_def)
      then show ?thesis by (metis append_assoc append_take_drop_id)
    next
      case False
      then show ?thesis by (simp add: t_def)
    qed
    ultimately show ?thesis by simp
  qed
qed

lemma decode_bit_accepted [simp]: "decode_bit (accepted_bytes k u) = decode_bit u"
  by (intro ext) (simp add: decode_bit_def accepted_bytes_def Let_def cong: if_cong)

lemma decode_bits_accepted [simp]: "decode_bits (accepted_bytes k u) bs st = decode_bits u bs st"
  by (induction bs arbitrary: st) (auto split: up_res.splits)

lemma decode_loop_bits:
  "\<exists>k. decode_loop u bs st = (decode_bits u (concat (map byte_bits bs)) st, accepted_bytes k u)"
proof (induction bs arbitrary: u st)
  case Nil
  have "accepted_bytes 0 u = u" by (simp add: accepted_bytes_def)
  then show ?case by (metis concat.simps(1) decode_bits.simps(1) decode_loop.simps(1) list.simps(8))
next
  case (Cons b bs)
  have acc: "accepted_bytes k (accepted_bytes 1 u) = accepted_bytes (1 + k) u" for k
    by (simp add: accepted_bytes_def)
  show ?case using Cons [of "accepted_bytes 1 u"] acc
    by (auto simp: Let_def decode_bits_append split: up_res.splits)
qed

section \<open>Reading the tables\<close>

lemma read_counts_ok:
  "\<forall>c \<in> set cs. c < 256 \<Longrightarrow> fpIn u = map word_of_nat cs @ r \<Longrightarrow>
     read_counts (length cs) u = Inr (u\<lparr>fpIn := r, symbolsin := symbolsin u @ cs, symbol_size := symbol_size u + int (sum_list cs)\<rparr>)"
proof (induction cs arbitrary: u)
  case (Cons c cs)
  then show ?case by (simp add: unat_of_nat)
qed simp

lemma read_symbols_ok:
  "fpIn u = bs @ r \<Longrightarrow> symbol u = done' @ rest \<Longrightarrow> symbol_eob u = length done' \<Longrightarrow> length bs \<le> length rest \<Longrightarrow>
     read_symbols (length bs) u =
       Inr (u\<lparr>fpIn := r, symbol := done' @ bs @ drop (length bs) rest, symbol_eob := length done' + length bs\<rparr>)"
proof (induction bs arbitrary: u done' rest)
  case Nil
  then show ?case by (cases u) simp
next
  case (Cons b bs)
  obtain x rest' where rest: "rest = x # rest'" using Cons.prems(4) by (cases rest) auto
  have "read_symbols (length bs) (u\<lparr>fpIn := bs @ r, symbol := (done' @ [b]) @ rest', symbol_eob := length (done' @ [b])\<rparr>) =
      Inr (u\<lparr>fpIn := r, symbol := (done' @ [b]) @ bs @ drop (length bs) rest', symbol_eob := length (done' @ [b]) + length bs\<rparr>)"
    using Cons.IH [of "u\<lparr>fpIn := bs @ r, symbol := (done' @ [b]) @ rest', symbol_eob := length (done' @ [b])\<rparr>" "done' @ [b]" rest']
      Cons.prems(4) rest by simp
  then show ?case using Cons.prems rest by (simp add: list_update_append)
qed

lemma read_levels_ok:
  "fpIn u = concat lev @ r \<Longrightarrow> symbol u = done' @ rest \<Longrightarrow> symbol_eob u = length done' \<Longrightarrow>
     length (concat lev) = length rest \<Longrightarrow>
     \<exists>k. read_levels (map length lev) u =
       Inr (u\<lparr>fpIn := r, symbol := done' @ concat lev, symbol_eob := length done' + length (concat lev),
         tree := tree u @ map (\<lambda>l. length done' + length (concat (take l lev))) [0..<length lev], bytes_in := k\<rparr>)"
proof (induction lev arbitrary: u done' rest)
  case Nil
  then show ?case by (intro exI [of _ "bytes_in u"]) (cases u, simp)
next
  case (Cons l lev)
  define u1 where "u1 = u\<lparr>tree := tree u @ [symbol_eob u], fpIn := concat lev @ r, symbol := done' @ l @ drop (length l) rest,
      symbol_eob := length done' + length l\<rparr>"
  have "read_symbols (length l) (u\<lparr>tree := tree u @ [symbol_eob u]\<rparr>) = Inr u1"
    using read_symbols_ok [of "u\<lparr>tree := tree u @ [symbol_eob u]\<rparr>" l "concat lev @ r" done' rest] Cons.prems
    by (simp add: u1_def)
  moreover have "\<exists>k. read_levels (map length lev) (accepted_bytes (int (length l)) u1) =
      Inr (accepted_bytes (int (length l)) u1\<lparr>fpIn := r, symbol := (done' @ l) @ concat lev,
        symbol_eob := length (done' @ l) + length (concat lev),
        tree := tree (accepted_bytes (int (length l)) u1) @ map (\<lambda>i. length (done' @ l) + length (concat (take i lev))) [0..<length lev],
        bytes_in := k\<rparr>)"
    using Cons.prems by (intro Cons.IH [where rest = "drop (length l) rest"]) (simp_all add: u1_def accepted_bytes_def)
  moreover have "map (\<lambda>i. length done' + length (concat (take i (l # lev)))) [0..<length (l # lev)] =
      length done' # map (\<lambda>i. length (done' @ l) + length (concat (take i lev))) [0..<length lev]"
    by (simp add: upt_conv_Cons map_Suc_upt [symmetric] del: upt_Suc)
  ultimately show ?case using Cons.prems(3) by (auto simp: u1_def accepted_bytes_def add.assoc)
qed

text \<open>The counts of the file, and what the header's size field means.\<close>

definition stored_counts :: "u8 list list \<Rightarrow> nat list" where
  "stored_counts lev = map length (butlast lev) @ [length (last lev) - 1]"

lemma stored_counts_props:
  assumes "pack_table lev"
  shows "\<forall>c \<in> set (stored_counts lev). c < 256" "sum_list (stored_counts lev) + 1 = length (concat lev)"
    "length (stored_counts lev) = length lev"
    "(stored_counts lev)[length lev - 1 := stored_counts lev ! (length lev - 1) + 1] = map length lev"
    "(map length lev)[length lev - 1 := map length lev ! (length lev - 1) + 1] = leaves lev"
proof -
  have lev: "lev \<noteq> []" "last lev \<noteq> []" "length (concat lev) \<le> 256" "\<forall>l \<in> set (butlast lev). length l < 256"
    using assms by (simp_all add: pack_table_def)
  obtain lv l where s: "lev = lv @ [l]" using lev(1) by (cases lev rule: rev_cases) auto
  have "length l \<le> 256" "0 < length l" using lev(2,3) s by simp_all
  then show "\<forall>c \<in> set (stored_counts lev). c < 256" using lev(4) s by (auto simp: stored_counts_def)
  show "sum_list (stored_counts lev) + 1 = length (concat lev)" using lev(2) s by (simp add: stored_counts_def length_concat)
  show "length (stored_counts lev) = length lev" using s by (simp add: stored_counts_def)
  show "(stored_counts lev)[length lev - 1 := stored_counts lev ! (length lev - 1) + 1] = map length lev"
    using lev(2) s by (simp add: stored_counts_def list_update_append nth_append)
  show "(map length lev)[length lev - 1 := map length lev ! (length lev - 1) + 1] = leaves lev"
    using s by (simp add: leaves_def list_update_append nth_append)
qed

lemma size_of_header_size:
  assumes "n < 2 ^ 32"
  shows "size_of_header ([a', b] @ size_bytes n @ r) = n"
proof -
  have u: "unat (word_of_nat (m mod 256) :: u8) = m mod 256" for m by (simp add: unat_of_nat)
  have q: "n div 256 ^ 3 < 256" using assms by (simp add: div_less_iff_less_mult)
  define a b' c where "a = n div 256" and "b' = a div 256" and "c = b' div 256"
  have d: "n div 256 ^ 2 = b'" "n div 256 ^ 3 = c" by (simp_all add: a_def b'_def c_def div_mult2_eq [symmetric])
  have "c mod 256 = c" using q d(2) by simp
  then have e: "c mod 256 * 256 + b' mod 256 = b'" "b' * 256 + a mod 256 = a" "a * 256 + n mod 256 = n"
    by (simp_all add: a_def b'_def c_def)
  have "size_of_header ([a', b] @ size_bytes n @ r) = ((c mod 256 * 256 + b' mod 256) * 256 + a mod 256) * 256 + n mod 256"
    using d by (simp add: size_of_header_def size_bytes_def u a_def [symmetric])
  then show ?thesis unfolding e .
qed

lemma parse_packed:
  assumes "pack_table lev" "length msg < 2 ^ 32" "\<forall>c. sys c"
    "c_read fd (7 - length pre) = (Some h, fd')" "length (pre @ h) = 7" "pre @ h @ stdio_bytes fd' = pack_file lev msg"
  shows "\<exists>u. unpack_parse_header sys junk pre fd = Inr u \<and> holds_table u lev \<and> uncompressed_size u = length msg \<and>
    fpIn u = pack_bits (encode lev msg)"
proof -
  define n where "n = length lev - 1"
  have lev: "lev \<noteq> []" "length lev \<le> 24" "length (concat lev) \<le> 256" using assms(1) by (simp_all add: pack_table_def)
  have n: "Suc n = length lev" using lev(1) by (cases lev) (simp_all add: n_def)
  define body where "body = map word_of_nat (stored_counts lev) @ concat lev @ pack_bits (encode lev msg)"
  have "(pre @ h) @ stdio_bytes fd' = ([0x1f, 0x1e] @ size_bytes (length msg) @ [word_of_nat (length lev)]) @ body"
    using assms(6) by (simp add: pack_file_def body_def stored_counts_def comp_def)
  moreover have "length ([0x1f, 0x1e] @ size_bytes (length msg) @ [word_of_nat (length lev)]) = 7" by (simp add: size_bytes_def)
  ultimately have hdr: "pre @ h = [0x1f, 0x1e] @ size_bytes (length msg) @ [word_of_nat (length lev)]" "stdio_bytes fd' = body"
    using assms(5) by (metis append_eq_append_conv)+
  have h6: "unat ((pre @ h @ x) ! 6) = length lev" for x
  proof -
    have "(pre @ h @ x) ! 6 = ((pre @ h) @ x) ! 6" by simp
    also have "\<dots> = word_of_nat (length lev)" unfolding hdr(1) by (simp add: size_bytes_def)
    finally show ?thesis using lev(2) by (simp add: unat_of_nat)
  qed
  have sz: "size_of_header (pre @ h @ x) = length msg" for x
    using size_of_header_size [OF assms(2), of "0x1f" "0x1e"] hdr(1) by (metis append_assoc)
  define u0 where "u0 = \<lparr>symbol_size = 1, treelevels = n, symbolsin = [], inodesin = [], symbol = [], symbol_eob = 0,
      tree = [], uncompressed_size = length msg, fpIn = body, bytes_in = 7\<rparr>"
  note sc = stored_counts_props [OF assms(1)]
  define r where "r = concat lev @ pack_bits (encode lev msg)"
  define u1 where "u1 = u0\<lparr>fpIn := r, symbolsin := stored_counts lev, symbol_size := int (length (concat lev))\<rparr>"
  have "symbol_size u0 + int (sum_list (stored_counts lev)) = int (length (concat lev))" using sc(2) by (simp add: u0_def)
  then have rc: "read_counts (Suc n) u0 = Inr u1"
    using read_counts_ok [OF sc(1), of u0 r] sc(3) n by (simp add: u1_def u0_def body_def r_def)
  define u3 where "u3 = (accepted_bytes (int n) u1)\<lparr>symbol := replicate (length (concat lev)) 0, symbol_eob := 0, symbolsin := map length lev\<rparr>"
  obtain k where rl: "read_levels (map length lev) u3 =
      Inr (u3\<lparr>fpIn := pack_bits (encode lev msg), symbol := concat lev, symbol_eob := length (concat lev),
        tree := map (\<lambda>l. length (concat (take l lev))) [0..<length lev], bytes_in := k\<rparr>)"
    using read_levels_ok [of u3 lev "pack_bits (encode lev msg)" "[]" "replicate (length (concat lev)) 0"]
    by (auto simp: u3_def u1_def u0_def r_def accepted_bytes_def)
  define u4 where "u4 = u3\<lparr>fpIn := pack_bits (encode lev msg), symbol := concat lev, symbol_eob := length (concat lev),
        tree := map (\<lambda>l. length (concat (take l lev))) [0..<length lev], bytes_in := k\<rparr>"
  have "read_tables sys u0 = Inr (u4\<lparr>symbolsin := leaves lev, inodesin := fill_inodesin (leaves lev)\<rparr>)"
  proof -
    have t: "treelevels u0 = n" "symbol_size (accepted_bytes (int n) u1) = int (length (concat lev))"
      "symbolsin (accepted_bytes (int n) u1) = stored_counts lev" "symbolsin u3 = map length lev" "symbolsin u4 = map length lev"
      by (simp_all add: u0_def u1_def u3_def u4_def accepted_bytes_def)
    have c: "(stored_counts lev)[n := Suc (stored_counts lev ! n)] = map length lev" "(map length lev)[n := Suc (map length lev ! n)] = leaves lev"
      using sc(4,5) by (simp_all add: n_def)
    have "(accepted_bytes (int n) u1)\<lparr>symbol := replicate (nat (int (length (concat lev)))) 0, symbol_eob := 0, symbolsin := map length lev\<rparr> = u3"
      by (simp add: u3_def)
    then show ?thesis
      unfolding read_tables_def Let_def t(1) using rc rl assms(3) lev(3)
      by (simp add: t c u4_def [symmetric] del: read_counts.simps)
  qed
  then have "unpack_parse_header sys junk pre fd = Inr (u4\<lparr>symbolsin := leaves lev, inodesin := fill_inodesin (leaves lev)\<rparr>)"
    using assms(3-5) h6 sz hdr(2) lev n
    by (simp add: unpack_parse_header_def PACK_HEADER_LENGTH_def HTREE_MAXLEVEL_def u0_def n_def)
  then show ?thesis using n by (auto simp: holds_table_def u4_def u3_def u1_def u0_def accepted_bytes_def n_def)
qed

section \<open>Writing the tables is safe\<close>

lemma read_symbols_safe:
  "symbol_eob u + n \<le> length (symbol u) \<Longrightarrow>
     (case read_symbols n u of Inl e \<Rightarrow> e \<noteq> Overread
      | Inr u' \<Rightarrow> symbol_eob u' = symbol_eob u + n \<and> length (symbol u') = length (symbol u))"
proof (induction n u rule: read_symbols.induct)
  case (2 n u)
  show ?case
  proof (cases "fpIn u")
    case (Cons b r)
    then show ?thesis using 2(1) [OF Cons] 2(2) by (auto split: sum.splits)
  qed simp
qed simp

lemma read_levels_safe:
  "symbol_eob u + sum_list ns \<le> length (symbol u) \<Longrightarrow> read_levels ns u \<noteq> Inl Overread"
proof (induction ns u rule: read_levels.induct)
  case (2 n ns u)
  define u1 where "u1 = u\<lparr>tree := tree u @ [symbol_eob u]\<rparr>"
  have sf: "case read_symbols n u1 of Inl e \<Rightarrow> e \<noteq> Overread
      | Inr u' \<Rightarrow> symbol_eob u' = symbol_eob u1 + n \<and> length (symbol u') = length (symbol u1)"
    using 2(2) by (intro read_symbols_safe) (simp add: u1_def)
  show ?case
  proof (cases "read_symbols n u1")
    case (Inr u2)
    have "symbol_eob (accepted_bytes (int n) u2) + sum_list ns \<le> length (symbol (accepted_bytes (int n) u2))"
      using sf Inr 2(2) by (simp add: u1_def accepted_bytes_def)
    then show ?thesis using 2(1) [of u2] Inr by (simp add: u1_def)
  qed (use sf in \<open>auto simp: u1_def\<close>)
qed simp

lemma read_counts_sum:
  "read_counts n u = Inr u' \<Longrightarrow> length (symbolsin u') = length (symbolsin u) + n \<and>
     symbol_size u' - int (sum_list (symbolsin u')) = symbol_size u - int (sum_list (symbolsin u))"
  by (induction n u rule: read_counts.induct) (fastforce split: list.splits)+

lemma read_counts_safe: "read_counts n u \<noteq> Inl Overread"
  by (induction n u rule: read_counts.induct) (auto split: list.splits)

section \<open>Properties\<close>

text \<open>C8: \<^verbatim>\<open>unpack\<close> decodes. For every full Huffman tree of at most 24 levels and 256 symbols and every text over
  its symbols of less than \<open>2 ^ 32\<close> bytes, \<^verbatim>\<open>unpack\<close> on the packed file (whatever part of the header was read
  before, if the rest of it arrives at once) writes exactly the text and returns its size.\<close>

theorem unpack_decodes:
  assumes "pack_table lev" "set msg \<subseteq> set (concat lev)" "length msg < 2 ^ 32" "\<forall>c. sys c"
    "c_read fd (7 - length pre) = (Some h, fd')" "length (pre @ h) = 7" "pre @ h @ stdio_bytes fd' = pack_file lev msg"
  shows "\<exists>k. unpack sys junk pre fd = Inr (msg, length msg, k)"
proof -
  obtain u where u: "unpack_parse_header sys junk pre fd = Inr u" "holds_table u lev" "uncompressed_size u = length msg"
      "fpIn u = pack_bits (encode lev msg)"
    using parse_packed [OF assms(1,3-7)] by blast
  obtain pad where pad: "concat (map byte_bits (pack_bits (encode lev msg))) = encode lev msg @ pad"
    using pack_bits_bits by blast
  obtain st where st: "decode_bits u (encode lev msg @ pad) \<lparr>thislevel = 0, thiscode = 0, bytes_out = 0, up_out = []\<rparr> = Finished st"
      "bytes_out st = length msg" "up_out st = msg"
    using decode_encoded [OF assms(1) u(2) assms(2) u(3)] by blast
  obtain k where "decode_loop u (fpIn u) \<lparr>thislevel = 0, thiscode = 0, bytes_out = 0, up_out = []\<rparr> = (Finished st, accepted_bytes k u)"
    using decode_loop_bits [of u "fpIn u" "\<lparr>thislevel = 0, thiscode = 0, bytes_out = 0, up_out = []\<rparr>"] pad st(1) u(4) by auto
  then have "unpack_decode u = Inr (msg, accepted_bytes k u)" using st u(3) by (simp add: unpack_decode_def)
  then show ?thesis using u(1,3) assms(4) by (simp add: unpack_def)
qed

text \<open>The text \<open>aba\<close> with the codes 1 for \<open>a\<close>, 00 for \<open>b\<close> and 01 for the end.\<close>

theorem unpack_decodes_witness:
  "\<exists>k. unpack (\<lambda>_. True) [] [] [Data (pack_file [[0x61], [0x62]] [0x61, 0x62, 0x61])] = Inr ([0x61, 0x62, 0x61], 3, k)"
proof -
  define pf where "pf = pack_file [[0x61], [0x62]] [0x61, 0x62, 0x61]"
  have t: "pack_table [[0x61], [0x62 :: u8]]"
    by (simp add: pack_table_def leaves_def full_tree_def Let_def less_Suc_eq)
  have "7 < length pf" by (simp add: pf_def pack_file_def size_bytes_def)
  then have c: "c_read [Data pf] (7 - length []) = (Some (take 7 pf), [Data (drop 7 pf)])"
    "length ([] @ take 7 pf) = 7" "[] @ take 7 pf @ stdio_bytes [Data (drop 7 pf)] = pf"
    by simp_all
  have "\<exists>k. unpack (\<lambda>_. True) [] [] [Data pf] = Inr ([0x61, 0x62, 0x61], length [0x61, 0x62, 0x61 :: u8], k)"
    by (rule unpack_decodes [OF t _ _ _ c(1,2)]) (use c(3) in \<open>simp_all add: pf_def\<close>)
  then show ?thesis by (simp add: pf_def numeral_3_eq_3)
qed

text \<open>C24: the tables are safe to build. Whatever the file contains, reading the header never writes outside the
  memory allocated for the symbols: with at most seven bytes read before, the header routine succeeds or leaves with
  a diagnostic.\<close>

theorem unpack_header_safe:
  assumes "length pre \<le> 7"
  shows "unpack_parse_header sys junk pre fd \<noteq> Inl Overread"
proof -
  have "read_tables sys u0 \<noteq> Inl Overread" if "symbol_size u0 = 1" "symbolsin u0 = []" for u0
  proof (cases "read_counts (treelevels u0 + 1) u0")
    case (Inl e)
    then show ?thesis using read_counts_safe [of "treelevels u0 + 1" u0] by (simp add: read_tables_def Let_def)
  next
    case (Inr u1)
    define lv where "lv = treelevels u0"
    define ns where "ns = (symbolsin u1)[lv := Suc (symbolsin u1 ! lv)]"
    define u3 where "u3 = (accepted_bytes (int lv) u1)\<lparr>symbol := replicate (nat (symbol_size u1)) 0, symbol_eob := 0, symbolsin := ns\<rparr>"
    have s: "lv < length (symbolsin u1)" "symbol_size u1 = 1 + int (sum_list (symbolsin u1))"
      using read_counts_sum [OF Inr] that by (simp_all add: lv_def)
    have "sum_list ns = sum_list (symbolsin u1) + 1"
      using s(1) sum_list_update [of lv "symbolsin u1" "Suc (symbolsin u1 ! lv)"] elem_le_sum_list [of lv "symbolsin u1"]
      by (simp add: ns_def)
    then have "read_levels ns u3 \<noteq> Inl Overread" using s(2) by (intro read_levels_safe) (simp add: u3_def)
    then show ?thesis using Inr
      by (cases "read_levels ns u3")
        (simp_all add: read_tables_def Let_def lv_def [symmetric] ns_def [symmetric] accepted_bytes_def u3_def del: read_counts.simps)
  qed
  then show ?thesis using assms
    by (simp add: unpack_parse_header_def PACK_HEADER_LENGTH_def Let_def split: prod.splits option.splits)
qed

theorem unpack_header_safe_witness:
  "length [0x1f, 0x1e, 0, 0 :: u8] \<le> 7 \<and>
     unpack_parse_header (\<lambda>_. True) [0, 0, 0, 0, 0, 0, 0] [0x1f, 0x1e, 0, 0] [Data [0, 1, 1, 254, 0x61]] \<noteq> Inl Overread"
  using unpack_header_safe [of "[0x1f, 0x1e, 0, 0]" "\<lambda>_. True"] by simp

text \<open>Decoding is not safe. The end mark of the tree points behind the symbol table, and the decoder reads a
  symbol there when the mark comes before the announced size: a file of ten bytes does it.\<close>

theorem unpack_overreads:
  "unpack (\<lambda>_. True) [] [] [Data [0x1f, 0x1e, 0, 0, 0, 2, 1, 0, 0x61, 0x80]] = Inl Overread"
  by code_simp

text \<open>The count of bytes read from the file is one too small: the table of counts is accounted for after the level
  count was adjusted.\<close>

lemma unpack_miscounts:
  "unpack (\<lambda>_. True) [] [] [Data [0x1f, 0x1e, 0, 0, 0, 1, 1, 0, 0x61, 0x40]] = Inr ([0x61], 1, 9)"
  by code_simp

text \<open>A header that arrives in two pieces is completed from uninitialized memory.\<close>

lemma unpack_short_header:
  "unpack (\<lambda>_. True) [0, 0, 0, 0, 0, 0, 0] [] [Data [0x1f, 0x1e], Data [0, 0, 0, 1, 1, 0, 0x61, 0x40]] =
     Inl (Exit2 (Warnx ''Huffman tree has insane levels''))"
  by code_simp

end
