(* ===== verification/Text_Lib.thy ===== *)
theory Text_Lib
  imports Prelude Tr_Lib "HOL-Library.List_Lexorder"
begin

text \<open>
  What the line-oriented utilities of \<^verbatim>\<open>text_cmds-88\<close> share: a text as a list of lines, each
  ended by the newline or, for the last one, by the end of the text; the laws of the
  multibyte encoding the utilities rely on; the way they stop.
\<close>

section \<open>Lines\<close>

function lines_of :: "'a \<Rightarrow> 'a list \<Rightarrow> 'a list list" where
  "lines_of nl [] = []"
| "lines_of nl (c # s) =
     takeWhile (\<lambda>x. x \<noteq> nl) (c # s) # lines_of nl (tl (dropWhile (\<lambda>x. x \<noteq> nl) (c # s)))"
  by pat_completeness auto
termination
proof (relation "measure (\<lambda>(nl, s). length s)", goal_cases)
  case (2 nl c s)
  have "length (tl (dropWhile (\<lambda>x. x \<noteq> nl) (c # s))) \<le> length (dropWhile (\<lambda>x. x \<noteq> nl) (c # s)) - 1"
    by simp
  also have "\<dots> < length (c # s)" using length_dropWhile_le [of "\<lambda>x. x \<noteq> nl" "c # s"] by simp
  finally show ?case by simp
qed simp

text \<open>A text ends a line where the next character would start one.\<close>

definition ends_line :: "'a \<Rightarrow> 'a list \<Rightarrow> bool" where
  "ends_line nl s = (s = [] \<or> last s = nl)"

definition unlines :: "'a \<Rightarrow> 'a list list \<Rightarrow> 'a list" where
  "unlines nl ls = concat (map (\<lambda>l. l @ [nl]) ls)"

lemma unlines_simps [simp]:
  "unlines nl [] = []" "unlines nl (l # ls) = l @ nl # unlines nl ls"
  "unlines nl (ls @ ls') = unlines nl ls @ unlines nl ls'"
  by (simp_all add: unlines_def)

lemma lines_of_no_newline: "nl \<notin> set s \<Longrightarrow> s \<noteq> [] \<Longrightarrow> lines_of nl s = [s]"
proof -
  assume a: "nl \<notin> set s" "s \<noteq> []"
  then have "takeWhile (\<lambda>x. x \<noteq> nl) s = s" "dropWhile (\<lambda>x. x \<noteq> nl) s = []"
    by (simp_all add: takeWhile_eq_all_conv dropWhile_eq_Nil_conv) (metis a(1))+
  with a(2) show ?thesis by (cases s) simp_all
qed

lemma takeWhile_line: "nl \<notin> set l \<Longrightarrow> takeWhile (\<lambda>x. x \<noteq> nl) (l @ nl # s) = l"
  by (subst takeWhile_append2) auto

lemma dropWhile_line: "nl \<notin> set l \<Longrightarrow> dropWhile (\<lambda>x. x \<noteq> nl) (l @ nl # s) = nl # s"
  by (subst dropWhile_append2) auto

lemma lines_of_line: "nl \<notin> set l \<Longrightarrow> lines_of nl (l @ nl # s) = l # lines_of nl s"
  using takeWhile_line [of nl l s] dropWhile_line [of nl l s] by (cases l) simp_all

lemma lines_of_cases [consumes 1, case_names last line]:
  assumes "s \<noteq> []"
  obtains (last) "nl \<notin> set s" "lines_of nl s = [s]"
  | (line) l r where "s = l @ nl # r" "nl \<notin> set l" "lines_of nl s = l # lines_of nl r"
proof (cases "nl \<in> set s")
  case True
  then obtain l r where "s = l @ nl # r" "nl \<notin> set l" by (meson split_list_first)
  then show ?thesis using line lines_of_line [of nl l r] by simp
next
  case False
  then show ?thesis using last lines_of_no_newline [OF False assms] by simp
qed

lemma lines_of_unlines: "\<forall>l \<in> set ls. nl \<notin> set l \<Longrightarrow> lines_of nl (unlines nl ls) = ls"
  by (induction ls) (simp_all add: lines_of_line)

lemma lines_of_no_nl: "l \<in> set (lines_of nl s) \<Longrightarrow> nl \<notin> set l"
  by (induction nl s rule: lines_of.induct) (auto dest: set_takeWhileD split: if_splits)

lemma ends_line_append: "ends_line nl (x @ y) \<longleftrightarrow> (if y = [] then ends_line nl x else last y = nl)"
  by (simp add: ends_line_def)

lemma lines_of_append: "ends_line nl x \<Longrightarrow> lines_of nl (x @ y) = lines_of nl x @ lines_of nl y"
proof (induction "length x" arbitrary: x rule: less_induct)
  case less
  show ?case
  proof (cases "x = []")
    case True
    then show ?thesis by simp
  next
    case False
    with less.prems have "nl \<in> set x" by (auto simp: ends_line_def)
    then obtain l r where s: "x = l @ nl # r" "nl \<notin> set l" by (meson split_list_first)
    have "ends_line nl r" using less.prems s by (auto simp: ends_line_def split: if_splits)
    then have "lines_of nl (r @ y) = lines_of nl r @ lines_of nl y" using less.hyps [of r] s by simp
    then show ?thesis using s by (simp add: lines_of_line)
  qed
qed

lemma unlines_lines_of: "ends_line nl s \<Longrightarrow> unlines nl (lines_of nl s) = s"
proof (induction "length s" arbitrary: s rule: less_induct)
  case less
  show ?case
  proof (cases "s = []")
    case False
    then show ?thesis
    proof (cases rule: lines_of_cases [of s nl])
      case last
      then show ?thesis using less.prems False by (auto simp: ends_line_def)
    next
      case (line l r)
      then have "ends_line nl r" using less.prems by (auto simp: ends_line_def split: if_splits)
      then show ?thesis using line less.hyps [of r] by simp
    qed
  qed simp
qed

section \<open>Machine integers and characters\<close>

abbreviation INT_MAX :: int where "INT_MAX \<equiv> 2 ^ 31 - 1"

definition c_isdigit :: "char \<Rightarrow> bool" where
  "c_isdigit c = (let n = of_char c :: nat in 48 \<le> n \<and> n \<le> 57)"

section \<open>The multibyte encoding\<close>

abbreviation NL :: char where "NL \<equiv> CHR 0x0A"
abbreviation NUL :: char where "NUL \<equiv> CHR 0x00"

text \<open>\<open>mbrtowc(&wc, s, n, NULL)\<close> on a region of memory of \<open>n\<close> bytes: nothing to read is an incomplete
  character, a NUL byte a character of length 0, and other characters end before the next NUL byte.
  An incomplete character is not remembered between calls.\<close>

definition mbrtowc_n :: "libc \<Rightarrow> string \<Rightarrow> mb" where
  "mbrtowc_n lc s =
     (if s = [] then MbBad else if hd s = NUL then MbChar 0 0
      else mbrtowc lc (takeWhile (\<lambda>c. c \<noteq> NUL) s))"

definition iswalnum :: "libc \<Rightarrow> int \<Rightarrow> bool" where
  "iswalnum lc ch = iswctype lc ch (wctype lc ''alnum'')"

text \<open>The encodings of the supported locales: a character takes at least one byte and no more than
  there are, and the newline byte is part of no other character.\<close>

definition mb_ok :: "libc \<Rightarrow> bool" where
  "mb_ok lc \<longleftrightarrow>
     (\<forall>s c n. s \<noteq> [] \<longrightarrow> NUL \<notin> set s \<longrightarrow> mbrtowc lc s = MbChar c n \<longrightarrow> 0 < n \<and> n \<le> length s) \<and>
     (\<forall>s r. s \<noteq> [] \<longrightarrow> NL \<notin> set s \<longrightarrow> mbrtowc lc (s @ NL # r) = mbrtowc lc s)"

lemma mb_ok_c_locale: "mb_ok c_locale"
  by (auto simp: mb_ok_def c_locale_def neq_Nil_conv split: list.splits)

section \<open>Wide characters and collation\<close>

text \<open>The locale with the two routines the wide-character utilities call besides: \<open>wcscoll\<close>, of
  which only the sign counts, and \<open>wcwidth\<close> (not positive for what takes no column).\<close>

record wlibc = libc +
  wcscoll :: "int list \<Rightarrow> int list \<Rightarrow> int"
  wcwidth :: "int \<Rightarrow> int"

definition iswblank :: "wlibc \<Rightarrow> int \<Rightarrow> bool" where
  "iswblank lc ch = iswctype lc ch (wctype lc ''blank'')"

fun wcscmp :: "int list \<Rightarrow> int list \<Rightarrow> int" where
  "wcscmp [] [] = 0"
| "wcscmp [] (b # bs) = -1"
| "wcscmp (a # as) [] = 1"
| "wcscmp (a # as) (b # bs) = (if a = b then wcscmp as bs else if a < b then -1 else 1)"

definition c_wlocale :: wlibc where
  "c_wlocale = libc.extend c_locale
     (wlibc.fields wcscmp (\<lambda>c. if c = 0 then 0 else if 32 \<le> c \<and> c < 127 then 1 else -1))"

lemma c_wlocale_simps [simp]:
  "wcscoll c_wlocale = wcscmp"
  "towlower c_wlocale = towlower c_locale"
  "wcwidth c_wlocale c = (if c = 0 then 0 else if 32 \<le> c \<and> c < 127 then 1 else -1)"
  "iswblank c_wlocale c \<longleftrightarrow> c = 32 \<or> c = 9"
  "mem c_wlocale"
  by (simp_all add: c_wlocale_def libc.defs wlibc.defs c_locale_def iswblank_def c_iswctype_def class_names_def)

text \<open>\<open>wcscoll\<close> orders strings as \<open>wcscmp\<close> orders what \<open>wcsxfrm\<close> makes of them: it is the comparison
  of a key in a linear order.\<close>

definition collates :: "wlibc \<Rightarrow> (int list \<Rightarrow> 'k::linorder) \<Rightarrow> bool" where
  "collates lc key \<longleftrightarrow>
     (\<forall>a b. (wcscoll lc a b < 0 \<longleftrightarrow> key a < key b) \<and> (wcscoll lc a b = 0 \<longleftrightarrow> key a = key b))"

lemma wcscmp_collates: "collates c_wlocale (\<lambda>w. (w :: int list))"
proof -
  have "(wcscmp a b < 0 \<longleftrightarrow> a < b) \<and> (wcscmp a b = 0 \<longleftrightarrow> a = b)" for a b :: "int list"
    by (induction a b rule: wcscmp.induct) auto
  then show ?thesis by (simp add: collates_def)
qed

text \<open>A wide string in a buffer ends at the first null character.\<close>

definition cstr :: "int list \<Rightarrow> int list" where
  "cstr w = takeWhile (\<lambda>c. c \<noteq> 0) w"

text \<open>\<open>wcsicoll\<close>, which \<^verbatim>\<open>comm\<close> and \<^verbatim>\<open>uniq\<close> define alike: the collation of the strings in lower case.\<close>

definition wcsicoll :: "wlibc \<Rightarrow> int list \<Rightarrow> int list \<Rightarrow> int" where
  "wcsicoll lc s1 s2 = wcscoll lc (map (towlower lc) s1) (map (towlower lc) s2)"

definition compare_lines :: "wlibc \<Rightarrow> bool \<Rightarrow> int list \<Rightarrow> int list \<Rightarrow> int" where
  "compare_lines lc iflag s1 s2 = (if iflag then wcsicoll lc s1 s2 else wcscoll lc s1 s2)"

text \<open>The key of a line under the \<open>-i\<close> flag.\<close>

definition line_key :: "wlibc \<Rightarrow> (int list \<Rightarrow> 'k) \<Rightarrow> bool \<Rightarrow> int list \<Rightarrow> 'k" where
  "line_key lc key iflag s = key (if iflag then map (towlower lc) s else s)"

lemma compare_lines_key:
  assumes "collates lc key"
  shows "compare_lines lc iflag a b < 0 \<longleftrightarrow> line_key lc key iflag a < line_key lc key iflag b"
    "compare_lines lc iflag a b = 0 \<longleftrightarrow> line_key lc key iflag a = line_key lc key iflag b"
  using assms by (simp_all add: collates_def compare_lines_def wcsicoll_def line_key_def)

section \<open>Wide streams\<close>

text \<open>A stream open for reading wide characters: the characters to come, and whether it ends with a
  read error (\<open>ferror\<close>) instead of an end of file.\<close>

record wfile =
  wtext :: "int list"
  werr :: bool

text \<open>What such a utility leaves behind: the wide characters written, the diagnostics, the status.\<close>

record woutcome =
  wout :: "int list"
  wdiags :: "diag list"
  wstatus :: nat

abbreviation WNL :: int where "WNL \<equiv> 10"

definition getwc :: "wfile \<Rightarrow> int option \<times> wfile" where
  "getwc fp = (case wtext fp of [] \<Rightarrow> (None, fp) | c # cs \<Rightarrow> (Some c, fp\<lparr>wtext := cs\<rparr>))"

text \<open>What \<open>fgetws\<close> takes with room for \<open>n\<close> characters from the characters to come: up to \<open>n\<close> of them, not past a
  newline.\<close>

fun take_line :: "nat \<Rightarrow> int list \<Rightarrow> int list" where
  "take_line 0 w = []"
| "take_line (Suc n) [] = []"
| "take_line (Suc n) (c # w) = (if c = WNL then [c] else c # take_line n w)"

text \<open>\<open>fgetws(buf, n, fp)\<close> returns nothing at the end of the file, and nothing when an error comes before the line is
  complete.\<close>

definition fgetws :: "nat \<Rightarrow> wfile \<Rightarrow> int list option \<times> wfile" where
  "fgetws n fp =
     (let l = take_line (n - 1) (wtext fp); fp' = fp\<lparr>wtext := drop (length l) (wtext fp)\<rparr> in
      if l = [] \<or> (werr fp \<and> wtext fp' = [] \<and> last l \<noteq> WNL \<and> length l < n - 1) then (None, fp') else (Some l, fp'))"

lemma take_line_length: "length (take_line n w) \<le> n" "length (take_line n w) \<le> length w"
  by (induction n w rule: take_line.induct) auto

lemma take_line_prefix: "w = take_line n w @ drop (length (take_line n w)) w"
  by (induction n w rule: take_line.induct) auto

lemma fgetws_shrinks: "fgetws n fp = (Some l, fp') \<Longrightarrow> length (wtext fp') < length (wtext fp)"
  using take_line_length(2) [of "n - 1" "wtext fp"] by (cases "wtext fp") (auto simp: fgetws_def Let_def split: if_splits)

text \<open>The lines a program reads with \<open>fgetws\<close>: longer ones come in pieces.\<close>

function pieces :: "nat \<Rightarrow> int list \<Rightarrow> int list list" where
  "pieces n w = (if take_line (n - 1) w = [] then [] else take_line (n - 1) w # pieces n (drop (length (take_line (n - 1) w)) w))"
  by pat_completeness auto
termination
  by (relation "measure (\<lambda>(n, w). length w)") (auto, metis take_line_length(2) diff_less length_greater_0_conv take_line.simps le_zero_eq list.size(3))

declare pieces.simps [simp del]

lemma fgetws_pieces:
  assumes "\<not> werr fp"
  shows "fgetws n fp = (case pieces n (wtext fp) of
      [] \<Rightarrow> (None, fp) | l # ls \<Rightarrow> (Some l, fp\<lparr>wtext := drop (length l) (wtext fp)\<rparr>))"
    "pieces n (wtext fp) = l # ls \<Longrightarrow> pieces n (drop (length l) (wtext fp)) = ls"
  using assms by (auto simp: fgetws_def Let_def pieces.simps [of n "wtext fp"] split: if_splits)

end
