(* ===== verification/Alias_Util.thy ===== *)
theory Alias_Util
  imports Prelude Text_Lib
begin

text \<open>
  \<^verbatim>\<open>network_cmds-481.20.1/alias/alias_util.c\<close>: the Internet checksum of the packet aliasing library,
  over the IP header, over a TCP segment with its pseudo header, and its update when words of a packet
  are replaced. Memory is a list of bytes, a \<open>u_short\<close> is loaded from it in the order of the target,
  low byte first; a sum that leaves the range of \<open>int\<close> and a read past the end stop the model.
\<close>

section \<open>Sums\<close>

datatype al_stop = Out_of_bounds | Int_overflow

definition int_ck :: "int \<Rightarrow> al_stop + int" where
  "int_ck v = (if - INT_MAX - 1 \<le> v \<and> v \<le> INT_MAX then Inr v else Inl Int_overflow)"

definition ushort :: "u8 \<Rightarrow> u8 \<Rightarrow> int" where
  "ushort lo hi = uint lo + 256 * uint hi"

text \<open>\<open>while (nbytes > 1) { sum += *ptr++; nbytes -= 2; }\<close> and the odd byte after it, in the low half
  of a cleared \<open>int\<close>.\<close>

function add_words :: "u8 list \<Rightarrow> int \<Rightarrow> int \<Rightarrow> al_stop + int" where
  "add_words ptr nbytes tot =
     (if nbytes > 1 then
        (case ptr of
           lo # hi # ptr' \<Rightarrow> bind_r (int_ck (tot + ushort lo hi)) (add_words ptr' (nbytes - 2))
         | _ \<Rightarrow> Inl Out_of_bounds)
      else if nbytes = 1 then
        (case ptr of [] \<Rightarrow> Inl Out_of_bounds | b # _ \<Rightarrow> int_ck (tot + ushort b 0))
      else Inr tot)"
  by pat_completeness auto
termination
  by (relation "measure (\<lambda>(ptr, nbytes, tot). nat nbytes)") auto

declare add_words.simps [simp del]

text \<open>\<open>sum = (sum >> 16) + (sum & 0xffff); sum += (sum >> 16);\<close>\<close>

definition roll_over :: "int \<Rightarrow> int" where
  "roll_over tot = (let s = drop_bit 16 tot + (tot AND 0xffff) in s + drop_bit 16 s)"

definition PacketAliasInternetChecksum :: "u8 list \<Rightarrow> int \<Rightarrow> al_stop + u16" where
  "PacketAliasInternetChecksum ptr nbytes =
     bind_r (add_words ptr nbytes 0) (\<lambda>tot. Inr (word_of_int (NOT (roll_over tot))))"

section \<open>Headers\<close>

text \<open>The fields of \<open>struct ip\<close> the routines read.\<close>

definition ip_hl :: "u8 list \<Rightarrow> int" where
  "ip_hl pip = uint (pip ! 0) mod 16"

definition ntohs_at :: "u8 list \<Rightarrow> nat \<Rightarrow> int" where
  "ntohs_at pip i = 256 * uint (pip ! i) + uint (pip ! (i + 1))"

definition ip_len :: "u8 list \<Rightarrow> int" where
  "ip_len pip = ntohs_at pip 2"

definition ip_p :: "u8 list \<Rightarrow> int" where
  "ip_p pip = uint (pip ! 9)"

text \<open>\<open>htons((u_short) v)\<close>: the low 16 bits with their bytes exchanged.\<close>

definition htons :: "int \<Rightarrow> int" where
  "htons v = (let u = v mod 65536 in 256 * (u mod 256) + u div 256)"

definition IpChecksum :: "u8 list \<Rightarrow> al_stop + u16" where
  "IpChecksum pip =
     (if pip = [] then Inl Out_of_bounds else PacketAliasInternetChecksum pip (4 * ip_hl pip))"

text \<open>The addresses of the pseudo header: \<open>ip_dst\<close> at byte 16, \<open>ip_src\<close> at byte 12, two words each.\<close>

definition word_at_byte :: "u8 list \<Rightarrow> nat \<Rightarrow> int" where
  "word_at_byte pip i = ushort (pip ! i) (pip ! (i + 1))"

definition TcpChecksum :: "u8 list \<Rightarrow> al_stop + u16" where
  "TcpChecksum pip =
     (if length pip < 20 then Inl Out_of_bounds
      else let nhdr = 4 * ip_hl pip; ntcp = ip_len pip - nhdr in
        bind_r (add_words (drop (nat nhdr) pip) ntcp 0) (\<lambda>sum0.
        bind_r (int_ck (sum0 + word_at_byte pip 16 + word_at_byte pip 18 + word_at_byte pip 12 + word_at_byte pip 14 +
            htons ntcp + htons (ip_p pip))) (\<lambda>tot.
          Inr (word_of_int (NOT (roll_over tot))))))"

section \<open>Replacing words\<close>

fun accumulate_loop :: "u16 list \<Rightarrow> u16 list \<Rightarrow> nat \<Rightarrow> int \<Rightarrow> al_stop + int" where
  "accumulate_loop new old 0 acc = Inr acc"
| "accumulate_loop new old (Suc n) acc =
     (if new = [] \<or> old = [] then Inl Out_of_bounds
      else bind_r (int_ck (acc - uint (hd new))) (\<lambda>acc1.
           bind_r (int_ck (acc1 + uint (hd old))) (accumulate_loop (tl new) (tl old) n)))"

definition DifferentialChecksum :: "u16 \<Rightarrow> u16 list \<Rightarrow> u16 list \<Rightarrow> nat \<Rightarrow> al_stop + u16" where
  "DifferentialChecksum cksum new old n =
     bind_r (accumulate_loop new old n (uint cksum)) (\<lambda>acc.
       if acc < 0 then bind_r (int_ck (- acc)) (\<lambda>a. Inr (word_of_int (NOT (roll_over a))))
       else Inr (word_of_int (roll_over acc)))"

section \<open>Arithmetic modulo 65535\<close>

lemma roll_over_eq: "roll_over s = (let t = s div 65536 + s mod 65536 in t + t div 65536)"
  using take_bit_eq_mask [of 16 s]
  by (simp add: roll_over_def drop_bit_eq_div take_bit_eq_mod mask_eq_exp_minus_1)

lemma uint16: "uint (word_of_int x :: u16) = x mod 65536"
  using uint_word_of_int [of x, where 'a = 16] by simp

lemma roll_over_word:
  assumes "0 \<le> s" "s \<le> INT_MAX"
  shows "(uint (word_of_int (roll_over s) :: u16) mod 65535 = s mod 65535) \<and>
    (uint (word_of_int (roll_over s) :: u16) = 0 \<longleftrightarrow> s = 0)"
proof -
  define t where "t = s div 65536 + s mod 65536"
  have d: "s = 65536 * (s div 65536) + s mod 65536" by simp
  have q: "0 \<le> s div 65536" "s div 65536 \<le> 32767" using assms by (simp_all add: pos_imp_zdiv_nonneg_iff)
  have r: "0 \<le> s mod 65536" "s mod 65536 < 65536" by simp_all
  have t: "0 \<le> t" "t \<le> 98302" "t = 0 \<longleftrightarrow> s = 0" using q r d unfolding t_def by linarith+
  have "s = 65535 * (s div 65536) + t" using d by (simp add: t_def)
  then have ts: "t mod 65535 = s mod 65535" by (metis mod_mult_self4)
  have u: "uint (word_of_int (roll_over s) :: u16) = (t + t div 65536) mod 65536"
    unfolding uint16 roll_over_eq Let_def t_def ..
  show ?thesis
  proof (cases "t < 65536")
    case True
    then have "(t + t div 65536) mod 65536 = t" using t by simp
    then show ?thesis using u ts t by simp
  next
    case False
    then have "t div 65536 = 1" using t int_div_pos_eq [of t 65536 1 "t - 65536"] by simp
    moreover have "(t + 1) mod 65536 = t - 65535" using t False int_mod_pos_eq [of "t + 1" 65536 1 "t - 65535"] by simp
    ultimately have "(t + t div 65536) mod 65536 = t - 65535" by simp
    then show ?thesis using u ts t False by (simp add: mod_diff_right_eq)
  qed
qed

lemma uint_not16: "uint (word_of_int (NOT v) :: u16) = 65535 - uint (word_of_int v :: u16)"
proof -
  have "(word_of_int (NOT v) :: u16) = NOT (word_of_int v)" by (simp add: not_eq_complement)
  moreover have "uint (NOT (x :: u16)) = 65535 - uint x" for x
  proof -
    have b: "0 \<le> uint x" "uint x < 65536" using unsigned_less [of x, where 'a = int] by simp_all
    have "uint (NOT x) = (- uint x - 1) mod 65536" by (simp add: not_eq_complement uint_word_ariths mod_diff_left_eq)
    also have "\<dots> = (65535 - uint x) mod 65536" using mod_add_self2 [of "- uint x - 1" 65536] by simp
    also have "\<dots> = 65535 - uint x" by (rule mod_pos_pos_trivial) (use b in linarith)+
    finally show ?thesis .
  qed
  ultimately show ?thesis by simp
qed

lemma mod_65536: "65536 * x mod 65535 = (x :: int) mod 65535"
  using mod_mult_self2 [of x 65535 x] by simp

lemma congE:
  assumes "a mod m = b mod (m :: int)"
  obtains k where "a = b + m * k"
proof -
  have "m dvd a - b" using assms by (simp add: mod_eq_dvd_iff)
  then obtain k where "a - b = m * k" by (elim dvdE)
  then have "a = b + m * k" by linarith
  then show ?thesis by (rule that)
qed

lemma mod_65535_eq:
  assumes "0 \<le> x" "x \<le> 65535" "0 \<le> y" "y \<le> 65535" "x mod 65535 = y mod 65535" "x = 0 \<longleftrightarrow> y = 0"
  shows "(x :: int) = y"
proof (cases "x = 65535 \<or> y = 65535")
  case True
  then show ?thesis using assms mod_pos_pos_trivial [of x 65535] mod_pos_pos_trivial [of y 65535] by force
next
  case False
  then show ?thesis using assms mod_pos_pos_trivial [of x 65535] mod_pos_pos_trivial [of y 65535] by simp
qed

section \<open>The sum of the words in memory\<close>

fun sum16 :: "u8 list \<Rightarrow> int" where
  "sum16 [] = 0"
| "sum16 [b] = ushort b 0"
| "sum16 (lo # hi # bs) = ushort lo hi + sum16 bs"

lemma uint_u8: "0 \<le> uint (b :: u8)" "uint (b :: u8) \<le> 255"
  using unsigned_less [of b, where 'a = int] by simp_all

lemma ushort_bounds: "0 \<le> ushort lo hi" "ushort lo hi \<le> 65535"
  using uint_u8 [of lo] uint_u8 [of hi] by (simp_all add: ushort_def)

lemma sum16_bounds: "0 \<le> sum16 bs" "sum16 bs \<le> 65535 * int ((length bs + 1) div 2)"
proof (induction bs rule: sum16.induct)
  case (3 lo hi bs)
  { case 1 show ?case using 3 ushort_bounds [of lo hi] by simp }
  { case 2 show ?case using 3 ushort_bounds [of lo hi] by simp }
qed (use ushort_bounds in \<open>simp_all\<close>)

lemma add_words_sum16:
  "n \<le> length ptr \<Longrightarrow> 0 \<le> s \<Longrightarrow> s + sum16 (take n ptr) \<le> INT_MAX \<Longrightarrow>
     add_words ptr (int n) s = Inr (s + sum16 (take n ptr))"
proof (induction n arbitrary: ptr s rule: less_induct)
  case (less n)
  consider "n = 0" | "n = 1" | m where "n = Suc (Suc m)" by (metis One_nat_def not0_implies_Suc)
  then show ?case
  proof cases
    case 1
    then show ?thesis by (simp add: add_words.simps)
  next
    case 2
    then obtain b r where "ptr = b # r" using less.prems(1) by (cases ptr) auto
    then show ?thesis using less.prems 2 ushort_bounds [of b 0] by (simp add: add_words.simps int_ck_def)
  next
    case 3
    then obtain lo hi r where p: "ptr = lo # hi # r" using less.prems(1) by (cases ptr rule: sum16.cases) auto
    then have "s + ushort lo hi + sum16 (take m r) \<le> INT_MAX" using less.prems(3) 3 by simp
    moreover have "int_ck (s + ushort lo hi) = Inr (s + ushort lo hi)"
      using calculation less.prems(2) ushort_bounds [of lo hi] sum16_bounds(1) [of "take m r"] by (simp add: int_ck_def)
    ultimately show ?thesis
      using less.IH [of m r "s + ushort lo hi"] less.prems(1,2) 3 p ushort_bounds [of lo hi]
      by (simp add: add_words.simps [of "lo # hi # r"])
  qed
qed

section \<open>The reference: RFC 1071 in network order\<close>

text \<open>One's complement addition, with the carry brought around.\<close>

definition oplus :: "int \<Rightarrow> int \<Rightarrow> int" where
  "oplus a b = (if a + b > 65535 then a + b - 65535 else a + b)"

fun ones_sum :: "u8 list \<Rightarrow> int" where
  "ones_sum [] = 0"
| "ones_sum [b] = 256 * uint b"
| "ones_sum (hi # lo # bs) = oplus (256 * uint hi + uint lo) (ones_sum bs)"

lemma ones_sum_word: "0 \<le> ones_sum bs \<and> ones_sum bs \<le> 65535"
proof (induction bs rule: ones_sum.induct)
  case (3 hi lo bs)
  then show ?case using uint_u8 [of hi] uint_u8 [of lo] by (simp add: oplus_def)
next
  case (2 b)
  then show ?case using uint_u8 [of b] by simp
qed simp

text \<open>The sum in the order of the machine is the sum in network order with the bytes exchanged.\<close>

lemma ones_sum_sum16: "(256 * ones_sum bs) mod 65535 = sum16 bs mod 65535 \<and> (ones_sum bs = 0 \<longleftrightarrow> sum16 bs = 0)"
proof (induction bs rule: ones_sum.induct)
  case (2 b)
  show ?case by (simp add: ushort_def mod_65536)
next
  case (3 hi lo bs)
  define w where "w = 256 * uint hi + uint lo"
  have w: "0 \<le> w" "w = 0 \<longleftrightarrow> ushort hi lo = 0"
    unfolding w_def ushort_def using uint_u8 [of hi] uint_u8 [of lo] by linarith+
  have "256 * w = ushort hi lo + 65535 * uint hi" by (simp add: w_def ushort_def)
  then have "(256 * w) mod 65535 = ushort hi lo mod 65535" by simp
  moreover have "(256 * oplus w (ones_sum bs)) mod 65535 = (256 * w + 256 * ones_sum bs) mod 65535"
  proof (cases "w + ones_sum bs > 65535")
    case True
    then have "256 * oplus w (ones_sum bs) + 65535 * 256 = 256 * w + 256 * ones_sum bs" by (simp add: oplus_def)
    then show ?thesis using mod_mult_self2 [of "256 * oplus w (ones_sum bs)" 65535 256] by (simp only:)
  qed (simp add: oplus_def)
  ultimately have "(256 * oplus w (ones_sum bs)) mod 65535 = (ushort hi lo + sum16 bs) mod 65535"
    using 3 by (metis mod_add_cong)
  moreover have "oplus w (ones_sum bs) = 0 \<longleftrightarrow> ushort hi lo + sum16 bs = 0"
    using w ones_sum_word [of bs] 3 ushort_bounds(1) [of hi lo] sum16_bounds(1) [of bs] by (auto simp: oplus_def)
  ultimately show ?case by (simp add: w_def)
qed simp

text \<open>The two bytes of a word in memory, read in network order.\<close>

definition net_value :: "u16 \<Rightarrow> int" where
  "net_value c = 256 * (uint c mod 256) + uint c div 256"

lemma net_value_props:
  "0 \<le> net_value c" "net_value c \<le> 65535" "net_value c mod 65535 = (256 * uint c) mod 65535"
  "net_value c = 0 \<longleftrightarrow> uint c = 0" "net_value c = 65535 \<longleftrightarrow> uint c = 65535"
proof -
  define q r where "q = uint c div 256" and "r = uint c mod 256"
  have c: "uint c = 256 * q + r" by (simp add: q_def r_def)
  have b: "0 \<le> uint c" "uint c < 65536" using unsigned_less [of c, where 'a = int] by simp_all
  have r: "0 \<le> r" "r < 256" by (simp_all add: r_def)
  have q: "0 \<le> q" "q < 256" using b c r by linarith+
  have v: "net_value c = 256 * r + q" by (simp add: net_value_def q_def r_def)
  show "0 \<le> net_value c" "net_value c \<le> 65535" using v q r by linarith+
  have "256 * uint c = net_value c + 65535 * q" using v c by simp
  then show "net_value c mod 65535 = (256 * uint c) mod 65535" by simp
  show "net_value c = 0 \<longleftrightarrow> uint c = 0" "net_value c = 65535 \<longleftrightarrow> uint c = 65535" using v c q r by linarith+
qed

lemma net_value_checksum:
  assumes "0 \<le> s" "s \<le> INT_MAX" "(256 * o1) mod 65535 = s mod 65535" "o1 = 0 \<longleftrightarrow> s = 0" "0 \<le> o1" "o1 \<le> 65535"
  shows "net_value (word_of_int (NOT (roll_over s))) = 65535 - o1"
proof -
  define f where "f = uint (word_of_int (roll_over s) :: u16)"
  define c where "c = (word_of_int (NOT (roll_over s)) :: u16)"
  have f: "f mod 65535 = s mod 65535" "f = 0 \<longleftrightarrow> s = 0" using roll_over_word [OF assms(1,2)] by (simp_all add: f_def)
  have c: "uint c = 65535 - f" by (simp add: c_def f_def uint_not16)
  note nv = net_value_props [of c]
  obtain a where a: "f = s + 65535 * a" using f(1) by (rule congE)
  obtain b where b: "256 * o1 = s + 65535 * b" using assms(3) by (rule congE)
  obtain d where d: "net_value c = 256 * uint c + 65535 * d" using nv(3) by (rule congE)
  have eq: "65535 - net_value c = o1 + 65535 * (256 * a - 256 * b - d + o1 - 255)"
  proof -
    have "s = 256 * o1 - 65535 * b" using b by simp
    then show ?thesis unfolding d c a by (simp add: right_diff_distrib distrib_left)
  qed
  have m: "(65535 - net_value c) mod 65535 = o1 mod 65535" unfolding eq by (rule mod_mult_self2)
  have z: "65535 - net_value c = 0 \<longleftrightarrow> o1 = 0" using nv(5) c f(2) assms(4) by linarith
  have "65535 - net_value c = o1"
    by (rule mod_65535_eq [OF _ _ assms(5,6) m z]) (use nv(1,2) in linarith)+
  then show ?thesis by (simp add: c_def)
qed

section \<open>Properties\<close>

text \<open>C40: the Internet checksum. For every block of at most 65535 bytes the routine returns the complement of
  the one's complement sum of RFC 1071: it adds words in the order of the machine, into 32 bits, and brings the
  carries around twice, but the two bytes it stores are the checksum of the words in network order.\<close>

theorem checksum_is_rfc1071:
  assumes "length bs \<le> 65535"
  shows "\<exists>c. PacketAliasInternetChecksum bs (int (length bs)) = Inr c \<and> net_value c = 65535 - ones_sum bs"
proof -
  have "int ((length bs + 1) div 2) \<le> 32768" using assms by simp
  then have "sum16 bs \<le> 2147483647" using sum16_bounds(2) [of bs] by linarith
  then have s: "sum16 bs \<le> INT_MAX" by simp
  have "add_words bs (int (length bs)) 0 = Inr (sum16 bs)" using add_words_sum16 [of "length bs" bs 0] s by simp
  moreover have "net_value (word_of_int (NOT (roll_over (sum16 bs)))) = 65535 - ones_sum bs"
    using ones_sum_sum16 [of bs] ones_sum_word [of bs] sum16_bounds(1) [of bs] s by (intro net_value_checksum) auto
  ultimately show ?thesis by (simp add: PacketAliasInternetChecksum_def)
qed

theorem checksum_is_rfc1071_witness:
  "\<exists>c. PacketAliasInternetChecksum [0x45, 0, 0, 7, 1] 5 = Inr c \<and> net_value c = 0xb9f8"
  using checksum_is_rfc1071 [of "[0x45, 0, 0, 7, 1]"] by (simp add: oplus_def)

definition pseudo_header :: "u8 list \<Rightarrow> u8 list" where
  "pseudo_header pip =
     take 4 (drop 12 pip) @ take 4 (drop 16 pip) @ [0, pip ! 9] @
     (let n = ip_len pip - 4 * ip_hl pip in [word_of_int (n div 256), word_of_int (n mod 256)])"

lemma sum16_append: "even (length xs) \<Longrightarrow> sum16 (xs @ ys) = sum16 xs + sum16 ys"
  by (induction xs rule: sum16.induct) auto

lemma take_drop_nth4:
  "i + 4 \<le> length xs \<Longrightarrow> take 4 (drop i xs) = [xs ! i, xs ! (i + 1), xs ! (i + 2), xs ! (i + 3)]"
  by (simp add: numeral_eq_Suc take_Suc_conv_app_nth)

lemma uint_small: "0 \<le> n \<Longrightarrow> n < 256 \<Longrightarrow> uint (word_of_int n :: u8) = n"
  using uint_word_of_int [of n, where 'a = 8] by simp

lemma sum16_pseudo:
  assumes "20 \<le> length pip" "0 \<le> n" "n \<le> 65535" "n = ip_len pip - 4 * ip_hl pip"
  shows "sum16 (pseudo_header pip) =
    word_at_byte pip 16 + word_at_byte pip 18 + word_at_byte pip 12 + word_at_byte pip 14 + htons n + htons (ip_p pip)"
    "length (pseudo_header pip) = 12"
proof -
  have n: "n div 256 < 256" "0 \<le> n div 256" "n mod 256 < 256" "0 \<le> n mod 256" using assms(2,3) by simp_all
  have h: "htons n = ushort (word_of_int (n div 256)) (word_of_int (n mod 256))"
    using assms(2,3) n by (simp add: htons_def ushort_def uint_small Let_def)
  have p: "htons (ip_p pip) = ushort 0 (pip ! 9)"
    using uint_u8 [of "pip ! 9"] by (simp add: htons_def ip_p_def ushort_def Let_def)
  show "sum16 (pseudo_header pip) =
    word_at_byte pip 16 + word_at_byte pip 18 + word_at_byte pip 12 + word_at_byte pip 14 + htons n + htons (ip_p pip)"
    using assms(1) by (simp add: pseudo_header_def take_drop_nth4 assms(4) [symmetric] h p word_at_byte_def)
  show "length (pseudo_header pip) = 12" using assms(1) by (simp add: pseudo_header_def Let_def)
qed

text \<open>C12: the TCP checksum. For an IP packet of the length its header says, the routine returns the
  checksum of RFC 1071 of the pseudo header (source, destination, protocol and length of the segment) followed by
  the segment.\<close>

theorem tcp_checksum_is_rfc1071:
  assumes "20 \<le> length pip" "int (length pip) = ip_len pip" "5 \<le> ip_hl pip" "4 * ip_hl pip \<le> ip_len pip"
  shows "\<exists>c. TcpChecksum pip = Inr c \<and>
    net_value c = 65535 - ones_sum (pseudo_header pip @ drop (nat (4 * ip_hl pip)) pip)"
proof -
  define n where "n = ip_len pip - 4 * ip_hl pip"
  define seg where "seg = drop (nat (4 * ip_hl pip)) pip"
  have len: "ip_len pip \<le> 65535"
    using uint_u8 [of "pip ! 2"] uint_u8 [of "pip ! 3"] by (simp add: ip_len_def ntohs_at_def)
  have n: "0 \<le> n" "n \<le> 65515" "int (length seg) = n" using assms(2-4) len by (simp_all add: n_def seg_def)
  have "sum16 seg \<le> 65535 * int ((length seg + 1) div 2)" by (rule sum16_bounds)
  moreover have "int ((length seg + 1) div 2) \<le> 32758" using n by linarith
  ultimately have sg: "sum16 seg \<le> 65535 * 32758" by linarith
  have "add_words seg (int (length seg)) 0 = Inr (sum16 seg)" using add_words_sum16 [of "length seg" seg 0] sg by simp
  then have aw: "add_words seg n 0 = Inr (sum16 seg)" using n(3) by simp
  have n': "n \<le> 65535" using n by simp
  note ps = sum16_pseudo [OF assms(1) n(1) n' n_def]
  have "sum16 (pseudo_header pip) \<le> 65535 * 6" using sum16_bounds(2) [of "pseudo_header pip"] ps(2) by simp
  moreover have sum: "sum16 (pseudo_header pip @ seg) = sum16 (pseudo_header pip) + sum16 seg"
    using ps(2) by (intro sum16_append) simp
  ultimately have tot: "sum16 (pseudo_header pip @ seg) \<le> 2147483647" using sg by linarith
  have "int_ck (sum16 (pseudo_header pip @ seg)) = Inr (sum16 (pseudo_header pip @ seg))"
    using tot sum16_bounds(1) [of "pseudo_header pip @ seg"] by (simp add: int_ck_def)
  then have "TcpChecksum pip = Inr (word_of_int (NOT (roll_over (sum16 (pseudo_header pip @ seg)))))"
    using assms(1) aw unfolding sum ps(1)
    by (simp add: TcpChecksum_def Let_def n_def [symmetric] seg_def [symmetric] add_ac)
  moreover have "net_value (word_of_int (NOT (roll_over (sum16 (pseudo_header pip @ seg))))) = 65535 - ones_sum (pseudo_header pip @ seg)"
    using ones_sum_sum16 [of "pseudo_header pip @ seg"] ones_sum_word [of "pseudo_header pip @ seg"]
      sum16_bounds(1) [of "pseudo_header pip @ seg"] tot by (intro net_value_checksum) auto
  ultimately show ?thesis by (simp add: seg_def)
qed

text \<open>Twenty bytes of header for protocol 6 and one byte of segment.\<close>

theorem tcp_checksum_is_rfc1071_witness:
  "\<exists>c. TcpChecksum [0x45, 0, 0, 21, 0, 0, 0, 0, 64, 6, 0, 0, 10, 0, 0, 1, 10, 0, 0, 2, 7] = Inr c \<and>
     net_value c = 0xe4f5"
  using tcp_checksum_is_rfc1071 [of "[0x45, 0, 0, 21, 0, 0, 0, 0, 64, 6, 0, 0, 10, 0, 0, 1, 10, 0, 0, 2, 7]"]
  by (simp add: ip_len_def ip_hl_def ntohs_at_def pseudo_header_def oplus_def Let_def)

section \<open>The update of a checksum\<close>

text \<open>A list of words in memory.\<close>

definition mem_of :: "u16 list \<Rightarrow> u8 list" where
  "mem_of ws = concat (map (\<lambda>w. [word_of_int (uint w mod 256), word_of_int (uint w div 256)]) ws)"

lemma uint_u16: "0 \<le> uint (w :: u16)" "uint (w :: u16) \<le> 65535"
  using unsigned_less [of w, where 'a = int] by simp_all

lemma sum16_mem: "sum16 (mem_of ws) = sum_list (map uint ws)" "length (mem_of ws) = 2 * length ws"
proof (induction ws)
  case (Cons w ws)
  have "uint w div 256 < 256" "0 \<le> uint w div 256"
    using uint_u16 [of w] pos_imp_zdiv_nonneg_iff [of 256 "uint w"] by - linarith+
  then have "ushort (word_of_int (uint w mod 256)) (word_of_int (uint w div 256)) = uint w"
    by (simp add: ushort_def uint_small)
  { case 1 then show ?case using Cons \<open>ushort _ _ = _\<close> by (simp add: mem_of_def) }
  { case 2 then show ?case using Cons by (simp add: mem_of_def) }
qed (simp_all add: mem_of_def)

text \<open>A packet whose checksum field is right: the routine gives 0.\<close>

definition verifies :: "u16 list \<Rightarrow> bool" where
  "verifies ws = (PacketAliasInternetChecksum (mem_of ws) (2 * int (length ws)) = Inr 0)"

lemma verifies_iff:
  assumes "length ws \<le> 32767"
  shows "verifies ws \<longleftrightarrow> sum_list (map uint ws) mod 65535 = 0 \<and> sum_list (map uint ws) \<noteq> 0"
proof -
  define S where "S = sum_list (map uint ws)"
  have S: "S = sum16 (mem_of ws)" by (simp add: S_def sum16_mem)
  have "(length (mem_of ws) + 1) div 2 = length ws" by (simp add: sum16_mem)
  then have "S \<le> 65535 * int (length ws)" "0 \<le> S" using sum16_bounds [of "mem_of ws"] S by simp_all
  then have b: "0 \<le> S" "S \<le> 2147483647" using assms by linarith+
  have "add_words (mem_of ws) (2 * int (length ws)) 0 = Inr S"
    using add_words_sum16 [of "length (mem_of ws)" "mem_of ws" 0] b S by (simp add: sum16_mem)
  then have v: "verifies ws \<longleftrightarrow> (word_of_int (NOT (roll_over S)) :: u16) = 0"
    by (simp add: verifies_def PacketAliasInternetChecksum_def)
  define f where "f = uint (word_of_int (roll_over S) :: u16)"
  have f: "f mod 65535 = S mod 65535" "f = 0 \<longleftrightarrow> S = 0" "0 \<le> f" "f \<le> 65535"
    using roll_over_word [of S] b uint_u16 [of "word_of_int (roll_over S)"] by (simp_all add: f_def)
  have "(word_of_int (NOT (roll_over S)) :: u16) = 0 \<longleftrightarrow> uint (word_of_int (NOT (roll_over S)) :: u16) = 0"
    by (simp add: uint_0_iff)
  then have "verifies ws \<longleftrightarrow> f = 65535" using v by (simp add: uint_not16 f_def)
  moreover have "f = 65535 \<longleftrightarrow> f mod 65535 = 0 \<and> f \<noteq> 0"
  proof
    assume "f mod 65535 = 0 \<and> f \<noteq> 0"
    then show "f = 65535" using mod_pos_pos_trivial [of f 65535] f(3,4) by linarith
  qed simp
  ultimately show ?thesis using f(1,2) by (simp add: S_def)
qed

lemma accumulate_loop_sum:
  assumes "length new = n" "length old = n" "- 65535 * int j \<le> acc" "acc \<le> 65535 * int j + 65535" "j + n \<le> 32767"
  shows "accumulate_loop new old n acc = Inr (acc - sum_list (map uint new) + sum_list (map uint old)) \<and>
    - 65535 * int (j + n) \<le> acc - sum_list (map uint new) + sum_list (map uint old) \<and>
    acc - sum_list (map uint new) + sum_list (map uint old) \<le> 65535 * int (j + n) + 65535"
  using assms
proof (induction n arbitrary: new old acc j)
  case (Suc n)
  obtain a new' where a: "new = a # new'" using Suc.prems(1) by (cases new) auto
  obtain b old' where b: "old = b # old'" using Suc.prems(2) by (cases old) auto
  note u = uint_u16 [of a] uint_u16 [of b]
  have "int j \<le> 32766" using Suc.prems(5) by simp
  then have r: "- 2147483648 \<le> acc - uint a" "acc - uint a \<le> 2147483647"
      "- 2147483648 \<le> acc - uint a + uint b" "acc - uint a + uint b \<le> 2147483647"
    using u Suc.prems(3,4) by - linarith+
  have j: "- 65535 * int (Suc j) \<le> acc - uint a + uint b" "acc - uint a + uint b \<le> 65535 * int (Suc j) + 65535"
    unfolding of_nat_Suc distrib_left using u Suc.prems(3,4) by - linarith+
  have IH: "accumulate_loop new' old' n (acc - uint a + uint b) =
        Inr (acc - uint a + uint b - sum_list (map uint new') + sum_list (map uint old')) \<and>
      - 65535 * int (Suc j + n) \<le> acc - uint a + uint b - sum_list (map uint new') + sum_list (map uint old') \<and>
      acc - uint a + uint b - sum_list (map uint new') + sum_list (map uint old') \<le> 65535 * int (Suc j + n) + 65535"
    using Suc.prems(1,2,5) a b by (intro Suc.IH [OF _ _ j]) simp_all
  show ?case using IH r by (simp add: a b int_ck_def algebra_simps)
qed simp

lemma differential_value:
  assumes "length new = n" "length old = n" "n \<le> 32766"
  obtains c' where "DifferentialChecksum c new old n = Inr c'"
    "uint c' mod 65535 = (uint c - sum_list (map uint new) + sum_list (map uint old)) mod 65535"
proof -
  define acc where "acc = uint c - sum_list (map uint new) + sum_list (map uint old)"
  have al: "accumulate_loop new old n (uint c) = Inr acc" "- 65535 * int n \<le> acc" "acc \<le> 65535 * int n + 65535"
    using accumulate_loop_sum [OF assms(1,2), of 0 "uint c"] uint_u16 [of c] assms(3) by (simp_all add: acc_def)
  have b: "- 2147483647 \<le> acc" "acc \<le> 2147483647" using al(2,3) assms(3) by - linarith+
  show ?thesis
  proof (cases "acc < 0")
    case False
    then show ?thesis
      using that [of "word_of_int (roll_over acc)"] al(1) roll_over_word [of acc] b
      by (simp add: DifferentialChecksum_def acc_def)
  next
    case True
    define f where "f = uint (word_of_int (roll_over (- acc)) :: u16)"
    have "f mod 65535 = (- acc) mod 65535" using roll_over_word [of "- acc"] True b by (simp add: f_def)
    then obtain k where "f = - acc + 65535 * k" by (rule congE)
    then have "65535 - f = acc + 65535 * (1 - k)" by simp
    then have "(65535 - f) mod 65535 = acc mod 65535" by (simp only: mod_mult_self2)
    then show ?thesis
      using that [of "word_of_int (NOT (roll_over (- acc)))"] al(1) True b
      by (simp add: DifferentialChecksum_def int_ck_def uint_not16 f_def acc_def)
  qed
qed

lemma sum_list_changed:
  assumes "length ws' = length ws" "distinct ps" "\<forall>p \<in> set ps. p < length ws" "k < length ws" "k \<notin> set ps"
    "\<forall>i < length ws. i \<notin> set ps \<longrightarrow> i \<noteq> k \<longrightarrow> ws' ! i = ws ! i"
  shows "sum_list (map uint ws') = sum_list (map (uint :: u16 \<Rightarrow> int) ws) + (uint (ws' ! k) - uint (ws ! k)) +
    sum_list (map (\<lambda>p. uint (ws' ! p)) ps) - sum_list (map (\<lambda>p. uint (ws ! p)) ps)"
proof -
  define g where "g i = uint (ws' ! i) - uint (ws ! i)" for i
  have "sum_list (map uint ws') - sum_list (map (uint :: u16 \<Rightarrow> int) ws) = (\<Sum>i<length ws. g i)"
    using assms(1) by (simp add: sum_list_sum_nth g_def sum_subtractf atLeast0LessThan)
  also have "\<dots> = (\<Sum>i \<in> insert k (set ps). g i)"
    using assms(3-6) by (intro sum.mono_neutral_right) (auto simp: g_def)
  also have "\<dots> = g k + (\<Sum>p \<in> set ps. g p)" using assms(5) by simp
  also have "(\<Sum>p \<in> set ps. g p) = sum_list (map g ps)" using assms(2) by (simp add: sum_list_distinct_conv_sum_set)
  also have "sum_list (map g ps) = sum_list (map (\<lambda>p. uint (ws' ! p)) ps) - sum_list (map (\<lambda>p. uint (ws ! p)) ps)"
    by (induction ps) (simp_all add: g_def)
  finally show ?thesis by (simp add: g_def)
qed

text \<open>C10: the update of a checksum. If the checksum in word \<open>k\<close> of a packet of up to 32767 words is right, and
  any other words of it are replaced, the routine computes from the old checksum, the new words and the old ones
  a checksum that is right for the new packet, as long as the new packet is not all zeros.\<close>

theorem differential_checksum_keeps:
  assumes "length ws \<le> 32767" "verifies ws" "k < length ws" "length ws' = length ws"
    "distinct ps" "\<forall>p \<in> set ps. p < length ws \<and> p \<noteq> k"
    "\<forall>i < length ws. i \<notin> set ps \<longrightarrow> i \<noteq> k \<longrightarrow> ws' ! i = ws ! i"
    "\<exists>i < length ws. i \<noteq> k \<and> ws' ! i \<noteq> 0"
  shows "\<exists>c. DifferentialChecksum (ws ! k) (map ((!) ws') ps) (map ((!) ws) ps) (length ps) = Inr c \<and>
    verifies (ws'[k := c])"
proof -
  have "card (set ps) \<le> card ({..<length ws} - {k})" using assms(6) by (intro card_mono) auto
  then have n: "length ps \<le> 32766" using assms(1,3,5) distinct_card [OF assms(5)] by simp
  obtain c where c: "DifferentialChecksum (ws ! k) (map ((!) ws') ps) (map ((!) ws) ps) (length ps) = Inr c"
      "uint c mod 65535 = (uint (ws ! k) - sum_list (map uint (map ((!) ws') ps)) + sum_list (map uint (map ((!) ws) ps))) mod 65535"
    by (rule differential_value [of "map ((!) ws') ps" "length ps" "map ((!) ws) ps" "ws ! k"]) (use n in simp_all)
  define v where "v = ws'[k := c]"
  define N where "N = sum_list (map (\<lambda>p. uint (ws' ! p)) ps)"
  define O' where "O' = sum_list (map (\<lambda>p. uint (ws ! p)) ps)"
  define S where "S = sum_list (map uint ws)"
  have vp: "\<forall>p \<in> set ps. v ! p = ws' ! p" "v ! k = c" "length v = length ws"
    using assms(3,4,6) by (auto simp: v_def)
  have "sum_list (map (\<lambda>p. uint (v ! p)) ps) = N" using vp(1) by (simp add: N_def cong: map_cong)
  then have "sum_list (map uint v) = S + (uint c - uint (ws ! k)) + N - O'"
    using sum_list_changed [of v ws ps k] assms(3-7) vp by (auto simp: v_def S_def O'_def)
  moreover obtain t where "uint c = uint (ws ! k) - N + O' + 65535 * t"
    using c(2) by (auto simp: N_def O'_def comp_def elim: congE)
  ultimately have "sum_list (map uint v) = S + 65535 * t" by simp
  then have "sum_list (map uint v) mod 65535 = 0" using verifies_iff [OF assms(1)] assms(2) by (simp add: S_def)
  moreover have "sum_list (map uint v) \<noteq> 0"
  proof -
    obtain i where i: "i < length ws" "i \<noteq> k" "ws' ! i \<noteq> 0" using assms(8) by blast
    then have "v ! i \<in> set v" using vp(3) by (intro nth_mem) simp
    moreover have "v ! i \<noteq> 0" using i by (simp add: v_def)
    ultimately have "uint (v ! i) \<in> set (map uint v)" "uint (v ! i) \<noteq> 0" by (auto simp: uint_0_iff)
    then show ?thesis using sum_list_nonneg_eq_0_iff [of "map uint v"] uint_u16(1) by (metis (mono_tags, lifting) imageE set_map)
  qed
  ultimately have "verifies v" using verifies_iff [of v] assms(1) vp(3) by simp
  then show ?thesis using c(1) v_def by blast
qed

theorem differential_checksum_keeps_witness:
  "\<exists>c. DifferentialChecksum 0xfffc [7] [2] 1 = Inr c \<and> verifies [1, 7, c]"
proof -
  have v: "verifies [1, 2, 0xfffc]" by (simp add: verifies_iff)
  have "\<exists>c. DifferentialChecksum ([1, 2, 0xfffc] ! 2) (map ((!) [1, 7, 0]) [1]) (map ((!) [1, 2, 0xfffc]) [1]) (length [1 :: nat]) = Inr c \<and>
      verifies ([1, 7, 0][2 := c])"
    by (rule differential_checksum_keeps [OF _ v]) (auto simp: less_Suc_eq numeral_3_eq_3 numeral_2_eq_2)
  then show ?thesis by simp
qed

end
