(* ===== verification/Look.thy ===== *)
theory Look
  imports Text_Lib
begin

text \<open>
  \<^verbatim>\<open>text_cmds-88/look/look.c\<close>: the whole program. A mapped file is the list of its bytes and a
  pointer into it an offset; the region between two pointers that \<^verbatim>\<open>compare\<close> reads is the list of the
  bytes in it. \<^verbatim>\<open>compare\<close> is a partial function (\<open>None\<close>: it does not return), because it does not
  always advance.
\<close>

section \<open>State and results\<close>

datatype cmp = LESS | EQUAL | GREATER

record look_opts =
  dflag :: bool
  fflag :: bool

text \<open>How the program leaves: a diagnostic with status 2. The standard output written so far stays.\<close>

type_synonym look_stop = "diag \<times> string"

text \<open>What the kernel has to say about a file: \<open>open\<close> or \<open>fstat\<close> fails, \<open>mmap\<close> fails, or its bytes.\<close>

datatype lfile = NoFile | NoMap string | Mapped string

section \<open>Comparison\<close>

definition wide_at :: "libc \<Rightarrow> look_opts \<Rightarrow> string \<Rightarrow> int \<times> nat" where
  "wide_at lc o1 s2 =
     (let (ch2, len2) = (case mbrtowc_n lc s2 of MbBad \<Rightarrow> (of_char (hd s2), 1) | MbChar c n \<Rightarrow> (c, n)) in
      (if fflag o1 then towlower lc ch2 else ch2, len2))"

partial_function (option) compare :: "libc \<Rightarrow> look_opts \<Rightarrow> int list \<Rightarrow> string \<Rightarrow> cmp option" where
  "compare lc o1 s1 s2 =
     (case s1 of
        [] \<Rightarrow> Some EQUAL
      | ch1 # s1' \<Rightarrow>
          if s2 = [] \<or> hd s2 = NL then Some GREATER
          else let (ch2, len2) = wide_at lc o1 s2 in
            if dflag o1 \<and> \<not> iswalnum lc ch2 then compare lc o1 s1 (drop len2 s2)
            else if ch1 \<noteq> ch2 then Some (if ch1 < ch2 then LESS else GREATER)
            else compare lc o1 s1' (drop len2 s2))"

declare compare.simps [code]

section \<open>Searching\<close>

definition region :: "string \<Rightarrow> nat \<Rightarrow> nat \<Rightarrow> string" where
  "region f p bk = take (bk - p) (drop p f)"

text \<open>The macro \<open>SKIP_PAST_NEWLINE\<close>.\<close>

function skip_past_newline :: "string \<Rightarrow> nat \<Rightarrow> nat \<Rightarrow> nat" where
  "skip_past_newline f p bk =
     (if p < bk then if f ! p \<noteq> NL then skip_past_newline f (p + 1) bk else p + 1 else p)"
  by pat_completeness auto
termination
  by (relation "measure (\<lambda>(f, p, bk). bk - p)") auto

declare skip_past_newline.simps [simp del]

lemma skip_bounds: "p \<le> skip_past_newline f p bk" "p < bk \<Longrightarrow> p < skip_past_newline f p bk"
  "p \<le> bk \<Longrightarrow> skip_past_newline f p bk \<le> bk"
proof -
  show "p \<le> skip_past_newline f p bk"
    by (induction f p bk rule: skip_past_newline.induct)
      (subst skip_past_newline.simps, auto)
  show "p < bk \<Longrightarrow> p < skip_past_newline f p bk"
  proof (induction f p bk rule: skip_past_newline.induct)
    case (1 f p bk)
    have "p + 1 < bk \<or> p + 1 = bk" using "1.prems" by linarith
    then show ?case
      using 1 by (subst skip_past_newline.simps) (auto simp: skip_past_newline.simps [of f "Suc p" "Suc p"])
  qed
  show "p \<le> bk \<Longrightarrow> skip_past_newline f p bk \<le> bk"
    by (induction f p bk rule: skip_past_newline.induct)
      (subst skip_past_newline.simps, auto)
qed

definition midway :: "string \<Rightarrow> nat \<Rightarrow> nat \<Rightarrow> nat" where
  "midway f front bk = skip_past_newline f (front + (bk - front) div 2) bk"

lemma midway_bounds: "front < bk \<Longrightarrow> front < midway f front bk"
  using skip_bounds(2) [of "front + (bk - front) div 2" bk f]
  by (simp add: midway_def) linarith

function binary_search :: "libc \<Rightarrow> look_opts \<Rightarrow> int list \<Rightarrow> string \<Rightarrow> nat \<Rightarrow> nat \<Rightarrow> nat option" where
  "binary_search lc o1 key f front bk =
     (let p = midway f front bk in
      if p < bk \<and> front < bk then
        (case compare lc o1 key (region f p bk) of
           None \<Rightarrow> None
         | Some GREATER \<Rightarrow> binary_search lc o1 key f p bk
         | Some _ \<Rightarrow> binary_search lc o1 key f front p)
      else Some front)"
  by pat_completeness auto
termination
  by (relation "measure (\<lambda>(lc, o1, key, f, front, bk). bk - front)")
    (use midway_bounds in \<open>auto simp: diff_less_mono diff_less_mono2\<close>)

declare binary_search.simps [simp del]

function linear_search :: "libc \<Rightarrow> look_opts \<Rightarrow> int list \<Rightarrow> string \<Rightarrow> nat \<Rightarrow> nat \<Rightarrow> nat option option" where
  "linear_search lc o1 key f front bk =
     (if front < bk then
        (case compare lc o1 key (region f front bk) of
           None \<Rightarrow> None
         | Some EQUAL \<Rightarrow> Some (Some front)
         | Some LESS \<Rightarrow> Some None
         | Some GREATER \<Rightarrow> linear_search lc o1 key f (skip_past_newline f front bk) bk)
      else Some None)"
  by pat_completeness auto
termination
  by (relation "measure (\<lambda>(lc, o1, key, f, front, bk). bk - front)")
    (auto simp: diff_less_mono2 skip_bounds)

declare linear_search.simps [simp del]

section \<open>Output\<close>

text \<open>The standard output takes a number of bytes (\<open>None\<close>: any number); \<open>putchar\<close> fails after that.\<close>

definition putchar :: "nat option \<Rightarrow> string \<Rightarrow> char \<Rightarrow> look_stop + string" where
  "putchar lim out c = (if lim = Some (length out) then Inl (Errmsg ''stdout'', out) else Inr (out @ [c]))"

text \<open>The inner loop of \<open>print_from\<close>, up to the newline or the end: the offset it stops at.\<close>

function look_line :: "nat option \<Rightarrow> string \<Rightarrow> nat \<Rightarrow> nat \<Rightarrow> string \<Rightarrow> look_stop + string \<times> nat" where
  "look_line lim f front bk out =
     (if front < bk \<and> f ! front \<noteq> NL
      then bind_r (putchar lim out (f ! front)) (look_line lim f (front + 1) bk)
      else Inr (out, front))"
  by pat_completeness auto
termination
  by (relation "measure (\<lambda>(lim, f, front, bk, out). bk - front)") auto

declare look_line.simps [simp del]

lemma look_line_mono: "look_line lim f front bk out = Inr (out', front') \<Longrightarrow> front \<le> front'"
proof (induction lim f front bk out rule: look_line.induct)
  case (1 lim f front bk out)
  show ?case
  proof (cases "front < bk \<and> f ! front \<noteq> NL")
    case True
    then obtain out1 where o: "putchar lim out (f ! front) = Inr out1"
        "look_line lim f (front + 1) bk out1 = Inr (out', front')"
      using "1.prems" by (subst (asm) look_line.simps) (auto simp: bind_r_Inr)
    then have "front + 1 \<le> front'" using "1.IH" True by simp
    then show ?thesis by simp
  qed (use "1.prems" in \<open>auto simp: look_line.simps [of lim f front]\<close>)
qed

function print_from ::
    "libc \<Rightarrow> look_opts \<Rightarrow> nat option \<Rightarrow> int list \<Rightarrow> string \<Rightarrow> nat \<Rightarrow> nat \<Rightarrow> string \<Rightarrow> (look_stop + string) option" where
  "print_from lc o1 lim key f front bk out =
     (if front < bk then
        (case compare lc o1 key (region f front bk) of
           None \<Rightarrow> None
         | Some EQUAL \<Rightarrow>
             (case look_line lim f front bk out of
                Inl e \<Rightarrow> Some (Inl e)
              | Inr (out', front') \<Rightarrow>
                  (case putchar lim out' NL of
                     Inl e \<Rightarrow> Some (Inl e)
                   | Inr out'' \<Rightarrow> print_from lc o1 lim key f (front' + 1) bk out''))
         | Some _ \<Rightarrow> Some (Inr out))
      else Some (Inr out))"
  by pat_completeness auto
termination
  by (relation "measure (\<lambda>(lc, o1, lim, key, f, front, bk, out). bk - front)")
    (auto dest!: look_line_mono [OF sym] look_line_mono)

declare print_from.simps [simp del]

text \<open>The status of \<open>look\<close> is 0 when there was a matching line, 1 otherwise.\<close>

definition look ::
    "libc \<Rightarrow> look_opts \<Rightarrow> nat option \<Rightarrow> int list \<Rightarrow> string \<Rightarrow> string \<Rightarrow> (look_stop + nat \<times> string) option" where
  "look lc o1 lim key f out =
     (case binary_search lc o1 key f 0 (length f) of
        None \<Rightarrow> None
      | Some front \<Rightarrow>
          (case linear_search lc o1 key f front (length f) of
             None \<Rightarrow> None
           | Some None \<Rightarrow> Some (Inr (1, out))
           | Some (Some front') \<Rightarrow>
               bind_run (print_from lc o1 lim key f front' (length f) out) (\<lambda>out'. Some (Inr (0, out')))))"

section \<open>The key\<close>

text \<open>\<open>mbrtowc\<close> returns 0 at the terminator, the end of the list, and nowhere else.\<close>

function prep_loop :: "libc \<Rightarrow> look_opts \<Rightarrow> string \<Rightarrow> look_stop + int list" where
  "prep_loop lc o1 readp =
     (if readp = [] then Inr []
      else case mbrtowc lc readp of
        MbBad \<Rightarrow> Inl (Errmsg [], [])
      | MbChar ch clen \<Rightarrow>
          if clen = 0 then Inr []
          else let ch' = (if fflag o1 then towlower lc ch else ch) in
            bind_r (prep_loop lc o1 (drop clen readp))
              (\<lambda>w. Inr (if \<not> dflag o1 \<or> iswalnum lc ch' then ch' # w else w)))"
  by pat_completeness auto
termination
  by (relation "measure (\<lambda>(lc, o1, readp). length readp)") auto

declare prep_loop.simps [simp del]

text \<open>With a termination character the key ends after its first occurrence.\<close>

fun cut_after :: "int \<Rightarrow> int list \<Rightarrow> int list" where
  "cut_after t [] = []"
| "cut_after t (c # w) = (if c = t then [c] else c # cut_after t w)"

definition prepkey :: "libc \<Rightarrow> look_opts \<Rightarrow> string \<Rightarrow> int \<Rightarrow> look_stop + int list" where
  "prepkey lc o1 s termchar =
     (if \<not> mem lc then Inl (Errmsg [], [])
      else bind_r (prep_loop lc o1 s) (\<lambda>key. Inr (if termchar \<noteq> 0 then cut_after termchar key else key)))"

section \<open>The main program\<close>

definition path_words :: string where
  "path_words = ''/usr/share/dict/words''"

definition look_usage :: diag where
  "look_usage = Plain ''usage: look [-df] [-t char] string [file ...]''"

fun look_options :: "libc \<Rightarrow> optev list \<Rightarrow> look_opts \<Rightarrow> int \<Rightarrow> look_stop + look_opts \<times> int" where
  "look_options lc [] o1 termchar = Inr (o1, termchar)"
| "look_options lc (ev # evs) o1 termchar =
     (case ev of
        Opt c arg \<Rightarrow>
          if c = CHR ''d'' then look_options lc evs (o1\<lparr>dflag := True\<rparr>) termchar
          else if c = CHR ''f'' then look_options lc evs (o1\<lparr>fflag := True\<rparr>) termchar
          else (case mbrtowc lc (the arg) of
                  MbBad \<Rightarrow> Inl (Errxmsg ''invalid termination character'', [])
                | MbChar w n \<Rightarrow>
                    if n \<noteq> length (the arg) then Inl (Errxmsg ''invalid termination character'', [])
                    else look_options lc evs o1 w)
      | _ \<Rightarrow> Inl (look_usage, []))"

text \<open>The loop over the files, with the product of the results of \<open>look\<close>; an empty file is passed
  over.\<close>

fun look_files ::
    "libc \<Rightarrow> look_opts \<Rightarrow> nat option \<Rightarrow> (string \<Rightarrow> lfile) \<Rightarrow> int list \<Rightarrow> string list \<Rightarrow> nat \<Rightarrow> string \<Rightarrow>
     (look_stop + nat \<times> string) option" where
  "look_files lc o1 lim fs key [] m out = Some (Inr (m, out))"
| "look_files lc o1 lim fs key (nm # nms) m out =
     (case fs nm of
        NoFile \<Rightarrow> Some (Inl (Errmsg nm, out))
      | NoMap f \<Rightarrow>
          if f = [] then look_files lc o1 lim fs key nms m out else Some (Inl (Errmsg nm, out))
      | Mapped f \<Rightarrow>
          if length f > 2 ^ 64 - 1 then Some (Inl (Errxmsg (nm @ '': File too large''), out))
          else if f = [] then look_files lc o1 lim fs key nms m out
          else bind_run (look lc o1 lim key f out)
            (\<lambda>(r, out'). look_files lc o1 lim fs key nms (m * r) out'))"

definition look_main ::
    "libc \<Rightarrow> nat option \<Rightarrow> (string \<Rightarrow> lfile) \<Rightarrow> string list \<Rightarrow> outcome option" where
  "look_main lc lim fs args =
     (case
        (case getopt ''dft:'' args of (evs, argv) \<Rightarrow>
           bind_run (Some (look_options lc evs \<lparr>dflag = False, fflag = False\<rparr> 0)) (\<lambda>(o1, termchar).
             if argv = [] then Some (Inl (look_usage, []))
             else let o2 = (if length argv = 1 then \<lparr>dflag = True, fflag = True\<rparr> else o1) in
               bind_run (Some (prepkey lc o2 (hd argv) termchar)) (\<lambda>key.
                 look_files lc o2 lim fs key (if length argv = 1 then [path_words] else tl argv) 1 [])))
      of
        None \<Rightarrow> None
      | Some (Inl (d, out)) \<Rightarrow> Some \<lparr>stdout = out, stderr = [d], status = 2\<rparr>
      | Some (Inr (m, out)) \<Rightarrow> Some \<lparr>stdout = out, stderr = [], status = m\<rparr>)"

end
