(* ===== verification/Look_Props.thy ===== *)
theory Look_Props
  imports Look "HOL-Library.Sublist" "HOL-Library.List_Lexorder"
begin

text \<open>
  What \<^verbatim>\<open>look\<close> promises: on a file whose lines are in the order of the comparison it prints the
  lines that start with the key, and nothing else. The reference is a filter over the lines of the
  file; the search loops of the code are shown to return and to agree with it.
\<close>

section \<open>The comparison\<close>

text \<open>The wide characters of a line: an invalid byte stands for itself.\<close>

function decode :: "libc \<Rightarrow> string \<Rightarrow> int list" where
  "decode lc l =
     (if l = [] then []
      else case mbrtowc lc l of
        MbBad \<Rightarrow> of_char (hd l) # decode lc (tl l)
      | MbChar c n \<Rightarrow> c # decode lc (drop (max 1 n) l))"
  by pat_completeness auto
termination
  by (relation "measure (\<lambda>(lc, l). length l)") (auto simp: neq_Nil_conv)

declare decode.simps [simp del]

text \<open>What \<open>-f\<close> and \<open>-d\<close> leave of a line.\<close>

definition normal :: "libc \<Rightarrow> look_opts \<Rightarrow> string \<Rightarrow> int list" where
  "normal lc o1 l =
     filter (\<lambda>c. \<not> dflag o1 \<or> iswalnum lc c)
       (map (\<lambda>c. if fflag o1 then towlower lc c else c) (decode lc l))"

fun cmp_key :: "int list \<Rightarrow> int list \<Rightarrow> cmp" where
  "cmp_key [] w = EQUAL"
| "cmp_key (k # ks) [] = GREATER"
| "cmp_key (k # ks) (c # w) = (if k = c then cmp_key ks w else if k < c then LESS else GREATER)"

lemma cmp_key_EQUAL: "cmp_key k w = EQUAL \<longleftrightarrow> prefix k w"
  by (induction k w rule: cmp_key.induct) auto

lemma cmp_key_GREATER_mono: "cmp_key k w = GREATER \<Longrightarrow> v \<le> w \<Longrightarrow> cmp_key k v = GREATER"
proof (induction k w arbitrary: v rule: cmp_key.induct)
  case (3 k ks c w)
  then show ?case by (cases v) (auto split: if_splits)
qed auto

lemma cmp_key_LESS_mono: "cmp_key k v = LESS \<Longrightarrow> v \<le> w \<Longrightarrow> cmp_key k w = LESS"
proof (induction k v arbitrary: w rule: cmp_key.induct)
  case (3 k ks c v)
  then show ?case by (cases w) (auto split: if_splits)
qed auto

lemma wide_at_line:
  assumes "mb_ok lc" "l \<noteq> []" "NUL \<notin> set l" "NL \<notin> set l" "t = [] \<or> hd t = NL"
  shows "wide_at lc o1 (l @ t) =
    (let (c, n) = (case mbrtowc lc l of MbBad \<Rightarrow> (of_char (hd l), 1) | MbChar c n \<Rightarrow> (c, n)) in
     (if fflag o1 then towlower lc c else c, n))"
proof -
  have "takeWhile (\<lambda>c. c \<noteq> NUL) (l @ t) = l @ takeWhile (\<lambda>c. c \<noteq> NUL) t"
    using assms(3) by (intro takeWhile_append2) auto
  also have "takeWhile (\<lambda>c. c \<noteq> NUL) t = [] \<or> (\<exists>r. takeWhile (\<lambda>c. c \<noteq> NUL) t = NL # r)"
    using assms(5) by (cases t) auto
  then have "mbrtowc lc (l @ takeWhile (\<lambda>c. c \<noteq> NUL) t) = mbrtowc lc l"
    using assms(1,2,4) by (auto simp: mb_ok_def)
  finally have "mbrtowc lc (takeWhile (\<lambda>c. c \<noteq> NUL) (l @ t)) = mbrtowc lc l" .
  moreover have "hd l \<noteq> NUL" using assms(2,3) by (cases l) auto
  ultimately have "mbrtowc_n lc (l @ t) = mbrtowc lc l" using assms(2) by (simp add: mbrtowc_n_def)
  then show ?thesis using assms(2) by (simp add: wide_at_def split: mb.split)
qed

lemma decode_step:
  assumes "mb_ok lc" "l \<noteq> []" "NUL \<notin> set l"
  obtains c n where "(case mbrtowc lc l of MbBad \<Rightarrow> (of_char (hd l), 1) | MbChar c n \<Rightarrow> (c, n)) = (c, n)"
    "0 < n" "n \<le> length l" "decode lc l = c # decode lc (drop n l)"
proof (cases "mbrtowc lc l")
  case MbBad
  then show ?thesis using that [of "of_char (hd l)" 1] assms(2)
    by (simp add: decode.simps [of lc l] drop_Suc Suc_le_eq)
next
  case (MbChar c n)
  then have "0 < n" "n \<le> length l" using assms by (auto simp: mb_ok_def)
  then show ?thesis using that [of c n] MbChar assms(2)
    by (simp add: decode.simps [of lc l] max_def Suc_le_eq)
qed

lemma compare_line:
  assumes "mb_ok lc" "NUL \<notin> set l" "NL \<notin> set l" "t = [] \<or> hd t = NL"
  shows "compare lc o1 key (l @ t) = Some (cmp_key key (normal lc o1 l))"
  using assms(2,3)
proof (induction "length l" arbitrary: key l rule: less_induct)
  case less
  show ?case
  proof (cases "key = [] \<or> l = []")
    case True
    then show ?thesis using assms(4)
      by (auto simp: compare.simps normal_def decode.simps [of lc "[]"] split: list.splits)
  next
    case False
    then obtain k ks where key: "key = k # ks" by (cases key) auto
    have ne: "l \<noteq> []" "l @ t \<noteq> []" "hd (l @ t) = hd l" using False by simp_all
    have "hd l \<noteq> NL" using ne(1) less.prems(2) by (cases l) auto
    note ne = ne this
    obtain c n where cn: "(case mbrtowc lc l of MbBad \<Rightarrow> (of_char (hd l), 1) | MbChar c n \<Rightarrow> (c, n)) = (c, n)"
        "0 < n" "n \<le> length l" "decode lc l = c # decode lc (drop n l)"
      by (rule decode_step [OF assms(1) ne(1) less.prems(1)])
    define c' where "c' = (if fflag o1 then towlower lc c else c)"
    have w: "wide_at lc o1 (l @ t) = (c', n)"
      using wide_at_line [OF assms(1) ne(1) less.prems assms(4), of o1] cn(1) by (simp add: c'_def)
    have nrm: "normal lc o1 l = (if dflag o1 \<and> \<not> iswalnum lc c' then [] else [c']) @ normal lc o1 (drop n l)"
      by (simp add: normal_def cn(4) c'_def)
    have IH: "compare lc o1 key' (drop n l @ t) = Some (cmp_key key' (normal lc o1 (drop n l)))" for key'
      using less.hyps [of "drop n l"] less.prems cn(2) ne(1) by (auto dest: in_set_dropD)
    show ?thesis
      unfolding key compare.simps [of lc o1 "k # ks" "l @ t"]
      using ne cn(3) by (simp add: w nrm IH)
  qed
qed

section \<open>Line starts\<close>

definition linestart :: "string \<Rightarrow> nat \<Rightarrow> bool" where
  "linestart f p \<longleftrightarrow> p \<le> length f \<and> (p = length f \<or> ends_line NL (take p f))"

lemma lines_at: "linestart f p \<Longrightarrow> lines_of NL f = lines_of NL (take p f) @ lines_of NL (drop p f)"
  using lines_of_append [of NL "take p f" "drop p f"] by (auto simp: linestart_def)

lemma region_line:
  assumes "linestart f p" "linestart f bk" "p < bk"
  obtains l t ls where "region f p bk = l @ t" "t = [] \<or> hd t = NL" "NL \<notin> set l" "lines_of NL (drop p f) = l # ls"
proof -
  have bk: "bk \<le> length f" "bk = length f \<or> ends_line NL (take bk f)" using assms(2) by (auto simp: linestart_def)
  have d: "drop p f = region f p bk @ drop bk f"
    using assms(3) append_take_drop_id [of "bk - p" "drop p f"] by (simp add: region_def)
  have t: "take bk f = take p f @ region f p bk"
    using assms(3) take_add [of p "bk - p" f] by (simp add: region_def)
  have ne: "region f p bk \<noteq> []" using assms(3) bk by (simp add: region_def)
  show ?thesis
    using ne
  proof (cases rule: lines_of_cases [of _ NL])
    case last
    have "bk = length f"
      using bk(2) t ne last(1) last_in_set [OF ne] by (metis ends_line_def append_is_Nil_conv last_appendR)
    then show ?thesis using last d that [of "region f p bk" "[]" "[]"] by simp
  next
    case (line l r)
    then show ?thesis
      using d that [of l "NL # r" "lines_of NL (r @ drop bk f)"] lines_of_line [of NL l "r @ drop bk f"] by simp
  qed
qed

lemma skip_in_line:
  "drop p f = l @ NL # r \<Longrightarrow> NL \<notin> set l \<Longrightarrow> p + length l < bk \<Longrightarrow> skip_past_newline f p bk = p + length l + 1"
proof (induction l arbitrary: p)
  case Nil
  then have "f ! p = NL" using nth_via_drop [of p f NL r] by simp
  then show ?case using Nil by (simp add: skip_past_newline.simps [of f p])
next
  case (Cons c l)
  then have "f ! p = c" "drop (p + 1) f = l @ NL # r"
    using nth_via_drop [of p f c "l @ NL # r"] by (simp_all add: drop_Suc flip: tl_drop)
  then show ?case using Cons by (auto simp: skip_past_newline.simps [of f p])
qed

lemma skip_no_newline:
  "NL \<notin> set (region f p bk) \<Longrightarrow> p \<le> bk \<Longrightarrow> bk \<le> length f \<Longrightarrow> skip_past_newline f p bk = bk"
proof (induction f p bk rule: skip_past_newline.induct)
  case (1 f p bk)
  show ?case
  proof (cases "p < bk")
    case True
    then have "region f p bk = f ! p # region f (p + 1) bk"
      using "1.prems"(3) by (simp add: region_def Suc_diff_Suc take_Cons' flip: Cons_nth_drop_Suc)
    then show ?thesis using 1 True by (subst skip_past_newline.simps) auto
  qed (use "1.prems" in \<open>simp add: skip_past_newline.simps [of f p] skip_past_newline.simps [of f bk]\<close>)
qed

lemma skip_linestart:
  assumes "p \<le> bk" "linestart f bk"
  shows "linestart f (skip_past_newline f p bk)"
proof (cases "NL \<in> set (region f p bk)")
  case True
  then obtain l r where s: "region f p bk = l @ NL # r" "NL \<notin> set l" by (meson split_list_first)
  have bk: "bk \<le> length f" using assms(2) by (simp add: linestart_def)
  have "drop p f = region f p bk @ drop bk f"
    using assms(1) append_take_drop_id [of "bk - p" "drop p f"] by (simp add: region_def)
  then have d: "drop p f = l @ NL # (r @ drop bk f)" using s by simp
  have "length (region f p bk) = bk - p" using bk by (simp add: region_def)
  then have len: "p + length l < bk" using arg_cong [OF s(1), of length] by simp
  have "take (p + length l + 1) f = take p f @ l @ [NL]"
    using take_add [of p "length l + 1" f] d by simp
  then have "ends_line NL (take (p + length l + 1) f)" by (simp add: ends_line_def)
  then show ?thesis using skip_in_line [OF d s(2) len] len bk by (simp add: linestart_def)
next
  case False
  then show ?thesis using skip_no_newline [OF False assms(1)] assms(2) by (simp add: linestart_def)
qed

lemma skip_line:
  assumes "linestart f p" "p < length f"
  defines "q \<equiv> skip_past_newline f p (length f)"
  shows "linestart f q" "lines_of NL (drop p f) = hd (lines_of NL (drop p f)) # lines_of NL (drop q f)"
proof -
  show "linestart f q" using skip_linestart [of p "length f" f] assms by (simp add: linestart_def q_def)
  have ne: "drop p f \<noteq> []" using assms(2) by simp
  then show "lines_of NL (drop p f) = hd (lines_of NL (drop p f)) # lines_of NL (drop q f)"
  proof (cases rule: lines_of_cases [of _ NL])
    case last
    then have "q = length f"
      using skip_no_newline [of f p "length f"] assms(2) by (simp add: q_def region_def)
    then show ?thesis using last by simp
  next
    case (line l r)
    have "p + length l < length f" using arg_cong [OF line(1), of length] assms(2) by simp
    then have q: "q = p + length l + 1" using skip_in_line [OF line(1,2)] by (simp add: q_def)
    have "drop q f = drop (length l + 1) (drop p f)" by (simp add: q add_ac)
    then have "drop q f = r" using line(1) by simp
    then show ?thesis using line(3) by simp
  qed
qed

section \<open>The searches on a sorted file\<close>

definition look_sorted :: "libc \<Rightarrow> look_opts \<Rightarrow> string \<Rightarrow> bool" where
  "look_sorted lc o1 f = sorted (map (normal lc o1) (lines_of NL f))"

abbreviation line_cmp :: "libc \<Rightarrow> look_opts \<Rightarrow> int list \<Rightarrow> string \<Rightarrow> cmp" where
  "line_cmp lc o1 key l \<equiv> cmp_key key (normal lc o1 l)"

lemma compare_at:
  assumes "mb_ok lc" "NUL \<notin> set f" "linestart f p" "linestart f bk" "p < bk"
  shows "compare lc o1 key (region f p bk) = Some (line_cmp lc o1 key (hd (lines_of NL (drop p f))))"
proof -
  obtain l t ls where l: "region f p bk = l @ t" "t = [] \<or> hd t = NL" "NL \<notin> set l" "lines_of NL (drop p f) = l # ls"
    by (rule region_line [OF assms(3-5)])
  have "set l \<subseteq> set f"
    using arg_cong [OF l(1), of set] set_take_subset [of "bk - p" "drop p f"] set_drop_subset [of p f]
    by (auto simp: region_def)
  then have "NUL \<notin> set l" using assms(2) by blast
  then show ?thesis using compare_line [OF assms(1) _ l(3,2)] l(1,4) by simp
qed

lemma lines_before:
  assumes "look_sorted lc o1 f" "linestart f p" "p < length f"
    "line_cmp lc o1 key (hd (lines_of NL (drop p f))) = GREATER"
  shows "\<forall>l \<in> set (lines_of NL (take p f)). line_cmp lc o1 key l = GREATER"
proof
  fix l assume "l \<in> set (lines_of NL (take p f))"
  moreover have "lines_of NL (drop p f) \<noteq> []" using assms(3) by (cases "drop p f") simp_all
  ultimately have "normal lc o1 l \<le> normal lc o1 (hd (lines_of NL (drop p f)))"
    using assms(1) by (simp add: look_sorted_def lines_at [OF assms(2)] sorted_append)
  then show "line_cmp lc o1 key l = GREATER" using cmp_key_GREATER_mono [OF assms(4)] by simp
qed

lemma lines_after:
  assumes "look_sorted lc o1 f" "linestart f p" "lines_of NL (drop p f) = l0 # ls"
    "line_cmp lc o1 key l0 = LESS" "l \<in> set (l0 # ls)"
  shows "line_cmp lc o1 key l = LESS"
proof -
  have "normal lc o1 l0 \<le> normal lc o1 l"
    using assms(1,5) by (auto simp: look_sorted_def lines_at [OF assms(2)] sorted_append assms(3))
  then show ?thesis using cmp_key_LESS_mono [OF assms(4)] by simp
qed

text \<open>The binary search returns a line start before which every line is smaller than the key.\<close>

lemma binary_search_ok:
  assumes "mb_ok lc" "NUL \<notin> set f" "look_sorted lc o1 f"
  shows "linestart f front \<Longrightarrow> linestart f bk \<Longrightarrow>
    \<forall>l \<in> set (lines_of NL (take front f)). line_cmp lc o1 key l = GREATER \<Longrightarrow>
    \<exists>p. binary_search lc o1 key f front bk = Some p \<and> linestart f p \<and>
      (\<forall>l \<in> set (lines_of NL (take p f)). line_cmp lc o1 key l = GREATER)"
proof (induction "bk - front" arbitrary: front bk rule: less_induct)
  case less
  define p where "p = midway f front bk"
  show ?case
  proof (cases "p < bk \<and> front < bk")
    case True
    then have p: "linestart f p" "front < p" "p < length f"
      using skip_linestart [of "front + (bk - front) div 2" bk f] midway_bounds [of front bk f] less.prems(2)
      by (auto simp: p_def midway_def linestart_def)
    define r where "r = line_cmp lc o1 key (hd (lines_of NL (drop p f)))"
    have c: "compare lc o1 key (region f p bk) = Some r"
      using compare_at [OF assms(1,2) p(1) less.prems(2)] True by (simp add: r_def)
    have u: "binary_search lc o1 key f front bk =
        (if r = GREATER then binary_search lc o1 key f p bk else binary_search lc o1 key f front p)"
      using True c by (cases r) (simp_all add: binary_search.simps [of lc o1 key f front] p_def [symmetric] Let_def)
    show ?thesis
    proof (cases "r = GREATER")
      case True
      then show ?thesis
        using u less.hyps [of bk p] lines_before [OF assms(3) p(1,3), of key] less.prems(2) p \<open>p < bk \<and> front < bk\<close>
        by (simp add: r_def diff_less_mono2)
    next
      case False
      then show ?thesis
        using u less.hyps [of p front] less.prems p \<open>p < bk \<and> front < bk\<close> by (simp add: diff_less_mono)
    qed
  next
    case False
    then have "binary_search lc o1 key f front bk = Some front"
      by (auto simp: binary_search.simps [of lc o1 key f front] p_def [symmetric] Let_def)
    then show ?thesis using less.prems by simp
  qed
qed

abbreviation hits :: "libc \<Rightarrow> look_opts \<Rightarrow> int list \<Rightarrow> string list \<Rightarrow> string list" where
  "hits lc o1 key ls \<equiv> filter (\<lambda>l. prefix key (normal lc o1 l)) ls"

lemma linear_search_ok:
  assumes "mb_ok lc" "NUL \<notin> set f" "look_sorted lc o1 f"
  shows "linestart f front \<Longrightarrow>
    \<exists>r. linear_search lc o1 key f front (length f) = Some r \<and>
      (case r of
         None \<Rightarrow> hits lc o1 key (lines_of NL (drop front f)) = []
       | Some q \<Rightarrow> linestart f q \<and> q < length f \<and> prefix key (normal lc o1 (hd (lines_of NL (drop q f)))) \<and>
           hits lc o1 key (lines_of NL (drop front f)) = hits lc o1 key (lines_of NL (drop q f)))"
proof (induction "length f - front" arbitrary: front rule: less_induct)
  case less
  show ?case
  proof (cases "front < length f")
    case False
    then show ?thesis by (simp add: linear_search.simps [of lc o1 key f front])
  next
    case True
    define q where "q = skip_past_newline f front (length f)"
    have q: "linestart f q" "lines_of NL (drop front f) = hd (lines_of NL (drop front f)) # lines_of NL (drop q f)"
      using skip_line [OF less.prems True] by (simp_all add: q_def)
    obtain l where l: "lines_of NL (drop front f) = l # lines_of NL (drop q f)" using q(2) by blast
    have c: "compare lc o1 key (region f front (length f)) = Some (line_cmp lc o1 key l)"
      using compare_at [OF assms(1,2) less.prems _ True] l by (simp add: linestart_def)
    show ?thesis
    proof (cases "line_cmp lc o1 key l")
      case LESS
      then have "hits lc o1 key (lines_of NL (drop front f)) = []"
        using lines_after [OF assms(3) less.prems l] l
        by (simp add: filter_empty_conv flip: cmp_key_EQUAL)
      then show ?thesis using LESS c True by (simp add: linear_search.simps [of lc o1 key f front])
    next
      case EQUAL
      then have "prefix key (normal lc o1 l)" by (simp flip: cmp_key_EQUAL)
      then show ?thesis using EQUAL c True less.prems l
        by (simp add: linear_search.simps [of lc o1 key f front])
    next
      case GREATER
      have lseq: "linear_search lc o1 key f front (length f) = linear_search lc o1 key f q (length f)"
        using GREATER c True by (simp add: linear_search.simps [of lc o1 key f front] q_def)
      have "\<not> prefix key (normal lc o1 l)" using GREATER cmp_key_EQUAL [of key] by (metis cmp.distinct(5))
      then have heq: "hits lc o1 key (lines_of NL (drop front f)) = hits lc o1 key (lines_of NL (drop q f))"
        using l by simp
      show ?thesis unfolding lseq heq
        using less.hyps [of q] q(1) True skip_bounds(2) [OF True, of f] by (simp add: diff_less_mono2 q_def)
    qed
  qed
qed

section \<open>Printing\<close>

lemma look_line_text:
  "drop p f = l @ t \<Longrightarrow> NL \<notin> set l \<Longrightarrow> t = [] \<or> hd t = NL \<Longrightarrow> p \<le> length f \<Longrightarrow>
     look_line None f p (length f) out = Inr (out @ l, p + length l)"
proof (induction l arbitrary: p out)
  case Nil
  then have "p < length f \<Longrightarrow> f ! p = NL" using hd_drop_conv_nth [of p f] by (cases t) auto
  then show ?case by (subst look_line.simps) auto
next
  case (Cons c l)
  then have p: "f ! p = c" "drop (p + 1) f = l @ t" "p < length f" "c \<noteq> NL"
    using nth_via_drop [of p f c "l @ t"] by (auto simp: drop_Suc simp flip: tl_drop intro: ccontr)
  then show ?case using Cons.IH [of "p + 1" "out @ [c]"] Cons.prems
    by (simp add: look_line.simps [of None f p] putchar_def)
qed

lemma print_from_text:
  assumes "mb_ok lc" "NUL \<notin> set f"
  shows "linestart f p \<Longrightarrow>
    print_from lc o1 None key f p (length f) out =
      Some (Inr (out @ unlines NL (takeWhile (\<lambda>l. prefix key (normal lc o1 l)) (lines_of NL (drop p f)))))"
proof (induction "length f - p" arbitrary: p out rule: less_induct)
  case less
  show ?case
  proof (cases "p < length f")
    case False
    then show ?thesis by (simp add: print_from.simps [of lc o1 None key f p])
  next
    case True
    then have ls: "linestart f (length f)" by (simp add: linestart_def)
    obtain l t ls where l: "region f p (length f) = l @ t" "t = [] \<or> hd t = NL" "NL \<notin> set l" "lines_of NL (drop p f) = l # ls"
      by (rule region_line [OF less.prems ls True])
    have d: "drop p f = l @ t" using l(1) by (simp add: region_def)
    have c: "compare lc o1 key (region f p (length f)) = Some (line_cmp lc o1 key l)"
      using compare_at [OF assms less.prems ls True] l(4) by simp
    show ?thesis
    proof (cases "prefix key (normal lc o1 l)")
      case False
      then have "line_cmp lc o1 key l \<noteq> EQUAL" by (simp add: cmp_key_EQUAL)
      then show ?thesis using c True False l(4)
        by (cases "line_cmp lc o1 key l") (simp_all add: print_from.simps [of lc o1 None key f p])
    next
      case True
      then have eq: "line_cmp lc o1 key l = EQUAL" by (simp add: cmp_key_EQUAL)
      define q where "q = p + length l + 1"
      have u: "print_from lc o1 None key f p (length f) out = print_from lc o1 None key f q (length f) (out @ l @ [NL])"
        using c eq \<open>p < length f\<close> look_line_text [OF d l(3,2), of out]
        by (simp add: print_from.simps [of lc o1 None key f p] putchar_def q_def)
      show ?thesis
      proof (cases "t = []")
        case True
        then have "length f < q" "ls = []"
          using arg_cong [OF d, of length] \<open>p < length f\<close> l(3,4) d lines_of_no_newline [of NL l]
          by (auto simp: q_def)
        then show ?thesis using u l(4) \<open>prefix key (normal lc o1 l)\<close>
          by (simp add: print_from.simps [of lc o1 None key f q])
      next
        case False
        then obtain r where t: "t = NL # r" using l(2) by (cases t) auto
        have "drop q f = drop (length l + 1) (drop p f)" by (simp add: q_def add_ac)
        then have dq: "drop q f = r" using d t by simp
        have lsr: "ls = lines_of NL r" using l(4) d t lines_of_line [OF l(3), of r] by simp
        have "take q f = take p f @ l @ [NL]"
          using take_add [of p "length l + 1" f] d t by (simp add: q_def)
        moreover have "q \<le> length f" using arg_cong [OF d, of length] t \<open>p < length f\<close> by (simp add: q_def)
        ultimately have "linestart f q" by (simp add: linestart_def ends_line_def)
        then show ?thesis using less.hyps [of q] u l(4) \<open>prefix key (normal lc o1 l)\<close> \<open>p < length f\<close> dq lsr
          by (simp add: q_def)
      qed
    qed
  qed
qed

section \<open>The program\<close>

lemma hits_contiguous:
  assumes "look_sorted lc o1 f" "linestart f q" "lines_of NL (drop q f) = l # ls" "prefix key (normal lc o1 l)"
  shows "hits lc o1 key (lines_of NL (drop q f)) =
    takeWhile (\<lambda>l. prefix key (normal lc o1 l)) (lines_of NL (drop q f))"
proof -
  have s: "sorted (map (normal lc o1) (l # ls))"
    using assms(1) by (simp add: look_sorted_def lines_at [OF assms(2)] sorted_append assms(3))
  have conv: "prefix key (normal lc o1 a)"
    if "normal lc o1 l \<le> normal lc o1 a" "normal lc o1 a \<le> normal lc o1 c" "prefix key (normal lc o1 c)" for a c
  proof -
    have "line_cmp lc o1 key a \<noteq> LESS"
      using cmp_key_LESS_mono [OF _ that(2), of key] that(3) by (auto simp flip: cmp_key_EQUAL)
    moreover have "line_cmp lc o1 key a \<noteq> GREATER"
      using cmp_key_GREATER_mono [OF _ that(1), of key] assms(4) by (auto simp flip: cmp_key_EQUAL)
    ultimately show ?thesis using cmp_key_EQUAL cmp.exhaust by metis
  qed
  have "sorted (map (normal lc o1) xs) \<Longrightarrow> \<forall>a \<in> set xs. normal lc o1 l \<le> normal lc o1 a \<Longrightarrow>
      hits lc o1 key xs = takeWhile (\<lambda>l. prefix key (normal lc o1 l)) xs" for xs
  proof (induction xs)
    case (Cons a xs)
    show ?case
    proof (cases "prefix key (normal lc o1 a)")
      case False
      then have "hits lc o1 key xs = []" using Cons.prems conv [of a] by (auto simp: filter_empty_conv)
      then show ?thesis using False by simp
    qed (use Cons in simp)
  qed simp
  then show ?thesis using s assms(3,4) by simp
qed

lemma look_ok:
  assumes "mb_ok lc" "NUL \<notin> set f" "look_sorted lc o1 f"
  shows "look lc o1 None key f out =
    Some (Inr (if hits lc o1 key (lines_of NL f) = [] then 1 else 0, out @ unlines NL (hits lc o1 key (lines_of NL f))))"
proof -
  have ls: "linestart f 0" "linestart f (length f)" by (simp_all add: linestart_def ends_line_def)
  obtain p where p: "binary_search lc o1 key f 0 (length f) = Some p" "linestart f p"
      "\<forall>l \<in> set (lines_of NL (take p f)). line_cmp lc o1 key l = GREATER"
    using binary_search_ok [OF assms ls] by auto
  have "hits lc o1 key (lines_of NL (take p f)) = []"
    using p(3) by (simp add: filter_empty_conv flip: cmp_key_EQUAL)
  then have h: "hits lc o1 key (lines_of NL f) = hits lc o1 key (lines_of NL (drop p f))"
    by (simp add: lines_at [OF p(2)])
  obtain r where r: "linear_search lc o1 key f p (length f) = Some r"
    "case r of None \<Rightarrow> hits lc o1 key (lines_of NL (drop p f)) = []
     | Some q \<Rightarrow> linestart f q \<and> q < length f \<and> prefix key (normal lc o1 (hd (lines_of NL (drop q f)))) \<and>
         hits lc o1 key (lines_of NL (drop p f)) = hits lc o1 key (lines_of NL (drop q f))"
    using linear_search_ok [OF assms p(2)] by blast
  show ?thesis
  proof (cases r)
    case None
    then show ?thesis using p(1) r h by (simp add: look_def)
  next
    case (Some q)
    then have q: "linestart f q" "q < length f" "prefix key (normal lc o1 (hd (lines_of NL (drop q f))))"
      "hits lc o1 key (lines_of NL f) = hits lc o1 key (lines_of NL (drop q f))"
      using r(2) h by simp_all
    obtain l where l: "lines_of NL (drop q f) = l # tl (lines_of NL (drop q f))"
      using q(2) by (cases "drop q f") simp_all
    have "hits lc o1 key (lines_of NL (drop q f)) =
        takeWhile (\<lambda>l. prefix key (normal lc o1 l)) (lines_of NL (drop q f))"
      using hits_contiguous [OF assms(3) q(1) l] q(3) l by (metis list.sel(1))
    moreover have "hits lc o1 key (lines_of NL (drop q f)) \<noteq> []"
      using q(3) l by (metis filter.simps(2) list.distinct(1) list.sel(1))
    ultimately show ?thesis
      using p(1) r(1) Some q print_from_text [OF assms(1,2) q(1), of o1 key out] by (simp add: look_def)
  qed
qed

lemma prep_loop_normal:
  assumes "mb_ok lc"
  shows "NUL \<notin> set s \<Longrightarrow> prep_loop lc o1 s = Inr w \<Longrightarrow> w = normal lc o1 s"
proof (induction "length s" arbitrary: s w rule: less_induct)
  case less
  show ?case
  proof (cases "s = []")
    case True
    then show ?thesis using less.prems by (simp add: prep_loop.simps [of lc o1 "[]"] normal_def decode.simps [of lc "[]"])
  next
    case False
    obtain c n where cn: "mbrtowc lc s = MbChar c n" "0 < n" "n \<le> length s"
      using less.prems False assms by (cases "mbrtowc lc s") (auto simp: prep_loop.simps [of lc o1 s] mb_ok_def)
    define c' where "c' = (if fflag o1 then towlower lc c else c)"
    obtain w' where w': "prep_loop lc o1 (drop n s) = Inr w'"
        "w = (if \<not> dflag o1 \<or> iswalnum lc c' then c' # w' else w')"
      using less.prems(2) False cn by (auto simp: prep_loop.simps [of lc o1 s] Let_def bind_r_Inr c'_def)
    have "w' = normal lc o1 (drop n s)"
      using less.hyps [of "drop n s" w'] less.prems(1) w'(1) cn(2) False by (auto dest: in_set_dropD)
    moreover have "decode lc s = c # decode lc (drop n s)"
      using cn False by (simp add: decode.simps [of lc s] max_def Suc_le_eq)
    ultimately show ?thesis using w'(2) by (simp add: normal_def c'_def)
  qed
qed

lemma look_files_ok:
  assumes "mb_ok lc"
    "\<forall>nm \<in> set nms. fs nm = Mapped (body nm) \<and> length (body nm) < 2 ^ 64 \<and> NUL \<notin> set (body nm) \<and> look_sorted lc o1 (body nm)"
  shows "look_files lc o1 None fs key nms m out =
    Some (Inr (if \<forall>nm \<in> set nms. hits lc o1 key (lines_of NL (body nm)) = [] then m else 0,
      out @ concat (map (\<lambda>nm. unlines NL (hits lc o1 key (lines_of NL (body nm)))) nms)))"
  using assms(2)
proof (induction nms arbitrary: m out)
  case (Cons nm nms)
  have nm: "fs nm = Mapped (body nm)" "length (body nm) < 2 ^ 64" "NUL \<notin> set (body nm)" "look_sorted lc o1 (body nm)"
    using Cons.prems by simp_all
  show ?case
  proof (cases "body nm = []")
    case True
    then show ?thesis using nm Cons by simp
  next
    case False
    then show ?thesis using nm(1,2) Cons look_ok [OF assms(1) nm(3,4), of key out] by simp
  qed
qed simp

section \<open>Properties\<close>

text \<open>C5: \<^verbatim>\<open>look\<close> finds. Let every file named (or \<^verbatim>\<open>/usr/share/dict/words\<close> with \<^verbatim>\<open>-df\<close> when there is
  only the string) contain no NUL byte and have its lines in the order of their normal forms: the
  wide characters of the line, lower-cased under \<^verbatim>\<open>-f\<close>, only the alphanumeric ones under \<^verbatim>\<open>-d\<close>.
  Then the program returns, its output is exactly the lines, in order and each with a newline, whose
  normal form starts with the key, and its status is 0 if there is one and 1 if there is none. The
  key is the normal form of the string, up to the termination character of \<^verbatim>\<open>-t\<close>.\<close>

theorem look_prints:
  assumes "mb_ok lc" "NUL \<notin> set k"
    and "getopt ''dft:'' args = (evs, k # nms)"
    and "look_options lc evs \<lparr>dflag = False, fflag = False\<rparr> 0 = Inr (o1, t)"
    and "opts = (if nms = [] then \<lparr>dflag = True, fflag = True\<rparr> else o1)"
    and "fls = (if nms = [] then [path_words] else nms)"
    and "prepkey lc opts k t = Inr key"
    and "\<forall>nm \<in> set fls. fs nm = Mapped (body nm) \<and> length (body nm) < 2 ^ 64 \<and> NUL \<notin> set (body nm) \<and>
           look_sorted lc opts (body nm)"
  shows "key = (if t \<noteq> 0 then cut_after t (normal lc opts k) else normal lc opts k) \<and>
    look_main lc None fs args = Some
      \<lparr>stdout = concat (map (\<lambda>nm. unlines NL (hits lc opts key (lines_of NL (body nm)))) fls), stderr = [],
       status = if \<forall>nm \<in> set fls. hits lc opts key (lines_of NL (body nm)) = [] then 1 else 0\<rparr>"
proof
  obtain w where w: "prep_loop lc opts k = Inr w" "key = (if t \<noteq> 0 then cut_after t w else w)"
    using assms(7) by (auto simp: prepkey_def bind_r_Inr split: if_splits)
  then show "key = (if t \<noteq> 0 then cut_after t (normal lc opts k) else normal lc opts k)"
    using prep_loop_normal [OF assms(1,2) w(1)] by simp
  have f: "look_files lc opts None fs key fls 1 [] =
    Some (Inr (if \<forall>nm \<in> set fls. hits lc opts key (lines_of NL (body nm)) = [] then 1 else 0,
      concat (map (\<lambda>nm. unlines NL (hits lc opts key (lines_of NL (body nm)))) fls)))"
    using look_files_ok [OF assms(1,8)] by simp
  have "look_main lc None fs args =
     (case look_files lc opts None fs key fls 1 [] of
        None \<Rightarrow> None
      | Some (Inl (d, out)) \<Rightarrow> Some \<lparr>stdout = out, stderr = [d], status = 2\<rparr>
      | Some (Inr (m, out)) \<Rightarrow> Some \<lparr>stdout = out, stderr = [], status = m\<rparr>)"
    using assms(3-7) by (cases "nms = []") (simp_all add: look_main_def Let_def)
  then show "look_main lc None fs args = Some
      \<lparr>stdout = concat (map (\<lambda>nm. unlines NL (hits lc opts key (lines_of NL (body nm)))) fls), stderr = [],
       status = if \<forall>nm \<in> set fls. hits lc opts key (lines_of NL (body nm)) = [] then 1 else 0\<rparr>"
    unfolding f by simp
qed

lemma look_options_none: "look_options c_locale [] o1 t = Inr (o1, t)"
  by simp

text \<open>The words \<open>Ab\<close>, \<open>a-c\<close> and \<open>b\<close> with the key \<open>A\<close>: the first two are printed.\<close>

definition sample_words :: string where
  "sample_words = unlines NL [''Ab'', ''a-c'', ''b'']"

theorem look_prints_witness:
  "look_main c_locale None (\<lambda>_. Mapped sample_words) [''A''] =
     Some \<lparr>stdout = unlines NL [''Ab'', ''a-c''], stderr = [], status = 0\<rparr>"
proof -
  let ?o = "\<lparr>dflag = True, fflag = True\<rparr>"
  have g: "getopt ''dft:'' [''A''] = ([], [''A''])" by (simp add: getopt.simps)
  have nrm: "normal c_locale ?o ''A'' = [97]" "normal c_locale ?o ''Ab'' = [97, 98]"
    "normal c_locale ?o ''a-c'' = [97, 99]" "normal c_locale ?o ''b'' = [98]"
    by (simp_all add: normal_def decode.simps c_locale_def iswalnum_def c_iswctype_def class_names_def)
  have l: "lines_of NL sample_words = [''Ab'', ''a-c'', ''b'']"
    unfolding sample_words_def by (rule lines_of_unlines) simp
  have k: "prepkey c_locale ?o ''A'' 0 = Inr [97]"
    by (simp add: prepkey_def prep_loop.simps c_locale_def iswalnum_def c_iswctype_def class_names_def)
  have f: "\<forall>nm \<in> set [path_words]. Mapped sample_words = Mapped sample_words \<and> length sample_words < 2 ^ 64 \<and>
      NUL \<notin> set sample_words \<and> look_sorted c_locale ?o sample_words"
    unfolding look_sorted_def l by (simp add: sample_words_def nrm)
  show ?thesis
    using look_prints [where lc = c_locale and args = "[''A'']" and evs = "[]" and k = "''A''" and nms = "[]"
      and fs = "\<lambda>_. Mapped sample_words" and body = "\<lambda>_. sample_words" and opts = ?o
      and fls = "[path_words]" and key = "[97]" and t = 0, OF mb_ok_c_locale _ g look_options_none]
    k f by (simp add: l nrm)
qed

text \<open>C39: \<^verbatim>\<open>look -d\<close>, which is what \<^verbatim>\<open>look string\<close> runs, does not return once it compares a key with a
  text that has a NUL byte where the next character is read: \<^verbatim>\<open>mbrtowc\<close> returns 0 there, the character is
  ignored, and the pointer stays where it is.\<close>

theorem compare_hangs_on_NUL:
  assumes "dflag o1" "\<not> iswalnum lc (if fflag o1 then towlower lc 0 else 0)"
  shows "compare lc o1 (k # ks) (NUL # s) = None"
proof -
  have "compare lc o1 s1 s2 = Some r \<Longrightarrow> \<not> (s1 \<noteq> [] \<and> s2 = NUL # s)" for s1 s2 r
  proof (rule compare.raw_induct [where P = "\<lambda>lc' o1' s1 s2 r. lc' = lc \<and> o1' = o1 \<longrightarrow> \<not> (s1 \<noteq> [] \<and> s2 = NUL # s)", rule_format])
    fix cmpr lc' o1' s1' s2' r'
    assume IH: "\<And>lc' o1' s1 s2 r. cmpr lc' o1' s1 s2 = Some r \<Longrightarrow> lc' = lc \<and> o1' = o1 \<Longrightarrow> \<not> (s1 \<noteq> [] \<and> s2 = NUL # s)"
      and r: "(case s1' of [] \<Rightarrow> Some EQUAL | ch1 # s1'' \<Rightarrow>
          if s2' = [] \<or> hd s2' = NL then Some GREATER
          else let (ch2, len2) = wide_at lc' o1' s2' in
            if dflag o1' \<and> \<not> iswalnum lc' ch2 then cmpr lc' o1' s1' (drop len2 s2')
            else if ch1 \<noteq> ch2 then Some (if ch1 < ch2 then LESS else GREATER)
            else cmpr lc' o1' s1'' (drop len2 s2')) = Some r'"
      and eq: "lc' = lc \<and> o1' = o1"
    show "\<not> (s1' \<noteq> [] \<and> s2' = NUL # s)"
    proof
      assume a: "s1' \<noteq> [] \<and> s2' = NUL # s"
      have "wide_at lc o1 (NUL # s) = (if fflag o1 then towlower lc 0 else 0, 0)"
        by (simp add: wide_at_def mbrtowc_n_def)
      then have "cmpr lc o1 s1' (NUL # s) = Some r'"
        using r a eq assms by (auto split: list.splits)
      then show False using IH a by blast
    qed
  qed auto
  then show ?thesis by (cases "compare lc o1 (k # ks) (NUL # s)") auto
qed

theorem compare_hangs_on_NUL_witness:
  "look_main c_locale None (\<lambda>_. Mapped [NUL]) [''a''] = None"
proof -
  let ?o = "\<lparr>dflag = True, fflag = True\<rparr>"
  have k: "prepkey c_locale ?o ''a'' 0 = Inr [97]"
    by (simp add: prepkey_def prep_loop.simps c_locale_def iswalnum_def c_iswctype_def class_names_def)
  have h: "compare c_locale ?o [97] [NUL] = None"
    by (rule compare_hangs_on_NUL) (simp_all add: c_locale_def iswalnum_def c_iswctype_def class_names_def)
  have b: "binary_search c_locale ?o [97] [NUL] 0 1 = Some 0"
    by (simp add: binary_search.simps midway_def skip_past_newline.simps)
  have "linear_search c_locale ?o [97] [NUL] 0 1 = None"
    by (simp add: linear_search.simps region_def h)
  then have "look c_locale ?o None [97] [NUL] [] = None" using b by (simp add: look_def)
  then show ?thesis using k by (simp add: look_main_def getopt.simps)
qed

end
