(* ===== verification/Comm.thy ===== *)
theory Comm
  imports Text_Lib "HOL-Library.Multiset" "HOL-Library.Sublist"
begin

text \<open>
  \<^verbatim>\<open>text_cmds-88/comm/comm.c\<close>: the whole program. The open streams are a list, and a \<open>FILE *\<close> an
  index into it: 0 is the standard input, which both operands name when both are \<^verbatim>\<open>-\<close>, 1 and 2 are
  the files opened for them. The output is the list of the wide characters printed.
\<close>

section \<open>Options and streams\<close>

record comm_opts =
  flag1 :: bool
  flag2 :: bool
  flag3 :: bool
  iflag :: bool

type_synonym comm_stop = "diag \<times> int list"

definition MAXLINELEN :: nat where
  "MAXLINELEN = 2048 + 1"

definition tabs :: "int list list" where
  "tabs = [[], [9], [9, 9]]"

definition comm_fgetws :: "wfile list \<Rightarrow> nat \<Rightarrow> int list option \<times> wfile list" where
  "comm_fgetws ws h = (case fgetws MAXLINELEN (ws ! h) of (r, fp) \<Rightarrow> (r, ws[h := fp]))"

definition ws_size :: "wfile list \<Rightarrow> nat" where
  "ws_size ws = sum_list (map (\<lambda>fp. length (wtext fp)) ws)"

lemma ws_size_update:
  "h < length ws \<Longrightarrow> ws_size (ws[h := fp]) + length (wtext (ws ! h)) = ws_size ws + length (wtext fp)"
proof (induction ws arbitrary: h)
  case (Cons w ws)
  then show ?case by (cases h) (auto simp: ws_size_def)
qed simp

lemma comm_fgetws_shrinks:
  "comm_fgetws ws h = (Some l, ws') \<Longrightarrow> ws_size ws' < ws_size ws \<or> length ws \<le> h"
  using ws_size_update [of h ws "ws' ! h"] fgetws_shrinks [of MAXLINELEN "ws ! h" l "ws' ! h"]
  by (cases "h < length ws") (auto simp: comm_fgetws_def split: prod.splits)

lemma comm_fgetws_le: "comm_fgetws ws h = (r, ws') \<Longrightarrow> ws_size ws' \<le> ws_size ws"
proof (cases "h < length ws")
  case True
  assume a: "comm_fgetws ws h = (r, ws')"
  define fp where "fp = snd (fgetws MAXLINELEN (ws ! h))"
  have "length (wtext fp) \<le> length (wtext (ws ! h))"
    by (simp add: fp_def fgetws_def Let_def)
  moreover have "ws' = ws[h := fp]" using a by (simp add: comm_fgetws_def fp_def split: prod.splits)
  ultimately show ?thesis using ws_size_update [OF True, of fp] by simp
qed (auto simp: comm_fgetws_def list_update_beyond split: prod.splits)

section \<open>Showing the rest of a file\<close>

definition wprint :: "int list \<Rightarrow> int list \<Rightarrow> int list" where
  "wprint col line = col @ cstr line"

function show_loop :: "wfile list \<Rightarrow> nat \<Rightarrow> int list \<Rightarrow> int list \<Rightarrow> int list \<Rightarrow> int list \<times> wfile list" where
  "show_loop ws h col buf out =
     (if length ws \<le> h then (out, ws) else
      case comm_fgetws ws h of
        (None, ws') \<Rightarrow> (out @ wprint col buf, ws')
      | (Some buf', ws') \<Rightarrow> show_loop ws' h col buf' (out @ wprint col buf))"
  by pat_completeness auto
termination
  by (relation "measure (\<lambda>(ws, h, col, buf, out). ws_size ws)")
    (auto dest!: comm_fgetws_shrinks [OF sym])

declare show_loop.simps [simp del]

definition comm_show :: "wfile list \<Rightarrow> nat \<Rightarrow> string \<Rightarrow> int list \<Rightarrow> int list \<Rightarrow> int list \<Rightarrow> comm_stop + int list" where
  "comm_show ws h fn col buf out =
     (case show_loop ws h col buf out of (out', ws') \<Rightarrow>
        if werr (ws' ! h) then Inl (Errmsg fn, out') else Inr out')"

section \<open>The loop\<close>

record comm_cols =
  col1 :: "int list option"
  col2 :: "int list option"
  col3 :: "int list option"

text \<open>One more tab for each column printed before.\<close>

definition columns :: "comm_opts \<Rightarrow> comm_cols" where
  "columns o1 =
     (let n1 = (if flag1 o1 then 1 else 0); n2 = (if flag2 o1 then n1 + 1 else n1) in
      \<lparr>col1 = if flag1 o1 then Some (tabs ! 0) else None,
       col2 = if flag2 o1 then Some (tabs ! n1) else None,
       col3 = if flag3 o1 then Some (tabs ! n2) else None\<rparr>)"

definition put_col :: "int list option \<Rightarrow> int list \<Rightarrow> int list \<Rightarrow> int list" where
  "put_col col line out = (case col of None \<Rightarrow> out | Some c \<Rightarrow> out @ wprint c line)"

text \<open>Reading a line if the flag says so; otherwise the line read before stays. \<open>None\<close> for the line is
  the end of the file.\<close>

definition read_next ::
    "bool \<Rightarrow> nat \<Rightarrow> string \<Rightarrow> int list option \<Rightarrow> wfile list \<Rightarrow> int list \<Rightarrow> comm_stop + int list option \<times> wfile list" where
  "read_next rd h fn line ws out =
     (if rd then
        (case comm_fgetws ws h of (r, ws') \<Rightarrow>
           if r = None \<and> werr (ws' ! h) then Inl (Errmsg fn, out) else Inr (r, ws'))
      else Inr (line, ws))"

lemma read_next_size:
  "read_next rd h fn line ws out = Inr (r, ws') \<Longrightarrow> ws_size ws' \<le> ws_size ws"
  "read_next True h fn line ws out = Inr (Some l, ws') \<Longrightarrow> h < length ws \<Longrightarrow> ws_size ws' < ws_size ws"
  "read_next rd h fn line ws out = Inr (r, ws') \<Longrightarrow> length ws' = length ws"
  by (auto simp: read_next_def comm_fgetws_le split: if_splits prod.splits dest: comm_fgetws_shrinks)
    (auto simp: comm_fgetws_def split: prod.splits)

lemma reads_size:
  assumes "read_next r1 h1 fn1 line1 ws out = Inr (Some l1, ws1)"
    "read_next r2 h2 fn2 line2 ws1 out = Inr (Some l2, ws2)" "h1 < length ws" "h2 < length ws"
  shows "if r1 \<or> r2 then ws_size ws2 < ws_size ws else ws2 = ws"
proof (cases r1)
  case True
  then show ?thesis using assms(1,3) read_next_size(1) [OF assms(2)] read_next_size(2) [of h1 fn1 line1 ws out l1 ws1] by simp
next
  case False
  then have "ws1 = ws" using assms(1) by (simp add: read_next_def)
  then show ?thesis using False assms read_next_size(2) [of h2 fn2 line2 ws1 out l2 ws2]
    by (cases r2) (simp_all add: read_next_def)
qed

function comm_loop ::
    "wlibc \<Rightarrow> bool \<Rightarrow> comm_cols \<Rightarrow> nat \<Rightarrow> nat \<Rightarrow> string \<Rightarrow> string \<Rightarrow> bool \<Rightarrow> bool \<Rightarrow> int list option \<Rightarrow> int list option \<Rightarrow>
     wfile list \<Rightarrow> int list \<Rightarrow> comm_stop + int list" where
  "comm_loop lc ifl cols h1 h2 fn1 fn2 read1 read2 line1 line2 ws out =
     (if length ws \<le> h1 \<or> length ws \<le> h2 then Inr out else
      bind_r (read_next read1 h1 fn1 line1 ws out) (\<lambda>(line1', ws1).
      bind_r (read_next read2 h2 fn2 line2 ws1 out) (\<lambda>(line2', ws2).
        case line1' of
          None \<Rightarrow>
            (case line2' of
               None \<Rightarrow> Inr out
             | Some l2 \<Rightarrow> (case col2 cols of None \<Rightarrow> Inr out | Some c \<Rightarrow> comm_show ws2 h2 fn2 c l2 out))
        | Some l1 \<Rightarrow>
            (case line2' of
               None \<Rightarrow> (case col1 cols of None \<Rightarrow> Inr out | Some c \<Rightarrow> comm_show ws2 h1 fn1 c l1 out)
             | Some l2 \<Rightarrow>
                 let comp = compare_lines lc ifl (cstr l1) (cstr l2) in
                 if comp = 0 then
                   comm_loop lc ifl cols h1 h2 fn1 fn2 True True line1' line2' ws2 (put_col (col3 cols) l1 out)
                 else if comp < 0 then
                   comm_loop lc ifl cols h1 h2 fn1 fn2 True False line1' line2' ws2 (put_col (col1 cols) l1 out)
                 else
                   comm_loop lc ifl cols h1 h2 fn1 fn2 False True line1' line2' ws2 (put_col (col2 cols) l2 out)))))"
  by pat_completeness auto
termination
proof (relation "measures [\<lambda>(lc, ifl, cols, h1, h2, fn1, fn2, r1, r2, l1, l2, ws, out). ws_size ws,
    \<lambda>(lc, ifl, cols, h1, h2, fn1, fn2, r1, r2, l1, l2, ws, out). if r1 \<or> r2 then 0 else 1]", goal_cases)
  case 1
  show ?case by simp
next
  case (2 lc ifl cols h1 h2 fn1 fn2 read1 read2 line1 line2 ws out a line1' ws1 b line2' ws2 l1 l2 comp)
  then show ?case
    using reads_size [of read1 h1 fn1 line1 ws out l1 ws1 read2 h2 fn2 line2 l2 ws2] by (auto split: if_splits)
next
  case (3 lc ifl cols h1 h2 fn1 fn2 read1 read2 line1 line2 ws out a line1' ws1 b line2' ws2 l1 l2 comp)
  then show ?case
    using reads_size [of read1 h1 fn1 line1 ws out l1 ws1 read2 h2 fn2 line2 l2 ws2] by (auto split: if_splits)
next
  case (4 lc ifl cols h1 h2 fn1 fn2 read1 read2 line1 line2 ws out a line1' ws1 b line2' ws2 l1 l2 comp)
  then show ?case
    using reads_size [of read1 h1 fn1 line1 ws out l1 ws1 read2 h2 fn2 line2 l2 ws2] by (auto split: if_splits)
qed

declare comm_loop.simps [simp del]

section \<open>The main program\<close>

definition comm_usage :: diag where
  "comm_usage = Plain ''usage: comm [-123i] file1 file2''"

fun comm_options :: "optev list \<Rightarrow> comm_opts \<Rightarrow> comm_stop + comm_opts" where
  "comm_options [] o1 = Inr o1"
| "comm_options (Opt c arg # evs) o1 =
     comm_options evs
       (if c = CHR ''1'' then o1\<lparr>flag1 := False\<rparr>
        else if c = CHR ''2'' then o1\<lparr>flag2 := False\<rparr>
        else if c = CHR ''3'' then o1\<lparr>flag3 := False\<rparr>
        else o1\<lparr>iflag := True\<rparr>)"
| "comm_options (_ # evs) o1 = Inl (comm_usage, [])"

text \<open>\<open>file(name)\<close>, with the streams the program has and the index \<open>i\<close> the opened file gets.\<close>

definition comm_file :: "(string \<Rightarrow> wfile option) \<Rightarrow> string \<Rightarrow> nat \<Rightarrow> wfile list \<Rightarrow> comm_stop + nat \<times> wfile list" where
  "comm_file fs name i ws =
     (if name = ''-'' then Inr (0, ws)
      else case fs name of None \<Rightarrow> Inl (Errmsg name, []) | Some fp \<Rightarrow> Inr (i, ws[i := fp]))"

definition comm_main :: "wlibc \<Rightarrow> wfile \<Rightarrow> (string \<Rightarrow> wfile option) \<Rightarrow> string list \<Rightarrow> woutcome" where
  "comm_main lc fp0 fs args =
     (case
        (case getopt ''123i'' args of (evs, argv) \<Rightarrow>
           bind_r (comm_options evs \<lparr>flag1 = True, flag2 = True, flag3 = True, iflag = False\<rparr>) (\<lambda>o1.
             case argv of
               [n1, n2] \<Rightarrow>
                 bind_r (comm_file fs n1 1 [fp0, fp0, fp0]) (\<lambda>(h1, ws1).
                 bind_r (comm_file fs n2 2 ws1) (\<lambda>(h2, ws2).
                   comm_loop lc (iflag o1) (columns o1) h1 h2 n1 n2 True True None None ws2 []))
             | _ \<Rightarrow> Inl (comm_usage, [])))
      of
        Inl (d, out) \<Rightarrow> \<lparr>wout = out, wdiags = [d], wstatus = 1\<rparr>
      | Inr out \<Rightarrow> \<lparr>wout = out, wdiags = [], wstatus = 0\<rparr>)"

section \<open>The reference: a merge into three columns\<close>

datatype column = First | Second | Third

fun comm_merge :: "(int list \<Rightarrow> 'k::linorder) \<Rightarrow> int list list \<Rightarrow> int list list \<Rightarrow> (column \<times> int list) list" where
  "comm_merge k [] bs = map (Pair Second) bs"
| "comm_merge k (a # as) [] = map (Pair First) (a # as)"
| "comm_merge k (a # as) (b # bs) =
     (if k a = k b then (Third, a) # comm_merge k as bs
      else if k a < k b then (First, a) # comm_merge k as (b # bs)
      else (Second, b) # comm_merge k (a # as) bs)"

fun col_of :: "comm_cols \<Rightarrow> column \<Rightarrow> int list option" where
  "col_of cols First = col1 cols"
| "col_of cols Second = col2 cols"
| "col_of cols Third = col3 cols"

text \<open>The lines of a column, in the order of the output.\<close>

definition in_col :: "column \<Rightarrow> (column \<times> int list) list \<Rightarrow> int list list" where
  "in_col c evs = map snd (filter (\<lambda>e. fst e = c) evs)"

definition comm_render :: "comm_cols \<Rightarrow> (column \<times> int list) list \<Rightarrow> int list" where
  "comm_render cols evs = concat (map (\<lambda>(c, l). put_col (col_of cols c) l []) evs)"

lemma comm_render_simps [simp]:
  "comm_render cols [] = []"
  "comm_render cols ((c, l) # evs) = put_col (col_of cols c) l [] @ comm_render cols evs"
  by (simp_all add: comm_render_def)

lemma in_col_simps [simp]:
  "in_col c [] = []"
  "in_col c ((c', l) # evs) = (if c' = c then l # in_col c evs else in_col c evs)"
  "in_col c (map (Pair c') ls) = (if c' = c then ls else [])"
  by (simp_all add: in_col_def filter_map comp_def)

lemma put_col_append: "put_col col l out = out @ put_col col l []"
  by (simp add: put_col_def split: option.splits)

text \<open>On sorted files the columns are the differences and the intersection of the files as multisets.\<close>

lemma smaller_not_in:
  "sorted (map k (b # bs)) \<Longrightarrow> k a < k b \<Longrightarrow> k a \<notin># image_mset k (mset (b # bs))"
  by fastforce

lemma merge_columns:
  assumes "sorted (map k as)" "sorted (map k bs)"
  shows "image_mset k (mset (in_col Third (comm_merge k as bs))) = image_mset k (mset as) \<inter># image_mset k (mset bs) \<and>
     image_mset k (mset (in_col First (comm_merge k as bs))) = image_mset k (mset as) - image_mset k (mset bs) \<and>
     image_mset k (mset (in_col Second (comm_merge k as bs))) = image_mset k (mset bs) - image_mset k (mset as)"
  using assms
proof (induction k as bs rule: comm_merge.induct)
  case (3 k a as b bs)
  consider (eq) "k a = k b" | (less) "k a < k b" | (gt) "k b < k a" by fastforce
  then show ?case
  proof cases
    case eq
    then show ?thesis using 3 by simp
  next
    case less
    then show ?thesis using 3 smaller_not_in [OF "3.prems"(2) less]
      by (auto simp: inter_add_left1 diff_add_mset_swap minus_add_mset_if_not_in_lhs)
  next
    case gt
    then show ?thesis using 3 smaller_not_in [OF "3.prems"(1) gt]
      by (auto simp: inter_add_right1 diff_add_mset_swap minus_add_mset_if_not_in_lhs)
  qed
qed simp_all

lemma merge_files:
  "map snd (filter (\<lambda>e. fst e \<noteq> Second) (comm_merge k as bs)) = as"
  "subseq (in_col Second (comm_merge k as bs)) bs"
  by (induction k as bs rule: comm_merge.induct) (auto simp: filter_map comp_def intro: list_emb_Cons)

section \<open>The loop is the merge\<close>

abbreviation linepieces :: "wfile list \<Rightarrow> nat \<Rightarrow> int list list" where
  "linepieces ws h \<equiv> pieces MAXLINELEN (wtext (ws ! h))"

lemma comm_fgetws_pieces:
  assumes "\<not> werr (ws ! h)" "h < length ws"
  obtains ws' where
    "comm_fgetws ws h = (case linepieces ws h of [] \<Rightarrow> None | l # ls \<Rightarrow> Some l, ws')"
    "linepieces ws' h = tl (linepieces ws h)" "length ws' = length ws" "map werr ws' = map werr ws"
    "\<forall>j. j \<noteq> h \<longrightarrow> ws' ! j = ws ! j"
proof -
  define fp where "fp = (case linepieces ws h of [] \<Rightarrow> ws ! h | l # ls \<Rightarrow> (ws ! h)\<lparr>wtext := drop (length l) (wtext (ws ! h))\<rparr>)"
  have "comm_fgetws ws h = (case linepieces ws h of [] \<Rightarrow> None | l # ls \<Rightarrow> Some l, ws[h := fp])"
    using fgetws_pieces(1) [OF assms(1), of MAXLINELEN]
    by (simp add: comm_fgetws_def fp_def split: list.splits)
  moreover have "linepieces (ws[h := fp]) h = tl (linepieces ws h)"
    using fgetws_pieces(2) [OF assms(1), of MAXLINELEN] assms(2) by (auto simp: fp_def split: list.splits)
  moreover have "map werr (ws[h := fp]) = map werr ws"
    using assms(2) by (intro nth_equalityI) (auto simp: nth_list_update fp_def split: list.splits)
  ultimately show ?thesis using that [of "ws[h := fp]"] by simp
qed

lemma show_loop_pieces:
  "h < length ws \<Longrightarrow> \<not> werr (ws ! h) \<Longrightarrow>
     \<exists>ws'. show_loop ws h c l out = (out @ concat (map (wprint c) (l # linepieces ws h)), ws') \<and> \<not> werr (ws' ! h)"
proof (induction "linepieces ws h" arbitrary: ws l out)
  case Nil
  obtain ws' where ws': "comm_fgetws ws h = (case linepieces ws h of [] \<Rightarrow> None | l # ls \<Rightarrow> Some l, ws')"
    "length ws' = length ws" "map werr ws' = map werr ws"
    by (rule comm_fgetws_pieces [OF Nil.prems(2,1)]) blast
  have "\<not> werr (ws' ! h)" using Nil.prems ws'(2,3) by (metis nth_map)
  then show ?case using Nil ws' by (simp add: show_loop.simps [of ws] Nil.hyps [symmetric])
next
  case (Cons x xs)
  obtain ws' where ws': "comm_fgetws ws h = (case linepieces ws h of [] \<Rightarrow> None | l # ls \<Rightarrow> Some l, ws')"
    "linepieces ws' h = tl (linepieces ws h)" "length ws' = length ws" "map werr ws' = map werr ws"
    by (rule comm_fgetws_pieces [OF Cons.prems(2,1)]) blast
  have "\<not> werr (ws' ! h)" using Cons.prems ws'(3,4) by (metis nth_map)
  then have "\<exists>ws''. show_loop ws' h c x (out @ wprint c l) =
      ((out @ wprint c l) @ concat (map (wprint c) (x # linepieces ws' h)), ws'') \<and> \<not> werr (ws'' ! h)"
    using Cons.hyps(1) [of ws' x "out @ wprint c l"] ws'(2,3) Cons.prems(1) Cons.hyps(2) by (metis list.sel(3))
  then show ?case using Cons.prems ws'(1,2) by (simp add: show_loop.simps [of ws] Cons.hyps(2) [symmetric])
qed

lemma comm_show_pieces:
  "h < length ws \<Longrightarrow> \<not> werr (ws ! h) \<Longrightarrow>
     comm_show ws h fn c l out = Inr (out @ concat (map (wprint c) (l # linepieces ws h)))"
  using show_loop_pieces [of h ws c l out] by (auto simp: comm_show_def)

text \<open>What a file has left: the line held back, if there is one, and the pieces to come.\<close>

definition pending :: "bool \<Rightarrow> int list option \<Rightarrow> int list list \<Rightarrow> int list list" where
  "pending rd line ps = (if rd then ps else the line # ps)"

lemma read_next_pieces:
  assumes "\<not> werr (ws ! h)" "h < length ws" "rd \<or> line \<noteq> None"
  obtains ws' where
    "read_next rd h fn line ws out = Inr (case pending rd line (linepieces ws h) of [] \<Rightarrow> None | l # ls \<Rightarrow> Some l, ws')"
    "linepieces ws' h = tl (pending rd line (linepieces ws h))" "length ws' = length ws" "map werr ws' = map werr ws"
    "\<forall>j. j \<noteq> h \<longrightarrow> ws' ! j = ws ! j"
proof (cases rd)
  case True
  obtain ws' where ws':
    "comm_fgetws ws h = (case linepieces ws h of [] \<Rightarrow> None | l # ls \<Rightarrow> Some l, ws')"
    "linepieces ws' h = tl (linepieces ws h)" "length ws' = length ws" "map werr ws' = map werr ws"
    "\<forall>j. j \<noteq> h \<longrightarrow> ws' ! j = ws ! j"
    by (rule comm_fgetws_pieces [OF assms(1,2)])
  have "\<not> werr (ws' ! h)" using assms(1,2) ws'(3,4) by (metis nth_map)
  then show ?thesis using that [of ws'] True ws' by (simp add: read_next_def pending_def)
next
  case False
  then show ?thesis using that [of ws] assms(3) by (auto simp: read_next_def pending_def)
qed

lemma comm_loop_merge:
  assumes "collates lc key" "h1 \<noteq> h2"
  shows "h1 < length ws \<Longrightarrow> h2 < length ws \<Longrightarrow> \<not> werr (ws ! h1) \<Longrightarrow> \<not> werr (ws ! h2) \<Longrightarrow>
    read1 \<or> line1 \<noteq> None \<Longrightarrow> read2 \<or> line2 \<noteq> None \<Longrightarrow> read1 \<or> read2 \<Longrightarrow>
    comm_loop lc ifl cols h1 h2 fn1 fn2 read1 read2 line1 line2 ws out =
      Inr (out @ comm_render cols (comm_merge (\<lambda>l. line_key lc key ifl (cstr l))
        (pending read1 line1 (linepieces ws h1)) (pending read2 line2 (linepieces ws h2))))"
proof (induction "length (pending read1 line1 (linepieces ws h1)) + length (pending read2 line2 (linepieces ws h2))"
    arbitrary: read1 read2 line1 line2 ws out rule: less_induct)
  case less
  define k where "k = (\<lambda>l. line_key lc key ifl (cstr l))"
  define P1 where "P1 = pending read1 line1 (linepieces ws h1)"
  define P2 where "P2 = pending read2 line2 (linepieces ws h2)"
  obtain ws1 where ws1:
    "read_next read1 h1 fn1 line1 ws out = Inr (case P1 of [] \<Rightarrow> None | l # ls \<Rightarrow> Some l, ws1)"
    "linepieces ws1 h1 = tl P1" "length ws1 = length ws" "map werr ws1 = map werr ws" "ws1 ! h2 = ws ! h2"
    by (rule read_next_pieces [OF less.prems(3,1,5), of fn1 out, folded P1_def]) (use assms(2) in auto)
  have p1: "\<not> werr (ws1 ! h2)" "h2 < length ws1" "linepieces ws1 h2 = linepieces ws h2"
    using ws1 less.prems by simp_all
  obtain ws2 where ws2:
    "read_next read2 h2 fn2 line2 ws1 out = Inr (case P2 of [] \<Rightarrow> None | l # ls \<Rightarrow> Some l, ws2)"
    "linepieces ws2 h2 = tl P2" "length ws2 = length ws1" "map werr ws2 = map werr ws1" "ws2 ! h1 = ws1 ! h1"
    by (rule read_next_pieces [OF p1(1,2) less.prems(6), of fn2 out, unfolded p1(3), folded P2_def]) (use assms(2) in auto)
  have w: "\<not> werr (ws2 ! h1)" "\<not> werr (ws2 ! h2)" "h1 < length ws2" "h2 < length ws2"
      "linepieces ws2 h1 = tl P1" "linepieces ws2 h2 = tl P2"
    using ws1 ws2 less.prems by (simp_all, metis nth_map, metis nth_map)
  have lp: "\<not> (length ws \<le> h1 \<or> length ws \<le> h2)" using less.prems by simp
  note unf = comm_loop.simps [of lc ifl cols h1 h2 fn1 fn2 read1 read2 line1 line2 ws out] if_not_P [OF lp]
    ws1(1) bind_r_simps prod.case ws2(1)
  show ?case
    unfolding P1_def [symmetric] P2_def [symmetric] k_def [symmetric]
  proof (cases P1)
    case Nil
    show "comm_loop lc ifl cols h1 h2 fn1 fn2 read1 read2 line1 line2 ws out = Inr (out @ comm_render cols (comm_merge k P1 P2))"
    proof (cases P2)
      case (Cons b bs)
      then show ?thesis using Nil w unfolding unf
        by (simp add: comm_show_pieces comm_render_def put_col_def comp_def split: option.splits)
    qed (simp add: unf Nil)
  next
    case (Cons a as)
    show "comm_loop lc ifl cols h1 h2 fn1 fn2 read1 read2 line1 line2 ws out = Inr (out @ comm_render cols (comm_merge k P1 P2))"
    proof (cases P2)
      case Nil
      then show ?thesis using Cons w unfolding unf
        by (simp add: comm_show_pieces comm_render_def put_col_def comp_def split: option.splits)
    next
      case P2: (Cons b bs)
      note IH = less.hyps [folded P1_def P2_def k_def, OF _ w(3,4,1,2)]
      have cmp: "compare_lines lc ifl (cstr a) (cstr b) < 0 \<longleftrightarrow> k a < k b"
          "compare_lines lc ifl (cstr a) (cstr b) = 0 \<longleftrightarrow> k a = k b"
        using compare_lines_key [OF assms(1), of ifl "cstr a" "cstr b"] by (simp_all add: k_def)
      show ?thesis
        using IH [of True "Some a" True "Some b" "put_col (col3 cols) a out"]
          IH [of True "Some a" False "Some b" "put_col (col1 cols) a out"]
          IH [of False "Some a" True "Some b" "put_col (col2 cols) b out"]
        unfolding unf
        by (simp add: P2 Cons w cmp pending_def Let_def put_col_append [of _ _ out])
    qed
  qed
qed

section \<open>Properties\<close>

text \<open>The stream an comm_operand names.\<close>

definition comm_operand :: "wfile \<Rightarrow> (string \<Rightarrow> wfile option) \<Rightarrow> string \<Rightarrow> wfile option" where
  "comm_operand fp0 fs n = (if n = ''-'' then Some fp0 else fs n)"

lemma comm_main_merge:
  assumes "collates lc key" "getopt ''123i'' args = (evs, [n1, n2])"
    "comm_options evs \<lparr>flag1 = True, flag2 = True, flag3 = True, iflag = False\<rparr> = Inr o1"
    "n1 \<noteq> ''-'' \<or> n2 \<noteq> ''-''"
    "comm_operand fp0 fs n1 = Some \<lparr>wtext = t1, werr = False\<rparr>" "comm_operand fp0 fs n2 = Some \<lparr>wtext = t2, werr = False\<rparr>"
  shows "comm_main lc fp0 fs args =
    \<lparr>wout = comm_render (columns o1) (comm_merge (\<lambda>l. line_key lc key (iflag o1) (cstr l)) (pieces MAXLINELEN t1) (pieces MAXLINELEN t2)),
     wdiags = [], wstatus = 0\<rparr>"
proof -
  define h1 :: nat where "h1 = (if n1 = ''-'' then 0 else 1)"
  define h2 :: nat where "h2 = (if n2 = ''-'' then 0 else 2)"
  define ws1 where "ws1 = (if n1 = ''-'' then [fp0, fp0, fp0] else [fp0, the (fs n1), fp0])"
  define ws2 where "ws2 = (if n2 = ''-'' then ws1 else ws1[2 := the (fs n2)])"
  have f: "comm_file fs n1 1 [fp0, fp0, fp0] = Inr (h1, ws1)" "comm_file fs n2 2 ws1 = Inr (h2, ws2)"
      "length ws2 = 3" "ws2 ! h1 = \<lparr>wtext = t1, werr = False\<rparr>" "ws2 ! h2 = \<lparr>wtext = t2, werr = False\<rparr>"
    using assms(4-6) by (auto simp: comm_file_def comm_operand_def h1_def h2_def ws1_def ws2_def split: if_splits)
  have h: "h1 \<noteq> h2" "h1 < 3" "h2 < 3" using assms(4) by (auto simp: h1_def h2_def)
  have "comm_loop lc (iflag o1) (columns o1) h1 h2 n1 n2 True True None None ws2 [] =
      Inr (comm_render (columns o1) (comm_merge (\<lambda>l. line_key lc key (iflag o1) (cstr l)) (pieces MAXLINELEN t1) (pieces MAXLINELEN t2)))"
    using comm_loop_merge [OF assms(1) h(1), of ws2 True None True None "iflag o1" "columns o1" n1 n2 "[]"] h f(3-5)
    by (simp add: pending_def)
  then show ?thesis using assms(2,3) f(1,2) by (simp add: comm_main_def)
qed

text \<open>C13: \<^verbatim>\<open>comm\<close> separates. Let the two operands (not both the standard input) be readable to the end and
  sorted by the collation key of their lines, which \<^verbatim>\<open>-i\<close> takes of the lower-case line. Then the program
  writes its three columns, each line behind the tabs of its column and without the suppressed ones, such
  that, counting lines with equal keys, the first column is the difference of the first file and the second,
  the second column the difference of the second and the first, and the third their intersection; the first
  and the third column together are the lines of the first file in their order, and the second one is
  taken from the second file in order. Lines of more than 2048 characters count as several.\<close>

theorem comm_separates:
  assumes "collates lc key" "getopt ''123i'' args = (evs, [n1, n2])"
    "comm_options evs \<lparr>flag1 = True, flag2 = True, flag3 = True, iflag = False\<rparr> = Inr o1"
    "n1 \<noteq> ''-'' \<or> n2 \<noteq> ''-''"
    "comm_operand fp0 fs n1 = Some \<lparr>wtext = t1, werr = False\<rparr>" "comm_operand fp0 fs n2 = Some \<lparr>wtext = t2, werr = False\<rparr>"
    "k = (\<lambda>l. line_key lc key (iflag o1) (cstr l))" "l1 = pieces MAXLINELEN t1" "l2 = pieces MAXLINELEN t2"
    "sorted (map k l1)" "sorted (map k l2)"
  shows "\<exists>es. comm_main lc fp0 fs args = \<lparr>wout = comm_render (columns o1) es, wdiags = [], wstatus = 0\<rparr> \<and>
    image_mset k (mset (in_col First es)) = image_mset k (mset l1) - image_mset k (mset l2) \<and>
    image_mset k (mset (in_col Second es)) = image_mset k (mset l2) - image_mset k (mset l1) \<and>
    image_mset k (mset (in_col Third es)) = image_mset k (mset l1) \<inter># image_mset k (mset l2) \<and>
    map snd (filter (\<lambda>e. fst e \<noteq> Second) es) = l1 \<and> subseq (in_col Second es) l2"
  using comm_main_merge [OF assms(1-6)] merge_columns [OF assms(10,11)] merge_files [of k l1 l2] assms(7-9)
  by (intro exI [of _ "comm_merge k l1 l2"]) simp

text \<open>The lines \<open>a\<close>, \<open>b\<close> against \<open>b\<close>, \<open>c\<close>.\<close>

theorem comm_separates_witness:
  "\<exists>es. comm_main c_wlocale \<lparr>wtext = [98, 10, 99, 10], werr = False\<rparr>
       (\<lambda>_. Some \<lparr>wtext = [97, 10, 98, 10], werr = False\<rparr>) [''-1'', ''f'', ''-''] =
     \<lparr>wout = comm_render (columns \<lparr>flag1 = False, flag2 = True, flag3 = True, iflag = False\<rparr>) es, wdiags = [], wstatus = 0\<rparr> \<and>
     in_col Third es = [[98, 10]]"
proof -
  let ?o = "\<lparr>flag1 = False, flag2 = True, flag3 = True, iflag = False\<rparr>"
  let ?f = "\<lparr>wtext = [97, 10, 98, 10], werr = False\<rparr>"
  have g: "getopt ''123i'' [''-1'', ''f'', ''-''] = ([Opt CHR ''1'' None], [''f'', ''-''])" by (simp add: getopt.simps)
  have p: "pieces MAXLINELEN [97, 10, 98, 10] = [[97, 10], [98, 10]]" "pieces MAXLINELEN [98, 10, 99, 10] = [[98, 10], [99, 10]]"
    by (simp_all add: MAXLINELEN_def numeral_eq_Suc pieces.simps)
  have k: "cstr = (\<lambda>l. line_key c_wlocale (\<lambda>w. (w :: int list)) (iflag ?o) (cstr l))"
    by (simp add: line_key_def)
  have srt: "sorted (map cstr [[97, 10], [98, 10]])" "sorted (map cstr [[98, 10], [99, 10]])"
    by (simp_all add: cstr_def)
  obtain es where es: "comm_main c_wlocale \<lparr>wtext = [98, 10, 99, 10], werr = False\<rparr> (\<lambda>_. Some ?f) [''-1'', ''f'', ''-''] =
      \<lparr>wout = comm_render (columns ?o) es, wdiags = [], wstatus = 0\<rparr>"
      "image_mset cstr (mset (in_col Third es)) = image_mset cstr (mset [[97, 10], [98, 10]]) \<inter># image_mset cstr (mset [[98, 10], [99, 10]])"
      "map snd (filter (\<lambda>e. fst e \<noteq> Second) es) = [[97, 10], [98, 10]]"
    using comm_separates [of c_wlocale "\<lambda>w. w", OF wcscmp_collates g _ _ _ _ k p [symmetric] srt,
        where ?fp0.0 = "\<lparr>wtext = [98, 10, 99, 10], werr = False\<rparr>" and fs = "\<lambda>_. Some ?f"]
    by (auto simp: comm_operand_def)
  have i: "image_mset cstr (mset [[97, 10], [98, 10]]) \<inter># image_mset cstr (mset [[98, 10], [99, 10]]) = {#[98, 10]#}"
    by (auto simp: cstr_def multiset_eq_iff)
  have "size (mset (in_col Third es)) = 1" using arg_cong [OF es(2), of size] unfolding i by simp
  then obtain x where x: "in_col Third es = [x]" by (auto simp: length_Suc_conv)
  then have "cstr x = [98, 10]" using es(2) unfolding i by simp
  moreover have "set (in_col Third es) \<subseteq> set (map snd (filter (\<lambda>e. fst e \<noteq> Second) es))" by (auto simp: in_col_def)
  ultimately have "x = [98, 10]" using x es(3) by (auto simp: cstr_def)
  then show ?thesis using es(1) x by blast
qed

end
