(* ===== verification/Uniq.thy ===== *)
theory Uniq
  imports Text_Lib
begin

text \<open>
  \<^verbatim>\<open>text_cmds-88/uniq/uniq.c\<close>: the whole program. A line in a buffer is the list of its wide
  characters up to the first null character; \<open>repeats\<close> is a C \<open>int\<close>, and counting past its range
  stops the model with \<open>Overflow\<close>.
\<close>

section \<open>State\<close>

record uniq_opts =
  cflag :: bool
  dflag :: bool
  uflag :: bool
  iflag :: bool
  numfields :: int
  numchars :: int

datatype uniq_stop = Overflow | Leave diag "int list"

definition UNIQ_MAXLINELEN :: nat where
  "UNIQ_MAXLINELEN = 8 * 1024"

section \<open>Reading\<close>

text \<open>The first loop of \<open>uniq_getline\<close>: characters go into the buffer until it has room only for the
  terminator, or the line or the file ends. The result is what was stored, the last \<open>ch\<close> read and the
  stream.\<close>

function fill_line :: "nat \<Rightarrow> nat \<Rightarrow> int option \<Rightarrow> wfile \<Rightarrow> int list \<times> int option \<times> wfile" where
  "fill_line buflen bufpos ch fp =
     (if bufpos + 2 = buflen then ([], ch, fp)
      else case getwc fp of
        (None, fp') \<Rightarrow> ([], None, fp')
      | (Some c, fp') \<Rightarrow>
          if c = WNL then ([], Some c, fp')
          else case fill_line buflen (bufpos + 1) (Some c) fp' of (w, ch', fp'') \<Rightarrow> (c # w, ch', fp''))"
  by pat_completeness auto
termination
  by (relation "measure (\<lambda>(buflen, bufpos, ch, fp). length (wtext fp))")
    (auto simp: getwc_def split: list.splits)

declare fill_line.simps [simp del]

text \<open>The second loop: the rest of a long line is dropped.\<close>

function drop_rest :: "int option \<Rightarrow> wfile \<Rightarrow> int option \<times> wfile" where
  "drop_rest ch fp =
     (if ch = None \<or> ch = Some WNL then (ch, fp) else case getwc fp of (ch', fp') \<Rightarrow> drop_rest ch' fp')"
  by pat_completeness auto
termination
  by (relation "measures [\<lambda>(ch, fp). length (wtext fp), \<lambda>(ch, fp). if ch = None then 0 else 1]")
    (auto simp: getwc_def split: list.splits)

declare drop_rest.simps [simp del]

definition uniq_getline :: "nat \<Rightarrow> wfile \<Rightarrow> int list option \<times> wfile" where
  "uniq_getline buflen fp =
     (case fill_line buflen 0 None fp of (w, ch, fp1) \<Rightarrow>
        (case drop_rest ch fp1 of (ch', fp2) \<Rightarrow>
           (if w \<noteq> [] \<or> ch' = Some WNL then Some (cstr w) else None, fp2)))"

section \<open>Showing a line\<close>

text \<open>\<open>%4d\<close>: the decimal number, padded with blanks to four places.\<close>

definition pad4 :: "int \<Rightarrow> int list" where
  "pad4 n = (let s = map (\<lambda>c. int (of_char c)) (show_nat (nat n)) in replicate (4 - length s) 32 @ s)"

definition uniq_show :: "uniq_opts \<Rightarrow> int \<Rightarrow> int list \<Rightarrow> int list \<Rightarrow> uniq_stop + int list" where
  "uniq_show o1 repeats str out =
     (if cflag o1 \<and> repeats = INT_MAX then Inl Overflow
      else Inr (out @
        (if cflag o1 then pad4 (repeats + 1) @ 32 # str @ [WNL] else []) @
        (if dflag o1 \<and> repeats \<noteq> 0 \<or> uflag o1 \<and> repeats = 0 then str @ [WNL] else [])))"

section \<open>Skipping fields and characters\<close>

function skip_fields :: "wlibc \<Rightarrow> int \<Rightarrow> int \<Rightarrow> int list \<Rightarrow> int list" where
  "skip_fields lc nfields numf str =
     (if str = [] \<or> nfields = numf then str
      else skip_fields lc (nfields + 1) numf
             (dropWhile (\<lambda>c. \<not> iswblank lc c) (dropWhile (iswblank lc) str)))"
  by pat_completeness auto
termination
proof (relation "measure (\<lambda>(lc, n, numf, str). length str)", goal_cases)
  case (2 lc n numf str)
  then obtain c s where s: "str = c # s" by (cases str) auto
  have le: "length (dropWhile (\<lambda>c. \<not> iswblank lc c) xs) \<le> length xs" "length (dropWhile (iswblank lc) xs) \<le> length xs" for xs
    by (rule length_dropWhile_le)+
  show ?case
  proof (cases "iswblank lc c")
    case True
    then show ?thesis using s le(1) [of "dropWhile (iswblank lc) s"] le(2) [of s] by simp
  next
    case False
    then show ?thesis using s le(1) [of s] by simp
  qed
qed simp

declare skip_fields.simps [simp del]

fun skip_chars :: "int \<Rightarrow> int list \<Rightarrow> int list" where
  "skip_chars n [] = []"
| "skip_chars n (c # str) = (if n = 0 then c # str else skip_chars (n - 1) str)"

definition uniq_skip :: "wlibc \<Rightarrow> uniq_opts \<Rightarrow> int list \<Rightarrow> int list" where
  "uniq_skip lc o1 str = skip_chars (numchars o1) (skip_fields lc 0 (numfields o1) str)"

section \<open>The loop\<close>

definition shows_first :: "uniq_opts \<Rightarrow> bool" where
  "shows_first o1 = (\<not> cflag o1 \<and> uflag o1 \<and> dflag o1)"

definition shows_last :: "uniq_opts \<Rightarrow> bool" where
  "shows_last o1 = (cflag o1 \<or> \<not> dflag o1 \<or> \<not> uflag o1)"

text \<open>What \<open>uniq_getline\<close> reads is one line, cut to the buffer.\<close>

lemma drop_rest_text:
  "drop_rest (Some c) fp =
     (if c = WNL then (Some WNL, fp)
      else (if WNL \<in> set (wtext fp) then Some WNL else None, fp\<lparr>wtext := tl (dropWhile (\<lambda>x. x \<noteq> WNL) (wtext fp))\<rparr>))"
proof (induction "wtext fp" arbitrary: c fp)
  case Nil
  then show ?case by (cases fp) (simp add: drop_rest.simps getwc_def)
next
  case (Cons x xs)
  have "drop_rest (Some x) (fp\<lparr>wtext := xs\<rparr>) =
      (if x = WNL then (Some WNL, fp\<lparr>wtext := xs\<rparr>)
       else (if WNL \<in> set xs then Some WNL else None, fp\<lparr>wtext := tl (dropWhile (\<lambda>x. x \<noteq> WNL) xs)\<rparr>))"
    using Cons.hyps(1) [of "fp\<lparr>wtext := xs\<rparr>" x] by simp
  then show ?case using Cons.hyps(2) [symmetric]
    by (cases "c = WNL") (auto simp: drop_rest.simps [of "Some c"] drop_rest.simps [of "Some WNL"] getwc_def)
qed

lemma uniq_fill_line:
  "bufpos + 2 \<le> buflen \<Longrightarrow>
   fill_line buflen bufpos ch fp =
     (let l = takeWhile (\<lambda>x. x \<noteq> WNL) (wtext fp); r = dropWhile (\<lambda>x. x \<noteq> WNL) (wtext fp); room = buflen - 2 - bufpos in
      if length l < room then (l, if r = [] then None else Some WNL, fp\<lparr>wtext := tl r\<rparr>)
      else (take room l, if room = 0 then ch else Some (l ! (room - 1)), fp\<lparr>wtext := drop room (wtext fp)\<rparr>))"
proof (induction "wtext fp" arbitrary: bufpos ch fp)
  case Nil
  then show ?case by (cases fp) (auto simp: fill_line.simps [of buflen] getwc_def Let_def)
next
  case (Cons x xs)
  note w = Cons.hyps(2) [symmetric]
  show ?case
  proof (cases "bufpos + 2 = buflen")
    case True
    then show ?thesis by (cases fp) (auto simp: fill_line.simps [of buflen bufpos] Let_def)
  next
    case False
    show ?thesis
    proof (cases "x = WNL")
      case True
      then show ?thesis using False Cons.prems w
        by (auto simp: fill_line.simps [of buflen bufpos] getwc_def Let_def)
    next
      case xn: False
      define room where "room = buflen - 2 - Suc bufpos"
      have rm: "buflen - 2 - bufpos = Suc room" using False Cons.prems by (simp add: room_def)
      have b: "bufpos + 1 + 2 \<le> buflen" using False Cons.prems by simp
      have IH: "fill_line buflen (Suc bufpos) (Some x) (fp\<lparr>wtext := xs\<rparr>) =
         (let l = takeWhile (\<lambda>x. x \<noteq> WNL) xs; r = dropWhile (\<lambda>x. x \<noteq> WNL) xs in
          if length l < room then (l, if r = [] then None else Some WNL, fp\<lparr>wtext := tl r\<rparr>)
          else (take room l, if room = 0 then Some x else Some (l ! (room - 1)), fp\<lparr>wtext := drop room xs\<rparr>))"
        using Cons.hyps(1) [of "fp\<lparr>wtext := xs\<rparr>" "Suc bufpos" "Some x"] b by (simp add: room_def Let_def)
      show ?thesis
        unfolding rm fill_line.simps [of buflen bufpos]
        using False xn w IH by (auto simp: getwc_def Let_def nth_Cons')
    qed
  qed
qed

lemma uniq_getline_lines:
  assumes "2 < buflen"
  shows "uniq_getline buflen fp =
    (case lines_of WNL (wtext fp) of
       [] \<Rightarrow> (None, fp)
     | l # ls \<Rightarrow> (Some (cstr (take (buflen - 2) l)), fp\<lparr>wtext := tl (dropWhile (\<lambda>x. x \<noteq> WNL) (wtext fp))\<rparr>))"
proof (cases "wtext fp")
  case Nil
  then show ?thesis using assms by (cases fp) (simp add: uniq_getline_def uniq_fill_line drop_rest.simps)
next
  case (Cons x xs)
  define w where "w = wtext fp"
  define l where "l = takeWhile (\<lambda>x. x \<noteq> WNL) w"
  define r where "r = dropWhile (\<lambda>x. x \<noteq> WNL) w"
  define room where "room = buflen - 2"
  have room: "0 < room" using assms by (simp add: room_def)
  have lr: "w = l @ r" by (simp add: l_def r_def)
  have nl: "WNL \<notin> set l" by (auto simp: l_def dest: set_takeWhileD)
  have r: "r = [] \<or> r = WNL # tl r" 
  proof (cases r)
    case (Cons a s)
    then have "a = WNL" using dropWhile_eq_Cons_conv [of "\<lambda>x. x \<noteq> WNL" w a s] by (simp add: r_def)
    then show ?thesis using Cons by simp
  qed simp
  have ls: "\<exists>ls. lines_of WNL w = l # ls" using Cons by (simp add: w_def l_def)
  have u: "uniq_getline buflen fp = (Some (cstr (take room l)), fp\<lparr>wtext := tl r\<rparr>)"
  proof (cases "length l < room")
    case True
    then have f: "fill_line buflen 0 None fp = (l, if r = [] then None else Some WNL, fp\<lparr>wtext := tl r\<rparr>)"
      using uniq_fill_line [of 0 buflen None fp] assms
      by (simp add: w_def [symmetric] l_def [symmetric] r_def [symmetric] room_def [symmetric] Let_def)
    have "r = [] \<Longrightarrow> l \<noteq> []" using lr Cons by (auto simp: w_def)
    then show ?thesis using f True by (auto simp: uniq_getline_def drop_rest.simps)
  next
    case False
    then have f: "fill_line buflen 0 None fp = (take room l, Some (l ! (room - 1)), fp\<lparr>wtext := drop room w\<rparr>)"
      using uniq_fill_line [of 0 buflen None fp] assms room
      by (simp add: w_def [symmetric] l_def [symmetric] r_def [symmetric] room_def [symmetric] Let_def)
    have nth: "l ! (room - 1) \<noteq> WNL" using nl False room nth_mem [of "room - 1" l] by fastforce
    have d: "drop room w = drop room l @ r" using False lr by simp
    have "dropWhile (\<lambda>x. x \<noteq> WNL) r = r" using r by (cases r) simp_all
    then have "dropWhile (\<lambda>x. x \<noteq> WNL) (drop room w) = r"
      unfolding d using nl by (subst dropWhile_append2) (auto dest: in_set_dropD)
    then show ?thesis using f nth room False by (auto simp: uniq_getline_def drop_rest_text)
  qed
  show ?thesis using u ls by (auto simp: w_def [symmetric] r_def [symmetric] room_def)
qed

lemma uniq_getline_shrinks:
  "uniq_getline UNIQ_MAXLINELEN fp = (Some l, fp') \<Longrightarrow> length (wtext fp') < length (wtext fp)"
proof -
  assume a: "uniq_getline UNIQ_MAXLINELEN fp = (Some l, fp')"
  then have "wtext fp \<noteq> []" by (auto simp: uniq_getline_lines UNIQ_MAXLINELEN_def)
  moreover have "wtext fp' = tl (dropWhile (\<lambda>x. x \<noteq> WNL) (wtext fp))"
    using a by (auto simp: uniq_getline_lines UNIQ_MAXLINELEN_def split: list.splits)
  ultimately show ?thesis
    using length_dropWhile_le [of "\<lambda>x. x \<noteq> WNL" "wtext fp"] by (cases "wtext fp") auto
qed

text \<open>What two lines are compared by.\<close>

definition uniq_part :: "wlibc \<Rightarrow> uniq_opts \<Rightarrow> int list \<Rightarrow> int list" where
  "uniq_part lc o1 line = (if numfields o1 \<noteq> 0 \<or> numchars o1 \<noteq> 0 then uniq_skip lc o1 line else line)"

function uniq_loop ::
    "wlibc \<Rightarrow> uniq_opts \<Rightarrow> int list \<Rightarrow> int \<Rightarrow> wfile \<Rightarrow> int list \<Rightarrow> uniq_stop + int list \<times> int \<times> wfile \<times> int list" where
  "uniq_loop lc o1 prevline repeats fp out =
     (case uniq_getline UNIQ_MAXLINELEN fp of
        (None, fp') \<Rightarrow> Inr (prevline, repeats, fp', out)
      | (Some thisline, fp') \<Rightarrow>
          if compare_lines lc (iflag o1) (uniq_part lc o1 thisline) (uniq_part lc o1 prevline) \<noteq> 0 then
            bind_r (if shows_last o1 then uniq_show o1 repeats prevline out else Inr out) (\<lambda>out1.
            bind_r (if shows_first o1 then uniq_show o1 repeats thisline out1 else Inr out1) (\<lambda>out2.
              uniq_loop lc o1 thisline 0 fp' out2))
          else if repeats = INT_MAX then Inl Overflow
          else uniq_loop lc o1 prevline (repeats + 1) fp' out)"
  by pat_completeness auto
termination
  by (relation "measure (\<lambda>(lc, o1, prevline, repeats, fp, out). length (wtext fp))")
    (auto dest: uniq_getline_shrinks [OF sym])

declare uniq_loop.simps [simp del]

text \<open>From the first line to the end of the program; \<open>nm\<close> names the input in a diagnostic.\<close>

definition uniq_run :: "wlibc \<Rightarrow> uniq_opts \<Rightarrow> string \<Rightarrow> wfile \<Rightarrow> uniq_stop + int list" where
  "uniq_run lc o1 nm fp =
     (if \<not> mem lc then Inl (Leave (Errmsg ''malloc'') [])
      else case uniq_getline UNIQ_MAXLINELEN fp of
        (None, fp') \<Rightarrow> if werr fp' then Inl (Leave (Errmsg nm) []) else Inr []
      | (Some prevline, fp') \<Rightarrow>
          bind_r (if shows_first o1 then uniq_show o1 0 prevline [] else Inr []) (\<lambda>out1.
          bind_r (uniq_loop lc o1 prevline 0 fp' out1) (\<lambda>(prev', repeats, fp'', out2).
            if werr fp'' then Inl (Leave (Errmsg nm) out2)
            else if shows_last o1 then uniq_show o1 repeats prev' out2 else Inr out2)))"

section \<open>The main program\<close>

definition uniq_usage :: uniq_stop where
  "uniq_usage = Leave (Plain ''usage: uniq [-c | -d | -u] [-i] [-f fields] [-s chars] [input [output]]'') []"

text \<open>The old options \<open>-number\<close> and \<open>+number\<close> become \<open>-f\<close> and \<open>-s\<close>.\<close>

fun obsolete :: "wlibc \<Rightarrow> string list \<Rightarrow> uniq_stop + string list" where
  "obsolete lc [] = Inr []"
| "obsolete lc (ap # argv) =
     (if ap = [] \<or> hd ap \<noteq> CHR ''-'' \<and> hd ap \<noteq> CHR ''+'' then Inr (ap # argv)
      else if hd ap = CHR ''-'' \<and> tl ap \<noteq> [] \<and> hd (tl ap) = CHR ''-'' then Inr (ap # argv)
      else if tl ap = [] \<or> \<not> c_isdigit (hd (tl ap)) then bind_r (obsolete lc argv) (\<lambda>r. Inr (ap # r))
      else if \<not> mem lc then Inl (Leave (Errmsg ''malloc'') [])
      else bind_r (obsolete lc argv)
        (\<lambda>r. Inr ((CHR ''-'' # (if hd ap = CHR ''+'' then CHR ''s'' else CHR ''f'') # tl ap) # r)))"

text \<open>\<open>numfields = strtol(optarg, &p, 10)\<close>: the \<open>long\<close> is cut to 32 bits; a negative value, or text
  after the number, is refused.\<close>

definition to_int32 :: "int \<Rightarrow> int" where
  "to_int32 v = (v + 2 ^ 31) mod 2 ^ 32 - 2 ^ 31"

definition uniq_number :: "string \<Rightarrow> string \<Rightarrow> uniq_stop + int" where
  "uniq_number what optarg =
     (case strtol_10 (- (2 ^ 63)) (2 ^ 63 - 1) optarg of (v, p, _) \<Rightarrow>
        let n = to_int32 v in
        if n < 0 \<or> p \<noteq> [] then Inl (Leave (Errxmsg (''illegal '' @ what @ '' skip value: '' @ optarg)) []) else Inr n)"

fun uniq_options :: "optev list \<Rightarrow> uniq_opts \<Rightarrow> uniq_stop + uniq_opts" where
  "uniq_options [] o1 = Inr o1"
| "uniq_options (Opt c arg # evs) o1 =
     (if c = CHR ''c'' then uniq_options evs (o1\<lparr>cflag := True\<rparr>)
      else if c = CHR ''d'' then uniq_options evs (o1\<lparr>dflag := True\<rparr>)
      else if c = CHR ''i'' then uniq_options evs (o1\<lparr>iflag := True\<rparr>)
      else if c = CHR ''f'' then
        bind_r (uniq_number ''field'' (the arg)) (\<lambda>n. uniq_options evs (o1\<lparr>numfields := n\<rparr>))
      else if c = CHR ''s'' then
        bind_r (uniq_number ''character'' (the arg)) (\<lambda>n. uniq_options evs (o1\<lparr>numchars := n\<rparr>))
      else uniq_options evs (o1\<lparr>uflag := True\<rparr>))"
| "uniq_options (_ # evs) o1 = Inl uniq_usage"

text \<open>Without \<open>-c\<close>, \<open>-d\<close> or \<open>-u\<close> both \<open>dflag\<close> and \<open>uflag\<close> are set.\<close>

definition default_flags :: "uniq_opts \<Rightarrow> uniq_stop + uniq_opts" where
  "default_flags o1 =
     (if cflag o1 then (if dflag o1 \<or> uflag o1 then Inl uniq_usage else Inr o1)
      else if \<not> dflag o1 \<and> \<not> uflag o1 then Inr (o1\<lparr>dflag := True, uflag := True\<rparr>)
      else Inr o1)"

text \<open>The operands: the input (\<open>-\<close> or none is the standard input) and the output, which is opened for
  writing, and so emptied, before anything is read. \<open>can_write\<close> says which files open for writing.\<close>

definition uniq_input :: "wfile \<Rightarrow> (string \<Rightarrow> wfile option) \<Rightarrow> (string \<Rightarrow> bool) \<Rightarrow> string list \<Rightarrow> uniq_stop + string \<times> wfile" where
  "uniq_input fp0 fs can_write argv =
     (if length argv > 2 then Inl uniq_usage
      else bind_r
        (if argv = [] \<or> hd argv = ''-'' then Inr (''stdin'', fp0)
         else case fs (hd argv) of None \<Rightarrow> Inl (Leave (Errmsg (hd argv)) []) | Some fp \<Rightarrow> Inr (hd argv, fp))
        (\<lambda>(nm, fp).
          if length argv < 2 then Inr (nm, fp)
          else if \<not> can_write (argv ! 1) then Inl (Leave (Errmsg (argv ! 1)) [])
          else Inr (nm, if hd argv \<noteq> ''-'' \<and> argv ! 1 = hd argv then fp\<lparr>wtext := []\<rparr> else fp)))"

text \<open>The output is what goes to the standard output, or to the second operand. \<open>None\<close> stands for a
  count out of range.\<close>

definition uniq_main ::
    "wlibc \<Rightarrow> wfile \<Rightarrow> (string \<Rightarrow> wfile option) \<Rightarrow> (string \<Rightarrow> bool) \<Rightarrow> string list \<Rightarrow> woutcome option" where
  "uniq_main lc fp0 fs can_write args =
     (case
        bind_r (obsolete lc args) (\<lambda>args'.
          case getopt ''cdif:s:u'' args' of (evs, argv) \<Rightarrow>
            bind_r (uniq_options evs
                \<lparr>cflag = False, dflag = False, uflag = False, iflag = False, numfields = 0, numchars = 0\<rparr>) (\<lambda>o1.
            bind_r (default_flags o1) (\<lambda>o2.
            bind_r (uniq_input fp0 fs can_write argv) (\<lambda>(nm, fp). uniq_run lc o2 nm fp))))
      of
        Inl Overflow \<Rightarrow> None
      | Inl (Leave d out) \<Rightarrow> Some \<lparr>wout = out, wdiags = [d], wstatus = 1\<rparr>
      | Inr out \<Rightarrow> Some \<lparr>wout = out, wdiags = [], wstatus = 0\<rparr>)"

section \<open>The reference: runs of lines with one key\<close>

text \<open>The first line of every run of adjacent lines with the same key, and how many there are.\<close>

fun line_runs :: "('l \<Rightarrow> 'k) \<Rightarrow> 'l list \<Rightarrow> ('l \<times> nat) list" where
  "line_runs k [] = []"
| "line_runs k (x # xs) =
     (case line_runs k xs of
        [] \<Rightarrow> [(x, 1)]
      | (y, n) # rs \<Rightarrow> if k x = k y then (x, Suc n) # rs else (x, 1) # (y, n) # rs)"

text \<open>What the flags make of a run.\<close>

definition uniq_line :: "uniq_opts \<Rightarrow> int list \<times> nat \<Rightarrow> int list" where
  "uniq_line o1 r =
     (case r of (l, n) \<Rightarrow>
        if cflag o1 then pad4 (int n) @ 32 # l @ [WNL]
        else if n = 1 then (if uflag o1 then l @ [WNL] else [])
        else (if dflag o1 then l @ [WNL] else []))"

text \<open>The lines as the program holds them.\<close>

definition uniq_lines :: "int list \<Rightarrow> int list list" where
  "uniq_lines w = map (\<lambda>l. cstr (take 8190 l)) (lines_of WNL w)"

definition flags_ok :: "uniq_opts \<Rightarrow> bool" where
  "flags_ok o1 \<longleftrightarrow> (if cflag o1 then \<not> dflag o1 \<and> \<not> uflag o1 else dflag o1 \<or> uflag o1)"

lemma default_flags_ok: "default_flags o1 = Inr o2 \<Longrightarrow> flags_ok o2"
  by (auto simp: default_flags_def flags_ok_def split: if_splits)

lemma uniq_getline_uniq_lines:
  "uniq_getline UNIQ_MAXLINELEN fp =
     (case uniq_lines (wtext fp) of
        [] \<Rightarrow> (None, fp)
      | l # ls \<Rightarrow> (Some l, fp\<lparr>wtext := tl (dropWhile (\<lambda>x. x \<noteq> WNL) (wtext fp))\<rparr>))"
  by (simp add: uniq_getline_lines UNIQ_MAXLINELEN_def uniq_lines_def split: list.splits)

lemma uniq_lines_rest: "uniq_lines w = l # ls \<Longrightarrow> uniq_lines (tl (dropWhile (\<lambda>x. x \<noteq> WNL) w)) = ls"
  by (cases w) (auto simp: uniq_lines_def)

text \<open>The program keeps a run open: its first line and the number of repetitions so far.\<close>

fun open_runs :: "('l \<Rightarrow> 'k) \<Rightarrow> 'l \<Rightarrow> nat \<Rightarrow> 'l list \<Rightarrow> ('l \<times> nat) list" where
  "open_runs k p n [] = [(p, n)]"
| "open_runs k p n (x # xs) = (if k x = k p then open_runs k p (Suc n) xs else (p, n) # open_runs k x 1 xs)"

lemma open_runs_add:
  "open_runs k p (n + m) xs = (case open_runs k p n xs of (y, i) # rs \<Rightarrow> (y, i + m) # rs)"
proof (induction xs arbitrary: n)
  case (Cons x xs)
  then show ?case using Cons.IH [of "Suc n"] by simp
qed simp

lemma open_runs_hd: "\<exists>i rs. open_runs k p n xs = (p, i) # rs"
  by (induction xs arbitrary: n) auto

lemma open_runs_key: "k p = k q \<Longrightarrow> tl (open_runs k p n xs) = tl (open_runs k q n xs) \<and>
    snd (hd (open_runs k p n xs)) = snd (hd (open_runs k q n xs))"
  by (induction xs arbitrary: n) auto

lemma runs_open: "line_runs k (p # xs) = open_runs k p 1 xs"
proof (induction xs arbitrary: p)
  case (Cons x xs)
  obtain i rs where r: "open_runs k x 1 xs = (x, i) # rs" using open_runs_hd [of k x 1 xs] by blast
  have r1: "line_runs k (x # xs) = (x, i) # rs" using Cons r by simp
  show ?case
  proof (cases "k x = k p")
    case True
    obtain j rs' where r': "open_runs k p 1 xs = (p, j) # rs'" using open_runs_hd [of k p 1 xs] by blast
    have "rs' = rs" "j = i" using open_runs_key [of k p x 1 xs] True r r' by simp_all
    then have "open_runs k p (Suc 1) xs = (p, Suc i) # rs" using open_runs_add [of k p 1 1 xs] r' by simp
    then show ?thesis using True r1 by (simp del: line_runs.simps(2) add: line_runs.simps(2) [of k p])
  next
    case False
    then show ?thesis using r r1 by (simp del: line_runs.simps(2) add: line_runs.simps(2) [of k p])
  qed
qed simp

section \<open>The loop makes the runs\<close>

lemma shows_last_first: "shows_last o1 \<longleftrightarrow> \<not> shows_first o1"
  by (auto simp: shows_last_def shows_first_def)

lemma uniq_show_line:
  "flags_ok o1 \<Longrightarrow> 1 \<le> n \<Longrightarrow> int n \<le> INT_MAX \<Longrightarrow>
     uniq_show o1 (int n - 1) l out = Inr (out @ uniq_line o1 (l, n))"
  by (auto simp: uniq_show_def uniq_line_def flags_ok_def split: if_splits)

lemma uniq_show_first:
  "shows_first o1 \<Longrightarrow> uniq_show o1 r l out = Inr (out @ uniq_line o1 (l, n))"
  by (auto simp: uniq_show_def uniq_line_def shows_first_def)

lemma uniq_loop_runs:
  assumes "collates lc key" "flags_ok o1"
  defines "k \<equiv> \<lambda>l. line_key lc key (iflag o1) (uniq_part lc o1 l)"
  shows "1 \<le> n \<Longrightarrow> int (n + length (uniq_lines (wtext fp))) \<le> INT_MAX \<Longrightarrow>
    \<exists>p' n' fp'. uniq_loop lc o1 p (int n - 1) fp out =
      Inr (p', int n' - 1, fp', out @ concat (map (uniq_line o1)
        (if shows_first o1 then tl (open_runs k p n (uniq_lines (wtext fp)))
         else butlast (open_runs k p n (uniq_lines (wtext fp)))))) \<and>
      last (open_runs k p n (uniq_lines (wtext fp))) = (p', n') \<and> werr fp' = werr fp \<and> 1 \<le> n' \<and> int n' \<le> INT_MAX"
proof (induction "uniq_lines (wtext fp)" arbitrary: p n fp out)
  case Nil
  then show ?case
    by (auto simp: uniq_loop.simps [of lc o1 p] uniq_getline_uniq_lines Nil.hyps [symmetric])
next
  case (Cons l ls)
  define fp1 where "fp1 = fp\<lparr>wtext := tl (dropWhile (\<lambda>x. x \<noteq> WNL) (wtext fp))\<rparr>"
  have rest: "uniq_lines (wtext fp1) = ls" "werr fp1 = werr fp"
    using uniq_lines_rest [OF Cons.hyps(2) [symmetric]] by (simp_all add: fp1_def)
  have get: "uniq_getline UNIQ_MAXLINELEN fp = (Some l, fp1)"
    by (simp add: uniq_getline_uniq_lines Cons.hyps(2) [symmetric] fp1_def)
  have cmp: "compare_lines lc (iflag o1) (uniq_part lc o1 l) (uniq_part lc o1 p) \<noteq> 0 \<longleftrightarrow> k l \<noteq> k p"
    using compare_lines_key(2) [OF assms(1)] by (simp add: k_def)
  have b: "int (n + length ls) < INT_MAX" using Cons.prems(2) Cons.hyps(2) [symmetric] by simp
  show ?case
  proof (cases "k l = k p")
    case True
    then have "uniq_loop lc o1 p (int n - 1) fp out = uniq_loop lc o1 p (int (Suc n) - 1) fp1 out"
      using get cmp b by (simp add: uniq_loop.simps [of lc o1 p _ fp])
    moreover have "open_runs k p n (l # ls) = open_runs k p (Suc n) ls" using True by simp
    ultimately show ?thesis
      using Cons.hyps(1) [OF rest(1) [symmetric], of "Suc n" p out, unfolded rest] b
      unfolding Cons.hyps(2) [symmetric] by (cases "shows_first o1") simp_all
  next
    case False
    define out' where "out' = out @ (if shows_first o1 then uniq_line o1 (l, 1) else uniq_line o1 (p, n))"
    have "uniq_loop lc o1 p (int n - 1) fp out = uniq_loop lc o1 l (int 1 - 1) fp1 out'"
      using get cmp False uniq_show_line [OF assms(2) Cons.prems(1), of p out] uniq_show_first [of o1 "int n - 1" l out 1] b
      by (simp add: uniq_loop.simps [of lc o1 p _ fp] shows_last_first out'_def)
    moreover obtain i rs where "open_runs k l 1 ls = (l, i) # rs" using open_runs_hd [of k l 1 ls] by blast
    moreover have "shows_first o1 \<Longrightarrow> uniq_line o1 (l, 1) = uniq_line o1 (l, i)"
      by (simp add: uniq_line_def shows_first_def)
    ultimately show ?thesis
      using Cons.hyps(1) [OF rest(1) [symmetric], of 1 l out', unfolded rest] b False
      unfolding Cons.hyps(2) [symmetric] by (auto simp: out'_def)
  qed
qed

lemma uniq_run_runs:
  assumes "collates lc key" "flags_ok o1" "mem lc" "\<not> werr fp" "int (length (uniq_lines (wtext fp))) \<le> INT_MAX"
  shows "uniq_run lc o1 nm fp = Inr (concat (map (uniq_line o1)
    (line_runs (\<lambda>l. line_key lc key (iflag o1) (uniq_part lc o1 l)) (uniq_lines (wtext fp)))))"
proof (cases "uniq_lines (wtext fp)")
  case Nil
  then show ?thesis using assms by (simp add: uniq_run_def uniq_getline_uniq_lines)
next
  case (Cons l ls)
  define k where "k = (\<lambda>l. line_key lc key (iflag o1) (uniq_part lc o1 l))"
  define fp1 where "fp1 = fp\<lparr>wtext := tl (dropWhile (\<lambda>x. x \<noteq> WNL) (wtext fp))\<rparr>"
  define R where "R = open_runs k l 1 ls"
  have rest: "uniq_lines (wtext fp1) = ls" "werr fp1 = werr fp"
    using uniq_lines_rest [OF Cons] by (simp_all add: fp1_def)
  have get: "uniq_getline UNIQ_MAXLINELEN fp = (Some l, fp1)"
    by (simp add: uniq_getline_uniq_lines Cons fp1_def)
  define out where "out = (if shows_first o1 then uniq_line o1 (l, 1) else [])"
  have b: "int (1 + length (uniq_lines (wtext fp1))) \<le> INT_MAX" using assms(5) Cons rest by simp
  obtain p' n' fp' where lp: "uniq_loop lc o1 l 0 fp1 out =
      Inr (p', int n' - 1, fp', out @ concat (map (uniq_line o1) (if shows_first o1 then tl R else butlast R)))"
      "last R = (p', n')" "werr fp' = werr fp" "1 \<le> n'" "int n' \<le> INT_MAX"
    using uniq_loop_runs [OF assms(1,2) _ b, of l out, folded k_def, unfolded rest, folded R_def] by auto
  obtain i rs where R: "R = (l, i) # rs" using open_runs_hd [of k l 1 ls] by (auto simp: R_def)
  have fst_run: "shows_first o1 \<Longrightarrow> uniq_line o1 (l, 1) = uniq_line o1 (l, i)"
    by (simp add: uniq_line_def shows_first_def)
  have "line_runs k (l # ls) = R" by (simp only: runs_open R_def)
  moreover have "uniq_run lc o1 nm fp = Inr (concat (map (uniq_line o1) R))"
  proof (cases "shows_first o1")
    case True
    then show ?thesis using get lp assms(3,4) fst_run R uniq_show_first [OF True, of 0 l "[]" 1]
      by (simp add: uniq_run_def shows_last_first out_def)
  next
    case False
    have "R = butlast R @ [(p', n')]" using lp(2) R by (metis append_butlast_last_id list.distinct(1))
    then have "concat (map (uniq_line o1) R) = concat (map (uniq_line o1) (butlast R)) @ uniq_line o1 (p', n')"
      by (metis (no_types, lifting) concat.simps concat_append map_append list.simps(8,9) append_Nil2)
    then show ?thesis using False get lp assms(3,4) uniq_show_line [OF assms(2) lp(4,5), of p']
      by (simp add: uniq_run_def shows_last_first out_def)
  qed
  ultimately show ?thesis unfolding k_def [symmetric] Cons by simp
qed

section \<open>Properties\<close>

text \<open>C14: \<^verbatim>\<open>uniq\<close> compares adjacent lines. If the input can be read to its end and has at most
  \<open>INT_MAX\<close> lines, the output is made of the runs of adjacent lines whose parts after the skipped fields and
  characters collate equal (in lower case under \<^verbatim>\<open>-i\<close>): the first line of every run, only of the runs
  of more than one line with \<^verbatim>\<open>-d\<close>, only of the runs of one line with \<^verbatim>\<open>-u\<close>, and with its length in four
  places before it with \<^verbatim>\<open>-c\<close>. Lines are cut after 8190 characters.\<close>

theorem uniq_filters_runs:
  assumes "collates lc key" "mem lc" "obsolete lc args = Inr args'"
    "getopt ''cdif:s:u'' args' = (evs, argv)"
    "uniq_options evs \<lparr>cflag = False, dflag = False, uflag = False, iflag = False, numfields = 0, numchars = 0\<rparr> = Inr o1"
    "default_flags o1 = Inr opts" "uniq_input fp0 fs can_write argv = Inr (nm, fp)"
    "\<not> werr fp" "int (length (lines_of WNL (wtext fp))) \<le> INT_MAX"
  shows "uniq_main lc fp0 fs can_write args = Some
    \<lparr>wout = concat (map (uniq_line opts)
       (line_runs (\<lambda>l. line_key lc key (iflag opts) (uniq_part lc opts l)) (uniq_lines (wtext fp)))),
     wdiags = [], wstatus = 0\<rparr>"
proof -
  have "int (length (uniq_lines (wtext fp))) \<le> INT_MAX" using assms(9) by (simp add: uniq_lines_def)
  then have "uniq_run lc opts nm fp = Inr (concat (map (uniq_line opts)
      (line_runs (\<lambda>l. line_key lc key (iflag opts) (uniq_part lc opts l)) (uniq_lines (wtext fp)))))"
    using uniq_run_runs [OF assms(1) default_flags_ok [OF assms(6)] assms(2,8)] by simp
  then show ?thesis using assms(3-7) by (simp add: uniq_main_def)
qed

text \<open>\<^verbatim>\<open>uniq -c\<close> on the lines \<open>a\<close>, \<open>a\<close>, \<open>b\<close>.\<close>

theorem uniq_filters_runs_witness:
  "uniq_main c_wlocale \<lparr>wtext = [97, 10, 97, 10, 98], werr = False\<rparr> (\<lambda>_. None) (\<lambda>_. False) [''-c''] =
     Some \<lparr>wout = [32, 32, 32, 50, 32, 97, 10, 32, 32, 32, 49, 32, 98, 10], wdiags = [], wstatus = 0\<rparr>"
proof -
  let ?o = "\<lparr>cflag = True, dflag = False, uflag = False, iflag = False, numfields = 0, numchars = 0\<rparr>"
  have r: "replicate 3 (32 :: int) = [32, 32, 32]" by (simp add: numeral_3_eq_3)
  have g: "getopt ''cdif:s:u'' [''-c''] = ([Opt CHR ''c'' None], [])" by (simp add: getopt.simps)
  have l: "lines_of WNL [97, 10, 97, 10, 98] = [[97], [97], [98]]" by simp
  have i: "uniq_input \<lparr>wtext = [97, 10, 97, 10, 98], werr = False\<rparr> (\<lambda>_. None) (\<lambda>_. False) [] =
      Inr (''stdin'', \<lparr>wtext = [97, 10, 97, 10, 98], werr = False\<rparr>)"
    by (simp add: uniq_input_def)
  have "uniq_lines [97, 10, 97, 10, 98] = [[97], [97], [98]]" by (simp add: uniq_lines_def cstr_def)
  then show ?thesis
    using uniq_filters_runs [OF wcscmp_collates, of "[''-c'']" "[''-c'']" "[Opt CHR ''c'' None]" "[]" ?o ?o, OF _ _ g _ _ i] l
    by (simp add: c_isdigit_def default_flags_def uniq_line_def pad4_def show_nat.simps digit_char_def line_key_def
        uniq_part_def r)
qed

end
