(* ===== verification/Expand.thy ===== *)
theory Expand
  imports Text_Lib
begin

text \<open>
  \<^verbatim>\<open>text_cmds-88/expand/expand.c\<close>: the whole program, with the tab list parser that
  \<^verbatim>\<open>text_cmds-88/unexpand/unexpand.c\<close> has too. Columns are C \<open>int\<close>s: the state keeps the largest value
  they take, and a run in which it passes \<open>INT_MAX\<close> ends in \<open>Overflow\<close>.
\<close>

section \<open>Stops of the programs, and the tab list\<close>

datatype tab_stop = Overflow | Leave diag

abbreviation bad_spec :: tab_stop where "bad_spec \<equiv> Leave (Errxmsg ''bad tab stop spec'')"

text \<open>\<open>while (*cp >= '0' && *cp <= '9') i = i * 10 + *cp++ - '0'\<close>\<close>

fun scan_number :: "int \<Rightarrow> string \<Rightarrow> tab_stop + int \<times> string" where
  "scan_number i [] = Inr (i, [])"
| "scan_number i (c # cp) =
     (let d = int (of_char c) in
      if 48 \<le> d \<and> d \<le> 57 then
        if i * 10 + d > INT_MAX then Inl Overflow else scan_number (i * 10 + d - 48) cp
      else Inr (i, c # cp))"

lemma scan_number_rest: "scan_number i cp = Inr (j, cp') \<Longrightarrow> length cp' \<le> length cp"
  by (induction i cp rule: scan_number.induct) (auto simp: Let_def split: if_splits)

function getstops_loop :: "wlibc \<Rightarrow> string \<Rightarrow> int list \<Rightarrow> tab_stop + int list" where
  "getstops_loop lc cp tabstops =
     bind_r (scan_number 0 cp) (\<lambda>(i, cp').
       if i \<le> 0 then Inl bad_spec
       else if tabstops \<noteq> [] \<and> i \<le> last tabstops then Inl bad_spec
       else if length tabstops = 100 then Inl (Leave (Errxmsg ''too many tab stops''))
       else if cp' = [] then Inr (tabstops @ [i])
       else if hd cp' \<noteq> CHR '','' \<and> \<not> iswblank lc (of_char (hd cp')) then Inl bad_spec
       else getstops_loop lc (tl cp') (tabstops @ [i]))"
  by pat_completeness auto
termination
  by (relation "measure (\<lambda>(lc, cp, tabstops). length cp)")
    (auto dest!: scan_number_rest simp: neq_Nil_conv)

declare getstops_loop.simps [simp del]

definition getstops :: "wlibc \<Rightarrow> string \<Rightarrow> tab_stop + int list" where
  "getstops lc cp = getstops_loop lc cp []"

text \<open>A tab list that is accepted is one to a hundred increasing positive columns.\<close>

definition stops_ok :: "int list \<Rightarrow> bool" where
  "stops_ok ts \<longleftrightarrow> length ts \<le> 100 \<and> sorted_wrt (<) ts \<and> (\<forall>t \<in> set ts. 0 < t \<and> t \<le> INT_MAX)"

lemma scan_number_bound:
  "scan_number i cp = Inr (j, cp') \<Longrightarrow> 0 \<le> i \<Longrightarrow> i \<le> INT_MAX \<Longrightarrow> 0 \<le> j \<and> j \<le> INT_MAX"
  by (induction i cp rule: scan_number.induct) (auto simp: Let_def split: if_splits)

lemma getstops_loop_ok:
  "getstops_loop lc cp ts = Inr ts' \<Longrightarrow> stops_ok ts \<Longrightarrow> stops_ok ts' \<and> ts' \<noteq> []"
proof (induction lc cp ts rule: getstops_loop.induct)
  case (1 lc cp ts)
  obtain i cp' where i: "scan_number 0 cp = Inr (i, cp')" "\<not> i \<le> 0" "\<not> (ts \<noteq> [] \<and> i \<le> last ts)" "length ts \<noteq> 100"
    and r: "(if cp' = [] then Inr (ts @ [i])
       else if hd cp' \<noteq> CHR '','' \<and> \<not> iswblank lc (of_char (hd cp')) then Inl bad_spec
       else getstops_loop lc (tl cp') (ts @ [i])) = Inr ts'"
    using "1.prems"(1) by (subst (asm) getstops_loop.simps) (auto simp: bind_r_Inr split: if_splits)
  have "x < i" if "x \<in> set ts" for x
  proof -
    have "ts = butlast ts @ [last ts]" using that by (cases ts) auto
    then have "sorted_wrt (<) (butlast ts @ [last ts])" "x \<in> set (butlast ts @ [last ts])"
      using "1.prems"(2) that by (auto simp: stops_ok_def)
    then have "x \<le> last ts" by (auto simp: sorted_wrt_append)
    then show ?thesis using i(3) that by (cases ts) auto
  qed
  then have ok: "stops_ok (ts @ [i])"
    using "1.prems"(2) i(2,4) scan_number_bound [OF i(1)] by (auto simp: stops_ok_def sorted_wrt_append)
  show ?case
  proof (cases "cp' = []")
    case False
    then show ?thesis using r "1.IH" [OF i(1) refl i(2-4) False _ _ ok] by (auto split: if_splits)
  qed (use r ok in auto)
qed

section \<open>Expanding\<close>

record ex_state =
  column :: int
  ex_out :: "int list"
  ex_top :: int

definition ex_put :: "int list \<Rightarrow> int \<Rightarrow> ex_state \<Rightarrow> ex_state" where
  "ex_put w col st = \<lparr>column = col, ex_out = ex_out st @ w, ex_top = max (ex_top st) col\<rparr>"

lemma and_7: "(x :: int) AND 7 = x mod 8"
  using take_bit_eq_mask [of 3 x] by (simp add: take_bit_eq_mod mask_eq_exp_minus_1)

text \<open>\<open>do { putwchar(' '); column++; } while (column & 07)\<close>: the column it ends in.\<close>

function pad_eight :: "int \<Rightarrow> int" where
  "pad_eight col = (if (col + 1) AND 7 \<noteq> 0 then pad_eight (col + 1) else col + 1)"
  by pat_completeness auto
termination
proof (relation "measure (\<lambda>c. nat (7 - c mod 8))", goal_cases)
  case (2 c)
  then have "(c + 1) mod 8 \<noteq> 0" by (simp add: and_7)
  then show ?case by (simp, presburger)
qed simp

declare pad_eight.simps [simp del]

text \<open>\<open>do { putwchar(' '); column++; } while (((column - 1) % n) != (n - 1))\<close>; a tab stop is positive.\<close>

function pad_stop :: "int \<Rightarrow> int \<Rightarrow> int" where
  "pad_stop n col = (if 0 < n \<and> col mod n \<noteq> n - 1 then pad_stop n (col + 1) else col + 1)"
  by pat_completeness auto
termination
proof (relation "measure (\<lambda>(n, c). nat (n - 1 - c mod n))", goal_cases)
  case (2 n c)
  then have "c mod n < n - 1" using pos_mod_bound [of n c] by linarith
  moreover have "(c + 1) mod n = c mod n + 1"
    using 2 calculation pos_mod_sign [of n c] by (subst mod_add_left_eq [symmetric]) (simp add: mod_pos_pos_trivial)
  ultimately show ?case by simp
qed simp

declare pad_stop.simps [simp del]

text \<open>Both loops go to the next multiple.\<close>

lemma pad_stop_next: "0 < n \<Longrightarrow> pad_stop n col = (1 + col div n) * n"
proof (induction n col rule: pad_stop.induct)
  case (1 n col)
  show ?case
  proof (cases "col mod n = n - 1")
    case True
    have "col = n * (col div n) + col mod n" by simp
    then show ?thesis using 1 True by (simp add: pad_stop.simps [of n col] algebra_simps)
  next
    case False
    then have "col mod n < n - 1" using pos_mod_bound [of n col] 1 by linarith
    then have "(col + 1) div n = col div n"
      using 1 pos_mod_sign [of n col] int_div_pos_eq [of "col + 1" n "col div n" "col mod n + 1"] by simp
    then show ?thesis using 1 False by (simp add: pad_stop.simps [of n col])
  qed
qed

lemma pad_eight_next: "pad_eight col = (1 + col div 8) * 8"
proof (induction col rule: pad_eight.induct)
  case (1 col)
  have "(col + 1) mod 8 \<noteq> 0 \<Longrightarrow> (col + 1) div 8 = col div 8" by presburger
  then show ?case using 1 by (subst pad_eight.simps) (simp add: and_7, presburger)
qed

definition spaces :: "int \<Rightarrow> int list" where
  "spaces k = replicate (nat k) 32"

text \<open>The column a tab leads to: with no stop, one, or several.\<close>

definition tab_column :: "int list \<Rightarrow> int \<Rightarrow> int" where
  "tab_column tabstops col =
     (case tabstops of
        [] \<Rightarrow> pad_eight col
      | [n] \<Rightarrow> pad_stop n col
      | _ \<Rightarrow> (case dropWhile (\<lambda>t. \<not> t > col) tabstops of [] \<Rightarrow> col + 1 | t # _ \<Rightarrow> t))"

definition expand_char :: "wlibc \<Rightarrow> int list \<Rightarrow> int \<Rightarrow> ex_state \<Rightarrow> ex_state" where
  "expand_char lc tabstops wc st =
     (if wc = 9 then
        ex_put (spaces (tab_column tabstops (column st) - column st)) (tab_column tabstops (column st)) st
      else if wc = 8 then ex_put [8] (if column st \<noteq> 0 then column st - 1 else column st) st
      else if wc = 10 then ex_put [wc] 0 st
      else ex_put [wc] (if wcwidth lc wc > 0 then column st + wcwidth lc wc else column st) st)"

definition expand_text :: "wlibc \<Rightarrow> int list \<Rightarrow> int list \<Rightarrow> int list \<Rightarrow> ex_state" where
  "expand_text lc tabstops w out = fold (expand_char lc tabstops) w \<lparr>column = 0, ex_out = out, ex_top = 0\<rparr>"

section \<open>The main program\<close>

text \<open>The old syntax \<open>-number\<close>; every tab list replaces the one before.\<close>

fun old_stops :: "wlibc \<Rightarrow> string list \<Rightarrow> int list \<Rightarrow> tab_stop + int list \<times> string list" where
  "old_stops lc [] ts = Inr (ts, [])"
| "old_stops lc (a # args) ts =
     (if 2 \<le> length a \<and> hd a = CHR ''-'' \<and> c_isdigit (a ! 1)
      then bind_r (getstops lc (tl a)) (old_stops lc args)
      else Inr (ts, a # args))"

fun expand_options :: "wlibc \<Rightarrow> optev list \<Rightarrow> int list \<Rightarrow> tab_stop + int list" where
  "expand_options lc [] ts = Inr ts"
| "expand_options lc (Opt c arg # evs) ts = bind_r (getstops lc (the arg)) (expand_options lc evs)"
| "expand_options lc (_ # evs) ts = Inl (Leave (Plain ''usage: expand [-t tablist] [file ...]''))"

text \<open>One stream, with the name it has in a diagnostic: the text written so far, the diagnostics and the
  exit status go on.\<close>

definition expand_stream :: "wlibc \<Rightarrow> int list \<Rightarrow> string \<Rightarrow> wfile \<Rightarrow> woutcome \<Rightarrow> tab_stop + woutcome" where
  "expand_stream lc ts curfile fp r =
     (let st = expand_text lc ts (wtext fp) (wout r) in
      if ex_top st > INT_MAX then Inl Overflow
      else Inr (if werr fp then \<lparr>wout = ex_out st, wdiags = wdiags r @ [Warn curfile], wstatus = 1\<rparr>
                else r\<lparr>wout := ex_out st\<rparr>))"

fun expand_files :: "wlibc \<Rightarrow> int list \<Rightarrow> (string \<Rightarrow> wfile option) \<Rightarrow> string list \<Rightarrow> woutcome \<Rightarrow> tab_stop + woutcome" where
  "expand_files lc ts fs [] r = Inr r"
| "expand_files lc ts fs (nm # nms) r =
     (case fs nm of
        None \<Rightarrow> expand_files lc ts fs nms (r\<lparr>wdiags := wdiags r @ [Warn nm], wstatus := 1\<rparr>)
      | Some fp \<Rightarrow> bind_r (expand_stream lc ts nm fp r) (expand_files lc ts fs nms))"

text \<open>\<open>None\<close> stands for a column out of range.\<close>

definition finish_tabs :: "tab_stop + woutcome \<Rightarrow> woutcome option" where
  "finish_tabs r =
     (case r of
        Inl Overflow \<Rightarrow> None
      | Inl (Leave d) \<Rightarrow> Some \<lparr>wout = [], wdiags = [d], wstatus = 1\<rparr>
      | Inr r' \<Rightarrow> Some r')"

definition expand_main :: "wlibc \<Rightarrow> wfile \<Rightarrow> (string \<Rightarrow> wfile option) \<Rightarrow> string list \<Rightarrow> woutcome option" where
  "expand_main lc fp0 fs args =
     finish_tabs
       (bind_r (old_stops lc args []) (\<lambda>(ts, args').
          case getopt ''t:'' args' of (evs, argv) \<Rightarrow>
            bind_r (expand_options lc evs ts) (\<lambda>ts'.
              let r = \<lparr>wout = [], wdiags = [], wstatus = 0\<rparr> in
              if argv = [] then expand_stream lc ts' ''stdin'' fp0 r else expand_files lc ts' fs argv r)))"

section \<open>Properties\<close>

text \<open>C38: the tab list. Whatever \<^verbatim>\<open>getstops\<close> accepts is a table that fits the array of a hundred entries, of
  positive columns in strictly increasing order and within \<open>int\<close>; it is never empty.\<close>

theorem getstops_wellformed:
  assumes "getstops lc cp = Inr ts"
  shows "stops_ok ts \<and> ts \<noteq> []"
  using assms getstops_loop_ok [of lc cp "[]" ts] by (simp add: getstops_def stops_ok_def)

theorem getstops_wellformed_witness: "getstops c_wlocale ''4,8 16'' = Inr [4, 8, 16] \<and> stops_ok [4, 8, 16]"
proof -
  have "getstops c_wlocale ''4,8 16'' = Inr [4, 8, 16]"
    by (simp add: getstops_def getstops_loop.simps Let_def)
  then show ?thesis using getstops_wellformed [of c_wlocale "''4,8 16''"] by simp
qed

end
