(* ===== verification/Unexpand.thy ===== *)
theory Unexpand
  imports Expand
begin

text \<open>
  \<^verbatim>\<open>text_cmds-88/unexpand/unexpand.c\<close>: the whole program, and what \<^verbatim>\<open>expand\<close> makes of its output.
  \<open>ocol\<close> is the column of the output, \<open>dcol\<close> the one of the input; the difference is the blanks not
  yet written. The state keeps the largest value the arithmetic on columns takes.
\<close>

section \<open>State\<close>

record un_state =
  ocol :: int
  dcol :: int
  doneline :: bool
  un_out :: "int list"
  un_top :: int

definition un_limit :: "int list \<Rightarrow> int" where
  "un_limit tabstops = (if length tabstops = 1 then INT_MAX else last tabstops - 1)"

definition reach :: "int \<Rightarrow> un_state \<Rightarrow> un_state" where
  "reach v st = st\<lparr>un_top := max (un_top st) v\<rparr>"

text \<open>\<open>for (n = 0; tabstops[n] - 1 < col && n < nstops; n++)\<close>\<close>

definition stop_index :: "int list \<Rightarrow> int \<Rightarrow> nat" where
  "stop_index tabstops col = length (takeWhile (\<lambda>t. t - 1 < col) tabstops)"

section \<open>Blanks of the input\<close>

text \<open>A blank or a tab only moves \<open>dcol\<close>, and the loop goes on with the next character (the flag); past the
  last of several stops the line is done, and the character is written.\<close>

definition un_blank :: "int list \<Rightarrow> int \<Rightarrow> un_state \<Rightarrow> bool \<times> un_state" where
  "un_blank tabstops ch st =
     (if ch = 32 \<and> \<not> doneline st then
        (True, reach (dcol st + 1)
           (st\<lparr>dcol := dcol st + 1, doneline := (dcol st + 1 \<ge> un_limit tabstops)\<rparr>))
      else if ch = 9 then
        (if length tabstops = 1 then
           (let d = (1 + dcol st div hd tabstops) * hd tabstops in (True, reach d (st\<lparr>dcol := d\<rparr>)))
         else
           let n = stop_index tabstops (dcol st) in
           if n < length tabstops - 1 \<and> tabstops ! n - 1 < un_limit tabstops
           then (True, st\<lparr>dcol := tabstops ! n\<rparr>)
           else (False, st\<lparr>doneline := True\<rparr>))
      else (False, st))"

section \<open>Writing tabs and blanks\<close>

lemma next_multiple: "0 < n \<Longrightarrow> (c :: int) < (1 + c div n) * n"
proof -
  assume "0 < n"
  then have "c mod n < n" by (rule pos_mod_bound)
  moreover have "c div n * n + c mod n = c" by (rule div_mult_mod_eq)
  ultimately show ?thesis by (simp only: distrib_right mult_1)
qed

text \<open>\<open>while (((ocol + n) / n) <= (dcol / n)) { if (dcol - ocol < 2) break; \<dots> }\<close>; a stop is positive.\<close>

function tabs_one :: "int \<Rightarrow> un_state \<Rightarrow> un_state" where
  "tabs_one n st =
     (let st1 = reach (ocol st + n) st in
      if 0 < n \<and> (ocol st + n) div n \<le> dcol st div n \<and> \<not> dcol st - ocol st < 2
      then tabs_one n (reach ((1 + ocol st div n) * n)
             (st1\<lparr>ocol := (1 + ocol st div n) * n, un_out := un_out st @ [9]\<rparr>))
      else st1)"
  by pat_completeness auto
termination
proof (relation "measure (\<lambda>(n, st). nat (dcol st - ocol st))", goal_cases)
  case (2 n st st1)
  then show ?case using next_multiple [of n "ocol st"] by (simp add: reach_def)
qed simp

declare tabs_one.simps [simp del]

text \<open>\<open>while (ocol < dcol && n < nstops && ocol < limit) { putwchar('\t'); ocol = tabstops[n++]; }\<close>,
  on the stops from \<open>n\<close> on.\<close>

fun tabs_many :: "int \<Rightarrow> int list \<Rightarrow> un_state \<Rightarrow> un_state" where
  "tabs_many limit [] st = st"
| "tabs_many limit (t # ts) st =
     (if ocol st < dcol st \<and> ocol st < limit
      then tabs_many limit ts (st\<lparr>ocol := t, un_out := un_out st @ [9]\<rparr>) else st)"

definition un_blanks_out :: "int list \<Rightarrow> un_state \<Rightarrow> un_state" where
  "un_blanks_out tabstops st =
     (let st1 = (if length tabstops = 1 then tabs_one (hd tabstops) st
                 else tabs_many (un_limit tabstops) (drop (stop_index tabstops (ocol st)) tabstops) st);
          k = min (dcol st1) (un_limit tabstops) - ocol st1 in
      if 0 < k then st1\<lparr>ocol := ocol st1 + k, un_out := un_out st1 @ spaces k\<rparr> else st1)"

section \<open>One character\<close>

definition un_put :: "wlibc \<Rightarrow> int list \<Rightarrow> int \<Rightarrow> un_state \<Rightarrow> un_state" where
  "un_put lc tabstops ch st =
     (if ch = 8 then
        (if 0 < ocol st then st\<lparr>un_out := un_out st @ [8], ocol := ocol st - 1, dcol := dcol st - 1\<rparr>
         else st\<lparr>un_out := un_out st @ [8]\<rparr>)
      else if ch = 10 then st\<lparr>un_out := un_out st @ [10], doneline := False, ocol := 0, dcol := 0\<rparr>
      else if ch \<noteq> 32 \<or> un_limit tabstops < dcol st then
        (let w = wcwidth lc ch; st1 = st\<lparr>un_out := un_out st @ [ch]\<rparr> in
         if 0 < w
         then reach (max (ocol st + w) (dcol st + w)) (st1\<lparr>ocol := ocol st + w, dcol := dcol st + w\<rparr>)
         else st1)
      else st)"

text \<open>The body of the loop: the new state, and whether the rest of the line is copied.\<close>

definition un_char :: "wlibc \<Rightarrow> bool \<Rightarrow> int list \<Rightarrow> int \<Rightarrow> un_state \<Rightarrow> un_state \<times> bool" where
  "un_char lc al tabstops ch st =
     (case un_blank tabstops ch st of
        (True, st1) \<Rightarrow> (st1, False)
      | (False, st1) \<Rightarrow>
          let st2 = un_put lc tabstops ch (un_blanks_out tabstops st1) in
          (st2, ch \<noteq> 10 \<and> (\<not> al \<or> un_limit tabstops \<le> dcol st2)))"

definition copy_line :: "int list \<Rightarrow> un_state \<Rightarrow> un_state" where
  "copy_line w st =
     st\<lparr>un_out := un_out st @ takeWhile (\<lambda>c. c \<noteq> 10) w @ (if dropWhile (\<lambda>c. c \<noteq> 10) w \<noteq> [] then [10] else []),
        doneline := False, ocol := 0, dcol := 0\<rparr>"

lemma rest_shorter: "length (dropWhile P w) - Suc 0 < Suc (length w)"
  using length_dropWhile_le [of P w] by simp

function tabify_loop :: "wlibc \<Rightarrow> bool \<Rightarrow> int list \<Rightarrow> int list \<Rightarrow> un_state \<Rightarrow> un_state" where
  "tabify_loop lc al tabstops [] st = st"
| "tabify_loop lc al tabstops (ch # w) st =
     (case un_char lc al tabstops ch st of
        (st1, False) \<Rightarrow> tabify_loop lc al tabstops w st1
      | (st1, True) \<Rightarrow> tabify_loop lc al tabstops (tl (dropWhile (\<lambda>c. c \<noteq> 10) w)) (copy_line w st1))"
  by pat_completeness auto
termination
  by (relation "measure (\<lambda>(lc, al, ts, w, st). length w)") (auto simp: rest_shorter)

definition un_start :: "int list \<Rightarrow> un_state" where
  "un_start out = \<lparr>ocol = 0, dcol = 0, doneline = False, un_out = out, un_top = 0\<rparr>"

definition tabify :: "wlibc \<Rightarrow> bool \<Rightarrow> int list \<Rightarrow> string \<Rightarrow> wfile \<Rightarrow> woutcome \<Rightarrow> tab_stop + woutcome" where
  "tabify lc al tabstops curfile fp r =
     (let st = tabify_loop lc al tabstops (wtext fp) (un_start (wout r)) in
      if un_top st > INT_MAX then Inl Overflow
      else Inr (if werr fp then \<lparr>wout = un_out st, wdiags = wdiags r @ [Warn curfile], wstatus = 1\<rparr>
                else r\<lparr>wout := un_out st\<rparr>))"

section \<open>The main program\<close>

fun unexpand_options :: "wlibc \<Rightarrow> optev list \<Rightarrow> bool \<Rightarrow> int list \<Rightarrow> tab_stop + bool \<times> int list" where
  "unexpand_options lc [] al ts = Inr (al, ts)"
| "unexpand_options lc (Opt c arg # evs) al ts =
     (if c = CHR ''a'' then unexpand_options lc evs True ts
      else bind_r (getstops lc (the arg)) (unexpand_options lc evs True))"
| "unexpand_options lc (_ # evs) al ts = Inl (Leave (Plain ''usage: unexpand [-a | -t tablist] [file ...]''))"

fun tabify_files :: "wlibc \<Rightarrow> bool \<Rightarrow> int list \<Rightarrow> (string \<Rightarrow> wfile option) \<Rightarrow> string list \<Rightarrow> woutcome \<Rightarrow> tab_stop + woutcome" where
  "tabify_files lc al ts fs [] r = Inr r"
| "tabify_files lc al ts fs (nm # nms) r =
     (case fs nm of
        None \<Rightarrow> tabify_files lc al ts fs nms (r\<lparr>wdiags := wdiags r @ [Warn nm], wstatus := 1\<rparr>)
      | Some fp \<Rightarrow> bind_r (tabify lc al ts nm fp r) (tabify_files lc al ts fs nms))"

definition unexpand_main :: "wlibc \<Rightarrow> wfile \<Rightarrow> (string \<Rightarrow> wfile option) \<Rightarrow> string list \<Rightarrow> woutcome option" where
  "unexpand_main lc fp0 fs args =
     finish_tabs
       (case getopt ''at:'' args of (evs, argv) \<Rightarrow>
          bind_r (unexpand_options lc evs False [8]) (\<lambda>(al, ts).
            let r = \<lparr>wout = [], wdiags = [], wstatus = 0\<rparr> in
            if argv = [] then tabify lc al ts ''stdin'' fp0 r else tabify_files lc al ts fs argv r))"

section \<open>What expand makes of the output\<close>

lemma expand_text_snoc: "expand_text lc ts (w @ [c]) out = expand_char lc ts c (expand_text lc ts w out)"
  "expand_text lc ts (w @ v) out = fold (expand_char lc ts) v (expand_text lc ts w out)"
  by (simp_all add: expand_text_def)

lemma ex_put_simps [simp]:
  "column (ex_put w c e) = c" "ex_out (ex_put w c e) = ex_out e @ w" "ex_top (ex_put w c e) = max (ex_top e) c"
  by (simp_all add: ex_put_def)

lemma expand_top_mono: "ex_top e \<le> ex_top (fold (expand_char lc ts) w e)"
proof (induction w arbitrary: e)
  case (Cons c w)
  have "ex_top e \<le> ex_top (expand_char lc ts c e)" by (simp add: expand_char_def)
  then show ?case using Cons [of "expand_char lc ts c e"] by simp
qed simp

lemma expand_column_top: "column e \<le> ex_top e \<Longrightarrow> column (expand_char lc ts c e) \<le> ex_top (expand_char lc ts c e)"
  by (simp add: expand_char_def)

lemma expand_spaces:
  assumes "wcwidth lc 32 = 1"
  shows "column e \<le> ex_top e \<Longrightarrow> 0 \<le> k \<Longrightarrow> fold (expand_char lc ts) (spaces k) e = ex_put (spaces k) (column e + k) e"
proof (induction "nat k" arbitrary: k e)
  case 0
  then show ?case by (simp add: spaces_def ex_put_def max_def)
next
  case (Suc m)
  then have k: "spaces k = 32 # spaces (k - 1)" "m = nat (k - 1)" "0 \<le> k - 1"
    by (auto simp: spaces_def simp flip: replicate_Suc Suc_nat_eq_nat_zadd1)
  have "fold (expand_char lc ts) (spaces (k - 1)) (expand_char lc ts 32 e) =
      ex_put (spaces (k - 1)) (column e + k) (expand_char lc ts 32 e)"
    using Suc(1) [OF k(2), of "expand_char lc ts 32 e"] k(3) assms by (simp add: expand_char_def)
  then show ?case using k(3) assms by (simp add: k(1) expand_char_def ex_put_def)
qed

text \<open>The text written so far expands to the text read so far, but for the blanks held back.\<close>

definition behind :: "wlibc \<Rightarrow> int \<Rightarrow> un_state \<Rightarrow> ex_state \<Rightarrow> bool" where
  "behind lc n st e \<longleftrightarrow>
     0 \<le> ocol st \<and> ocol st \<le> dcol st \<and> \<not> doneline st \<and>
     column (expand_text lc [n] (un_out st) []) = ocol st \<and> column e = dcol st \<and>
     ex_out e = ex_out (expand_text lc [n] (un_out st) []) @ spaces (dcol st - ocol st) \<and>
     ocol st \<le> ex_top (expand_text lc [n] (un_out st) []) \<and>
     ex_top (expand_text lc [n] (un_out st) []) \<le> ex_top e \<and> dcol st \<le> ex_top e \<and> un_top st \<le> ex_top e + n"

lemma spaces_split: "0 \<le> a \<Longrightarrow> 0 \<le> b \<Longrightarrow> spaces (a + b) = spaces a @ spaces b"
  by (simp add: spaces_def nat_add_distrib replicate_add)

lemma tabs_one_behind:
  assumes "0 < n"
  shows "behind lc n st e \<Longrightarrow> behind lc n (tabs_one n st) e \<and> dcol (tabs_one n st) = dcol st"
proof (induction n st rule: tabs_one.induct)
  case (1 n st)
  define st1 where "st1 = reach (ocol st + n) st"
  have b1: "behind lc n st1 e" using "1.prems" by (auto simp: behind_def st1_def reach_def)
  show ?case
  proof (cases "0 < n \<and> (ocol st + n) div n \<le> dcol st div n \<and> \<not> dcol st - ocol st < 2")
    case False
    then have "tabs_one n st = st1" by (subst tabs_one.simps) (auto simp: st1_def Let_def)
    then show ?thesis using b1 by (simp add: st1_def reach_def)
  next
    case True
    define m where "m = (1 + ocol st div n) * n"
    define st2 where "st2 = reach m (st1\<lparr>ocol := m, un_out := un_out st @ [9]\<rparr>)"
    have "(ocol st + n) div n = ocol st div n + 1" using True by (intro div_add_self2) auto
    then have "1 + ocol st div n \<le> dcol st div n" using True by linarith
    then have "m \<le> dcol st div n * n" using True by (simp add: m_def mult_right_mono)
    also have "\<dots> \<le> dcol st" using True div_mult_mod_eq [of "dcol st" n] pos_mod_sign [of n "dcol st"] by linarith
    finally have m: "ocol st < m" "m \<le> dcol st" using next_multiple [of n "ocol st"] True by (auto simp: m_def)
    have tc: "tab_column [n] (ocol st) = m" using True by (simp add: tab_column_def pad_stop_next m_def)
    have "spaces (dcol st - ocol st) = spaces (m - ocol st) @ spaces (dcol st - m)"
      using spaces_split [of "m - ocol st" "dcol st - m"] m by simp
    then have "behind lc n st2 e"
      using "1.prems" m tc True by (auto simp: behind_def st2_def st1_def reach_def expand_text_snoc(1) expand_char_def)
    moreover have "tabs_one n st = tabs_one n st2"
      using True by (simp add: tabs_one.simps [of n st] st1_def st2_def m_def Let_def)
    moreover have "dcol st2 = dcol st" by (simp add: st2_def st1_def reach_def)
    ultimately show ?thesis using "1.IH" [of st1] True by (simp add: st1_def st2_def m_def)
  qed
qed

lemma blanks_out_behind:
  assumes "0 < n" "wcwidth lc 32 = 1" "behind lc n st e" "ex_top e + n \<le> INT_MAX"
  shows "behind lc n (un_blanks_out [n] st) e \<and> ocol (un_blanks_out [n] st) = dcol st \<and> dcol (un_blanks_out [n] st) = dcol st"
proof -
  define st1 where "st1 = tabs_one n st"
  have b: "behind lc n st1 e" "dcol st1 = dcol st" using tabs_one_behind [OF assms(1,3)] by (simp_all add: st1_def)
  define eU where "eU = expand_text lc [n] (un_out st1) []"
  have eU: "column eU = ocol st1" "column eU \<le> ex_top eU" "ocol st1 \<le> dcol st1"
    using b(1) by (simp_all add: behind_def eU_def)
  have lim: "dcol st1 < un_limit [n]" using b(1) assms(1,4) by (simp add: behind_def un_limit_def)
  define k where "k = dcol st1 - ocol st1"
  have u: "un_blanks_out [n] st = (if 0 < k then st1\<lparr>ocol := ocol st1 + k, un_out := un_out st1 @ spaces k\<rparr> else st1)"
    using lim eU(3) by (auto simp: un_blanks_out_def st1_def [symmetric] k_def Let_def)
  show ?thesis
  proof (cases "0 < k")
    case True
    have "expand_text lc [n] (un_out st1 @ spaces k) [] = ex_put (spaces k) (dcol st1) eU"
      using expand_spaces [OF assms(2) eU(2), of k "[n]"] True eU(1) by (simp add: expand_text_snoc(2) eU_def k_def)
    then show ?thesis using u True b by (auto simp: behind_def eU_def k_def spaces_def)
  next
    case False
    then show ?thesis using u b eU(3) by (simp add: k_def)
  qed
qed

lemma un_put_behind:
  assumes "behind lc n st e" "ocol st = dcol st" "ch \<noteq> 32" "ch \<noteq> 9" "0 < n"
  shows "behind lc n (un_put lc [n] ch st) (expand_char lc [n] ch e) \<and>
    ocol (un_put lc [n] ch st) = dcol (un_put lc [n] ch st)"
  using assms
  by (auto simp: behind_def un_put_def expand_char_def expand_text_snoc(1) reach_def Let_def spaces_def)

lemma un_char_behind:
  assumes "0 < n" "wcwidth lc 32 = 1" "behind lc n st e" "ex_top (expand_char lc [n] ch e) + n \<le> INT_MAX"
    "un_char lc al [n] ch st = (st', cp)"
  shows "behind lc n st' (expand_char lc [n] ch e) \<and> (ch \<noteq> 32 \<and> ch \<noteq> 9 \<longrightarrow> ocol st' = dcol st') \<and>
    (cp \<longrightarrow> ch \<noteq> 10 \<and> ch \<noteq> 32 \<and> ch \<noteq> 9)"
proof -
  have top: "ex_top e + n \<le> INT_MAX" using assms(4) expand_top_mono [of e lc "[n]" "[ch]"] by simp
  show ?thesis
  proof (cases "ch = 32 \<or> ch = 9")
    case True
    define d where "d = (if ch = 32 then dcol st + 1 else (1 + dcol st div n) * n)"
    have d: "dcol st < d" "d = column (expand_char lc [n] ch e)"
      using True assms(1-3) next_multiple [of n "dcol st"]
      by (auto simp: d_def expand_char_def behind_def tab_column_def pad_stop_next)
    have col: "expand_char lc [n] ch e = ex_put (spaces (d - dcol st)) d e"
      using True assms(1-3) by (auto simp: d_def expand_char_def behind_def tab_column_def pad_stop_next spaces_def)
    have "d < INT_MAX" using assms(1,4) unfolding col by simp
    then have st': "st' = reach d (st\<lparr>dcol := d\<rparr>)" "\<not> cp"
      using assms(3,5) True by (auto simp: un_char_def un_blank_def d_def behind_def un_limit_def reach_def Let_def)
    have "spaces (d - ocol st) = spaces (dcol st - ocol st) @ spaces (d - dcol st)"
      using spaces_split [of "dcol st - ocol st" "d - dcol st"] d(1) assms(3) by (simp add: behind_def)
    then show ?thesis using assms(1,3) d(1) st' True unfolding col by (auto simp: behind_def reach_def)
  next
    case False
    define st1 where "st1 = un_blanks_out [n] st"
    have b: "behind lc n st1 e" "ocol st1 = dcol st1"
      using blanks_out_behind [OF assms(1-3) top] by (simp_all add: st1_def)
    have "st' = un_put lc [n] ch st1" "cp \<longrightarrow> ch \<noteq> 10"
      using assms(5) False by (auto simp: un_char_def un_blank_def st1_def Let_def)
    then show ?thesis using un_put_behind [OF b _ _ assms(1), of ch] False by simp
  qed
qed

text \<open>Once nothing is held back, the two expansions go on alike.\<close>

definition level :: "ex_state \<Rightarrow> ex_state \<Rightarrow> bool" where
  "level e e' \<longleftrightarrow> column e = column e' \<and> ex_out e = ex_out e' \<and> ex_top e \<le> ex_top e'"

lemma level_fold: "level e e' \<Longrightarrow> level (fold (expand_char lc ts) w e) (fold (expand_char lc ts) w e')"
proof (induction w arbitrary: e e')
  case (Cons c w)
  have "level (expand_char lc ts c e) (expand_char lc ts c e')"
    using Cons.prems by (auto simp: level_def expand_char_def)
  then show ?case using Cons.IH by simp
qed simp

lemma behind_level: "behind lc n st e \<Longrightarrow> ocol st = dcol st \<Longrightarrow> level (expand_text lc [n] (un_out st) []) e"
  by (simp add: behind_def level_def spaces_def)

lemma copy_line_behind:
  assumes "behind lc n st e" "ocol st = dcol st" "0 < n" "10 \<notin> set l"
  shows "behind lc n (copy_line (l @ 10 # r) st) (fold (expand_char lc [n]) (l @ [10]) e)"
proof -
  define eL where "eL = fold (expand_char lc [n]) l e"
  define eU where "eU = fold (expand_char lc [n]) l (expand_text lc [n] (un_out st) [])"
  have "level eU eL" using level_fold [OF behind_level [OF assms(1,2)]] by (simp add: eL_def eU_def)
  moreover have "ex_top e \<le> ex_top eL" by (simp add: eL_def expand_top_mono)
  moreover have "takeWhile (\<lambda>c. c \<noteq> 10) (l @ 10 # r) = l" "dropWhile (\<lambda>c. c \<noteq> 10) (l @ 10 # r) = 10 # r"
    using assms(4) by (simp_all add: takeWhile_line dropWhile_line)
  moreover have "expand_text lc [n] (un_out st @ l @ [10]) [] = expand_char lc [n] 10 eU"
    by (simp add: eU_def expand_text_def)
  moreover have "fold (expand_char lc [n]) (l @ [10]) e = expand_char lc [n] 10 eL" by (simp add: eL_def)
  ultimately show ?thesis
    using assms(1,3) by (auto simp: copy_line_def behind_def level_def expand_char_def spaces_def)
qed

lemma tabify_expands:
  assumes "0 < n" "wcwidth lc 32 = 1"
  shows "behind lc n st e \<Longrightarrow> (if w = [] then ocol st = dcol st else last w = 10) \<Longrightarrow>
    ex_top (fold (expand_char lc [n]) w e) + n \<le> INT_MAX \<Longrightarrow>
    behind lc n (tabify_loop lc al [n] w st) (fold (expand_char lc [n]) w e) \<and>
    ocol (tabify_loop lc al [n] w st) = dcol (tabify_loop lc al [n] w st)"
proof (induction "length w" arbitrary: w st e rule: less_induct)
  case less
  show ?case
  proof (cases w)
    case Nil
    then show ?thesis using less.prems by simp
  next
    case (Cons ch v)
    define e1 where "e1 = expand_char lc [n] ch e"
    obtain st1 cp where c: "un_char lc al [n] ch st = (st1, cp)" by fastforce
    have "ex_top e1 + n \<le> INT_MAX"
      using less.prems(3) Cons expand_top_mono [of e1 lc "[n]" v] by (simp add: e1_def)
    then have b: "behind lc n st1 e1" "ch \<noteq> 32 \<and> ch \<noteq> 9 \<longrightarrow> ocol st1 = dcol st1" "cp \<longrightarrow> ch \<noteq> 10 \<and> ch \<noteq> 32 \<and> ch \<noteq> 9"
      using un_char_behind [OF assms less.prems(1) _ c] by (simp_all add: e1_def)
    show ?thesis
    proof (cases cp)
      case False
      then show ?thesis using less.hyps [of v st1 e1] less.prems(2,3) Cons b c
        by (auto simp: e1_def split: if_splits)
    next
      case True
      then have "v \<noteq> []" "last v = 10" using less.prems(2) Cons b(3) by (auto split: if_splits)
      then have "10 \<in> set v" by (metis last_in_set)
      then obtain l r where v: "v = l @ 10 # r" "10 \<notin> set l" by (meson split_list_first)
      define e2 where "e2 = fold (expand_char lc [n]) (l @ [10]) e1"
      have d: "dropWhile (\<lambda>c. c \<noteq> 10) v = 10 # r" using v by (simp add: dropWhile_line)
      have b2: "behind lc n (copy_line v st1) e2"
        using copy_line_behind [OF b(1) _ assms(1) v(2), of r] b(2,3) True v(1) by (simp add: e2_def)
      have f: "fold (expand_char lc [n]) w e = fold (expand_char lc [n]) r e2"
        by (simp add: Cons v e2_def e1_def)
      have "r \<noteq> [] \<Longrightarrow> last r = 10" using less.prems(2) Cons v by (simp split: if_splits)
      then have end_r: "if r = [] then ocol (copy_line v st1) = dcol (copy_line v st1) else last r = 10"
        by (simp add: copy_line_def)
      have len: "length r < length w" by (simp add: Cons v)
      have "behind lc n (tabify_loop lc al [n] r (copy_line v st1)) (fold (expand_char lc [n]) r e2) \<and>
          ocol (tabify_loop lc al [n] r (copy_line v st1)) = dcol (tabify_loop lc al [n] r (copy_line v st1))"
        using less.hyps [OF len b2 end_r] less.prems(3) unfolding f by blast
      then show ?thesis unfolding f using c True d by (simp add: Cons)
    qed
  qed
qed

section \<open>Properties\<close>

text \<open>C9: \<^verbatim>\<open>expand\<close> undoes \<^verbatim>\<open>unexpand\<close>. For one tab stop \<open>n\<close> and a text whose last line is ended, if the
  columns of the text stay \<open>n\<close> below \<open>INT_MAX\<close>, \<^verbatim>\<open>unexpand\<close> returns a text (of leading blanks, or of all
  with \<^verbatim>\<open>-a\<close>) that \<^verbatim>\<open>expand\<close> turns into the very text it makes of the original: no column moves.\<close>

theorem expand_unexpand:
  assumes "0 < n" "wcwidth lc 32 = 1" "ends_line 10 w"
    and "ex_top (expand_text lc [n] w []) + n \<le> INT_MAX" "n \<le> INT_MAX"
  shows "\<exists>u. tabify lc al [n] nm \<lparr>wtext = w, werr = False\<rparr> \<lparr>wout = [], wdiags = [], wstatus = 0\<rparr> =
      Inr \<lparr>wout = u, wdiags = [], wstatus = 0\<rparr> \<and>
    expand_stream lc [n] nm' \<lparr>wtext = u, werr = False\<rparr> \<lparr>wout = [], wdiags = [], wstatus = 0\<rparr> =
    expand_stream lc [n] nm' \<lparr>wtext = w, werr = False\<rparr> \<lparr>wout = [], wdiags = [], wstatus = 0\<rparr>"
proof -
  define st where "st = tabify_loop lc al [n] w (un_start [])"
  define e where "e = expand_text lc [n] w []"
  have start: "behind lc n (un_start []) (expand_text lc [n] [] [])"
    using assms(1) by (simp add: behind_def un_start_def expand_text_def spaces_def)
  have w: "if w = [] then ocol (un_start []) = dcol (un_start []) else last w = 10"
    using assms(3) by (auto simp: ends_line_def un_start_def)
  have b: "behind lc n st e" "ocol st = dcol st"
    using tabify_expands [OF assms(1,2) start w, of al] assms(4)
    by (simp_all add: st_def e_def expand_text_def)
  have lv: "level (expand_text lc [n] (un_out st) []) e" using behind_level [OF b] .
  have "un_top st \<le> INT_MAX" using b(1) assms(4) by (simp add: behind_def e_def)
  then have "tabify lc al [n] nm \<lparr>wtext = w, werr = False\<rparr> \<lparr>wout = [], wdiags = [], wstatus = 0\<rparr> =
      Inr \<lparr>wout = un_out st, wdiags = [], wstatus = 0\<rparr>"
    by (simp add: tabify_def st_def)
  moreover have "expand_stream lc [n] nm' \<lparr>wtext = un_out st, werr = False\<rparr> \<lparr>wout = [], wdiags = [], wstatus = 0\<rparr> =
      expand_stream lc [n] nm' \<lparr>wtext = w, werr = False\<rparr> \<lparr>wout = [], wdiags = [], wstatus = 0\<rparr>"
    using lv assms(1,4) by (simp add: expand_stream_def level_def e_def)
  ultimately show ?thesis by blast
qed

theorem expand_unexpand_witness:
  "\<exists>u. tabify c_wlocale True [4] [] \<lparr>wtext = [32, 32, 32, 32, 97, 10], werr = False\<rparr> \<lparr>wout = [], wdiags = [], wstatus = 0\<rparr> =
      Inr \<lparr>wout = u, wdiags = [], wstatus = 0\<rparr> \<and>
    expand_stream c_wlocale [4] [] \<lparr>wtext = u, werr = False\<rparr> \<lparr>wout = [], wdiags = [], wstatus = 0\<rparr> =
    expand_stream c_wlocale [4] [] \<lparr>wtext = [32, 32, 32, 32, 97, 10], werr = False\<rparr> \<lparr>wout = [], wdiags = [], wstatus = 0\<rparr>"
  by (rule expand_unexpand) (simp_all add: ends_line_def expand_text_def expand_char_def ex_put_def)

text \<open>With several tab stops \<^verbatim>\<open>unexpand\<close> can move text: it writes tabs while the output is left of the
  input's column and does not look whether the next stop is beyond it. With \<^verbatim>\<open>-t 4,8,16\<close>, six blanks and a
  letter become two tabs and the letter, which \<^verbatim>\<open>expand -t 4,8,16\<close> puts in column 8.\<close>

lemma unexpand_overshoots:
  "unexpand_main c_wlocale \<lparr>wtext = [32, 32, 32, 32, 32, 32, 97, 10], werr = False\<rparr> (\<lambda>_. None) [''-t'', ''4,8,16''] =
     Some \<lparr>wout = [9, 9, 97, 10], wdiags = [], wstatus = 0\<rparr> \<and>
   expand_main c_wlocale \<lparr>wtext = [9, 9, 97, 10], werr = False\<rparr> (\<lambda>_. None) [''-t'', ''4,8,16''] =
     Some \<lparr>wout = [32, 32, 32, 32, 32, 32, 32, 32, 97, 10], wdiags = [], wstatus = 0\<rparr>"
  by code_simp

text \<open>Blanks at the end of a text that does not end in a newline are lost.\<close>

lemma unexpand_drops_blanks:
  "unexpand_main c_wlocale \<lparr>wtext = [97, 10, 32, 32], werr = False\<rparr> (\<lambda>_. None) [''-a''] =
     Some \<lparr>wout = [97, 10], wdiags = [], wstatus = 0\<rparr>"
  by code_simp

text \<open>With \<^verbatim>\<open>-a\<close> a tab can stand for a single blank: the test is on the blanks that are left, not on those the
  tab replaces. Seven letters and two blanks give a tab and a blank.\<close>

lemma unexpand_tab_for_one:
  "unexpand_main c_wlocale \<lparr>wtext = [97, 97, 97, 97, 97, 97, 97, 32, 32, 97, 10], werr = False\<rparr> (\<lambda>_. None) [''-a''] =
     Some \<lparr>wout = [97, 97, 97, 97, 97, 97, 97, 9, 32, 97, 10], wdiags = [], wstatus = 0\<rparr>"
  by code_simp

end
