(* ===== verification/Spec2Isabelle.thy ===== *)
theory Spec2Isabelle
  imports Cksum Dd_Main Tr_Safe Test_Props Compress_Props Zuncompress_Safe Unpack_Props Alias_Util
    Look_Props Comm Uniq Unexpand
begin

text \<open>
  \<^bold>\<open>What is verified.\<close> The repository is a terminal application for iOS. It builds the command
  collections of a BSD userland into one program: \<^verbatim>\<open>MobileTerminal/file_cmds-251\<close>,
  \<^verbatim>\<open>text_cmds-88\<close>, \<^verbatim>\<open>shell_cmds-187\<close>, \<^verbatim>\<open>adv_cmds-163\<close>, \<^verbatim>\<open>network_cmds-481.20.1\<close> and
  \<^verbatim>\<open>remote_cmds-48\<close>, all in C, under a user interface in Objective-C. The commands do not
  call one another; they share the C library and the kernel. This development takes commands
  whose work is a computation on data rather than a sequence of system calls, and models each of
  them completely: \<open>cksum\<close>/\<open>sum\<close>, \<open>dd\<close>, \<open>compress\<close>/\<open>uncompress\<close>, \<open>tr\<close>, \<open>test\<close>/\<open>[\<close>,
  \<open>look\<close>, \<open>comm\<close>, \<open>uniq\<close>, \<open>expand\<close> and \<open>unexpand\<close>. Of larger programs it takes files that are components of
  their own: the two decoders of \<open>gzip\<close> that do not rest on a foreign library, and the checksums of the packet
  aliasing library.

  \<^bold>\<open>How code is modelled.\<close> A struct is a \<open>record\<close>, an enum a \<open>datatype\<close>, a byte an
  \<open>8 word\<close>; integers keep their width (words or an explicit \<open>mod\<close>) where the code can overflow
  them and are \<open>int\<close> or \<open>nat\<close> elsewhere; the program is built for 32 bits. State is passed
  explicitly. A computation that can stop early (an \<open>err\<close>, an \<open>exit\<close>, an access outside an array,
  a failed assertion, a null dereference) has a sum type with the stop on the left; one that may
  not return is an option, by \<open>partial_function\<close>, or takes fuel; \<^verbatim>\<open>Prelude\<close> has the two binds
  \<open>bind_r\<close> and \<open>bind_run\<close>. The kernel and the C library are environment records and scripts:
  what \<open>read\<close> delivers, how much \<open>write\<close> accepts, which stdio call fails, what \<open>stat\<close> answers, the
  locale. Every definition is executable and was tried on concrete input.

  \<^bold>\<open>Prelude.\<close> Types, binds, scripts of \<open>read\<close> results and the contents they amount to, \<open>getopt\<close>,
  and the C library's \<open>strcmp\<close>, \<open>mergesort\<close>, \<open>strtol\<close> family and rendering of numbers.

  \<^bold>\<open>cksum\<close> (\<^verbatim>\<open>file_cmds-251/cksum\<close>; theory \<^verbatim>\<open>Cksum\<close>). \<open>crc\<close>, \<open>crc32\<close>, \<open>csum1\<close>, \<open>csum2\<close> with
  their tables, \<open>pcrc\<close> and \<open>psum\<close>, \<open>cksum_main\<close>. The locale \<open>crc_register\<close> states what makes a
  table the byte-wise form of a bit-serial register, and is interpreted on both tables of the
  code; the locale \<open>checksum_routine\<close> states what \<open>main\<close> relies on and is interpreted on all four
  routines. Shown: each routine equals its bit- or byte-wise specification however the reads cut
  the file; the running total over all files; what \<open>main\<close> prints and its exit status.

  \<^bold>\<open>dd\<close> (\<^verbatim>\<open>file_cmds-251/dd\<close>). \<^verbatim>\<open>Dd_State\<close> has the state with the two buffers as one memory,
  \<^verbatim>\<open>Dd_Args\<close> the operands (\<open>jcl\<close>, \<open>get_num\<close>, \<open>get_off_t\<close>), \<^verbatim>\<open>Dd_Tables\<close> the translation tables,
  \<^verbatim>\<open>Dd_Conv\<close> the conversions \<open>def\<close>, \<open>block\<close>, \<open>unblock\<close>, \<^verbatim>\<open>Dd_Out\<close> \<open>dd_out\<close>, \<^verbatim>\<open>Dd_Copy\<close> \<open>dd_in\<close> and
  \<open>dd_close\<close>, \<^verbatim>\<open>Dd_Main\<close> \<open>setup\<close> and \<open>main\<close>. \<^verbatim>\<open>Dd_Spec\<close> states a conversion as an interface, the
  locale \<open>conversion\<close>: a machine that reads blocks and has written so much; \<^verbatim>\<open>Dd_Loop\<close> proves the
  copying loop correct once for every conversion, and \<^verbatim>\<open>Dd_Records\<close> proves that \<open>block\<close> and
  \<open>unblock\<close> implement their record machines. Shown: a copy delivers the padded, byte-swapped,
  translated input for all block sizes, short reads and short or interrupted writes; blocking,
  unblocking and their round trip; what \<open>jcl\<close> accepts is consistent; and departures from the manual
  and the comments, each as a theorem.

  \<^bold>\<open>compress\<close> (\<^verbatim>\<open>file_cmds-251/compress\<close>). \<^verbatim>\<open>Z_State\<close> has \<^verbatim>\<open>zopen.c\<close>, the library: \<open>zwrite\<close>,
  \<open>zclose\<close>, \<open>output\<close>, \<open>cl_block\<close>, \<open>cl_hash\<close>, \<open>zread\<close>, \<open>getcode\<close>, \<open>zopen\<close>. \<^verbatim>\<open>Z_Bits\<close>: packing and
  unpacking of codes. \<^verbatim>\<open>Z_Hash\<close>: the hash table with double hashing represents the string table,
  and the probing ends because 69001 is prime and the table never fills. \<^verbatim>\<open>Z_Lzw\<close>: the method
  itself, a sender and a receiver one table entry behind. \<^verbatim>\<open>Z_Frames\<close>: the groups of codes and the
  changes of width as a function of the codes sent. \<^verbatim>\<open>Z_Write\<close>: the writer follows sender and
  layout. \<^verbatim>\<open>Z_Getcode\<close> and \<^verbatim>\<open>Z_Read\<close>: the reader follows layout and receiver. \<^verbatim>\<open>Z_Errs\<close>: success
  means that no write failed. \<^verbatim>\<open>Z_Safe\<close>: reading arbitrary files. \<^verbatim>\<open>Z_Props\<close>: the round trip for all
  data and all ways to cut it into calls, error reporting, memory safety for files that start
  with a character, and a file of eight bytes that breaks it. On top of the library,
  \<^verbatim>\<open>Compress\<close> has \<^verbatim>\<open>compress.c\<close>: options and operands, \<open>compress\<close>, \<open>decompress\<close>, \<open>setfile\<close>,
  \<open>permission\<close>, over a map from path names to files. Between the two lies the buffering of stdio, a
  parameter; its law, that data are handed on in order, is the locale \<open>stdio_layer\<close> of
  \<^verbatim>\<open>Compress_Copy\<close>, in which the copying loops are proved, and which is interpreted on a buffer of
  \<open>BUFSIZ\<close> bytes. \<^verbatim>\<open>Compress_Props\<close>: compressing and uncompressing restores a file with its
  attributes; files are only replaced by smaller ones; whatever call fails, the input is removed
  only when the output is complete.

  \<^bold>\<open>Decoders of gzip\<close> (\<^verbatim>\<open>file_cmds-251/gzip\<close>). \<^verbatim>\<open>Zuncompress\<close> has \<^verbatim>\<open>zuncompress.c\<close>, a descendant of
  \<^verbatim>\<open>zopen.c\<close> with bytes read in advance, a check of the first code and a copying loop over stdio.
  \<^verbatim>\<open>Zuncompress_Sim\<close>: it follows the reader of \<^verbatim>\<open>Z_State\<close> step by step on the joined input, so the
  results on one carry over to the other. \<^verbatim>\<open>Zuncompress_Props\<close>: complete files, and the locale
  \<open>stream_reader\<close> of what \<open>fread\<close> needs of a reading function, interpreted on this one.
  \<^verbatim>\<open>Zuncompress_Safe\<close>: \<open>gzip\<close> decodes what \<open>compress\<close> writes, and returns safely on every file, the one that breaks
  \<open>zopen.c\<close> included. \<^verbatim>\<open>Unpack\<close> has \<^verbatim>\<open>unpack.c\<close>, the decoder of \<open>pack(1)\<close> files; \<^verbatim>\<open>Unpack_Props\<close> shows that it
  inverts the encoding by any full Huffman tree, that the tables are built inside their memory, and that a corrupt
  file makes the decoder read behind them.

  \<^bold>\<open>Checksums of packets\<close> (\<^verbatim>\<open>network_cmds-481.20.1/alias/alias_util.c\<close>; theory \<^verbatim>\<open>Alias_Util\<close>). The
  routines sum 16-bit words in the order of the machine; shown equal to the one's complement sum of RFC 1071 over
  words in network order, for the IP header and the TCP segment with its pseudo header; and the differential
  update keeps a checksum right when words of the packet change.

  \<^bold>\<open>tr\<close> (\<^verbatim>\<open>text_cmds-88/tr\<close>). \<^verbatim>\<open>Splay\<close>: the top-down splay both trees use, over the locale
  \<open>search_order\<close>. \<^verbatim>\<open>Tr_Set\<close> and \<^verbatim>\<open>Tr_Map\<close>: \<open>cset.c\<close> and \<open>cmap.c\<close>, refinements of a set and a
  function. \<^verbatim>\<open>Tr_Lib\<close>: the locale functions of the C library as a record, with the \<open>C\<close> locale as
  instance. \<^verbatim>\<open>Tr_Str\<close>: \<open>str.c\<close>, the scanner \<open>next\<close>. \<^verbatim>\<open>Tr_Main\<close>: \<open>tr.c\<close>. \<^verbatim>\<open>Tr_Items\<close> relates \<open>next\<close> to
  the language of operand strings, \<^verbatim>\<open>Tr_Pairs\<close> the construction of the map to pairing. \<^verbatim>\<open>Tr_Spec\<close> has
  the interfaces \<open>charset\<close>, \<open>charmap\<close> and \<open>translator\<close> the copying loops need, interpreted on the
  two trees. \<^verbatim>\<open>Tr_Props\<close>, \<^verbatim>\<open>Tr_Chars\<close>, \<^verbatim>\<open>Tr_Safe\<close>: what every synopsis form computes, memory safety of
  the scanner, and three departures.

  \<^bold>\<open>Filters on lines\<close> (\<^verbatim>\<open>text_cmds-88\<close>). \<^verbatim>\<open>Text_Lib\<close>: texts and their lines, wide streams with
  \<open>getwc\<close> and \<open>fgetws\<close>, collation as the comparison of a key, the laws of a multibyte encoding.
  \<^verbatim>\<open>Look\<close> has \<open>look.c\<close>; \<^verbatim>\<open>Look_Props\<close> shows that its binary search, linear search and printing on a sorted
  file are a filter over the lines, and that \<open>compare\<close> does not return on a NUL byte. \<^verbatim>\<open>Comm\<close>:
  \<open>comm.c\<close>, with the streams as a store because both operands can be the standard input, refines a merge
  into columns that are multiset differences and the intersection. \<^verbatim>\<open>Uniq\<close>: \<open>uniq.c\<close> is a map over the
  runs of lines with equal keys. \<^verbatim>\<open>Expand\<close> and \<^verbatim>\<open>Unexpand\<close>: \<open>expand.c\<close> and \<open>unexpand.c\<close>, the tab lists
  they accept, and that \<open>expand\<close> undoes \<open>unexpand\<close> with one tab stop and not with several. Column and repeat
  counters are \<open>int\<close>s of the program: a run in which one leaves its range ends in \<open>Overflow\<close>.

  \<^bold>\<open>test\<close> (\<^verbatim>\<open>shell_cmds-187/test/test.c\<close>). \<^verbatim>\<open>Test_Cmd\<close>: operator table, lexer, the recursive
  descent evaluator with its global word pointer, number parsing, file tests, \<open>main\<close> with its
  special cases. \<^verbatim>\<open>Test_Parse\<close>: the evaluator over positions, and that it ends. \<^verbatim>\<open>Test_Cond\<close>: the
  conditions, how they are written and what they mean. \<^verbatim>\<open>Test_Props\<close>: evaluation equals meaning for
  every written condition, exit statuses, \<open>[\<close>, the special cases.

  \<^bold>\<open>Bounds and fuel.\<close> \<open>tr\<close> takes fuel for the loops over an operand string, which need not end (one
  theorem shows one that does not); the properties hold for any fuel above a bound in the length of
  the expanded operands. The
  evaluator of \<open>test\<close> recurses on what is left of the argument vector. \<open>probe\<close>, the loops of
  both \<open>zread\<close>s and of \<open>zuncompress\<close>, and \<open>compare\<close> of \<open>look\<close> are \<open>partial_function\<close>s; the properties state their results, so they include that the
  loops end. The remaining loops are structural or have a measure.

  \<^bold>\<open>Not modelled, and why.\<close> The user interface, the terminal emulation and the loading of commands
  (Objective-C, \<open>VT100\<close>, \<open>Interpose\<close>, \<open>FindEntryPointOfImage\<close>). Of the command collections: commands that
  are sequences of system calls with little computation of their own (\<open>cp\<close>, \<open>mv\<close>, \<open>rm\<close>, \<open>ls\<close>, \<open>chmod\<close>,
  \<open>ps\<close>, \<open>kill\<close> and the like); commands around a library that is not in
  the repository (the rest of \<open>gzip\<close> around zlib, \<open>md5\<close> around CommonCrypto); network programs, whose behaviour
  is that of sockets and peers (\<open>network_cmds\<close>, \<open>remote_cmds\<close>; the packet aliasing beyond its checksums keeps
  tables of links with timers and is a candidate for later work); \<open>unbound\<close>, a third-party name server
  with generated parsers; and large text tools that are candidates for later work (\<open>sort\<close>, \<open>sed\<close>,
  \<open>ed\<close>, \<open>pax\<close>, \<open>find\<close>). Within the modelled commands: multi-byte encodings of \<open>tr\<close> below the level of
  wide characters, the wall clock in the statistics of \<open>dd\<close>, the percentages \<open>compress -v\<close> prints, the counters of \<open>zopen.c\<close> as 32-bit
  integers (they only steer when the table is cleared, never what is decoded), and \<open>zclose\<close> of a
  stream open for reading, which only closes and frees.
\<close>

end
